(* ===== verification/Prelude.thy ===== *)
theory Prelude
  imports Main "HOL-Library.Word" "HOL-Library.Code_Target_Nat"
begin

text \<open>
  Shared vocabulary of the development: the machine integers and byte strings of the
  Rust host, \<open>Result\<close> values and the \<open>?\<close> operator, checked and saturating arithmetic,
  little-endian fields, slices and in-place writes of byte buffers, and the text
  predicates of the Rust standard library that the validators use.
\<close>

section \<open>Machine types\<close>

type_synonym u8 = "8 word"
type_synonym u16 = "16 word"
type_synonym u32 = "32 word"
type_synonym u64 = "64 word"

text \<open>
  A value of Rust type \<open>i64\<close>, \<open>i32\<close> or \<open>i16\<close> is an \<open>int\<close>; every place where the
  source checks or clamps the range says so in the model. \<open>usize\<close> counts are \<open>nat\<close>.
\<close>

definition i64_max :: int where
  "i64_max = 9223372036854775807"

definition u32_max :: nat where
  "u32_max = 4294967295"

named_theorems bytes_simps \<open>slices, lengths and little-endian fields of byte buffers\<close>
named_theorems wire_defs \<open>definitions of the packet encoders and decoders\<close>
named_theorems txn_simps \<open>results of transactions and of the error operator\<close>
named_theorems store_inv_intros \<open>preservation of the store invariants\<close>

section \<open>Results and the error operator\<close>

abbreviation Ok :: "'a \<Rightarrow> 'e + 'a" where
  "Ok \<equiv> Inr"

abbreviation Err :: "'e \<Rightarrow> 'e + 'a" where
  "Err \<equiv> Inl"

text \<open>\<open>and_then r f\<close> is the source's \<open>let x = r?; f(x)\<close>.\<close>

definition and_then :: "'e + 'a \<Rightarrow> ('a \<Rightarrow> 'e + 'b) \<Rightarrow> 'e + 'b" where
  "and_then r f = (case r of Inl e \<Rightarrow> Inl e | Inr x \<Rightarrow> f x)"

lemma and_then_simps [simp]:
  "and_then (Inl e) f = Inl e"
  "and_then (Inr x) f = f x"
  by (simp_all add: and_then_def)

lemma and_then_Ok_iff:
  "and_then r f = Inr y \<longleftrightarrow> (\<exists>x. r = Inr x \<and> f x = Inr y)"
  by (cases r) auto

lemma and_then_cong [fundef_cong]:
  "r = r' \<Longrightarrow> (\<And>x. r' = Inr x \<Longrightarrow> f x = f' x) \<Longrightarrow> and_then r f = and_then r' f'"
  by (cases r') auto

definition map_err :: "('e \<Rightarrow> 'f) \<Rightarrow> 'e + 'a \<Rightarrow> 'f + 'a" where
  "map_err g r = (case r of Inl e \<Rightarrow> Inl (g e) | Inr x \<Rightarrow> Inr x)"

lemma map_err_simps [simp]:
  "map_err g (Inl e) = Inl (g e)"
  "map_err g (Inr x) = Inr x"
  by (simp_all add: map_err_def)

lemma map_err_Ok_iff: "map_err g r = Inr y \<longleftrightarrow> r = Inr y"
  by (cases r) auto

definition ok_or :: "'e \<Rightarrow> 'a option \<Rightarrow> 'e + 'a" where
  "ok_or e v = (case v of None \<Rightarrow> Inl e | Some x \<Rightarrow> Inr x)"

lemma ok_or_simps [simp]:
  "ok_or e None = Inl e"
  "ok_or e (Some x) = Inr x"
  by (simp_all add: ok_or_def)

section \<open>Slices and in-place writes\<close>

text \<open>\<open>slice a b xs\<close> is \<open>xs[a..b]\<close> for \<open>a \<le> b \<le> xs.len()\<close>.\<close>

definition slice :: "nat \<Rightarrow> nat \<Rightarrow> 'a list \<Rightarrow> 'a list" where
  "slice a b xs = take (b - a) (drop a xs)"

text \<open>
  \<open>blit off bs xs\<close> is \<open>xs[off..off + bs.len()].copy_from_slice(bs)\<close>. The source panics
  when the range leaves the buffer; here the length of the result then differs from the
  length of the buffer, so a length lemma of an encoder says that no write panicked.
\<close>

definition blit :: "nat \<Rightarrow> 'a list \<Rightarrow> 'a list \<Rightarrow> 'a list" where
  "blit off bs xs = take off xs @ bs @ drop (off + length bs) xs"

lemma length_slice [bytes_simps]: "b \<le> length xs \<Longrightarrow> length (slice a b xs) = b - a"
  by (simp add: slice_def)

text \<open>
  The length of a nest of writes, in a form the simplifier evaluates once per write.
\<close>

definition blit_length :: "nat \<Rightarrow> nat \<Rightarrow> nat \<Rightarrow> nat" where
  "blit_length off n len = min off len + n + (len - (off + n))"

lemma length_blit_eq [bytes_simps]:
  "length (blit off bs xs) = blit_length off (length bs) (length xs)"
  by (simp add: blit_def blit_length_def)

lemmas [bytes_simps] = blit_length_def

lemma length_blit:
  "off + length bs \<le> length xs \<Longrightarrow> length (blit off bs xs) = length xs"
  by (simp add: blit_def)

lemma length_blit_in_range:
  assumes "bs \<noteq> []"
  shows "length (blit off bs xs) = length xs \<longleftrightarrow> off + length bs \<le> length xs"
  using assms by (cases bs) (auto simp: blit_def)

lemma slice_blit_same [bytes_simps]:
  "off + length bs \<le> length xs \<Longrightarrow> b = off + length bs \<Longrightarrow> slice off b (blit off bs xs) = bs"
  by (simp add: slice_def blit_def)

lemma slice_blit_before [bytes_simps]:
  assumes "b \<le> off" "off + length bs \<le> length xs"
  shows "slice a b (blit off bs xs) = slice a b xs"
proof -
  have "take (b - a) (drop a ys) = drop a (take b ys)" for ys :: "'a list"
    by (cases "a \<le> b") (auto simp: take_drop)
  moreover have "take b (blit off bs xs) = take b xs"
    using assms by (simp add: blit_def min_def)
  ultimately show ?thesis by (simp add: slice_def)
qed

lemma slice_blit_after [bytes_simps]:
  assumes "off + length bs \<le> a" "off + length bs \<le> length xs"
  shows "slice a b (blit off bs xs) = slice a b xs"
proof -
  have "drop a (blit off bs xs) = drop a xs"
    using assms by (simp add: blit_def)
  then show ?thesis by (simp add: slice_def)
qed

lemma nth_blit [bytes_simps]:
  assumes "off + length bs \<le> length xs" "i < length xs"
  shows "blit off bs xs ! i =
    (if i < off then xs ! i else if i < off + length bs then bs ! (i - off) else xs ! i)"
  using assms by (auto simp: blit_def nth_append min_def)

lemma slice_replicate [bytes_simps]:
  "b \<le> n \<Longrightarrow> slice a b (replicate n x) = replicate (b - a) x"
  by (simp add: slice_def)

lemma replicate_two [bytes_simps]: "replicate 2 x = [x, x]"
  by (simp add: numeral_2_eq_2)

lemma slice_split: "a \<le> b \<Longrightarrow> b \<le> c \<Longrightarrow> slice a c xs = slice a b xs @ slice b c xs"
proof -
  assume "a \<le> b" "b \<le> c"
  then have "take (c - a) (drop a xs) = take ((b - a) + (c - b)) (drop a xs)" by simp
  also have "\<dots> = take (b - a) (drop a xs) @ take (c - b) (drop (b - a) (drop a xs))"
    by (rule take_add)
  finally show ?thesis using \<open>a \<le> b\<close> by (simp add: slice_def)
qed

lemma slice_all: "slice 0 (length xs) xs = xs"
  by (simp add: slice_def)

lemma slice_empty [simp]: "slice a a xs = []"
  by (simp add: slice_def)

lemma slice_one: "i < length xs \<Longrightarrow> slice i (Suc i) xs = [xs ! i]"
  by (simp add: slice_def take_Suc_conv_app_nth)

lemma slice_append_left [bytes_simps]:
  "b \<le> length xs \<Longrightarrow> slice a b (xs @ ys) = slice a b xs"
  by (simp add: slice_def)

lemma slice_append_right [bytes_simps]:
  "length xs \<le> a \<Longrightarrow> slice a b (xs @ ys) = slice (a - length xs) (b - length xs) ys"
  by (simp add: slice_def)

lemma slice_take [bytes_simps]: "b \<le> n \<Longrightarrow> slice a b (take n xs) = slice a b xs"
  by (simp add: slice_def drop_take min_def)

lemma slice_one' [bytes_simps]:
  "b = Suc i \<Longrightarrow> i < length xs \<Longrightarrow> slice i b xs = [xs ! i]"
  by (simp add: slice_one)

lemma list_update_blit [bytes_simps]: "i < length xs \<Longrightarrow> xs[i := v] = blit i [v] xs"
  by (simp add: blit_def upd_conv_take_nth_drop)

text \<open>Equality of two prefixes, checked field by field.\<close>

fun pieces :: "nat \<Rightarrow> nat list \<Rightarrow> 'a list \<Rightarrow> 'a list list" where
  "pieces a [] p = []"
| "pieces a (b # bs) p = slice a b p # pieces b bs p"

lemma concat_pieces:
  "sorted (a # bs) \<Longrightarrow> concat (pieces a bs p) = slice a (last (a # bs)) p"
proof (induction bs arbitrary: a)
  case Nil
  then show ?case by simp
next
  case (Cons b bs)
  have "b \<le> last (b # bs)"
    using Cons.prems by (cases bs) auto
  moreover have "a \<le> b"
    using Cons.prems by simp
  ultimately have "slice a (last (b # bs)) p = slice a b p @ slice b (last (b # bs)) p"
    by (rule slice_split [rotated])
  with Cons show ?case by simp
qed

lemma take_eq_by_pieces:
  assumes "sorted (0 # bs)" "pieces 0 bs p = pieces 0 bs q" "n = last (0 # bs)"
  shows "take n p = take n q"
proof -
  have "take n p = slice 0 (last (0 # bs)) p" "take n q = slice 0 (last (0 # bs)) q"
    using assms(3) by (simp_all add: slice_def)
  with assms(1,2) show ?thesis
    using concat_pieces [of 0 bs p] concat_pieces [of 0 bs q] by simp
qed

section \<open>Little-endian integers\<close>

fun le_nat :: "u8 list \<Rightarrow> nat" where
  "le_nat [] = 0"
| "le_nat (b # bs) = unat b + 256 * le_nat bs"

fun nat_le :: "nat \<Rightarrow> nat \<Rightarrow> u8 list" where
  "nat_le 0 v = []"
| "nat_le (Suc k) v = of_nat (v mod 256) # nat_le k (v div 256)"

lemma length_nat_le [simp, bytes_simps]: "length (nat_le k v) = k"
  by (induction k arbitrary: v) auto

lemma unat_of_nat_byte [simp]: "unat (of_nat (v mod 256) :: u8) = v mod 256"
  by (simp add: unat_of_nat)

lemma le_nat_nat_le: "le_nat (nat_le k v) = v mod 256 ^ k"
proof (induction k arbitrary: v)
  case 0
  then show ?case by simp
next
  case (Suc k)
  have "v mod 256 + 256 * (v div 256 mod 256 ^ k) = v mod (256 * 256 ^ k)"
    by (metis add.commute mod_mult2_eq mult.commute)
  with Suc show ?case by simp
qed

lemma unat_byte_lt [simp]: "unat (b :: u8) < 256"
  using unsigned_less [of b, where ?'a = nat] by simp

lemma nat_le_le_nat: "length bs = k \<Longrightarrow> nat_le k (le_nat bs) = bs"
proof (induction bs arbitrary: k)
  case Nil
  then show ?case by simp
next
  case (Cons b bs)
  have "(unat b + 256 * le_nat bs) mod 256 = unat b"
    by simp
  moreover have "(unat b + 256 * le_nat bs) div 256 = le_nat bs"
    by simp
  ultimately show ?case using Cons by (cases k) auto
qed

lemma le_nat_bound: "le_nat bs < 256 ^ length bs"
proof (induction bs)
  case Nil
  then show ?case by simp
next
  case (Cons b bs)
  have "unat b + 256 * le_nat bs < 256 + 256 * le_nat bs" by simp
  also have "\<dots> = 256 * Suc (le_nat bs)" by simp
  also have "\<dots> \<le> 256 * 256 ^ length bs"
    using Cons by (simp only: mult_le_mono2 Suc_leI)
  finally show ?case by simp
qed

text \<open>Fixed-width readers and writers of a byte buffer.\<close>

definition put_u16 :: "nat \<Rightarrow> u16 \<Rightarrow> u8 list \<Rightarrow> u8 list" where
  "put_u16 off v p = blit off (nat_le 2 (unat v)) p"

definition put_u32 :: "nat \<Rightarrow> u32 \<Rightarrow> u8 list \<Rightarrow> u8 list" where
  "put_u32 off v p = blit off (nat_le 4 (unat v)) p"

definition put_u64 :: "nat \<Rightarrow> u64 \<Rightarrow> u8 list \<Rightarrow> u8 list" where
  "put_u64 off v p = blit off (nat_le 8 (unat v)) p"

definition get_u16 :: "u8 list \<Rightarrow> nat \<Rightarrow> u16" where
  "get_u16 p off = of_nat (le_nat (slice off (off + 2) p))"

definition get_u32 :: "u8 list \<Rightarrow> nat \<Rightarrow> u32" where
  "get_u32 p off = of_nat (le_nat (slice off (off + 4) p))"

definition get_u64 :: "u8 list \<Rightarrow> nat \<Rightarrow> u64" where
  "get_u64 p off = of_nat (le_nat (slice off (off + 8) p))"

lemmas field_defs = put_u16_def put_u32_def put_u64_def get_u16_def get_u32_def get_u64_def

lemma of_nat_le_nat_u16 [simp]: "(of_nat (le_nat (nat_le 2 (unat v))) :: u16) = v"
  using unsigned_less [of v, where ?'a = nat] by (simp add: le_nat_nat_le)

lemma of_nat_le_nat_u32 [simp]: "(of_nat (le_nat (nat_le 4 (unat v))) :: u32) = v"
  using unsigned_less [of v, where ?'a = nat] by (simp add: le_nat_nat_le)

lemma of_nat_le_nat_u64 [simp]: "(of_nat (le_nat (nat_le 8 (unat v))) :: u64) = v"
  using unsigned_less [of v, where ?'a = nat] by (simp add: le_nat_nat_le)

lemma nat_le_get_u16:
  "off + 2 \<le> length p \<Longrightarrow> nat_le 2 (unat (get_u16 p off)) = slice off (off + 2) p"
  using le_nat_bound [of "slice off (off + 2) p"]
  by (simp add: get_u16_def unat_of_nat length_slice nat_le_le_nat)

lemma nat_le_get_u32:
  "off + 4 \<le> length p \<Longrightarrow> nat_le 4 (unat (get_u32 p off)) = slice off (off + 4) p"
  using le_nat_bound [of "slice off (off + 4) p"]
  by (simp add: get_u32_def unat_of_nat length_slice nat_le_le_nat)

lemma nat_le_get_u64:
  "off + 8 \<le> length p \<Longrightarrow> nat_le 8 (unat (get_u64 p off)) = slice off (off + 8) p"
  using le_nat_bound [of "slice off (off + 8) p"]
  by (simp add: get_u64_def unat_of_nat length_slice nat_le_le_nat)

section \<open>Fixed-size byte arrays\<close>

text \<open>
  A Rust \<open>[u8; 32]\<close> (keys, HMAC-SHA256 and SHA-256 outputs) is a \<open>256 word\<close> and a
  \<open>[u8; 16]\<close> tag a \<open>128 word\<close>, read as their bytes; the fixed width is part of the type.
\<close>

type_synonym bytes32 = "256 word"
type_synonym bytes16 = "128 word"

definition bytes_of_32 :: "bytes32 \<Rightarrow> u8 list" where
  "bytes_of_32 w = nat_le 32 (unat w)"

definition bytes_of_16 :: "bytes16 \<Rightarrow> u8 list" where
  "bytes_of_16 w = nat_le 16 (unat w)"

definition to_bytes16 :: "u8 list \<Rightarrow> bytes16" where
  "to_bytes16 bs = of_nat (le_nat bs)"

definition to_bytes32 :: "u8 list \<Rightarrow> bytes32" where
  "to_bytes32 bs = of_nat (le_nat bs)"

lemma length_bytes_of_32 [simp, bytes_simps]: "length (bytes_of_32 w) = 32"
  by (simp add: bytes_of_32_def)

lemma length_bytes_of_16 [simp, bytes_simps]: "length (bytes_of_16 w) = 16"
  by (simp add: bytes_of_16_def)

lemma to_bytes16_bytes_of_16 [simp]: "to_bytes16 (bytes_of_16 w) = w"
  using unsigned_less [of w, where ?'a = nat] by (simp add: to_bytes16_def bytes_of_16_def le_nat_nat_le)

lemma bytes_of_16_to_bytes16: "length bs = 16 \<Longrightarrow> bytes_of_16 (to_bytes16 bs) = bs"
  using le_nat_bound [of bs]
  by (simp add: bytes_of_16_def to_bytes16_def unat_of_nat nat_le_le_nat)

lemma to_bytes32_bytes_of_32 [simp]: "to_bytes32 (bytes_of_32 w) = w"
  using unsigned_less [of w, where ?'a = nat] by (simp add: to_bytes32_def bytes_of_32_def le_nat_nat_le)

lemma bytes_of_32_inject [simp]: "bytes_of_32 v = bytes_of_32 w \<longleftrightarrow> v = w"
  by (metis to_bytes32_bytes_of_32)

end
