(* ===== verification/Playback_Wire.thy ===== *)
theory Playback_Wire
  imports Prelude
begin

text \<open>
  The authenticated LAN playback packets of \<open>app/host/src/lan_playback.rs\<close>: request
  (EIPR), begin (EIPB), data (EIPD), acknowledgement (EIPA), finished (EIPF), finished
  acknowledgement (EIPK) and mailbox status (EIMB). HMAC-SHA256 and AES-256-GCM are
  parameters. Every control packet is a codec in the sense of the locale \<open>wire_codec\<close>:
  the decoder accepts exactly the encodings of valid values.
\<close>

section \<open>Constants and data\<close>

definition PLAYBACK_VERSION :: u8 where "PLAYBACK_VERSION = 1"
definition PLAYBACK_TAG_BYTES :: nat where "PLAYBACK_TAG_BYTES = 16"
definition PLAYBACK_CHUNK_BYTES :: nat where "PLAYBACK_CHUNK_BYTES = 1024"
definition PLAYBACK_MAX_EIAD_BYTES :: nat where "PLAYBACK_MAX_EIAD_BYTES = 4 * 1024 * 1024"
definition REQUEST_BYTES :: nat where "REQUEST_BYTES = 40"
definition BEGIN_BYTES :: nat where "BEGIN_BYTES = 72"
definition ACK_BYTES :: nat where "ACK_BYTES = 52"
definition FINISHED_BYTES :: nat where "FINISHED_BYTES = 56"
definition FINISHED_ACK_BYTES :: nat where "FINISHED_ACK_BYTES = 48"
definition DATA_HEADER_BYTES :: nat where "DATA_HEADER_BYTES = 40"
definition MAILBOX_STATUS_BYTES :: nat where "MAILBOX_STATUS_BYTES = 32"
definition MAILBOX_STATUS_VERSION :: u8 where "MAILBOX_STATUS_VERSION = 3"

lemmas wire_consts =
  PLAYBACK_VERSION_def PLAYBACK_TAG_BYTES_def PLAYBACK_CHUNK_BYTES_def
  PLAYBACK_MAX_EIAD_BYTES_def REQUEST_BYTES_def BEGIN_BYTES_def ACK_BYTES_def
  FINISHED_BYTES_def FINISHED_ACK_BYTES_def DATA_HEADER_BYTES_def
  MAILBOX_STATUS_BYTES_def MAILBOX_STATUS_VERSION_def

text \<open>The four-byte magics, as ASCII.\<close>

definition EIPR :: "u8 list" where "EIPR = [0x45, 0x49, 0x50, 0x52]"
definition EIPB :: "u8 list" where "EIPB = [0x45, 0x49, 0x50, 0x42]"
definition EIPD :: "u8 list" where "EIPD = [0x45, 0x49, 0x50, 0x44]"
definition EIPA :: "u8 list" where "EIPA = [0x45, 0x49, 0x50, 0x41]"
definition EIPF :: "u8 list" where "EIPF = [0x45, 0x49, 0x50, 0x46]"
definition EIPK :: "u8 list" where "EIPK = [0x45, 0x49, 0x50, 0x4B]"
definition EIMB :: "u8 list" where "EIMB = [0x45, 0x49, 0x4D, 0x42]"

lemmas magic_defs = EIPR_def EIPB_def EIPD_def EIPA_def EIPF_def EIPK_def EIMB_def

datatype playback_wire_error = Malformed | Authentication

record playback_request =
  pr_slot :: u8
  pr_request_generation :: u32
  pr_connection_generation :: u32
  pr_nonce :: u64

record playback_identity =
  pi_slot :: u8
  pi_request_generation :: u32
  pi_connection_generation :: u32
  pi_summary_generation :: u64
  pi_lease :: u64

record playback_begin =
  pb_identity :: playback_identity
  pb_total_bytes :: u32
  pb_total_samples :: u64
  pb_chunk_bytes :: u16
  pb_request_nonce :: u64

record playback_ack =
  pa_identity :: playback_identity
  pa_status :: u8
  pa_next_offset :: u32

record playback_finished =
  pf_identity :: playback_identity
  pf_played_samples :: u64

record mailbox_status =
  ms_unread_slots :: u8
  ms_running_tasks :: u8
  ms_coverage_by_slot :: "u8 list"

type_synonym hmac_sha256 = "bytes32 \<Rightarrow> u8 list \<Rightarrow> bytes32"

section \<open>Signing and the identity block\<close>

definition mac_tag :: "hmac_sha256 \<Rightarrow> bytes32 \<Rightarrow> u8 list \<Rightarrow> u8 list" where
  "mac_tag hmac key m = take PLAYBACK_TAG_BYTES (bytes_of_32 (hmac key m))"

definition sign :: "hmac_sha256 \<Rightarrow> bytes32 \<Rightarrow> u8 list \<Rightarrow> u8 list" where
  "sign hmac key packet =
     (let split = length packet - PLAYBACK_TAG_BYTES
      in blit split (mac_tag hmac key (take split packet)) packet)"

definition verify :: "hmac_sha256 \<Rightarrow> bytes32 \<Rightarrow> u8 list \<Rightarrow> playback_wire_error + unit" where
  "verify hmac key packet =
     (if length packet < PLAYBACK_TAG_BYTES then Err Malformed
      else let split = length packet - PLAYBACK_TAG_BYTES
           in if mac_tag hmac key (take split packet) = drop split packet then Ok ()
              else Err Authentication)"

definition verify_fixed ::
  "hmac_sha256 \<Rightarrow> bytes32 \<Rightarrow> u8 list \<Rightarrow> nat \<Rightarrow> u8 list \<Rightarrow> playback_wire_error + unit" where
  "verify_fixed hmac key packet len magic =
     (if length packet \<noteq> len \<or> slice 0 4 packet \<noteq> magic \<or> packet ! 4 \<noteq> PLAYBACK_VERSION
      then Err Malformed else verify hmac key packet)"

definition encode_identity :: "playback_identity \<Rightarrow> u8 list \<Rightarrow> u8 list" where
  "encode_identity i packet =
     put_u64 24 (pi_lease i) (put_u64 16 (pi_summary_generation i)
       (put_u32 12 (pi_connection_generation i) (put_u32 8 (pi_request_generation i) packet)))"

definition decode_identity :: "u8 list \<Rightarrow> playback_identity" where
  "decode_identity packet =
     \<lparr> pi_slot = packet ! 5,
       pi_request_generation = get_u32 packet 8,
       pi_connection_generation = get_u32 packet 12,
       pi_summary_generation = get_u64 packet 16,
       pi_lease = get_u64 packet 24 \<rparr>"

definition valid_identity :: "playback_identity \<Rightarrow> bool" where
  "valid_identity i \<longleftrightarrow>
     1 \<le> pi_slot i \<and> pi_slot i \<le> 4 \<and> pi_request_generation i \<noteq> 0 \<and>
     pi_connection_generation i \<noteq> 0 \<and> pi_summary_generation i \<noteq> 0 \<and> pi_lease i \<noteq> 0"

section \<open>Control packets\<close>

definition encode_request :: "hmac_sha256 \<Rightarrow> bytes32 \<Rightarrow> playback_request \<Rightarrow> u8 list" where
  "encode_request hmac key r =
     (let p = replicate REQUEST_BYTES 0;
          p = blit 0 EIPR p;
          p = p[4 := PLAYBACK_VERSION];
          p = p[5 := pr_slot r];
          p = put_u32 8 (pr_request_generation r) p;
          p = put_u32 12 (pr_connection_generation r) p;
          p = put_u64 16 (pr_nonce r) p
      in sign hmac key p)"

definition decode_request ::
  "hmac_sha256 \<Rightarrow> bytes32 \<Rightarrow> u8 list \<Rightarrow> playback_wire_error + playback_request" where
  "decode_request hmac key packet =
     and_then (verify_fixed hmac key packet REQUEST_BYTES EIPR) (\<lambda>_.
       let r = \<lparr> pr_slot = packet ! 5,
                 pr_request_generation = get_u32 packet 8,
                 pr_connection_generation = get_u32 packet 12,
                 pr_nonce = get_u64 packet 16 \<rparr>
       in if slice 6 8 packet \<noteq> [0, 0] \<or> \<not> (1 \<le> pr_slot r \<and> pr_slot r \<le> 4) \<or>
             pr_request_generation r = 0 \<or> pr_connection_generation r = 0 \<or> pr_nonce r = 0
          then Err Malformed else Ok r)"

definition encode_begin :: "hmac_sha256 \<Rightarrow> bytes32 \<Rightarrow> playback_begin \<Rightarrow> u8 list" where
  "encode_begin hmac key b =
     (let p = replicate BEGIN_BYTES 0;
          p = blit 0 EIPB p;
          p = p[4 := PLAYBACK_VERSION];
          p = p[5 := pi_slot (pb_identity b)];
          p = encode_identity (pb_identity b) p;
          p = put_u32 32 (pb_total_bytes b) p;
          p = put_u64 36 (pb_total_samples b) p;
          p = put_u16 44 (pb_chunk_bytes b) p;
          p = put_u64 48 (pb_request_nonce b) p
      in sign hmac key p)"

definition decode_begin ::
  "hmac_sha256 \<Rightarrow> bytes32 \<Rightarrow> u8 list \<Rightarrow> playback_wire_error + playback_begin" where
  "decode_begin hmac key packet =
     and_then (verify_fixed hmac key packet BEGIN_BYTES EIPB) (\<lambda>_.
       let b = \<lparr> pb_identity = decode_identity packet,
                 pb_total_bytes = get_u32 packet 32,
                 pb_total_samples = get_u64 packet 36,
                 pb_chunk_bytes = get_u16 packet 44,
                 pb_request_nonce = get_u64 packet 48 \<rparr>
       in if slice 6 8 packet \<noteq> [0, 0] \<or> slice 46 48 packet \<noteq> [0, 0] \<or>
             \<not> valid_identity (pb_identity b) \<or>
             pb_total_bytes b = 0 \<or> unat (pb_total_bytes b) > PLAYBACK_MAX_EIAD_BYTES \<or>
             pb_total_samples b = 0 \<or>
             pb_chunk_bytes b = 0 \<or> unat (pb_chunk_bytes b) > PLAYBACK_CHUNK_BYTES \<or>
             pb_request_nonce b = 0
          then Err Malformed else Ok b)"

definition encode_ack :: "hmac_sha256 \<Rightarrow> bytes32 \<Rightarrow> playback_ack \<Rightarrow> u8 list" where
  "encode_ack hmac key a =
     (let p = replicate ACK_BYTES 0;
          p = blit 0 EIPA p;
          p = p[4 := PLAYBACK_VERSION];
          p = p[5 := pi_slot (pa_identity a)];
          p = p[6 := pa_status a];
          p = encode_identity (pa_identity a) p;
          p = put_u32 32 (pa_next_offset a) p
      in sign hmac key p)"

definition decode_ack ::
  "hmac_sha256 \<Rightarrow> bytes32 \<Rightarrow> u8 list \<Rightarrow> playback_wire_error + playback_ack" where
  "decode_ack hmac key packet =
     and_then (verify_fixed hmac key packet ACK_BYTES EIPA) (\<lambda>_.
       let a = \<lparr> pa_identity = decode_identity packet,
                 pa_status = packet ! 6,
                 pa_next_offset = get_u32 packet 32 \<rparr>
       in if packet ! 7 \<noteq> 0 \<or> \<not> valid_identity (pa_identity a) \<or> pa_status a > 3
          then Err Malformed else Ok a)"

definition encode_finished :: "hmac_sha256 \<Rightarrow> bytes32 \<Rightarrow> playback_finished \<Rightarrow> u8 list" where
  "encode_finished hmac key f =
     (let p = replicate FINISHED_BYTES 0;
          p = blit 0 EIPF p;
          p = p[4 := PLAYBACK_VERSION];
          p = p[5 := pi_slot (pf_identity f)];
          p = encode_identity (pf_identity f) p;
          p = put_u64 32 (pf_played_samples f) p
      in sign hmac key p)"

definition decode_finished ::
  "hmac_sha256 \<Rightarrow> bytes32 \<Rightarrow> u8 list \<Rightarrow> playback_wire_error + playback_finished" where
  "decode_finished hmac key packet =
     and_then (verify_fixed hmac key packet FINISHED_BYTES EIPF) (\<lambda>_.
       let f = \<lparr> pf_identity = decode_identity packet,
                 pf_played_samples = get_u64 packet 32 \<rparr>
       in if slice 6 8 packet \<noteq> [0, 0] \<or> \<not> valid_identity (pf_identity f) \<or>
             pf_played_samples f = 0
          then Err Malformed else Ok f)"

definition encode_finished_ack ::
  "hmac_sha256 \<Rightarrow> bytes32 \<Rightarrow> playback_identity \<times> u8 \<Rightarrow> u8 list" where
  "encode_finished_ack hmac key is =
     (let p = replicate FINISHED_ACK_BYTES 0;
          p = blit 0 EIPK p;
          p = p[4 := PLAYBACK_VERSION];
          p = p[5 := pi_slot (fst is)];
          p = p[6 := snd is];
          p = encode_identity (fst is) p
      in sign hmac key p)"

definition decode_finished_ack ::
  "hmac_sha256 \<Rightarrow> bytes32 \<Rightarrow> u8 list \<Rightarrow> playback_wire_error + playback_identity \<times> u8" where
  "decode_finished_ack hmac key packet =
     and_then (verify_fixed hmac key packet FINISHED_ACK_BYTES EIPK) (\<lambda>_.
       let i = decode_identity packet
       in if packet ! 7 \<noteq> 0 \<or> \<not> valid_identity i \<or> packet ! 6 > 1
          then Err Malformed else Ok (i, packet ! 6))"

definition valid_mailbox_status :: "mailbox_status \<Rightarrow> bool" where
  "valid_mailbox_status s \<longleftrightarrow>
     and (ms_unread_slots s) (not 0x0F) = 0 \<and> ms_running_tasks s \<le> 4 \<and>
     list_all (\<lambda>(index, coverage).
         (and (ms_unread_slots s) (push_bit index 1) \<noteq> 0) = (coverage \<noteq> 0))
       (enumerate 0 (ms_coverage_by_slot s))"

definition encode_mailbox_status ::
  "hmac_sha256 \<Rightarrow> bytes32 \<Rightarrow> mailbox_status \<Rightarrow> u32 \<Rightarrow> playback_wire_error + u8 list" where
  "encode_mailbox_status hmac key s heartbeat_sequence =
     (if \<not> valid_mailbox_status s then Err Malformed
      else let p = replicate MAILBOX_STATUS_BYTES 0;
               p = blit 0 EIMB p;
               p = p[4 := MAILBOX_STATUS_VERSION];
               p = p[5 := ms_unread_slots s];
               p = p[6 := ms_running_tasks s];
               p = put_u32 8 heartbeat_sequence p;
               p = blit 12 (ms_coverage_by_slot s) p
           in Ok (sign hmac key p))"

definition decode_mailbox_status ::
  "hmac_sha256 \<Rightarrow> bytes32 \<Rightarrow> u8 list \<Rightarrow> playback_wire_error + mailbox_status \<times> u32" where
  "decode_mailbox_status hmac key packet =
     (if length packet \<noteq> MAILBOX_STATUS_BYTES \<or> slice 0 4 packet \<noteq> EIMB \<or>
         packet ! 4 \<noteq> MAILBOX_STATUS_VERSION
      then Err Malformed
      else and_then (verify hmac key packet) (\<lambda>_.
        let s = \<lparr> ms_unread_slots = packet ! 5,
                  ms_running_tasks = packet ! 6,
                  ms_coverage_by_slot = slice 12 16 packet \<rparr>
        in if packet ! 7 \<noteq> 0 \<or> \<not> valid_mailbox_status s then Err Malformed
           else Ok (s, get_u32 packet 8)))"

section \<open>Encrypted data packets\<close>

text \<open>
  AES-256-GCM with a detached tag: \<open>seal key nonce aad plaintext\<close> gives the ciphertext and
  the tag, \<open>open key nonce aad ciphertext tag\<close> the plaintext when the tag is right.
\<close>

type_synonym aead_seal = "bytes32 \<Rightarrow> u8 list \<Rightarrow> u8 list \<Rightarrow> u8 list \<Rightarrow> (u8 list \<times> bytes16) option"
type_synonym aead_open = "bytes32 \<Rightarrow> u8 list \<Rightarrow> u8 list \<Rightarrow> u8 list \<Rightarrow> bytes16 \<Rightarrow> u8 list option"

text \<open>
  What the code relies on: encryption in place keeps the length and decryption with the
  same key, nonce, header and tag restores the plaintext.
\<close>

definition aead_correct :: "aead_seal \<Rightarrow> aead_open \<Rightarrow> bool" where
  "aead_correct seal opn \<longleftrightarrow>
     (\<forall>k n aad m c t. seal k n aad m = Some (c, t) \<longrightarrow>
        length c = length m \<and> opn k n aad c t = Some m)"

definition data_key_context :: "playback_identity \<Rightarrow> u64 \<Rightarrow> u8 list" where
  "data_key_context i request_nonce =
     (let c = replicate 44 0;
          c = blit 0 [0x45, 0x49, 0x50, 0x44, 0x4B, 0x45, 0x59, 0x31] c;
          c = c[8 := pi_slot i];
          c = put_u32 12 (pi_request_generation i) c;
          c = put_u32 16 (pi_connection_generation i) c;
          c = put_u64 20 (pi_summary_generation i) c;
          c = put_u64 28 (pi_lease i) c;
          c = put_u64 36 request_nonce c
      in c)"

definition derive_data_key ::
  "hmac_sha256 \<Rightarrow> bytes32 \<Rightarrow> playback_identity \<Rightarrow> u64 \<Rightarrow> bytes32" where
  "derive_data_key hmac root_key i request_nonce = hmac root_key (data_key_context i request_nonce)"

definition data_nonce :: "u32 \<Rightarrow> u8 list" where
  "data_nonce offset = put_u32 0 offset (replicate 12 0)"

definition data_header :: "playback_identity \<Rightarrow> u32 \<Rightarrow> nat \<Rightarrow> u8 list" where
  "data_header i offset payload_len =
     (let p = replicate DATA_HEADER_BYTES 0;
          p = blit 0 EIPD p;
          p = p[4 := PLAYBACK_VERSION];
          p = p[5 := pi_slot i];
          p = encode_identity i p;
          p = put_u32 32 offset p;
          p = put_u16 36 (of_nat payload_len) p
      in p)"

definition encode_data ::
  "hmac_sha256 \<Rightarrow> aead_seal \<Rightarrow> bytes32 \<Rightarrow> playback_identity \<Rightarrow> u64 \<Rightarrow> u32 \<Rightarrow> u8 list
     \<Rightarrow> playback_wire_error + u8 list" where
  "encode_data hmac seal key i request_nonce offset payload =
     (if \<not> valid_identity i \<or> request_nonce = 0 \<or> payload = [] \<or>
         length payload > PLAYBACK_CHUNK_BYTES
      then Err Malformed
      else let header = data_header i offset (length payload);
               data_key = derive_data_key hmac key i request_nonce
           in case seal data_key (data_nonce offset) header payload of
                None \<Rightarrow> Err Authentication
              | Some (body, tag) \<Rightarrow> Ok (header @ body @ bytes_of_16 tag))"

definition decode_data ::
  "hmac_sha256 \<Rightarrow> aead_open \<Rightarrow> bytes32 \<Rightarrow> u8 list \<Rightarrow> u64
     \<Rightarrow> playback_wire_error + playback_identity \<times> u32 \<times> u8 list" where
  "decode_data hmac opn key packet request_nonce =
     (if length packet < DATA_HEADER_BYTES + 1 + PLAYBACK_TAG_BYTES \<or>
         slice 0 4 packet \<noteq> EIPD \<or> packet ! 4 \<noteq> PLAYBACK_VERSION
      then Err Malformed
      else let i = decode_identity packet;
               payload_len = unat (get_u16 packet 36)
           in if slice 6 8 packet \<noteq> [0, 0] \<or> slice 38 40 packet \<noteq> [0, 0] \<or>
                 \<not> valid_identity i \<or> request_nonce = 0 \<or> payload_len = 0 \<or>
                 payload_len > PLAYBACK_CHUNK_BYTES \<or>
                 length packet \<noteq> DATA_HEADER_BYTES + payload_len + PLAYBACK_TAG_BYTES
              then Err Malformed
              else let offset = get_u32 packet 32;
                       data_key = derive_data_key hmac key i request_nonce;
                       body = slice DATA_HEADER_BYTES (DATA_HEADER_BYTES + payload_len) packet;
                       tag = to_bytes16 (drop (DATA_HEADER_BYTES + payload_len) packet)
                   in case opn data_key (data_nonce offset) (take DATA_HEADER_BYTES packet) body tag of
                        None \<Rightarrow> Err Authentication
                      | Some plaintext \<Rightarrow> Ok (i, offset, plaintext))"

section \<open>The codec interface\<close>

text \<open>
  What the two ends of the link rely on: decoding inverts encoding on valid values, and a
  decoder accepts no second byte string for the same value.
\<close>

locale wire_codec =
  fixes enc :: "'a \<Rightarrow> u8 list"
    and dec :: "u8 list \<Rightarrow> 'e + 'a"
    and valid :: "'a \<Rightarrow> bool"
  assumes dec_enc: "valid x \<Longrightarrow> dec (enc x) = Ok x"
    and dec_valid: "dec p = Ok x \<Longrightarrow> valid x"
    and enc_dec: "dec p = Ok x \<Longrightarrow> enc x = p"
begin

lemma dec_Ok_iff: "dec p = Ok x \<longleftrightarrow> valid x \<and> p = enc x"
  using dec_enc dec_valid enc_dec by blast

lemma enc_inj: "valid x \<Longrightarrow> valid y \<Longrightarrow> enc x = enc y \<Longrightarrow> x = y"
  using dec_enc by (metis Inr_inject)

lemma dec_unique: "dec p = Ok x \<Longrightarrow> dec q = Ok x \<Longrightarrow> p = q"
  using enc_dec by blast

end

section \<open>Signed buffers\<close>

lemma length_mac_tag [simp, bytes_simps]: "length (mac_tag hmac key m) = 16"
  by (simp add: mac_tag_def wire_consts)

lemma length_sign [simp, bytes_simps]: "16 \<le> length p \<Longrightarrow> length (sign hmac key p) = length p"
  by (simp add: sign_def Let_def wire_consts length_blit)

lemma sign_eq:
  "16 \<le> length p \<Longrightarrow>
   sign hmac key p = take (length p - 16) p @ mac_tag hmac key (take (length p - 16) p)"
  by (simp add: sign_def Let_def wire_consts blit_def)

lemma take_sign [bytes_simps]:
  "16 \<le> length p \<Longrightarrow> n \<le> length p - 16 \<Longrightarrow> take n (sign hmac key p) = take n p"
  by (simp add: sign_eq)

lemma slice_sign [bytes_simps]:
  "16 \<le> length p \<Longrightarrow> b \<le> length p - 16 \<Longrightarrow> slice a b (sign hmac key p) = slice a b p"
  by (simp add: sign_eq slice_append_left slice_take)

lemma nth_sign [bytes_simps]:
  "16 \<le> length p \<Longrightarrow> i < length p - 16 \<Longrightarrow> sign hmac key p ! i = p ! i"
  by (simp add: sign_eq nth_append)

lemma verify_sign [simp]: "16 \<le> length p \<Longrightarrow> verify hmac key (sign hmac key p) = Ok ()"
  by (simp add: verify_def Let_def wire_consts) (simp add: sign_eq)

lemma sign_verified:
  assumes "verify hmac key p = Ok ()" "length q = length p"
    and "take (length p - 16) q = take (length p - 16) p"
  shows "sign hmac key q = p"
proof -
  from assms(1) have len: "16 \<le> length p"
    and tag: "mac_tag hmac key (take (length p - 16) p) = drop (length p - 16) p"
    by (auto simp: verify_def wire_consts Let_def split: if_splits)
  have "sign hmac key q = take (length p - 16) p @ drop (length p - 16) p"
    using len assms(2,3) tag by (simp add: sign_eq)
  then show ?thesis by simp
qed

lemma verify_fixed_Ok_iff:
  "verify_fixed hmac key p n magic = Ok () \<longleftrightarrow>
     length p = n \<and> slice 0 4 p = magic \<and> p ! 4 = PLAYBACK_VERSION \<and> verify hmac key p = Ok ()"
  by (auto simp: verify_fixed_def)

section \<open>The control packets are codecs\<close>

definition valid_request :: "playback_request \<Rightarrow> bool" where
  "valid_request r \<longleftrightarrow> 1 \<le> pr_slot r \<and> pr_slot r \<le> 4 \<and> pr_request_generation r \<noteq> 0 \<and>
     pr_connection_generation r \<noteq> 0 \<and> pr_nonce r \<noteq> 0"

lemma decode_encode_request:
  "valid_request r \<Longrightarrow> decode_request hmac key (encode_request hmac key r) = Ok r"
  by (simp add: decode_request_def encode_request_def valid_request_def verify_fixed_def Let_def
      wire_consts magic_defs field_defs bytes_simps)

lemma sign_by_pieces:
  assumes "verify hmac key p = Ok ()" "length q = length p" "sorted (0 # bs)"
    and "last (0 # bs) = length p - 16" "pieces 0 bs q = pieces 0 bs p"
  shows "sign hmac key q = p"
  using assms take_eq_by_pieces [OF assms(3,5)] by (intro sign_verified) auto

lemmas canonical_simps =
  put_u16_def put_u32_def put_u64_def nat_le_get_u16 nat_le_get_u32 nat_le_get_u64
  wire_consts magic_defs bytes_simps encode_identity_def decode_identity_def

lemma encode_decode_request:
  assumes "decode_request hmac key p = Ok r"
  shows "valid_request r \<and> encode_request hmac key r = p"
proof -
  from assms have v: "length p = 40" "slice 0 4 p = EIPR" "p ! 4 = 1"
      "verify hmac key p = Ok ()" "slice 6 8 p = [0, 0]" and val: "valid_request r"
    and r: "r = \<lparr> pr_slot = p ! 5, pr_request_generation = get_u32 p 8,
       pr_connection_generation = get_u32 p 12, pr_nonce = get_u64 p 16 \<rparr>"
    by (auto simp: decode_request_def and_then_Ok_iff verify_fixed_Ok_iff Let_def valid_request_def
        REQUEST_BYTES_def PLAYBACK_VERSION_def split: if_splits)
  have "encode_request hmac key r = p"
    unfolding encode_request_def Let_def
    by (rule sign_by_pieces [OF v(4), where bs = "[4, 5, 6, 8, 12, 16, 24]"])
      (use v in \<open>simp_all add: r canonical_simps\<close>)
  with val show ?thesis by simp
qed

definition valid_begin :: "playback_begin \<Rightarrow> bool" where
  "valid_begin b \<longleftrightarrow> valid_identity (pb_identity b) \<and>
     pb_total_bytes b \<noteq> 0 \<and> unat (pb_total_bytes b) \<le> PLAYBACK_MAX_EIAD_BYTES \<and>
     pb_total_samples b \<noteq> 0 \<and> pb_chunk_bytes b \<noteq> 0 \<and>
     unat (pb_chunk_bytes b) \<le> PLAYBACK_CHUNK_BYTES \<and> pb_request_nonce b \<noteq> 0"

lemmas roundtrip_simps =
  verify_fixed_def Let_def wire_consts magic_defs field_defs bytes_simps
  encode_identity_def decode_identity_def

lemma playback_identity_eta [simp]:
  "\<lparr> pi_slot = pi_slot i, pi_request_generation = pi_request_generation i,
     pi_connection_generation = pi_connection_generation i,
     pi_summary_generation = pi_summary_generation i, pi_lease = pi_lease i \<rparr> = i"
  by simp

lemma decode_encode_begin:
  "valid_begin b \<Longrightarrow> decode_begin hmac key (encode_begin hmac key b) = Ok b"
  by (simp add: decode_begin_def encode_begin_def valid_begin_def roundtrip_simps)

lemma encode_decode_begin:
  assumes "decode_begin hmac key p = Ok b"
  shows "valid_begin b \<and> encode_begin hmac key b = p"
proof -
  from assms have v: "length p = 72" "slice 0 4 p = EIPB" "p ! 4 = 1"
      "verify hmac key p = Ok ()" "slice 6 8 p = [0, 0]" "slice 46 48 p = [0, 0]"
    and val: "valid_begin b"
    and b: "b = \<lparr> pb_identity = decode_identity p, pb_total_bytes = get_u32 p 32,
       pb_total_samples = get_u64 p 36, pb_chunk_bytes = get_u16 p 44,
       pb_request_nonce = get_u64 p 48 \<rparr>"
    by (auto simp: decode_begin_def and_then_Ok_iff verify_fixed_Ok_iff Let_def valid_begin_def
        BEGIN_BYTES_def PLAYBACK_VERSION_def not_less split: if_splits)
  have "encode_begin hmac key b = p"
    unfolding encode_begin_def Let_def
    by (rule sign_by_pieces [OF v(4), where bs = "[4, 5, 6, 8, 12, 16, 24, 32, 36, 44, 46, 48, 56]"])
      (use v in \<open>simp_all add: b canonical_simps\<close>)
  with val show ?thesis by simp
qed

definition valid_ack :: "playback_ack \<Rightarrow> bool" where
  "valid_ack a \<longleftrightarrow> valid_identity (pa_identity a) \<and> pa_status a \<le> 3"

lemma decode_encode_ack:
  "valid_ack a \<Longrightarrow> decode_ack hmac key (encode_ack hmac key a) = Ok a"
  by (simp add: decode_ack_def encode_ack_def valid_ack_def roundtrip_simps not_less)

lemma encode_decode_ack:
  assumes "decode_ack hmac key p = Ok a"
  shows "valid_ack a \<and> encode_ack hmac key a = p"
proof -
  from assms have v: "length p = 52" "slice 0 4 p = EIPA" "p ! 4 = 1"
      "verify hmac key p = Ok ()" "p ! 7 = 0" and val: "valid_ack a"
    and a: "a = \<lparr> pa_identity = decode_identity p, pa_status = p ! 6,
       pa_next_offset = get_u32 p 32 \<rparr>"
    by (auto simp: decode_ack_def and_then_Ok_iff verify_fixed_Ok_iff Let_def valid_ack_def
        ACK_BYTES_def PLAYBACK_VERSION_def not_less split: if_splits)
  have "encode_ack hmac key a = p"
    unfolding encode_ack_def Let_def
    by (rule sign_by_pieces [OF v(4), where bs = "[4, 5, 6, 7, 8, 12, 16, 24, 32, 36]"])
      (use v in \<open>simp_all add: a canonical_simps\<close>)
  with val show ?thesis by simp
qed

definition valid_finished :: "playback_finished \<Rightarrow> bool" where
  "valid_finished f \<longleftrightarrow> valid_identity (pf_identity f) \<and> pf_played_samples f \<noteq> 0"

lemma decode_encode_finished:
  "valid_finished f \<Longrightarrow> decode_finished hmac key (encode_finished hmac key f) = Ok f"
  by (simp add: decode_finished_def encode_finished_def valid_finished_def roundtrip_simps)

lemma encode_decode_finished:
  assumes "decode_finished hmac key p = Ok f"
  shows "valid_finished f \<and> encode_finished hmac key f = p"
proof -
  from assms have v: "length p = 56" "slice 0 4 p = EIPF" "p ! 4 = 1"
      "verify hmac key p = Ok ()" "slice 6 8 p = [0, 0]" and val: "valid_finished f"
    and f: "f = \<lparr> pf_identity = decode_identity p, pf_played_samples = get_u64 p 32 \<rparr>"
    by (auto simp: decode_finished_def and_then_Ok_iff verify_fixed_Ok_iff Let_def
        valid_finished_def FINISHED_BYTES_def PLAYBACK_VERSION_def split: if_splits)
  have "encode_finished hmac key f = p"
    unfolding encode_finished_def Let_def
    by (rule sign_by_pieces [OF v(4), where bs = "[4, 5, 6, 8, 12, 16, 24, 32, 40]"])
      (use v in \<open>simp_all add: f canonical_simps\<close>)
  with val show ?thesis by simp
qed

definition valid_finished_ack :: "playback_identity \<times> u8 \<Rightarrow> bool" where
  "valid_finished_ack is \<longleftrightarrow> valid_identity (fst is) \<and> snd is \<le> 1"

lemma decode_encode_finished_ack:
  "valid_finished_ack is \<Longrightarrow>
   decode_finished_ack hmac key (encode_finished_ack hmac key is) = Ok is"
  by (cases "is")
    (simp add: decode_finished_ack_def encode_finished_ack_def valid_finished_ack_def
      roundtrip_simps not_less)

lemma encode_decode_finished_ack:
  assumes "decode_finished_ack hmac key p = Ok is"
  shows "valid_finished_ack is \<and> encode_finished_ack hmac key is = p"
proof -
  from assms have v: "length p = 48" "slice 0 4 p = EIPK" "p ! 4 = 1"
      "verify hmac key p = Ok ()" "p ! 7 = 0" and val: "valid_finished_ack is"
    and i: "is = (decode_identity p, p ! 6)"
    by (auto simp: decode_finished_ack_def and_then_Ok_iff verify_fixed_Ok_iff Let_def
        valid_finished_ack_def FINISHED_ACK_BYTES_def PLAYBACK_VERSION_def not_less split: if_splits)
  have "encode_finished_ack hmac key is = p"
    unfolding encode_finished_ack_def Let_def
    by (rule sign_by_pieces [OF v(4), where bs = "[4, 5, 6, 7, 8, 12, 16, 24, 32]"])
      (use v in \<open>simp_all add: i canonical_simps\<close>)
  with val show ?thesis by simp
qed

text \<open>The mailbox encoder may refuse, so its codec is over the values it accepts.\<close>

definition mailbox_packet :: "hmac_sha256 \<Rightarrow> bytes32 \<Rightarrow> mailbox_status \<times> u32 \<Rightarrow> u8 list" where
  "mailbox_packet hmac key sn =
     (case encode_mailbox_status hmac key (fst sn) (snd sn) of Inl _ \<Rightarrow> [] | Inr p \<Rightarrow> p)"

definition valid_mailbox :: "mailbox_status \<times> u32 \<Rightarrow> bool" where
  "valid_mailbox sn \<longleftrightarrow>
     valid_mailbox_status (fst sn) \<and> length (ms_coverage_by_slot (fst sn)) = 4"

lemma mailbox_status_eta [simp]:
  "\<lparr> ms_unread_slots = ms_unread_slots s, ms_running_tasks = ms_running_tasks s,
     ms_coverage_by_slot = ms_coverage_by_slot s \<rparr> = s"
  by simp

lemma decode_encode_mailbox:
  "valid_mailbox sn \<Longrightarrow> decode_mailbox_status hmac key (mailbox_packet hmac key sn) = Ok sn"
  by (cases sn)
    (simp add: mailbox_packet_def decode_mailbox_status_def encode_mailbox_status_def
      valid_mailbox_def roundtrip_simps)

lemma encode_decode_mailbox:
  assumes "decode_mailbox_status hmac key p = Ok sn"
  shows "valid_mailbox sn \<and> mailbox_packet hmac key sn = p"
proof -
  from assms have v: "length p = 32" "slice 0 4 p = EIMB" "p ! 4 = 3"
      "verify hmac key p = Ok ()" "p ! 7 = 0" and val: "valid_mailbox sn"
    and s: "sn = (\<lparr> ms_unread_slots = p ! 5, ms_running_tasks = p ! 6,
       ms_coverage_by_slot = slice 12 16 p \<rparr>, get_u32 p 8)"
    by (auto simp: decode_mailbox_status_def and_then_Ok_iff Let_def valid_mailbox_def
        MAILBOX_STATUS_BYTES_def MAILBOX_STATUS_VERSION_def length_slice split: if_splits)
  have "mailbox_packet hmac key sn =
      sign hmac key (blit 12 (ms_coverage_by_slot (fst sn)) (put_u32 8 (snd sn)
        ((((blit 0 EIMB (replicate 32 0))[4 := 3])[5 := ms_unread_slots (fst sn)])
          [6 := ms_running_tasks (fst sn)])))"
    using val by (simp add: mailbox_packet_def encode_mailbox_status_def valid_mailbox_def Let_def
        MAILBOX_STATUS_BYTES_def MAILBOX_STATUS_VERSION_def)
  also have "\<dots> = p"
    by (rule sign_by_pieces [OF v(4), where bs = "[4, 5, 6, 7, 8, 12, 16]"])
      (use v in \<open>simp_all add: s canonical_simps\<close>)
  finally show ?thesis using val by simp
qed

interpretation request_codec:
  wire_codec "encode_request hmac key" "decode_request hmac key" valid_request
  by unfold_locales (auto simp: decode_encode_request dest: encode_decode_request)

interpretation begin_codec:
  wire_codec "encode_begin hmac key" "decode_begin hmac key" valid_begin
  by unfold_locales (auto simp: decode_encode_begin dest: encode_decode_begin)

interpretation ack_codec:
  wire_codec "encode_ack hmac key" "decode_ack hmac key" valid_ack
  by unfold_locales (auto simp: decode_encode_ack dest: encode_decode_ack)

interpretation finished_codec:
  wire_codec "encode_finished hmac key" "decode_finished hmac key" valid_finished
  by unfold_locales (auto simp: decode_encode_finished dest: encode_decode_finished)

interpretation finished_ack_codec:
  wire_codec "encode_finished_ack hmac key" "decode_finished_ack hmac key" valid_finished_ack
  by unfold_locales (auto simp: decode_encode_finished_ack dest: encode_decode_finished_ack)

interpretation mailbox_codec:
  wire_codec "mailbox_packet hmac key" "decode_mailbox_status hmac key" valid_mailbox
  by unfold_locales (auto simp: decode_encode_mailbox dest: encode_decode_mailbox)

section \<open>Data packets\<close>

lemma length_data_header [simp]: "length (data_header i off n) = 40"
  by (simp add: data_header_def roundtrip_simps)

lemma decode_encode_data:
  assumes "aead_correct seal opn"
    and "encode_data hmac seal key i n off payload = Ok packet"
  shows "decode_data hmac opn key packet n = Ok (i, off, payload)"
proof -
  let ?h = "data_header i off (length payload)"
  from assms(2) have v: "valid_identity i" "n \<noteq> 0" "payload \<noteq> []" "length payload \<le> 1024"
    by (auto simp: encode_data_def wire_consts not_less split: if_splits)
  then obtain body tag where
    s: "seal (derive_data_key hmac key i n) (data_nonce off) ?h payload = Some (body, tag)"
    and p: "packet = ?h @ body @ bytes_of_16 tag"
    using assms(2) by (auto simp: encode_data_def wire_consts Let_def split: if_splits option.splits)
  from assms(1) s have o: "length body = length payload"
      "opn (derive_data_key hmac key i n) (data_nonce off) ?h body tag = Some payload"
    by (auto simp: aead_correct_def)
  have h: "slice 0 4 ?h = EIPD" "?h ! 4 = 1" "slice 6 8 ?h = [0, 0]" "slice 38 40 ?h = [0, 0]"
      "decode_identity ?h = i" "get_u32 ?h 32 = off"
      and len16: "get_u16 ?h 36 = of_nat (length payload)"
    by (simp_all add: data_header_def roundtrip_simps)
  have "unat (get_u16 ?h 36) = length payload"
    using v(4) by (simp add: len16 unat_of_nat)
  note h = h this
  have d: "decode_identity packet = decode_identity ?h" "get_u32 packet 32 = get_u32 ?h 32"
      "get_u16 packet 36 = get_u16 ?h 36" "slice 0 4 packet = slice 0 4 ?h"
      "slice 6 8 packet = slice 6 8 ?h" "slice 38 40 packet = slice 38 40 ?h"
      "packet ! 4 = ?h ! 4" "take 40 packet = ?h"
    by (simp_all add: p decode_identity_def get_u32_def get_u16_def get_u64_def bytes_simps nth_append)
  have l: "length packet = 40 + length payload + 16" "length payload > 0"
    using o(1) v(3) by (simp_all add: p)
  have b: "slice 40 (40 + length payload) packet = body"
      "drop (40 + length payload) packet = bytes_of_16 tag"
    using o(1) by (simp_all add: p bytes_simps slice_def)
  show ?thesis
    using v l o by (simp add: decode_data_def Let_def wire_consts d h b)
qed

lemma data_nonce_inj: "data_nonce a = data_nonce b \<Longrightarrow> a = b"
proof -
  assume "data_nonce a = data_nonce b"
  then have "get_u32 (data_nonce a) 0 = get_u32 (data_nonce b) 0" by simp
  then show "a = b" by (simp add: data_nonce_def field_defs bytes_simps)
qed

lemma data_key_context_fields:
  "data_key_context i n ! 8 = pi_slot i"
  "get_u32 (data_key_context i n) 12 = pi_request_generation i"
  "get_u32 (data_key_context i n) 16 = pi_connection_generation i"
  "get_u64 (data_key_context i n) 20 = pi_summary_generation i"
  "get_u64 (data_key_context i n) 28 = pi_lease i"
  "get_u64 (data_key_context i n) 36 = n"
  by (simp_all add: data_key_context_def Let_def field_defs bytes_simps)

lemma data_key_context_inj:
  assumes "data_key_context i n = data_key_context j m"
  shows "i = j \<and> n = m"
  using data_key_context_fields [of i n] data_key_context_fields [of j m] assms
  by (simp add: playback_identity.equality)


section \<open>Properties\<close>

text \<open>C15: The host acts on a playback request packet exactly when the packet is the signed
  encoding of a request with a slot in 1..4 and non-zero generations and nonce: the decoder
  inverts the encoder and accepts no other byte string, whatever the MAC function and key.\<close>

theorem decode_request_exact:
  "decode_request hmac key p = Ok r \<longleftrightarrow> valid_request r \<and> p = encode_request hmac key r"
  by (rule request_codec.dec_Ok_iff)

text \<open>A begin packet is accepted exactly when it is the signed encoding of a begin
  message within the size and chunk limits.\<close>

lemma decode_begin_exact:
  "decode_begin hmac key p = Ok b \<longleftrightarrow> valid_begin b \<and> p = encode_begin hmac key b"
  by (rule begin_codec.dec_Ok_iff)

text \<open>C16: Acknowledgements, finished reports and their acknowledgements are accepted exactly
  when they are the signed encoding of a valid value, and so is the mailbox status that the
  host sends in answer to a heartbeat.\<close>

theorem control_packets_exact:
  "(decode_ack hmac key p = Ok a \<longleftrightarrow> valid_ack a \<and> p = encode_ack hmac key a) \<and>
   (decode_finished hmac key p = Ok f \<longleftrightarrow> valid_finished f \<and> p = encode_finished hmac key f) \<and>
   (decode_finished_ack hmac key p = Ok is \<longleftrightarrow>
      valid_finished_ack is \<and> p = encode_finished_ack hmac key is) \<and>
   (decode_mailbox_status hmac key p = Ok (s, n) \<longleftrightarrow>
      length (ms_coverage_by_slot s) = 4 \<and> encode_mailbox_status hmac key s n = Ok p)"
proof -
  have "decode_mailbox_status hmac key p = Ok (s, n) \<longleftrightarrow>
      valid_mailbox (s, n) \<and> p = mailbox_packet hmac key (s, n)"
    by (rule mailbox_codec.dec_Ok_iff)
  also have "\<dots> \<longleftrightarrow> length (ms_coverage_by_slot s) = 4 \<and> encode_mailbox_status hmac key s n = Ok p"
    by (auto simp: valid_mailbox_def mailbox_packet_def encode_mailbox_status_def)
  finally show ?thesis
    using ack_codec.dec_Ok_iff finished_codec.dec_Ok_iff finished_ack_codec.dec_Ok_iff by blast
qed

text \<open>C17: A data packet that the host sends is decoded by the device to the same identity,
  offset and payload, for every AEAD whose decryption inverts its encryption.\<close>

theorem data_packet_roundtrip:
  assumes "aead_correct seal opn"
    and "encode_data hmac seal key i nonce off payload = Ok packet"
  shows "decode_data hmac opn key packet nonce = Ok (i, off, payload)"
  by (rule decode_encode_data [OF assms])

text \<open>A concrete AEAD for the witness: the identity cipher with a constant tag.\<close>

definition plain_seal :: aead_seal where
  "plain_seal k n aad m = Some (m, 0)"

definition plain_open :: aead_open where
  "plain_open k n aad c t = (if t = 0 then Some c else None)"

definition sample_identity :: playback_identity where
  "sample_identity = \<lparr> pi_slot = 2, pi_request_generation = 7, pi_connection_generation = 9,
     pi_summary_generation = 3, pi_lease = 11 \<rparr>"

lemma plain_aead_correct: "aead_correct plain_seal plain_open"
  by (simp add: aead_correct_def plain_seal_def plain_open_def)

theorem data_packet_roundtrip_witness:
  "\<exists>packet. encode_data (\<lambda>k m. 0) plain_seal 5 sample_identity 1 1024 [10, 20, 30] = Ok packet \<and>
     decode_data (\<lambda>k m. 0) plain_open 5 packet 1 = Ok (sample_identity, 1024, [10, 20, 30])"
proof -
  obtain packet where p: "encode_data (\<lambda>k m. 0) plain_seal 5 sample_identity 1 1024 [10, 20, 30]
      = Ok packet"
    by (simp add: encode_data_def plain_seal_def sample_identity_def valid_identity_def wire_consts)
  from data_packet_roundtrip [OF plain_aead_correct p] p show ?thesis by blast
qed

text \<open>Under one root key, the pair of HMAC context and AEAD nonce that protects a data
  packet determines the playback identity, the request nonce and the offset: no two distinct
  chunks of any playback share both.\<close>

lemma data_context_separation:
  "data_key_context i n = data_key_context j m \<and> data_nonce a = data_nonce b \<longleftrightarrow>
   i = j \<and> n = m \<and> a = b"
  using data_key_context_inj data_nonce_inj by blast

end
