(* ===== verification/Text_Checks.thy ===== *)
theory Text_Checks
  imports Prelude
begin

text \<open>
  The text predicates of the Rust standard library that the validators call. A Rust
  \<open>str\<close> is its UTF-8 encoding: a \<open>string\<close> whose characters are the bytes, so that
  \<open>length\<close> is \<open>str::len\<close>. Decimal and hexadecimal printing are here too.
\<close>

definition code_units :: "string \<Rightarrow> nat list" where
  "code_units s = map of_char s"

text \<open>\<open>u8::is_ascii_control\<close>.\<close>

definition is_ascii_control :: "char \<Rightarrow> bool" where
  "is_ascii_control c \<longleftrightarrow> (of_char c :: nat) < 32 \<or> (of_char c :: nat) = 127"

text \<open>
  \<open>s.chars().any(char::is_control)\<close>: the control characters are U+0000..U+001F and
  U+007F..U+009F; the latter half is the byte C2 followed by 80..9F.
\<close>

fun any_control :: "nat list \<Rightarrow> bool" where
  "any_control [] = False"
| "any_control (b # bs) =
     (b < 0x20 \<or> b = 0x7F \<or>
      (b = 0xC2 \<and> (case bs of [] \<Rightarrow> False | c # _ \<Rightarrow> 0x80 \<le> c \<and> c \<le> 0x9F)) \<or>
      any_control bs)"

text \<open>The encodings of the characters with the Unicode property White_Space.\<close>

definition ascii_space :: "nat \<Rightarrow> bool" where
  "ascii_space b \<longleftrightarrow> 9 \<le> b \<and> b \<le> 13 \<or> b = 32"

definition two_byte_space :: "nat \<Rightarrow> nat \<Rightarrow> bool" where
  "two_byte_space b c \<longleftrightarrow> b = 0xC2 \<and> (c = 0x85 \<or> c = 0xA0)"

definition three_byte_space :: "nat \<Rightarrow> nat \<Rightarrow> nat \<Rightarrow> bool" where
  "three_byte_space b c d \<longleftrightarrow>
     b = 0xE1 \<and> c = 0x9A \<and> d = 0x80 \<or>
     b = 0xE2 \<and> c = 0x80 \<and> (0x80 \<le> d \<and> d \<le> 0x8A \<or> d = 0xA8 \<or> d = 0xA9 \<or> d = 0xAF) \<or>
     b = 0xE2 \<and> c = 0x81 \<and> d = 0x9F \<or>
     b = 0xE3 \<and> c = 0x80 \<and> d = 0x80"

text \<open>\<open>s.trim().is_empty()\<close>: every character is white space.\<close>

fun blank :: "nat list \<Rightarrow> bool" where
  "blank [] = True"
| "blank [b] = ascii_space b"
| "blank [b, c] = (if ascii_space b then blank [c] else two_byte_space b c)"
| "blank (b # c # d # ds) =
     (if ascii_space b then blank (c # d # ds)
      else if two_byte_space b c then blank (d # ds)
      else three_byte_space b c d \<and> blank ds)"

definition trim_is_empty :: "string \<Rightarrow> bool" where
  "trim_is_empty s \<longleftrightarrow> blank (code_units s)"

section \<open>Decimal and hexadecimal digits\<close>

definition digit_char :: "nat \<Rightarrow> char" where
  "digit_char d = (if d < 10 then char_of (48 + d) else char_of (87 + d))"

fun radix_digits :: "nat \<Rightarrow> nat \<Rightarrow> nat list" where
  "radix_digits r n = (if r < 2 \<or> n < r then [n] else radix_digits r (n div r) @ [n mod r])"

declare radix_digits.simps [simp del]

text \<open>\<open>n.to_string()\<close> of an unsigned integer.\<close>

definition decimal :: "nat \<Rightarrow> string" where
  "decimal n = map digit_char (radix_digits 10 n)"

fun radix_value :: "nat \<Rightarrow> nat list \<Rightarrow> nat \<Rightarrow> nat" where
  "radix_value r [] acc = acc"
| "radix_value r (d # ds) acc = radix_value r ds (acc * r + d)"

lemma radix_value_append: "radix_value r (xs @ ys) acc = radix_value r ys (radix_value r xs acc)"
  by (induction xs arbitrary: acc) auto

lemma radix_value_digits: "2 \<le> r \<Longrightarrow> radix_value r (radix_digits r n) 0 = n"
proof (induction r n rule: radix_digits.induct)
  case (1 r n)
  then show ?case
    by (cases "n < r")
      (auto simp: radix_digits.simps [of r n] radix_value_append)
qed

lemma radix_digits_bound: "2 \<le> r \<Longrightarrow> d \<in> set (radix_digits r n) \<Longrightarrow> d < r"
proof (induction r n rule: radix_digits.induct)
  case (1 r n)
  then show ?case
    by (cases "n < r") (auto simp: radix_digits.simps [of r n])
qed

lemma radix_digits_nonempty: "radix_digits r n \<noteq> []"
  by (subst radix_digits.simps) simp

lemma radix_digits_leading:
  "2 \<le> r \<Longrightarrow> 0 < n \<Longrightarrow> hd (radix_digits r n) \<noteq> 0"
proof (induction r n rule: radix_digits.induct)
  case (1 r n)
  show ?case
  proof (cases "n < r")
    case True
    with 1 show ?thesis by (simp add: radix_digits.simps [of r n])
  next
    case False
    with 1 have "hd (radix_digits r (n div r)) \<noteq> 0"
      by (simp add: div_greater_zero_iff)
    with False 1 show ?thesis
      by (simp add: radix_digits.simps [of r n] radix_digits_nonempty)
  qed
qed

lemma of_char_digit: "d < 16 \<Longrightarrow> (of_char (digit_char d) :: nat) = (if d < 10 then 48 + d else 87 + d)"
  by (simp add: digit_char_def)

lemma digit_char_inject:
  assumes "d < 16" "e < 16"
  shows "digit_char d = digit_char e \<longleftrightarrow> d = e"
proof
  assume "digit_char d = digit_char e"
  then have "(of_char (digit_char d) :: nat) = of_char (digit_char e)" by (rule arg_cong)
  then show "d = e"
    unfolding of_char_digit [OF assms(1)] of_char_digit [OF assms(2)]
    by (simp split: if_splits)
qed simp

lemma map_digit_char_inject:
  assumes "\<forall>d \<in> set xs. d < 16" "\<forall>d \<in> set ys. d < 16" "map digit_char xs = map digit_char ys"
  shows "xs = ys"
proof (rule map_inj_on [of digit_char])
  show "map digit_char xs = map digit_char ys" by fact
  show "inj_on digit_char (set xs \<union> set ys)"
    using assms by (intro inj_onI) (metis Un_iff digit_char_inject)
qed

lemma decimal_inject [simp]: "decimal m = decimal n \<longleftrightarrow> m = n"
proof
  assume "decimal m = decimal n"
  then have "radix_digits 10 m = radix_digits 10 n"
    unfolding decimal_def
    using radix_digits_bound [of 10 _ m] radix_digits_bound [of 10 _ n]
    by (intro map_digit_char_inject) fastforce+
  then have "radix_value 10 (radix_digits 10 m) 0 = radix_value 10 (radix_digits 10 n) 0"
    by simp
  then show "m = n" by (simp add: radix_value_digits)
qed simp

section \<open>Splitting\<close>

text \<open>\<open>s.split(x)\<close>, which always yields at least one part.\<close>

fun split_on :: "'a \<Rightarrow> 'a list \<Rightarrow> 'a list list" where
  "split_on x [] = [[]]"
| "split_on x (y # ys) =
     (if y = x then [] # split_on x ys
      else case split_on x ys of [] \<Rightarrow> [[y]] | c # cs \<Rightarrow> (y # c) # cs)"

lemma split_on_nonempty: "split_on x s \<noteq> []"
  by (cases s) (auto split: list.splits)

lemma split_on_none: "x \<notin> set s \<Longrightarrow> split_on x s = [s]"
  by (induction s) auto

lemma split_on_append: "x \<notin> set a \<Longrightarrow> split_on x (a @ x # b) = a # split_on x b"
  by (induction a) auto

lemma split_on_single: "split_on x s = [a] \<longleftrightarrow> s = a \<and> x \<notin> set a"
proof
  show "split_on x s = [a] \<Longrightarrow> s = a \<and> x \<notin> set a"
    by (induction s arbitrary: a) (auto simp: split_on_nonempty split: if_splits list.splits)
qed (simp add: split_on_none)

lemma split_on_pair: "split_on x s = [a, b] \<longleftrightarrow> s = a @ x # b \<and> x \<notin> set a \<and> x \<notin> set b"
proof
  show "split_on x s = [a, b] \<Longrightarrow> s = a @ x # b \<and> x \<notin> set a \<and> x \<notin> set b"
    by (induction s arbitrary: a) (auto simp: split_on_single split: if_splits list.splits)
qed (simp add: split_on_append split_on_none)

end
