(* ===== verification/Capture.thy ===== *)
theory Capture
  imports Playback_Wire Text_Checks
begin

text \<open>
  Voice capture over the LAN, \<open>app/host/src/lan_voice.rs\<close>: the authenticated audio packets of the
  keyboard (EIAU frames and the EIAE end marker) and \<open>CaptureAssembler\<close>, which puts the frames of up
  to four sessions in order, fills short gaps with silence and hands complete captures on.
  HMAC-SHA256 is a parameter. A \<open>BTreeMap\<close> is a list of pairs sorted by key, a \<open>VecDeque\<close> a list,
  an \<open>Instant\<close> a number of milliseconds and a socket address a number.
\<close>

unbundle bit_operations_syntax

section \<open>Ordered maps\<close>

fun bt_insert :: "'k :: linorder \<Rightarrow> 'v \<Rightarrow> ('k \<times> 'v) list \<Rightarrow> ('k \<times> 'v) list" where
  "bt_insert k v [] = [(k, v)]"
| "bt_insert k v ((k', v') # m) =
     (if k < k' then (k, v) # (k', v') # m
      else if k = k' then (k, v) # m else (k', v') # bt_insert k v m)"

definition bt_remove :: "'k \<Rightarrow> ('k \<times> 'v) list \<Rightarrow> ('k \<times> 'v) list" where
  "bt_remove k m = filter (\<lambda>(k', _). k' \<noteq> k) m"

section \<open>Constants and data\<close>

type_synonym socket_addr = nat
type_synonym instant = nat

definition AUDIO_HEADER_BYTES :: nat where "AUDIO_HEADER_BYTES = 32"
definition AUDIO_AUTH_TAG_BYTES :: nat where "AUDIO_AUTH_TAG_BYTES = 16"
definition AUDIO_END_BYTES :: nat where "AUDIO_END_BYTES = AUDIO_HEADER_BYTES + AUDIO_AUTH_TAG_BYTES"
definition AUDIO_FRAME_SAMPLES :: nat where "AUDIO_FRAME_SAMPLES = 320"
definition AUDIO_FRAME_BYTES :: nat where "AUDIO_FRAME_BYTES = AUDIO_FRAME_SAMPLES * 2"
definition AUDIO_SAMPLE_RATE :: nat where "AUDIO_SAMPLE_RATE = 16000"
definition MAX_CAPTURE_BYTES :: nat where "MAX_CAPTURE_BYTES = AUDIO_SAMPLE_RATE * 2 * 90"
definition MIN_CAPTURE_FRAMES :: nat where "MIN_CAPTURE_FRAMES = 10"
definition MAX_CAPTURE_GAP_FRAMES :: nat where "MAX_CAPTURE_GAP_FRAMES = 10"
definition MAX_ACTIVE_CAPTURES :: nat where "MAX_ACTIVE_CAPTURES = 4"
definition MAX_RETIRED_SESSIONS :: nat where "MAX_RETIRED_SESSIONS = 128"
definition CAPTURE_ABORT_TIMEOUT :: nat where "CAPTURE_ABORT_TIMEOUT = 15000"
definition MAX_TRANSCRIPT_BYTES :: nat where "MAX_TRANSCRIPT_BYTES = 32 * 1024"

lemmas capture_consts = AUDIO_HEADER_BYTES_def AUDIO_AUTH_TAG_BYTES_def AUDIO_END_BYTES_def AUDIO_FRAME_SAMPLES_def
  AUDIO_FRAME_BYTES_def AUDIO_SAMPLE_RATE_def MAX_CAPTURE_BYTES_def MIN_CAPTURE_FRAMES_def MAX_CAPTURE_GAP_FRAMES_def
  MAX_ACTIVE_CAPTURES_def MAX_RETIRED_SESSIONS_def CAPTURE_ABORT_TIMEOUT_def

definition EIAU :: "u8 list" where "EIAU = [0x45, 0x49, 0x41, 0x55]"
definition EIAE :: "u8 list" where "EIAE = [0x45, 0x49, 0x41, 0x45]"
definition EIHB :: "u8 list" where "EIHB = [0x45, 0x49, 0x48, 0x42]"

datatype lan_voice_error =
    Io | InvalidPacket | InvalidSession | AuthenticationFailed | InvalidSequence | CaptureLimit | CaptureTooShort
  | AsrUnavailable | AsrTimeout | AsrFailed | RemoteAsrRejected | RemoteAsrInvalidAudio | RemoteAsrProtocol
  | InvalidTranscript

record capture_session_identity =
  cs_slot :: u8
  cs_capture_generation :: u32
  cs_connection_generation :: u32

record lan_voice_prompt =
  vp_slot :: u8
  vp_request_id :: string
  vp_transcript :: string

record parsed_frame =
  fr_session_id :: u64
  fr_identity :: capture_session_identity
  fr_sequence :: u32
  fr_payload :: "u8 list"

record parsed_end =
  en_session_id :: u64
  en_identity :: capture_session_identity
  en_final_sequence :: u32

record active_capture =
  ac_session_id :: u64
  ac_identity :: capture_session_identity
  ac_source :: socket_addr
  ac_next_sequence :: u32
  ac_pcm :: "u8 list"
  ac_last_frame_at :: instant
  ac_final_sequence :: "u32 option"

record completed_capture =
  cc_session_id :: u64
  cc_identity :: capture_session_identity
  cc_pcm :: "u8 list"

record capture_assembler =
  ca_active :: "(u64 \<times> active_capture) list"
  ca_retired :: "u64 list"
  ca_ready :: "(lan_voice_error + completed_capture) list"
  ca_auth_key :: "bytes32 option"

section \<open>Packets\<close>

definition decode_capture_session_identity :: "u64 \<Rightarrow> lan_voice_error + capture_session_identity" where
  "decode_capture_session_identity session_id =
     (if (ucast (drop_bit 56 session_id) :: u8) \<noteq> 0xEC then Err InvalidSession
      else let identity = \<lparr> cs_slot = ucast (drop_bit 52 session_id AND 0x0F),
                            cs_capture_generation = ucast session_id,
                            cs_connection_generation = ucast (drop_bit 32 session_id AND 0x000FFFFF) \<rparr>
           in if \<not> (1 \<le> cs_slot identity \<and> cs_slot identity \<le> 4) \<or>
                 cs_connection_generation identity = 0 \<or> cs_capture_generation identity = 0
              then Err InvalidSession else Ok identity)"

text \<open>The difference of all sixteen bytes is zero exactly when the tags are equal.\<close>

definition verify_audio_authentication ::
  "hmac_sha256 \<Rightarrow> u8 list \<Rightarrow> bytes32 option \<Rightarrow> lan_voice_error + unit" where
  "verify_audio_authentication hmac datagram auth_key =
     (case auth_key of
        None \<Rightarrow> Err AuthenticationFailed
      | Some key \<Rightarrow>
          if length datagram < AUDIO_AUTH_TAG_BYTES then Err AuthenticationFailed
          else let authenticated_bytes = length datagram - AUDIO_AUTH_TAG_BYTES
               in if take AUDIO_AUTH_TAG_BYTES (bytes_of_32 (hmac key (take authenticated_bytes datagram))) =
                     drop authenticated_bytes datagram
                  then Ok () else Err AuthenticationFailed)"

text \<open>The length of the datagram is checked first, so the readers of its fields cannot fail.\<close>

definition parse_audio_frame :: "hmac_sha256 \<Rightarrow> u8 list \<Rightarrow> bytes32 option \<Rightarrow> lan_voice_error + parsed_frame" where
  "parse_audio_frame hmac datagram auth_key =
     (if length datagram \<noteq> AUDIO_HEADER_BYTES + AUDIO_FRAME_BYTES + AUDIO_AUTH_TAG_BYTES \<or>
         slice 0 4 datagram \<noteq> EIAU \<or> datagram ! 4 \<noteq> 3 \<or> unat (datagram ! 5) \<noteq> AUDIO_HEADER_BYTES \<or>
         datagram ! 6 \<noteq> 1 \<or> datagram ! 7 \<noteq> 1 \<or> unat (get_u32 datagram 20) \<noteq> AUDIO_SAMPLE_RATE \<or>
         unat (get_u16 datagram 28) \<noteq> AUDIO_FRAME_SAMPLES \<or> unat (get_u16 datagram 30) \<noteq> AUDIO_FRAME_BYTES
      then Err InvalidPacket
      else and_then (verify_audio_authentication hmac datagram auth_key) (\<lambda>_.
             let session_id = get_u64 datagram 8
             in and_then (decode_capture_session_identity session_id) (\<lambda>identity.
                  Ok \<lparr> fr_session_id = session_id, fr_identity = identity, fr_sequence = get_u32 datagram 16,
                       fr_payload = slice AUDIO_HEADER_BYTES (AUDIO_HEADER_BYTES + AUDIO_FRAME_BYTES) datagram \<rparr>)))"

definition parse_audio_end :: "hmac_sha256 \<Rightarrow> u8 list \<Rightarrow> bytes32 option \<Rightarrow> lan_voice_error + parsed_end" where
  "parse_audio_end hmac datagram auth_key =
     (if length datagram \<noteq> AUDIO_END_BYTES \<or>
         slice 0 4 datagram \<noteq> EIAE \<or> datagram ! 4 \<noteq> 3 \<or> unat (datagram ! 5) \<noteq> AUDIO_HEADER_BYTES \<or>
         datagram ! 6 \<noteq> 1 \<or> datagram ! 7 \<noteq> 0 \<or> unat (get_u32 datagram 20) \<noteq> AUDIO_SAMPLE_RATE \<or>
         get_u16 datagram 28 \<noteq> 0 \<or> get_u16 datagram 30 \<noteq> 0
      then Err InvalidPacket
      else and_then (verify_audio_authentication hmac datagram auth_key) (\<lambda>_.
             let session_id = get_u64 datagram 8
             in and_then (decode_capture_session_identity session_id) (\<lambda>identity.
                  Ok \<lparr> en_session_id = session_id, en_identity = identity, en_final_sequence = get_u32 datagram 16 \<rparr>)))"

section \<open>The assembler\<close>

definition new_assembler :: "bytes32 option \<Rightarrow> capture_assembler" where
  "new_assembler auth_key = \<lparr> ca_active = [], ca_retired = [], ca_ready = [], ca_auth_key = auth_key \<rparr>"

text \<open>The loop that pops the oldest entries leaves the last \<open>MAX_RETIRED_SESSIONS\<close>.\<close>

definition retire :: "u64 \<Rightarrow> capture_assembler \<Rightarrow> capture_assembler" where
  "retire session_id a =
     (if session_id \<in> set (ca_retired a) then a
      else let retired = ca_retired a @ [session_id]
           in a\<lparr>ca_retired := drop (length retired - MAX_RETIRED_SESSIONS) retired\<rparr>)"

text \<open>A session that is given up: removed from the active ones and retired.\<close>

definition discard :: "u64 \<Rightarrow> capture_assembler \<Rightarrow> capture_assembler" where
  "discard session_id a = retire session_id (a\<lparr>ca_active := bt_remove session_id (ca_active a)\<rparr>)"

definition complete_capture :: "u64 \<Rightarrow> capture_assembler \<Rightarrow> capture_assembler" where
  "complete_capture session_id a =
     (case map_of (ca_active a) session_id of
        None \<Rightarrow> a
      | Some capture \<Rightarrow>
          let a = discard session_id a
          in a\<lparr>ca_ready := ca_ready a @
                 [if unat (ac_next_sequence capture) < MIN_CAPTURE_FRAMES then Err CaptureTooShort
                  else Ok \<lparr> cc_session_id = ac_session_id capture, cc_identity = ac_identity capture,
                            cc_pcm = ac_pcm capture \<rparr>]\<rparr>)"

definition u32_saturating_succ :: "u32 \<Rightarrow> u32" where
  "u32_saturating_succ v = (if v = - 1 then v else v + 1)"

text \<open>The part of \<open>ingest\<close> that adds a frame to the capture of its session.\<close>

definition append_frame ::
  "parsed_frame \<Rightarrow> socket_addr \<Rightarrow> instant \<Rightarrow> active_capture \<Rightarrow> capture_assembler
   \<Rightarrow> (lan_voice_error + unit) \<times> capture_assembler" where
  "append_frame frame source now capture a =
     (let sid = fr_session_id frame
      in if ac_source capture \<noteq> source \<or> ac_identity capture \<noteq> fr_identity frame \<or>
            (case ac_final_sequence capture of None \<Rightarrow> False | Some f \<Rightarrow> fr_sequence frame \<ge> f)
         then (Err InvalidSequence, discard sid a)
         else if fr_sequence frame < ac_next_sequence capture
         then (Ok (), a\<lparr>ca_active := bt_insert sid (capture\<lparr>ac_last_frame_at := now\<rparr>) (ca_active a)\<rparr>)
         else let missing_frames = unat (fr_sequence frame - ac_next_sequence capture)
              in if missing_frames > MAX_CAPTURE_GAP_FRAMES then (Err InvalidSequence, discard sid a)
                 else let missing_bytes = missing_frames * AUDIO_FRAME_BYTES;
                          added_bytes = missing_bytes + length (fr_payload frame)
                      in if length (ac_pcm capture) + added_bytes > MAX_CAPTURE_BYTES
                         then (Err CaptureLimit, discard sid a)
                         else let capture = (if missing_frames > 0
                                    then capture\<lparr>ac_pcm := ac_pcm capture @ replicate missing_bytes 0,
                                                 ac_next_sequence := fr_sequence frame\<rparr> else capture);
                                  capture = capture\<lparr>ac_pcm := ac_pcm capture @ fr_payload frame,
                                    ac_next_sequence := u32_saturating_succ (ac_next_sequence capture),
                                    ac_last_frame_at := now\<rparr>;
                                  a = a\<lparr>ca_active := bt_insert sid capture (ca_active a)\<rparr>
                              in (Ok (), if ac_final_sequence capture = Some (ac_next_sequence capture)
                                         then complete_capture sid a else a))"

definition ingest_end ::
  "hmac_sha256 \<Rightarrow> u8 list \<Rightarrow> socket_addr \<Rightarrow> instant \<Rightarrow> capture_assembler
   \<Rightarrow> (lan_voice_error + unit) \<times> capture_assembler" where
  "ingest_end hmac datagram source now a =
     (case parse_audio_end hmac datagram (ca_auth_key a) of
        Inl e \<Rightarrow> (Err e, a)
      | Inr terminal \<Rightarrow>
          let sid = en_session_id terminal
          in if sid \<in> set (ca_retired a) then (Ok (), a)
             else case map_of (ca_active a) sid of
                 None \<Rightarrow> (Err InvalidSession, a)
               | Some capture \<Rightarrow>
                   if ac_source capture \<noteq> source \<or> ac_identity capture \<noteq> en_identity terminal \<or>
                      en_final_sequence terminal < ac_next_sequence capture \<or>
                      unat (en_final_sequence terminal) * AUDIO_FRAME_BYTES > MAX_CAPTURE_BYTES
                   then (Err InvalidSequence, discard sid a)
                   else case ac_final_sequence capture of
                       Some existing \<Rightarrow>
                         if existing = en_final_sequence terminal
                         then (Ok (), a\<lparr>ca_active := bt_insert sid (capture\<lparr>ac_last_frame_at := now\<rparr>) (ca_active a)\<rparr>)
                         else (Err InvalidSequence, discard sid a)
                     | None \<Rightarrow>
                         let missing_frames = unat (en_final_sequence terminal - ac_next_sequence capture)
                         in if missing_frames > MAX_CAPTURE_GAP_FRAMES then (Err InvalidSequence, discard sid a)
                            else let capture = (if missing_frames > 0
                                       then capture\<lparr>ac_pcm := ac_pcm capture @
                                                      replicate (missing_frames * AUDIO_FRAME_BYTES) 0,
                                                    ac_next_sequence := en_final_sequence terminal\<rparr> else capture);
                                     capture = capture\<lparr>ac_final_sequence := Some (en_final_sequence terminal),
                                                       ac_last_frame_at := now\<rparr>;
                                     a = a\<lparr>ca_active := bt_insert sid capture (ca_active a)\<rparr>
                                 in (Ok (), if ac_next_sequence capture = en_final_sequence terminal
                                            then complete_capture sid a else a))"

definition ingest ::
  "hmac_sha256 \<Rightarrow> u8 list \<Rightarrow> socket_addr \<Rightarrow> instant \<Rightarrow> capture_assembler
   \<Rightarrow> (lan_voice_error + unit) \<times> capture_assembler" where
  "ingest hmac datagram source now a =
     (if length datagram \<ge> 4 \<and> slice 0 4 datagram = EIAE then ingest_end hmac datagram source now a
      else case parse_audio_frame hmac datagram (ca_auth_key a) of
          Inl e \<Rightarrow> if e = InvalidPacket \<and> length datagram \<ge> 4 \<and> slice 0 4 datagram = EIHB then (Ok (), a)
                    else (Err e, a)
        | Inr frame \<Rightarrow>
            let sid = fr_session_id frame
            in if sid \<in> set (ca_retired a) then (Ok (), a)
               else case map_of (ca_active a) sid of
                   Some capture \<Rightarrow> append_frame frame source now capture a
                 | None \<Rightarrow>
                     if unat (fr_sequence frame) > MAX_CAPTURE_GAP_FRAMES then (Err InvalidSequence, retire sid a)
                     else if length (ca_active a) \<ge> MAX_ACTIVE_CAPTURES then (Err CaptureLimit, retire sid a)
                     else let capture = \<lparr> ac_session_id = sid, ac_identity = fr_identity frame, ac_source = source,
                                          ac_next_sequence = 0, ac_pcm = [], ac_last_frame_at = now,
                                          ac_final_sequence = None \<rparr>
                          in append_frame frame source now capture
                               (a\<lparr>ca_active := bt_insert sid capture (ca_active a)\<rparr>))"

definition take_ready :: "capture_assembler \<Rightarrow> (lan_voice_error + completed_capture) list \<times> capture_assembler" where
  "take_ready a = (ca_ready a, a\<lparr>ca_ready := []\<rparr>)"

fun expire_loop :: "u64 list \<Rightarrow> capture_assembler \<Rightarrow> lan_voice_error list \<times> capture_assembler" where
  "expire_loop [] a = ([], a)"
| "expire_loop (session # idle) a =
     (case map_of (ca_active a) session of
        None \<Rightarrow> expire_loop idle a
      | Some capture \<Rightarrow> let (es, a') = expire_loop idle (discard session a) in (InvalidSequence # es, a'))"

definition expire_incomplete :: "instant \<Rightarrow> capture_assembler \<Rightarrow> lan_voice_error list \<times> capture_assembler" where
  "expire_incomplete now a =
     expire_loop (map fst (filter (\<lambda>(session, capture). now - ac_last_frame_at capture \<ge> CAPTURE_ABORT_TIMEOUT)
       (ca_active a))) a"

section \<open>Prompts\<close>

text \<open>\<open>{session:016x}\<close>\<close>

definition hex16 :: "u64 \<Rightarrow> string" where
  "hex16 session = map (\<lambda>k. digit_char (unat session div 16 ^ k mod 16)) (rev [0..<16])"

definition prompt_from_capture :: "completed_capture \<Rightarrow> string \<Rightarrow> lan_voice_error + lan_voice_prompt" where
  "prompt_from_capture capture transcript =
     (if transcript = [] \<or> length transcript > MAX_TRANSCRIPT_BYTES then Err InvalidTranscript
      else Ok \<lparr> vp_slot = cs_slot (cc_identity capture), vp_request_id = ''lan-'' @ hex16 (cc_session_id capture),
                vp_transcript = transcript \<rparr>)"

datatype asr_error = AsrInvalidAudio | AsrRejected | AsrRateLimited | AsrServiceUnavailable | AsrProtocol

definition qwen_error_allows_offline_fallback :: "asr_error \<Rightarrow> bool" where
  "qwen_error_allows_offline_fallback e \<longleftrightarrow> e = AsrRateLimited \<or> e = AsrServiceUnavailable"

definition map_qwen_error :: "asr_error \<Rightarrow> lan_voice_error" where
  "map_qwen_error e =
     (case e of AsrRejected \<Rightarrow> RemoteAsrRejected | AsrInvalidAudio \<Rightarrow> RemoteAsrInvalidAudio
      | AsrProtocol \<Rightarrow> RemoteAsrProtocol | AsrRateLimited \<Rightarrow> AsrUnavailable | AsrServiceUnavailable \<Rightarrow> AsrUnavailable)"

section \<open>Histories\<close>

text \<open>The calls the ingress thread makes on the assembler.\<close>

datatype capture_event = Datagram "u8 list" socket_addr instant | TakeReady | Expire instant | KeyLoaded bytes32

definition capture_step ::
  "hmac_sha256 \<Rightarrow> capture_event \<Rightarrow> capture_assembler \<Rightarrow> (lan_voice_error + completed_capture) list \<times> capture_assembler" where
  "capture_step hmac ev a =
     (case ev of
        Datagram d source now \<Rightarrow> ([], snd (ingest hmac d source now a))
      | TakeReady \<Rightarrow> take_ready a
      | Expire now \<Rightarrow> ([], snd (expire_incomplete now a))
      | KeyLoaded k \<Rightarrow> ([], if ca_auth_key a = None then a\<lparr>ca_auth_key := Some k\<rparr> else a))"

fun capture_run ::
  "hmac_sha256 \<Rightarrow> capture_event list \<Rightarrow> capture_assembler \<Rightarrow> (lan_voice_error + completed_capture) list \<times> capture_assembler" where
  "capture_run hmac [] a = ([], a)"
| "capture_run hmac (ev # evs) a =
     (let (out, a') = capture_step hmac ev a; (rest, a'') = capture_run hmac evs a' in (out @ rest, a''))"

section \<open>Ordered maps\<close>

definition bt_ok :: "('k :: linorder \<times> 'v) list \<Rightarrow> bool" where
  "bt_ok m \<longleftrightarrow> sorted_wrt (<) (map fst m)"

lemma bt_ok_distinct: "bt_ok m \<Longrightarrow> distinct (map fst m)"
  by (simp add: bt_ok_def strict_sorted_iff)

lemma set_bt_insert: "bt_ok m \<Longrightarrow> set (bt_insert k v m) = insert (k, v) {p \<in> set m. fst p \<noteq> k}"
  unfolding bt_ok_def by (induction k v m rule: bt_insert.induct) force+

lemma bt_insert_keys: "set (map fst (bt_insert k v m)) \<subseteq> insert k (set (map fst m))"
  by (induction k v m rule: bt_insert.induct) auto

lemma bt_insert_ok: "bt_ok m \<Longrightarrow> bt_ok (bt_insert k v m)"
  unfolding bt_ok_def
proof (induction k v m rule: bt_insert.induct)
  case (2 k v k' v' m)
  have "k' < x" if "k' < k" "x \<in> set (map fst (bt_insert k v m))" for x
  proof -
    have "x = k \<or> x \<in> set (map fst m)" using bt_insert_keys [of k v m] that(2) by blast
    then show ?thesis using that(1) 2(2) by auto
  qed
  with 2 show ?case by (cases "k < k'"; cases "k = k'") auto
qed simp

lemma length_bt_insert_le: "length (bt_insert k v m) \<le> Suc (length m)"
  by (induction k v m rule: bt_insert.induct) auto

lemma length_bt_insert_same: "bt_ok m \<Longrightarrow> k \<in> fst ` set m \<Longrightarrow> length (bt_insert k v m) = length m"
  unfolding bt_ok_def by (induction k v m rule: bt_insert.induct) auto

lemma map_of_bt_insert: "bt_ok m \<Longrightarrow> map_of (bt_insert k v m) = (map_of m)(k \<mapsto> v)"
  unfolding bt_ok_def by (induction k v m rule: bt_insert.induct) (auto simp: fun_eq_iff)

lemma bt_remove_ok: "bt_ok m \<Longrightarrow> bt_ok (bt_remove k m)"
  unfolding bt_ok_def bt_remove_def by (induction m) auto

lemma set_bt_remove: "set (bt_remove k m) = {p \<in> set m. fst p \<noteq> k}"
  by (auto simp: bt_remove_def)

lemma length_bt_remove: "length (bt_remove k m) \<le> length m"
  by (simp add: bt_remove_def)

section \<open>The invariant of the assembler\<close>

text \<open>Every frame-sized block of a recording is silence or the payload of a frame of this session with
  the number of the block.\<close>

definition block :: "nat \<Rightarrow> u8 list \<Rightarrow> u8 list" where
  "block k pcm = slice (k * AUDIO_FRAME_BYTES) (Suc k * AUDIO_FRAME_BYTES) pcm"

definition recorded_from :: "parsed_frame set \<Rightarrow> u64 \<Rightarrow> nat \<Rightarrow> u8 list \<Rightarrow> bool" where
  "recorded_from F sid n pcm \<longleftrightarrow>
     length pcm = n * AUDIO_FRAME_BYTES \<and> n * AUDIO_FRAME_BYTES \<le> MAX_CAPTURE_BYTES \<and>
     (\<forall>k < n. block k pcm = replicate AUDIO_FRAME_BYTES 0 \<or>
        (\<exists>f \<in> F. fr_session_id f = sid \<and> unat (fr_sequence f) = k \<and> fr_payload f = block k pcm))"

definition active_ok :: "parsed_frame set \<Rightarrow> u64 list \<Rightarrow> u64 \<times> active_capture \<Rightarrow> bool" where
  "active_ok F retired p \<longleftrightarrow>
     ac_session_id (snd p) = fst p \<and> fst p \<notin> set retired \<and>
     decode_capture_session_identity (fst p) = Ok (ac_identity (snd p)) \<and> ac_final_sequence (snd p) = None \<and>
     recorded_from F (fst p) (unat (ac_next_sequence (snd p))) (ac_pcm (snd p))"

definition ready_ok :: "parsed_frame set \<Rightarrow> lan_voice_error + completed_capture \<Rightarrow> bool" where
  "ready_ok F r \<longleftrightarrow>
     (case r of
        Inl e \<Rightarrow> e = CaptureTooShort
      | Inr c \<Rightarrow> decode_capture_session_identity (cc_session_id c) = Ok (cc_identity c) \<and>
          (\<exists>n \<ge> MIN_CAPTURE_FRAMES. recorded_from F (cc_session_id c) n (cc_pcm c)))"

definition assembler_inv :: "parsed_frame set \<Rightarrow> capture_assembler \<Rightarrow> bool" where
  "assembler_inv F a \<longleftrightarrow>
     bt_ok (ca_active a) \<and> length (ca_active a) \<le> MAX_ACTIVE_CAPTURES \<and>
     distinct (ca_retired a) \<and> length (ca_retired a) \<le> MAX_RETIRED_SESSIONS \<and>
     (\<forall>p \<in> set (ca_active a). active_ok F (ca_retired a) p) \<and> (\<forall>r \<in> set (ca_ready a). ready_ok F r)"

lemma recorded_mono: "recorded_from F sid n pcm \<Longrightarrow> F \<subseteq> G \<Longrightarrow> recorded_from G sid n pcm"
  unfolding recorded_from_def by blast

lemma active_ok_mono: "active_ok F r p \<Longrightarrow> F \<subseteq> G \<Longrightarrow> active_ok G r p"
  unfolding active_ok_def using recorded_mono by blast

lemma ready_ok_mono: "ready_ok F r \<Longrightarrow> F \<subseteq> G \<Longrightarrow> ready_ok G r"
  unfolding ready_ok_def by (cases r) (auto intro: recorded_mono)

lemma assembler_inv_mono: "assembler_inv F a \<Longrightarrow> F \<subseteq> G \<Longrightarrow> assembler_inv G a"
  unfolding assembler_inv_def using active_ok_mono ready_ok_mono by blast

lemma frame_bytes_eq: "AUDIO_FRAME_BYTES = 640"
  by (simp add: capture_consts)

lemma block_append:
  "length pcm = n * AUDIO_FRAME_BYTES \<Longrightarrow> k < n \<Longrightarrow> block k (pcm @ more_bytes) = block k pcm"
  unfolding block_def by (intro slice_append_left) (simp add: frame_bytes_eq)

lemma block_beyond:
  "length pcm = n * AUDIO_FRAME_BYTES \<Longrightarrow> n \<le> k \<Longrightarrow> block k (pcm @ more_bytes) = block (k - n) more_bytes"
  unfolding block_def by (subst slice_append_right) (auto simp: frame_bytes_eq diff_mult_distrib Suc_diff_le)

lemma recorded_silence:
  assumes "recorded_from F sid n pcm" "(n + j) * AUDIO_FRAME_BYTES \<le> MAX_CAPTURE_BYTES"
  shows "recorded_from F sid (n + j) (pcm @ replicate (j * AUDIO_FRAME_BYTES) 0)"
proof -
  have len: "length pcm = n * AUDIO_FRAME_BYTES" using assms(1) by (simp add: recorded_from_def)
  have "block k (pcm @ replicate (j * AUDIO_FRAME_BYTES) 0) = replicate AUDIO_FRAME_BYTES 0" if "n \<le> k" "k < n + j" for k
  proof -
    have "Suc (k - n) * AUDIO_FRAME_BYTES \<le> j * AUDIO_FRAME_BYTES" using that by (intro mult_right_mono) auto
    then show ?thesis
      using block_beyond [OF len that(1)] by (simp add: block_def slice_replicate)
  qed
  moreover have "block k (pcm @ replicate (j * AUDIO_FRAME_BYTES) 0) = block k pcm" if "k < n" for k
    using block_append [OF len that] .
  ultimately show ?thesis
    using assms unfolding recorded_from_def by (simp add: add_mult_distrib) (metis not_less)
qed

lemma recorded_frame:
  assumes "recorded_from F sid n pcm" "Suc n * AUDIO_FRAME_BYTES \<le> MAX_CAPTURE_BYTES"
    "f \<in> F" "fr_session_id f = sid" "unat (fr_sequence f) = n" "length (fr_payload f) = AUDIO_FRAME_BYTES"
  shows "recorded_from F sid (Suc n) (pcm @ fr_payload f)"
proof -
  have len: "length pcm = n * AUDIO_FRAME_BYTES" using assms(1) by (simp add: recorded_from_def)
  have "block n (pcm @ fr_payload f) = fr_payload f"
    using block_beyond [OF len order_refl, of "fr_payload f"] assms(6) by (simp add: block_def slice_def)
  then have "block k (pcm @ fr_payload f) = replicate AUDIO_FRAME_BYTES 0 \<or>
      (\<exists>f' \<in> F. fr_session_id f' = sid \<and> unat (fr_sequence f') = k \<and> fr_payload f' = block k (pcm @ fr_payload f))"
    if "k < Suc n" for k
    using that assms block_append [OF len, of k "fr_payload f"]
    by (cases "k = n") (auto simp: recorded_from_def)
  with assms(2,6) len show ?thesis unfolding recorded_from_def by simp
qed

section \<open>Every operation keeps the invariant\<close>

lemma retire_fields [simp]:
  "ca_active (retire sid a) = ca_active a" "ca_ready (retire sid a) = ca_ready a"
  "ca_auth_key (retire sid a) = ca_auth_key a"
  by (simp_all add: retire_def Let_def)

lemma retire_retired:
  assumes "distinct (ca_retired a)" "length (ca_retired a) \<le> MAX_RETIRED_SESSIONS"
  shows "distinct (ca_retired (retire sid a))" "length (ca_retired (retire sid a)) \<le> MAX_RETIRED_SESSIONS"
    "set (ca_retired (retire sid a)) \<subseteq> insert sid (set (ca_retired a))" "sid \<in> set (ca_retired (retire sid a))"
proof -
  let ?r = "ca_retired a @ [sid]"
  show "distinct (ca_retired (retire sid a))" "length (ca_retired (retire sid a)) \<le> MAX_RETIRED_SESSIONS"
    using assms by (auto simp: retire_def Let_def MAX_RETIRED_SESSIONS_def dest: in_set_dropD)
  show "set (ca_retired (retire sid a)) \<subseteq> insert sid (set (ca_retired a))"
    by (auto simp: retire_def Let_def dest: in_set_dropD)
  have "length ?r - MAX_RETIRED_SESSIONS \<le> length (ca_retired a)" by (simp add: MAX_RETIRED_SESSIONS_def)
  then show "sid \<in> set (ca_retired (retire sid a))" by (simp add: retire_def Let_def)
qed

lemma retire_inv:
  assumes "assembler_inv F a" "sid \<notin> fst ` set (ca_active a)"
  shows "assembler_inv F (retire sid a)"
proof -
  have r: "distinct (ca_retired a)" "length (ca_retired a) \<le> MAX_RETIRED_SESSIONS"
    using assms(1) by (simp_all add: assembler_inv_def)
  have "active_ok F (ca_retired (retire sid a)) p" if p: "p \<in> set (ca_active a)" for p
  proof -
    have "active_ok F (ca_retired a) p" "fst p \<noteq> sid" using assms p by (auto simp: assembler_inv_def)
    then show ?thesis using retire_retired(3) [OF r, of sid] by (auto simp: active_ok_def)
  qed
  with assms(1) retire_retired(1,2) [OF r] show ?thesis by (simp add: assembler_inv_def)
qed

lemma discard_inv:
  assumes "assembler_inv F a"
  shows "assembler_inv F (discard sid a)"
  unfolding discard_def
proof (rule retire_inv)
  show "assembler_inv F (a\<lparr>ca_active := bt_remove sid (ca_active a)\<rparr>)"
    using assms length_bt_remove [of sid "ca_active a"]
    by (auto simp: assembler_inv_def bt_remove_ok set_bt_remove)
qed (auto simp: set_bt_remove)

lemma map_of_active: "bt_ok m \<Longrightarrow> map_of m k = Some v \<longleftrightarrow> (k, v) \<in> set m"
  using bt_ok_distinct map_of_eq_Some_iff by fast

lemma complete_inv:
  assumes inv: "assembler_inv F (a\<lparr>ca_active := bt_remove sid (ca_active a)\<rparr>)"
    and c: "map_of (ca_active a) sid = Some capture"
    and ok: "ac_session_id capture = sid" "decode_capture_session_identity sid = Ok (ac_identity capture)"
      "recorded_from F sid (unat (ac_next_sequence capture)) (ac_pcm capture)"
  shows "assembler_inv F (complete_capture sid a)"
proof -
  have d: "assembler_inv F (discard sid a)"
    unfolding discard_def using inv by (intro retire_inv) (auto simp: set_bt_remove)
  have "ready_ok F (if unat (ac_next_sequence capture) < MIN_CAPTURE_FRAMES then Err CaptureTooShort
      else Ok \<lparr> cc_session_id = ac_session_id capture, cc_identity = ac_identity capture, cc_pcm = ac_pcm capture \<rparr>)"
    using ok not_less by (auto simp: ready_ok_def)
  with d show ?thesis using c by (auto simp: complete_capture_def Let_def assembler_inv_def)
qed

lemma insert_inv:
  assumes inv: "assembler_inv F a" and sid: "map_of (ca_active a) sid = Some old"
    and ok: "active_ok F (ca_retired a) (sid, capture)"
  shows "assembler_inv F (a\<lparr>ca_active := bt_insert sid capture (ca_active a)\<rparr>)"
proof -
  have bt: "bt_ok (ca_active a)" using inv by (simp add: assembler_inv_def)
  have "sid \<in> fst ` set (ca_active a)" using map_of_SomeD [OF sid] by force
  then show ?thesis
    using inv ok by (auto simp: assembler_inv_def bt_insert_ok length_bt_insert_same set_bt_insert [OF bt])
qed

lemma remove_insert: "bt_ok m \<Longrightarrow> bt_remove k (bt_insert k v m) = bt_remove k m"
  unfolding bt_ok_def bt_remove_def by (induction k v m rule: bt_insert.induct) auto

lemma remove_inv: "assembler_inv F a \<Longrightarrow> assembler_inv F (a\<lparr>ca_active := bt_remove sid (ca_active a)\<rparr>)"
  using length_bt_remove [of sid "ca_active a"]
  by (auto simp: assembler_inv_def bt_remove_ok set_bt_remove)

text \<open>What an authenticated frame looks like.\<close>

lemma parse_frame_facts:
  assumes "parse_audio_frame hmac d key = Ok f"
  shows "decode_capture_session_identity (fr_session_id f) = Ok (fr_identity f)" "length (fr_payload f) = AUDIO_FRAME_BYTES"
  using assms by (auto simp: parse_audio_frame_def and_then_Ok_iff Let_def length_slice capture_consts split: if_splits)

lemma parse_end_facts:
  "parse_audio_end hmac d key = Ok t \<Longrightarrow> decode_capture_session_identity (en_session_id t) = Ok (en_identity t)"
  by (auto simp: parse_audio_end_def and_then_Ok_iff Let_def split: if_splits)

lemma unat_max_u32: "unat (- 1 :: u32) = 4294967295"
  by code_simp

text \<open>The effect of a frame that extends a capture, with at most ten frames lost before it.\<close>

definition extended :: "parsed_frame \<Rightarrow> instant \<Rightarrow> active_capture \<Rightarrow> active_capture" where
  "extended f now c = c\<lparr>ac_pcm := ac_pcm c @ replicate ((unat (fr_sequence f) - unat (ac_next_sequence c)) * AUDIO_FRAME_BYTES) 0 @
       fr_payload f,
     ac_next_sequence := u32_saturating_succ (fr_sequence f), ac_last_frame_at := now\<rparr>"

lemma append_frame_extends:
  assumes "ac_source c = source" "ac_identity c = fr_identity f" "ac_final_sequence c = None"
    and le: "unat (ac_next_sequence c) \<le> unat (fr_sequence f)"
    and gap: "unat (fr_sequence f) - unat (ac_next_sequence c) \<le> MAX_CAPTURE_GAP_FRAMES"
    and len: "length (ac_pcm c) = unat (ac_next_sequence c) * AUDIO_FRAME_BYTES" "length (fr_payload f) = AUDIO_FRAME_BYTES"
    and max: "Suc (unat (fr_sequence f)) * AUDIO_FRAME_BYTES \<le> MAX_CAPTURE_BYTES"
  shows "append_frame f source now c a = (Ok (), a\<lparr>ca_active := bt_insert (fr_session_id f) (extended f now c) (ca_active a)\<rparr>)"
proof -
  let ?n = "unat (ac_next_sequence c)" and ?s = "unat (fr_sequence f)"
  have miss: "unat (fr_sequence f - ac_next_sequence c) = ?s - ?n"
    using le by (simp add: unat_sub word_le_nat_alt)
  have bytes: "length (ac_pcm c) + ((?s - ?n) * AUDIO_FRAME_BYTES + length (fr_payload f)) = Suc ?s * AUDIO_FRAME_BYTES"
    using le len by (simp add: frame_bytes_eq)
  have ge: "\<not> fr_sequence f < ac_next_sequence c" using le by (simp add: word_less_nat_alt)
  show ?thesis
  proof (cases "?s = ?n")
    case True
    then have "fr_sequence f = ac_next_sequence c" by (simp add: word_unat_eq_iff)
    then show ?thesis using assms miss bytes by (simp add: append_frame_def Let_def extended_def)
  next
    case False
    then have "?n < ?s" using le by simp
    then show ?thesis using assms ge miss bytes by (simp add: append_frame_def Let_def extended_def)
  qed
qed


lemma append_frame_inv:
  assumes inv: "assembler_inv F a" and c: "map_of (ca_active a) (fr_session_id f) = Some capture"
    and f: "f \<in> F" "length (fr_payload f) = AUDIO_FRAME_BYTES"
  shows "assembler_inv F (snd (append_frame f source now capture a))"
proof -
  let ?sid = "fr_session_id f" and ?n = "unat (ac_next_sequence capture)" and ?s = "unat (fr_sequence f)"
  have bt: "bt_ok (ca_active a)" using inv by (simp add: assembler_inv_def)
  have ok: "active_ok F (ca_retired a) (?sid, capture)"
    using inv c map_of_active [OF bt] by (auto simp: assembler_inv_def)
  note okD = ok [unfolded active_ok_def, simplified]
  show ?thesis
  proof (cases "fr_sequence f < ac_next_sequence capture \<or> ac_source capture \<noteq> source \<or> ac_identity capture \<noteq> fr_identity f \<or>
      unat (fr_sequence f - ac_next_sequence capture) > MAX_CAPTURE_GAP_FRAMES")
    case True
    have "assembler_inv F (a\<lparr>ca_active := bt_insert ?sid (capture\<lparr>ac_last_frame_at := now\<rparr>) (ca_active a)\<rparr>)"
      using okD by (intro insert_inv [OF inv c]) (simp add: active_ok_def)
    with True show ?thesis using discard_inv [OF inv] by (auto simp: append_frame_def Let_def)
  next
    case False
    then have ge: "?n \<le> ?s" by (simp add: word_less_nat_alt)
    have miss: "unat (fr_sequence f - ac_next_sequence capture) = ?s - ?n"
      using ge by (simp add: unat_sub word_le_nat_alt)
    have len: "length (ac_pcm capture) = ?n * AUDIO_FRAME_BYTES" using okD by (simp add: recorded_from_def)
    have bytes: "length (ac_pcm capture) + ((?s - ?n) * AUDIO_FRAME_BYTES + length (fr_payload f)) = Suc ?s * AUDIO_FRAME_BYTES"
      using ge f(2) len by (simp add: frame_bytes_eq)
    show ?thesis
    proof (cases "Suc ?s * AUDIO_FRAME_BYTES > MAX_CAPTURE_BYTES")
      case True
      then show ?thesis
        using discard_inv [OF inv] False okD miss bytes by (auto simp: append_frame_def Let_def)
    next
      case fits: False
      let ?c = "extended f now capture"
      have s: "?s < 4500" using fits by (simp add: capture_consts)
      then have succ: "unat (u32_saturating_succ (fr_sequence f)) = Suc ?s"
        by (auto simp: u32_saturating_succ_def unat_word_ariths unat_max_u32)
      have "recorded_from F ?sid (?n + (?s - ?n)) (ac_pcm capture @ replicate ((?s - ?n) * AUDIO_FRAME_BYTES) 0)"
        using okD ge fits by (intro recorded_silence) auto
      then have "recorded_from F ?sid (Suc ?s) ((ac_pcm capture @ replicate ((?s - ?n) * AUDIO_FRAME_BYTES) 0) @ fr_payload f)"
        using ge fits f by (intro recorded_frame) auto
      then have "active_ok F (ca_retired a) (?sid, ?c)" using okD succ by (simp add: active_ok_def extended_def)
      then have "assembler_inv F (a\<lparr>ca_active := bt_insert ?sid ?c (ca_active a)\<rparr>)" by (rule insert_inv [OF inv c])
      moreover have "append_frame f source now capture a = (Ok (), a\<lparr>ca_active := bt_insert ?sid ?c (ca_active a)\<rparr>)"
        by (rule append_frame_extends) (use okD False ge fits len f(2) miss in auto)
      ultimately show ?thesis by simp
    qed
  qed
qed

lemma ingest_end_inv:
  assumes inv: "assembler_inv F a"
  shows "assembler_inv F (snd (ingest_end hmac d source now a))"
proof (cases "parse_audio_end hmac d (ca_auth_key a)")
  case (Inr t)
  let ?sid = "en_session_id t"
  show ?thesis
  proof (cases "map_of (ca_active a) ?sid")
    case (Some capture)
    let ?n = "unat (ac_next_sequence capture)" and ?s = "unat (en_final_sequence t)"
    have bt: "bt_ok (ca_active a)" using inv by (simp add: assembler_inv_def)
    have "active_ok F (ca_retired a) (?sid, capture)"
      using inv Some map_of_active [OF bt] by (auto simp: assembler_inv_def)
    note okD = this [unfolded active_ok_def, simplified]
    show ?thesis
    proof (cases "ac_source capture \<noteq> source \<or> ac_identity capture \<noteq> en_identity t \<or>
        en_final_sequence t < ac_next_sequence capture \<or> ?s * AUDIO_FRAME_BYTES > MAX_CAPTURE_BYTES \<or>
        unat (en_final_sequence t - ac_next_sequence capture) > MAX_CAPTURE_GAP_FRAMES")
      case True
      then show ?thesis
        using Inr Some okD discard_inv [OF inv] inv by (auto simp: ingest_end_def Let_def)
    next
      case False
      then have ge: "?n \<le> ?s" by (simp add: word_less_nat_alt)
      have miss: "unat (en_final_sequence t - ac_next_sequence capture) = ?s - ?n"
        using ge by (simp add: unat_sub word_le_nat_alt)
      let ?c = "capture\<lparr>ac_pcm := ac_pcm capture @ replicate ((?s - ?n) * AUDIO_FRAME_BYTES) 0,
          ac_next_sequence := en_final_sequence t, ac_final_sequence := Some (en_final_sequence t), ac_last_frame_at := now\<rparr>"
      have rec: "recorded_from F ?sid ?s (ac_pcm ?c)"
        using okD ge False recorded_silence [of F ?sid ?n "ac_pcm capture" "?s - ?n"] by simp
      let ?a = "a\<lparr>ca_active := bt_insert ?sid ?c (ca_active a)\<rparr>"
      have "?a\<lparr>ca_active := bt_remove ?sid (ca_active ?a)\<rparr> = a\<lparr>ca_active := bt_remove ?sid (ca_active a)\<rparr>"
        using remove_insert [OF bt] by simp
      moreover have "assembler_inv F (a\<lparr>ca_active := bt_remove ?sid (ca_active a)\<rparr>)"
        by (rule remove_inv [OF inv])
      ultimately have "assembler_inv F (complete_capture ?sid ?a)"
        using rec okD by (intro complete_inv [where capture = ?c]) (simp_all add: map_of_bt_insert [OF bt])
      moreover have "snd (ingest_end hmac d source now a) = (if ?sid \<in> set (ca_retired a) then a else complete_capture ?sid ?a)"
      proof (cases "?s = ?n")
        case True
        then have "en_final_sequence t = ac_next_sequence capture" by (simp add: word_unat_eq_iff)
        then show ?thesis using False Inr Some okD by (simp add: ingest_end_def Let_def)
      next
        case gap: False
        then have "?n < ?s" using ge by simp
        then show ?thesis using False Inr Some okD miss by (simp add: ingest_end_def Let_def)
      qed
      ultimately show ?thesis using inv by simp
    qed
  qed (use inv Inr in \<open>simp add: ingest_end_def Let_def\<close>)
qed (simp add: ingest_end_def inv)

text \<open>The frames a datagram can contribute: those that verify under the key.\<close>

lemma ingest_inv:
  assumes inv: "assembler_inv F a"
    and F: "\<And>f. parse_audio_frame hmac d (ca_auth_key a) = Ok f \<Longrightarrow> f \<in> F"
  shows "assembler_inv F (snd (ingest hmac d source now a))"
proof (cases "parse_audio_frame hmac d (ca_auth_key a)")
  case (Inr f)
  let ?sid = "fr_session_id f"
  note facts = parse_frame_facts [OF Inr] F [OF Inr]
  have bt: "bt_ok (ca_active a)" using inv by (simp add: assembler_inv_def)
  show ?thesis
  proof (cases "map_of (ca_active a) ?sid")
    case (Some capture)
    show ?thesis
      using append_frame_inv [OF inv Some facts(3,2)] ingest_end_inv [OF inv] inv Inr Some
      by (simp add: ingest_def Let_def)
  next
    case None
    let ?c = "\<lparr> ac_session_id = ?sid, ac_identity = fr_identity f, ac_source = source, ac_next_sequence = 0, ac_pcm = [],
      ac_last_frame_at = now, ac_final_sequence = None \<rparr>"
    let ?a = "a\<lparr>ca_active := bt_insert ?sid ?c (ca_active a)\<rparr>"
    have notin: "?sid \<notin> fst ` set (ca_active a)" using None by (simp add: map_of_eq_None_iff)
    have fresh: "assembler_inv F ?a" if "?sid \<notin> set (ca_retired a)" "length (ca_active a) < MAX_ACTIVE_CAPTURES"
    proof -
      have "active_ok F (ca_retired a) (?sid, ?c)"
        using that facts(1) by (simp add: active_ok_def recorded_from_def)
      then show ?thesis
        using inv that length_bt_insert_le [of ?sid ?c "ca_active a"]
        by (auto simp: assembler_inv_def bt_insert_ok set_bt_insert [OF bt])
    qed
    have "assembler_inv F (snd (append_frame f source now ?c ?a))"
      if "?sid \<notin> set (ca_retired a)" "length (ca_active a) < MAX_ACTIVE_CAPTURES"
      by (rule append_frame_inv [OF fresh [OF that] _ facts(3,2)]) (simp add: map_of_bt_insert [OF bt])
    then show ?thesis
      using ingest_end_inv [OF inv] retire_inv [OF inv notin] inv Inr None
      by (simp add: ingest_def Let_def)
  qed
qed (use ingest_end_inv [OF inv] inv in \<open>simp add: ingest_def\<close>)

lemma expire_loop_inv: "assembler_inv F a \<Longrightarrow> assembler_inv F (snd (expire_loop idle a))"
  by (induction idle a rule: expire_loop.induct) (auto simp: discard_inv split: option.splits prod.splits)

lemma take_ready_inv: "assembler_inv F a \<Longrightarrow> assembler_inv F (snd (take_ready a))"
  by (simp add: take_ready_def assembler_inv_def)

lemma capture_inv_fields:
  "assembler_inv F (a\<lparr>ca_auth_key := k\<rparr>) = assembler_inv F a"
  by (simp add: assembler_inv_def)


lemma complete_key [simp]: "ca_auth_key (complete_capture sid a) = ca_auth_key a"
  by (simp add: complete_capture_def discard_def Let_def split: option.splits)

lemma discard_key [simp]: "ca_auth_key (discard sid a) = ca_auth_key a"
  by (simp add: discard_def)

lemma append_frame_key [simp]: "ca_auth_key (snd (append_frame f source now c a)) = ca_auth_key a"
  by (simp add: append_frame_def Let_def)

lemma ingest_end_key [simp]: "ca_auth_key (snd (ingest_end hmac d source now a)) = ca_auth_key a"
  by (simp add: ingest_end_def Let_def split: sum.splits option.splits)

lemma ingest_key [simp]: "ca_auth_key (snd (ingest hmac d source now a)) = ca_auth_key a"
  by (simp add: ingest_def Let_def split: sum.splits option.splits)

lemma expire_key [simp]: "ca_auth_key (snd (expire_loop idle a)) = ca_auth_key a"
  by (induction idle a rule: expire_loop.induct) (auto simp: discard_def split: option.splits prod.splits)

text \<open>The frames a history carries: those of its datagrams that authenticate under the key in force.\<close>

fun authentic_frames :: "hmac_sha256 \<Rightarrow> bytes32 option \<Rightarrow> capture_event list \<Rightarrow> parsed_frame list" where
  "authentic_frames hmac key [] = []"
| "authentic_frames hmac key (Datagram d source now # evs) =
     (case parse_audio_frame hmac d key of Inl _ \<Rightarrow> [] | Inr f \<Rightarrow> [f]) @ authentic_frames hmac key evs"
| "authentic_frames hmac key (KeyLoaded k # evs) = authentic_frames hmac (if key = None then Some k else key) evs"
| "authentic_frames hmac key (ev # evs) = authentic_frames hmac key evs"

lemma capture_run_inv:
  assumes "assembler_inv F a" "set (authentic_frames hmac (ca_auth_key a) evs) \<subseteq> F"
    "capture_run hmac evs a = (out, a')"
  shows "assembler_inv F a' \<and> (\<forall>r \<in> set out. ready_ok F r)"
  using assms
proof (induction evs arbitrary: a out)
  case (Cons ev evs)
  obtain o1 a1 where step: "capture_step hmac ev a = (o1, a1)" by fastforce
  obtain o2 where run: "capture_run hmac evs a1 = (o2, a')" and out: "out = o1 @ o2"
    using Cons.prems(3) step by (auto simp: Let_def split: prod.splits)
  have "assembler_inv F a1 \<and> (\<forall>r \<in> set o1. ready_ok F r) \<and> set (authentic_frames hmac (ca_auth_key a1) evs) \<subseteq> F"
  proof (cases ev)
    case (Datagram d source now)
    have "assembler_inv F (snd (ingest hmac d source now a))"
      using Cons.prems(2) Datagram by (intro ingest_inv [OF Cons.prems(1)]) auto
    then show ?thesis using step Cons.prems(2) Datagram by (auto simp: capture_step_def)
  next
    case TakeReady
    have "\<forall>r \<in> set (ca_ready a). ready_ok F r" using Cons.prems(1) by (simp add: assembler_inv_def)
    then show ?thesis using step Cons.prems TakeReady take_ready_inv [OF Cons.prems(1)]
      by (auto simp: capture_step_def take_ready_def)
  next
    case (Expire now)
    then show ?thesis using step Cons.prems expire_loop_inv [OF Cons.prems(1)]
      by (auto simp: capture_step_def expire_incomplete_def)
  next
    case (KeyLoaded k)
    then show ?thesis using step Cons.prems by (auto simp: capture_step_def capture_inv_fields split: if_splits)
  qed
  then show ?case using Cons.IH [OF _ _ run] out by auto
qed simp

text \<open>C13: whatever datagrams arrive, from whomever and in whatever order, the assembler keeps at most
  four open captures and remembers at most 128 closed sessions, and every capture it hands on has the
  slot and generations of its session number, holds between 10 frames and 90 seconds of sound, and
  each 20 ms block of it is silence or the payload of a frame that was authenticated for this session
  under this block's number.\<close>

theorem captures_are_authentic:
  "case capture_run hmac evs (new_assembler key) of (out, a) \<Rightarrow>
     length (ca_active a) \<le> 4 \<and> length (ca_retired a) \<le> 128 \<and>
     (\<forall>r \<in> set out. case r of
        Inl e \<Rightarrow> e = CaptureTooShort
      | Inr c \<Rightarrow> decode_capture_session_identity (cc_session_id c) = Ok (cc_identity c) \<and>
          (\<exists>n. 10 \<le> n \<and> length (cc_pcm c) = n * 640 \<and> length (cc_pcm c) \<le> 2880000 \<and>
             (\<forall>k < n. let b = slice (k * 640) (Suc k * 640) (cc_pcm c) in
                b = replicate 640 0 \<or>
                (\<exists>f \<in> set (authentic_frames hmac key evs).
                   fr_session_id f = cc_session_id c \<and> unat (fr_sequence f) = k \<and> fr_payload f = b))))"
proof -
  let ?F = "set (authentic_frames hmac key evs)"
  obtain out a where run: "capture_run hmac evs (new_assembler key) = (out, a)" by fastforce
  have "assembler_inv ?F (new_assembler key)" by (simp add: assembler_inv_def new_assembler_def bt_ok_def)
  then have inv: "assembler_inv ?F a" and out: "\<forall>r \<in> set out. ready_ok ?F r"
    using capture_run_inv [OF _ _ run] by (auto simp: new_assembler_def)
  have "case r of Inl e \<Rightarrow> e = CaptureTooShort
      | Inr c \<Rightarrow> decode_capture_session_identity (cc_session_id c) = Ok (cc_identity c) \<and>
          (\<exists>n. 10 \<le> n \<and> length (cc_pcm c) = n * 640 \<and> length (cc_pcm c) \<le> 2880000 \<and>
             (\<forall>k < n. let b = slice (k * 640) (Suc k * 640) (cc_pcm c) in
                b = replicate 640 0 \<or>
                (\<exists>f \<in> ?F. fr_session_id f = cc_session_id c \<and> unat (fr_sequence f) = k \<and> fr_payload f = b)))"
    if "r \<in> set out" for r
  proof (cases r)
    case (Inr c)
    then have "ready_ok ?F (Ok c)" using out that by blast
    then obtain n where "decode_capture_session_identity (cc_session_id c) = Ok (cc_identity c)"
      "MIN_CAPTURE_FRAMES \<le> n" "recorded_from ?F (cc_session_id c) n (cc_pcm c)"
      by (auto simp: ready_ok_def)
    then show ?thesis
      using Inr by (auto simp: recorded_from_def block_def capture_consts Let_def intro!: exI [of _ n])
  qed (use out that in \<open>auto simp: ready_ok_def\<close>)
  then show ?thesis
    using inv unfolding run by (simp add: assembler_inv_def MAX_ACTIVE_CAPTURES_def MAX_RETIRED_SESSIONS_def)
qed

section \<open>A recording with losses\<close>

text \<open>The packets the keyboard sends, as the test module of \<open>lan_voice.rs\<close> builds them.\<close>

definition sign_audio :: "hmac_sha256 \<Rightarrow> bytes32 \<Rightarrow> u8 list \<Rightarrow> u8 list" where
  "sign_audio hmac key bytes = bytes @ take AUDIO_AUTH_TAG_BYTES (bytes_of_32 (hmac key bytes))"

definition audio_packet :: "hmac_sha256 \<Rightarrow> bytes32 \<Rightarrow> u64 \<Rightarrow> u32 \<Rightarrow> u8 list \<Rightarrow> u8 list" where
  "audio_packet hmac key session_id sequence payload =
     sign_audio hmac key (EIAU @ [3, 32, 1, 1] @ nat_le 8 (unat session_id) @ nat_le 4 (unat sequence) @ nat_le 4 16000 @
       nat_le 4 (unat (sequence * 20)) @ nat_le 2 320 @ nat_le 2 640 @ payload)"

definition end_packet :: "hmac_sha256 \<Rightarrow> bytes32 \<Rightarrow> u64 \<Rightarrow> u32 \<Rightarrow> u8 list" where
  "end_packet hmac key session_id final_sequence =
     sign_audio hmac key (EIAE @ [3, 32, 1, 0] @ nat_le 8 (unat session_id) @ nat_le 4 (unat final_sequence) @ nat_le 4 16000 @
       replicate 8 0)"

lemma verify_signed: "verify_audio_authentication hmac (sign_audio hmac key bytes) (Some key) = Ok ()"
  by (simp add: verify_audio_authentication_def sign_audio_def AUDIO_AUTH_TAG_BYTES_def Let_def)

lemma slice_append_at:
  "length xs = a \<Longrightarrow> length ys = b - a \<Longrightarrow> a \<le> b \<Longrightarrow> slice a b (xs @ ys @ zs) = ys"
  by (simp add: slice_def)

lemma le_nat_const: "le_nat (nat_le 4 16000) = 16000" "le_nat (nat_le 2 320) = 320" "le_nat (nat_le 2 640) = 640"
  by (simp_all add: le_nat_nat_le)

lemma parse_audio_packet:
  assumes "decode_capture_session_identity sid = Ok identity" "length payload = AUDIO_FRAME_BYTES"
  shows "parse_audio_frame hmac (audio_packet hmac key sid sequence payload) (Some key) =
    Ok \<lparr> fr_session_id = sid, fr_identity = identity, fr_sequence = sequence, fr_payload = payload \<rparr>"
    "slice 0 4 (audio_packet hmac key sid sequence payload) = EIAU"
proof -
  let ?d = "audio_packet hmac key sid sequence payload"
  note [simp] = audio_packet_def sign_audio_def capture_consts EIAU_def
  have s: "slice 0 4 ?d = EIAU" "slice 8 16 ?d = nat_le 8 (unat sid)" "slice 16 20 ?d = nat_le 4 (unat sequence)"
    "slice 20 24 ?d = nat_le 4 16000" "slice 28 30 ?d = nat_le 2 320" "slice 30 32 ?d = nat_le 2 640" "slice 32 672 ?d = payload"
    using assms(2) by (simp_all add: slice_def)
  then show "slice 0 4 ?d = EIAU" by blast
  have n: "?d ! 4 = 3" "?d ! 5 = 32" "?d ! 6 = 1" "?d ! 7 = 1" "length ?d = 688"
    using assms(2) by (simp_all add: nth_append)
  have g: "get_u64 ?d 8 = sid" "get_u32 ?d 16 = sequence" "get_u32 ?d 20 = 16000" "get_u16 ?d 28 = 320" "get_u16 ?d 30 = 640"
    using s by (simp_all add: get_u64_def get_u32_def get_u16_def le_nat_const del: audio_packet_def)
  have "verify_audio_authentication hmac ?d (Some key) = Ok ()"
    unfolding audio_packet_def by (rule verify_signed)
  then show "parse_audio_frame hmac ?d (Some key) =
    Ok \<lparr> fr_session_id = sid, fr_identity = identity, fr_sequence = sequence, fr_payload = payload \<rparr>"
    using s n g assms(1) by (simp add: parse_audio_frame_def Let_def del: audio_packet_def EIAU_def)
qed

lemma parse_end_packet:
  assumes "decode_capture_session_identity sid = Ok identity"
  shows "parse_audio_end hmac (end_packet hmac key sid final) (Some key) =
    Ok \<lparr> en_session_id = sid, en_identity = identity, en_final_sequence = final \<rparr>"
    "slice 0 4 (end_packet hmac key sid final) = EIAE" "length (end_packet hmac key sid final) = 48"
proof -
  let ?d = "end_packet hmac key sid final"
  note [simp] = end_packet_def sign_audio_def capture_consts EIAE_def
  have s: "slice 0 4 ?d = EIAE" "slice 8 16 ?d = nat_le 8 (unat sid)" "slice 16 20 ?d = nat_le 4 (unat final)"
    "slice 20 24 ?d = nat_le 4 16000" "slice 28 30 ?d = [0, 0]" "slice 30 32 ?d = [0, 0]"
    by (simp_all add: slice_def replicate_two)
  then show "slice 0 4 ?d = EIAE" by blast
  have n: "?d ! 4 = 3" "?d ! 5 = 32" "?d ! 6 = 1" "?d ! 7 = 0" and l: "length ?d = 48"
    by (simp_all add: nth_append)
  from l show "length ?d = 48" .
  have g: "get_u64 ?d 8 = sid" "get_u32 ?d 16 = final" "get_u32 ?d 20 = 16000" "get_u16 ?d 28 = 0" "get_u16 ?d 30 = 0"
    using s by (simp_all add: get_u64_def get_u32_def get_u16_def le_nat_const del: end_packet_def)
  have "verify_audio_authentication hmac ?d (Some key) = Ok ()"
    unfolding end_packet_def by (rule verify_signed)
  then show "parse_audio_end hmac ?d (Some key) = Ok \<lparr> en_session_id = sid, en_identity = identity, en_final_sequence = final \<rparr>"
    using s n l g assms(1) by (simp add: parse_audio_end_def Let_def del: end_packet_def EIAE_def)
qed

text \<open>A recording as it leaves the keyboard: one entry per 20 ms frame, \<open>None\<close> when the datagram is lost.\<close>

fun sent_frames ::
  "hmac_sha256 \<Rightarrow> bytes32 \<Rightarrow> u64 \<Rightarrow> socket_addr \<Rightarrow> (nat \<Rightarrow> instant) \<Rightarrow> nat \<Rightarrow> u8 list option list \<Rightarrow> capture_event list" where
  "sent_frames hmac key sid source clock n [] = [Datagram (end_packet hmac key sid (of_nat n)) source (clock n)]"
| "sent_frames hmac key sid source clock n (None # fs) = sent_frames hmac key sid source clock (Suc n) fs"
| "sent_frames hmac key sid source clock n (Some p # fs) =
     Datagram (audio_packet hmac key sid (of_nat n) p) source (clock n) # sent_frames hmac key sid source clock (Suc n) fs"

text \<open>At most ten frames in a row are lost.\<close>

fun gaps_ok :: "nat \<Rightarrow> u8 list option list \<Rightarrow> bool" where
  "gaps_ok j [] \<longleftrightarrow> j \<le> 10"
| "gaps_ok j (None # fs) \<longleftrightarrow> gaps_ok (Suc j) fs"
| "gaps_ok j (Some p # fs) \<longleftrightarrow> j \<le> 10 \<and> length p = 640 \<and> gaps_ok 0 fs"

definition heard :: "u8 list option list \<Rightarrow> u8 list" where
  "heard fs = concat (map (\<lambda>f. case f of None \<Rightarrow> replicate 640 0 | Some p \<Rightarrow> p) fs)"

lemma heard_simps [simp]:
  "heard [] = []" "heard (None # fs) = replicate 640 0 @ heard fs" "heard (Some p # fs) = p @ heard fs"
  by (simp_all add: heard_def)

lemma unat_seq: "n \<le> 4500 \<Longrightarrow> unat (of_nat n :: u32) = n"
  by (simp add: unat_of_nat)

lemma silence_Suc: "replicate (Suc j * 640) (0 :: u8) @ xs = replicate (j * 640) 0 @ replicate 640 0 @ xs"
proof -
  have "Suc j * 640 = j * 640 + 640" by simp
  then show ?thesis by (simp only: replicate_add append_assoc)
qed

lemma end_completes:
  assumes id: "decode_capture_session_identity sid = Ok identity" and key: "ca_auth_key a = Some key"
    and a: "bt_ok (ca_active a)" "sid \<notin> set (ca_retired a)" "map_of (ca_active a) sid = Some c"
    and c: "ac_session_id c = sid" "ac_identity c = identity" "ac_source c = source" "ac_final_sequence c = None"
      "unat (ac_next_sequence c) = m"
    and n: "m + j = n" "j \<le> 10" "10 \<le> n" "n \<le> 4500"
  shows "snd (ingest hmac (end_packet hmac key sid (of_nat n)) source now a) =
    (let a' = discard sid a in a'\<lparr>ca_ready := ca_ready a' @ [Ok \<lparr> cc_session_id = sid, cc_identity = identity,
        cc_pcm = ac_pcm c @ replicate (j * 640) 0 \<rparr>]\<rparr>)"
proof -
  have u: "unat (of_nat n :: u32) = n" by (rule unat_seq) (use n in simp)
  have miss: "unat (of_nat n - ac_next_sequence c :: u32) = j"
    using n c(5) u by (simp add: unat_sub word_le_nat_alt)
  have ge: "\<not> of_nat n < ac_next_sequence c" using n c(5) u by (simp add: word_less_nat_alt)
  have z: "ac_next_sequence c = of_nat n" if "j = 0" using that n c(5) u by (simp add: word_unat_eq_iff)
  show ?thesis
    using parse_end_packet [OF id, of hmac key "of_nat n"] key a c n u miss ge z
    by (cases "j = 0")
      (simp_all add: ingest_def ingest_end_def Let_def complete_capture_def discard_def map_of_bt_insert
        remove_insert capture_consts)
qed

lemma frame_extends:
  assumes id: "decode_capture_session_identity sid = Ok identity" and key: "ca_auth_key a = Some key"
    and a: "sid \<notin> set (ca_retired a)" "map_of (ca_active a) sid = Some c"
    and c: "ac_identity c = identity" "ac_source c = source" "ac_final_sequence c = None"
      "unat (ac_next_sequence c) = m" "length (ac_pcm c) = m * 640"
    and n: "m + j = n" "j \<le> 10" "n < 4500" and p: "length p = 640"
  shows "snd (ingest hmac (audio_packet hmac key sid (of_nat n) p) source now a) =
    a\<lparr>ca_active := bt_insert sid (c\<lparr>ac_pcm := ac_pcm c @ replicate (j * 640) 0 @ p, ac_next_sequence := of_nat (Suc n),
        ac_last_frame_at := now\<rparr>) (ca_active a)\<rparr>"
proof -
  have u: "unat (of_nat n :: u32) = n" by (rule unat_seq) (use n in simp)
  let ?f = "\<lparr> fr_session_id = sid, fr_identity = identity, fr_sequence = of_nat n :: u32, fr_payload = p \<rparr>"
  have "append_frame ?f source now c a = (Ok (), a\<lparr>ca_active := bt_insert (fr_session_id ?f) (extended ?f now c) (ca_active a)\<rparr>)"
    by (rule append_frame_extends) (use c n p u in \<open>simp_all add: capture_consts\<close>)
  moreover have "n - m = j" using n by simp
  moreover have "u32_saturating_succ (of_nat n) = of_nat (Suc n)"
    using u n unat_max_u32 by (auto simp: u32_saturating_succ_def)
  ultimately show ?thesis
    using parse_audio_packet [OF id, of p hmac key "of_nat n"] key a p c u n
    by (simp add: ingest_def Let_def capture_consts EIAU_def EIAE_def extended_def)
qed


lemma capture_run_datagram:
  "capture_run hmac (Datagram d source now # evs) a = capture_run hmac evs (snd (ingest hmac d source now a))"
  by (simp add: capture_step_def Let_def split: prod.splits)

text \<open>The capture of a session once its first frame is in.\<close>

lemma bt_remove_absent: "k \<notin> fst ` set m \<Longrightarrow> bt_remove k m = m"
  unfolding bt_remove_def by (induction m) auto

lemma capture_continues:
  assumes id: "decode_capture_session_identity sid = Ok identity" and key: "ca_auth_key a = Some key"
    and a: "bt_ok (ca_active a)" "sid \<notin> set (ca_retired a)" "map_of (ca_active a) sid = Some c"
    and c: "ac_session_id c = sid" "ac_identity c = identity" "ac_source c = source" "ac_final_sequence c = None"
      "unat (ac_next_sequence c) = m" "length (ac_pcm c) = m * 640"
    and n: "m + j = n" "gaps_ok j fs" "10 \<le> n + length fs" "n + length fs \<le> 4500"
  shows "capture_run hmac (sent_frames hmac key sid source clock n fs) a =
    ([], let a' = discard sid a in a'\<lparr>ca_ready := ca_ready a' @ [Ok \<lparr> cc_session_id = sid, cc_identity = identity,
        cc_pcm = ac_pcm c @ replicate (j * 640) 0 @ heard fs \<rparr>]\<rparr>)"
  using key a c n
proof (induction fs arbitrary: a c m j n)
  case Nil
  have "snd (ingest hmac (end_packet hmac key sid (of_nat n)) source (clock n) a) =
    (let a' = discard sid a in a'\<lparr>ca_ready := ca_ready a' @ [Ok \<lparr> cc_session_id = sid, cc_identity = identity,
        cc_pcm = ac_pcm c @ replicate (j * 640) 0 \<rparr>]\<rparr>)"
    by (rule end_completes [OF id]) (use Nil in simp_all)
  then show ?case by (simp only: sent_frames.simps(1) capture_run_datagram capture_run.simps(1) heard_simps append_Nil2)
next
  case (Cons f fs)
  show ?case
  proof (cases f)
    case None
    have "capture_run hmac (sent_frames hmac key sid source clock (Suc n) fs) a =
      ([], let a' = discard sid a in a'\<lparr>ca_ready := ca_ready a' @ [Ok \<lparr> cc_session_id = sid, cc_identity = identity,
        cc_pcm = ac_pcm c @ replicate (Suc j * 640) 0 @ heard fs \<rparr>]\<rparr>)"
      by (rule Cons.IH [where m = m]) (use Cons.prems None in simp_all)
    then show ?thesis using None by (simp only: sent_frames.simps heard_simps silence_Suc)
  next
    case (Some p)
    let ?c = "c\<lparr>ac_pcm := ac_pcm c @ replicate (j * 640) 0 @ p, ac_next_sequence := of_nat (Suc n), ac_last_frame_at := clock n\<rparr>"
    let ?a = "a\<lparr>ca_active := bt_insert sid ?c (ca_active a)\<rparr>"
    have step: "snd (ingest hmac (audio_packet hmac key sid (of_nat n) p) source (clock n) a) = ?a"
      by (rule frame_extends [OF id]) (use Cons.prems Some in simp_all)
    have "capture_run hmac (sent_frames hmac key sid source clock (Suc n) fs) ?a =
      ([], let a' = discard sid ?a in a'\<lparr>ca_ready := ca_ready a' @ [Ok \<lparr> cc_session_id = sid, cc_identity = identity,
        cc_pcm = ac_pcm ?c @ replicate (0 * 640) 0 @ heard fs \<rparr>]\<rparr>)"
    proof (rule Cons.IH [where m = "Suc n"])
      show "unat (ac_next_sequence ?c) = Suc n" using unat_seq [of "Suc n"] Cons.prems by simp
      show "length (ac_pcm ?c) = Suc n * 640" using Cons.prems Some by auto
    qed (use Cons.prems Some in \<open>simp_all add: bt_insert_ok map_of_bt_insert\<close>)
    moreover have "discard sid ?a = discard sid a" by (simp add: discard_def remove_insert Cons.prems)
    ultimately show ?thesis
      using Some step by (simp add: capture_run_datagram del: capture_run.simps)
  qed
qed

lemma capture_starts:
  assumes id: "decode_capture_session_identity sid = Ok identity" and key: "ca_auth_key a = Some key"
    and a: "bt_ok (ca_active a)" "sid \<notin> set (ca_retired a)" "sid \<notin> fst ` set (ca_active a)"
      "length (ca_active a) < MAX_ACTIVE_CAPTURES"
    and n: "gaps_ok n fs" "10 \<le> n + length fs" "n + length fs \<le> 4500" "\<exists>p. Some p \<in> set fs"
  shows "capture_run hmac (sent_frames hmac key sid source clock n fs) a =
    ([], let a' = retire sid a in a'\<lparr>ca_ready := ca_ready a' @ [Ok \<lparr> cc_session_id = sid, cc_identity = identity,
        cc_pcm = replicate (n * 640) 0 @ heard fs \<rparr>]\<rparr>)"
  using n
proof (induction fs arbitrary: n)
  case (Cons f fs)
  show ?case
  proof (cases f)
    case None
    have "capture_run hmac (sent_frames hmac key sid source clock (Suc n) fs) a =
      ([], let a' = retire sid a in a'\<lparr>ca_ready := ca_ready a' @ [Ok \<lparr> cc_session_id = sid, cc_identity = identity,
        cc_pcm = replicate (Suc n * 640) 0 @ heard fs \<rparr>]\<rparr>)"
      by (rule Cons.IH) (use Cons.prems None in auto)
    then show ?thesis using None by (simp only: sent_frames.simps heard_simps silence_Suc)
  next
    case (Some p)
    let ?c = "\<lparr> ac_session_id = sid, ac_identity = identity, ac_source = source, ac_next_sequence = 0, ac_pcm = [],
      ac_last_frame_at = clock n, ac_final_sequence = None \<rparr>"
    let ?a = "a\<lparr>ca_active := bt_insert sid ?c (ca_active a)\<rparr>"
    have none: "map_of (ca_active a) sid = None" using a(3) by (simp add: map_of_eq_None_iff)
    have p: "length p = AUDIO_FRAME_BYTES" "n \<le> 10" using Cons.prems Some by (simp_all add: frame_bytes_eq)
    have u: "unat (of_nat n :: u32) = n" by (rule unat_seq) (use p in simp)
    have step: "snd (ingest hmac (audio_packet hmac key sid (of_nat n) p) source (clock n) a) =
        snd (ingest hmac (audio_packet hmac key sid (of_nat n) p) source (clock n) ?a)"
      using parse_audio_packet [OF id p(1), of hmac key "of_nat n"] key a none p u
      by (simp add: ingest_def Let_def EIAU_def EIAE_def capture_consts map_of_bt_insert)
    have "capture_run hmac (sent_frames hmac key sid source clock n (Some p # fs)) ?a =
      ([], let a' = discard sid ?a in a'\<lparr>ca_ready := ca_ready a' @ [Ok \<lparr> cc_session_id = sid, cc_identity = identity,
        cc_pcm = ac_pcm ?c @ replicate (n * 640) 0 @ heard (Some p # fs) \<rparr>]\<rparr>)"
      by (rule capture_continues [OF id, where m = 0])
        (use Cons.prems Some key a in \<open>simp_all add: bt_insert_ok map_of_bt_insert\<close>)
    moreover have "discard sid ?a = retire sid a"
      using a(1,3) by (simp add: discard_def remove_insert bt_remove_absent)
    ultimately show ?thesis
      using Some step by (simp add: capture_run_datagram del: capture_run.simps)
  qed
qed simp


lemma capture_run_append:
  "capture_run hmac (xs @ ys) a =
     (let (o1, a1) = capture_run hmac xs a; (o2, a2) = capture_run hmac ys a1 in (o1 @ o2, a2))"
  by (induction xs arbitrary: a) (auto simp: Let_def split: prod.splits)

text \<open>C33: a recording of 10 to 4500 frames of which datagrams were lost, but never more than ten in a
  row, and at least one arrived, is handed on as one capture that holds every frame that arrived in
  its place and silence for the others; the session is closed and the other captures are untouched.\<close>

theorem lossy_capture_recovered:
  assumes "decode_capture_session_identity sid = Ok identity" "ca_auth_key a = Some key"
    and "bt_ok (ca_active a)" "sid \<notin> set (ca_retired a)" "sid \<notin> fst ` set (ca_active a)" "length (ca_active a) < 4"
    and "gaps_ok 0 fs" "10 \<le> length fs" "length fs \<le> 4500" "\<exists>p. Some p \<in> set fs"
  shows "\<exists>a'. capture_run hmac (sent_frames hmac key sid source clock 0 fs @ [TakeReady]) a =
      (ca_ready a @ [Ok \<lparr> cc_session_id = sid, cc_identity = identity, cc_pcm = heard fs \<rparr>], a') \<and>
    ca_active a' = ca_active a \<and> sid \<in> set (ca_retired a') \<and> ca_ready a' = []"
proof -
  have len: "length (ca_retired a @ [sid]) - MAX_RETIRED_SESSIONS \<le> length (ca_retired a)"
    by (simp add: MAX_RETIRED_SESSIONS_def)
  have "capture_run hmac (sent_frames hmac key sid source clock 0 fs) a =
    ([], let a' = retire sid a in a'\<lparr>ca_ready := ca_ready a' @ [Ok \<lparr> cc_session_id = sid, cc_identity = identity,
        cc_pcm = replicate (0 * 640) 0 @ heard fs \<rparr>]\<rparr>)"
    by (rule capture_starts) (use assms in \<open>simp_all add: MAX_ACTIVE_CAPTURES_def\<close>)
  then show ?thesis
    using len by (simp add: capture_run_append capture_step_def take_ready_def Let_def retire_def)
qed

definition demo_session :: u64 where "demo_session = 0xEC10000700000003"

theorem lossy_capture_recovered_witness:
  "\<exists>a'. capture_run (\<lambda>k m. 5) (sent_frames (\<lambda>k m. 5) 9 demo_session 1 (\<lambda>n. 20 * n) 0
      (None # replicate 9 (Some (replicate 640 7))) @ [TakeReady]) (new_assembler (Some 9)) =
    ([Ok \<lparr> cc_session_id = demo_session,
        cc_identity = \<lparr> cs_slot = 1, cs_capture_generation = 3, cs_connection_generation = 7 \<rparr>,
        cc_pcm = replicate 640 0 @ concat (replicate 9 (replicate 640 7)) \<rparr>], a') \<and>
    ca_active a' = [] \<and> demo_session \<in> set (ca_retired a') \<and> ca_ready a' = []"
proof -
  let ?fs = "None # replicate 9 (Some (replicate 640 (7 :: u8)))"
  have id: "decode_capture_session_identity demo_session =
      Ok \<lparr> cs_slot = 1, cs_capture_generation = 3, cs_connection_generation = 7 \<rparr>" by code_simp
  have nine: "replicate 9 x = [x, x, x, x, x, x, x, x, x]" for x :: 'x by (simp add: eval_nat_numeral)
  have heard: "heard ?fs = replicate 640 0 @ concat (replicate 9 (replicate 640 7))"
    by (simp add: nine)
  have "gaps_ok 0 ?fs" by (simp add: nine)
  then show ?thesis
    using lossy_capture_recovered [OF id, of "new_assembler (Some 9)" 9 ?fs "\<lambda>k m. 5" 1 "\<lambda>n. 20 * n"] heard
    by (simp add: new_assembler_def bt_ok_def)
qed

definition demo_recording :: "capture_event list" where
  "demo_recording = sent_frames (\<lambda>k m. 5) 9 demo_session 1 (\<lambda>n. 20 * n) 0
     (None # replicate 9 (Some (replicate 640 7))) @ [TakeReady]"

theorem captures_are_authentic_witness:
  "case capture_run (\<lambda>k m. 5) demo_recording (new_assembler (Some 9)) of
     (out, a) \<Rightarrow> length (ca_active a) \<le> 4 \<and> length (ca_retired a) \<le> 128 \<and>
       list_all (\<lambda>r. case r of Inl e \<Rightarrow> e = CaptureTooShort
         | Inr c \<Rightarrow> decode_capture_session_identity (cc_session_id c) = Ok (cc_identity c) \<and> length (cc_pcm c) \<le> 2880000) out"
  using captures_are_authentic [of "\<lambda>k m. 5" "Some 9" demo_recording]
  by (auto simp: list_all_iff split: prod.splits sum.splits)

section \<open>Request identifiers\<close>

lemma digits_determine: "x < 16 ^ n \<Longrightarrow> y < 16 ^ n \<Longrightarrow> \<forall>k < n. x div 16 ^ k mod 16 = y div 16 ^ k mod (16 :: nat) \<Longrightarrow> x = y"
proof (induction n arbitrary: x y)
  case (Suc n)
  have "x div 16 = y div 16"
  proof (rule Suc.IH)
    show "\<forall>k < n. x div 16 div 16 ^ k mod 16 = y div 16 div 16 ^ k mod 16"
      using Suc.prems(3) by (auto simp: div_mult2_eq [symmetric] dest: spec [of _ "Suc _"])
  qed (use Suc.prems in auto)
  moreover have "x mod 16 = y mod 16" using Suc.prems(3) by (auto dest: spec [of _ 0])
  ultimately show ?case by (metis div_mult_mod_eq)
qed simp

lemma hex16_inject: "hex16 s = hex16 t \<longleftrightarrow> s = t"
proof
  assume h: "hex16 s = hex16 t"
  have "\<forall>k \<in> set (rev [0..<16]). digit_char (unat s div 16 ^ k mod 16) = digit_char (unat t div 16 ^ k mod 16)"
    using h unfolding hex16_def by (simp only: map_eq_conv)
  then have "\<forall>k < 16. unat s div 16 ^ k mod 16 = unat t div 16 ^ k mod 16"
    by (auto simp: digit_char_inject)
  moreover have "unat s < 16 ^ 16" "unat t < 16 ^ 16"
    using unsigned_less [of s, where ?'a = nat] unsigned_less [of t, where ?'a = nat] by simp_all
  ultimately have "unat s = unat t" by (intro digits_determine) auto
  then show "s = t" by (simp add: word_unat_eq_iff)
qed simp

end
