(* ===== verification/Audio.thy ===== *)
theory Audio
  imports Prelude
begin

text \<open>
  The audio containers of \<open>app/host/src/audio.rs\<close>: 48 kHz mono PCM in a WAV file, and the EIAD
  container of IMA ADPCM frames in the layout of the host cache (32-byte header, 960-sample frames)
  and in the layout of the keyboard firmware (20-byte header, 480-sample frames).

  An \<open>i16\<close> sample is a 16-bit word read by \<open>sint\<close>; the \<open>i32\<close> predictor and step index are \<open>int\<close>
  (they stay far inside the range of \<open>i32\<close>). An array access out of bounds, on which the program
  panics, is the extra error \<open>Panic\<close>.
\<close>

unbundle bit_operations_syntax

section \<open>Constants and data\<close>

type_synonym i16 = "16 word"

definition TTS_SAMPLE_RATE :: nat where "TTS_SAMPLE_RATE = 48000"
definition MAX_TTS_SECONDS :: nat where "MAX_TTS_SECONDS = 150"
definition EIAD_FRAME_SAMPLES :: nat where "EIAD_FRAME_SAMPLES = 960"
definition DEVICE_EIAD_FRAME_SAMPLES :: nat where "DEVICE_EIAD_FRAME_SAMPLES = 480"
definition DEVICE_EIAD_HEADER_BYTES :: nat where "DEVICE_EIAD_HEADER_BYTES = 20"
definition DEVICE_EIAD_FRAME_HEADER_BYTES :: nat where "DEVICE_EIAD_FRAME_HEADER_BYTES = 6"
definition WAV_HEADER_BYTES :: nat where "WAV_HEADER_BYTES = 44"
definition EIAD_HEADER_BYTES :: nat where "EIAD_HEADER_BYTES = 32"
definition EIAD_FRAME_HEADER_BYTES :: nat where "EIAD_FRAME_HEADER_BYTES = 8"
definition EIAD_VERSION :: u16 where "EIAD_VERSION = 1"

lemmas audio_consts = TTS_SAMPLE_RATE_def MAX_TTS_SECONDS_def EIAD_FRAME_SAMPLES_def DEVICE_EIAD_FRAME_SAMPLES_def
  DEVICE_EIAD_HEADER_BYTES_def DEVICE_EIAD_FRAME_HEADER_BYTES_def WAV_HEADER_BYTES_def EIAD_HEADER_BYTES_def
  EIAD_FRAME_HEADER_BYTES_def EIAD_VERSION_def

definition IMA_INDEX_TABLE :: "int list" where
  "IMA_INDEX_TABLE = [-1, -1, -1, -1, 2, 4, 6, 8, -1, -1, -1, -1, 2, 4, 6, 8]"

definition IMA_STEP_TABLE :: "int list" where
  "IMA_STEP_TABLE = [
    7, 8, 9, 10, 11, 12, 13, 14, 16, 17, 19, 21, 23, 25, 28, 31, 34, 37, 41, 45, 50, 55, 60, 66,
    73, 80, 88, 97, 107, 118, 130, 143, 157, 173, 190, 209, 230, 253, 279, 307, 337, 371, 408, 449,
    494, 544, 598, 658, 724, 796, 876, 963, 1060, 1166, 1282, 1411, 1552, 1707, 1878, 2066, 2272,
    2499, 2749, 3024, 3327, 3660, 4026, 4428, 4871, 5358, 5894, 6484, 7132, 7845, 8630, 9493,
    10442, 11487, 12635, 13899, 15289, 16818, 18500, 20350, 22385, 24623, 27086, 29794, 32767]"

datatype audio_error = InvalidPcm | InvalidWav | InvalidEiad | AudioSize | Panic

record audio_artifacts =
  aa_wav :: "u8 list"
  aa_eiad :: "u8 list"
  aa_samples :: nat
  aa_frames :: nat

record eiad_metadata =
  em_sample_rate :: nat
  em_samples :: nat
  em_frames :: nat

definition RIFF :: "u8 list" where "RIFF = [0x52, 0x49, 0x46, 0x46]"
definition WAVEfmt :: "u8 list" where "WAVEfmt = [0x57, 0x41, 0x56, 0x45, 0x66, 0x6D, 0x74, 0x20]"
definition data_tag :: "u8 list" where "data_tag = [0x64, 0x61, 0x74, 0x61]"
definition EIAD :: "u8 list" where "EIAD = [0x45, 0x49, 0x41, 0x44]"

lemmas audio_tags = RIFF_def WAVEfmt_def data_tag_def EIAD_def

section \<open>Reading and checking\<close>

definition read_u16 :: "u8 list \<Rightarrow> nat \<Rightarrow> audio_error + u16" where
  "read_u16 bytes off = (if off + 2 \<le> length bytes then Ok (get_u16 bytes off) else Err InvalidEiad)"

definition read_u32 :: "u8 list \<Rightarrow> nat \<Rightarrow> audio_error + u32" where
  "read_u32 bytes off = (if off + 4 \<le> length bytes then Ok (get_u32 bytes off) else Err InvalidEiad)"

definition read_u64 :: "u8 list \<Rightarrow> nat \<Rightarrow> audio_error + u64" where
  "read_u64 bytes off = (if off + 8 \<le> length bytes then Ok (get_u64 bytes off) else Err InvalidEiad)"

definition byte_at :: "u8 list \<Rightarrow> nat \<Rightarrow> audio_error + u8" where
  "byte_at bytes i = (if i < length bytes then Ok (bytes ! i) else Err Panic)"

text \<open>The disjuncts of a header check, in order: the first one that fails decides.\<close>

fun all_ok :: "(audio_error + unit) list \<Rightarrow> audio_error + unit" where
  "all_ok [] = Ok ()"
| "all_ok (c # cs) = and_then c (\<lambda>_. all_ok cs)"

definition guard :: "audio_error \<Rightarrow> bool \<Rightarrow> audio_error + unit" where
  "guard e b = (if b then Ok () else Err e)"

definition expect :: "audio_error \<Rightarrow> audio_error + 'a \<Rightarrow> 'a \<Rightarrow> audio_error + unit" where
  "expect e r v = and_then r (\<lambda>x. guard e (x = v))"

text \<open>\<open>usize::div_ceil\<close>\<close>

definition div_ceil :: "nat \<Rightarrow> nat \<Rightarrow> nat" where
  "div_ceil a b = (a + b - 1) div b"

text \<open>\<open>slice::chunks\<close>\<close>

function chunks :: "nat \<Rightarrow> 'a list \<Rightarrow> 'a list list" where
  "chunks n xs = (if n = 0 \<or> xs = [] then [] else take n xs # chunks n (drop n xs))"
  by auto
termination by (relation "measure (\<lambda>(n, xs). length xs)") auto

declare chunks.simps [simp del]

section \<open>PCM and WAV\<close>

definition validate_pcm :: "u8 list \<Rightarrow> audio_error + nat" where
  "validate_pcm pcm_le =
     (if pcm_le = [] \<or> length pcm_le mod 2 \<noteq> 0 then Err InvalidPcm
      else let samples = length pcm_le div 2; maximum = TTS_SAMPLE_RATE * MAX_TTS_SECONDS
           in if samples > maximum then Err InvalidPcm else Ok samples)"

definition try_u32 :: "nat \<Rightarrow> audio_error + u32" where
  "try_u32 n = (if n \<le> u32_max then Ok (of_nat n) else Err AudioSize)"

definition try_u16 :: "nat \<Rightarrow> audio_error + u16" where
  "try_u16 n = (if n < 65536 then Ok (of_nat n) else Err AudioSize)"

definition u32_le :: "u32 \<Rightarrow> u8 list" where "u32_le v = nat_le 4 (unat v)"
definition u16_le :: "u16 \<Rightarrow> u8 list" where "u16_le v = nat_le 2 (unat v)"

definition encode_wav :: "u8 list \<Rightarrow> audio_error + u8 list" where
  "encode_wav pcm_le =
     and_then (validate_pcm pcm_le) (\<lambda>_.
     and_then (try_u32 (length pcm_le)) (\<lambda>data_bytes.
     and_then (try_u32 (unat data_bytes + 36)) (\<lambda>riff_bytes.
     and_then (try_u32 (TTS_SAMPLE_RATE * 2)) (\<lambda>byte_rate.
       Ok (RIFF @ u32_le riff_bytes @ WAVEfmt @ u32_le 16 @ u16_le 1 @ u16_le 1 @
           u32_le (of_nat TTS_SAMPLE_RATE) @ u32_le byte_rate @ u16_le 2 @ u16_le 16 @ data_tag @
           u32_le data_bytes @ pcm_le)))))"

definition decode_wav :: "u8 list \<Rightarrow> audio_error + u8 list" where
  "decode_wav wav =
     and_then (all_ok
       [guard InvalidWav (\<not> length wav < WAV_HEADER_BYTES),
        guard InvalidWav (slice 0 4 wav = RIFF),
        guard InvalidWav (slice 8 16 wav = WAVEfmt),
        expect InvalidWav (read_u32 wav 16) 16,
        expect InvalidWav (read_u16 wav 20) 1,
        expect InvalidWav (read_u16 wav 22) 1,
        expect InvalidWav (read_u32 wav 24) (of_nat TTS_SAMPLE_RATE),
        expect InvalidWav (read_u32 wav 28) (of_nat (TTS_SAMPLE_RATE * 2)),
        expect InvalidWav (read_u16 wav 32) 2,
        expect InvalidWav (read_u16 wav 34) 16,
        guard InvalidWav (slice 36 40 wav = data_tag)]) (\<lambda>_.
     and_then (read_u32 wav 4) (\<lambda>declared_riff_bytes.
     and_then (read_u32 wav 40) (\<lambda>declared_data_bytes.
       let streaming_sentinel = (declared_riff_bytes = 0x7fffffbf \<and> declared_data_bytes = 0x7fffff9b)
       in and_then
            (if streaming_sentinel then Ok ()
             else let expected = WAV_HEADER_BYTES + unat declared_data_bytes
                  in if expected \<noteq> length wav then Err InvalidWav
                     else and_then (map_err (\<lambda>_. InvalidWav) (try_u32 (length wav - 8))) (\<lambda>n.
                            if declared_riff_bytes \<noteq> n then Err InvalidWav else Ok ())) (\<lambda>_.
          and_then (map_err (\<lambda>_. InvalidWav) (validate_pcm (drop WAV_HEADER_BYTES wav))) (\<lambda>_.
            Ok (drop WAV_HEADER_BYTES wav))))))"

section \<open>IMA ADPCM\<close>

definition i16_from_le :: "u8 \<Rightarrow> u8 \<Rightarrow> i16" where
  "i16_from_le a b = of_nat (le_nat [a, b])"

definition i16_le :: "i16 \<Rightarrow> u8 list" where
  "i16_le v = nat_le 2 (unat v)"

fun pcm_samples :: "u8 list \<Rightarrow> i16 list" where
  "pcm_samples (a # b # rest) = i16_from_le a b # pcm_samples rest"
| "pcm_samples _ = []"

definition clamp :: "int \<Rightarrow> int \<Rightarrow> int \<Rightarrow> int" where
  "clamp lo hi v = (if v < lo then lo else if v > hi then hi else v)"

definition step_at :: "int \<Rightarrow> audio_error + int" where
  "step_at i = (if 0 \<le> i \<and> i < int (length IMA_STEP_TABLE) then Ok (IMA_STEP_TABLE ! nat i) else Err Panic)"

definition index_at :: "u8 \<Rightarrow> audio_error + int" where
  "index_at code = (if unat code < length IMA_INDEX_TABLE then Ok (IMA_INDEX_TABLE ! unat code) else Err Panic)"

definition encode_ima_sample :: "int \<Rightarrow> int \<Rightarrow> int \<Rightarrow> audio_error + u8 \<times> int \<times> int" where
  "encode_ima_sample sample predictor step_index =
     and_then (step_at step_index) (\<lambda>step.
       let difference = sample - predictor;
           (code, difference) = (if difference < 0 then (8 :: u8, - difference) else (0, difference));
           delta = step div 8;
           (code, difference, delta) =
             (if difference \<ge> step then (code OR 4, difference - step, delta + step) else (code, difference, delta));
           (code, difference, delta) =
             (if difference \<ge> step div 2 then (code OR 2, difference - step div 2, delta + step div 2)
              else (code, difference, delta));
           (code, delta) = (if difference \<ge> step div 4 then (code OR 1, delta + step div 4) else (code, delta));
           predictor = (if code AND 8 \<noteq> 0 then predictor - delta else predictor + delta);
           predictor = clamp (- 32768) 32767 predictor
       in and_then (index_at code) (\<lambda>adjust. Ok (code, predictor, clamp 0 88 (step_index + adjust))))"

definition decode_ima_sample :: "u8 \<Rightarrow> int \<Rightarrow> int \<Rightarrow> audio_error + int \<times> int" where
  "decode_ima_sample code predictor step_index =
     and_then (step_at step_index) (\<lambda>step.
       let delta = step div 8;
           delta = (if code AND 4 \<noteq> 0 then delta + step else delta);
           delta = (if code AND 2 \<noteq> 0 then delta + step div 2 else delta);
           delta = (if code AND 1 \<noteq> 0 then delta + step div 4 else delta);
           predictor = clamp (- 32768) 32767 (if code AND 8 \<noteq> 0 then predictor - delta else predictor + delta)
       in and_then (index_at code) (\<lambda>adjust. Ok (predictor, clamp 0 88 (step_index + adjust))))"

text \<open>The loop over the samples after the first one; \<open>pending\<close> is the low nibble that waits for its
  high nibble.\<close>

fun encode_ima_rest :: "i16 list \<Rightarrow> int \<Rightarrow> int \<Rightarrow> u8 option \<Rightarrow> u8 list \<Rightarrow> audio_error + u8 list" where
  "encode_ima_rest [] predictor step_index pending output =
     Ok (case pending of Some low \<Rightarrow> output @ [low] | None \<Rightarrow> output)"
| "encode_ima_rest (x # xs) predictor step_index pending output =
     and_then (encode_ima_sample (sint x) predictor step_index) (\<lambda>(nibble, predictor', step_index').
       case pending of
         Some low \<Rightarrow> encode_ima_rest xs predictor' step_index' None (output @ [low OR push_bit 4 nibble])
       | None \<Rightarrow> encode_ima_rest xs predictor' step_index' (Some nibble) output)"

definition initial_step_index :: "i16 \<Rightarrow> i16 list \<Rightarrow> u8" where
  "initial_step_index first rest =
     (case rest of [] \<Rightarrow> 0
      | second # _ \<Rightarrow>
          let difference = \<bar>sint second - sint first\<bar>
          in of_nat (case find (\<lambda>i. IMA_STEP_TABLE ! i \<ge> max difference 7) [0..<length IMA_STEP_TABLE] of
                       Some i \<Rightarrow> i | None \<Rightarrow> 88))"

definition encode_ima_frame_with_layout :: "i16 list \<Rightarrow> u8 list \<Rightarrow> bool \<Rightarrow> audio_error + u8 list" where
  "encode_ima_frame_with_layout samples output include_payload_length =
     (case samples of
        [] \<Rightarrow> Err InvalidPcm
      | first # rest \<Rightarrow>
          let encoded_bytes = div_ceil (length rest) 2;
              initial = initial_step_index first rest
          in and_then (try_u16 (length samples)) (\<lambda>n.
               let output = output @ u16_le n @ i16_le first @ [initial, 0]
               in and_then (if include_payload_length
                            then and_then (try_u16 encoded_bytes) (\<lambda>k. Ok (output @ u16_le k)) else Ok output)
                    (\<lambda>output. encode_ima_rest rest (sint first) (int (unat initial)) None output)))"

definition encode_ima_frame :: "i16 list \<Rightarrow> u8 list \<Rightarrow> audio_error + u8 list" where
  "encode_ima_frame samples output = encode_ima_frame_with_layout samples output True"

fun encode_frames :: "bool \<Rightarrow> i16 list list \<Rightarrow> u8 list \<Rightarrow> audio_error + u8 list" where
  "encode_frames layout [] output = Ok output"
| "encode_frames layout (frame # frames) output =
     and_then (encode_ima_frame_with_layout frame output layout) (\<lambda>output'. encode_frames layout frames output')"

section \<open>The EIAD container of the host\<close>

definition encode_eiad :: "u8 list \<Rightarrow> audio_error + u8 list" where
  "encode_eiad pcm_le =
     and_then (validate_pcm pcm_le) (\<lambda>total_samples.
     and_then (try_u32 (div_ceil total_samples EIAD_FRAME_SAMPLES)) (\<lambda>frame_count.
       encode_frames True (chunks EIAD_FRAME_SAMPLES (pcm_samples pcm_le))
         (EIAD @ u16_le EIAD_VERSION @ u16_le (of_nat EIAD_HEADER_BYTES) @ u32_le (of_nat TTS_SAMPLE_RATE) @
          u16_le 1 @ u16_le 4 @ u16_le (of_nat EIAD_FRAME_SAMPLES) @ u16_le (of_nat EIAD_FRAME_HEADER_BYTES) @
          nat_le 8 total_samples @ u32_le frame_count)))"

text \<open>The loop \<open>for index in 0..frames\<close>; \<open>n\<close> is the number of frames left, so the last round has
  \<open>n = 1\<close>. The offsets stay below the length of the buffer, so \<open>checked_add\<close> cannot fail.\<close>

fun inspect_frames :: "u8 list \<Rightarrow> nat \<Rightarrow> nat \<Rightarrow> nat \<Rightarrow> nat \<Rightarrow> audio_error + nat \<times> nat" where
  "inspect_frames eiad samples 0 off counted = Ok (off, counted)"
| "inspect_frames eiad samples (Suc n) off counted =
     (let header_end = off + EIAD_FRAME_HEADER_BYTES
      in if header_end > length eiad then Err InvalidEiad
         else and_then (read_u16 eiad off) (\<lambda>fs.
              and_then (byte_at eiad (off + 4)) (\<lambda>step_index.
              and_then (byte_at eiad (off + 5)) (\<lambda>reserved.
              and_then (read_u16 eiad (off + 6)) (\<lambda>pb.
              and_then (if n = 0 then (if counted \<le> samples then Ok (samples - counted) else Err Panic)
                        else Ok EIAD_FRAME_SAMPLES) (\<lambda>expected_samples.
                let frame_samples = unat fs; payload_bytes = unat pb;
                    expected_payload = div_ceil (expected_samples - 1) 2
                in if frame_samples \<noteq> expected_samples \<or> frame_samples = 0 \<or>
                      frame_samples > EIAD_FRAME_SAMPLES \<or> unat step_index > 88 \<or> reserved \<noteq> 0 \<or>
                      payload_bytes \<noteq> expected_payload then Err InvalidEiad
                   else let frame_end = header_end + payload_bytes
                        in if frame_end > length eiad then Err InvalidEiad
                           else and_then (if (frame_samples - 1) mod 2 \<noteq> 0
                                          then and_then (byte_at eiad (frame_end - 1)) (\<lambda>b.
                                                 guard InvalidEiad (b AND 0xF0 = 0))
                                          else Ok ()) (\<lambda>_.
                                inspect_frames eiad samples n frame_end (counted + frame_samples))))))))"

definition inspect_eiad :: "u8 list \<Rightarrow> audio_error + eiad_metadata" where
  "inspect_eiad eiad =
     and_then (all_ok
       [guard InvalidEiad (\<not> length eiad < EIAD_HEADER_BYTES),
        guard InvalidEiad (slice 0 4 eiad = EIAD),
        expect InvalidEiad (read_u16 eiad 4) EIAD_VERSION,
        expect InvalidEiad (read_u16 eiad 6) (of_nat EIAD_HEADER_BYTES),
        expect InvalidEiad (read_u32 eiad 8) (of_nat TTS_SAMPLE_RATE),
        expect InvalidEiad (read_u16 eiad 12) 1,
        expect InvalidEiad (read_u16 eiad 14) 4,
        expect InvalidEiad (read_u16 eiad 16) (of_nat EIAD_FRAME_SAMPLES),
        expect InvalidEiad (read_u16 eiad 18) (of_nat EIAD_FRAME_HEADER_BYTES)]) (\<lambda>_.
     and_then (read_u64 eiad 20) (\<lambda>s64.
     and_then (read_u32 eiad 28) (\<lambda>f32.
       let samples = unat s64; frames = unat f32
       in if samples = 0 \<or> samples > TTS_SAMPLE_RATE * MAX_TTS_SECONDS \<or>
             frames \<noteq> div_ceil samples EIAD_FRAME_SAMPLES then Err InvalidEiad
          else and_then (inspect_frames eiad samples frames EIAD_HEADER_BYTES 0) (\<lambda>(off, counted).
                 if off \<noteq> length eiad \<or> counted \<noteq> samples then Err InvalidEiad
                 else Ok \<lparr> em_sample_rate = TTS_SAMPLE_RATE, em_samples = samples, em_frames = frames \<rparr>))))"

text \<open>The loop \<open>for sample_index in 1..samples\<close>; \<open>n\<close> is the number of samples left.\<close>

fun decode_samples :: "u8 list \<Rightarrow> nat \<Rightarrow> nat \<Rightarrow> nat \<Rightarrow> int \<Rightarrow> int \<Rightarrow> u8 list \<Rightarrow> audio_error + u8 list" where
  "decode_samples eiad off 0 sample_index predictor step_index output = Ok output"
| "decode_samples eiad off (Suc n) sample_index predictor step_index output =
     and_then (byte_at eiad (off + (sample_index - 1) div 2)) (\<lambda>packed.
       let nibble = (if sample_index mod 2 \<noteq> 0 then packed AND 0x0F else drop_bit 4 packed)
       in and_then (decode_ima_sample nibble predictor step_index) (\<lambda>(predictor', step_index').
            decode_samples eiad off n (sample_index + 1) predictor' step_index'
              (output @ i16_le (of_int predictor'))))"

fun decode_frames :: "u8 list \<Rightarrow> nat \<Rightarrow> nat \<Rightarrow> u8 list \<Rightarrow> audio_error + u8 list" where
  "decode_frames eiad 0 off output = Ok output"
| "decode_frames eiad (Suc n) off output =
     and_then (read_u16 eiad off) (\<lambda>fs.
     and_then (byte_at eiad (off + 2)) (\<lambda>lo.
     and_then (byte_at eiad (off + 3)) (\<lambda>hi.
     and_then (byte_at eiad (off + 4)) (\<lambda>si.
     and_then (read_u16 eiad (off + 6)) (\<lambda>pb.
       let predictor = sint (i16_from_le lo hi); off' = off + EIAD_FRAME_HEADER_BYTES
       in and_then (decode_samples eiad off' (unat fs - 1) 1 predictor (int (unat si))
                      (output @ i16_le (of_int predictor))) (\<lambda>output'.
            decode_frames eiad n (off' + unat pb) output'))))))"

definition decode_eiad :: "u8 list \<Rightarrow> audio_error + u8 list" where
  "decode_eiad eiad =
     and_then (inspect_eiad eiad) (\<lambda>metadata. decode_frames eiad (em_frames metadata) EIAD_HEADER_BYTES [])"

definition encode_tts_audio :: "u8 list \<Rightarrow> audio_error + audio_artifacts" where
  "encode_tts_audio pcm_le =
     and_then (validate_pcm pcm_le) (\<lambda>samples.
     and_then (encode_wav pcm_le) (\<lambda>wav.
     and_then (encode_eiad pcm_le) (\<lambda>eiad.
     and_then (inspect_eiad eiad) (\<lambda>metadata.
       if em_samples metadata \<noteq> samples \<or> em_sample_rate metadata \<noteq> TTS_SAMPLE_RATE then Err InvalidEiad
       else Ok \<lparr> aa_wav = wav, aa_eiad = eiad, aa_samples = samples, aa_frames = em_frames metadata \<rparr>))))"

text \<open>\<open>saturating_mul\<close> on \<open>u64\<close>\<close>

definition duration_ms :: "audio_artifacts \<Rightarrow> nat" where
  "duration_ms a = min (aa_samples a * 1000) (2 ^ 64 - 1) div TTS_SAMPLE_RATE"

section \<open>The EIAD container of the keyboard\<close>

fun inspect_device_frames :: "u8 list \<Rightarrow> nat \<Rightarrow> nat \<Rightarrow> nat \<Rightarrow> nat \<Rightarrow> audio_error + nat \<times> nat" where
  "inspect_device_frames eiad samples 0 off counted = Ok (off, counted)"
| "inspect_device_frames eiad samples (Suc n) off counted =
     (let header_end = off + DEVICE_EIAD_FRAME_HEADER_BYTES
      in if header_end > length eiad then Err InvalidEiad
         else and_then (read_u16 eiad off) (\<lambda>fs.
              and_then (if n = 0 then (if counted \<le> samples then Ok (samples - counted) else Err Panic)
                        else Ok DEVICE_EIAD_FRAME_SAMPLES) (\<lambda>expected_samples.
              and_then (byte_at eiad (off + 4)) (\<lambda>step_index.
              and_then (byte_at eiad (off + 5)) (\<lambda>reserved.
                let frame_samples = unat fs
                in if frame_samples \<noteq> expected_samples \<or> frame_samples = 0 \<or> unat step_index > 88 \<or>
                      reserved \<noteq> 0 then Err InvalidEiad
                   else let payload_bytes = div_ceil (frame_samples - 1) 2; off' = header_end + payload_bytes
                        in if off' > length eiad then Err InvalidEiad
                           else inspect_device_frames eiad samples n off' (counted + frame_samples))))))"

definition inspect_device_eiad :: "u8 list \<Rightarrow> audio_error + eiad_metadata" where
  "inspect_device_eiad eiad =
     and_then (all_ok
       [guard InvalidEiad (\<not> length eiad < DEVICE_EIAD_HEADER_BYTES),
        guard InvalidEiad (slice 0 4 eiad = EIAD),
        expect InvalidEiad (byte_at eiad 4) 1,
        expect InvalidEiad (byte_at eiad 5) 1,
        expect InvalidEiad (read_u32 eiad 6) (of_nat TTS_SAMPLE_RATE),
        expect InvalidEiad (read_u16 eiad 10) (of_nat DEVICE_EIAD_FRAME_SAMPLES),
        expect InvalidEiad (read_u16 eiad 18) (of_nat DEVICE_EIAD_HEADER_BYTES)]) (\<lambda>_.
     and_then (read_u16 eiad 12) (\<lambda>f16.
     and_then (read_u32 eiad 14) (\<lambda>s32.
       let samples = unat s32; frames = unat f16
       in if samples = 0 \<or> samples > TTS_SAMPLE_RATE * MAX_TTS_SECONDS \<or>
             frames \<noteq> div_ceil samples DEVICE_EIAD_FRAME_SAMPLES then Err InvalidEiad
          else and_then (inspect_device_frames eiad samples frames DEVICE_EIAD_HEADER_BYTES 0) (\<lambda>(off, counted).
                 if off \<noteq> length eiad \<or> counted \<noteq> samples then Err InvalidEiad
                 else Ok \<lparr> em_sample_rate = TTS_SAMPLE_RATE, em_samples = samples, em_frames = frames \<rparr>))))"

definition transcode_eiad_for_device :: "u8 list \<Rightarrow> audio_error + u8 list" where
  "transcode_eiad_for_device eiad =
     and_then (decode_eiad eiad) (\<lambda>pcm.
     and_then (validate_pcm pcm) (\<lambda>total_samples.
     and_then (try_u16 (div_ceil total_samples DEVICE_EIAD_FRAME_SAMPLES)) (\<lambda>frame_count.
     and_then (try_u32 total_samples) (\<lambda>total_samples_u32.
     and_then (encode_frames False (chunks DEVICE_EIAD_FRAME_SAMPLES (pcm_samples pcm))
         (EIAD @ [1, 1] @ u32_le (of_nat TTS_SAMPLE_RATE) @ u16_le (of_nat DEVICE_EIAD_FRAME_SAMPLES) @
          u16_le frame_count @ u32_le total_samples_u32 @ u16_le (of_nat DEVICE_EIAD_HEADER_BYTES))) (\<lambda>output.
     and_then (inspect_device_eiad output) (\<lambda>_. Ok output))))))"

section \<open>Samples\<close>

lemma step_at_range:
  assumes "0 \<le> i" "i \<le> 88"
  obtains step where "step_at i = Ok step" "7 \<le> step" "step \<le> 32767"
proof -
  have all: "list_all (\<lambda>s. 7 \<le> s \<and> s \<le> 32767) IMA_STEP_TABLE" "length IMA_STEP_TABLE = 89" by code_simp+
  then have "IMA_STEP_TABLE ! nat i \<in> set IMA_STEP_TABLE" using assms by (intro nth_mem) simp
  then show thesis using that assms all by (auto simp: step_at_def list_all_iff)
qed

lemma index_at_range: "unat code < 16 \<Longrightarrow> \<exists>a. index_at code = Ok a"
  by (simp add: index_at_def IMA_INDEX_TABLE_def)

lemma clamp_range: "lo \<le> hi \<Longrightarrow> lo \<le> clamp lo hi v \<and> clamp lo hi v \<le> hi"
  by (simp add: clamp_def)

text \<open>The decoder follows the encoder: from the same predictor and step index, the code of a sample
  leads both to the same predictor and step index.\<close>

definition ima_code :: "bool \<Rightarrow> bool \<Rightarrow> bool \<Rightarrow> bool \<Rightarrow> u8" where
  "ima_code b8 b4 b2 b1 = (((if b8 then 8 else 0) OR (if b4 then 4 else 0)) OR (if b2 then 2 else 0)) OR (if b1 then 1 else 0)"

lemma ima_code_bits:
  "unat (ima_code b8 b4 b2 b1) < 16" "ima_code b8 b4 b2 b1 AND 8 \<noteq> 0 \<longleftrightarrow> b8" "ima_code b8 b4 b2 b1 AND 4 \<noteq> 0 \<longleftrightarrow> b4"
  "ima_code b8 b4 b2 b1 AND 2 \<noteq> 0 \<longleftrightarrow> b2" "ima_code b8 b4 b2 b1 AND 1 \<noteq> 0 \<longleftrightarrow> b1"
  by (cases b8; cases b4; cases b2; cases b1; simp add: ima_code_def)+

text \<open>The differences the encoder compares with the step, half of it and a quarter of it.\<close>

definition ima_gap :: "int \<Rightarrow> int \<Rightarrow> int" where
  "ima_gap s p = (if s - p < 0 then - (s - p) else s - p)"

definition ima_rest :: "int \<Rightarrow> int \<Rightarrow> int" where
  "ima_rest d step = (if d \<ge> step then d - step else d)"

lemma encode_ima_sample_eq:
  fixes s p step :: int
  defines "d \<equiv> ima_gap s p"
  defines "d2 \<equiv> ima_rest d step"
  defines "d1 \<equiv> ima_rest d2 (step div 2)"
  defines "code \<equiv> ima_code (s - p < 0) (d \<ge> step) (d2 \<ge> step div 2) (d1 \<ge> step div 4)"
  assumes step: "step_at i = Ok step"
  shows "encode_ima_sample s p i =
     (let delta = (let d' = step div 8; d' = (if d \<ge> step then d' + step else d');
                     d' = (if d2 \<ge> step div 2 then d' + step div 2 else d')
                   in if d1 \<ge> step div 4 then d' + step div 4 else d')
      in and_then (index_at code) (\<lambda>a. Ok (code,
           clamp (- 32768) 32767 (if s - p < 0 then p - delta else p + delta), clamp 0 88 (i + a))))"
  unfolding encode_ima_sample_def step and_then_simps Let_def code_def d1_def d2_def d_def
  by (cases "s - p < 0"; cases "ima_gap s p \<ge> step"; cases "ima_rest (ima_gap s p) step \<ge> step div 2";
      cases "ima_rest (ima_rest (ima_gap s p) step) (step div 2) \<ge> step div 4";
      simp add: ima_gap_def ima_rest_def ima_code_def)

lemma encode_ima_sample_follow:
  assumes "0 \<le> i" "i \<le> 88"
  obtains c p' i' where "encode_ima_sample s p i = Ok (c, p', i')" "unat c < 16" "- 32768 \<le> p'" "p' \<le> 32767"
    "0 \<le> i'" "i' \<le> 88" "decode_ima_sample c p i = Ok (p', i')"
proof -
  obtain step where step: "step_at i = Ok step" using step_at_range [OF assms] by blast
  let ?d = "ima_gap s p" and ?d2 = "ima_rest (ima_gap s p) step"
  let ?d1 = "ima_rest ?d2 (step div 2)"
  let ?c = "ima_code (s - p < 0) (?d \<ge> step) (?d2 \<ge> step div 2) (?d1 \<ge> step div 4)"
  obtain a where a: "index_at ?c = Ok a" using index_at_range ima_code_bits(1) by blast
  show thesis
    using that [of ?c] encode_ima_sample_eq [OF step, of s p] a clamp_range [of "- 32768" 32767] clamp_range [of 0 88]
    by (simp add: decode_ima_sample_def step ima_code_bits Let_def)
qed

lemma decode_ima_sample_ok:
  assumes "0 \<le> i" "i \<le> 88" "unat c < 16"
  obtains p' i' where "decode_ima_sample c p i = Ok (p', i')" "0 \<le> i'" "i' \<le> 88" "- 32768 \<le> p'" "p' \<le> 32767"
proof -
  obtain step where step: "step_at i = Ok step" using step_at_range [OF assms(1,2)] by blast
  obtain a where a: "index_at c = Ok a" using index_at_range [OF assms(3)] by blast
  show thesis
    using that clamp_range [of "- 32768" 32767] clamp_range [of 0 88] by (auto simp: decode_ima_sample_def step a Let_def)
qed

section \<open>Nibbles\<close>

fun pack :: "u8 list \<Rightarrow> u8 list" where
  "pack (a # b # r) = (a OR push_bit 4 b) # pack r"
| "pack [a] = [a]"
| "pack [] = []"

definition nibble_at :: "nat \<Rightarrow> u8 \<Rightarrow> u8" where
  "nibble_at j packed = (if j mod 2 = 0 then packed AND 0x0F else drop_bit 4 packed)"

lemma small_nibble: "unat (a :: u8) < 16 \<longleftrightarrow> take_bit 4 a = a"
proof -
  have "unat (take_bit 4 a) = take_bit 4 (unat a)" by (rule unsigned_take_bit_eq)
  then have "unat (take_bit 4 a) = unat a mod 16" by (simp only: take_bit_eq_mod) simp
  then have "take_bit 4 a = a \<longleftrightarrow> unat a mod 16 = unat a" by (metis word_unat_eq_iff)
  then show ?thesis by (metis mod_less mod_less_divisor zero_less_numeral)
qed

lemma and_mask4: "(a :: u8) AND 0x0F = take_bit 4 a"
  by (simp add: take_bit_eq_mask mask_eq_exp_minus_1)

lemma nibbles_of_byte:
  assumes "unat (a :: u8) < 16" "unat (b :: u8) < 16"
  shows "(a OR push_bit 4 b) AND 0x0F = a" "drop_bit 4 (a OR push_bit 4 b) = b"
proof -
  have a: "take_bit 4 a = a" and b: "take_bit 4 b = b" using assms by (simp_all add: small_nibble)
  show "(a OR push_bit 4 b) AND 0x0F = a"
    unfolding and_mask4 using a by (simp add: take_bit_push_bit)
  have n: "\<not> bit a (n + 4)" "bit b n \<Longrightarrow> n < 4" for n
    using a b by (metis bit_take_bit_iff not_add_less2, metis bit_take_bit_iff)
  show "drop_bit 4 (a OR push_bit 4 b) = b"
    by (rule bit_word_eqI) (use n in \<open>auto simp: bit_simps add.commute\<close>)
qed

lemma length_pack: "length (pack ns) = (length ns + 1) div 2"
  by (induction ns rule: pack.induct) auto

lemma nibble_pack:
  assumes "j < length ns" "\<forall>n \<in> set ns. unat n < 16"
  shows "nibble_at j (pack ns ! (j div 2)) = ns ! j"
  using assms
proof (induction ns arbitrary: j rule: pack.induct)
  case (1 a b r)
  consider "j = 0" | "j = 1" | k where "j = k + 2" by (metis One_nat_def add_2_eq_Suc' not0_implies_Suc)
  then show ?case
  proof cases
    case 3
    then have "nibble_at j (pack r ! (k div 2)) = r ! k" using 1 by (auto simp: nibble_at_def)
    with 3 show ?thesis by simp
  qed (use 1 nibbles_of_byte [of a b] in \<open>auto simp: nibble_at_def simp del: drop_bit_or\<close>)
next
  case (2 a)
  then show ?case by (simp add: nibble_at_def and_mask4 small_nibble)
qed simp

section \<open>Frames\<close>

text \<open>The codes of the samples of a frame with the predictors the encoder goes through.\<close>

fun ima_track :: "i16 list \<Rightarrow> int \<Rightarrow> int \<Rightarrow> (u8 \<times> int) list" where
  "ima_track [] p i = []"
| "ima_track (x # xs) p i =
     (case encode_ima_sample (sint x) p i of
        Inr (c, p', i') \<Rightarrow> (c, p') # ima_track xs p' i'
      | Inl e \<Rightarrow> [])"

definition frame_track :: "i16 list \<Rightarrow> (u8 \<times> int) list" where
  "frame_track frame = ima_track (tl frame) (sint (hd frame)) (int (unat (initial_step_index (hd frame) (tl frame))))"

text \<open>The samples the receiver hears for a frame: the first one as it is, the others as the
  predictors of the encoder.\<close>

definition heard_frame :: "i16 list \<Rightarrow> i16 list" where
  "heard_frame frame = hd frame # map (\<lambda>(c, p). of_int p) (frame_track frame)"

definition frame_bytes :: "bool \<Rightarrow> i16 list \<Rightarrow> u8 list" where
  "frame_bytes layout frame =
     u16_le (of_nat (length frame)) @ i16_le (hd frame) @ [initial_step_index (hd frame) (tl frame), 0] @
     (if layout then u16_le (of_nat (div_ceil (length frame - 1) 2)) else []) @ pack (map fst (frame_track frame))"

lemma ima_track_facts:
  assumes "0 \<le> i" "i \<le> 88"
  shows "length (ima_track xs p i) = length xs \<and> (\<forall>(c, q) \<in> set (ima_track xs p i). unat c < 16)"
  using assms
proof (induction xs arbitrary: p i)
  case (Cons x xs)
  obtain c p' i' where e: "encode_ima_sample (sint x) p i = Ok (c, p', i')" "unat c < 16" "0 \<le> i'" "i' \<le> 88"
    using encode_ima_sample_follow [OF Cons.prems] by metis
  then show ?case using Cons.IH [OF e(3,4)] by auto
qed simp

lemma encode_ima_rest_track:
  assumes "0 \<le> i" "i \<le> 88"
  shows "encode_ima_rest xs p i pending out =
    Ok (out @ pack ((case pending of None \<Rightarrow> [] | Some low \<Rightarrow> [low]) @ map fst (ima_track xs p i)))"
  using assms
proof (induction xs arbitrary: p i out pending)
  case (Cons x xs)
  obtain c p' i' where e: "encode_ima_sample (sint x) p i = Ok (c, p', i')" "0 \<le> i'" "i' \<le> 88"
    using encode_ima_sample_follow [OF Cons.prems] by metis
  then show ?case using Cons.IH [OF e(2,3)] by (cases pending) simp_all
qed (simp split: option.split)

lemma initial_step_index_range: "unat (initial_step_index first rest) \<le> 88"
proof -
  have "length IMA_STEP_TABLE = 89" by code_simp
  then have *: "i \<le> 88" if "find P [0..<length IMA_STEP_TABLE] = Some i" for i P
    using that by (auto simp: find_Some_iff)
  show ?thesis
    by (auto simp: initial_step_index_def Let_def unat_of_nat dest!: * split: list.split option.split)
qed

lemma initial_step_index_int: "int (unat (initial_step_index first rest)) \<le> 88"
proof -
  have "int (unat (initial_step_index first rest)) \<le> int 88"
    by (simp only: of_nat_le_iff initial_step_index_range)
  then show ?thesis by simp
qed

lemma encode_ima_frame_bytes:
  assumes "frame \<noteq> []" "length frame < 65536"
  shows "encode_ima_frame_with_layout frame out layout = Ok (out @ frame_bytes layout frame)"
proof -
  obtain x xs where f: "frame = x # xs" using assms(1) by (cases frame) auto
  have "div_ceil (length xs) 2 < 65536" using assms(2) by (simp add: f div_ceil_def)
  then show ?thesis
    using assms(2) initial_step_index_int [of x xs] by (simp add: f encode_ima_frame_with_layout_def try_u16_def frame_bytes_def frame_track_def
        encode_ima_rest_track Let_def)
qed

lemma encode_frames_bytes:
  assumes "\<And>f. f \<in> set frames \<Longrightarrow> f \<noteq> [] \<and> length f < 65536"
  shows "encode_frames layout frames out = Ok (out @ concat (map (frame_bytes layout) frames))"
  using assms by (induction frames arbitrary: out) (simp_all add: encode_ima_frame_bytes)

lemma frame_track_facts:
  assumes "frame \<noteq> []"
  shows "length (frame_track frame) = length frame - 1" "\<forall>n \<in> set (map fst (frame_track frame)). unat n < 16"
proof -
  from ima_track_facts [OF _ initial_step_index_int, of "hd frame" "tl frame" "tl frame" "sint (hd frame)"]
  show "length (frame_track frame) = length frame - 1" "\<forall>n \<in> set (map fst (frame_track frame)). unat n < 16"
    by (auto simp: frame_track_def)
qed

lemma length_frame_bytes:
  "frame \<noteq> [] \<Longrightarrow> length (frame_bytes layout frame) = (if layout then 8 else 6) + length frame div 2"
  by (cases frame) (simp_all add: frame_bytes_def u16_le_def i16_le_def length_pack frame_track_facts)

section \<open>Chunks\<close>

fun framed :: "nat \<Rightarrow> 'a list list \<Rightarrow> bool" where
  "framed n [] = True"
| "framed n [f] = (f \<noteq> [] \<and> length f \<le> n)"
| "framed n (f # g # fs) = (length f = n \<and> framed n (g # fs))"

lemma div_ceil_step: "0 < n \<Longrightarrow> 0 < m \<Longrightarrow> div_ceil m n = div_ceil (m - n) n + 1"
proof (cases "n \<le> m")
  case True
  assume "0 < n"
  then have "m + n - 1 = (m - n + n - 1) + n" using True by simp
  with \<open>0 < n\<close> show ?thesis by (metis div_ceil_def div_add_self2 less_numeral_extra(3))
next
  case False
  assume "0 < n" "0 < m"
  then have "m + n - 1 = (m - 1) + n" by simp
  with \<open>0 < n\<close> have "div_ceil m n = (m - 1) div n + 1" by (metis div_ceil_def div_add_self2 less_numeral_extra(3))
  with False show ?thesis by (simp add: div_ceil_def)
qed

lemma chunks_step: "0 < n \<Longrightarrow> xs \<noteq> [] \<Longrightarrow> chunks n xs = take n xs # chunks n (drop n xs)"
  by (subst chunks.simps) simp

lemma chunks_Nil [simp]: "chunks n [] = []"
  by (subst chunks.simps) simp

lemma chunks_framed:
  assumes "0 < n"
  shows "framed n (chunks n xs) \<and> concat (chunks n xs) = xs \<and> length (chunks n xs) = div_ceil (length xs) n"
proof (induction "length xs" arbitrary: xs rule: less_induct)
  case less
  show ?case
  proof (cases "xs = []")
    case True
    with assms show ?thesis by (simp add: div_ceil_def)
  next
    case False
    then have IH: "framed n (chunks n (drop n xs))" "concat (chunks n (drop n xs)) = drop n xs"
        "length (chunks n (drop n xs)) = div_ceil (length xs - n) n"
      using less [of "drop n xs"] assms by auto
    have "framed n (take n xs # chunks n (drop n xs))"
    proof (cases "drop n xs = []")
      case True
      then show ?thesis using False assms by simp
    next
      case more: False
      then obtain g fs where g: "chunks n (drop n xs) = g # fs" using assms chunks_step by blast
      show ?thesis using IH(1) more unfolding g by simp
    qed
    with IH False assms show ?thesis by (simp add: chunks_step div_ceil_step)
  qed
qed

lemma framed_set: "framed n fs \<Longrightarrow> 0 < n \<Longrightarrow> f \<in> set fs \<Longrightarrow> f \<noteq> [] \<and> length f \<le> n"
  by (induction n fs rule: framed.induct) auto

section \<open>Reading back a frame\<close>

lemma slice_drop2: "2 \<le> a \<Longrightarrow> slice a b (x # y # ys) = slice (a - 2) (b - 2) ys"
  by (cases a; cases b) (auto simp: slice_def drop_Cons' take_Cons')

lemma length_u16_le [simp]: "length (u16_le v) = 2" by (simp add: u16_le_def)
lemma length_u32_le [simp]: "length (u32_le v) = 4" by (simp add: u32_le_def)
lemma length_i16_le [simp]: "length (i16_le v) = 2" by (simp add: i16_le_def)

lemma get_u16_here: "get_u16 (u16_le v @ r) 0 = v"
  by (simp add: get_u16_def u16_le_def slice_def)

lemma get_u32_here: "get_u32 (u32_le v @ r) 0 = v"
  by (simp add: get_u32_def u32_le_def slice_def)

lemma get_append:
  "length pre \<le> off \<Longrightarrow> get_u16 (pre @ ys) off = get_u16 ys (off - length pre)"
  "length pre \<le> off \<Longrightarrow> get_u32 (pre @ ys) off = get_u32 ys (off - length pre)"
  "length pre \<le> off \<Longrightarrow> get_u64 (pre @ ys) off = get_u64 ys (off - length pre)"
  by (auto simp: field_defs slice_append_right le_iff_add)

lemma get_drop2: "2 \<le> off \<Longrightarrow> get_u16 (x # y # ys) off = get_u16 ys (off - 2)"
  by (auto simp: get_u16_def slice_drop2 le_iff_add)

lemma i16_from_le_bytes: "i16_from_le (i16_le v ! 0) (i16_le v ! 1) = v"
proof -
  have "[i16_le v ! 0, i16_le v ! 1] = nat_le 2 (unat v)" by (simp add: i16_le_def numeral_2_eq_2)
  then show ?thesis by (simp add: i16_from_le_def)
qed

lemma pack_last:
  assumes "odd (length ns)" "\<forall>n \<in> set ns. unat n < 16"
  shows "pack ns ! (length ns div 2) AND 0xF0 = 0"
  using assms
proof (induction ns rule: pack.induct)
  case (2 a)
  then have "a AND 0x0F = a" by (simp add: and_mask4 small_nibble)
  moreover have "(a AND 0x0F) AND 0xF0 = 0" by (simp add: and.assoc)
  ultimately show ?case by simp
qed auto

lemma frame_bytes_header:
  fixes pre post :: "u8 list" and layout :: bool
  assumes "frame \<noteq> []" "length frame < 65536"
  defines "bytes \<equiv> pre @ frame_bytes layout frame @ post"
  shows "read_u16 bytes (length pre) = Ok (of_nat (length frame))"
    "byte_at bytes (length pre + 2) = Ok (i16_le (hd frame) ! 0)"
    "byte_at bytes (length pre + 3) = Ok (i16_le (hd frame) ! 1)"
    "byte_at bytes (length pre + 4) = Ok (initial_step_index (hd frame) (tl frame))"
    "byte_at bytes (length pre + 5) = Ok 0"
    "layout \<Longrightarrow> read_u16 bytes (length pre + 6) = Ok (of_nat (div_ceil (length frame - 1) 2))"
proof -
  define h where "h = u16_le (of_nat (length frame)) @ i16_le (hd frame)"
  define r where "r = (if layout then u16_le (of_nat (div_ceil (length frame - 1) 2)) else []) @
      pack (map fst (frame_track frame)) @ post"
  have b: "bytes = (pre @ h) @ initial_step_index (hd frame) (tl frame) # 0 # r"
    by (simp add: bytes_def frame_bytes_def h_def r_def)
  have h: "length h = 4" "h ! 2 = i16_le (hd frame) ! 0" "h ! 3 = i16_le (hd frame) ! 1"
    by (simp_all add: h_def nth_append)
  show "read_u16 bytes (length pre) = Ok (of_nat (length frame))"
    unfolding read_u16_def b by (simp add: h get_append) (simp add: h_def get_u16_here)
  show "byte_at bytes (length pre + 2) = Ok (i16_le (hd frame) ! 0)"
    "byte_at bytes (length pre + 3) = Ok (i16_le (hd frame) ! 1)"
    "byte_at bytes (length pre + 4) = Ok (initial_step_index (hd frame) (tl frame))"
    "byte_at bytes (length pre + 5) = Ok 0"
    unfolding byte_at_def b by (simp_all add: h nth_append)
  assume layout
  then show "read_u16 bytes (length pre + 6) = Ok (of_nat (div_ceil (length frame - 1) 2))"
    unfolding read_u16_def b by (simp add: h get_append get_drop2) (simp add: r_def get_u16_here)
qed

lemma frame_payload:
  assumes "frame \<noteq> []" "j < length frame - 1"
  shows "byte_at (pre @ frame_bytes layout frame @ post) (length pre + (if layout then 8 else 6) + j div 2) =
      Ok (pack (map fst (frame_track frame)) ! (j div 2))"
proof -
  let ?p = "pack (map fst (frame_track frame))"
  define h where "h = u16_le (of_nat (length frame)) @ i16_le (hd frame) @ [initial_step_index (hd frame) (tl frame), 0] @
     (if layout then u16_le (of_nat (div_ceil (length frame - 1) 2)) else [])"
  have h: "length h = (if layout then 8 else 6)" by (simp add: h_def)
  have e: "pre @ frame_bytes layout frame @ post = (pre @ h) @ ?p @ post" by (simp add: frame_bytes_def h_def)
  have "j div 2 < length ?p" using assms(2) frame_track_facts(1) [OF assms(1)] by (simp add: length_pack)
  moreover have "length pre + (if layout then 8 else 6) + j div 2 = length (pre @ h) + j div 2" using h by simp
  ultimately show ?thesis unfolding e by (simp only: byte_at_def nth_append_length_plus) (simp add: nth_append)
qed

lemma inspect_encoded_frame:
  assumes "frame \<noteq> []" "length frame \<le> EIAD_FRAME_SAMPLES"
    "length frame = (if n = 0 then samples - counted else EIAD_FRAME_SAMPLES)" "counted \<le> samples"
  shows "inspect_frames (pre @ frame_bytes True frame @ post) samples (Suc n) (length pre) counted =
    inspect_frames (pre @ frame_bytes True frame @ post) samples n (length (pre @ frame_bytes True frame)) (counted + length frame)"
proof -
  let ?e = "pre @ frame_bytes True frame @ post" and ?k = "length frame - 1"
  have small: "length frame < 65536" "div_ceil ?k 2 < 65536" using assms(2) by (simp_all add: audio_consts div_ceil_def)
  note hdr = frame_bytes_header [OF assms(1) small(1), where pre = pre and post = post and layout = True]
  have len: "length (frame_bytes True frame) = 8 + div_ceil ?k 2"
    using assms(1) by (cases frame) (simp_all add: length_frame_bytes div_ceil_def)
  have odd: "and_then (byte_at ?e (length pre + 8 + div_ceil ?k 2 - 1)) (\<lambda>b. guard InvalidEiad (b AND 0xF0 = 0)) = Ok ()"
    if "?k mod 2 \<noteq> 0"
  proof -
    have "div_ceil ?k 2 = Suc (?k div 2)" "?k \<noteq> 0" using that by (simp add: div_ceil_def, presburger) (use that in auto)
    then have i: "length pre + 8 + div_ceil ?k 2 - 1 = length pre + 8 + (?k - 1) div 2"
      using that by simp presburger
    have "byte_at ?e (length pre + 8 + (?k - 1) div 2) = Ok (pack (map fst (frame_track frame)) ! ((?k - 1) div 2))"
      using frame_payload [OF assms(1), where j = "?k - 1" and pre = pre and layout = True and post = post] \<open>?k \<noteq> 0\<close> by simp
    moreover have "(?k - 1) div 2 = length (map fst (frame_track frame)) div 2"
      using frame_track_facts(1) [OF assms(1)] that by simp presburger
    moreover have "odd (length (map fst (frame_track frame)))"
      using frame_track_facts(1) [OF assms(1)] that by (simp only: length_map odd_iff_mod_2_eq_one)
    ultimately show ?thesis
      using pack_last [OF _ frame_track_facts(2) [OF assms(1)]] unfolding i by (simp add: guard_def)
  qed
  have fs: "unat (of_nat (length frame) :: u16) = length frame" "unat (of_nat (div_ceil ?k 2) :: u16) = div_ceil ?k 2"
    using small by (simp_all add: unat_of_nat)
  have ex: "(if n = 0 then (if counted \<le> samples then Ok (samples - counted) else Err Panic)
      else Ok EIAD_FRAME_SAMPLES) = (Ok (length frame) :: audio_error + nat)"
    using assms(3,4) by auto
  have frame: "\<not> (length frame \<noteq> length frame \<or> length frame = 0 \<or> length frame > EIAD_FRAME_SAMPLES \<or>
      unat (initial_step_index (hd frame) (tl frame)) > 88 \<or> (0 :: u8) \<noteq> 0 \<or> div_ceil ?k 2 \<noteq> div_ceil ?k 2)"
    using assms(1,2) initial_step_index_range [of "hd frame" "tl frame"] by simp
  have "(if ?k mod 2 \<noteq> 0 then and_then (byte_at ?e (length pre + 8 + div_ceil ?k 2 - 1))
      (\<lambda>b. guard InvalidEiad (b AND 0xF0 = 0)) else Ok ()) = Ok ()"
    using odd by simp
  moreover have "\<not> length pre + 8 > length ?e" "\<not> length pre + 8 + div_ceil ?k 2 > length ?e"
    "length (pre @ frame_bytes True frame) = length pre + 8 + div_ceil ?k 2" using len by simp_all
  ultimately show ?thesis
    unfolding inspect_frames.simps(2) Let_def EIAD_FRAME_HEADER_BYTES_def hdr(1,4,5) hdr(6) [OF TrueI] and_then_simps fs ex
    using frame by (simp only: if_False and_then_simps)
qed

section \<open>The encoder's container passes the inspection and is decoded to the encoder's track\<close>

lemma inspect_encoded_frames:
  assumes "framed EIAD_FRAME_SAMPLES frames" "counted + length (concat frames) = samples"
  shows "inspect_frames (pre @ concat (map (frame_bytes True) frames)) samples (length frames) (length pre) counted =
    Ok (length (pre @ concat (map (frame_bytes True) frames)), samples)"
  using assms
proof (induction frames arbitrary: pre counted)
  case (Cons f fs)
  have f: "f \<noteq> []" "length f \<le> EIAD_FRAME_SAMPLES"
    using framed_set [OF Cons.prems(1), of f] by (simp_all add: audio_consts)
  have n: "length f = (if length fs = 0 then samples - counted else EIAD_FRAME_SAMPLES)" "counted \<le> samples"
    using Cons.prems by (cases fs; auto)+
  have "framed EIAD_FRAME_SAMPLES fs" using Cons.prems(1) by (cases fs) auto
  from Cons.IH [OF this, of "counted + length f" "pre @ frame_bytes True f"] Cons.prems(2)
  show ?case
    using inspect_encoded_frame [OF f n, of pre "concat (map (frame_bytes True) fs)"]
    by (simp del: inspect_frames.simps)
qed simp

lemma decode_samples_track:
  assumes "0 \<le> i" "i \<le> 88"
    "\<And>j. j < length xs \<Longrightarrow> \<exists>b. byte_at eiad (off + (k + j) div 2) = Ok b \<and> nibble_at (k + j) b = fst (ima_track xs p i ! j)"
  shows "decode_samples eiad off (length xs) (Suc k) p i out =
    Ok (out @ concat (map (\<lambda>(c, q). i16_le (of_int q)) (ima_track xs p i)))"
  using assms
proof (induction xs arbitrary: p i k out)
  case (Cons x xs)
  obtain c p' i' where e: "encode_ima_sample (sint x) p i = Ok (c, p', i')" "0 \<le> i'" "i' \<le> 88"
      "decode_ima_sample c p i = Ok (p', i')"
    using encode_ima_sample_follow [OF Cons.prems(1,2)] by metis
  obtain b where b: "byte_at eiad (off + k div 2) = Ok b" "nibble_at k b = c"
    using Cons.prems(3) [of 0] e(1) by auto
  have nib: "(if Suc k mod 2 \<noteq> 0 then b AND 0x0F else drop_bit 4 b) = c"
    using b(2) by (auto simp: nibble_at_def mod_Suc split: if_splits)
  have "\<exists>b. byte_at eiad (off + (Suc k + j) div 2) = Ok b \<and> nibble_at (Suc k + j) b = fst (ima_track xs p' i' ! j)"
    if "j < length xs" for j
    using Cons.prems(3) [of "Suc j"] that e(1) by simp
  from Cons.IH [OF e(2,3) this]
  show ?case using b(1) nib e(1,4) by (simp add: Let_def)
qed simp

lemma decode_encoded_frame:
  assumes "frame \<noteq> []" "length frame \<le> EIAD_FRAME_SAMPLES"
  shows "decode_frames (pre @ frame_bytes True frame @ post) (Suc n) (length pre) out =
    decode_frames (pre @ frame_bytes True frame @ post) n (length (pre @ frame_bytes True frame))
      (out @ concat (map i16_le (heard_frame frame)))"
proof -
  let ?e = "pre @ frame_bytes True frame @ post" and ?k = "length frame - 1"
  have small: "length frame < 65536" "div_ceil ?k 2 < 65536" using assms(2) by (simp_all add: audio_consts div_ceil_def)
  have fs: "unat (of_nat (length frame) :: u16) = length frame" "unat (of_nat (div_ceil ?k 2) :: u16) = div_ceil ?k 2"
    using small by (simp_all add: unat_of_nat)
  note hdr = frame_bytes_header [OF assms(1) small(1), where pre = pre and post = post and layout = True]
  have len: "length (pre @ frame_bytes True frame) = length pre + 8 + div_ceil ?k 2"
    using assms(1) by (cases frame) (simp_all add: length_frame_bytes div_ceil_def)
  let ?i = "int (unat (initial_step_index (hd frame) (tl frame)))" and ?p = "sint (hd frame)"
  have "\<exists>b. byte_at ?e (length pre + 8 + (0 + j) div 2) = Ok b \<and> nibble_at (0 + j) b = fst (ima_track (tl frame) ?p ?i ! j)"
    if "j < length (tl frame)" for j
    using frame_payload [OF assms(1), where j = j and pre = pre and layout = True and post = post] that
      nibble_pack [of j "map fst (frame_track frame)"] frame_track_facts [OF assms(1)]
    by (simp add: frame_track_def)
  from decode_samples_track [OF _ initial_step_index_int this]
  have dec: "decode_samples ?e (length pre + 8) ?k 1 ?p ?i out' =
      Ok (out' @ concat (map (\<lambda>(c, q). i16_le (of_int q)) (frame_track frame)))" for out'
    by (simp add: frame_track_def)
  have p: "of_int ?p = hd frame" by simp
  show ?thesis
    unfolding decode_frames.simps(2) Let_def EIAD_FRAME_HEADER_BYTES_def hdr(1-5) hdr(6) [OF TrueI] and_then_simps
      i16_from_le_bytes fs dec len p
    by (simp add: heard_frame_def comp_def case_prod_unfold)
qed

lemma decode_encoded_frames:
  assumes "framed EIAD_FRAME_SAMPLES frames"
  shows "decode_frames (pre @ concat (map (frame_bytes True) frames)) (length frames) (length pre) out =
    Ok (out @ concat (map i16_le (concat (map heard_frame frames))))"
  using assms
proof (induction frames arbitrary: pre out)
  case (Cons f fs)
  have f: "f \<noteq> []" "length f \<le> EIAD_FRAME_SAMPLES"
    using framed_set [OF Cons.prems, of f] by (simp_all add: audio_consts)
  have "framed EIAD_FRAME_SAMPLES fs" using Cons.prems by (cases fs) auto
  from Cons.IH [OF this, of "pre @ frame_bytes True f"]
  show ?case
    using decode_encoded_frame [OF f, of pre "concat (map (frame_bytes True) fs)"] by (simp del: decode_frames.simps)
qed simp

section \<open>Containers\<close>

lemma validate_pcm_Ok:
  "validate_pcm pcm = Ok n \<longleftrightarrow> length pcm = 2 * n \<and> 0 < n \<and> n \<le> 7200000"
  by (auto simp: validate_pcm_def audio_consts Let_def elim!: evenE intro!: gr0I simp flip: even_iff_mod_2_eq_zero)

lemma length_pcm_samples: "length (pcm_samples pcm) = length pcm div 2"
  by (induction pcm rule: pcm_samples.induct) auto

lemma all_ok_Ok: "all_ok cs = Ok () \<longleftrightarrow> (\<forall>c \<in> set cs. c = Ok ())"
  by (induction cs) (auto simp: and_then_Ok_iff)

lemma expect_Ok: "expect e r v = Ok () \<longleftrightarrow> r = Ok v"
  by (cases r) (auto simp: expect_def guard_def)

lemma guard_Ok: "guard e b = Ok () \<longleftrightarrow> b"
  by (simp add: guard_def)

lemma get_u64_here: "n < 2 ^ 64 \<Longrightarrow> unat (get_u64 (nat_le 8 n @ r) 0) = n"
  by (simp add: get_u64_def slice_def le_nat_nat_le unat_of_nat)

definition eiad_header :: "nat \<Rightarrow> u32 \<Rightarrow> u8 list" where
  "eiad_header samples frame_count =
     EIAD @ u16_le EIAD_VERSION @ u16_le (of_nat EIAD_HEADER_BYTES) @ u32_le (of_nat TTS_SAMPLE_RATE) @
     u16_le 1 @ u16_le 4 @ u16_le (of_nat EIAD_FRAME_SAMPLES) @ u16_le (of_nat EIAD_FRAME_HEADER_BYTES) @
     nat_le 8 samples @ u32_le frame_count"

lemma length_EIAD [simp]: "length EIAD = 4" by (simp add: EIAD_def)

lemma length_eiad_header [simp]: "length (eiad_header t f) = 32"
  by (simp add: eiad_header_def EIAD_def)

lemma eiad_header_checks:
  assumes "n < 2 ^ 64"
  shows "all_ok
       [guard InvalidEiad (\<not> length (eiad_header n f @ r) < EIAD_HEADER_BYTES),
        guard InvalidEiad (slice 0 4 (eiad_header n f @ r) = EIAD),
        expect InvalidEiad (read_u16 (eiad_header n f @ r) 4) EIAD_VERSION,
        expect InvalidEiad (read_u16 (eiad_header n f @ r) 6) (of_nat EIAD_HEADER_BYTES),
        expect InvalidEiad (read_u32 (eiad_header n f @ r) 8) (of_nat TTS_SAMPLE_RATE),
        expect InvalidEiad (read_u16 (eiad_header n f @ r) 12) 1,
        expect InvalidEiad (read_u16 (eiad_header n f @ r) 14) 4,
        expect InvalidEiad (read_u16 (eiad_header n f @ r) 16) (of_nat EIAD_FRAME_SAMPLES),
        expect InvalidEiad (read_u16 (eiad_header n f @ r) 18) (of_nat EIAD_FRAME_HEADER_BYTES)] = Ok ()"
    "\<exists>s. read_u64 (eiad_header n f @ r) 20 = Ok s \<and> unat s = n" "read_u32 (eiad_header n f @ r) 28 = Ok f"
proof -
  define h where "h = eiad_header n f @ r"
  have len: "length h \<ge> 32" by (simp add: h_def)
  have tag: "slice 0 4 h = EIAD" by (simp add: h_def eiad_header_def EIAD_def slice_def)
  have f: "get_u16 h 4 = EIAD_VERSION" "get_u16 h 6 = of_nat EIAD_HEADER_BYTES" "get_u32 h 8 = of_nat TTS_SAMPLE_RATE"
    "get_u16 h 12 = 1" "get_u16 h 14 = 4" "get_u16 h 16 = of_nat EIAD_FRAME_SAMPLES"
    "get_u16 h 18 = of_nat EIAD_FRAME_HEADER_BYTES" "unat (get_u64 h 20) = n" "get_u32 h 28 = f"
    using assms unfolding h_def eiad_header_def append_assoc
    by (simp_all add: get_append get_u16_here get_u32_here get_u64_here)
  show "all_ok
       [guard InvalidEiad (\<not> length (eiad_header n f @ r) < EIAD_HEADER_BYTES),
        guard InvalidEiad (slice 0 4 (eiad_header n f @ r) = EIAD),
        expect InvalidEiad (read_u16 (eiad_header n f @ r) 4) EIAD_VERSION,
        expect InvalidEiad (read_u16 (eiad_header n f @ r) 6) (of_nat EIAD_HEADER_BYTES),
        expect InvalidEiad (read_u32 (eiad_header n f @ r) 8) (of_nat TTS_SAMPLE_RATE),
        expect InvalidEiad (read_u16 (eiad_header n f @ r) 12) 1,
        expect InvalidEiad (read_u16 (eiad_header n f @ r) 14) 4,
        expect InvalidEiad (read_u16 (eiad_header n f @ r) 16) (of_nat EIAD_FRAME_SAMPLES),
        expect InvalidEiad (read_u16 (eiad_header n f @ r) 18) (of_nat EIAD_FRAME_HEADER_BYTES)] = Ok ()"
    unfolding h_def [symmetric] all_ok_Ok using len f tag
    by (simp add: guard_Ok expect_Ok read_u16_def read_u32_def EIAD_HEADER_BYTES_def)
  show "\<exists>s. read_u64 (eiad_header n f @ r) 20 = Ok s \<and> unat s = n" "read_u32 (eiad_header n f @ r) 28 = Ok f"
    unfolding h_def [symmetric] using len f by (simp_all add: read_u64_def read_u32_def)
qed

text \<open>The bytes \<open>encode_eiad\<close> writes.\<close>

definition eiad_of :: "i16 list \<Rightarrow> u8 list" where
  "eiad_of samples = eiad_header (length samples) (of_nat (div_ceil (length samples) EIAD_FRAME_SAMPLES)) @
     concat (map (frame_bytes True) (chunks EIAD_FRAME_SAMPLES samples))"

lemma chunk_frames:
  assumes "n \<in> {EIAD_FRAME_SAMPLES, DEVICE_EIAD_FRAME_SAMPLES}" "f \<in> set (chunks n xs)"
  shows "f \<noteq> [] \<and> length f \<le> n \<and> length f < 65536"
proof -
  have "0 < n" "n < 65536" using assms(1) by (auto simp: audio_consts)
  then show ?thesis using framed_set [OF conjunct1 [OF chunks_framed], of n f xs] assms(2) by auto
qed

lemma encode_eiad_bytes:
  assumes "validate_pcm pcm = Ok n"
  shows "encode_eiad pcm = Ok (eiad_of (pcm_samples pcm))" "length (pcm_samples pcm) = n"
proof -
  have n: "length pcm = 2 * n" "n \<le> 7200000" using assms by (auto simp: validate_pcm_Ok)
  then show len: "length (pcm_samples pcm) = n" by (simp add: length_pcm_samples)
  have "div_ceil n EIAD_FRAME_SAMPLES \<le> u32_max" using n(2) by (simp add: div_ceil_def audio_consts u32_max_def)
  moreover have "encode_frames True (chunks EIAD_FRAME_SAMPLES (pcm_samples pcm)) out =
      Ok (out @ concat (map (frame_bytes True) (chunks EIAD_FRAME_SAMPLES (pcm_samples pcm))))" for out
    using chunk_frames [of EIAD_FRAME_SAMPLES] by (intro encode_frames_bytes) blast
  ultimately show "encode_eiad pcm = Ok (eiad_of (pcm_samples pcm))"
    using assms len by (simp add: encode_eiad_def try_u32_def eiad_of_def eiad_header_def)
qed

lemma inspect_eiad_of:
  assumes "0 < length xs" "length xs \<le> 7200000"
  shows "inspect_eiad (eiad_of xs) = Ok \<lparr> em_sample_rate = TTS_SAMPLE_RATE, em_samples = length xs,
      em_frames = div_ceil (length xs) EIAD_FRAME_SAMPLES \<rparr>"
proof -
  let ?n = "length xs" and ?fs = "chunks EIAD_FRAME_SAMPLES xs"
  let ?f = "of_nat (div_ceil ?n EIAD_FRAME_SAMPLES) :: u32"
  let ?r = "concat (map (frame_bytes True) ?fs)"
  have big: "?n < 2 ^ 64" using assms(2) by simp
  note hdr = eiad_header_checks [OF big, of ?f ?r]
  obtain s where s: "read_u64 (eiad_header ?n ?f @ ?r) 20 = Ok s" "unat s = ?n" using hdr(2) by blast
  have ch: "framed EIAD_FRAME_SAMPLES ?fs" "concat ?fs = xs" "length ?fs = div_ceil ?n EIAD_FRAME_SAMPLES"
    using chunks_framed [of EIAD_FRAME_SAMPLES xs] by (simp_all add: EIAD_FRAME_SAMPLES_def)
  have "div_ceil ?n EIAD_FRAME_SAMPLES \<le> 7500" using assms(2) by (simp add: div_ceil_def audio_consts)
  then have f: "unat ?f = div_ceil ?n EIAD_FRAME_SAMPLES" by (simp add: unat_of_nat)
  have "inspect_frames (eiad_header ?n ?f @ ?r) ?n (length ?fs) (length (eiad_header ?n ?f)) 0 =
      Ok (length (eiad_header ?n ?f @ ?r), ?n)"
    by (intro inspect_encoded_frames ch(1)) (simp only: ch(2) add_0)
  then have loop: "inspect_frames (eiad_header ?n ?f @ ?r) ?n (div_ceil ?n EIAD_FRAME_SAMPLES) EIAD_HEADER_BYTES 0 =
      Ok (length (eiad_header ?n ?f @ ?r), ?n)"
    by (simp only: ch(3) length_eiad_header EIAD_HEADER_BYTES_def)
  have "\<not> (?n = 0 \<or> ?n > TTS_SAMPLE_RATE * MAX_TTS_SECONDS \<or>
      div_ceil ?n EIAD_FRAME_SAMPLES \<noteq> div_ceil ?n EIAD_FRAME_SAMPLES)"
    using assms by (simp add: TTS_SAMPLE_RATE_def MAX_TTS_SECONDS_def)
  then show ?thesis
    unfolding inspect_eiad_def eiad_of_def hdr(1) hdr(3) s(1) and_then_simps Let_def f s(2) by (simp add: loop)
qed

lemma decode_eiad_of:
  assumes "0 < length xs" "length xs \<le> 7200000"
  shows "decode_eiad (eiad_of xs) = Ok (concat (map i16_le (concat (map heard_frame (chunks EIAD_FRAME_SAMPLES xs)))))"
proof -
  have ch: "framed EIAD_FRAME_SAMPLES (chunks EIAD_FRAME_SAMPLES xs)"
      "length (chunks EIAD_FRAME_SAMPLES xs) = div_ceil (length xs) EIAD_FRAME_SAMPLES"
    using chunks_framed [of EIAD_FRAME_SAMPLES xs] by (simp_all add: EIAD_FRAME_SAMPLES_def)
  let ?h = "eiad_header (length xs) (of_nat (div_ceil (length xs) EIAD_FRAME_SAMPLES))"
  have "EIAD_HEADER_BYTES = length ?h" by (simp add: EIAD_HEADER_BYTES_def)
  then show ?thesis
    using decode_encoded_frames [OF ch(1), of ?h "[]"]
    unfolding decode_eiad_def inspect_eiad_of [OF assms] unfolding eiad_of_def
    by (simp add: ch(2) del: length_eiad_header)
qed

section \<open>Decoding any input\<close>

lemma nibble_range: "unat (if k mod 2 \<noteq> 0 then (b :: u8) AND 0x0F else drop_bit 4 b) < 16"
proof -
  have "unat (b AND 0x0F) < 16" by (simp add: and_mask4 small_nibble)
  moreover have "take_bit 4 (drop_bit 4 b) = drop_bit 4 b"
    by (rule bit_word_eqI) (auto simp: bit_simps dest: bit_imp_le_length)
  then have "unat (drop_bit 4 b) < 16" by (simp only: small_nibble)
  ultimately show ?thesis by simp
qed

lemma decode_samples_total:
  assumes "0 \<le> i" "i \<le> 88" "off + (k + n) div 2 \<le> length eiad" "0 < k"
  shows "\<exists>out'. decode_samples eiad off n k p i out = Ok out' \<and> length out' = length out + 2 * n"
  using assms
proof (induction n arbitrary: k p i out)
  case (Suc n)
  have "off + (k - 1) div 2 < length eiad" using Suc.prems(3,4) by (cases k) auto
  then have b: "byte_at eiad (off + (k - 1) div 2) = Ok (eiad ! (off + (k - 1) div 2))" by (simp add: byte_at_def)
  obtain p' i' where d: "decode_ima_sample (if k mod 2 \<noteq> 0 then eiad ! (off + (k - 1) div 2) AND 0x0F
      else drop_bit 4 (eiad ! (off + (k - 1) div 2))) p i = Ok (p', i')" "0 \<le> i'" "i' \<le> 88"
    using decode_ima_sample_ok [OF Suc.prems(1,2) nibble_range] by metis
  have "off + (k + 1 + n) div 2 \<le> length eiad" using Suc.prems(3) by simp
  from Suc.IH [OF d(2,3) this, of p' "out @ i16_le (of_int p')"]
  obtain out' where "decode_samples eiad off n (k + 1) p' i' (out @ i16_le (of_int p')) = Ok out'"
      "length out' = length out + 2 * Suc n" by auto
  then show ?case unfolding decode_samples.simps b and_then_simps Let_def d(1) by simp
qed simp

lemma inspect_frames_Suc:
  assumes "inspect_frames eiad samples (Suc n) off counted = Ok r"
  obtains fs pb si where "read_u16 eiad off = Ok fs" "byte_at eiad (off + 4) = Ok si" "read_u16 eiad (off + 6) = Ok pb"
    "0 < unat fs" "unat fs \<le> EIAD_FRAME_SAMPLES" "unat si \<le> 88" "unat pb = div_ceil (unat fs - 1) 2"
    "off + 8 + unat pb \<le> length eiad" "inspect_frames eiad samples n (off + 8 + unat pb) (counted + unat fs) = Ok r"
  using assms by (auto simp: and_then_Ok_iff EIAD_FRAME_HEADER_BYTES_def Let_def not_less guard_def split: if_splits)

lemma inspected_frames_decode:
  assumes "inspect_frames eiad samples n off counted = Ok (off', counted')"
  shows "\<exists>out'. decode_frames eiad n off out = Ok out' \<and> counted \<le> counted' \<and>
    length out' = length out + 2 * (counted' - counted)"
  using assms
proof (induction n arbitrary: off counted out)
  case (Suc n)
  from Suc.prems obtain fs pb si where f: "read_u16 eiad off = Ok fs" "byte_at eiad (off + 4) = Ok si"
      "read_u16 eiad (off + 6) = Ok pb" "0 < unat fs" "unat fs \<le> EIAD_FRAME_SAMPLES" "unat si \<le> 88"
      "unat pb = div_ceil (unat fs - 1) 2" "off + 8 + unat pb \<le> length eiad"
      "inspect_frames eiad samples n (off + 8 + unat pb) (counted + unat fs) = Ok (off', counted')"
    by (rule inspect_frames_Suc)
  have b: "byte_at eiad (off + 2) = Ok (eiad ! (off + 2))" "byte_at eiad (off + 3) = Ok (eiad ! (off + 3))"
    using f(8) by (simp_all add: byte_at_def)
  let ?p = "sint (i16_from_le (eiad ! (off + 2)) (eiad ! (off + 3)))"
  have si: "int (unat si) \<le> 88"
  proof -
    have "int (unat si) \<le> int 88" using f(6) by (simp only: of_nat_le_iff)
    then show ?thesis by simp
  qed
  have bound: "off + 8 + (1 + (unat fs - 1)) div 2 \<le> length eiad" using f(4,7,8) by (simp add: div_ceil_def)
  obtain out1 where o: "decode_samples eiad (off + 8) (unat fs - 1) 1 ?p (int (unat si)) (out @ i16_le (of_int ?p)) = Ok out1"
      "length out1 = length out + 2 + 2 * (unat fs - 1)"
    using decode_samples_total [OF _ si bound, of ?p "out @ i16_le (of_int ?p)"] by auto
  obtain out2 where "decode_frames eiad n (off + 8 + unat pb) out1 = Ok out2" "counted + unat fs \<le> counted'"
      "length out2 = length out1 + 2 * (counted' - (counted + unat fs))"
    using Suc.IH [OF f(9), of out1] by blast
  then show ?case
    unfolding decode_frames.simps f(1-3) b and_then_simps Let_def EIAD_FRAME_HEADER_BYTES_def o(1)
    using o(2) f(4) by auto
qed simp

lemma inspect_eiad_Ok:
  assumes "inspect_eiad eiad = Ok m"
  shows "inspect_frames eiad (em_samples m) (em_frames m) EIAD_HEADER_BYTES 0 = Ok (length eiad, em_samples m)"
    "0 < em_samples m" "em_samples m \<le> 7200000" "em_frames m = div_ceil (em_samples m) EIAD_FRAME_SAMPLES"
    "em_sample_rate m = TTS_SAMPLE_RATE"
  using assms
  by (auto simp: inspect_eiad_def and_then_Ok_iff Let_def TTS_SAMPLE_RATE_def MAX_TTS_SECONDS_def simp del: all_ok.simps
      split: if_splits)

lemma inspected_decodes:
  assumes "inspect_eiad eiad = Ok m"
  obtains pcm where "decode_eiad eiad = Ok pcm" "length pcm = 2 * em_samples m"
  using inspected_frames_decode [OF inspect_eiad_Ok(1) [OF assms], of "[]"] that assms by (auto simp: decode_eiad_def)

text \<open>Panics.\<close>

lemma read_no_panic: "read_u16 b i \<noteq> Err Panic" "read_u32 b i \<noteq> Err Panic" "read_u64 b i \<noteq> Err Panic"
  by (simp_all add: read_u16_def read_u32_def read_u64_def)

lemma and_then_Err_iff:
  "and_then r f = Inl e \<longleftrightarrow> r = Inl e \<or> (\<exists>x. r = Inr x \<and> f x = Inl e)"
  by (cases r) auto

lemma inspect_frames_no_panic:
  assumes "0 < n \<Longrightarrow> counted + EIAD_FRAME_SAMPLES * (n - 1) < samples"
  shows "inspect_frames eiad samples n off counted \<noteq> Err Panic"
  using assms
proof (induction n arbitrary: off counted)
  case (Suc n)
  show ?case
  proof
    assume p: "inspect_frames eiad samples (Suc n) off counted = Err Panic"
    from p obtain fs where "\<not> off + 8 > length eiad" "read_u16 eiad off = Ok fs"
        "n \<noteq> 0 \<Longrightarrow> unat fs = EIAD_FRAME_SAMPLES"
        "\<exists>off'. inspect_frames eiad samples n off' (counted + unat fs) = Err Panic"
      using Suc.prems
      by (auto simp: and_then_Err_iff read_no_panic byte_at_def EIAD_FRAME_HEADER_BYTES_def guard_def Let_def
          not_less split: if_splits; blast)
    moreover have "counted + unat fs + EIAD_FRAME_SAMPLES * (n - 1) < samples" if "0 < n"
      using Suc.prems that calculation(3) by (cases n) (auto simp: algebra_simps)
    ultimately show False using Suc.IH [of "counted + unat fs"] by blast
  qed
qed simp

lemma div_ceil_bound: "0 < n \<Longrightarrow> 0 < m \<Longrightarrow> n * (div_ceil m n - 1) < m"
proof -
  assume "0 < n" "0 < m"
  then have "m + n - 1 = (m - 1) + n" by simp
  then have "div_ceil m n = ((m - 1) + n) div n" by (simp only: div_ceil_def)
  then have "div_ceil m n - 1 = (m - 1) div n" using \<open>0 < n\<close> by (metis div_add_self2 diff_add_inverse2 less_numeral_extra(3))
  then have "n * (div_ceil m n - 1) \<le> m - 1" by simp
  with \<open>0 < m\<close> show ?thesis by simp
qed

lemma inspect_eiad_no_panic: "inspect_eiad eiad \<noteq> Err Panic"
proof
  assume p: "inspect_eiad eiad = Err Panic"
  have hdr: "all_ok
       [guard InvalidEiad (\<not> length eiad < EIAD_HEADER_BYTES),
        guard InvalidEiad (slice 0 4 eiad = EIAD),
        expect InvalidEiad (read_u16 eiad 4) EIAD_VERSION,
        expect InvalidEiad (read_u16 eiad 6) (of_nat EIAD_HEADER_BYTES),
        expect InvalidEiad (read_u32 eiad 8) (of_nat TTS_SAMPLE_RATE),
        expect InvalidEiad (read_u16 eiad 12) 1,
        expect InvalidEiad (read_u16 eiad 14) 4,
        expect InvalidEiad (read_u16 eiad 16) (of_nat EIAD_FRAME_SAMPLES),
        expect InvalidEiad (read_u16 eiad 18) (of_nat EIAD_FRAME_HEADER_BYTES)] \<noteq> Err Panic"
    by (auto simp: and_then_Err_iff read_no_panic guard_def expect_def)
  obtain samples where s: "0 < samples"
      "inspect_frames eiad samples (div_ceil samples EIAD_FRAME_SAMPLES) EIAD_HEADER_BYTES 0 = Err Panic"
    using p hdr by (auto simp: inspect_eiad_def and_then_Err_iff read_no_panic Let_def simp del: all_ok.simps split: if_splits)
  have "0 + EIAD_FRAME_SAMPLES * (div_ceil samples EIAD_FRAME_SAMPLES - 1) < samples"
    using div_ceil_bound [of EIAD_FRAME_SAMPLES samples] s(1) by (simp add: EIAD_FRAME_SAMPLES_def)
  with s(2) show False using inspect_frames_no_panic by blast
qed

section \<open>The container of the keyboard\<close>

definition device_header :: "u16 \<Rightarrow> u32 \<Rightarrow> u8 list" where
  "device_header frame_count samples =
     EIAD @ [1, 1] @ u32_le (of_nat TTS_SAMPLE_RATE) @ u16_le (of_nat DEVICE_EIAD_FRAME_SAMPLES) @
     u16_le frame_count @ u32_le samples @ u16_le (of_nat DEVICE_EIAD_HEADER_BYTES)"

lemma length_device_header [simp]: "length (device_header f s) = 20"
  by (simp add: device_header_def)

lemma get_u32_drop2: "2 \<le> off \<Longrightarrow> get_u32 (x # y # ys) off = get_u32 ys (off - 2)"
  by (auto simp: get_u32_def slice_drop2 le_iff_add)

lemma device_header_checks:
  fixes r :: "u8 list" and f :: u16 and s :: u32
  defines "h \<equiv> device_header f s @ r"
  shows "length h \<ge> 20" "slice 0 4 h = EIAD" "byte_at h 4 = Ok 1" "byte_at h 5 = Ok 1"
    "read_u32 h 6 = Ok (of_nat TTS_SAMPLE_RATE)" "read_u16 h 10 = Ok (of_nat DEVICE_EIAD_FRAME_SAMPLES)"
    "read_u16 h 12 = Ok f" "read_u32 h 14 = Ok s" "read_u16 h 18 = Ok (of_nat DEVICE_EIAD_HEADER_BYTES)"
proof -
  show len: "length h \<ge> 20" by (simp add: h_def)
  show "slice 0 4 h = EIAD" by (simp add: h_def device_header_def EIAD_def slice_def)
  have "h ! 4 = 1" "h ! 5 = 1" by (simp_all add: h_def device_header_def EIAD_def)
  then show "byte_at h 4 = Ok 1" "byte_at h 5 = Ok 1" using len by (simp_all add: byte_at_def)
  show "read_u32 h 6 = Ok (of_nat TTS_SAMPLE_RATE)" "read_u16 h 10 = Ok (of_nat DEVICE_EIAD_FRAME_SAMPLES)"
    "read_u16 h 12 = Ok f" "read_u32 h 14 = Ok s" "read_u16 h 18 = Ok (of_nat DEVICE_EIAD_HEADER_BYTES)"
    using len unfolding read_u16_def read_u32_def
    by (simp_all add: h_def device_header_def get_append get_drop2 get_u32_drop2 get_u16_here get_u32_here)
qed

lemma inspect_device_encoded_frame:
  assumes "frame \<noteq> []" "length frame \<le> DEVICE_EIAD_FRAME_SAMPLES"
    "length frame = (if n = 0 then samples - counted else DEVICE_EIAD_FRAME_SAMPLES)" "counted \<le> samples"
  shows "inspect_device_frames (pre @ frame_bytes False frame @ post) samples (Suc n) (length pre) counted =
    inspect_device_frames (pre @ frame_bytes False frame @ post) samples n (length (pre @ frame_bytes False frame))
      (counted + length frame)"
proof -
  let ?e = "pre @ frame_bytes False frame @ post" and ?k = "length frame - 1"
  have small: "length frame < 65536" using assms(2) by (simp add: audio_consts)
  note hdr = frame_bytes_header [OF assms(1) small, where pre = pre and post = post and layout = False]
  have len: "length (pre @ frame_bytes False frame) = length pre + 6 + div_ceil ?k 2"
    using assms(1) by (cases frame) (simp_all add: length_frame_bytes div_ceil_def)
  have fs: "unat (of_nat (length frame) :: u16) = length frame" using small by (simp add: unat_of_nat)
  have ex: "(if n = 0 then (if counted \<le> samples then Ok (samples - counted) else Err Panic)
      else Ok DEVICE_EIAD_FRAME_SAMPLES) = (Ok (length frame) :: audio_error + nat)"
    using assms(3,4) by auto
  have "\<not> (length frame \<noteq> length frame \<or> length frame = 0 \<or>
      unat (initial_step_index (hd frame) (tl frame)) > 88 \<or> (0 :: u8) \<noteq> 0)"
    using assms(1) initial_step_index_range [of "hd frame" "tl frame"] by simp
  moreover have "\<not> length pre + 6 > length ?e" "\<not> length pre + 6 + div_ceil ?k 2 > length ?e" using len by simp_all
  ultimately show ?thesis
    unfolding inspect_device_frames.simps(2) Let_def DEVICE_EIAD_FRAME_HEADER_BYTES_def hdr(1,4,5) and_then_simps fs ex len
    by (simp only: if_False)
qed

lemma inspect_device_encoded_frames:
  assumes "framed DEVICE_EIAD_FRAME_SAMPLES frames" "counted + length (concat frames) = samples"
  shows "inspect_device_frames (pre @ concat (map (frame_bytes False) frames)) samples (length frames) (length pre) counted =
    Ok (length (pre @ concat (map (frame_bytes False) frames)), samples)"
  using assms
proof (induction frames arbitrary: pre counted)
  case (Cons f fs)
  have f: "f \<noteq> []" "length f \<le> DEVICE_EIAD_FRAME_SAMPLES"
    using framed_set [OF Cons.prems(1), of f] by (simp_all add: audio_consts)
  have n: "length f = (if length fs = 0 then samples - counted else DEVICE_EIAD_FRAME_SAMPLES)" "counted \<le> samples"
    using Cons.prems by (cases fs; auto)+
  have "framed DEVICE_EIAD_FRAME_SAMPLES fs" using Cons.prems(1) by (cases fs) auto
  from Cons.IH [OF this, of "counted + length f" "pre @ frame_bytes False f"] Cons.prems(2)
  show ?case
    using inspect_device_encoded_frame [OF f n, of pre "concat (map (frame_bytes False) fs)"]
    by (simp del: inspect_device_frames.simps)
qed simp

definition device_of :: "i16 list \<Rightarrow> u8 list" where
  "device_of xs = device_header (of_nat (div_ceil (length xs) DEVICE_EIAD_FRAME_SAMPLES)) (of_nat (length xs)) @
     concat (map (frame_bytes False) (chunks DEVICE_EIAD_FRAME_SAMPLES xs))"

lemma inspect_device_of:
  assumes "0 < length xs" "length xs \<le> 7200000"
  shows "inspect_device_eiad (device_of xs) = Ok \<lparr> em_sample_rate = TTS_SAMPLE_RATE, em_samples = length xs,
      em_frames = div_ceil (length xs) DEVICE_EIAD_FRAME_SAMPLES \<rparr>"
proof -
  let ?n = "length xs" and ?fs = "chunks DEVICE_EIAD_FRAME_SAMPLES xs"
  let ?f = "of_nat (div_ceil ?n DEVICE_EIAD_FRAME_SAMPLES) :: u16"
  let ?h = "device_header ?f (of_nat ?n)" and ?r = "concat (map (frame_bytes False) ?fs)"
  note hdr = device_header_checks [where f = ?f and s = "of_nat ?n" and r = ?r]
  have ch: "framed DEVICE_EIAD_FRAME_SAMPLES ?fs" "concat ?fs = xs" "length ?fs = div_ceil ?n DEVICE_EIAD_FRAME_SAMPLES"
    using chunks_framed [of DEVICE_EIAD_FRAME_SAMPLES xs] by (simp_all add: DEVICE_EIAD_FRAME_SAMPLES_def)
  have "div_ceil ?n DEVICE_EIAD_FRAME_SAMPLES \<le> 15000" using assms(2) by (simp add: div_ceil_def audio_consts)
  then have f: "unat ?f = div_ceil ?n DEVICE_EIAD_FRAME_SAMPLES" "unat (of_nat ?n :: u32) = ?n"
    using assms(2) by (simp_all add: unat_of_nat)
  have "inspect_device_frames (?h @ ?r) ?n (length ?fs) (length ?h) 0 = Ok (length (?h @ ?r), ?n)"
    by (intro inspect_device_encoded_frames ch(1)) (simp only: ch(2) add_0)
  then have loop: "inspect_device_frames (?h @ ?r) ?n (div_ceil ?n DEVICE_EIAD_FRAME_SAMPLES) DEVICE_EIAD_HEADER_BYTES 0 =
      Ok (length (?h @ ?r), ?n)"
    by (simp only: ch(3) length_device_header DEVICE_EIAD_HEADER_BYTES_def)
  have "all_ok
       [guard InvalidEiad (\<not> length (?h @ ?r) < DEVICE_EIAD_HEADER_BYTES),
        guard InvalidEiad (slice 0 4 (?h @ ?r) = EIAD),
        expect InvalidEiad (byte_at (?h @ ?r) 4) 1,
        expect InvalidEiad (byte_at (?h @ ?r) 5) 1,
        expect InvalidEiad (read_u32 (?h @ ?r) 6) (of_nat TTS_SAMPLE_RATE),
        expect InvalidEiad (read_u16 (?h @ ?r) 10) (of_nat DEVICE_EIAD_FRAME_SAMPLES),
        expect InvalidEiad (read_u16 (?h @ ?r) 18) (of_nat DEVICE_EIAD_HEADER_BYTES)] = Ok ()"
    unfolding all_ok_Ok using hdr by (simp add: guard_Ok expect_Ok DEVICE_EIAD_HEADER_BYTES_def)
  moreover have "\<not> (?n = 0 \<or> ?n > TTS_SAMPLE_RATE * MAX_TTS_SECONDS \<or>
      div_ceil ?n DEVICE_EIAD_FRAME_SAMPLES \<noteq> div_ceil ?n DEVICE_EIAD_FRAME_SAMPLES)"
    using assms by (simp add: TTS_SAMPLE_RATE_def MAX_TTS_SECONDS_def)
  ultimately show ?thesis
    unfolding inspect_device_eiad_def device_of_def hdr(7,8) Let_def and_then_simps f
    by (simp add: loop del: all_ok.simps)
qed

lemma length_device_frames:
  "framed DEVICE_EIAD_FRAME_SAMPLES fs \<Longrightarrow>
   length (concat (map (frame_bytes False) fs)) \<le> 6 * length fs + length (concat fs) div 2"
proof (induction fs)
  case (Cons f fs)
  have "f \<noteq> []" using framed_set [OF Cons.prems, of f] by (simp add: audio_consts)
  moreover have "framed DEVICE_EIAD_FRAME_SAMPLES fs" using Cons.prems by (cases fs) auto
  ultimately show ?case using Cons.IH by (simp add: length_frame_bytes)
qed simp

lemma length_device_of:
  assumes "length xs \<le> 7200000"
  shows "length (device_of xs) \<le> 3690020"
proof -
  have ch: "framed DEVICE_EIAD_FRAME_SAMPLES (chunks DEVICE_EIAD_FRAME_SAMPLES xs)"
      "concat (chunks DEVICE_EIAD_FRAME_SAMPLES xs) = xs"
      "length (chunks DEVICE_EIAD_FRAME_SAMPLES xs) = div_ceil (length xs) DEVICE_EIAD_FRAME_SAMPLES"
    using chunks_framed [of DEVICE_EIAD_FRAME_SAMPLES xs] by (simp_all add: DEVICE_EIAD_FRAME_SAMPLES_def)
  have "div_ceil (length xs) DEVICE_EIAD_FRAME_SAMPLES \<le> 15000" using assms by (simp add: div_ceil_def audio_consts)
  with length_device_frames [OF ch(1)] ch(2,3) assms show ?thesis by (simp add: device_of_def)
qed

lemma transcode_decoded:
  assumes "decode_eiad eiad = Ok pcm" "length pcm = 2 * n" "0 < n" "n \<le> 7200000"
  shows "transcode_eiad_for_device eiad = Ok (device_of (pcm_samples pcm))" "length (pcm_samples pcm) = n"
proof -
  show len: "length (pcm_samples pcm) = n" using assms(2) by (simp add: length_pcm_samples)
  have v: "validate_pcm pcm = Ok n" using assms by (simp add: validate_pcm_Ok)
  have t: "try_u16 (div_ceil n DEVICE_EIAD_FRAME_SAMPLES) = Ok (of_nat (div_ceil n DEVICE_EIAD_FRAME_SAMPLES))"
      "try_u32 n = Ok (of_nat n)"
    using assms(4) by (simp_all add: try_u16_def try_u32_def div_ceil_def audio_consts u32_max_def)
  have "encode_frames False (chunks DEVICE_EIAD_FRAME_SAMPLES (pcm_samples pcm)) out =
      Ok (out @ concat (map (frame_bytes False) (chunks DEVICE_EIAD_FRAME_SAMPLES (pcm_samples pcm))))" for out
    using chunk_frames [of DEVICE_EIAD_FRAME_SAMPLES] by (intro encode_frames_bytes) blast
  then have "encode_frames False (chunks DEVICE_EIAD_FRAME_SAMPLES (pcm_samples pcm))
         (EIAD @ [1, 1] @ u32_le (of_nat TTS_SAMPLE_RATE) @ u16_le (of_nat DEVICE_EIAD_FRAME_SAMPLES) @
          u16_le (of_nat (div_ceil n DEVICE_EIAD_FRAME_SAMPLES)) @ u32_le (of_nat n) @ u16_le (of_nat DEVICE_EIAD_HEADER_BYTES)) =
      Ok (device_of (pcm_samples pcm))"
    using len by (simp add: device_of_def device_header_def)
  then show "transcode_eiad_for_device eiad = Ok (device_of (pcm_samples pcm))"
    unfolding transcode_eiad_for_device_def assms(1) v and_then_simps t
    using inspect_device_of [of "pcm_samples pcm"] len assms(3,4) by simp
qed

section \<open>Properties\<close>

lemma wav_roundtrip:
  assumes "validate_pcm pcm = Ok n"
  obtains wav where "encode_wav pcm = Ok wav" "decode_wav wav = Ok pcm"
proof -
  have n: "length pcm = 2 * n" "0 < n" "n \<le> 7200000" using assms by (auto simp: validate_pcm_Ok)
  have lp: "length pcm \<le> 14400000" using n by simp
  let ?d = "of_nat (length pcm) :: u32" and ?r = "of_nat (length pcm + 36) :: u32"
  define tail where "tail = u32_le ?d @ pcm"
  define fmt where "fmt = u32_le 16 @ u16_le 1 @ u16_le 1 @ u32_le (of_nat TTS_SAMPLE_RATE) @
      u32_le (of_nat (TTS_SAMPLE_RATE * 2)) @ u16_le 2 @ u16_le 16 @ data_tag @ tail"
  define wav where "wav = RIFF @ u32_le ?r @ WAVEfmt @ fmt"
  have u: "unat ?d = length pcm" unfolding unat_of_nat using n by simp
  have enc: "encode_wav pcm = Ok wav"
    using lp assms by (simp add: encode_wav_def try_u32_def u32_max_def u TTS_SAMPLE_RATE_def wav_def fmt_def tail_def)
  have lt: "length RIFF = 4" "length WAVEfmt = 8" "length data_tag = 4" by (simp_all add: audio_tags)
  have len: "length wav = 44 + length pcm" by (simp add: wav_def fmt_def tail_def lt)
  have slices: "slice 0 4 wav = RIFF" "slice 8 16 wav = WAVEfmt" "slice 36 40 wav = data_tag"
    by (simp_all add: wav_def fmt_def slice_append_right lt) (simp_all add: slice_def lt)
  have fields: "get_u32 wav 16 = 16" "get_u16 wav 20 = 1" "get_u16 wav 22 = 1" "get_u32 wav 24 = of_nat TTS_SAMPLE_RATE"
    "get_u32 wav 28 = of_nat (TTS_SAMPLE_RATE * 2)" "get_u16 wav 32 = 2" "get_u16 wav 34 = 16"
    "get_u32 wav 4 = ?r" "get_u32 wav 40 = ?d"
    by (simp_all add: wav_def fmt_def tail_def get_append lt get_u16_here get_u32_here)
  have dropped: "drop WAV_HEADER_BYTES wav = pcm"
    by (simp add: wav_def fmt_def tail_def lt WAV_HEADER_BYTES_def)
  have hdr: "all_ok
       [guard InvalidWav (\<not> length wav < WAV_HEADER_BYTES),
        guard InvalidWav (slice 0 4 wav = RIFF),
        guard InvalidWav (slice 8 16 wav = WAVEfmt),
        expect InvalidWav (read_u32 wav 16) 16,
        expect InvalidWav (read_u16 wav 20) 1,
        expect InvalidWav (read_u16 wav 22) 1,
        expect InvalidWav (read_u32 wav 24) (of_nat TTS_SAMPLE_RATE),
        expect InvalidWav (read_u32 wav 28) (of_nat (TTS_SAMPLE_RATE * 2)),
        expect InvalidWav (read_u16 wav 32) 2,
        expect InvalidWav (read_u16 wav 34) 16,
        guard InvalidWav (slice 36 40 wav = data_tag)] = Ok ()"
    unfolding all_ok_Ok using len slices fields
    by (simp add: guard_Ok expect_Ok read_u16_def read_u32_def WAV_HEADER_BYTES_def)
  have "read_u32 wav 4 = Ok ?r" "read_u32 wav 40 = Ok ?d" using len fields by (simp_all add: read_u32_def)
  then have "decode_wav wav = Ok pcm"
    unfolding decode_wav_def hdr and_then_simps Let_def dropped
    using lp assms u len by (simp add: WAV_HEADER_BYTES_def try_u32_def u32_max_def add.commute del: of_nat_add)
  with enc show thesis by (rule that)
qed

text \<open>C30: Encoding synthesized speech never fails on PCM that passes the validation, and both
  artifacts are right: the WAV file decodes to the PCM itself, the EIAD container announces exactly
  its samples and frames and decodes, frame by frame, to the first sample and the sequence of
  predictors the encoder went through; on other PCM the error is the one of the validation.\<close>

theorem tts_audio_encodes:
  "case validate_pcm pcm of
     Inl e \<Rightarrow> encode_tts_audio pcm = Err e
   | Inr n \<Rightarrow> \<exists>a. encode_tts_audio pcm = Ok a \<and> aa_samples a = n \<and> aa_frames a = div_ceil n EIAD_FRAME_SAMPLES \<and>
       decode_wav (aa_wav a) = Ok pcm \<and>
       decode_eiad (aa_eiad a) =
         Ok (concat (map i16_le (concat (map heard_frame (chunks EIAD_FRAME_SAMPLES (pcm_samples pcm))))))"
proof (cases "validate_pcm pcm")
  case (Inr n)
  obtain wav where w: "encode_wav pcm = Ok wav" "decode_wav wav = Ok pcm" using wav_roundtrip [OF Inr] by blast
  note e = encode_eiad_bytes [OF Inr]
  have r: "0 < length (pcm_samples pcm)" "length (pcm_samples pcm) \<le> 7200000"
    using Inr e(2) by (simp_all add: validate_pcm_Ok)
  show ?thesis
    using Inr w e inspect_eiad_of [OF r] decode_eiad_of [OF r] by (simp add: encode_tts_audio_def)
qed (simp add: encode_tts_audio_def)

text \<open>C31: Decoding an EIAD container of any content never reads out of bounds: it fails exactly
  when the inspection fails, with the same error, and otherwise yields two bytes for each of the
  announced samples, at most 150 seconds of them.\<close>

theorem decode_eiad_safe:
  "decode_eiad eiad \<noteq> Err Panic \<and>
   (case inspect_eiad eiad of
      Inl e \<Rightarrow> decode_eiad eiad = Err e
    | Inr m \<Rightarrow> em_samples m \<le> TTS_SAMPLE_RATE * MAX_TTS_SECONDS \<and>
        (\<exists>pcm. decode_eiad eiad = Ok pcm \<and> length pcm = 2 * em_samples m))"
proof (cases "inspect_eiad eiad")
  case (Inl e)
  then show ?thesis using inspect_eiad_no_panic [of eiad] by (simp add: decode_eiad_def)
next
  case (Inr m)
  obtain pcm where "decode_eiad eiad = Ok pcm" "length pcm = 2 * em_samples m" using inspected_decodes [OF Inr] .
  then show ?thesis
    using inspect_eiad_Ok(3) [OF Inr] Inr by (simp add: TTS_SAMPLE_RATE_def MAX_TTS_SECONDS_def)
qed

lemma clamp_close: "lo \<le> s \<Longrightarrow> s \<le> hi \<Longrightarrow> \<bar>s - clamp lo hi v\<bar> \<le> \<bar>s - v\<bar>"
  by (simp add: clamp_def)

lemma quarter_bound:
  fixes r step :: int
  shows "r < step - step div 2 - step div 4 \<or> r < step div 4 \<Longrightarrow> r - step div 8 \<le> step div 8 + 2"
proof -
  define q m where "q = step div 8" and "m = step mod 8"
  have s: "step = 8 * q + m" "0 \<le> m" "m < 8" by (simp_all add: q_def m_def)
  have "step div 2 = 4 * q + m div 2" "step div 4 = 2 * q + m div 4" by (simp_all add: s(1))
  moreover have "m - m div 2 - m div 4 \<le> 3" "m div 4 \<le> 1" using s(2,3) by simp_all
  moreover assume "r < step - step div 2 - step div 4 \<or> r < step div 4"
  ultimately show ?thesis using s(1) unfolding q_def [symmetric] by linarith
qed

text \<open>While a sample differs from the prediction by less than two steps, the next prediction differs from
  it by at most an eighth of the step plus two.\<close>

lemma ima_quantizer_bound:
  assumes "step_at i = Ok step" "- 32768 \<le> s" "s \<le> 32767" "\<bar>s - p\<bar> < 2 * step"
    "encode_ima_sample s p i = Ok (c, p', i')"
  shows "\<bar>s - p'\<bar> \<le> step div 8 + 2"
proof -
  let ?d = "ima_gap s p" and ?d2 = "ima_rest (ima_gap s p) step"
  let ?d1 = "ima_rest ?d2 (step div 2)"
  let ?r = "ima_rest ?d1 (step div 4)"
  have "p' = clamp (- 32768) 32767 (if s - p < 0 then p - (?d - ?r + step div 8) else p + (?d - ?r + step div 8))"
  proof -
    define delta where "delta = (let d' = step div 8; d' = (if ?d \<ge> step then d' + step else d');
                     d' = (if ?d2 \<ge> step div 2 then d' + step div 2 else d')
                   in if ?d1 \<ge> step div 4 then d' + step div 4 else d')"
    have "p' = clamp (- 32768) 32767 (if s - p < 0 then p - delta else p + delta)"
      using assms(5) unfolding encode_ima_sample_eq [OF assms(1)] delta_def [symmetric]
      by (auto simp: and_then_Ok_iff Let_def)
    moreover have "?d2 = ?d - (if ?d \<ge> step then step else 0)" "?d1 = ?d2 - (if ?d2 \<ge> step div 2 then step div 2 else 0)"
        "?r = ?d1 - (if ?d1 \<ge> step div 4 then step div 4 else 0)"
      by (simp_all only: ima_rest_def split: if_split) simp_all
    then have "delta = ?d - ?r + step div 8" unfolding delta_def Let_def by (simp split: if_splits)
    ultimately show ?thesis by simp
  qed
  then have "\<bar>s - p'\<bar> \<le> \<bar>s - (if s - p < 0 then p - (?d - ?r + step div 8) else p + (?d - ?r + step div 8))\<bar>"
    using clamp_close [OF assms(2,3)] by simp
  also have "\<dots> = \<bar>?r - step div 8\<bar>" by (simp add: ima_gap_def abs_minus_commute)
  finally have "\<bar>s - p'\<bar> \<le> \<bar>?r - step div 8\<bar>" .
  moreover have "0 \<le> ?d" "?d < 2 * step" using assms(4) by (auto simp: ima_gap_def)
  then have "0 \<le> ?d2" "?d2 < step" by (auto simp: ima_rest_def)
  then have "0 \<le> ?d1" "?d1 < step - step div 2" by (auto simp: ima_rest_def)
  then have "0 \<le> ?r" "?r < step - step div 2 - step div 4 \<or> ?r < step div 4" by (auto simp: ima_rest_def)
  then have "0 \<le> ?r" "?r - step div 8 \<le> step div 8 + 2" using quarter_bound by blast+
  moreover have "0 \<le> step div 8" using \<open>0 \<le> ?d\<close> \<open>?d < 2 * step\<close> by simp
  ultimately show ?thesis by linarith
qed

text \<open>C32: The decoder follows the encoder: every sample is encoded, into four bits, and from the same
  prediction and step index the decoder turns this code into the very prediction and index that the
  encoder goes on with. If the sample differs from the old prediction by less than two steps, what the
  decoder reconstructs differs from the sample by at most an eighth of the step plus two.\<close>

theorem ima_sample_error:
  assumes "0 \<le> i" "i \<le> 88" "- 32768 \<le> s" "s \<le> 32767"
  shows "\<exists>step c p' i'. step_at i = Ok step \<and> encode_ima_sample s p i = Ok (c, p', i') \<and> unat c < 16 \<and>
    decode_ima_sample c p i = Ok (p', i') \<and> - 32768 \<le> p' \<and> p' \<le> 32767 \<and> 0 \<le> i' \<and> i' \<le> 88 \<and>
    (\<bar>s - p\<bar> < 2 * step \<longrightarrow> \<bar>s - p'\<bar> \<le> step div 8 + 2)"
proof -
  obtain step where step: "step_at i = Ok step" using step_at_range [OF assms(1,2)] by blast
  obtain c p' i' where e: "encode_ima_sample s p i = Ok (c, p', i')" "unat c < 16" "- 32768 \<le> p'" "p' \<le> 32767"
      "0 \<le> i'" "i' \<le> 88" "decode_ima_sample c p i = Ok (p', i')"
    using encode_ima_sample_follow [OF assms(1,2), of s p] .
  then show ?thesis using step ima_quantizer_bound [OF step assms(3,4) _ e(1)] by blast
qed

theorem ima_sample_error_witness:
  "encode_ima_sample 1000 930 20 = Ok (5, 998, 24) \<and> decode_ima_sample 5 930 20 = Ok (998, 24) \<and>
   \<bar>1000 - 998 :: int\<bar> \<le> 50 div 8 + 2"
proof -
  have "step_at 20 = Ok 50" "encode_ima_sample 1000 930 20 = Ok (5, 998, 24)" by code_simp+
  with ima_sample_error [of 20 1000 930] show ?thesis by simp
qed

end
