(* ===== verification/Playback_Transfer.thy ===== *)
theory Playback_Transfer
  imports Capture Audio "HOL-Library.Product_Lexorder"
begin

text \<open>
  The host's side of a playback transfer, \<open>ActiveLanPlayback\<close> of \<open>app/host/src/lan_voice.rs\<close>: one EIAD
  recording is announced, sent in windows of six chunks, acknowledged by the keyboard, played and
  committed. The socket is a function from the number of the send to its outcome (an error, or a
  number of bytes); what went out and the events for the host thread are logged in \<open>playback_io\<close>. The
  readings of the clock inside one operation are one reading \<open>now\<close>. HMAC-SHA256 and the AEAD cipher are
  parameters.
\<close>

section \<open>Constants and data\<close>

definition PLAYBACK_RETRY :: nat where "PLAYBACK_RETRY = 250"
definition PLAYBACK_MAX_RETRIES :: u8 where "PLAYBACK_MAX_RETRIES = 16"
definition PLAYBACK_FINISH_TIMEOUT :: nat where "PLAYBACK_FINISH_TIMEOUT = (MAX_TTS_SECONDS + 30) * 1000"
definition PLAYBACK_SEND_WINDOW_CHUNKS :: nat where "PLAYBACK_SEND_WINDOW_CHUNKS = 6"
definition PLAYBACK_FINISHED_ACK_RETENTION :: nat where "PLAYBACK_FINISHED_ACK_RETENTION = 120 * 1000"
definition AUTHENTICATED_HEARTBEAT_BYTES :: nat where "AUTHENTICATED_HEARTBEAT_BYTES = 80"
definition HEARTBEAT_AUTH_CONTEXT :: "u8 list" where
  "HEARTBEAT_AUTH_CONTEXT = map (\<lambda>c. of_nat (of_char c)) ''EasyInput/EISD/v1''"

record lan_playback_request =
  lr_request :: playback_request
  lr_source :: socket_addr

datatype lan_playback_event =
    Request lan_playback_request
  | Finished playback_finished
  | Cancelled playback_identity

record lan_playback_start =
  ls_begin :: playback_begin
  ls_source :: socket_addr
  ls_eiad :: "u8 list"

datatype lan_playback_command =
    Start lan_playback_start
  | FinishAck playback_identity
  | Cancel playback_identity
  | Mailbox mailbox_status

datatype playback_send_phase = BeginAck | DataAck | DeviceFinished | HostCommit

record active_playback_transfer =
  pt_begin :: playback_begin
  pt_source :: socket_addr
  pt_eiad :: "u8 list"
  pt_phase :: playback_send_phase
  pt_acknowledged_offset :: nat
  pt_sent_end_offset :: nat
  pt_last_send :: instant
  pt_retry_count :: u8
  pt_finish_deadline :: instant
  pt_started_at :: instant

record retired_playback_finish =
  rp_identity :: playback_identity
  rp_source :: socket_addr
  rp_expires_at :: instant

datatype heartbeat_response = HeartbeatInvalid | HeartbeatSendFailed | HeartbeatSent

record active_lan_playback =
  lp_transfer :: "active_playback_transfer option"
  lp_retired_finish :: "retired_playback_finish option"
  lp_retired_cancel :: "retired_playback_finish option"
  lp_accepted_requests :: "((u8 \<times> u32) \<times> u32) list"
  lp_mailbox_status :: mailbox_status

definition default_playback :: active_lan_playback where
  "default_playback = \<lparr> lp_transfer = None, lp_retired_finish = None, lp_retired_cancel = None, lp_accepted_requests = [],
     lp_mailbox_status = \<lparr> ms_unread_slots = 0, ms_running_tasks = 0, ms_coverage_by_slot = [0, 0, 0, 0] \<rparr> \<rparr>"

section \<open>The socket and the events\<close>

type_synonym send_oracle = "nat \<Rightarrow> nat option"

record playback_io =
  io_attempts :: nat
  io_sent :: "(u8 list \<times> socket_addr) list"
  io_events :: "lan_playback_event list"

definition send_to :: "send_oracle \<Rightarrow> u8 list \<Rightarrow> socket_addr \<Rightarrow> playback_io \<Rightarrow> nat option \<times> playback_io" where
  "send_to orc packet dest io =
     (let r = orc (io_attempts io); io = io\<lparr>io_attempts := Suc (io_attempts io)\<rparr>
      in (r, if r = None then io else io\<lparr>io_sent := io_sent io @ [(packet, dest)]\<rparr>))"

definition emit :: "lan_playback_event \<Rightarrow> playback_io \<Rightarrow> playback_io" where
  "emit ev io = io\<lparr>io_events := io_events io @ [ev]\<rparr>"

section \<open>Sending\<close>

datatype send_outcome = AllSent | EncodeFailed | SocketFailed

text \<open>The loop over the chunks of a window, from \<open>offset\<close> to \<open>stop\<close>.\<close>

function send_chunks ::
  "hmac_sha256 \<Rightarrow> aead_seal \<Rightarrow> send_oracle \<Rightarrow> bytes32 \<Rightarrow> active_playback_transfer \<Rightarrow> nat \<Rightarrow> nat \<Rightarrow> playback_io
   \<Rightarrow> send_outcome \<times> playback_io" where
  "send_chunks hmac seal orc key t offset stop io =
     (if offset < stop then
        let chunk_end = min (offset + PLAYBACK_CHUNK_BYTES) stop
        in case encode_data hmac seal key (pb_identity (pt_begin t)) (pb_request_nonce (pt_begin t)) (of_nat offset)
               (slice offset chunk_end (pt_eiad t)) of
             Inl _ \<Rightarrow> (EncodeFailed, io)
           | Inr packet \<Rightarrow>
               let (r, io) = send_to orc packet (pt_source t) io
               in if r = None then (SocketFailed, io) else send_chunks hmac seal orc key t chunk_end stop io
      else (AllSent, io))"
  by pat_completeness auto
termination
  by (relation "measure (\<lambda>(hmac, seal, orc, key, t, offset, stop, io). stop - offset)") (auto simp: PLAYBACK_CHUNK_BYTES_def)

declare send_chunks.simps [simp del]

definition send_next_data ::
  "hmac_sha256 \<Rightarrow> aead_seal \<Rightarrow> send_oracle \<Rightarrow> bytes32 \<Rightarrow> instant \<Rightarrow> active_playback_transfer \<Rightarrow> playback_io
   \<Rightarrow> bool \<times> active_playback_transfer \<times> playback_io" where
  "send_next_data hmac seal orc key now t io =
     (let start = pt_acknowledged_offset t;
          stop = min (start + PLAYBACK_CHUNK_BYTES * PLAYBACK_SEND_WINDOW_CHUNKS) (length (pt_eiad t));
          (r, io) = send_chunks hmac seal orc key t start stop io
      in if r \<noteq> AllSent then (False, t, io)
         else (True, t\<lparr>pt_sent_end_offset := stop, pt_phase := DataAck, pt_last_send := now\<rparr>, io))"

section \<open>Commands of the host thread\<close>

definition handle_command ::
  "hmac_sha256 \<Rightarrow> send_oracle \<Rightarrow> bytes32 option \<Rightarrow> instant \<Rightarrow> lan_playback_command \<Rightarrow> active_lan_playback \<Rightarrow> playback_io
   \<Rightarrow> active_lan_playback \<times> playback_io" where
  "handle_command hmac orc key now command p io =
     (case command of
        Start start \<Rightarrow>
          let rejected = (p, emit (Cancelled (pb_identity (ls_begin start))) io)
          in if lp_transfer p \<noteq> None \<or> ls_eiad start = [] \<or> length (ls_eiad start) \<noteq> unat (pb_total_bytes (ls_begin start))
             then rejected
             else (case key of
                 None \<Rightarrow> rejected
               | Some key \<Rightarrow>
                   let (r, io) = send_to orc (encode_begin hmac key (ls_begin start)) (ls_source start) io
                   in if r = None then (p, emit (Cancelled (pb_identity (ls_begin start))) io)
                      else (p\<lparr>lp_transfer := Some \<lparr> pt_begin = ls_begin start, pt_source = ls_source start,
                              pt_eiad = ls_eiad start, pt_phase = BeginAck, pt_acknowledged_offset = 0,
                              pt_sent_end_offset = 0, pt_last_send = now, pt_retry_count = 0,
                              pt_finish_deadline = now + PLAYBACK_FINISH_TIMEOUT, pt_started_at = now \<rparr>\<rparr>, io))
      | FinishAck i \<Rightarrow>
          (case (key, lp_transfer p) of
             (Some key, Some t) \<Rightarrow>
               if pb_identity (pt_begin t) = i \<and> pt_phase t = HostCommit
               then let (r, io) = send_to orc (encode_finished_ack hmac key (i, 0)) (pt_source t) io
                    in if r = None then (p, io)
                       else (p\<lparr>lp_retired_finish := Some \<lparr> rp_identity = i, rp_source = pt_source t,
                                 rp_expires_at = now + PLAYBACK_FINISHED_ACK_RETENTION \<rparr>, lp_transfer := None\<rparr>, io)
               else (p, io)
           | _ \<Rightarrow> (p, io))
      | Cancel i \<Rightarrow>
          (case lp_transfer p of
             Some t \<Rightarrow> (if pb_identity (pt_begin t) = i then p\<lparr>lp_transfer := None\<rparr> else p, io)
           | None \<Rightarrow> (p, io))
      | Mailbox status \<Rightarrow> (p\<lparr>lp_mailbox_status := status\<rparr>, io))"

section \<open>Heartbeats\<close>

definition EISD :: "u8 list" where "EISD = [0x45, 0x49, 0x53, 0x44]"

definition heartbeat_wellformed :: "u8 list \<Rightarrow> bool" where
  "heartbeat_wellformed packet \<longleftrightarrow>
     length packet = AUTHENTICATED_HEARTBEAT_BYTES \<and> slice 0 4 packet = EIHB \<and> packet ! 4 = 1 \<and>
     packet ! 5 AND NOT 0x03 = 0 \<and> slice 6 8 packet = [0, 0] \<and> slice 20 24 packet = EISD \<and> packet ! 24 = 1 \<and>
     packet ! 25 = 60 \<and> get_u16 packet 26 AND 0x0002 \<noteq> 0"

definition handle_heartbeat ::
  "hmac_sha256 \<Rightarrow> send_oracle \<Rightarrow> u8 list \<Rightarrow> socket_addr \<Rightarrow> bytes32 \<Rightarrow> active_lan_playback \<Rightarrow> playback_io
   \<Rightarrow> heartbeat_response \<times> playback_io" where
  "handle_heartbeat hmac orc packet source key p io =
     (if \<not> heartbeat_wellformed packet then (HeartbeatInvalid, io)
      else let digest = hmac key (HEARTBEAT_AUTH_CONTEXT @ take 64 packet)
           in if take 16 (bytes_of_32 digest) \<noteq> slice 64 80 packet then (HeartbeatInvalid, io)
              else case encode_mailbox_status hmac key (lp_mailbox_status p) (get_u32 packet 16) of
                  Inl _ \<Rightarrow> (HeartbeatInvalid, io)
                | Inr response \<Rightarrow>
                    let (r, io) = send_to orc response source io
                    in (if r = Some (length response) then HeartbeatSent else HeartbeatSendFailed, io))"

section \<open>Packets of the keyboard\<close>

definition accept_request_generation :: "playback_request \<Rightarrow> active_lan_playback \<Rightarrow> bool \<times> active_lan_playback" where
  "accept_request_generation request p =
     (let key = (pr_slot request, pr_connection_generation request)
      in case map_of (lp_accepted_requests p) key of
           Some bound \<Rightarrow>
             if pr_request_generation request \<le> bound then (False, p)
             else (True, p\<lparr>lp_accepted_requests := bt_insert key (pr_request_generation request) (lp_accepted_requests p)\<rparr>)
         | None \<Rightarrow>
             (True, p\<lparr>lp_accepted_requests := bt_insert key (pr_request_generation request) (lp_accepted_requests p)\<rparr>))"

text \<open>The transfer is dropped and the host told.\<close>

definition drop_transfer ::
  "active_playback_transfer \<Rightarrow> active_lan_playback \<Rightarrow> playback_io \<Rightarrow> active_lan_playback \<times> playback_io" where
  "drop_transfer t p io = (p\<lparr>lp_transfer := None\<rparr>, emit (Cancelled (pb_identity (pt_begin t))) io)"

text \<open>\<open>send_next_data\<close> and the cancellation when it fails.\<close>

definition send_or_drop ::
  "hmac_sha256 \<Rightarrow> aead_seal \<Rightarrow> send_oracle \<Rightarrow> bytes32 \<Rightarrow> instant \<Rightarrow> active_playback_transfer \<Rightarrow> active_lan_playback
   \<Rightarrow> playback_io \<Rightarrow> active_lan_playback \<times> playback_io" where
  "send_or_drop hmac seal orc key now t p io =
     (let (sent, t', io) = send_next_data hmac seal orc key now t io
      in if sent then (p\<lparr>lp_transfer := Some t'\<rparr>, io) else drop_transfer t p io)"

definition retired_matches :: "retired_playback_finish option \<Rightarrow> playback_identity \<Rightarrow> socket_addr \<Rightarrow> instant \<Rightarrow> bool" where
  "retired_matches r i source now =
     (case r of None \<Rightarrow> False
      | Some retired \<Rightarrow> rp_source retired = source \<and> rp_identity retired = i \<and> rp_expires_at retired > now)"

definition accept_ack ::
  "hmac_sha256 \<Rightarrow> aead_seal \<Rightarrow> send_oracle \<Rightarrow> playback_ack \<Rightarrow> socket_addr \<Rightarrow> bytes32 \<Rightarrow> instant \<Rightarrow> active_lan_playback
   \<Rightarrow> playback_io \<Rightarrow> active_lan_playback \<times> playback_io" where
  "accept_ack hmac seal orc ack source key now p io =
     (case lp_transfer p of
        None \<Rightarrow>
          if pa_status ack = 3 \<and> retired_matches (lp_retired_cancel p) (pa_identity ack) source now
          then (p, snd (send_to orc (encode_finished_ack hmac key (pa_identity ack, 1)) source io)) else (p, io)
      | Some t \<Rightarrow>
          let offset = unat (pa_next_offset ack)
          in if pt_source t \<noteq> source \<or> pb_identity (pt_begin t) \<noteq> pa_identity ack then (p, io)
             else if pa_status ack = 1 \<and> pt_phase t = DataAck \<and> pt_acknowledged_offset t \<le> offset \<and>
                     offset \<le> pt_sent_end_offset t
             then (if offset = pt_acknowledged_offset t then
                     if pt_retry_count t \<ge> PLAYBACK_MAX_RETRIES then drop_transfer t p io
                     else send_or_drop hmac seal orc key now (t\<lparr>pt_retry_count := pt_retry_count t + 1\<rparr>) p io
                   else send_or_drop hmac seal orc key now (t\<lparr>pt_acknowledged_offset := offset, pt_retry_count := 0\<rparr>) p io)
             else if pa_status ack \<noteq> 0
             then let i = pb_identity (pt_begin t)
                  in if pa_status ack = 3
                     then drop_transfer t
                            (p\<lparr>lp_retired_cancel := Some \<lparr> rp_identity = i, rp_source = source,
                                 rp_expires_at = now + PLAYBACK_FINISHED_ACK_RETENTION \<rparr>\<rparr>)
                            (snd (send_to orc (encode_finished_ack hmac key (i, 1)) source io))
                     else drop_transfer t p io
             else if pt_phase t = BeginAck \<and> pa_next_offset ack = 0
             then send_or_drop hmac seal orc key now (t\<lparr>pt_acknowledged_offset := 0, pt_retry_count := 0\<rparr>) p io
             else if pt_phase t = DataAck \<and> pt_acknowledged_offset t < offset \<and> offset \<le> pt_sent_end_offset t
             then let t = t\<lparr>pt_acknowledged_offset := offset, pt_retry_count := 0\<rparr>
                  in if offset \<noteq> pt_sent_end_offset t then (p\<lparr>lp_transfer := Some t\<rparr>, io)
                     else if offset = length (pt_eiad t)
                     then (p\<lparr>lp_transfer := Some (t\<lparr>pt_phase := DeviceFinished,
                             pt_finish_deadline := now + PLAYBACK_FINISH_TIMEOUT\<rparr>)\<rparr>, io)
                     else send_or_drop hmac seal orc key now t p io
             else (p, io))"

definition starts_with :: "u8 list \<Rightarrow> u8 list \<Rightarrow> bool" where
  "starts_with magic packet \<longleftrightarrow> take (length magic) packet = magic"

definition accept_finished ::
  "hmac_sha256 \<Rightarrow> send_oracle \<Rightarrow> playback_finished \<Rightarrow> socket_addr \<Rightarrow> bytes32 \<Rightarrow> instant \<Rightarrow> active_lan_playback
   \<Rightarrow> playback_io \<Rightarrow> active_lan_playback \<times> playback_io" where
  "accept_finished hmac orc finished source key now p io =
     (case lp_transfer p of
        None \<Rightarrow>
          if retired_matches (lp_retired_finish p) (pf_identity finished) source now
          then (p, snd (send_to orc (encode_finished_ack hmac key (pf_identity finished, 0)) source io)) else (p, io)
      | Some t \<Rightarrow>
          if pt_source t \<noteq> source \<or> pb_identity (pt_begin t) \<noteq> pf_identity finished \<or>
             pb_total_samples (pt_begin t) \<noteq> pf_played_samples finished \<or>
             \<not> (pt_phase t = DeviceFinished \<or> pt_phase t = HostCommit)
          then (p, io)
          else if pt_phase t = DeviceFinished
          then (p\<lparr>lp_transfer := Some (t\<lparr>pt_phase := HostCommit, pt_finish_deadline := now + PLAYBACK_FINISH_TIMEOUT\<rparr>)\<rparr>,
                emit (Finished finished) io)
          else (p, emit (Finished finished) io))"

definition playback_ingest ::
  "hmac_sha256 \<Rightarrow> aead_seal \<Rightarrow> send_oracle \<Rightarrow> u8 list \<Rightarrow> socket_addr \<Rightarrow> bytes32 \<Rightarrow> instant \<Rightarrow> active_lan_playback
   \<Rightarrow> playback_io \<Rightarrow> active_lan_playback \<times> playback_io" where
  "playback_ingest hmac seal orc packet source key now p io =
     (if starts_with EIPR packet then
        (case decode_request hmac key packet of
           Inl _ \<Rightarrow> (p, io)
         | Inr request \<Rightarrow>
             let (accepted, p) = accept_request_generation request p
             in if \<not> accepted then (p, io)
                else let (p, io) = (case lp_transfer p of Some t \<Rightarrow> drop_transfer t p io | None \<Rightarrow> (p, io))
                     in (p, emit (Request \<lparr> lr_request = request, lr_source = source \<rparr>) io))
      else if starts_with EIPA packet then
        (case decode_ack hmac key packet of
           Inl _ \<Rightarrow> (p, io)
         | Inr ack \<Rightarrow> accept_ack hmac seal orc ack source key now p io)
      else if starts_with EIPF packet then
        (case decode_finished hmac key packet of
           Inl _ \<Rightarrow> (p, io)
         | Inr finished \<Rightarrow> accept_finished hmac orc finished source key now p io)
      else (p, io))"

section \<open>The timer\<close>

definition expired :: "retired_playback_finish option \<Rightarrow> instant \<Rightarrow> bool" where
  "expired r now = (case r of None \<Rightarrow> False | Some retired \<Rightarrow> rp_expires_at retired \<le> now)"

definition expire_retired :: "instant \<Rightarrow> active_lan_playback \<Rightarrow> active_lan_playback" where
  "expire_retired now p =
     (let p = (if expired (lp_retired_finish p) now then p\<lparr>lp_retired_finish := None\<rparr> else p)
      in if expired (lp_retired_cancel p) now then p\<lparr>lp_retired_cancel := None\<rparr> else p)"

definition tick ::
  "hmac_sha256 \<Rightarrow> aead_seal \<Rightarrow> send_oracle \<Rightarrow> bytes32 option \<Rightarrow> instant \<Rightarrow> active_lan_playback \<Rightarrow> playback_io
   \<Rightarrow> active_lan_playback \<times> playback_io" where
  "tick hmac seal orc key now p io =
     (let p = expire_retired now p
      in case lp_transfer p of
           None \<Rightarrow> (p, io)
         | Some t \<Rightarrow>
             if pt_phase t = DeviceFinished \<or> pt_phase t = HostCommit
             then (if now \<ge> pt_finish_deadline t then drop_transfer t p io else (p, io))
             else if now - pt_last_send t < PLAYBACK_RETRY then (p, io)
             else if pt_retry_count t \<ge> PLAYBACK_MAX_RETRIES then drop_transfer t p io
             else case key of
                 None \<Rightarrow> (p, io)
               | Some key \<Rightarrow>
                   let (r, io) = (if pt_phase t = BeginAck
                         then (case send_to orc (encode_begin hmac key (pt_begin t)) (pt_source t) io of
                                 (None, io) \<Rightarrow> (SocketFailed, io) | (Some _, io) \<Rightarrow> (AllSent, io))
                         else send_chunks hmac seal orc key t (pt_acknowledged_offset t) (pt_sent_end_offset t) io)
                   in if r = AllSent
                      then (p\<lparr>lp_transfer := Some (t\<lparr>pt_retry_count := pt_retry_count t + 1, pt_last_send := now\<rparr>)\<rparr>, io)
                      else (p, io))"

section \<open>The transfer as a step machine\<close>

text \<open>What the ingress thread calls: a command of the host thread, a packet, a heartbeat, the timer.\<close>

datatype playback_input =
    Command lan_playback_command
  | Packet "u8 list" socket_addr
  | Heartbeat "u8 list" socket_addr
  | Tick

definition playback_step ::
  "hmac_sha256 \<Rightarrow> aead_seal \<Rightarrow> send_oracle \<Rightarrow> bytes32 option \<Rightarrow> instant \<Rightarrow> playback_input \<Rightarrow> active_lan_playback \<Rightarrow> playback_io
   \<Rightarrow> active_lan_playback \<times> playback_io" where
  "playback_step hmac seal orc key now inp p io =
     (case inp of
        Command c \<Rightarrow> handle_command hmac orc key now c p io
      | Packet packet source \<Rightarrow>
          (case key of None \<Rightarrow> (p, io) | Some k \<Rightarrow> playback_ingest hmac seal orc packet source k now p io)
      | Heartbeat packet source \<Rightarrow>
          (case key of None \<Rightarrow> (p, io) | Some k \<Rightarrow> (p, snd (handle_heartbeat hmac orc packet source k p io)))
      | Tick \<Rightarrow> tick hmac seal orc key now p io)"

definition empty_io :: playback_io where
  "empty_io = \<lparr> io_attempts = 0, io_sent = [], io_events = [] \<rparr>"

text \<open>The states that are reached when the host thread starts only the recordings in \<open>S\<close>; the key of the
  device is either not loaded yet or \<open>k\<close>.\<close>

inductive playback_reach ::
  "lan_playback_start set \<Rightarrow> hmac_sha256 \<Rightarrow> aead_seal \<Rightarrow> send_oracle \<Rightarrow> bytes32 \<Rightarrow> active_lan_playback \<Rightarrow> playback_io \<Rightarrow> bool"
  for S hmac seal orc k where
  reach_init: "playback_reach S hmac seal orc k default_playback empty_io"
| reach_step: "playback_reach S hmac seal orc k p io \<Longrightarrow> key = None \<or> key = Some k \<Longrightarrow>
    (\<And>s. inp = Command (Start s) \<Longrightarrow> s \<in> S) \<Longrightarrow>
    playback_step hmac seal orc key now inp p io = (p', io') \<Longrightarrow> playback_reach S hmac seal orc k p' io'"

section \<open>What goes out\<close>

text \<open>Byte \<open>o\<close> of a recording was sent: a data packet that holds it is among those that went out.\<close>

definition byte_sent ::
  "hmac_sha256 \<Rightarrow> aead_seal \<Rightarrow> bytes32 \<Rightarrow> playback_begin \<Rightarrow> socket_addr \<Rightarrow> u8 list \<Rightarrow> (u8 list \<times> socket_addr) list \<Rightarrow> nat \<Rightarrow> bool" where
  "byte_sent hmac seal k b source eiad sent pos \<longleftrightarrow>
     (\<exists>off stop packet. off \<le> pos \<and> pos < stop \<and> stop \<le> length eiad \<and> stop \<le> off + PLAYBACK_CHUNK_BYTES \<and>
        encode_data hmac seal k (pb_identity b) (pb_request_nonce b) (of_nat off) (slice off stop eiad) = Ok packet \<and>
        (packet, source) \<in> set sent)"

lemma byte_sent_mono: "byte_sent hmac seal k b source eiad sent pos \<Longrightarrow> set sent \<subseteq> set sent' \<Longrightarrow>
    byte_sent hmac seal k b source eiad sent' pos"
  unfolding byte_sent_def by blast

lemma send_to_cases:
  "send_to orc packet dest io = (r, io') \<Longrightarrow>
     io_events io' = io_events io \<and> io_sent io' = io_sent io @ (if r = None then [] else [(packet, dest)])"
  by (auto simp: send_to_def Let_def)

lemma send_chunks_spec:
  assumes "send_chunks hmac seal orc key t offset stop io = (r, io')" "stop \<le> length (pt_eiad t)"
  shows "io_events io' = io_events io"
    "\<exists>ps. io_sent io' = io_sent io @ ps \<and> (offset \<le> stop \<longrightarrow> PLAYBACK_CHUNK_BYTES * length ps < stop - offset + PLAYBACK_CHUNK_BYTES)"
    "r = AllSent \<Longrightarrow> offset \<le> pos \<Longrightarrow> pos < stop \<Longrightarrow>
       byte_sent hmac seal key (pt_begin t) (pt_source t) (pt_eiad t) (io_sent io') pos"
proof -
  have "io_events io' = io_events io \<and>
    (\<exists>ps. io_sent io' = io_sent io @ ps \<and> (offset \<le> stop \<longrightarrow> PLAYBACK_CHUNK_BYTES * length ps < stop - offset + PLAYBACK_CHUNK_BYTES)) \<and>
    (r = AllSent \<longrightarrow> (\<forall>pos. offset \<le> pos \<longrightarrow> pos < stop \<longrightarrow>
       byte_sent hmac seal key (pt_begin t) (pt_source t) (pt_eiad t) (io_sent io') pos))"
    using assms
  proof (induction hmac seal orc key t offset stop io rule: send_chunks.induct)
    case (1 hmac seal orc key t offset stop io)
    let ?stop = "min (offset + PLAYBACK_CHUNK_BYTES) stop"
    show ?case
    proof (cases "offset < stop")
      case False
      then show ?thesis using 1(2) by (auto simp: send_chunks.simps [of _ _ _ _ _ offset] PLAYBACK_CHUNK_BYTES_def)
    next
      case True
      show ?thesis
      proof (cases "encode_data hmac seal key (pb_identity (pt_begin t)) (pb_request_nonce (pt_begin t)) (of_nat offset)
            (slice offset ?stop (pt_eiad t))")
        case (Inl e)
        then show ?thesis using True 1(2) by (auto simp: send_chunks.simps [of _ _ _ _ _ offset] Let_def PLAYBACK_CHUNK_BYTES_def)
      next
        case (Inr packet)
        obtain r1 io1 where s: "send_to orc packet (pt_source t) io = (r1, io1)" by fastforce
        note s' = send_to_cases [OF s]
        show ?thesis
        proof (cases r1)
          case None
          then show ?thesis
            using True 1(2) Inr s s' by (auto simp: send_chunks.simps [of _ _ _ _ _ offset] Let_def PLAYBACK_CHUNK_BYTES_def)
        next
          case (Some n)
          have rest: "send_chunks hmac seal orc key t ?stop stop io1 = (r, io')"
            using True 1(2) Inr s Some by (simp add: send_chunks.simps [of _ _ _ _ _ offset] Let_def)
          have IH: "io_events io' = io_events io1 \<and>
            (\<exists>ps. io_sent io' = io_sent io1 @ ps \<and> (?stop \<le> stop \<longrightarrow> PLAYBACK_CHUNK_BYTES * length ps < stop - ?stop + PLAYBACK_CHUNK_BYTES)) \<and>
            (r = AllSent \<longrightarrow> (\<forall>pos. ?stop \<le> pos \<longrightarrow> pos < stop \<longrightarrow>
               byte_sent hmac seal key (pt_begin t) (pt_source t) (pt_eiad t) (io_sent io') pos))"
            by (rule 1(1) [OF True refl Inr s [symmetric] refl _ rest 1(3)]) (simp add: Some)
          then obtain ps where ps: "io_sent io' = io_sent io1 @ ps" "PLAYBACK_CHUNK_BYTES * length ps < stop - ?stop + PLAYBACK_CHUNK_BYTES"
            by auto
          have "byte_sent hmac seal key (pt_begin t) (pt_source t) (pt_eiad t) (io_sent io') pos" if "offset \<le> pos" "pos < ?stop" for pos
            unfolding byte_sent_def using that Inr s' Some ps 1(3)
            by (intro exI [of _ offset] exI [of _ ?stop] exI [of _ packet]) auto
          moreover have "PLAYBACK_CHUNK_BYTES * Suc (length ps) < stop - offset + PLAYBACK_CHUNK_BYTES"
            using ps(2) True by (auto simp: PLAYBACK_CHUNK_BYTES_def min_def split: if_splits)
          moreover have "io_sent io' = io_sent io @ (packet, pt_source t) # ps" using ps s' Some by simp
          ultimately show ?thesis
            using IH s' by (metis length_Cons not_less)
        qed
      qed
    qed
  qed
  then show "io_events io' = io_events io"
    "\<exists>ps. io_sent io' = io_sent io @ ps \<and> (offset \<le> stop \<longrightarrow> PLAYBACK_CHUNK_BYTES * length ps < stop - offset + PLAYBACK_CHUNK_BYTES)"
    "r = AllSent \<Longrightarrow> offset \<le> pos \<Longrightarrow> pos < stop \<Longrightarrow>
       byte_sent hmac seal key (pt_begin t) (pt_source t) (pt_eiad t) (io_sent io') pos"
    by blast+
qed

section \<open>The invariant\<close>

definition transfer_ok :: "active_playback_transfer \<Rightarrow> bool" where
  "transfer_ok t \<longleftrightarrow>
     pt_eiad t \<noteq> [] \<and> length (pt_eiad t) = unat (pb_total_bytes (pt_begin t)) \<and>
     pt_acknowledged_offset t \<le> pt_sent_end_offset t \<and> pt_sent_end_offset t \<le> length (pt_eiad t) \<and>
     pt_sent_end_offset t \<le> pt_acknowledged_offset t + PLAYBACK_CHUNK_BYTES * PLAYBACK_SEND_WINDOW_CHUNKS \<and>
     pt_retry_count t \<le> PLAYBACK_MAX_RETRIES \<and>
     (pt_phase t = BeginAck \<longrightarrow> pt_sent_end_offset t = 0) \<and>
     (pt_phase t = DeviceFinished \<or> pt_phase t = HostCommit \<longrightarrow> pt_acknowledged_offset t = length (pt_eiad t))"

definition transfer_good ::
  "lan_playback_start set \<Rightarrow> hmac_sha256 \<Rightarrow> aead_seal \<Rightarrow> bytes32 \<Rightarrow> (u8 list \<times> socket_addr) list \<Rightarrow> active_playback_transfer \<Rightarrow> bool" where
  "transfer_good S hmac seal k sent t \<longleftrightarrow>
     transfer_ok t \<and> \<lparr> ls_begin = pt_begin t, ls_source = pt_source t, ls_eiad = pt_eiad t \<rparr> \<in> S \<and>
     (\<forall>pos < pt_sent_end_offset t. byte_sent hmac seal k (pt_begin t) (pt_source t) (pt_eiad t) sent pos)"

text \<open>A recording that reached the keyboard whole: every byte was sent and acknowledged.\<close>

definition delivered ::
  "lan_playback_start set \<Rightarrow> hmac_sha256 \<Rightarrow> aead_seal \<Rightarrow> bytes32 \<Rightarrow> (u8 list \<times> socket_addr) list \<Rightarrow> playback_finished \<Rightarrow> bool" where
  "delivered S hmac seal k sent f \<longleftrightarrow>
     (\<exists>s \<in> S. pb_identity (ls_begin s) = pf_identity f \<and> pb_total_samples (ls_begin s) = pf_played_samples f \<and>
        ls_eiad s \<noteq> [] \<and> length (ls_eiad s) = unat (pb_total_bytes (ls_begin s)) \<and>
        (\<forall>pos < length (ls_eiad s). byte_sent hmac seal k (ls_begin s) (ls_source s) (ls_eiad s) sent pos))"

definition requests :: "lan_playback_event list \<Rightarrow> playback_request list" where
  "requests evs = List.map_filter (\<lambda>ev. case ev of Request r \<Rightarrow> Some (lr_request r) | _ \<Rightarrow> None) evs"

text \<open>What one step may do.\<close>

definition step_ok ::
  "lan_playback_start set \<Rightarrow> hmac_sha256 \<Rightarrow> aead_seal \<Rightarrow> bytes32 \<Rightarrow> active_lan_playback \<Rightarrow> playback_io \<Rightarrow> active_lan_playback \<Rightarrow> playback_io \<Rightarrow> bool" where
  "step_ok S hmac seal k p io p' io' \<longleftrightarrow>
     (\<exists>ps. io_sent io' = io_sent io @ ps \<and> length ps \<le> PLAYBACK_SEND_WINDOW_CHUNKS) \<and>
     (\<forall>t. lp_transfer p' = Some t \<longrightarrow> transfer_good S hmac seal k (io_sent io') t) \<and>
     (\<exists>evs. io_events io' = io_events io @ evs \<and>
        (\<forall>f. Finished f \<in> set evs \<longrightarrow> delivered S hmac seal k (io_sent io') f) \<and>
        (requests evs = [] \<and> lp_accepted_requests p' = lp_accepted_requests p \<or>
         (\<exists>r. requests evs = [r] \<and> fst (accept_request_generation r p) \<and>
            lp_accepted_requests p' = lp_accepted_requests (snd (accept_request_generation r p)))))"

lemma requests_simps [simp]:
  "requests [] = []" "requests (Request r # evs) = lr_request r # requests evs"
  "requests (Finished f # evs) = requests evs" "requests (Cancelled i # evs) = requests evs"
  by (simp_all add: requests_def List.map_filter_def)

lemma requests_append [simp]: "requests (xs @ ys) = requests xs @ requests ys"
  by (simp add: requests_def List.map_filter_def)

lemma start_eta [simp]: "\<lparr> ls_begin = ls_begin s, ls_source = ls_source s, ls_eiad = ls_eiad s \<rparr> = s"
  by simp

lemma transfer_good_mono:
  "transfer_good S hmac seal k sent t \<Longrightarrow> set sent \<subseteq> set sent' \<Longrightarrow> transfer_good S hmac seal k sent' t"
  unfolding transfer_good_def using byte_sent_mono by blast

lemma transfer_good_cong:
  "transfer_good S hmac seal k sent t \<Longrightarrow> transfer_ok t' \<Longrightarrow> pt_begin t' = pt_begin t \<Longrightarrow> pt_source t' = pt_source t \<Longrightarrow>
   pt_eiad t' = pt_eiad t \<Longrightarrow> pt_sent_end_offset t' \<le> pt_sent_end_offset t \<Longrightarrow> transfer_good S hmac seal k sent t'"
  unfolding transfer_good_def by simp

lemma delivered_mono: "delivered S hmac seal k sent f \<Longrightarrow> set sent \<subseteq> set sent' \<Longrightarrow> delivered S hmac seal k sent' f"
  unfolding delivered_def using byte_sent_mono by meson

lemma good_delivered:
  assumes "transfer_good S hmac seal k sent t" "pt_acknowledged_offset t = length (pt_eiad t)"
    "pb_identity (pt_begin t) = pf_identity f" "pb_total_samples (pt_begin t) = pf_played_samples f"
  shows "delivered S hmac seal k sent f"
  unfolding delivered_def using assms
  by (intro bexI [of _ "\<lparr> ls_begin = pt_begin t, ls_source = pt_source t, ls_eiad = pt_eiad t \<rparr>"])
    (auto simp: transfer_good_def transfer_ok_def)

lemma step_ok_io:
  assumes "\<And>t. lp_transfer p = Some t \<Longrightarrow> transfer_good S hmac seal k (io_sent io) t"
    and "io_events io' = io_events io" "io_sent io' = io_sent io @ ps" "length ps \<le> 1"
  shows "step_ok S hmac seal k p io p io'"
  unfolding step_ok_def using assms transfer_good_mono [of S hmac seal k "io_sent io" _ "io_sent io'"]
  by (auto simp: PLAYBACK_SEND_WINDOW_CHUNKS_def)

lemma drop_step:
  assumes "io_events ioq = io_events io" "io_sent ioq = io_sent io @ ps" "length ps \<le> PLAYBACK_SEND_WINDOW_CHUNKS"
    and "lp_accepted_requests q = lp_accepted_requests p"
    and "drop_transfer t q ioq = (p', io')"
  shows "step_ok S hmac seal k p io p' io'"
  unfolding step_ok_def using assms by (auto simp: drop_transfer_def emit_def)

lemma send_next_data_spec:
  assumes "send_next_data hmac seal orc k now t io = (ok, t', io')"
    and "\<lparr> ls_begin = pt_begin t, ls_source = pt_source t, ls_eiad = pt_eiad t \<rparr> \<in> S" "pt_eiad t \<noteq> []" "length (pt_eiad t) = unat (pb_total_bytes (pt_begin t))"
      "pt_acknowledged_offset t \<le> length (pt_eiad t)" "pt_retry_count t \<le> PLAYBACK_MAX_RETRIES"
      "\<And>pos. pos < pt_acknowledged_offset t \<Longrightarrow> byte_sent hmac seal k (pt_begin t) (pt_source t) (pt_eiad t) (io_sent io) pos"
  shows "io_events io' = io_events io" "\<exists>ps. io_sent io' = io_sent io @ ps \<and> length ps \<le> PLAYBACK_SEND_WINDOW_CHUNKS"
    "ok \<Longrightarrow> transfer_good S hmac seal k (io_sent io') t'"
proof -
  let ?stop = "min (pt_acknowledged_offset t + PLAYBACK_CHUNK_BYTES * PLAYBACK_SEND_WINDOW_CHUNKS) (length (pt_eiad t))"
  obtain r where s: "send_chunks hmac seal orc k t (pt_acknowledged_offset t) ?stop io = (r, io')"
    using assms(1) by (auto simp: send_next_data_def Let_def split: prod.splits if_splits)
  have le: "?stop \<le> length (pt_eiad t)" by simp
  note spec = send_chunks_spec [OF s le]
  show "io_events io' = io_events io" by (rule spec(1))
  obtain ps where ps: "io_sent io' = io_sent io @ ps" "PLAYBACK_CHUNK_BYTES * length ps < ?stop - pt_acknowledged_offset t + PLAYBACK_CHUNK_BYTES"
    using spec(2) assms(5) by auto
  then have "PLAYBACK_CHUNK_BYTES * length ps < PLAYBACK_CHUNK_BYTES * Suc PLAYBACK_SEND_WINDOW_CHUNKS"
    by (auto simp: PLAYBACK_CHUNK_BYTES_def PLAYBACK_SEND_WINDOW_CHUNKS_def)
  then show "\<exists>ps. io_sent io' = io_sent io @ ps \<and> length ps \<le> PLAYBACK_SEND_WINDOW_CHUNKS"
    using ps(1) by (auto simp: PLAYBACK_CHUNK_BYTES_def)
  assume ok
  then have r: "r = AllSent" "t' = t\<lparr>pt_sent_end_offset := ?stop, pt_phase := DataAck, pt_last_send := now\<rparr>"
    using assms(1) s by (auto simp: send_next_data_def Let_def split: if_splits)
  have "byte_sent hmac seal k (pt_begin t) (pt_source t) (pt_eiad t) (io_sent io') pos" if "pos < ?stop" for pos
    using spec(3) [OF r(1), of pos] assms(7) [of pos] byte_sent_mono ps(1) that
    by (cases "pos < pt_acknowledged_offset t") fastforce+
  then show "transfer_good S hmac seal k (io_sent io') t'"
    using assms r by (auto simp: transfer_good_def transfer_ok_def)
qed

lemma send_or_drop_step:
  assumes "send_or_drop hmac seal orc k now t p1 io = (p', io')" "lp_accepted_requests p1 = lp_accepted_requests p"
    and "\<lparr> ls_begin = pt_begin t, ls_source = pt_source t, ls_eiad = pt_eiad t \<rparr> \<in> S" "pt_eiad t \<noteq> []" "length (pt_eiad t) = unat (pb_total_bytes (pt_begin t))"
      "pt_acknowledged_offset t \<le> length (pt_eiad t)" "pt_retry_count t \<le> PLAYBACK_MAX_RETRIES"
      "\<And>pos. pos < pt_acknowledged_offset t \<Longrightarrow> byte_sent hmac seal k (pt_begin t) (pt_source t) (pt_eiad t) (io_sent io) pos"
  shows "step_ok S hmac seal k p io p' io'"
proof -
  obtain ok t1 io1 where s: "send_next_data hmac seal orc k now t io = (ok, t1, io1)" by (metis prod_cases3)
  note spec = send_next_data_spec [OF s assms(3-8)]
  obtain ps where ps: "io_sent io1 = io_sent io @ ps" "length ps \<le> PLAYBACK_SEND_WINDOW_CHUNKS" using spec(2) by blast
  show ?thesis
  proof (cases ok)
    case True
    then show ?thesis
      using assms(1,2) s spec(1,3) ps unfolding step_ok_def by (auto simp: send_or_drop_def)
  next
    case False
    then have "drop_transfer t p1 io1 = (p', io')" using assms(1) s by (simp add: send_or_drop_def)
    with spec(1) ps assms(2) show ?thesis by (rule drop_step)
  qed
qed

section \<open>Every operation keeps the invariant\<close>

lemma same_transfer: "lp_transfer p = Some t \<Longrightarrow> p\<lparr>lp_transfer := Some t\<rparr> = p"
  by simp

lemma retry_le: "r \<le> PLAYBACK_MAX_RETRIES \<Longrightarrow> \<not> PLAYBACK_MAX_RETRIES \<le> r \<Longrightarrow> r + 1 \<le> PLAYBACK_MAX_RETRIES"
  using inc_le [of r PLAYBACK_MAX_RETRIES] by (simp add: not_le)

lemma step_ok_refl:
  "(\<And>t. lp_transfer p = Some t \<Longrightarrow> transfer_good S hmac seal k (io_sent io) t) \<Longrightarrow> step_ok S hmac seal k p io p io"
  by (rule step_ok_io [where ps = "[]"]) auto

lemma step_ok_send:
  assumes "\<And>t. lp_transfer p = Some t \<Longrightarrow> transfer_good S hmac seal k (io_sent io) t"
  shows "step_ok S hmac seal k p io p (snd (send_to orc packet dest io))"
  using send_to_cases [of orc packet dest io "fst (send_to orc packet dest io)" "snd (send_to orc packet dest io)"] assms
  by (intro step_ok_io) (auto split: if_splits)

text \<open>A step that only rewrites the transfer, keeping what was sent.\<close>

lemma step_ok_update:
  assumes "transfer_good S hmac seal k (io_sent io) t'" "io_sent io' = io_sent io @ ps" "length ps \<le> PLAYBACK_SEND_WINDOW_CHUNKS"
    "io_events io' = io_events io @ evs" "\<forall>f. Finished f \<in> set evs \<longrightarrow> delivered S hmac seal k (io_sent io) f" "requests evs = []"
  shows "step_ok S hmac seal k p io (p\<lparr>lp_transfer := Some t'\<rparr>) io'"
  unfolding step_ok_def using assms transfer_good_mono [of S hmac seal k "io_sent io" _ "io_sent io'"]
    delivered_mono [of S hmac seal k "io_sent io" _ "io_sent io'"] by auto

lemma handle_command_step:
  assumes good: "\<And>t. lp_transfer p = Some t \<Longrightarrow> transfer_good S hmac seal k (io_sent io) t"
    and starts: "\<And>s. c = Start s \<Longrightarrow> s \<in> S"
    and h: "handle_command hmac orc key now c p io = (p', io')"
  shows "step_ok S hmac seal k p io p' io'"
proof (cases c)
  case (Start s)
  let ?i = "pb_identity (ls_begin s)"
  have rej: "step_ok S hmac seal k p io p (emit (Cancelled ?i) io1)"
    if "io_events io1 = io_events io" "io_sent io1 = io_sent io" for io1
    using that good unfolding step_ok_def by (auto simp: emit_def)
  show ?thesis
  proof (cases "lp_transfer p \<noteq> None \<or> ls_eiad s = [] \<or> length (ls_eiad s) \<noteq> unat (pb_total_bytes (ls_begin s)) \<or> key = None")
    case True
    then have "(p', io') = (p, emit (Cancelled ?i) io)"
      using h Start by (auto simp: handle_command_def Let_def split: option.splits)
    then show ?thesis using rej [of io] by simp
  next
    case False
    then obtain ky where key: "key = Some ky" by auto
    obtain r io1 where s: "send_to orc (encode_begin hmac ky (ls_begin s)) (ls_source s) io = (r, io1)" by fastforce
    note sc = send_to_cases [OF s]
    show ?thesis
    proof (cases r)
      case None
      then have "(p', io') = (p, emit (Cancelled ?i) io1)"
        using h Start False key s by (simp add: handle_command_def Let_def)
      then show ?thesis using rej [of io1] sc None by simp
    next
      case (Some n)
      let ?t = "\<lparr> pt_begin = ls_begin s, pt_source = ls_source s, pt_eiad = ls_eiad s, pt_phase = BeginAck,
        pt_acknowledged_offset = 0, pt_sent_end_offset = 0, pt_last_send = now, pt_retry_count = 0,
        pt_finish_deadline = now + PLAYBACK_FINISH_TIMEOUT, pt_started_at = now \<rparr>"
      have "transfer_good S hmac seal k (io_sent io) ?t"
        using False starts [OF Start] by (simp add: transfer_good_def transfer_ok_def)
      then have "step_ok S hmac seal k p io (p\<lparr>lp_transfer := Some ?t\<rparr>) io1"
        by (rule step_ok_update [where evs = "[]"]) (use sc Some in \<open>auto simp: PLAYBACK_SEND_WINDOW_CHUNKS_def\<close>)
      then show ?thesis using h Start False key s Some by (simp add: handle_command_def Let_def)
    qed
  qed
next
  case (FinishAck i)
  show ?thesis
  proof (cases "\<exists>ky t. key = Some ky \<and> lp_transfer p = Some t \<and> pb_identity (pt_begin t) = i \<and> pt_phase t = HostCommit")
    case True
    then obtain ky t where t: "key = Some ky" "lp_transfer p = Some t" "pb_identity (pt_begin t) = i" "pt_phase t = HostCommit" by blast
    obtain r io1 where s: "send_to orc (encode_finished_ack hmac ky (i, 0)) (pt_source t) io = (r, io1)" by fastforce
    note sc = send_to_cases [OF s]
    show ?thesis
    proof (cases r)
      case None
      then show ?thesis using h FinishAck t s sc good by (auto simp: handle_command_def intro!: step_ok_io)
    next
      case (Some n)
      then show ?thesis using h FinishAck t s sc
        by (auto simp: handle_command_def step_ok_def PLAYBACK_SEND_WINDOW_CHUNKS_def)
    qed
  next
    case False
    then have "(p', io') = (p, io)" using h FinishAck by (auto simp: handle_command_def split: option.splits if_splits)
    then show ?thesis using good by (auto intro: step_ok_refl)
  qed
next
  case (Cancel i)
  then show ?thesis using h good by (auto simp: handle_command_def step_ok_def split: option.splits if_splits)
next
  case (Mailbox st)
  then show ?thesis using h good by (auto simp: handle_command_def step_ok_def)
qed

lemma accept_ack_step:
  assumes good: "\<And>t. lp_transfer p = Some t \<Longrightarrow> transfer_good S hmac seal k (io_sent io) t"
    and h: "accept_ack hmac seal orc ack source k now p io = (p', io')"
  shows "step_ok S hmac seal k p io p' io'"
proof (cases "lp_transfer p")
  case None
  then show ?thesis using h good
    by (auto simp: accept_ack_def split: if_splits intro!: step_ok_send step_ok_refl)
next
  case (Some t)
  let ?o = "unat (pa_next_offset ack)" and ?i = "pb_identity (pt_begin t)"
  note g = good [OF Some]
  note ok = g [unfolded transfer_good_def transfer_ok_def]
  have send: "step_ok S hmac seal k p io p' io'"
    if "send_or_drop hmac seal orc k now (t\<lparr>pt_acknowledged_offset := off, pt_retry_count := r\<rparr>) p io = (p', io')"
      "off \<le> pt_sent_end_offset t" "r \<le> PLAYBACK_MAX_RETRIES" for off r
    using that ok by (intro send_or_drop_step [OF that(1) refl]) auto
  have unchanged: "step_ok S hmac seal k p io p io" by (rule step_ok_refl) (rule good)
  have same: "t\<lparr>pt_retry_count := r\<rparr> = t\<lparr>pt_acknowledged_offset := pt_acknowledged_offset t, pt_retry_count := r\<rparr>" for r by simp
  consider (foreign) "pt_source t \<noteq> source \<or> ?i \<noteq> pa_identity ack"
    | (gap) "pt_source t = source" "?i = pa_identity ack"
        "pa_status ack = 1" "pt_phase t = DataAck" "pt_acknowledged_offset t \<le> ?o" "?o \<le> pt_sent_end_offset t"
    | (rejected) "pt_source t = source" "?i = pa_identity ack" "pa_status ack \<noteq> 0"
        "\<not> (pa_status ack = 1 \<and> pt_phase t = DataAck \<and> pt_acknowledged_offset t \<le> ?o \<and> ?o \<le> pt_sent_end_offset t)"
    | (begun) "pt_source t = source" "?i = pa_identity ack" "pa_status ack = 0" "pt_phase t = BeginAck" "pa_next_offset ack = 0"
    | (data) "pt_source t = source" "?i = pa_identity ack" "pa_status ack = 0" "pt_phase t = DataAck"
        "pt_acknowledged_offset t < ?o" "?o \<le> pt_sent_end_offset t"
    | (other) "pt_source t = source" "?i = pa_identity ack" "pa_status ack = 0"
        "\<not> (pt_phase t = BeginAck \<and> pa_next_offset ack = 0)"
        "\<not> (pt_phase t = DataAck \<and> pt_acknowledged_offset t < ?o \<and> ?o \<le> pt_sent_end_offset t)" by blast
  then show ?thesis
  proof cases
    case gap
    show ?thesis
    proof (cases "?o = pt_acknowledged_offset t \<and> PLAYBACK_MAX_RETRIES \<le> pt_retry_count t")
      case True
      then have "drop_transfer t p io = (p', io')" using h Some gap by (simp add: accept_ack_def Let_def)
      then show ?thesis by (intro drop_step [where ps = "[]" and q = p]) auto
    next
      case False
      then show ?thesis
        using h Some gap send [of 0 ?o] send [of "pt_retry_count t + 1" "pt_acknowledged_offset t", folded same] ok retry_le [of "pt_retry_count t"]
        by (auto simp: accept_ack_def Let_def split: if_splits)
    qed
  next
    case rejected
    obtain r io1 where s: "send_to orc (encode_finished_ack hmac k (?i, 1)) source io = (r, io1)" by fastforce
    note sc = send_to_cases [OF s]
    show ?thesis
    proof (cases "pa_status ack = 3")
      case True
      let ?p = "p\<lparr>lp_retired_cancel := Some \<lparr> rp_identity = ?i, rp_source = source, rp_expires_at = now + PLAYBACK_FINISHED_ACK_RETENTION \<rparr>\<rparr>"
      have "drop_transfer t ?p io1 = (p', io')" using True h Some rejected s by (simp add: accept_ack_def Let_def)
      then show ?thesis
        using sc by (intro drop_step [where q = ?p and io = io, OF _ _ _ _ \<open>drop_transfer t ?p io1 = (p', io')\<close>])
          (auto simp: PLAYBACK_SEND_WINDOW_CHUNKS_def)
    next
      case False
      then have "drop_transfer t p io = (p', io')" using h Some rejected by (auto simp: accept_ack_def Let_def)
      then show ?thesis by (intro drop_step [where ps = "[]" and q = p]) auto
    qed
  next
    case begun
    then show ?thesis using h Some send [of 0 0] ok by (simp add: accept_ack_def Let_def)
  next
    case data
    let ?t = "t\<lparr>pt_acknowledged_offset := ?o, pt_retry_count := 0\<rparr>"
    let ?t' = "?t\<lparr>pt_phase := DeviceFinished, pt_finish_deadline := now + PLAYBACK_FINISH_TIMEOUT\<rparr>"
    have "transfer_good S hmac seal k (io_sent io) ?t" using ok data by (simp add: transfer_good_def transfer_ok_def)
    then have u: "step_ok S hmac seal k p io (p\<lparr>lp_transfer := Some ?t\<rparr>) io"
      by (rule step_ok_update [where evs = "[]" and ps = "[]"]) auto
    have f: "step_ok S hmac seal k p io (p\<lparr>lp_transfer := Some ?t'\<rparr>) io"
      if "?o = length (pt_eiad t)" "?o = pt_sent_end_offset t"
    proof -
      have "transfer_good S hmac seal k (io_sent io) ?t'" using ok data that by (simp add: transfer_good_def transfer_ok_def)
      then show ?thesis by (rule step_ok_update [where evs = "[]" and ps = "[]"]) auto
    qed
    show ?thesis
      using h Some data u f send [of 0 ?o] by (auto simp: accept_ack_def Let_def split: if_splits)
  qed (use h Some unchanged in \<open>auto simp: accept_ack_def Let_def\<close>)
qed

lemma accept_finished_step:
  assumes good: "\<And>t. lp_transfer p = Some t \<Longrightarrow> transfer_good S hmac seal k (io_sent io) t"
    and h: "accept_finished hmac orc f source k now p io = (p', io')"
  shows "step_ok S hmac seal k p io p' io'"
proof (cases "lp_transfer p")
  case None
  then show ?thesis using h good
    by (auto simp: accept_finished_def split: if_splits intro!: step_ok_send step_ok_refl)
next
  case (Some t)
  note g = good [OF Some]
  note ok = g [unfolded transfer_good_def transfer_ok_def]
  show ?thesis
  proof (cases "pt_source t \<noteq> source \<or> pb_identity (pt_begin t) \<noteq> pf_identity f \<or>
      pb_total_samples (pt_begin t) \<noteq> pf_played_samples f \<or> \<not> (pt_phase t = DeviceFinished \<or> pt_phase t = HostCommit)")
    case True
    then have "(p', io') = (p, io)" using h Some by (auto simp: accept_finished_def)
    then show ?thesis using good by (auto intro: step_ok_refl)
  next
    case False
    let ?t = "if pt_phase t = DeviceFinished
      then t\<lparr>pt_phase := HostCommit, pt_finish_deadline := now + PLAYBACK_FINISH_TIMEOUT\<rparr> else t"
    have d: "delivered S hmac seal k (io_sent io) f" using ok False by (intro good_delivered [OF g]) auto
    have "transfer_good S hmac seal k (io_sent io) ?t" using ok False by (auto simp: transfer_good_def transfer_ok_def)
    then have "step_ok S hmac seal k p io (p\<lparr>lp_transfer := Some ?t\<rparr>) (emit (Finished f) io)"
      by (rule step_ok_update [where evs = "[Finished f]" and ps = "[]"]) (use d in \<open>auto simp: emit_def\<close>)
    then show ?thesis
      using h Some False same_transfer [OF Some] by (cases "pt_phase t = DeviceFinished") (auto simp: accept_finished_def)
  qed
qed

lemma accept_request_transfer [simp]: "lp_transfer (snd (accept_request_generation r p)) = lp_transfer p"
  by (simp add: accept_request_generation_def Let_def split: option.splits)

lemma playback_ingest_step:
  assumes good: "\<And>t. lp_transfer p = Some t \<Longrightarrow> transfer_good S hmac seal k (io_sent io) t"
    and h: "playback_ingest hmac seal orc packet source k now p io = (p', io')"
  shows "step_ok S hmac seal k p io p' io'"
proof -
  have same: "step_ok S hmac seal k p io p io" by (rule step_ok_refl) (rule good)
  show ?thesis
  proof (cases "starts_with EIPR packet")
    case request: True
    show ?thesis
    proof (cases "decode_request hmac k packet")
      case (Inr r)
      obtain accepted p1 where acc: "accept_request_generation r p = (accepted, p1)" by fastforce
      have tr: "lp_transfer p1 = lp_transfer p" using accept_request_transfer [of r p] acc by simp
      show ?thesis
      proof (cases accepted)
        case True
        then have "fst (accept_request_generation r p)" "lp_accepted_requests p1 = lp_accepted_requests (snd (accept_request_generation r p))"
          using acc by simp_all
        then show ?thesis
          using True Inr request h acc tr good unfolding step_ok_def
          by (auto simp: playback_ingest_def drop_transfer_def emit_def split: option.splits)
      next
        case False
        then have "p1 = p" using acc by (auto simp: accept_request_generation_def Let_def split: option.splits if_splits)
        then show ?thesis using False Inr request h acc same by (simp add: playback_ingest_def)
      qed
    qed (use h request same in \<open>simp add: playback_ingest_def\<close>)
  next
    case other: False
    have "step_ok S hmac seal k p io p' io'" if "starts_with EIPA packet"
      using that h other same accept_ack_step [OF good]
      by (cases "decode_ack hmac k packet") (auto simp: playback_ingest_def)
    moreover have "step_ok S hmac seal k p io p' io'" if "\<not> starts_with EIPA packet" "starts_with EIPF packet"
      using that h other same accept_finished_step [OF good]
      by (cases "decode_finished hmac k packet") (auto simp: playback_ingest_def)
    moreover have "step_ok S hmac seal k p io p' io'" if "\<not> starts_with EIPA packet" "\<not> starts_with EIPF packet"
      using that h other same by (auto simp: playback_ingest_def)
    ultimately show ?thesis by blast
  qed
qed

lemma handle_heartbeat_step:
  assumes good: "\<And>t. lp_transfer p = Some t \<Longrightarrow> transfer_good S hmac seal k (io_sent io) t"
    and h: "handle_heartbeat hmac orc packet source key p io = (r, io')"
  shows "step_ok S hmac seal k p io p io'"
  using h good
  by (auto simp: handle_heartbeat_def Let_def split: if_splits sum.splits prod.splits
      intro: step_ok_refl dest!: send_to_cases intro!: step_ok_io)

lemma tick_step:
  assumes good: "\<And>t. lp_transfer p = Some t \<Longrightarrow> transfer_good S hmac seal k (io_sent io) t"
    and key: "key = None \<or> key = Some k" and h: "tick hmac seal orc key now p io = (p', io')"
  shows "step_ok S hmac seal k p io p' io'"
proof -
  define p1 where "p1 = expire_retired now p"
  have p1 [simp]: "lp_transfer p1 = lp_transfer p" "lp_accepted_requests p1 = lp_accepted_requests p"
    by (simp_all add: p1_def expire_retired_def Let_def)
  have swap: "step_ok S hmac seal k p1 io p' io' \<Longrightarrow> step_ok S hmac seal k p io p' io'"
    by (auto simp: step_ok_def accept_request_generation_def Let_def split: option.splits if_splits)
  have same: "step_ok S hmac seal k p1 io p1 io" using good by (intro step_ok_refl) simp
  show ?thesis
  proof (cases "lp_transfer p")
    case None
    then show ?thesis using h swap same by (simp add: tick_def Let_def p1_def [symmetric])
  next
    case (Some t)
    note g = good [OF Some]
    note ok = g [unfolded transfer_good_def transfer_ok_def]
    have drop: "drop_transfer t p1 io = (p', io') \<Longrightarrow> step_ok S hmac seal k p1 io p' io'"
      by (rule drop_step [where ps = "[]" and q = p1]) auto
    show ?thesis
    proof (cases "pt_phase t = DeviceFinished \<or> pt_phase t = HostCommit \<or> now - pt_last_send t < PLAYBACK_RETRY \<or>
        PLAYBACK_MAX_RETRIES \<le> pt_retry_count t \<or> key = None")
      case True
      have "tick hmac seal orc key now p io = drop_transfer t p1 io \<or> tick hmac seal orc key now p io = (p1, io)"
        using True Some by (cases key) (auto simp: tick_def Let_def p1_def [symmetric])
      then show ?thesis using h swap drop same by auto
    next
      case False
      define out where "out = (if pt_phase t = BeginAck
         then (case send_to orc (encode_begin hmac k (pt_begin t)) (pt_source t) io of
            (None, io) \<Rightarrow> (SocketFailed, io) | (Some _, io) \<Rightarrow> (AllSent, io))
         else send_chunks hmac seal orc k t (pt_acknowledged_offset t) (pt_sent_end_offset t) io)"
      obtain r io1 where out: "out = (r, io1)" by fastforce
      have key_k: "key = Some k" using False key by auto
      have eq: "(p', io') = (if r = AllSent
          then (p1\<lparr>lp_transfer := Some (t\<lparr>pt_retry_count := pt_retry_count t + 1, pt_last_send := now\<rparr>)\<rparr>, io1) else (p1, io1))"
        using h False key_k Some by (simp add: tick_def Let_def p1_def [symmetric] out_def [symmetric] out split: if_splits)
      let ?t = "t\<lparr>pt_retry_count := pt_retry_count t + 1, pt_last_send := now\<rparr>"
      have le: "pt_sent_end_offset t \<le> length (pt_eiad t)" using ok by simp
      have "io_events io1 = io_events io \<and> (\<exists>ps. io_sent io1 = io_sent io @ ps \<and> length ps \<le> PLAYBACK_SEND_WINDOW_CHUNKS)"
      proof (cases "pt_phase t = BeginAck")
        case True
        then show ?thesis using out out_def
          by (auto simp: PLAYBACK_SEND_WINDOW_CHUNKS_def split: prod.splits option.splits dest!: send_to_cases)
      next
        case data: False
        then have s: "send_chunks hmac seal orc k t (pt_acknowledged_offset t) (pt_sent_end_offset t) io = (r, io1)"
          using out out_def by simp
        obtain ps where "io_sent io1 = io_sent io @ ps"
          "PLAYBACK_CHUNK_BYTES * length ps < pt_sent_end_offset t - pt_acknowledged_offset t + PLAYBACK_CHUNK_BYTES"
          using send_chunks_spec(2) [OF s le] ok by auto
        moreover from this ok have "length ps \<le> PLAYBACK_SEND_WINDOW_CHUNKS"
          by (auto simp: PLAYBACK_CHUNK_BYTES_def PLAYBACK_SEND_WINDOW_CHUNKS_def)
        ultimately show ?thesis using send_chunks_spec(1) [OF s le] by blast
      qed
      then obtain ps where io1: "io_events io1 = io_events io" "io_sent io1 = io_sent io @ ps" "length ps \<le> PLAYBACK_SEND_WINDOW_CHUNKS"
        by blast
      have "transfer_good S hmac seal k (io_sent io) ?t"
        using ok False retry_le [of "pt_retry_count t"] by (auto simp: transfer_good_def transfer_ok_def)
      then have "step_ok S hmac seal k p1 io (p1\<lparr>lp_transfer := Some ?t\<rparr>) io1"
        by (rule step_ok_update [where evs = "[]"]) (use io1 in auto)
      moreover have "step_ok S hmac seal k p1 io (p1\<lparr>lp_transfer := Some t\<rparr>) io1"
        using g by (rule step_ok_update [where evs = "[]"]) (use io1 in auto)
      ultimately show ?thesis
        using eq swap same_transfer [of p1 t] Some by (cases "r = AllSent") simp_all
    qed
  qed
qed

lemma playback_step_ok:
  assumes good: "\<And>t. lp_transfer p = Some t \<Longrightarrow> transfer_good S hmac seal k (io_sent io) t"
    and starts: "\<And>s. inp = Command (Start s) \<Longrightarrow> s \<in> S"
    and key: "key = None \<or> key = Some k" and h: "playback_step hmac seal orc key now inp p io = (p', io')"
  shows "step_ok S hmac seal k p io p' io'"
proof (cases inp)
  case (Command c)
  then show ?thesis using h by (intro handle_command_step [OF good]) (auto simp: playback_step_def intro: starts)
next
  case (Packet packet source)
  have same: "step_ok S hmac seal k p io p io" by (rule step_ok_refl) (rule good)
  have "step_ok S hmac seal k p io p' io'" if "playback_ingest hmac seal orc packet source k now p io = (p', io')"
    using that by (rule playback_ingest_step [rotated]) (rule good)
  then show ?thesis using h key Packet same by (auto simp: playback_step_def)
next
  case (Heartbeat packet source)
  have same: "step_ok S hmac seal k p io p io" by (rule step_ok_refl) (rule good)
  obtain r io1 where hb: "handle_heartbeat hmac orc packet source k p io = (r, io1)" by fastforce
  have "step_ok S hmac seal k p io p io1" by (rule handle_heartbeat_step [OF good hb])
  then show ?thesis using h key Heartbeat same hb by (auto simp: playback_step_def)
next
  case Tick
  then show ?thesis using h by (intro tick_step [OF good key]) (auto simp: playback_step_def)
qed

text \<open>The requests that were passed on, by keyboard slot and connection, and the bound kept for each.\<close>

definition stream_of :: "u8 \<times> u32 \<Rightarrow> playback_request list \<Rightarrow> u32 list" where
  "stream_of c rs = map pr_request_generation (filter (\<lambda>r. (pr_slot r, pr_connection_generation r) = c) rs)"

definition streams_ok :: "playback_request list \<Rightarrow> ((u8 \<times> u32) \<times> u32) list \<Rightarrow> bool" where
  "streams_ok rs accepted \<longleftrightarrow>
     bt_ok accepted \<and>
     (\<forall>c. sorted_wrt (<) (stream_of c rs) \<and>
        (case map_of accepted c of None \<Rightarrow> stream_of c rs = [] | Some bound \<Rightarrow> (\<forall>g \<in> set (stream_of c rs). g \<le> bound)))"

definition playback_inv :: "lan_playback_start set \<Rightarrow> hmac_sha256 \<Rightarrow> aead_seal \<Rightarrow> bytes32 \<Rightarrow> active_lan_playback \<Rightarrow> playback_io \<Rightarrow> bool" where
  "playback_inv S hmac seal k p io \<longleftrightarrow>
     (\<forall>t. lp_transfer p = Some t \<longrightarrow> transfer_good S hmac seal k (io_sent io) t) \<and>
     (\<forall>f. Finished f \<in> set (io_events io) \<longrightarrow> delivered S hmac seal k (io_sent io) f) \<and>
     streams_ok (requests (io_events io)) (lp_accepted_requests p)"

lemma streams_ok_accept:
  assumes "streams_ok rs (lp_accepted_requests p)" "accept_request_generation r p = (True, p')"
  shows "streams_ok (rs @ [r]) (lp_accepted_requests p')"
proof -
  let ?c = "(pr_slot r, pr_connection_generation r)" and ?g = "pr_request_generation r"
  let ?m = "lp_accepted_requests p"
  have bt: "bt_ok ?m" using assms(1) by (simp add: streams_ok_def)
  have m: "lp_accepted_requests p' = bt_insert ?c ?g ?m"
    using assms(2) by (auto simp: accept_request_generation_def Let_def split: option.splits if_splits)
  have bound: "case map_of ?m ?c of None \<Rightarrow> stream_of ?c rs = [] | Some bound \<Rightarrow> (\<forall>g \<in> set (stream_of ?c rs). g \<le> bound)"
    using assms(1) unfolding streams_ok_def by blast
  have above: "\<forall>g \<in> set (stream_of ?c rs). g < ?g"
  proof (cases "map_of ?m ?c")
    case (Some b)
    have "b < ?g" using assms(2) Some by (auto simp: accept_request_generation_def Let_def split: if_splits)
    then show ?thesis using bound Some by fastforce
  qed (use bound in simp)
  have st: "stream_of c (rs @ [r]) = (if c = ?c then stream_of c rs @ [?g] else stream_of c rs)" for c
    by (auto simp: stream_of_def)
  have "sorted_wrt (<) (stream_of c (rs @ [r])) \<and>
      (case map_of (bt_insert ?c ?g ?m) c of None \<Rightarrow> stream_of c (rs @ [r]) = []
       | Some bound \<Rightarrow> (\<forall>g \<in> set (stream_of c (rs @ [r])). g \<le> bound))" for c
  proof -
    have "sorted_wrt (<) (stream_of c rs)"
      "case map_of ?m c of None \<Rightarrow> stream_of c rs = [] | Some bound \<Rightarrow> (\<forall>g \<in> set (stream_of c rs). g \<le> bound)"
      using assms(1) unfolding streams_ok_def by blast+
    then show ?thesis
      using above by (cases "c = ?c") (auto simp: st map_of_bt_insert [OF bt] sorted_wrt_append less_imp_le split: option.splits)
  qed
  then show ?thesis unfolding streams_ok_def m using bt by (simp add: bt_insert_ok)
qed

lemma playback_inv_step:
  assumes inv: "playback_inv S hmac seal k p io" and st: "step_ok S hmac seal k p io p' io'"
  shows "playback_inv S hmac seal k p' io'"
proof -
  obtain ps evs where s: "io_sent io' = io_sent io @ ps" "io_events io' = io_events io @ evs"
    "\<forall>f. Finished f \<in> set evs \<longrightarrow> delivered S hmac seal k (io_sent io') f"
    "\<forall>t. lp_transfer p' = Some t \<longrightarrow> transfer_good S hmac seal k (io_sent io') t"
    "requests evs = [] \<and> lp_accepted_requests p' = lp_accepted_requests p \<or>
     (\<exists>r. requests evs = [r] \<and> fst (accept_request_generation r p) \<and>
        lp_accepted_requests p' = lp_accepted_requests (snd (accept_request_generation r p)))"
    using st unfolding step_ok_def by metis
  have "streams_ok (requests (io_events io')) (lp_accepted_requests p')"
    using s(5)
  proof
    assume "\<exists>r. requests evs = [r] \<and> fst (accept_request_generation r p) \<and>
        lp_accepted_requests p' = lp_accepted_requests (snd (accept_request_generation r p))"
    then obtain r p1 where "requests evs = [r]" "accept_request_generation r p = (True, p1)"
      "lp_accepted_requests p' = lp_accepted_requests p1"
      by (metis (full_types) eq_fst_iff snd_conv)
    then show ?thesis using streams_ok_accept [of "requests (io_events io)" p r p1] inv s(2) by (simp add: playback_inv_def)
  qed (use inv s(2) in \<open>simp add: playback_inv_def\<close>)
  moreover have "delivered S hmac seal k (io_sent io') f" if "Finished f \<in> set (io_events io)" for f
    using inv that delivered_mono [of S hmac seal k "io_sent io" f "io_sent io'"] s(1) by (auto simp: playback_inv_def)
  ultimately show ?thesis using s unfolding playback_inv_def by auto
qed

lemma playback_reach_inv: "playback_reach S hmac seal orc k p io \<Longrightarrow> playback_inv S hmac seal k p io"
proof (induction rule: playback_reach.induct)
  case reach_init
  then show ?case by (simp add: playback_inv_def default_playback_def empty_io_def streams_ok_def stream_of_def bt_ok_def)
next
  case (reach_step p io key now inp p' io')
  have good: "\<And>t. lp_transfer p = Some t \<Longrightarrow> transfer_good S hmac seal k (io_sent io) t"
    using reach_step.IH by (simp add: playback_inv_def)
  have "step_ok S hmac seal k p io p' io'"
    using good reach_step.hyps(3,2,4) by (rule playback_step_ok)
  with reach_step.IH show ?case by (rule playback_inv_step)
qed

section \<open>Properties\<close>

lemma reach_mono: "playback_reach S hmac seal orc k p io \<Longrightarrow> S \<subseteq> S' \<Longrightarrow> playback_reach S' hmac seal orc k p io"
  by (induction rule: playback_reach.induct) (auto intro: reach_init reach_step)

lemma reach_good:
  "playback_reach S hmac seal orc k p io \<Longrightarrow> lp_transfer p = Some t \<Longrightarrow> transfer_good S hmac seal k (io_sent io) t"
  using playback_reach_inv by (simp add: playback_inv_def)

text \<open>C34: in every reachable state, whatever commands, datagrams and timer ticks came in, the transfer
  in progress has a recording of the announced length, what is acknowledged was sent, what was sent is
  within the recording and at most six chunks ahead of the acknowledgement, the retries are at most 16,
  and the transfer waits for the keyboard to finish only when every byte is acknowledged.\<close>

theorem playback_window_bounds:
  assumes "playback_reach S hmac seal orc k p io" "lp_transfer p = Some t"
  shows "pt_acknowledged_offset t \<le> pt_sent_end_offset t \<and> pt_sent_end_offset t \<le> length (pt_eiad t) \<and>
    pt_sent_end_offset t - pt_acknowledged_offset t \<le> 6 * 1024 \<and> unat (pt_retry_count t) \<le> 16 \<and>
    pt_eiad t \<noteq> [] \<and> length (pt_eiad t) = unat (pb_total_bytes (pt_begin t)) \<and>
    (pt_phase t = BeginAck \<longrightarrow> pt_sent_end_offset t = 0) \<and>
    (pt_phase t \<in> {DeviceFinished, HostCommit} \<longrightarrow> pt_acknowledged_offset t = length (pt_eiad t))"
  using reach_good [OF assms]
  by (auto simp: transfer_good_def transfer_ok_def word_le_nat_alt PLAYBACK_CHUNK_BYTES_def
      PLAYBACK_SEND_WINDOW_CHUNKS_def PLAYBACK_MAX_RETRIES_def)

text \<open>one command, datagram or tick makes the host send at most six datagrams, the receive mailbox
  of the keyboard, and nothing that was sent is taken back.\<close>

lemma playback_burst_bounded:
  assumes "playback_reach S hmac seal orc k p io" "key = None \<or> key = Some k"
  shows "\<exists>ps. io_sent (snd (playback_step hmac seal orc key now inp p io)) = io_sent io @ ps \<and> length ps \<le> 6"
proof -
  obtain p' io' where st: "playback_step hmac seal orc key now inp p io = (p', io')" by fastforce
  have "playback_reach UNIV hmac seal orc k p io" using assms(1) by (rule reach_mono) simp
  then have "step_ok UNIV hmac seal k p io p' io'"
    by (rule playback_step_ok [OF reach_good _ assms(2) st]) simp_all
  then show ?thesis using st by (auto simp: step_ok_def PLAYBACK_SEND_WINDOW_CHUNKS_def)
qed

lemma byte_sent_decodes:
  assumes "byte_sent hmac seal k b source eiad sent pos" "aead_correct seal opn" "length eiad = unat (pb_total_bytes b)"
  shows "\<exists>packet off chunk. (packet, source) \<in> set sent \<and>
    decode_data hmac opn k packet (pb_request_nonce b) = Ok (pb_identity b, off, chunk) \<and>
    unat off \<le> pos \<and> pos < unat off + length chunk \<and> chunk ! (pos - unat off) = eiad ! pos"
proof -
  obtain off stop packet where h: "off \<le> pos" "pos < stop" "stop \<le> length eiad" "(packet, source) \<in> set sent"
    "encode_data hmac seal k (pb_identity b) (pb_request_nonce b) (of_nat off) (slice off stop eiad) = Ok packet"
    using assms(1) by (auto simp: byte_sent_def)
  have "off < 2 ^ 32" using h assms(3) unsigned_less [of "pb_total_bytes b", where ?'a = nat] by simp
  then have "unat (of_nat off :: u32) = off" by (simp add: unat_of_nat)
  then show ?thesis
    using h decode_encode_data [OF assms(2) h(5)]
    by (intro exI [of _ packet] exI [of _ "of_nat off"] exI [of _ "slice off stop eiad"])
      (auto simp: length_slice slice_def)
qed

text \<open>C14: the host hears that a playback finished only for a recording it started, and only when every
  byte of that recording went out in an authenticated data packet that the keyboard decodes to this
  byte, and the keyboard played the announced number of samples.\<close>

theorem finished_means_delivered:
  assumes "playback_reach S hmac seal orc k p io" "aead_correct seal opn" "Finished f \<in> set (io_events io)"
  shows "\<exists>s \<in> S. pb_identity (ls_begin s) = pf_identity f \<and> pb_total_samples (ls_begin s) = pf_played_samples f \<and>
    ls_eiad s \<noteq> [] \<and> length (ls_eiad s) = unat (pb_total_bytes (ls_begin s)) \<and>
    (\<forall>pos < length (ls_eiad s). \<exists>packet off chunk. (packet, ls_source s) \<in> set (io_sent io) \<and>
       decode_data hmac opn k packet (pb_request_nonce (ls_begin s)) = Ok (pb_identity (ls_begin s), off, chunk) \<and>
       unat off \<le> pos \<and> pos < unat off + length chunk \<and> chunk ! (pos - unat off) = ls_eiad s ! pos)"
proof -
  have "delivered S hmac seal k (io_sent io) f"
    using playback_reach_inv [OF assms(1)] assms(3) by (simp add: playback_inv_def)
  then obtain s where d: "s \<in> S" "pb_identity (ls_begin s) = pf_identity f" "pb_total_samples (ls_begin s) = pf_played_samples f"
    "ls_eiad s \<noteq> []" "length (ls_eiad s) = unat (pb_total_bytes (ls_begin s))"
    "\<forall>pos < length (ls_eiad s). byte_sent hmac seal k (ls_begin s) (ls_source s) (ls_eiad s) (io_sent io) pos"
    unfolding delivered_def by blast
  then show ?thesis using byte_sent_decodes [OF _ assms(2) d(5)] by (intro bexI [of _ s]) simp_all
qed

text \<open>C35: play requests are never replayed: of those passed to the host thread, the ones of one slot and
  connection have strictly increasing request generations.\<close>

theorem requests_never_replayed:
  assumes "playback_reach S hmac seal orc k p io"
  shows "sorted_wrt (<) (stream_of c (requests (io_events io)))"
  using playback_reach_inv [OF assms] unfolding playback_inv_def streams_ok_def by blast

section \<open>A silent keyboard\<close>

fun run_ticks ::
  "hmac_sha256 \<Rightarrow> aead_seal \<Rightarrow> send_oracle \<Rightarrow> bytes32 \<Rightarrow> instant list \<Rightarrow> active_lan_playback \<Rightarrow> playback_io
   \<Rightarrow> active_lan_playback \<times> playback_io" where
  "run_ticks hmac seal orc k [] p io = (p, io)"
| "run_ticks hmac seal orc k (now # ts) p io =
     (let (p, io) = tick hmac seal orc (Some k) now p io in run_ticks hmac seal orc k ts p io)"

text \<open>How many of these ticks are due: at least the retry interval after the send before them, which
  is the given one or that of the last due tick. The receive loop ticks every 50 ms, so most are not.\<close>

fun due_ticks :: "instant \<Rightarrow> instant list \<Rightarrow> nat" where
  "due_ticks last_at [] = 0"
| "due_ticks last_at (now # ts) =
     (if now - last_at < PLAYBACK_RETRY then due_ticks last_at ts else Suc (due_ticks now ts))"

text \<open>Every send succeeds and the cipher seals every chunk.\<close>

definition link_up :: "send_oracle \<Rightarrow> aead_seal \<Rightarrow> bool" where
  "link_up orc seal \<longleftrightarrow> (\<forall>n. orc n \<noteq> None) \<and> (\<forall>key nonce aad m. seal key nonce aad m \<noteq> None)"

lemma link_upD: "link_up orc seal \<Longrightarrow> \<exists>b. orc n = Some b" "link_up orc seal \<Longrightarrow> \<exists>b t. seal key nonce aad m = Some (b, t)"
  by (auto simp: link_up_def)

lemma send_chunks_succeeds:
  assumes "link_up orc seal"
    "valid_identity (pb_identity (pt_begin t))" "pb_request_nonce (pt_begin t) \<noteq> 0" "stop \<le> length (pt_eiad t)"
  shows "fst (send_chunks hmac seal orc k t offset stop io) = AllSent"
  using assms
proof (induction hmac seal orc k t offset stop io rule: send_chunks.induct)
  case (1 hmac seal orc key t offset stop io)
  let ?stop = "min (offset + PLAYBACK_CHUNK_BYTES) stop"
  show ?case
  proof (cases "offset < stop")
    case True
    have "slice offset ?stop (pt_eiad t) \<noteq> []" "length (slice offset ?stop (pt_eiad t)) \<le> PLAYBACK_CHUNK_BYTES"
      using True 1(5) by (auto simp: slice_def PLAYBACK_CHUNK_BYTES_def)
    moreover obtain body tag where "seal (derive_data_key hmac key (pb_identity (pt_begin t)) (pb_request_nonce (pt_begin t)))
        (data_nonce (of_nat offset)) (data_header (pb_identity (pt_begin t)) (of_nat offset)
          (length (slice offset ?stop (pt_eiad t)))) (slice offset ?stop (pt_eiad t)) = Some (body, tag)"
      using link_upD(2) [OF 1(2)] by blast
    ultimately obtain packet where e: "encode_data hmac seal key (pb_identity (pt_begin t)) (pb_request_nonce (pt_begin t)) (of_nat offset)
          (slice offset ?stop (pt_eiad t)) = Ok packet"
      using 1(3,4) by (auto simp: encode_data_def Let_def)
    obtain n io1 where s: "send_to orc packet (pt_source t) io = (Some n, io1)"
      using link_upD(1) [OF 1(2), of "io_attempts io"] by (auto simp: send_to_def Let_def)
    have "fst (send_chunks hmac seal orc key t ?stop stop io1) = AllSent"
      by (rule 1(1) [OF True refl e s [symmetric] refl]) (use 1(2-5) in auto)
    then show ?thesis using True e s by (simp add: send_chunks.simps [of _ _ _ _ _ offset] Let_def)
  qed (simp add: send_chunks.simps [of _ _ _ _ _ offset])
qed

lemma tick_retries:
  assumes tr: "lp_transfer p = Some t" "pt_phase t = BeginAck \<or> pt_phase t = DataAck" "pt_sent_end_offset t \<le> length (pt_eiad t)"
    and now: "\<not> now - pt_last_send t < PLAYBACK_RETRY" and retry: "pt_retry_count t < PLAYBACK_MAX_RETRIES"
    and net: "link_up orc seal"
      "valid_identity (pb_identity (pt_begin t))" "pb_request_nonce (pt_begin t) \<noteq> 0"
  shows "\<exists>p' io'. tick hmac seal orc (Some k) now p io = (p', io') \<and>
    lp_transfer p' = Some (t\<lparr>pt_retry_count := pt_retry_count t + 1, pt_last_send := now\<rparr>)"
proof -
  define p1 where "p1 = expire_retired now p"
  have p1: "lp_transfer p1 = Some t" using tr by (simp add: p1_def expire_retired_def Let_def)
  have wait: "\<not> now - pt_last_send t < PLAYBACK_RETRY" "\<not> PLAYBACK_MAX_RETRIES \<le> pt_retry_count t" using now retry by auto
  show ?thesis
  proof (cases "pt_phase t = BeginAck")
    case True
    obtain n io1 where "send_to orc (encode_begin hmac k (pt_begin t)) (pt_source t) io = (Some n, io1)"
      using link_upD(1) [OF net(1), of "io_attempts io"] by (auto simp: send_to_def Let_def)
    then show ?thesis using True wait p1 by (simp add: tick_def Let_def p1_def [symmetric])
  next
    case False
    then have ph: "pt_phase t = DataAck" using tr by simp
    obtain r io1 where "send_chunks hmac seal orc k t (pt_acknowledged_offset t) (pt_sent_end_offset t) io = (r, io1)" by fastforce
    moreover from this have "r = AllSent"
      using send_chunks_succeeds [OF net tr(3), where hmac = hmac and k = k and offset = "pt_acknowledged_offset t" and io = io] by simp
    ultimately have "send_chunks hmac seal orc k t (pt_acknowledged_offset t) (pt_sent_end_offset t) io = (AllSent, io1)" by simp
    then show ?thesis using ph wait p1 by (simp add: tick_def Let_def p1_def [symmetric])
  qed
qed

lemma tick_gives_up:
  assumes tr: "lp_transfer p = Some t" "pt_phase t = BeginAck \<or> pt_phase t = DataAck"
    and now: "\<not> now - pt_last_send t < PLAYBACK_RETRY" and retry: "PLAYBACK_MAX_RETRIES \<le> pt_retry_count t"
  shows "tick hmac seal orc (Some k) now p io = drop_transfer t (expire_retired now p) io"
proof -
  have "lp_transfer (expire_retired now p) = Some t" using tr by (simp add: expire_retired_def Let_def)
  then show ?thesis using assms by (auto simp: tick_def Let_def)
qed

lemma tick_early:
  assumes "lp_transfer p = Some t" "pt_phase t = BeginAck \<or> pt_phase t = DataAck" "now - pt_last_send t < PLAYBACK_RETRY"
  shows "tick hmac seal orc (Some k) now p io = (expire_retired now p, io)" "lp_transfer (expire_retired now p) = Some t"
proof -
  show tr: "lp_transfer (expire_retired now p) = Some t" using assms(1) by (simp add: expire_retired_def Let_def)
  show "tick hmac seal orc (Some k) now p io = (expire_retired now p, io)"
    using assms(2,3) tr by (auto simp: tick_def Let_def)
qed

lemma ticks_idle:
  assumes "lp_transfer p = None"
  shows "lp_transfer (fst (run_ticks hmac seal orc k ts p io)) = None \<and> snd (run_ticks hmac seal orc k ts p io) = io"
  using assms
proof (induction ts arbitrary: p)
  case (Cons now ts)
  have "lp_transfer (expire_retired now p) = None" using Cons.prems by (simp add: expire_retired_def Let_def)
  moreover from this have "tick hmac seal orc (Some k) now p io = (expire_retired now p, io)" by (simp add: tick_def Let_def)
  ultimately show ?case using Cons.IH by simp
qed simp

lemma ticks_cancel:
  assumes net: "link_up orc seal"
      "valid_identity (pb_identity (pt_begin t))" "pb_request_nonce (pt_begin t) \<noteq> 0"
    and "lp_transfer p = Some t" "pt_phase t = BeginAck \<or> pt_phase t = DataAck" "pt_sent_end_offset t \<le> length (pt_eiad t)"
      "unat (pt_retry_count t) \<le> 16" "17 - unat (pt_retry_count t) \<le> due_ticks (pt_last_send t) ts"
  shows "lp_transfer (fst (run_ticks hmac seal orc k ts p io)) = None \<and>
    Cancelled (pb_identity (pt_begin t)) \<in> set (io_events (snd (run_ticks hmac seal orc k ts p io)))"
  using assms
proof (induction ts arbitrary: t p io)
  case Nil
  then show ?case by simp
next
  case (Cons now ts)
  consider (early) "now - pt_last_send t < PLAYBACK_RETRY"
    | (retry) "\<not> now - pt_last_send t < PLAYBACK_RETRY" "pt_retry_count t < PLAYBACK_MAX_RETRIES"
    | (up) "\<not> now - pt_last_send t < PLAYBACK_RETRY" "PLAYBACK_MAX_RETRIES \<le> pt_retry_count t"
    by fastforce
  then show ?case
  proof cases
    case early
    have "lp_transfer (fst (run_ticks hmac seal orc k ts (expire_retired now p) io)) = None \<and>
      Cancelled (pb_identity (pt_begin t)) \<in> set (io_events (snd (run_ticks hmac seal orc k ts (expire_retired now p) io)))"
      by (rule Cons.IH) (use Cons.prems tick_early(2) [OF Cons.prems(4,5) early] early in auto)
    then show ?thesis using tick_early(1) [OF Cons.prems(4,5) early] by simp
  next
    case retry
    then have r: "unat (pt_retry_count t) < 16" by (simp add: word_less_nat_alt PLAYBACK_MAX_RETRIES_def)
    then have r1: "unat (pt_retry_count t + 1) = Suc (unat (pt_retry_count t))" by (simp add: unat_word_ariths)
    let ?t = "t\<lparr>pt_retry_count := pt_retry_count t + 1, pt_last_send := now\<rparr>"
    obtain p' io' where st: "tick hmac seal orc (Some k) now p io = (p', io')" "lp_transfer p' = Some ?t"
      using tick_retries [OF Cons.prems(4-6) retry Cons.prems(1-3)] by blast
    have "lp_transfer (fst (run_ticks hmac seal orc k ts p' io')) = None \<and>
      Cancelled (pb_identity (pt_begin ?t)) \<in> set (io_events (snd (run_ticks hmac seal orc k ts p' io')))"
      by (rule Cons.IH) (use Cons.prems st(2) r r1 retry(1) in auto)
    then show ?thesis using st(1) by simp
  next
    case up
    obtain p' io' where d: "drop_transfer t (expire_retired now p) io = (p', io')" by fastforce
    then have "lp_transfer p' = None" "Cancelled (pb_identity (pt_begin t)) \<in> set (io_events io')"
      by (auto simp: drop_transfer_def emit_def)
    then show ?thesis
      using ticks_idle [of p' hmac seal orc k ts io'] tick_gives_up [OF Cons.prems(4,5) up, of hmac seal orc k io] d by simp
  qed
qed

text \<open>While no send succeeds the retries are not counted: a begin message that cannot be sent is tried on
  every due tick, and the transfer is neither dropped nor reported, however long this lasts.\<close>

lemma failing_sends_hold_transfer:
  assumes "\<forall>n. orc n = None" "lp_transfer p = Some t" "pt_phase t = BeginAck" "pt_retry_count t < PLAYBACK_MAX_RETRIES"
  shows "lp_transfer (fst (run_ticks hmac seal orc k ts p io)) = Some t \<and>
    io_events (snd (run_ticks hmac seal orc k ts p io)) = io_events io"
  using assms(2)
proof (induction ts arbitrary: p io)
  case (Cons now ts)
  have "lp_transfer (expire_retired now p) = Some t" using Cons.prems by (simp add: expire_retired_def Let_def)
  moreover have "send_to orc m dest io = (None, io\<lparr>io_attempts := Suc (io_attempts io)\<rparr>)" for m dest
    using assms(1) by (simp add: send_to_def Let_def)
  ultimately have "tick hmac seal orc (Some k) now p io \<in>
      {(expire_retired now p, io), (expire_retired now p, io\<lparr>io_attempts := Suc (io_attempts io)\<rparr>)}"
    using assms(3,4) by (simp add: tick_def Let_def linorder_not_le [symmetric])
  then show ?case using Cons.IH \<open>lp_transfer (expire_retired now p) = Some t\<close> by auto
qed simp

text \<open>C36: a keyboard that stops answering cannot hold the host's only transfer. Ticks come at any times; a
  tick is due when 250 ms have passed since the last send, and the others do nothing. A transfer that waits
  for an acknowledgement of its begin message or of data, and whose sends succeed, is dropped and reported
  as cancelled by any run of ticks of which as many are due as are left of its sixteen retries, plus one.\<close>

theorem silent_keyboard_cancelled:
  assumes "playback_reach S hmac seal orc k p io" "lp_transfer p = Some t" "pt_phase t = BeginAck \<or> pt_phase t = DataAck"
    and "link_up orc seal"
    and "valid_identity (pb_identity (pt_begin t))" "pb_request_nonce (pt_begin t) \<noteq> 0"
    and "17 - unat (pt_retry_count t) \<le> due_ticks (pt_last_send t) ts"
  shows "lp_transfer (fst (run_ticks hmac seal orc k ts p io)) = None \<and>
    Cancelled (pb_identity (pt_begin t)) \<in> set (io_events (snd (run_ticks hmac seal orc k ts p io)))"
proof -
  have "transfer_ok t" using reach_good [OF assms(1,2)] by (simp add: transfer_good_def)
  then have "pt_sent_end_offset t \<le> length (pt_eiad t)" "unat (pt_retry_count t) \<le> 16"
    by (auto simp: transfer_ok_def word_le_nat_alt PLAYBACK_MAX_RETRIES_def)
  then show ?thesis using assms by (intro ticks_cancel) auto
qed


section \<open>A playback from start to finish\<close>

fun playback_run ::
  "hmac_sha256 \<Rightarrow> aead_seal \<Rightarrow> send_oracle \<Rightarrow> bytes32 \<Rightarrow> (instant \<times> playback_input) list \<Rightarrow> active_lan_playback \<times> playback_io
   \<Rightarrow> active_lan_playback \<times> playback_io" where
  "playback_run hmac seal orc k [] s = s"
| "playback_run hmac seal orc k ((now, inp) # ins) s =
     playback_run hmac seal orc k ins (playback_step hmac seal orc (Some k) now inp (fst s) (snd s))"

lemma reach_next:
  "playback_reach S hmac seal orc k p io \<Longrightarrow> (\<And>s. inp = Command (Start s) \<Longrightarrow> s \<in> S) \<Longrightarrow> playback_step hmac seal orc (Some k) now inp p io = s \<Longrightarrow>
   playback_reach S hmac seal orc k (fst s) (snd s)"
  by (cases s) (auto intro: reach_step)

lemma playback_run_reach:
  "playback_reach S hmac seal orc k (fst s) (snd s) \<Longrightarrow> {s. \<exists>now. (now, Command (Start s)) \<in> set ins} \<subseteq> S \<Longrightarrow>
   playback_reach S hmac seal orc k (fst (playback_run hmac seal orc k ins s)) (snd (playback_run hmac seal orc k ins s))"
proof (induction hmac seal orc k ins s rule: playback_run.induct)
  case (2 hmac seal orc k now inp ins s)
  have "playback_reach S hmac seal orc k (fst (playback_step hmac seal orc (Some k) now inp (fst s) (snd s)))
      (snd (playback_step hmac seal orc (Some k) now inp (fst s) (snd s)))"
    using 2(2,3) by (intro reach_next [OF _ _ refl]) auto
  then show ?case using 2(1,3) by auto
qed simp

text \<open>A packet that the keyboard encodes under the same key is read as what it says.\<close>

lemma packet_magic:
  assumes "length m = 4"
  shows "starts_with m (encode_ack hmac k a) \<longleftrightarrow> m = EIPA" "starts_with m (encode_finished hmac k f) \<longleftrightarrow> m = EIPF"
    "starts_with m (encode_request hmac k r) \<longleftrightarrow> m = EIPR"
proof -
  have "slice 0 4 (encode_ack hmac k a) = EIPA" by (simp add: encode_ack_def roundtrip_simps)
  moreover have "slice 0 4 (encode_finished hmac k f) = EIPF" by (simp add: encode_finished_def roundtrip_simps)
  moreover have "slice 0 4 (encode_request hmac k r) = EIPR" by (simp add: encode_request_def roundtrip_simps)
  ultimately show "starts_with m (encode_ack hmac k a) \<longleftrightarrow> m = EIPA" "starts_with m (encode_finished hmac k f) \<longleftrightarrow> m = EIPF"
    "starts_with m (encode_request hmac k r) \<longleftrightarrow> m = EIPR" using assms by (auto simp: slice_def starts_with_def)
qed

lemma magic_facts: "length EIPA = 4" "length EIPF = 4" "length EIPR = 4" "EIPA \<noteq> EIPF" "EIPR \<noteq> EIPA" "EIPR \<noteq> EIPF"
  by (simp_all add: magic_defs)

lemma ingest_ack:
  "valid_ack a \<Longrightarrow> playback_ingest hmac seal orc (encode_ack hmac k a) source k now p io =
     accept_ack hmac seal orc a source k now p io"
  by (simp add: playback_ingest_def packet_magic magic_facts decode_encode_ack)

lemma ingest_finished:
  "valid_finished f \<Longrightarrow> playback_ingest hmac seal orc (encode_finished hmac k f) source k now p io =
     accept_finished hmac orc f source k now p io"
  by (simp add: playback_ingest_def packet_magic magic_facts decode_encode_finished)

lemma ingest_request:
  "valid_request r \<Longrightarrow> playback_ingest hmac seal orc (encode_request hmac k r) source k now p io =
     (let (accepted, p) = accept_request_generation r p
      in if \<not> accepted then (p, io)
         else let (p, io) = (case lp_transfer p of Some t \<Rightarrow> drop_transfer t p io | None \<Rightarrow> (p, io))
              in (p, emit (Request \<lparr> lr_request = r, lr_source = source \<rparr>) io))"
  by (simp add: playback_ingest_def packet_magic magic_facts decode_encode_request)

definition demo_hmac :: hmac_sha256 where "demo_hmac key m = 5"

definition demo_begin :: playback_begin where
  "demo_begin = \<lparr> pb_identity = sample_identity, pb_total_bytes = 3, pb_total_samples = 5, pb_chunk_bytes = 1024, pb_request_nonce = 1 \<rparr>"

definition demo_request :: playback_request where
  "demo_request = \<lparr> pr_slot = 2, pr_request_generation = 7, pr_connection_generation = 9, pr_nonce = 1 \<rparr>"

definition demo_start :: lan_playback_start where
  "demo_start = \<lparr> ls_begin = demo_begin, ls_source = 9, ls_eiad = [10, 20, 30] \<rparr>"

definition demo_inputs :: "(instant \<times> playback_input) list" where
  "demo_inputs =
     [(0, Packet (encode_request demo_hmac 4 demo_request) 9),
      (5, Packet (encode_request demo_hmac 4 demo_request) 9),
      (10, Command (Start demo_start)),
      (20, Packet (encode_ack demo_hmac 4 \<lparr> pa_identity = sample_identity, pa_status = 0, pa_next_offset = 0 \<rparr>) 9),
      (30, Packet (encode_ack demo_hmac 4 \<lparr> pa_identity = sample_identity, pa_status = 0, pa_next_offset = 3 \<rparr>) 9),
      (40, Packet (encode_finished demo_hmac 4 \<lparr> pf_identity = sample_identity, pf_played_samples = 5 \<rparr>) 9)]"

definition demo_run :: "nat \<Rightarrow> active_lan_playback \<times> playback_io" where
  "demo_run n = playback_run demo_hmac plain_seal (\<lambda>n. Some 0) 4 (take n demo_inputs) (default_playback, empty_io)"

lemma demo_reach: "playback_reach {demo_start} demo_hmac plain_seal (\<lambda>n. Some 0) 4 (fst (demo_run n)) (snd (demo_run n))"
proof -
  have "set (take n demo_inputs) \<subseteq> set demo_inputs" by (rule set_take_subset)
  then have "{s. \<exists>now. (now, Command (Start s)) \<in> set (take n demo_inputs)} \<subseteq> {demo_start}"
    by (auto simp: demo_inputs_def)
  then show ?thesis unfolding demo_run_def by (intro playback_run_reach) (simp_all add: reach_init)
qed

lemma demo_valid:
  "valid_identity sample_identity" "valid_request demo_request"
  "valid_ack \<lparr> pa_identity = sample_identity, pa_status = 0, pa_next_offset = n \<rparr>"
  "valid_finished \<lparr> pf_identity = sample_identity, pf_played_samples = 5 \<rparr>"
  by (simp_all add: sample_identity_def valid_identity_def valid_request_def demo_request_def valid_ack_def valid_finished_def)

definition demo_transfer :: active_playback_transfer where
  "demo_transfer = \<lparr> pt_begin = demo_begin, pt_source = 9, pt_eiad = [10, 20, 30], pt_phase = BeginAck,
     pt_acknowledged_offset = 0, pt_sent_end_offset = 0, pt_last_send = 10, pt_retry_count = 0,
     pt_finish_deadline = 10 + PLAYBACK_FINISH_TIMEOUT, pt_started_at = 10 \<rparr>"

lemma demo_fields [simp]:
  "pt_begin demo_transfer = demo_begin" "pt_source demo_transfer = 9" "pt_eiad demo_transfer = [10, 20, 30]"
  "pt_phase demo_transfer = BeginAck" "pt_acknowledged_offset demo_transfer = 0" "pt_sent_end_offset demo_transfer = 0"
  "pt_last_send demo_transfer = 10" "pt_retry_count demo_transfer = 0"
  "pb_identity demo_begin = sample_identity" "pb_total_samples demo_begin = 5" "pb_request_nonce demo_begin = 1"
  "pb_total_bytes demo_begin = 3" "pr_slot demo_request = 2" "pr_connection_generation demo_request = 9"
  "pr_request_generation demo_request = 7"
  by (simp_all add: demo_transfer_def demo_begin_def demo_request_def)

lemma demo_chunks:
  "\<exists>io'. send_chunks demo_hmac plain_seal (\<lambda>n. Some 0) 4 (demo_transfer\<lparr>pt_acknowledged_offset := 0, pt_retry_count := 0\<rparr>) 0 3 io = (AllSent, io') \<and>
     io_events io' = io_events io"
proof -
  let ?s = "send_chunks demo_hmac plain_seal (\<lambda>n. Some 0) 4 (demo_transfer\<lparr>pt_acknowledged_offset := 0, pt_retry_count := 0\<rparr>) 0 3 io"
  have "fst ?s = AllSent"
    by (rule send_chunks_succeeds)
      (simp_all add: link_up_def plain_seal_def demo_valid)
  moreover have "io_events (snd ?s) = io_events io"
    by (rule send_chunks_spec(1) [of _ _ _ _ _ _ _ _ "fst ?s", OF prod.collapse [symmetric]]) (simp add: numeral_3_eq_3)
  ultimately show ?thesis by (metis prod.collapse)
qed

lemma demo_run_3:
  "lp_transfer (fst (demo_run 3)) = Some demo_transfer" "requests (io_events (snd (demo_run 3))) = [demo_request]"
  by (simp_all add: demo_run_def demo_inputs_def demo_start_def playback_step_def ingest_request demo_valid default_playback_def empty_io_def
      accept_request_generation_def handle_command_def send_to_def emit_def demo_transfer_def Let_def)

lemma demo_run_6:
  "\<exists>t. lp_transfer (fst (demo_run 4)) = Some t"
  "Finished \<lparr> pf_identity = sample_identity, pf_played_samples = 5 \<rparr> \<in> set (io_events (snd (demo_run 6)))"
  "requests (io_events (snd (demo_run 6))) = [demo_request]"
proof -
  let ?s = "demo_run 3"
  obtain io' where c: "send_chunks demo_hmac plain_seal (\<lambda>n. Some 0) 4 (demo_transfer\<lparr>pt_acknowledged_offset := 0, pt_retry_count := 0\<rparr>) 0 3 (snd ?s) = (AllSent, io')"
    "io_events io' = io_events (snd ?s)"
    using demo_chunks by blast
  have "\<exists>p io. demo_run 3 = (p, io)" by fastforce
  then obtain p io where s: "demo_run 3 = (p, io)" by blast
  have p: "lp_transfer p = Some demo_transfer" and r: "requests (io_events io) = [demo_request]" using demo_run_3 s by simp_all
  have step: "demo_run 4 = playback_step demo_hmac plain_seal (\<lambda>n. Some 0) (Some 4) 20
      (Packet (encode_ack demo_hmac 4 \<lparr> pa_identity = sample_identity, pa_status = 0, pa_next_offset = 0 \<rparr>) 9) p io"
    using s by (simp add: demo_run_def demo_inputs_def)
  let ?t4 = "demo_transfer\<lparr>pt_acknowledged_offset := 0, pt_retry_count := 0, pt_sent_end_offset := 3, pt_phase := DataAck, pt_last_send := 20\<rparr>"
  have d4: "demo_run 4 = (p\<lparr>lp_transfer := Some ?t4\<rparr>, io')"
    using c s unfolding step
    by (simp add: playback_step_def ingest_ack demo_valid accept_ack_def p send_or_drop_def send_next_data_def Let_def
        PLAYBACK_CHUNK_BYTES_def PLAYBACK_SEND_WINDOW_CHUNKS_def numeral_3_eq_3)
  then show "\<exists>t. lp_transfer (fst (demo_run 4)) = Some t" by simp
  have "demo_run 6 = playback_step demo_hmac plain_seal (\<lambda>n. Some 0) (Some 4) 40
      (Packet (encode_finished demo_hmac 4 \<lparr> pf_identity = sample_identity, pf_played_samples = 5 \<rparr>) 9)
      (p\<lparr>lp_transfer := Some (?t4\<lparr>pt_acknowledged_offset := 3, pt_retry_count := 0, pt_phase := DeviceFinished,
          pt_finish_deadline := 30 + PLAYBACK_FINISH_TIMEOUT\<rparr>)\<rparr>) io'"
    using d4 by (simp add: demo_run_def demo_inputs_def playback_step_def ingest_ack demo_valid accept_ack_def Let_def
       )
  then show "Finished \<lparr> pf_identity = sample_identity, pf_played_samples = 5 \<rparr> \<in> set (io_events (snd (demo_run 6)))"
    "requests (io_events (snd (demo_run 6))) = [demo_request]"
    using c(2) r s by (simp_all add: playback_step_def ingest_finished demo_valid accept_finished_def emit_def)
qed

theorem playback_window_bounds_witness:
  "\<exists>t. lp_transfer (fst (demo_run 4)) = Some t \<and> pt_sent_end_offset t - pt_acknowledged_offset t \<le> 6 * 1024"
proof -
  obtain t where "lp_transfer (fst (demo_run 4)) = Some t" using demo_run_6(1) by blast
  with playback_window_bounds [OF demo_reach this] show ?thesis by blast
qed

lemma playback_burst_bounded_witness:
  "\<exists>ps. io_sent (snd (playback_step demo_hmac plain_seal (\<lambda>n. Some 0) (Some 4) 300 Tick (fst (demo_run 4)) (snd (demo_run 4)))) =
     io_sent (snd (demo_run 4)) @ ps \<and> length ps \<le> 6"
  using playback_burst_bounded [OF demo_reach, of "Some 4" 300 Tick 4] by simp

theorem finished_means_delivered_witness:
  "\<exists>packet off chunk. (packet, 9) \<in> set (io_sent (snd (demo_run 6))) \<and>
     decode_data demo_hmac plain_open 4 packet 1 = Ok (sample_identity, off, chunk) \<and>
     unat off \<le> 2 \<and> 2 < unat off + length chunk \<and> chunk ! (2 - unat off) = 30"
proof -
  have "ls_source demo_start = 9" "ls_eiad demo_start = [10, 20, 30]" "ls_begin demo_start = demo_begin"
    by (simp_all add: demo_start_def)
  then have "\<forall>pos < length (ls_eiad demo_start). \<exists>packet off chunk. (packet, 9) \<in> set (io_sent (snd (demo_run 6))) \<and>
      decode_data demo_hmac plain_open 4 packet 1 = Ok (sample_identity, off, chunk) \<and>
      unat off \<le> pos \<and> pos < unat off + length chunk \<and> chunk ! (pos - unat off) = [10, 20, 30] ! pos"
    using finished_means_delivered [OF demo_reach plain_aead_correct demo_run_6(2)] by auto
  then show ?thesis using \<open>ls_eiad demo_start = _\<close> by (auto dest!: spec [of _ 2] simp: numeral_3_eq_3 numeral_2_eq_2)
qed

theorem requests_never_replayed_witness:
  "requests (io_events (snd (demo_run 6))) = [demo_request] \<and>
   sorted_wrt (<) (stream_of (2, 9) (requests (io_events (snd (demo_run 6)))))"
  using demo_run_6(3) requests_never_replayed [OF demo_reach] by blast

text \<open>Ticks every 50 ms: every fifth is due, and the eighty-fifth gives up.\<close>

theorem silent_keyboard_cancelled_witness:
  "Cancelled sample_identity \<in> set (io_events (snd (run_ticks demo_hmac plain_seal (\<lambda>n. Some 0) 4
     (map (\<lambda>i. 50 * i + 60) [0..<85]) (fst (demo_run 3)) (snd (demo_run 3)))))"
proof -
  have ts: "17 \<le> due_ticks 10 (map (\<lambda>i. 50 * i + 60) [0..<85])" by code_simp
  show ?thesis
    using silent_keyboard_cancelled [OF demo_reach demo_run_3(1), of "map (\<lambda>i. 50 * i + 60) [0..<85]"] ts
    by (simp add: link_up_def plain_seal_def demo_valid)
qed

end
