(* ===== verification/Store_Schema.thy ===== *)
theory Store_Schema
  imports Text_Checks
begin

text \<open>
  The state database of \<open>app/host/src/store.rs\<close>: one record per SQLite table of the
  schema that \<open>migrate\<close> creates, the CHECK, UNIQUE, PRIMARY KEY and FOREIGN KEY
  constraints as bool-valued functions on tables, statements as functions that fail with a
  constraint violation where SQLite does, and transactions that commit or roll back. Rows
  are in rowid order. The columns \<open>created_at\<close> and \<open>updated_at\<close>, which no statement
  reads, are left out; \<open>observed_at\<close>, which orders completions, is kept.
\<close>

section \<open>Errors\<close>

datatype sqlite_error =
    ConstraintViolation
  | IntegralValueOutOfRange
  | FromSqlConversionFailure
  | DatabaseFull
  | QueryReturnedNoRows
  | InvalidColumnType

datatype store_error =
    StoreIo
  | Sqlite sqlite_error
  | UnsupportedSchema int
  | InvalidSlot
  | GenerationOutOfRange
  | ClaimGenerationOutOfRange
  | AlreadyRunning
  | RequestIdConflict
  | InvalidJob
  | TaskQueueFull
  | StatePathChanged
  | RolloutCursorChanged
  | BindingChanged
  | CompletionConflict
  | InvalidCompletion
  | InvalidSummaryRequest
  | SummaryBusy
  | SummaryRequestConflict
  | SummaryRequestAbandoned
  | SummaryGenerationOutOfRange
  | SummaryClaimChanged
  | InvalidSummaryState
  | InvalidSummaryCacheReference
  | SummaryTtsAttemptChanged
  | InvalidPlaybackLease
  | PlaybackBusy

section \<open>Rows\<close>

datatype job_state = Queued | Running | Completed | Failed

datatype summary_state =
  Generating | Interrupted | Abandoned | Unheard | Leased | Heard | Superseded

datatype tts_state = TtsStarted | TtsAmbiguous

type_synonym path = "u8 list"

record binding_row =
  b_slot :: u8
  b_task_id :: string
  b_generation :: int

record job_row =
  j_sequence :: int
  j_request_id :: string
  j_task_id :: string
  j_slot :: u8
  j_generation :: int
  j_prompt :: string
  j_cwd :: path
  j_state :: job_state
  j_recovery_count :: int
  j_claim_generation :: int
  j_failure_kind :: "string option"

record completion_row =
  c_completion_id :: string
  c_task_id :: string
  c_rollout_cursor :: string
  c_observed_at :: int
  c_summarized_generation :: "int option"
  c_turn_pack :: string

record cursor_row =
  r_task_id :: string
  r_rollout_path :: path
  r_device :: int
  r_inode :: int
  r_offset :: int
  r_generation :: int
  r_anchor :: "u8 list"

record summary_row =
  s_task_id :: string
  s_generation :: int
  s_state :: summary_state
  s_covers :: string
  s_cache_object :: "string option"
  s_request_id :: "string option"
  s_claim_id :: "string option"
  s_previous_generation :: "int option"
  s_superseded_by :: "int option"

record tts_row =
  t_task_id :: string
  t_generation :: int
  t_state :: tts_state

record lease_row =
  l_lease_id :: int
  l_task_id :: string
  l_summary_generation :: int
  l_slot :: u8
  l_request_generation :: int
  l_connection_generation :: int

text \<open>\<open>db_job_sequence\<close> is the AUTOINCREMENT counter SQLite keeps for the jobs table.\<close>

record db =
  db_bindings :: "binding_row list"
  db_jobs :: "job_row list"
  db_job_sequence :: int
  db_completions :: "completion_row list"
  db_cursors :: "cursor_row list"
  db_summaries :: "summary_row list"
  db_tts_attempts :: "tts_row list"
  db_leases :: "lease_row list"

definition empty_db :: db where
  "empty_db = \<lparr> db_bindings = [], db_jobs = [], db_job_sequence = 0, db_completions = [],
     db_cursors = [], db_summaries = [], db_tts_attempts = [], db_leases = [] \<rparr>"

section \<open>Constraints\<close>

definition slot_in_range :: "u8 \<Rightarrow> bool" where
  "slot_in_range s \<longleftrightarrow> 1 \<le> s \<and> s \<le> 4"

definition bindings_ok :: "binding_row list \<Rightarrow> bool" where
  "bindings_ok bs \<longleftrightarrow>
     distinct (map b_slot bs) \<and>
     list_all (\<lambda>b. slot_in_range (b_slot b) \<and> b_generation b > 0) bs"

definition job_checks :: "job_row \<Rightarrow> bool" where
  "job_checks j \<longleftrightarrow>
     slot_in_range (j_slot j) \<and> j_generation j \<ge> 0 \<and>
     0 \<le> j_recovery_count j \<and> j_recovery_count j \<le> 4294967295 \<and> j_claim_generation j \<ge> 0"

definition is_running :: "job_row \<Rightarrow> bool" where
  "is_running j \<longleftrightarrow> j_state j = Running"

definition jobs_ok :: "job_row list \<Rightarrow> bool" where
  "jobs_ok js \<longleftrightarrow>
     distinct (map j_sequence js) \<and> distinct (map j_request_id js) \<and> list_all job_checks js \<and>
     distinct (map j_task_id (filter is_running js))"

definition completions_ok :: "completion_row list \<Rightarrow> bool" where
  "completions_ok cs \<longleftrightarrow> distinct (map c_completion_id cs)"

definition cursor_checks :: "cursor_row \<Rightarrow> bool" where
  "cursor_checks r \<longleftrightarrow>
     r_device r \<ge> 0 \<and> r_inode r \<ge> 0 \<and> r_offset r \<ge> 0 \<and> r_generation r > 0 \<and>
     length (r_anchor r) = 32"

definition cursors_ok :: "cursor_row list \<Rightarrow> bool" where
  "cursors_ok rs \<longleftrightarrow> distinct (map r_task_id rs) \<and> list_all cursor_checks rs"

definition is_active_claim :: "summary_row \<Rightarrow> bool" where
  "is_active_claim s \<longleftrightarrow> s_state s \<in> {Generating, Interrupted}"

definition is_current_unread :: "summary_row \<Rightarrow> bool" where
  "is_current_unread s \<longleftrightarrow> s_state s \<in> {Unheard, Leased} \<and> s_superseded_by s = None"

definition summary_checks :: "summary_row \<Rightarrow> bool" where
  "summary_checks s \<longleftrightarrow>
     s_generation s > 0 \<and>
     (case s_previous_generation s of None \<Rightarrow> True | Some p \<Rightarrow> p > 0) \<and>
     (case s_superseded_by s of None \<Rightarrow> True | Some n \<Rightarrow> n > s_generation s) \<and>
     (s_state s \<in> {Generating, Interrupted} \<and> s_claim_id s \<noteq> None \<and> s_cache_object s = None \<or>
      s_state s = Abandoned \<and> s_claim_id s = None \<and> s_cache_object s = None \<or>
      s_state s \<in> {Unheard, Leased, Heard, Superseded} \<and> s_claim_id s = None)"

definition summary_key :: "summary_row \<Rightarrow> string \<times> int" where
  "summary_key s = (s_task_id s, s_generation s)"

definition summaries_ok :: "summary_row list \<Rightarrow> bool" where
  "summaries_ok ss \<longleftrightarrow>
     distinct (map summary_key ss) \<and> list_all summary_checks ss \<and>
     distinct (map s_task_id (filter is_active_claim ss)) \<and>
     distinct (map s_request_id (filter (\<lambda>s. s_request_id s \<noteq> None) ss)) \<and>
     distinct (map s_task_id (filter is_current_unread ss))"

definition tts_key :: "tts_row \<Rightarrow> string \<times> int" where
  "tts_key t = (t_task_id t, t_generation t)"

definition tts_ok :: "summary_row list \<Rightarrow> tts_row list \<Rightarrow> bool" where
  "tts_ok ss ts \<longleftrightarrow>
     distinct (map tts_key ts) \<and>
     list_all (\<lambda>t. t_generation t > 0 \<and> tts_key t \<in> set (map summary_key ss)) ts"

definition lease_key :: "lease_row \<Rightarrow> string \<times> int" where
  "lease_key l = (l_task_id l, l_summary_generation l)"

definition lease_checks :: "lease_row \<Rightarrow> bool" where
  "lease_checks l \<longleftrightarrow>
     l_lease_id l > 0 \<and> l_summary_generation l > 0 \<and> slot_in_range (l_slot l) \<and>
     l_request_generation l > 0 \<and> l_connection_generation l > 0"

definition leases_ok :: "summary_row list \<Rightarrow> lease_row list \<Rightarrow> bool" where
  "leases_ok ss ls \<longleftrightarrow>
     distinct (map l_lease_id ls) \<and> distinct (map lease_key ls) \<and>
     list_all (\<lambda>l. lease_checks l \<and> lease_key l \<in> set (map summary_key ss)) ls"

text \<open>Every constraint of the schema holds.\<close>

definition schema_ok :: "db \<Rightarrow> bool" where
  "schema_ok d \<longleftrightarrow>
     bindings_ok (db_bindings d) \<and> jobs_ok (db_jobs d) \<and> completions_ok (db_completions d) \<and>
     cursors_ok (db_cursors d) \<and> summaries_ok (db_summaries d) \<and>
     tts_ok (db_summaries d) (db_tts_attempts d) \<and> leases_ok (db_summaries d) (db_leases d)"

section \<open>Statements\<close>

text \<open>
  \<open>UPDATE t SET f WHERE p\<close> and the number of rows it changes; a write of a table fails
  with a constraint violation, and changes nothing, when the new table breaks a constraint.
\<close>

definition update_where :: "('r \<Rightarrow> bool) \<Rightarrow> ('r \<Rightarrow> 'r) \<Rightarrow> 'r list \<Rightarrow> 'r list" where
  "update_where p f rows = map (\<lambda>r. if p r then f r else r) rows"

definition count_where :: "('r \<Rightarrow> bool) \<Rightarrow> 'r list \<Rightarrow> nat" where
  "count_where p rows = length (filter p rows)"

definition delete_where :: "('r \<Rightarrow> bool) \<Rightarrow> 'r list \<Rightarrow> 'r list" where
  "delete_where p rows = filter (\<lambda>r. \<not> p r) rows"

definition write_bindings :: "binding_row list \<Rightarrow> db \<Rightarrow> store_error + db" where
  "write_bindings bs d =
     (if bindings_ok bs then Ok (d\<lparr>db_bindings := bs\<rparr>) else Err (Sqlite ConstraintViolation))"

definition write_jobs :: "job_row list \<Rightarrow> db \<Rightarrow> store_error + db" where
  "write_jobs js d =
     (if jobs_ok js then Ok (d\<lparr>db_jobs := js\<rparr>) else Err (Sqlite ConstraintViolation))"

definition write_completions :: "completion_row list \<Rightarrow> db \<Rightarrow> store_error + db" where
  "write_completions cs d =
     (if completions_ok cs then Ok (d\<lparr>db_completions := cs\<rparr>) else Err (Sqlite ConstraintViolation))"

definition write_cursors :: "cursor_row list \<Rightarrow> db \<Rightarrow> store_error + db" where
  "write_cursors rs d =
     (if cursors_ok rs then Ok (d\<lparr>db_cursors := rs\<rparr>) else Err (Sqlite ConstraintViolation))"

definition write_summaries :: "summary_row list \<Rightarrow> db \<Rightarrow> store_error + db" where
  "write_summaries ss d =
     (if summaries_ok ss then Ok (d\<lparr>db_summaries := ss\<rparr>) else Err (Sqlite ConstraintViolation))"

definition write_tts :: "tts_row list \<Rightarrow> db \<Rightarrow> store_error + db" where
  "write_tts ts d =
     (if tts_ok (db_summaries d) ts then Ok (d\<lparr>db_tts_attempts := ts\<rparr>)
      else Err (Sqlite ConstraintViolation))"

definition write_leases :: "lease_row list \<Rightarrow> db \<Rightarrow> store_error + db" where
  "write_leases ls d =
     (if leases_ok (db_summaries d) ls then Ok (d\<lparr>db_leases := ls\<rparr>)
      else Err (Sqlite ConstraintViolation))"

lemmas write_defs =
  write_bindings_def write_jobs_def write_completions_def write_cursors_def write_summaries_def
  write_tts_def write_leases_def

text \<open>The first row of a query, and the first row in the order of a key.\<close>

definition first_row :: "('r \<Rightarrow> bool) \<Rightarrow> 'r list \<Rightarrow> 'r option" where
  "first_row p rows = find p rows"

definition first_by :: "('r \<Rightarrow> int) \<Rightarrow> ('r \<Rightarrow> bool) \<Rightarrow> 'r list \<Rightarrow> 'r option" where
  "first_by key p rows = (case sort_key key (filter p rows) of [] \<Rightarrow> None | r # _ \<Rightarrow> Some r)"

section \<open>Transactions\<close>

text \<open>
  The body of a transaction ends with \<open>commit\<close>, keeping its changes, or with \<open>rollback\<close>
  or an early \<open>?\<close> return, dropping them; either way it returns a result.
\<close>

datatype 'a txn = Commit "store_error + 'a" db | Rollback "store_error + 'a"

definition in_txn :: "(db \<Rightarrow> 'a txn) \<Rightarrow> db \<Rightarrow> (store_error + 'a) \<times> db" where
  "in_txn body d = (case body d of Commit r d' \<Rightarrow> (r, d') | Rollback r \<Rightarrow> (r, d))"

text \<open>\<open>attempt r k\<close> is \<open>let x = r?; k(x)\<close> inside a transaction body.\<close>

definition attempt :: "store_error + 'b \<Rightarrow> ('b \<Rightarrow> 'a txn) \<Rightarrow> 'a txn" where
  "attempt r k = (case r of Inl e \<Rightarrow> Rollback (Inl e) | Inr x \<Rightarrow> k x)"

text \<open>\<open>checked r f d\<close> is \<open>r?\<close> before the transaction starts.\<close>

definition checked ::
  "store_error + 'b \<Rightarrow> ('b \<Rightarrow> db \<Rightarrow> (store_error + 'a) \<times> db) \<Rightarrow> db \<Rightarrow> (store_error + 'a) \<times> db" where
  "checked r f d = (case r of Inl e \<Rightarrow> (Inl e, d) | Inr x \<Rightarrow> f x d)"

section \<open>Integers and small validators\<close>

definition MAX_REQUEST_ID_BYTES :: nat where "MAX_REQUEST_ID_BYTES = 128"

definition to_i64 :: "u64 \<Rightarrow> store_error + int" where
  "to_i64 v = (if uint v \<le> i64_max then Ok (uint v) else Err GenerationOutOfRange)"

definition to_sql_i64 :: "u64 \<Rightarrow> store_error + int" where
  "to_sql_i64 v = (if uint v \<le> i64_max then Ok (uint v) else Err InvalidCompletion)"

text \<open>\<open>value as u64\<close> of an \<open>i64\<close>, and \<open>i64::checked_add(1)\<close>.\<close>

definition as_u64 :: "int \<Rightarrow> u64" where
  "as_u64 v = word_of_int v"

definition checked_succ :: "store_error \<Rightarrow> int \<Rightarrow> store_error + int" where
  "checked_succ e v = (if v + 1 \<le> i64_max then Ok (v + 1) else Err e)"

text \<open>Reading a \<open>COUNT(*)\<close> column into a \<open>u32\<close>.\<close>

definition get_count :: "nat \<Rightarrow> store_error + u32" where
  "get_count n = (if n \<le> u32_max then Ok (of_nat n) else Err (Sqlite IntegralValueOutOfRange))"

definition validate_slot :: "u8 \<Rightarrow> store_error + unit" where
  "validate_slot s = (if slot_in_range s then Ok () else Err InvalidSlot)"

section \<open>Library functions the store calls\<close>

text \<open>
  \<open>Uuid::parse_str(s).is_ok()\<close>, \<open>serde_json\<close> printing and parsing of a list of
  strings, whether \<open>serde_json\<close> reads a text as an object, and SHA-256. They are not code of
  this repository: the store operations take them as an argument.
\<close>

record externals =
  uuid_ok :: "string \<Rightarrow> bool"
  json_ids :: "string list \<Rightarrow> string"
  parse_ids :: "string \<Rightarrow> string list option"
  json_is_object :: "string \<Rightarrow> bool"
  sha256 :: "string \<Rightarrow> bytes32"

text \<open>\<open>serde_json\<close> reads back a list of strings it printed.\<close>

definition json_ids_roundtrip :: "externals \<Rightarrow> bool" where
  "json_ids_roundtrip x \<longleftrightarrow> (\<forall>ids. parse_ids x (json_ids x ids) = Some ids)"

section \<open>Paths (Unix)\<close>

definition encode_path :: "path \<Rightarrow> u8 list" where
  "encode_path p = p"

definition decode_path :: "u8 list \<Rightarrow> store_error + path" where
  "decode_path bs = Ok bs"

definition path_contains_nul :: "path \<Rightarrow> bool" where
  "path_contains_nul p \<longleftrightarrow> 0 \<in> set p"

definition is_absolute :: "path \<Rightarrow> bool" where
  "is_absolute p \<longleftrightarrow> (case p of [] \<Rightarrow> False | b # _ \<Rightarrow> b = 0x2F)"

text \<open>
  \<open>Path\<close> values are compared by components: repeated and trailing separators and inner
  \<open>.\<close> components do not count, a leading \<open>.\<close> of a relative path does.
\<close>

definition path_components :: "path \<Rightarrow> bool \<times> path list" where
  "path_components p =
     (let parts = split_on 0x2F p;
          body = filter (\<lambda>c. c \<noteq> [] \<and> c \<noteq> [0x2E]) parts
      in (is_absolute p,
          if \<not> is_absolute p \<and> (case parts of [] \<Rightarrow> False | c # _ \<Rightarrow> c = [0x2E])
          then [0x2E] # body else body))"

definition path_eq :: "path \<Rightarrow> path \<Rightarrow> bool" where
  "path_eq p q \<longleftrightarrow> path_components p = path_components q"

section \<open>Lemmas on statements, queries and transactions\<close>

lemma in_txn_simps [simp, txn_simps]:
  "body d = Commit r d' \<Longrightarrow> in_txn body d = (r, d')"
  "body d = Rollback r \<Longrightarrow> in_txn body d = (r, d)"
  by (simp_all add: in_txn_def)

lemma attempt_simps [simp, txn_simps]:
  "attempt (Inl e) k = Rollback (Inl e)"
  "attempt (Inr x) k = k x"
  by (simp_all add: attempt_def)

lemma attempt_Commit:
  "attempt r k = Commit z d \<longleftrightarrow> (\<exists>x. r = Inr x \<and> k x = Commit z d)"
  by (cases r) auto

lemma attempt_Rollback:
  "attempt r k = Rollback z \<longleftrightarrow>
   (\<exists>e. r = Inl e \<and> z = Inl e) \<or> (\<exists>x. r = Inr x \<and> k x = Rollback z)"
  by (cases r) auto

lemma attempt_split:
  "P (attempt r k) \<longleftrightarrow> (\<forall>e. r = Inl e \<longrightarrow> P (Rollback (Inl e))) \<and> (\<forall>x. r = Inr x \<longrightarrow> P (k x))"
  by (cases r) auto

lemma checked_simps [simp, txn_simps]:
  "checked (Inl e) f d = (Inl e, d)"
  "checked (Inr x) f d = f x d"
  by (simp_all add: checked_def)

lemma in_txn_Pair: "in_txn body d = (r, d') \<longleftrightarrow>
    body d = Commit r d' \<or> (body d = Rollback r \<and> d' = d)"
  by (auto simp: in_txn_def split: txn.splits)

text \<open>An invariant holds after a transaction when it holds after every committed body.\<close>

lemma in_txn_inv:
  assumes "P d" "\<And>r d'. body d = Commit r d' \<Longrightarrow> P d'"
  shows "P (snd (in_txn body d))"
  using assms by (cases "body d") auto

lemma checked_inv:
  assumes "P d" "\<And>x. r = Inr x \<Longrightarrow> P (snd (f x d))"
  shows "P (snd (checked r f d))"
  using assms by (cases r) auto

lemma set_update_where: "set (update_where p f rows) = (\<lambda>r. if p r then f r else r) ` set rows"
  by (simp add: update_where_def)

lemma length_update_where [simp]: "length (update_where p f rows) = length rows"
  by (simp add: update_where_def)

lemma map_update_where:
  "(\<And>r. r \<in> set rows \<Longrightarrow> p r \<Longrightarrow> key (f r) = key r) \<Longrightarrow>
   map key (update_where p f rows) = map key rows"
  by (auto simp: update_where_def)

lemma filter_update_where_same:
  assumes "\<And>r. r \<in> set rows \<Longrightarrow> p r \<Longrightarrow> \<not> q r \<and> \<not> q (f r)"
  shows "filter q (update_where p f rows) = filter q rows"
  using assms by (induction rows) (auto simp: update_where_def)

lemma filter_update_where_drop:
  assumes "\<And>r. r \<in> set rows \<Longrightarrow> p r \<Longrightarrow> \<not> q (f r)"
  shows "filter q (update_where p f rows) = filter (\<lambda>r. q r \<and> \<not> p r) rows"
  using assms by (induction rows) (auto simp: update_where_def)

lemma update_where_append:
  "update_where p f (xs @ ys) = update_where p f xs @ update_where p f ys"
  by (simp add: update_where_def)

lemma update_where_id: "(\<And>r. r \<in> set rows \<Longrightarrow> \<not> p r) \<Longrightarrow> update_where p f rows = rows"
  by (induction rows) (auto simp: update_where_def)

lemma list_all_update_where:
  assumes "list_all q rows" "\<And>r. r \<in> set rows \<Longrightarrow> p r \<Longrightarrow> q r \<Longrightarrow> q (f r)"
  shows "list_all q (update_where p f rows)"
  using assms by (auto simp: list_all_iff set_update_where)

lemma count_where_update_where:
  "count_where q (update_where p f rows) =
   count_where (\<lambda>r. if p r then q (f r) else q r) rows"
  by (induction rows) (auto simp: update_where_def count_where_def)

lemma count_where_mono:
  assumes "\<And>r. r \<in> set rows \<Longrightarrow> p r \<Longrightarrow> q r"
  shows "count_where p rows \<le> count_where q rows"
  using assms by (induction rows) (auto simp: count_where_def)

lemma count_where_append [simp]:
  "count_where p (xs @ ys) = count_where p xs + count_where p ys"
  by (simp add: count_where_def)

lemma count_where_simps [simp]:
  "count_where p [] = 0"
  "count_where p (x # xs) = (if p x then Suc (count_where p xs) else count_where p xs)"
  by (simp_all add: count_where_def)

lemma count_where_cong:
  "(\<And>r. r \<in> set rows \<Longrightarrow> p r = q r) \<Longrightarrow> count_where p rows = count_where q rows"
  by (simp add: count_where_def cong: filter_cong)

lemma count_where_pos: "0 < count_where p rows \<longleftrightarrow> (\<exists>r \<in> set rows. p r)"
  by (auto simp: count_where_def filter_empty_conv)

text \<open>A key that is unique in a table selects at most one row.\<close>

lemma count_where_key:
  assumes "distinct (map key rows)" "\<And>r. r \<in> set rows \<Longrightarrow> p r \<Longrightarrow> key r = k"
  shows "count_where p rows \<le> 1"
  using assms
proof (induction rows)
  case Nil
  then show ?case by simp
next
  case (Cons x xs)
  show ?case
  proof (cases "p x")
    case True
    have "\<not> p r" if "r \<in> set xs" for r
      using Cons.prems True that by (metis distinct.simps(2) image_eqI image_set list.set_intros list.simps(9))
    then have "count_where p xs = 0" by (auto simp: count_where_def filter_empty_conv)
    with True show ?thesis by simp
  next
    case False
    with Cons show ?thesis by simp
  qed
qed

lemma distinct_key_eq:
  "distinct (map key rows) \<Longrightarrow> r \<in> set rows \<Longrightarrow> r' \<in> set rows \<Longrightarrow> key r = key r' \<Longrightarrow> r = r'"
  by (metis distinct_map inj_onD)

lemma count_where_one:
  assumes "distinct (map key rows)" "r \<in> set rows" "p r"
    and "\<And>r'. r' \<in> set rows \<Longrightarrow> p r' \<Longrightarrow> key r' = key r"
  shows "count_where p rows = 1"
proof -
  have "0 < count_where p rows" using assms(2,3) by (auto simp: count_where_pos)
  moreover have "count_where p rows \<le> 1"
    using assms(1,4) by (rule count_where_key)
  ultimately show ?thesis by simp
qed

lemma first_row_Some: "first_row p rows = Some r \<Longrightarrow> r \<in> set rows \<and> p r"
  by (auto simp: first_row_def find_Some_iff)

lemma first_row_None: "first_row p rows = None \<longleftrightarrow> (\<forall>r \<in> set rows. \<not> p r)"
  by (auto simp: first_row_def find_None_iff)

lemma first_row_unique:
  assumes "distinct (map key rows)" "r \<in> set rows" "p r"
    and "\<And>r'. r' \<in> set rows \<Longrightarrow> p r' \<Longrightarrow> key r' = key r"
  shows "first_row p rows = Some r"
proof (cases "first_row p rows")
  case None
  with assms show ?thesis by (auto simp: first_row_None)
next
  case (Some r')
  with assms show ?thesis using first_row_Some [OF Some] distinct_key_eq [OF assms(1)] by blast
qed

lemma first_by_Some:
  assumes "first_by key p rows = Some r"
  shows "r \<in> set rows" "p r" "\<And>r'. r' \<in> set rows \<Longrightarrow> p r' \<Longrightarrow> key r \<le> key r'"
proof -
  obtain rs where rs: "sort_key key (filter p rows) = r # rs"
    using assms by (auto simp: first_by_def split: list.splits)
  then have s: "set (r # rs) = set (filter p rows)" by (metis set_sort)
  then show "r \<in> set rows" "p r" by auto
  have "sorted (map key (r # rs))" by (metis rs sorted_sort_key)
  then show "key r \<le> key r'" if "r' \<in> set rows" "p r'" for r'
    using s that by auto
qed

lemma first_by_None: "first_by key p rows = None \<longleftrightarrow> (\<forall>r \<in> set rows. \<not> p r)"
proof
  assume "first_by key p rows = None"
  then have "sort_key key (filter p rows) = []"
    by (auto simp: first_by_def split: list.splits)
  then have "filter p rows = []" by (metis length_0_conv length_sort)
  then show "\<forall>r \<in> set rows. \<not> p r" by (simp add: filter_empty_conv)
next
  assume "\<forall>r \<in> set rows. \<not> p r"
  then have "filter p rows = []" by (simp add: filter_empty_conv)
  then show "first_by key p rows = None" by (simp add: first_by_def)
qed

lemma to_i64_Ok: "to_i64 v = Ok n \<longleftrightarrow> n = uint v \<and> uint v \<le> i64_max"
  by (auto simp: to_i64_def)

lemma to_sql_i64_Ok: "to_sql_i64 v = Ok n \<longleftrightarrow> n = uint v \<and> uint v \<le> i64_max"
  by (auto simp: to_sql_i64_def)

lemma checked_succ_Ok: "checked_succ e v = Ok n \<longleftrightarrow> n = v + 1 \<and> v + 1 \<le> i64_max"
  by (auto simp: checked_succ_def)

lemma uint_as_u64: "0 \<le> v \<Longrightarrow> v \<le> i64_max \<Longrightarrow> uint (as_u64 v) = v"
  by (simp add: as_u64_def i64_max_def uint_word_of_int)

lemma as_u64_uint [simp]: "as_u64 (uint v) = v"
  by (simp add: as_u64_def)

lemma to_i64_as_u64: "0 \<le> v \<Longrightarrow> v \<le> i64_max \<Longrightarrow> to_i64 (as_u64 v) = Ok v"
  by (simp add: to_i64_def uint_as_u64)

lemma write_Ok:
  "write_bindings bs d = Ok d' \<longleftrightarrow> bindings_ok bs \<and> d' = d\<lparr>db_bindings := bs\<rparr>"
  "write_jobs js d = Ok d' \<longleftrightarrow> jobs_ok js \<and> d' = d\<lparr>db_jobs := js\<rparr>"
  "write_completions cs d = Ok d' \<longleftrightarrow> completions_ok cs \<and> d' = d\<lparr>db_completions := cs\<rparr>"
  "write_cursors rs d = Ok d' \<longleftrightarrow> cursors_ok rs \<and> d' = d\<lparr>db_cursors := rs\<rparr>"
  "write_summaries ss d = Ok d' \<longleftrightarrow> summaries_ok ss \<and> d' = d\<lparr>db_summaries := ss\<rparr>"
  "write_tts ts d = Ok d' \<longleftrightarrow> tts_ok (db_summaries d) ts \<and> d' = d\<lparr>db_tts_attempts := ts\<rparr>"
  "write_leases ls d = Ok d' \<longleftrightarrow> leases_ok (db_summaries d) ls \<and> d' = d\<lparr>db_leases := ls\<rparr>"
  by (auto simp: write_defs)

lemma get_count_Ok: "get_count n = Ok c \<longleftrightarrow> n \<le> u32_max \<and> c = of_nat n"
  by (auto simp: get_count_def)

lemma unat_of_nat_u32: "n \<le> u32_max \<Longrightarrow> unat (of_nat n :: u32) = n"
  by (simp add: u32_max_def unat_of_nat)

lemma distinct_map_filter_mono:
  assumes "distinct (map key (filter q rows))"
  shows "distinct (map key (filter (\<lambda>r. q r \<and> s r) rows))"
  using distinct_map_filter [OF assms, of s] by (simp add: conj_commute)

lemma count_where_le_Suc:
  assumes "distinct (map key rows)" "\<And>r. r \<in> set rows \<Longrightarrow> p r \<Longrightarrow> q r \<or> key r = k"
  shows "count_where p rows \<le> Suc (count_where q rows)"
proof -
  have "count_where p rows \<le> count_where (\<lambda>r. q r \<or> (p r \<and> \<not> q r)) rows"
    by (rule count_where_mono) auto
  also have "\<dots> = count_where q rows + count_where (\<lambda>r. p r \<and> \<not> q r) rows"
    by (induction rows) auto
  also have "count_where (\<lambda>r. p r \<and> \<not> q r) rows \<le> 1"
    using assms by (intro count_where_key [where key = key and k = k]) auto
  finally show ?thesis by simp
qed

lemma update_key_split:
  assumes "distinct (map key rows)" "c \<in> set rows"
  obtains pre post where "rows = pre @ c # post"
    "\<And>f. update_where (\<lambda>r. key r = key c) f rows = pre @ f c # post"
proof -
  obtain pre post where rows: "rows = pre @ c # post"
    using assms(2) by (meson split_list)
  have "update_where (\<lambda>r. key r = key c) f pre = pre" "update_where (\<lambda>r. key r = key c) f post = post" for f
    using assms(1) rows by (auto intro!: update_where_id) (metis image_eqI)+
  then have "update_where (\<lambda>r. key r = key c) f rows = pre @ f c # post" for f
    by (simp add: rows update_where_append) (simp add: update_where_def)
  with rows show ?thesis by (rule that)
qed

end
