(* ===== verification/Store_Jobs.thy ===== *)
theory Store_Jobs
  imports Store_Schema
begin

text \<open>
  The durable job queue of \<open>app/host/src/store.rs\<close>: enqueueing with idempotent request
  ids, claiming the next runnable job, acknowledging a claim, and the recovery of
  interrupted jobs when the database is opened. The invariant \<open>jobs_inv\<close> bounds the
  queue; it and the first-in-first-out discipline are proved for every operation.
\<close>

section \<open>Data\<close>

definition MAX_PENDING_JOBS_PER_TASK :: nat where "MAX_PENDING_JOBS_PER_TASK = 12"
definition MAX_GLOBAL_RUNNING_JOBS :: nat where "MAX_GLOBAL_RUNNING_JOBS = 4"
definition MAX_TASK_ID_BYTES :: nat where "MAX_TASK_ID_BYTES = 64"
definition MAX_PROMPT_BYTES :: nat where "MAX_PROMPT_BYTES = 32 * 1024"
definition MAX_CWD_BYTES :: nat where "MAX_CWD_BYTES = 4 * 1024"

record new_job =
  nj_request_id :: string
  nj_task_id :: string
  nj_slot :: u8
  nj_generation :: u64
  nj_prompt :: string
  nj_cwd :: path

record job =
  job_request_id :: string
  job_task_id :: string
  job_slot :: u8
  job_generation :: u64
  job_prompt :: string
  job_cwd :: path
  job_recovery_count :: u32
  job_claim_generation :: u64

datatype job_failure_kind =
    CliMissing | TaskAuthentication | TaskArchived | ActiveSession | TaskTimeout | InvalidOutput
  | OutputTooLarge | UnsafeWorkingDirectory | ProcessIo | ExitFailure

fun failure_str :: "job_failure_kind \<Rightarrow> string" where
  "failure_str CliMissing = ''cli_missing''"
| "failure_str TaskAuthentication = ''authentication''"
| "failure_str TaskArchived = ''task_archived''"
| "failure_str ActiveSession = ''active_session''"
| "failure_str TaskTimeout = ''timeout''"
| "failure_str InvalidOutput = ''invalid_output''"
| "failure_str OutputTooLarge = ''output_too_large''"
| "failure_str UnsafeWorkingDirectory = ''unsafe_working_directory''"
| "failure_str ProcessIo = ''process_io''"
| "failure_str ExitFailure = ''exit_failure''"

fun job_state_str :: "job_state \<Rightarrow> string" where
  "job_state_str Queued = ''queued''"
| "job_state_str Running = ''running''"
| "job_state_str Completed = ''completed''"
| "job_state_str Failed = ''failed''"

datatype enqueue_outcome = Inserted | Replay

section \<open>Operations\<close>

definition validate_job :: "new_job \<Rightarrow> store_error + unit" where
  "validate_job j =
     (let request_ok = nj_request_id j \<noteq> [] \<and> length (nj_request_id j) \<le> MAX_REQUEST_ID_BYTES \<and>
            \<not> list_ex is_ascii_control (nj_request_id j);
          task_ok = nj_task_id j \<noteq> [] \<and> length (nj_task_id j) \<le> MAX_TASK_ID_BYTES \<and>
            \<not> list_ex is_ascii_control (nj_task_id j);
          prompt_ok = \<not> trim_is_empty (nj_prompt j) \<and> length (nj_prompt j) \<le> MAX_PROMPT_BYTES;
          cwd = encode_path (nj_cwd j);
          cwd_ok = is_absolute (nj_cwd j) \<and> cwd \<noteq> [] \<and> length cwd \<le> MAX_CWD_BYTES \<and>
            \<not> path_contains_nul (nj_cwd j)
      in if request_ok \<and> task_ok \<and> prompt_ok \<and> cwd_ok then Ok () else Err InvalidJob)"

definition is_pending :: "string \<Rightarrow> job_row \<Rightarrow> bool" where
  "is_pending task j \<longleftrightarrow> j_task_id j = task \<and> j_state j \<in> {Queued, Running}"

text \<open>The comparison of a stored payload with a new one; the generation is converted only
  when the task and the slot agree.\<close>

definition exact_replay :: "job_row \<Rightarrow> new_job \<Rightarrow> store_error + bool" where
  "exact_replay e j =
     (if j_task_id e = nj_task_id j \<and> j_slot e = nj_slot j
      then and_then (to_i64 (nj_generation j)) (\<lambda>g.
             Ok (j_generation e = g \<and> j_prompt e = nj_prompt j \<and> j_cwd e = encode_path (nj_cwd j)))
      else Ok False)"

text \<open>\<open>INSERT INTO jobs\<close> with the defaults of the other columns; AUTOINCREMENT gives the
  next sequence number and fails when the counter is exhausted.\<close>

definition insert_job :: "new_job \<Rightarrow> int \<Rightarrow> db \<Rightarrow> store_error + db" where
  "insert_job j gen d =
     (if db_job_sequence d \<ge> i64_max then Err (Sqlite DatabaseFull)
      else let sequence = db_job_sequence d + 1;
               row = \<lparr> j_sequence = sequence, j_request_id = nj_request_id j,
                       j_task_id = nj_task_id j, j_slot = nj_slot j, j_generation = gen,
                       j_prompt = nj_prompt j, j_cwd = encode_path (nj_cwd j), j_state = Queued,
                       j_recovery_count = 0, j_claim_generation = 0, j_failure_kind = None \<rparr>
           in and_then (write_jobs (db_jobs d @ [row]) d) (\<lambda>d'.
                Ok (d'\<lparr>db_job_sequence := sequence\<rparr>)))"

definition enqueue_txn :: "new_job \<Rightarrow> db \<Rightarrow> enqueue_outcome txn" where
  "enqueue_txn j d =
     (case first_row (\<lambda>e. j_request_id e = nj_request_id j) (db_jobs d) of
        Some e \<Rightarrow>
          attempt (exact_replay e j) (\<lambda>same.
            Rollback (if same then Ok Replay else Err RequestIdConflict))
      | None \<Rightarrow>
          attempt (get_count (count_where (is_pending (nj_task_id j)) (db_jobs d))) (\<lambda>pending.
            if unat pending \<ge> MAX_PENDING_JOBS_PER_TASK then Rollback (Err TaskQueueFull)
            else attempt (to_i64 (nj_generation j)) (\<lambda>gen.
                   attempt (insert_job j gen d) (\<lambda>d'. Commit (Ok Inserted) d'))))"

definition enqueue :: "new_job \<Rightarrow> db \<Rightarrow> (store_error + enqueue_outcome) \<times> db" where
  "enqueue j = checked (validate_slot (nj_slot j)) (\<lambda>_.
     checked (validate_job j) (\<lambda>_. in_txn (enqueue_txn j)))"

definition map_job :: "job_row \<Rightarrow> store_error + job" where
  "map_job r =
     and_then (decode_path (j_cwd r)) (\<lambda>cwd.
       and_then (get_count (nat (j_recovery_count r))) (\<lambda>recovery_count.
         Ok \<lparr> job_request_id = j_request_id r, job_task_id = j_task_id r, job_slot = j_slot r,
              job_generation = as_u64 (j_generation r), job_prompt = j_prompt r, job_cwd = cwd,
              job_recovery_count = recovery_count,
              job_claim_generation = as_u64 (j_claim_generation r) \<rparr>))"

text \<open>The WHERE clause of \<open>claim_next_runnable\<close>: a queued job whose task has no running
  job and no earlier queued job.\<close>

definition is_runnable :: "job_row list \<Rightarrow> job_row \<Rightarrow> bool" where
  "is_runnable js q \<longleftrightarrow>
     j_state q = Queued \<and>
     \<not> list_ex (\<lambda>r. j_task_id r = j_task_id q \<and> j_state r = Running) js \<and>
     \<not> list_ex (\<lambda>e. j_task_id e = j_task_id q \<and> j_state e = Queued \<and> j_sequence e < j_sequence q) js"

definition claim_job_row :: "int \<Rightarrow> job_row \<Rightarrow> job_row" where
  "claim_job_row gen r = r\<lparr>j_state := Running, j_claim_generation := gen, j_failure_kind := None\<rparr>"

definition claim_next_runnable_txn :: "db \<Rightarrow> job option txn" where
  "claim_next_runnable_txn d =
     attempt (get_count (count_where is_running (db_jobs d))) (\<lambda>running.
       if unat running \<ge> MAX_GLOBAL_RUNNING_JOBS then Commit (Ok None) d
       else case first_by j_sequence (is_runnable (db_jobs d)) (db_jobs d) of
              None \<Rightarrow> Commit (Ok None) d
            | Some c \<Rightarrow>
                attempt (checked_succ ClaimGenerationOutOfRange (j_claim_generation c)) (\<lambda>gen.
                  let sel = (\<lambda>r. j_request_id r = j_request_id c \<and> j_state r = Queued);
                      changed = count_where sel (db_jobs d)
                  in attempt (write_jobs (update_where sel (claim_job_row gen) (db_jobs d)) d) (\<lambda>d'.
                       if changed \<noteq> 1 then Rollback (Ok None)
                       else case first_row (\<lambda>r. j_request_id r = j_request_id c) (db_jobs d') of
                              None \<Rightarrow> Rollback (Err (Sqlite QueryReturnedNoRows))
                            | Some r \<Rightarrow> attempt (map_job r) (\<lambda>j. Commit (Ok (Some j)) d'))))"

definition claim_next_runnable :: "db \<Rightarrow> (store_error + job option) \<times> db" where
  "claim_next_runnable = in_txn claim_next_runnable_txn"

text \<open>The row an acknowledgement addresses: running, under exactly this claim.\<close>

definition is_claimed :: "string \<Rightarrow> int \<Rightarrow> job_row \<Rightarrow> bool" where
  "is_claimed request gen r \<longleftrightarrow>
     j_request_id r = request \<and> j_state r = Running \<and> j_claim_generation r = gen"

definition mark_completed :: "string \<Rightarrow> u64 \<Rightarrow> db \<Rightarrow> (store_error + bool) \<times> db" where
  "mark_completed request claim_generation = in_txn (\<lambda>d.
     attempt (to_i64 claim_generation) (\<lambda>gen.
       let sel = is_claimed request gen
       in attempt (write_jobs (update_where sel (\<lambda>r. r\<lparr>j_state := Completed\<rparr>) (db_jobs d)) d)
            (\<lambda>d'. Commit (Ok (count_where sel (db_jobs d) = 1)) d')))"

definition mark_failed ::
  "string \<Rightarrow> u64 \<Rightarrow> job_failure_kind \<Rightarrow> db \<Rightarrow> (store_error + bool) \<times> db" where
  "mark_failed request claim_generation failure = in_txn (\<lambda>d.
     attempt (to_i64 claim_generation) (\<lambda>gen.
       let sel = is_claimed request gen
       in attempt (write_jobs (update_where sel
              (\<lambda>r. r\<lparr>j_state := Failed, j_failure_kind := Some (failure_str failure)\<rparr>) (db_jobs d)) d)
            (\<lambda>d'. Commit (Ok (count_where sel (db_jobs d) = 1)) d')))"

definition pending_count :: "string \<Rightarrow> db \<Rightarrow> store_error + u32" where
  "pending_count task d = get_count (count_where (is_pending task) (db_jobs d))"

text \<open>\<open>ORDER BY sequence DESC LIMIT 1\<close>.\<close>

definition latest_job_outcome ::
  "string \<Rightarrow> u64 \<Rightarrow> db \<Rightarrow> store_error + (string \<times> string option) option" where
  "latest_job_outcome task generation d =
     and_then (to_i64 generation) (\<lambda>gen.
       Ok (map_option (\<lambda>r. (job_state_str (j_state r), j_failure_kind r))
             (first_by (\<lambda>r. - j_sequence r) (\<lambda>r. j_task_id r = task \<and> j_generation r = gen)
                (db_jobs d))))"

definition requeue_row :: "job_row \<Rightarrow> job_row" where
  "requeue_row r = r\<lparr>j_state := Queued, j_recovery_count := j_recovery_count r + 1\<rparr>"

definition recover_interrupted_jobs :: "db \<Rightarrow> (store_error + nat) \<times> db" where
  "recover_interrupted_jobs = in_txn (\<lambda>d.
     attempt (write_jobs (update_where is_running requeue_row (db_jobs d)) d) (\<lambda>d'.
       Commit (Ok (count_where is_running (db_jobs d))) d'))"

section \<open>The queue invariant\<close>

definition job_ranges :: "db \<Rightarrow> job_row \<Rightarrow> bool" where
  "job_ranges d j \<longleftrightarrow>
     j_sequence j \<le> db_job_sequence d \<and> j_generation j \<le> i64_max \<and> j_claim_generation j \<le> i64_max"

definition jobs_inv :: "db \<Rightarrow> bool" where
  "jobs_inv d \<longleftrightarrow>
     jobs_ok (db_jobs d) \<and> list_all (job_ranges d) (db_jobs d) \<and>
     count_where is_running (db_jobs d) \<le> MAX_GLOBAL_RUNNING_JOBS \<and>
     list_all (\<lambda>j. count_where (is_pending (j_task_id j)) (db_jobs d) \<le> MAX_PENDING_JOBS_PER_TASK)
       (db_jobs d)"

lemma pending_bound_all:
  "list_all (\<lambda>j. count_where (is_pending (j_task_id j)) js \<le> n) js \<longleftrightarrow>
   (\<forall>t. count_where (is_pending t) js \<le> n)"
proof
  assume l: "list_all (\<lambda>j. count_where (is_pending (j_task_id j)) js \<le> n) js"
  show "\<forall>t. count_where (is_pending t) js \<le> n"
  proof
    fix t
    show "count_where (is_pending t) js \<le> n"
    proof (cases "\<exists>j \<in> set js. is_pending t j")
      case True
      then obtain j where "j \<in> set js" "j_task_id j = t" by (auto simp: is_pending_def)
      with l show ?thesis by (auto simp: list_all_iff)
    next
      case False
      then have "count_where (is_pending t) js = 0"
        by (auto simp: count_where_def filter_empty_conv)
      then show ?thesis by simp
    qed
  qed
qed (simp add: list_all_iff)

lemma jobs_inv_alt:
  "jobs_inv d \<longleftrightarrow>
     jobs_ok (db_jobs d) \<and> (\<forall>j \<in> set (db_jobs d). job_ranges d j) \<and>
     count_where is_running (db_jobs d) \<le> 4 \<and>
     (\<forall>t. count_where (is_pending t) (db_jobs d) \<le> 12)"
  unfolding jobs_inv_def pending_bound_all
  by (simp add: list_all_iff MAX_GLOBAL_RUNNING_JOBS_def MAX_PENDING_JOBS_PER_TASK_def)

lemma jobs_okD:
  assumes "jobs_ok js"
  shows "distinct (map j_sequence js)" "distinct (map j_request_id js)"
    "\<And>j. j \<in> set js \<Longrightarrow> job_checks j" "distinct (map j_task_id (filter is_running js))"
  using assms by (auto simp: jobs_ok_def list_all_iff)

text \<open>The effect of a successful enqueue.\<close>

lemma enqueue_cases:
  assumes "enqueue j d = (res, d')"
  obtains (unchanged) "d' = d" "res \<noteq> Ok Inserted"
  | (inserted) gen row where "res = Ok Inserted" "to_i64 (nj_generation j) = Ok gen"
      "validate_job j = Ok ()" "slot_in_range (nj_slot j)"
      "first_row (\<lambda>e. j_request_id e = nj_request_id j) (db_jobs d) = None"
      "count_where (is_pending (nj_task_id j)) (db_jobs d) < 12"
      "row = \<lparr> j_sequence = db_job_sequence d + 1, j_request_id = nj_request_id j,
               j_task_id = nj_task_id j, j_slot = nj_slot j, j_generation = gen,
               j_prompt = nj_prompt j, j_cwd = nj_cwd j, j_state = Queued,
               j_recovery_count = 0, j_claim_generation = 0, j_failure_kind = None \<rparr>"
      "jobs_ok (db_jobs d @ [row])"
      "d' = d\<lparr>db_jobs := db_jobs d @ [row], db_job_sequence := db_job_sequence d + 1\<rparr>"
proof (cases "d' = d \<and> res \<noteq> Ok Inserted")
  case True
  then show ?thesis using unchanged by blast
next
  case False
  have slot: "slot_in_range (nj_slot j)" and val: "validate_job j = Ok ()"
    and t: "in_txn (enqueue_txn j) d = (res, d')"
    using assms False
    by (cases "validate_job j"; auto simp: enqueue_def validate_slot_def split: if_splits)+
  have none: "first_row (\<lambda>e. j_request_id e = nj_request_id j) (db_jobs d) = None"
  proof (rule ccontr)
    assume "\<not> ?thesis"
    then obtain e where "first_row (\<lambda>e. j_request_id e = nj_request_id j) (db_jobs d) = Some e" by auto
    with t False show False
      by (cases "exact_replay e j") (auto simp: in_txn_def enqueue_txn_def split: if_splits)
  qed
  define n where "n = count_where (is_pending (nj_task_id j)) (db_jobs d)"
  have c: "n \<le> u32_max" "n < 12" and t2: "(attempt (to_i64 (nj_generation j)) (\<lambda>gen.
                   attempt (insert_job j gen d) (\<lambda>d'. Commit (Ok Inserted) d')))
       = Commit res d'"
    using t False none
    by (auto simp: in_txn_def enqueue_txn_def n_def [symmetric] get_count_def unat_of_nat_u32
        MAX_PENDING_JOBS_PER_TASK_def attempt_Rollback split: if_splits txn.splits)
  from t2 obtain gen where gen: "to_i64 (nj_generation j) = Ok gen"
    and ins: "insert_job j gen d = Ok d'" and res: "res = Ok Inserted"
    by (auto simp: attempt_Commit)
  show ?thesis
    by (rule inserted [OF res gen val slot none]) 
      (use ins c n_def in \<open>auto simp: insert_job_def and_then_Ok_iff write_Ok encode_path_def Let_def
         split: if_splits\<close>)
qed

lemma enqueue_inv [store_inv_intros]:
  assumes "jobs_inv d"
  shows "jobs_inv (snd (enqueue j d))"
proof -
  obtain res d' where e: "enqueue j d = (res, d')" by (cases "enqueue j d")
  then show ?thesis
  proof (cases rule: enqueue_cases)
    case unchanged
    with e assms show ?thesis by simp
  next
    case (inserted gen row)
    have "count_where (is_pending t) (db_jobs d @ [row]) \<le> 12" for t
      using assms inserted(6,7) by (auto simp: jobs_inv_alt is_pending_def)
    moreover have "count_where is_running (db_jobs d @ [row]) = count_where is_running (db_jobs d)"
      by (simp add: inserted(7) is_running_def)
    moreover have "gen \<le> i64_max"
      using inserted(2) by (simp add: to_i64_Ok)
    ultimately show ?thesis
      using assms e inserted(7-9)
      by (auto simp: jobs_inv_alt job_ranges_def i64_max_def)
  qed
qed

text \<open>The effect of a successful claim.\<close>

lemma claim_next_runnable_cases:
  assumes "jobs_ok (db_jobs d)" "claim_next_runnable d = (res, d')"
  obtains (idle) "d' = d" "res = Ok None"
      "count_where is_running (db_jobs d) \<ge> 4 \<or> (\<forall>q \<in> set (db_jobs d). \<not> is_runnable (db_jobs d) q)"
  | (failed) e where "d' = d" "res = Err e"
  | (claimed) c j where "res = Ok (Some j)" "c \<in> set (db_jobs d)" "is_runnable (db_jobs d) c"
      "\<And>q. q \<in> set (db_jobs d) \<Longrightarrow> is_runnable (db_jobs d) q \<Longrightarrow> j_sequence c \<le> j_sequence q"
      "count_where is_running (db_jobs d) < 4" "j_claim_generation c < i64_max"
      "map_job (claim_job_row (j_claim_generation c + 1) c) = Ok j"
      "d' = d\<lparr>db_jobs := update_where (\<lambda>r. j_request_id r = j_request_id c)
                (claim_job_row (j_claim_generation c + 1)) (db_jobs d)\<rparr>"
      "jobs_ok (db_jobs d')"
proof -
  have body: "claim_next_runnable_txn d = Commit res d' \<or>
      (claim_next_runnable_txn d = Rollback res \<and> d' = d)"
    using assms(2) by (simp add: claim_next_runnable_def in_txn_Pair)
  let ?n = "count_where is_running (db_jobs d)"
  show ?thesis
  proof (cases "?n \<le> u32_max \<and> ?n < 4")
    case False
    then show ?thesis
      using body idle failed
      by (auto simp: claim_next_runnable_txn_def get_count_def MAX_GLOBAL_RUNNING_JOBS_def
          unat_of_nat_u32 u32_max_def split: if_splits)
  next
    case True
    show ?thesis
    proof (cases "first_by j_sequence (is_runnable (db_jobs d)) (db_jobs d)")
      case None
      with True body show ?thesis
        using idle by (auto simp: claim_next_runnable_txn_def get_count_def first_by_None
            MAX_GLOBAL_RUNNING_JOBS_def unat_of_nat_u32)
    next
      case (Some c)
      note c = first_by_Some [OF Some]
      let ?sel = "\<lambda>r. j_request_id r = j_request_id c \<and> j_state r = Queued"
      let ?key = "\<lambda>r. j_request_id r = j_request_id c"
      have q: "j_state c = Queued" using c(2) by (simp add: is_runnable_def)
      have uniq: "r = c" if "r \<in> set (db_jobs d)" "?key r" for r
        using distinct_key_eq [OF jobs_okD(2) [OF assms(1)]] that c(1) by auto
      have one: "count_where ?sel (db_jobs d) = 1"
        using jobs_okD(2) [OF assms(1)] c(1) q by (intro count_where_one [where key = j_request_id]) auto
      have upd: "update_where ?sel f (db_jobs d) = update_where ?key f (db_jobs d)" for f
        unfolding update_where_def using uniq q by (intro map_cong) auto
      show ?thesis
      proof (cases "j_claim_generation c + 1 \<le> i64_max \<and>
          jobs_ok (update_where ?key (claim_job_row (j_claim_generation c + 1)) (db_jobs d))")
        case False
        with True body Some show ?thesis
          using failed by (auto simp: claim_next_runnable_txn_def get_count_def Let_def upd
            MAX_GLOBAL_RUNNING_JOBS_def unat_of_nat_u32 checked_succ_def write_defs split: if_splits)
      next
        case ok: True
        let ?g = "j_claim_generation c + 1"
        let ?js = "update_where ?key (claim_job_row ?g) (db_jobs d)"
        have first: "first_row ?key ?js = Some (claim_job_row ?g c)"
          using jobs_okD(2) ok c(1)
          by (intro first_row_unique [where key = j_request_id])
            (auto simp: set_update_where claim_job_row_def)
        show ?thesis
        proof (cases "map_job (claim_job_row ?g c)")
          case (Inl e)
          with True body Some ok first one show ?thesis
            using failed by (auto simp: claim_next_runnable_txn_def get_count_def Let_def upd
              MAX_GLOBAL_RUNNING_JOBS_def unat_of_nat_u32 checked_succ_def write_defs)
        next
          case (Inr j)
          have "res = Ok (Some j)" "d' = d\<lparr>db_jobs := ?js\<rparr>"
            using True body Some ok first one Inr
            by (auto simp: claim_next_runnable_txn_def get_count_def Let_def upd
              MAX_GLOBAL_RUNNING_JOBS_def unat_of_nat_u32 checked_succ_def write_defs)
          then show ?thesis
            using claimed [of j c] c True ok Inr by auto
        qed
      qed
    qed
  qed
qed

text \<open>A row that leaves the running state keeps every constraint of the table.\<close>

lemma jobs_ok_update:
  assumes "jobs_ok js"
    and f: "\<And>r. r \<in> set js \<Longrightarrow> p r \<Longrightarrow> j_sequence (f r) = j_sequence r \<and>
      j_request_id (f r) = j_request_id r \<and> job_checks (f r) \<and> \<not> is_running (f r)"
  shows "jobs_ok (update_where p f js)"
proof -
  have "map j_sequence (update_where p f js) = map j_sequence js"
    "map j_request_id (update_where p f js) = map j_request_id js"
    using f by (intro map_update_where; blast)+
  moreover have "list_all job_checks (update_where p f js)"
    using assms by (intro list_all_update_where) (auto simp: jobs_ok_def)
  moreover have "filter is_running (update_where p f js) = filter (\<lambda>r. is_running r \<and> \<not> p r) js"
    using f by (intro filter_update_where_drop) blast
  ultimately show ?thesis
    using assms(1) distinct_map_filter_mono [of j_task_id is_running js "\<lambda>r. \<not> p r"]
    by (simp add: jobs_ok_def)
qed

lemma jobs_inv_update:
  assumes inv: "jobs_inv d"
    and f: "\<And>r. r \<in> set (db_jobs d) \<Longrightarrow> p r \<Longrightarrow> is_running r \<and> j_sequence (f r) = j_sequence r \<and>
      j_request_id (f r) = j_request_id r \<and> j_task_id (f r) = j_task_id r \<and>
      job_checks (f r) \<and> \<not> is_running (f r) \<and> job_ranges d (f r)"
    and d': "d' = d\<lparr>db_jobs := update_where p f (db_jobs d)\<rparr>"
  shows "jobs_inv d'"
proof -
  have "jobs_ok (db_jobs d')"
    unfolding d' using inv f by (auto simp: jobs_inv_alt intro!: jobs_ok_update)
  moreover have "\<forall>j \<in> set (db_jobs d'). job_ranges d' j"
    using inv f by (auto simp: d' jobs_inv_alt set_update_where job_ranges_def)
  moreover have "count_where is_running (db_jobs d') \<le> count_where is_running (db_jobs d)"
    unfolding d' using f by (auto simp: count_where_update_where intro!: count_where_mono split: if_splits)
  moreover have "count_where (is_pending t) (db_jobs d') \<le> count_where (is_pending t) (db_jobs d)" for t
    unfolding d' using f
    by (auto simp: count_where_update_where is_pending_def is_running_def intro!: count_where_mono
        split: if_splits)
  ultimately show ?thesis
    using inv unfolding jobs_inv_alt by (meson le_trans)
qed

text \<open>An acknowledgement never violates a constraint, so its result is decided by its guard.\<close>

lemma ack_result:
  assumes "jobs_ok (db_jobs d)" "to_i64 claim_generation = Ok gen"
  shows "mark_completed request claim_generation d =
      (Ok (count_where (is_claimed request gen) (db_jobs d) = 1),
       d\<lparr>db_jobs := update_where (is_claimed request gen) (\<lambda>r. r\<lparr>j_state := Completed\<rparr>) (db_jobs d)\<rparr>)"
    and "mark_failed request claim_generation failure d =
      (Ok (count_where (is_claimed request gen) (db_jobs d) = 1),
       d\<lparr>db_jobs := update_where (is_claimed request gen)
           (\<lambda>r. r\<lparr>j_state := Failed, j_failure_kind := Some (failure_str failure)\<rparr>) (db_jobs d)\<rparr>)"
proof -
  have ok: "jobs_ok (update_where (is_claimed request gen) f (db_jobs d))"
    if "\<And>r. j_sequence (f r) = j_sequence r \<and> j_request_id (f r) = j_request_id r \<and>
          (job_checks r \<longrightarrow> job_checks (f r)) \<and> \<not> is_running (f r)" for f
    using assms(1) that jobs_okD(3) by (intro jobs_ok_update) auto
  show "mark_completed request claim_generation d =
      (Ok (count_where (is_claimed request gen) (db_jobs d) = 1),
       d\<lparr>db_jobs := update_where (is_claimed request gen) (\<lambda>r. r\<lparr>j_state := Completed\<rparr>) (db_jobs d)\<rparr>)"
    using assms(2) ok [of "\<lambda>r. r\<lparr>j_state := Completed\<rparr>"]
    by (simp add: mark_completed_def in_txn_def write_defs job_checks_def is_running_def Let_def)
  show "mark_failed request claim_generation failure d =
      (Ok (count_where (is_claimed request gen) (db_jobs d) = 1),
       d\<lparr>db_jobs := update_where (is_claimed request gen)
           (\<lambda>r. r\<lparr>j_state := Failed, j_failure_kind := Some (failure_str failure)\<rparr>) (db_jobs d)\<rparr>)"
    using assms(2) ok [of "\<lambda>r. r\<lparr>j_state := Failed, j_failure_kind := Some (failure_str failure)\<rparr>"]
    by (simp add: mark_failed_def in_txn_def write_defs job_checks_def is_running_def Let_def)
qed

lemma ack_error:
  assumes "to_i64 claim_generation = Err e"
  shows "mark_completed request claim_generation d = (Err e, d)"
    and "mark_failed request claim_generation failure d = (Err e, d)"
  using assms by (simp_all add: mark_completed_def mark_failed_def in_txn_def)

lemma mark_completed_inv [store_inv_intros]:
  assumes "jobs_inv d"
  shows "jobs_inv (snd (mark_completed request g d))"
proof (cases "to_i64 g")
  case (Inl e)
  with assms show ?thesis by (simp add: ack_error)
next
  case (Inr gen)
  have "jobs_inv (d\<lparr>db_jobs := update_where (is_claimed request gen) (\<lambda>r. r\<lparr>j_state := Completed\<rparr>) (db_jobs d)\<rparr>)"
    using assms jobs_okD(3) by (intro jobs_inv_update [OF assms])
      (auto simp: is_claimed_def is_running_def job_checks_def job_ranges_def jobs_inv_alt)
  with Inr assms show ?thesis by (simp add: ack_result jobs_inv_alt)
qed

lemma mark_failed_inv [store_inv_intros]:
  assumes "jobs_inv d"
  shows "jobs_inv (snd (mark_failed request g failure d))"
proof (cases "to_i64 g")
  case (Inl e)
  with assms show ?thesis by (simp add: ack_error)
next
  case (Inr gen)
  have "jobs_inv (d\<lparr>db_jobs := update_where (is_claimed request gen)
      (\<lambda>r. r\<lparr>j_state := Failed, j_failure_kind := Some (failure_str failure)\<rparr>) (db_jobs d)\<rparr>)"
    using assms jobs_okD(3) by (intro jobs_inv_update [OF assms])
      (auto simp: is_claimed_def is_running_def job_checks_def job_ranges_def jobs_inv_alt)
  with Inr assms show ?thesis by (simp add: ack_result jobs_inv_alt)
qed

lemma recover_jobs_result:
  "recover_interrupted_jobs d =
     (if jobs_ok (update_where is_running requeue_row (db_jobs d))
      then (Ok (count_where is_running (db_jobs d)),
            d\<lparr>db_jobs := update_where is_running requeue_row (db_jobs d)\<rparr>)
      else (Err (Sqlite ConstraintViolation), d))"
  by (simp add: recover_interrupted_jobs_def in_txn_def write_defs)

lemma recover_jobs_inv [store_inv_intros]:
  assumes "jobs_inv d"
  shows "jobs_inv (snd (recover_interrupted_jobs d))"
proof (cases "jobs_ok (update_where is_running requeue_row (db_jobs d))")
  case False
  with assms show ?thesis by (simp add: recover_jobs_result)
next
  case True
  then have "job_checks (requeue_row r)" if "r \<in> set (db_jobs d)" "is_running r" for r
    using that jobs_okD(3) [OF True] by (force simp: set_update_where)
  then have "jobs_inv (d\<lparr>db_jobs := update_where is_running requeue_row (db_jobs d)\<rparr>)"
    using assms by (intro jobs_inv_update [OF assms])
      (auto simp: is_running_def requeue_row_def job_ranges_def jobs_inv_alt)
  with True show ?thesis by (simp add: recover_jobs_result)
qed

lemma claim_pending_same:
  assumes "jobs_ok (db_jobs d)" "c \<in> set (db_jobs d)" "j_state c = Queued"
  shows "count_where (is_pending t) (update_where (\<lambda>r. j_request_id r = j_request_id c)
      (claim_job_row g) (db_jobs d)) = count_where (is_pending t) (db_jobs d)"
  unfolding count_where_update_where
proof (rule count_where_cong)
  fix r assume "r \<in> set (db_jobs d)"
  then show "(if j_request_id r = j_request_id c then is_pending t (claim_job_row g r)
      else is_pending t r) = is_pending t r"
    using distinct_key_eq [OF jobs_okD(2) [OF assms(1)], of r c] assms(2,3)
    by (auto simp: is_pending_def claim_job_row_def)
qed

lemma claim_inv [store_inv_intros]:
  assumes "jobs_inv d"
  shows "jobs_inv (snd (claim_next_runnable d))"
proof -
  obtain res d' where e: "claim_next_runnable d = (res, d')" by (cases "claim_next_runnable d")
  have ok: "jobs_ok (db_jobs d)" using assms by (simp add: jobs_inv_alt)
  from ok e show ?thesis
  proof (cases rule: claim_next_runnable_cases)
    case idle
    with e assms show ?thesis by simp
  next
    case (failed err)
    with e assms show ?thesis by simp
  next
    case (claimed c j)
    have q: "j_state c = Queued" using claimed(3) by (simp add: is_runnable_def)
    have "\<forall>j \<in> set (db_jobs d'). job_ranges d' j"
      using assms claimed(6) by (auto simp: claimed(8) jobs_inv_alt set_update_where job_ranges_def claim_job_row_def)
    moreover have "count_where is_running (db_jobs d') \<le> Suc (count_where is_running (db_jobs d))"
      unfolding claimed(8) using jobs_okD(2) [OF ok]
      by (auto simp: count_where_update_where
          intro!: count_where_le_Suc [where key = j_request_id and k = "j_request_id c"] split: if_splits)
    moreover have "count_where (is_pending t) (db_jobs d') = count_where (is_pending t) (db_jobs d)" for t
      unfolding claimed(8) using claim_pending_same [OF ok claimed(2) q] by simp
    ultimately show ?thesis
      using assms e claimed(5,9) by (auto simp: jobs_inv_alt)
  qed
qed

section \<open>How the queue evolves\<close>

text \<open>
  What later operations may do to a stored job: its identity and payload never change, its
  counters only grow, a finished job is never touched again, and a job that is running was
  either left alone or has been claimed under a larger claim generation. The table only grows.
\<close>

definition is_finished :: "job_row \<Rightarrow> bool" where
  "is_finished r \<longleftrightarrow> j_state r = Completed \<or> j_state r = Failed"

definition same_payload :: "job_row \<Rightarrow> job_row \<Rightarrow> bool" where
  "same_payload r r' \<longleftrightarrow>
     j_sequence r' = j_sequence r \<and> j_request_id r' = j_request_id r \<and> j_task_id r' = j_task_id r \<and>
     j_slot r' = j_slot r \<and> j_generation r' = j_generation r \<and> j_prompt r' = j_prompt r \<and>
     j_cwd r' = j_cwd r"

definition job_evolves :: "job_row \<Rightarrow> job_row \<Rightarrow> bool" where
  "job_evolves r r' \<longleftrightarrow>
     same_payload r r' \<and> j_claim_generation r \<le> j_claim_generation r' \<and>
     j_recovery_count r \<le> j_recovery_count r' \<and> (is_finished r \<longrightarrow> r' = r) \<and>
     (is_running r' \<longrightarrow> r' = r \<or> j_claim_generation r < j_claim_generation r')"

definition jobs_evolve :: "db \<Rightarrow> db \<Rightarrow> bool" where
  "jobs_evolve d d' \<longleftrightarrow>
     length (db_jobs d) \<le> length (db_jobs d') \<and>
     list_all2 job_evolves (db_jobs d) (take (length (db_jobs d)) (db_jobs d'))"

lemma job_evolves_refl [simp]: "job_evolves r r"
  by (simp add: job_evolves_def same_payload_def)

lemma job_evolves_trans: "job_evolves r s \<Longrightarrow> job_evolves s t \<Longrightarrow> job_evolves r t"
  by (auto simp: job_evolves_def same_payload_def)

lemma jobs_evolve_same: "db_jobs d' = db_jobs d \<Longrightarrow> jobs_evolve d d'"
  by (simp add: jobs_evolve_def list.rel_refl)

lemma jobs_evolve_trans:
  assumes "jobs_evolve a b" "jobs_evolve b c"
  shows "jobs_evolve a c"
proof -
  let ?n = "length (db_jobs a)"
  have "list_all2 job_evolves (take ?n (db_jobs b)) (take ?n (take (length (db_jobs b)) (db_jobs c)))"
    using assms(2) by (simp only: jobs_evolve_def list_all2_takeI)
  then have "list_all2 job_evolves (take ?n (db_jobs b)) (take ?n (db_jobs c))"
    using assms(1) by (simp add: jobs_evolve_def min_def)
  with assms show ?thesis
    using list_all2_trans [of job_evolves job_evolves job_evolves] job_evolves_trans
    unfolding jobs_evolve_def by (meson le_trans)
qed

lemma jobs_evolve_update:
  assumes "db_jobs d' = update_where p f (db_jobs d)"
    and "\<And>r. r \<in> set (db_jobs d) \<Longrightarrow> p r \<Longrightarrow> job_evolves r (f r)"
  shows "jobs_evolve d d'"
  using assms by (auto simp: jobs_evolve_def update_where_def list_all2_conv_all_nth)

lemma jobs_evolveD:
  assumes "jobs_evolve d d'" "r \<in> set (db_jobs d)"
  obtains r' where "r' \<in> set (db_jobs d')" "job_evolves r r'"
proof -
  obtain i where i: "i < length (db_jobs d)" "r = db_jobs d ! i"
    using assms(2) by (auto simp: in_set_conv_nth)
  with assms(1) have "db_jobs d' ! i \<in> set (db_jobs d')" "job_evolves r (db_jobs d' ! i)"
    by (auto simp: jobs_evolve_def list_all2_conv_all_nth)
  then show ?thesis by (rule that)
qed

lemma enqueue_evolve: "jobs_evolve d (snd (enqueue j d))"
proof -
  obtain res d' where e: "enqueue j d = (res, d')" by (cases "enqueue j d")
  then show ?thesis
  proof (cases rule: enqueue_cases)
    case unchanged
    with e show ?thesis by (simp add: jobs_evolve_same)
  next
    case (inserted gen row)
    with e show ?thesis by (simp add: jobs_evolve_def list.rel_refl)
  qed
qed

lemma claim_evolve:
  assumes "jobs_inv d"
  shows "jobs_evolve d (snd (claim_next_runnable d))"
proof -
  obtain res d' where e: "claim_next_runnable d = (res, d')" by (cases "claim_next_runnable d")
  have ok: "jobs_ok (db_jobs d)" using assms by (simp add: jobs_inv_alt)
  from ok e show ?thesis
  proof (cases rule: claim_next_runnable_cases)
    case (claimed c j)
    have "job_evolves r (claim_job_row (j_claim_generation c + 1) r)"
      if "r \<in> set (db_jobs d)" "j_request_id r = j_request_id c" for r
    proof -
      have "r = c" using distinct_key_eq [OF jobs_okD(2) [OF ok]] that claimed(2) by auto
      then show ?thesis
        using claimed(3) by (auto simp: job_evolves_def same_payload_def claim_job_row_def
          is_finished_def is_runnable_def)
    qed
    with e claimed(8) show ?thesis
      by (intro jobs_evolve_update [where p = "\<lambda>r. j_request_id r = j_request_id c"]) auto
  qed (use e in \<open>auto intro: jobs_evolve_same\<close>)
qed

lemma running_evolves:
  assumes "same_payload r r'" "j_claim_generation r' = j_claim_generation r"
    "j_recovery_count r \<le> j_recovery_count r'" "is_running r" "\<not> is_running r'"
  shows "job_evolves r r'"
  using assms by (auto simp: job_evolves_def is_finished_def is_running_def)

lemma ack_evolve:
  assumes "jobs_inv d"
  shows "jobs_evolve d (snd (mark_completed request g d))"
    and "jobs_evolve d (snd (mark_failed request g failure d))"
proof -
  have ok: "jobs_ok (db_jobs d)" using assms by (simp add: jobs_inv_alt)
  show "jobs_evolve d (snd (mark_completed request g d))"
  proof (cases "to_i64 g")
    case (Inr gen)
    then show ?thesis
      by (intro jobs_evolve_update [where p = "is_claimed request gen"])
        (auto simp: ack_result [OF ok] is_claimed_def same_payload_def is_running_def
          intro!: running_evolves)
  qed (simp add: ack_error jobs_evolve_same)
  show "jobs_evolve d (snd (mark_failed request g failure d))"
  proof (cases "to_i64 g")
    case (Inr gen)
    then show ?thesis
      by (intro jobs_evolve_update [where p = "is_claimed request gen"])
        (auto simp: ack_result [OF ok] is_claimed_def same_payload_def is_running_def
          intro!: running_evolves)
  qed (simp add: ack_error jobs_evolve_same)
qed

lemma recover_jobs_evolve: "jobs_evolve d (snd (recover_interrupted_jobs d))"
proof (cases "jobs_ok (update_where is_running requeue_row (db_jobs d))")
  case True
  then show ?thesis
    by (intro jobs_evolve_update [where p = is_running])
      (auto simp: recover_jobs_result same_payload_def is_running_def requeue_row_def
        intro!: running_evolves)
qed (simp add: recover_jobs_result jobs_evolve_same)

text \<open>A row is found by its request id.\<close>

lemma job_row_unique:
  "jobs_inv d \<Longrightarrow> r \<in> set (db_jobs d) \<Longrightarrow> r' \<in> set (db_jobs d) \<Longrightarrow>
   j_request_id r = j_request_id r' \<Longrightarrow> r = r'"
  using distinct_key_eq [OF jobs_okD(2)] by (auto simp: jobs_inv_alt)

lemma first_row_request:
  assumes "jobs_inv d" "r \<in> set (db_jobs d)"
  shows "first_row (\<lambda>e. j_request_id e = j_request_id r) (db_jobs d) = Some r"
  using assms jobs_okD(2) [of "db_jobs d"]
  by (intro first_row_unique [where key = j_request_id]) (auto simp: jobs_inv_alt)

lemma ack_stale:
  assumes "jobs_inv d" "r \<in> set (db_jobs d)" "\<not> is_claimed (j_request_id r) gen r"
    "to_i64 g = Ok gen"
  shows "mark_completed (j_request_id r) g d = (Ok False, d)"
    "mark_failed (j_request_id r) g failure d = (Ok False, d)"
proof -
  have no: "\<not> is_claimed (j_request_id r) gen r'" if "r' \<in> set (db_jobs d)" for r'
    using job_row_unique [OF assms(1) that assms(2)] assms(3) by (auto simp: is_claimed_def)
  then have u: "update_where (is_claimed (j_request_id r) gen) f (db_jobs d) = db_jobs d" for f
    by (rule update_where_id)
  have "count_where (is_claimed (j_request_id r) gen) (db_jobs d) = 0"
    using no count_where_pos by (metis gr0I)
  then show "mark_completed (j_request_id r) g d = (Ok False, d)"
    "mark_failed (j_request_id r) g failure d = (Ok False, d)"
    using assms(1,4) by (simp_all add: ack_result u jobs_inv_alt)
qed

lemma ack_true:
  assumes "jobs_inv d" "to_i64 g = Ok gen"
    "fst (mark_completed request g d) = Ok True \<or> fst (mark_failed request g failure d) = Ok True"
  obtains r where "r \<in> set (db_jobs d)" "is_claimed request gen r"
proof -
  have "count_where (is_claimed request gen) (db_jobs d) = 1"
    using assms by (auto simp: ack_result jobs_inv_alt)
  then have "0 < count_where (is_claimed request gen) (db_jobs d)" by simp
  then show ?thesis using that by (auto simp: count_where_pos)
qed

section \<open>A concrete queue\<close>

definition sample_new_job :: "string \<Rightarrow> string \<Rightarrow> new_job" where
  "sample_new_job request task =
     \<lparr> nj_request_id = request, nj_task_id = task, nj_slot = 1, nj_generation = 7,
       nj_prompt = ''run'', nj_cwd = [0x2F, 0x77] \<rparr>"

definition sample_queue :: db where
  "sample_queue = snd (enqueue (sample_new_job ''r2'' ''t'') (snd (enqueue (sample_new_job ''r1'' ''t'') empty_db)))"

lemma sample_queue_inv: "jobs_inv sample_queue"
  unfolding sample_queue_def by (intro enqueue_inv) (simp add: jobs_inv_def empty_db_def jobs_ok_def)

lemma sample_queue_claim:
  "fst (claim_next_runnable sample_queue) = Ok (Some
     \<lparr> job_request_id = ''r1'', job_task_id = ''t'', job_slot = 1, job_generation = 7,
       job_prompt = ''run'', job_cwd = [0x2F, 0x77], job_recovery_count = 0, job_claim_generation = 1 \<rparr>)"
  by code_simp

section \<open>Properties of the queue\<close>

lemma map_job_total:
  assumes "job_checks r" "j_claim_generation r \<le> i64_max"
  obtains j where "map_job r = Ok j"
proof -
  have "nat (j_recovery_count r) \<le> u32_max" using assms(1) by (simp add: job_checks_def u32_max_def nat_le_iff)
  then show ?thesis using that by (simp add: map_job_def decode_path_def get_count_def)
qed

lemma map_job_fields:
  assumes "map_job r = Ok j" "job_checks r" "j_generation r \<le> i64_max" "j_claim_generation r \<le> i64_max"
  shows "job_request_id j = j_request_id r" "job_task_id j = j_task_id r" "job_slot j = j_slot r"
    "job_prompt j = j_prompt r" "job_cwd j = j_cwd r" "uint (job_generation j) = j_generation r"
    "uint (job_claim_generation j) = j_claim_generation r"
    "int (unat (job_recovery_count j)) = j_recovery_count r"
  using assms
  by (auto simp: map_job_def decode_path_def get_count_def uint_as_u64 job_checks_def
      and_then_Ok_iff uint_word_of_int split: if_splits)

text \<open>The row chosen by a claim is the first runnable one, and writing it breaks no constraint.\<close>

lemma jobs_ok_claim:
  assumes "jobs_ok js" "c \<in> set js" "is_runnable js c"
  shows "jobs_ok (update_where (\<lambda>r. j_request_id r = j_request_id c)
           (claim_job_row (j_claim_generation c + 1)) js)"
proof -
  let ?p = "\<lambda>r. j_request_id r = j_request_id c" and ?f = "claim_job_row (j_claim_generation c + 1)"
  note ok = jobs_okD [OF assms(1)]
  have uniq: "r = c" if "r \<in> set js" "?p r" for r
    using distinct_key_eq [OF ok(2)] that assms(2) by auto
  have keys: "map j_sequence (update_where ?p ?f js) = map j_sequence js"
    "map j_request_id (update_where ?p ?f js) = map j_request_id js"
    by (intro map_update_where; simp add: claim_job_row_def)+
  have checks: "list_all job_checks (update_where ?p ?f js)"
    using ok(3) assms(2) by (intro list_all_update_where)
      (force simp: list_all_iff claim_job_row_def job_checks_def)+
  have idle: "\<not> is_running r" if "r \<in> set js" "j_task_id r = j_task_id c" for r
    using assms(3) that by (auto simp: is_runnable_def is_running_def list_ex_iff)
  have "inj_on j_task_id {r \<in> set (update_where ?p ?f js). is_running r}"
  proof (rule inj_onI)
    fix a b
    assume a: "a \<in> {r \<in> set (update_where ?p ?f js). is_running r}"
      and b: "b \<in> {r \<in> set (update_where ?p ?f js). is_running r}" and e: "j_task_id a = j_task_id b"
    have in_js: "x = ?f c \<or> (x \<in> set js \<and> is_running x)"
      if "x \<in> {r \<in> set (update_where ?p ?f js). is_running r}" for x
      using that uniq by (auto simp: set_update_where split: if_splits)
    have inj: "inj_on j_task_id {r \<in> set js. is_running r}"
      using ok(4) by (simp add: distinct_map)
    have fc: "j_task_id (?f c) = j_task_id c" by (simp add: claim_job_row_def)
    show "a = b"
      using in_js [OF a] in_js [OF b] e idle fc inj_onD [OF inj e] by auto
  qed
  moreover have "distinct (update_where ?p ?f js)"
    using keys(1) ok(1) by (metis distinct_map)
  ultimately have "distinct (map j_task_id (filter is_running (update_where ?p ?f js)))"
    by (simp add: distinct_map)
  with keys checks ok show ?thesis by (simp add: jobs_ok_def)
qed

lemma claim_result:
  assumes "jobs_inv d" "count_where is_running (db_jobs d) < 4"
    "first_by j_sequence (is_runnable (db_jobs d)) (db_jobs d) = Some c"
    "j_claim_generation c < i64_max"
  obtains j where "claim_next_runnable d = (Ok (Some j),
       d\<lparr>db_jobs := update_where (\<lambda>r. j_request_id r = j_request_id c)
           (claim_job_row (j_claim_generation c + 1)) (db_jobs d)\<rparr>)"
proof -
  have ok: "jobs_ok (db_jobs d)" using assms(1) by (simp add: jobs_inv_alt)
  note c = first_by_Some [OF assms(3)]
  let ?sel = "\<lambda>r. j_request_id r = j_request_id c \<and> j_state r = Queued"
  let ?key = "\<lambda>r. j_request_id r = j_request_id c" and ?g = "j_claim_generation c + 1"
  let ?js = "update_where ?key (claim_job_row ?g) (db_jobs d)"
  have q: "j_state c = Queued" using c(2) by (simp add: is_runnable_def)
  have upd: "update_where ?sel f (db_jobs d) = update_where ?key f (db_jobs d)" for f
    unfolding update_where_def using distinct_key_eq [OF jobs_okD(2) [OF ok]] q c(1)
    by (intro map_cong) auto
  have one: "count_where ?sel (db_jobs d) = 1"
    using jobs_okD(2) [OF ok] c(1) q by (intro count_where_one [where key = j_request_id]) auto
  have ok': "jobs_ok ?js" using jobs_ok_claim [OF ok c(1,2)] .
  have first: "first_row ?key ?js = Some (claim_job_row ?g c)"
    using jobs_okD(2) [OF ok'] c(1)
    by (intro first_row_unique [where key = j_request_id]) (auto simp: set_update_where claim_job_row_def)
  have "claim_job_row ?g c \<in> set ?js" using c(1) by (auto simp: set_update_where)
  then obtain j where "map_job (claim_job_row ?g c) = Ok j"
    using map_job_total [of "claim_job_row ?g c"] jobs_okD(3) [OF ok'] assms(4)
    by (auto simp: claim_job_row_def)
  with assms(2-4) ok' first one that show ?thesis
    by (auto simp: claim_next_runnable_def in_txn_def claim_next_runnable_txn_def get_count_def Let_def
        upd MAX_GLOBAL_RUNNING_JOBS_def u32_max_def unat_of_nat checked_succ_def write_defs)
qed

text \<open>C23: A successful claim takes a queued job whose task is idle, the oldest one among all
  jobs that could run and in particular the oldest queued job of its task; it marks that one
  row running under the next claim generation, leaves every other row and table alone, and
  returns exactly the stored payload with the new claim generation.\<close>

theorem claim_takes_oldest_runnable:
  assumes "jobs_inv d" "claim_next_runnable d = (Ok (Some j), d')"
  shows "\<exists>pre c post. db_jobs d = pre @ c # post \<and> j_state c = Queued \<and>
     d' = d\<lparr>db_jobs := pre @ c\<lparr>j_state := Running,
             j_claim_generation := j_claim_generation c + 1, j_failure_kind := None\<rparr> # post\<rparr> \<and>
     (\<forall>r \<in> set (db_jobs d). j_task_id r = j_task_id c \<longrightarrow> j_state r \<noteq> Running) \<and>
     (\<forall>q \<in> set (db_jobs d). j_task_id q = j_task_id c \<and> j_state q = Queued \<longrightarrow>
        j_sequence c \<le> j_sequence q) \<and>
     (\<forall>q \<in> set (db_jobs d). is_runnable (db_jobs d) q \<longrightarrow> j_sequence c \<le> j_sequence q) \<and>
     job_request_id j = j_request_id c \<and> job_task_id j = j_task_id c \<and> job_slot j = j_slot c \<and>
     job_prompt j = j_prompt c \<and> job_cwd j = j_cwd c \<and> uint (job_generation j) = j_generation c \<and>
     uint (job_claim_generation j) = j_claim_generation c + 1 \<and>
     int (unat (job_recovery_count j)) = j_recovery_count c"
proof -
  have ok: "jobs_ok (db_jobs d)" using assms(1) by (simp add: jobs_inv_alt)
  from ok assms(2) show ?thesis
  proof (cases rule: claim_next_runnable_cases)
    case (claimed c j')
    obtain pre post where split: "db_jobs d = pre @ c # post"
      "\<And>f. update_where (\<lambda>r. j_request_id r = j_request_id c) f (db_jobs d) = pre @ f c # post"
      using update_key_split [OF jobs_okD(2) [OF ok] claimed(2)] by metis
    have rc: "job_ranges d c" "job_checks c"
      using assms(1) claimed(2) jobs_okD(3) [OF ok] by (auto simp: jobs_inv_alt)
    have fields: "map_job (claim_job_row (j_claim_generation c + 1) c) = Ok j"
      using claimed(1,7) by simp
    have run: "j_state c = Queued" "\<forall>r \<in> set (db_jobs d). j_task_id r = j_task_id c \<longrightarrow> j_state r \<noteq> Running"
      "\<forall>q \<in> set (db_jobs d). j_task_id q = j_task_id c \<and> j_state q = Queued \<longrightarrow> j_sequence c \<le> j_sequence q"
      using claimed(3) by (auto simp: is_runnable_def list_ex_iff)
    have "d' = d\<lparr>db_jobs := pre @ c\<lparr>j_state := Running,
             j_claim_generation := j_claim_generation c + 1, j_failure_kind := None\<rparr> # post\<rparr>"
      using claimed(8) split(2) by (simp add: claim_job_row_def)
    with split(1) run claimed(4) show ?thesis
      using map_job_fields [OF fields] rc claimed(6)
      by (intro exI [of _ pre] exI [of _ c] exI [of _ post])
        (auto simp: claim_job_row_def job_ranges_def job_checks_def)
  qed auto
qed

theorem claim_takes_oldest_runnable_witness:
  "jobs_inv sample_queue \<and> (\<exists>j d'. claim_next_runnable sample_queue = (Ok (Some j), d') \<and>
     job_request_id j = ''r1'' \<and>
     (\<exists>c \<in> set (db_jobs sample_queue). j_request_id c = ''r1'' \<and> j_state c = Queued \<and>
        (\<forall>q \<in> set (db_jobs sample_queue). is_runnable (db_jobs sample_queue) q \<longrightarrow>
           j_sequence c \<le> j_sequence q) \<and>
        uint (job_claim_generation j) = j_claim_generation c + 1))"
proof -
  obtain j d' where e: "claim_next_runnable sample_queue = (Ok (Some j), d')"
    using sample_queue_claim by (cases "claim_next_runnable sample_queue") auto
  then have r1: "job_request_id j = ''r1''"
    using sample_queue_claim by auto
  show ?thesis
    using claim_takes_oldest_runnable [OF sample_queue_inv e] sample_queue_inv e r1 by fastforce
qed

text \<open>An idle task with a queued job has a runnable one.\<close>

lemma runnable_exists:
  assumes "q \<in> set js" "j_state q = Queued" "\<forall>r \<in> set js. j_task_id r = j_task_id q \<longrightarrow> j_state r \<noteq> Running"
  shows "\<exists>c \<in> set js. is_runnable js c"
proof -
  let ?S = "{r \<in> set js. j_task_id r = j_task_id q \<and> j_state r = Queued}"
  have fin: "finite (j_sequence ` ?S)" "j_sequence ` ?S \<noteq> {}" using assms(1,2) by auto
  have "Min (j_sequence ` ?S) \<in> j_sequence ` ?S" using fin by (rule Min_in)
  then obtain c where c: "c \<in> ?S" "j_sequence c = Min (j_sequence ` ?S)" by force
  have "j_sequence c \<le> j_sequence r" if "r \<in> ?S" for r
    using that fin(1) c(2) by simp
  with c(1) assms(3) have "is_runnable js c"
    by (fastforce simp: is_runnable_def list_ex_iff)
  with c(1) show ?thesis by blast
qed

text \<open>C24: Claiming makes progress: as long as no claim generation is exhausted it never fails,
  and it returns no job exactly when four jobs are running or every task with a queued job
  already has a running one.\<close>

theorem claim_progress:
  assumes "jobs_inv d" "\<forall>r \<in> set (db_jobs d). j_claim_generation r < i64_max"
  shows "\<exists>res. fst (claim_next_runnable d) = Ok res \<and>
    (res = None \<longleftrightarrow> count_where is_running (db_jobs d) = MAX_GLOBAL_RUNNING_JOBS \<or>
       (\<forall>q \<in> set (db_jobs d). j_state q = Queued \<longrightarrow>
          (\<exists>r \<in> set (db_jobs d). j_task_id r = j_task_id q \<and> j_state r = Running)))"
proof (cases "count_where is_running (db_jobs d) < 4")
  case False
  with assms(1) show ?thesis
    by (auto simp: jobs_inv_alt claim_next_runnable_def in_txn_def claim_next_runnable_txn_def
        get_count_def u32_max_def MAX_GLOBAL_RUNNING_JOBS_def unat_of_nat)
next
  case True
  show ?thesis
  proof (cases "first_by j_sequence (is_runnable (db_jobs d)) (db_jobs d)")
    case None
    then have "\<forall>q \<in> set (db_jobs d). j_state q = Queued \<longrightarrow>
          (\<exists>r \<in> set (db_jobs d). j_task_id r = j_task_id q \<and> j_state r = Running)"
      using runnable_exists by (fastforce simp: first_by_None)
    with None True show ?thesis
      by (auto simp: claim_next_runnable_def in_txn_def claim_next_runnable_txn_def
        get_count_def u32_max_def MAX_GLOBAL_RUNNING_JOBS_def unat_of_nat)
  next
    case (Some c)
    have "j_claim_generation c < i64_max" using assms(2) first_by_Some(1) [OF Some] by blast
    then obtain j where "fst (claim_next_runnable d) = Ok (Some j)"
      using claim_result [OF assms(1) True Some] by (metis fst_conv)
    moreover have "\<not> (\<forall>q \<in> set (db_jobs d). j_state q = Queued \<longrightarrow>
          (\<exists>r \<in> set (db_jobs d). j_task_id r = j_task_id q \<and> j_state r = Running))"
      using first_by_Some(1,2) [OF Some] by (auto simp: is_runnable_def list_ex_iff)
    ultimately show ?thesis using True by (auto simp: MAX_GLOBAL_RUNNING_JOBS_def)
  qed
qed

theorem claim_progress_witness:
  "jobs_inv sample_queue \<and> list_all (\<lambda>r. j_claim_generation r < i64_max) (db_jobs sample_queue) \<and>
   (\<exists>res. fst (claim_next_runnable sample_queue) = Ok res)"
proof -
  have "\<forall>r \<in> set (db_jobs sample_queue). j_claim_generation r < i64_max" by code_simp
  then show ?thesis using claim_progress [OF sample_queue_inv] sample_queue_inv by (metis list_all_iff)
qed

text \<open>Recovery at start-up puts every running job back in the queue with its recovery count
  raised by one and its claim generation kept, changes nothing else, and reports how many
  jobs it recovered; it fails, changing nothing, only when a recovery count is exhausted.\<close>

lemma recover_jobs_requeues:
  assumes "jobs_inv d"
  shows "recover_interrupted_jobs d =
    (if \<exists>r \<in> set (db_jobs d). j_state r = Running \<and> j_recovery_count r = 4294967295
     then (Err (Sqlite ConstraintViolation), d)
     else (Ok (length (filter (\<lambda>r. j_state r = Running) (db_jobs d))),
           d\<lparr>db_jobs := map (\<lambda>r. if j_state r = Running
               then r\<lparr>j_state := Queued, j_recovery_count := j_recovery_count r + 1\<rparr> else r) (db_jobs d)\<rparr>))"
proof -
  have ok: "jobs_ok (db_jobs d)" using assms by (simp add: jobs_inv_alt)
  have "jobs_ok (update_where is_running requeue_row (db_jobs d)) \<longleftrightarrow>
    \<not> (\<exists>r \<in> set (db_jobs d). j_state r = Running \<and> j_recovery_count r = 4294967295)"
  proof
    assume "jobs_ok (update_where is_running requeue_row (db_jobs d))"
    then have "job_checks (requeue_row r)" if "r \<in> set (db_jobs d)" "is_running r" for r
      using jobs_okD(3) that by (force simp: set_update_where)
    then show "\<not> (\<exists>r \<in> set (db_jobs d). j_state r = Running \<and> j_recovery_count r = 4294967295)"
      by (force simp: job_checks_def requeue_row_def is_running_def)
  next
    assume "\<not> (\<exists>r \<in> set (db_jobs d). j_state r = Running \<and> j_recovery_count r = 4294967295)"
    then show "jobs_ok (update_where is_running requeue_row (db_jobs d))"
      using jobs_okD(3) [OF ok]
      by (intro jobs_ok_update [OF ok]) (fastforce simp: job_checks_def requeue_row_def is_running_def)
  qed
  then show ?thesis
    by (simp add: recover_jobs_result update_where_def requeue_row_def count_where_def is_running_def [abs_def])
qed

lemma recover_jobs_requeues_witness:
  "jobs_inv (snd (claim_next_runnable sample_queue)) \<and>
   fst (recover_interrupted_jobs (snd (claim_next_runnable sample_queue))) = Ok 1"
proof -
  have inv: "jobs_inv (snd (claim_next_runnable sample_queue))"
    by (intro claim_inv sample_queue_inv)
  have "\<not> (\<exists>r \<in> set (db_jobs (snd (claim_next_runnable sample_queue))).
            j_state r = Running \<and> j_recovery_count r = 4294967295)"
    "length (filter (\<lambda>r. j_state r = Running) (db_jobs (snd (claim_next_runnable sample_queue)))) = 1"
    by code_simp+
  with recover_jobs_requeues [OF inv] inv show ?thesis by simp
qed

end
