(* ===== verification/Cache_Ids.thy ===== *)
theory Cache_Ids
  imports Text_Checks
begin

text \<open>
  The identity of a cached summary generation in \<open>app/host/src/cache.rs\<close>: the SHA-256
  hash of the task id (a parameter, since the hash is a library function) and the
  generation, and the textual reference that the state database stores for it.
\<close>

section \<open>Definitions\<close>

definition TASK_HASH_HEX_BYTES :: nat where "TASK_HASH_HEX_BYTES = 64"

datatype cache_ref_error = InvalidGeneration | InvalidReference

record cache_id =
  ci_task_hash :: bytes32
  ci_generation :: u64

definition char_code :: "char \<Rightarrow> nat" where
  "char_code c = of_char c"

definition is_digit :: "char \<Rightarrow> bool" where
  "is_digit c \<longleftrightarrow> 48 \<le> char_code c \<and> char_code c \<le> 57"

definition is_lower_hex :: "char \<Rightarrow> bool" where
  "is_lower_hex c \<longleftrightarrow> is_digit c \<or> 97 \<le> char_code c \<and> char_code c \<le> 102"

definition is_task_hash :: "string \<Rightarrow> bool" where
  "is_task_hash v \<longleftrightarrow> length v = TASK_HASH_HEX_BYTES \<and> list_all is_lower_hex v"

definition is_canonical_generation :: "string \<Rightarrow> bool" where
  "is_canonical_generation v \<longleftrightarrow>
     (case v of [] \<Rightarrow> False | c # _ \<Rightarrow> 49 \<le> char_code c \<and> char_code c \<le> 57) \<and> list_all is_digit v"

fun encode_hex :: "u8 list \<Rightarrow> string" where
  "encode_hex [] = []"
| "encode_hex (b # bs) = digit_char (unat b div 16) # digit_char (unat b mod 16) # encode_hex bs"

definition hex_digit :: "char \<Rightarrow> nat option" where
  "hex_digit c =
     (if 48 \<le> char_code c \<and> char_code c \<le> 57 then Some (char_code c - 48)
      else if 97 \<le> char_code c \<and> char_code c \<le> 102 then Some (char_code c - 87) else None)"

definition decode_hex_pair :: "char \<Rightarrow> char \<Rightarrow> u8 option" where
  "decode_hex_pair a b =
     Option.bind (hex_digit a) (\<lambda>h. Option.bind (hex_digit b) (\<lambda>l. Some (of_nat (16 * h + l))))"

text \<open>The loop over \<open>chunks_exact(2)\<close>.\<close>

fun decode_hex :: "string \<Rightarrow> u8 list option" where
  "decode_hex (a # b # s) =
     Option.bind (decode_hex_pair a b) (\<lambda>v. Option.bind (decode_hex s) (\<lambda>vs. Some (v # vs)))"
| "decode_hex _ = Some []"

text \<open>\<open>str::parse::<u64>\<close> of a non-empty string of digits.\<close>

definition parse_u64 :: "string \<Rightarrow> u64 option" where
  "parse_u64 v =
     (let n = radix_value 10 (map (\<lambda>c. char_code c - 48) v) 0
      in if n < 2 ^ 64 then Some (of_nat n) else None)"

definition for_task :: "(string \<Rightarrow> bytes32) \<Rightarrow> string \<Rightarrow> u64 \<Rightarrow> cache_ref_error + cache_id" where
  "for_task sha256 task_id generation =
     (if generation = 0 then Err InvalidGeneration
      else Ok \<lparr> ci_task_hash = sha256 task_id, ci_generation = generation \<rparr>)"

definition reference :: "cache_id \<Rightarrow> string" where
  "reference i = encode_hex (bytes_of_32 (ci_task_hash i)) @ ''/'' @ decimal (unat (ci_generation i))"

definition from_reference :: "string \<Rightarrow> cache_ref_error + cache_id" where
  "from_reference r =
     (case split_on (CHR ''/'') r of
        [task_hash, generation] \<Rightarrow>
          if \<not> is_task_hash task_hash \<or> \<not> is_canonical_generation generation then Err InvalidReference
          else and_then (ok_or InvalidReference (parse_u64 generation)) (\<lambda>gen.
                 if gen = 0 then Err InvalidReference
                 else and_then (ok_or InvalidReference (decode_hex task_hash)) (\<lambda>bytes.
                        Ok \<lparr> ci_task_hash = to_bytes32 bytes, ci_generation = gen \<rparr>))
      | _ \<Rightarrow> Err InvalidReference)"

section \<open>Lemmas\<close>

lemma char_code_digit [simp]:
  "d < 10 \<Longrightarrow> char_code (digit_char d) = 48 + d"
  "10 \<le> d \<Longrightarrow> d < 16 \<Longrightarrow> char_code (digit_char d) = 87 + d"
  by (simp_all add: char_code_def of_char_digit)

lemma hex_digit_digit_char [simp]: "d < 16 \<Longrightarrow> hex_digit (digit_char d) = Some d"
  by (cases "d < 10") (auto simp: hex_digit_def)

lemma hex_digit_Some: "hex_digit c = Some d \<Longrightarrow> d < 16 \<and> digit_char d = c"
  by (auto simp: hex_digit_def digit_char_def char_code_def split: if_splits)

lemma is_lower_hex_hex_digit: "is_lower_hex c \<longleftrightarrow> hex_digit c \<noteq> None"
  by (auto simp: is_lower_hex_def is_digit_def hex_digit_def)

lemma decode_hex_pair_encode:
  "decode_hex_pair (digit_char (unat b div 16)) (digit_char (unat b mod 16)) = Some b"
proof -
  have "unat b div 16 < 16"
    using unat_byte_lt [of b] by (simp add: div_less_iff_less_mult)
  moreover have "(of_nat (16 * (unat b div 16) + unat b mod 16) :: u8) = b"
    unfolding mult_div_mod_eq by simp
  ultimately show ?thesis by (simp add: decode_hex_pair_def del: of_nat_add of_nat_mult)
qed

lemma decode_encode_hex [simp]: "decode_hex (encode_hex bs) = Some bs"
  by (induction bs) (simp_all add: decode_hex_pair_encode)

lemma encode_hex_length [simp]: "length (encode_hex bs) = 2 * length bs"
  by (induction bs) auto

lemma encode_hex_lower: "list_all is_lower_hex (encode_hex bs)"
proof (induction bs)
  case (Cons b bs)
  have "unat b div 16 < 16"
    using unat_byte_lt [of b] by (simp add: div_less_iff_less_mult)
  with Cons show ?case by (simp add: is_lower_hex_hex_digit)
qed simp

lemma unat_of_nat_u8: "n < 256 \<Longrightarrow> unat (of_nat n :: u8) = n"
  by (simp add: unat_of_nat)

lemma decode_hex_encode:
  assumes "even (length s)" "list_all is_lower_hex s"
  obtains bs where "decode_hex s = Some bs" "encode_hex bs = s" "2 * length bs = length s"
  using assms
proof (induction s arbitrary: thesis rule: decode_hex.induct)
  case (1 a b s)
  obtain h l where hl: "hex_digit a = Some h" "hex_digit b = Some l"
    using "1.prems" by (auto simp: is_lower_hex_hex_digit)
  note d = hex_digit_Some [OF hl(1)] hex_digit_Some [OF hl(2)]
  have p: "decode_hex_pair a b = Some (of_nat (16 * h + l))"
    using hl by (simp add: decode_hex_pair_def)
  obtain bs where bs: "decode_hex s = Some bs" "encode_hex bs = s" "2 * length bs = length s"
    using "1.IH" [OF p] "1.prems"(2,3) by auto
  have "unat (of_nat (16 * h + l) :: u8) = 16 * h + l"
    using d by (intro unat_of_nat_u8) simp
  then show ?case
    using hl d bs "1.prems"(1) [of "of_nat (16 * h + l) # bs"] by (simp add: decode_hex_pair_def)
qed auto

lemma decimal_digits: "list_all is_digit (decimal n)"
  using radix_digits_bound [of 10 _ n]
  by (fastforce simp: decimal_def list_all_iff is_digit_def)

lemma map_digits_decimal: "map (\<lambda>c. char_code c - 48) (decimal n) = radix_digits 10 n"
  using radix_digits_bound [of 10 _ n] by (auto simp: decimal_def intro!: map_idI)

lemma decimal_canonical: "0 < n \<Longrightarrow> is_canonical_generation (decimal n)"
proof -
  assume n: "0 < n"
  obtain d ds where d: "radix_digits 10 n = d # ds"
    using radix_digits_nonempty by (meson list.exhaust)
  have "d \<noteq> 0" "d < 10"
    using radix_digits_leading [of 10 n] radix_digits_bound [of 10 d n] n d by auto
  then show ?thesis
    using decimal_digits [of n] by (simp add: is_canonical_generation_def decimal_def d)
qed

lemma parse_decimal: "parse_u64 (decimal (unat g)) = Some g"
  using unsigned_less [of g, where ?'a = nat]
  by (simp add: parse_u64_def map_digits_decimal radix_value_digits)

text \<open>Digits without a leading zero are determined by their value.\<close>

lemma radix_value_lower:
  "radix_value r ds acc \<ge> acc * r ^ length ds"
proof (induction ds arbitrary: acc)
  case (Cons d ds)
  have "acc * r ^ length (d # ds) \<le> (acc * r + d) * r ^ length ds"
    by (simp add: algebra_simps)
  also have "\<dots> \<le> radix_value r (d # ds) acc" using Cons by simp
  finally show ?case .
qed simp

lemma radix_value_upper:
  assumes "\<forall>d \<in> set ds. d < r"
  shows "radix_value r ds acc < (acc + 1) * r ^ length ds"
  using assms
proof (induction ds arbitrary: acc)
  case (Cons d ds)
  have "radix_value r (d # ds) acc < (acc * r + d + 1) * r ^ length ds"
    using Cons by auto
  also have "\<dots> \<le> (acc * r + r) * r ^ length ds"
    using Cons.prems by (intro mult_right_mono) auto
  finally show ?case by (simp add: algebra_simps)
qed simp

lemma radix_digits_value:
  assumes "2 \<le> r" "ds \<noteq> []" "hd ds \<noteq> 0" "\<forall>d \<in> set ds. d < r"
  shows "radix_digits r (radix_value r ds 0) = ds"
  using assms
proof (induction ds rule: rev_induct)
  case (snoc d ds)
  show ?case
  proof (cases ds)
    case Nil
    with snoc show ?thesis by (simp add: radix_digits.simps)
  next
    case (Cons e es)
    let ?v = "radix_value r ds 0"
    have v: "radix_value r (ds @ [d]) 0 = ?v * r + d" by (simp add: radix_value_append)
    have "1 * r ^ length es \<le> e * r ^ length es"
      using snoc.prems Cons by (intro mult_right_mono) auto
    also have "\<dots> \<le> ?v" using radix_value_lower [of e r es] Cons by simp
    finally have "0 < ?v" using snoc.prems(1) by (metis less_le_trans mult_1 nat_le_linear not_less0 order_less_le_trans zero_less_numeral zero_less_power)
    then have "?v \<noteq> 0" by simp
    then have "r \<le> ?v * r + d" by (cases ?v) auto
    moreover have "(?v * r + d) div r = ?v" "(?v * r + d) mod r = d"
      using snoc.prems by auto
    ultimately show ?thesis
      unfolding v using snoc Cons by (subst radix_digits.simps) auto
  qed
qed simp

lemma parse_canonical:
  assumes "is_canonical_generation v" "parse_u64 v = Some g"
  shows "g \<noteq> 0" "v = decimal (unat g)"
proof -
  let ?ds = "map (\<lambda>c. char_code c - 48) v"
  have v: "v \<noteq> []" "hd ?ds \<noteq> 0" "\<forall>d \<in> set ?ds. d < 10"
    using assms(1) by (auto simp: is_canonical_generation_def list_all_iff is_digit_def split: list.splits)
  have n: "radix_value 10 ?ds 0 < 2 ^ 64" "g = of_nat (radix_value 10 ?ds 0)"
    using assms(2) by (auto simp: parse_u64_def Let_def split: if_splits)
  then have u: "unat g = radix_value 10 ?ds 0" by (simp add: unat_of_nat)
  have digits: "radix_digits 10 (unat g) = ?ds"
    using radix_digits_value [of 10 ?ds] v u by simp
  have "map digit_char ?ds = map (\<lambda>c. c) v"
    unfolding map_map
    using assms(1) by (intro map_cong)
      (auto simp: is_canonical_generation_def list_all_iff is_digit_def digit_char_def char_code_def)
  then show "v = decimal (unat g)" by (simp add: decimal_def digits)
  show "g \<noteq> 0"
    using digits v by (auto simp: radix_digits.simps [of 10 0])
qed

lemma slash_not_digit: "CHR ''/'' \<notin> set s" if "list_all is_lower_hex s" for s
  using that by (auto simp: list_all_iff is_lower_hex_def is_digit_def char_code_def)

lemma bytes_of_32_to_bytes32: "length bs = 32 \<Longrightarrow> bytes_of_32 (to_bytes32 bs) = bs"
  using le_nat_bound [of bs]
  by (simp add: bytes_of_32_def to_bytes32_def unat_of_nat nat_le_le_nat)

section \<open>Properties\<close>

lemma from_reference_sound:
  assumes ok: "from_reference r = Ok i"
  shows "r = reference i \<and> ci_generation i \<noteq> 0"
proof -
  obtain h v where sp: "split_on (CHR ''/'') r = [h, v]"
    using ok by (auto simp: from_reference_def split: list.splits)
  have chk: "is_task_hash h" "is_canonical_generation v"
    using ok sp by (auto simp: from_reference_def split: if_splits)
  obtain g bs where gb: "parse_u64 v = Some g" "decode_hex h = Some bs" "g \<noteq> 0"
      "i = \<lparr> ci_task_hash = to_bytes32 bs, ci_generation = g \<rparr>"
    using ok sp chk
    by (cases "parse_u64 v"; cases "decode_hex h") (auto simp: from_reference_def split: if_splits)
  have "even (length h)" "list_all is_lower_hex h" "length h = 64"
    using chk(1) by (auto simp: is_task_hash_def TASK_HASH_HEX_BYTES_def)
  then obtain bs' where "decode_hex h = Some bs'" "encode_hex bs' = h" "2 * length bs' = 64"
    by (metis decode_hex_encode)
  then have "encode_hex bs = h" "length bs = 32"
    using gb(2) by auto
  then show "r = reference i \<and> ci_generation i \<noteq> 0"
    using sp gb parse_canonical [OF chk(2) gb(1)]
    by (simp add: split_on_pair reference_def bytes_of_32_to_bytes32)
qed

lemma from_reference_reference:
  assumes "ci_generation i \<noteq> 0"
  shows "from_reference (reference i) = Ok i"
proof -
  let ?h = "encode_hex (bytes_of_32 (ci_task_hash i))" and ?v = "decimal (unat (ci_generation i))"
  have pos: "0 < unat (ci_generation i)" using assms by (simp add: unat_gt_0)
  have low: "list_all is_lower_hex ?h" "list_all is_lower_hex ?v"
    using encode_hex_lower decimal_digits [of "unat (ci_generation i)"]
    by (auto simp: list_all_iff is_lower_hex_def)
  then have "split_on (CHR ''/'') (reference i) = [?h, ?v]"
    using slash_not_digit by (simp add: split_on_pair reference_def)
  moreover have "is_task_hash ?h"
    using low by (simp add: is_task_hash_def TASK_HASH_HEX_BYTES_def)
  ultimately show "from_reference (reference i) = Ok i"
    using assms decimal_canonical [OF pos]
    by (simp add: from_reference_def parse_decimal)
qed

text \<open>C29: A cache reference is accepted exactly when it is the reference of a cache id with a
  positive generation, and decoding gives that id back: references and ids correspond one to
  one, with no second spelling of a hash or a generation.\<close>

theorem from_reference_exact:
  "from_reference r = Ok i \<longleftrightarrow> r = reference i \<and> ci_generation i \<noteq> 0"
  using from_reference_sound from_reference_reference by blast

lemma reference_inject: "reference i = reference j \<longleftrightarrow> i = j"
proof
  assume eq: "reference i = reference j"
  let ?h = "\<lambda>i. encode_hex (bytes_of_32 (ci_task_hash i))" and ?v = "\<lambda>i. decimal (unat (ci_generation i))"
  have len: "length (?h i) = length (?h j)" by simp
  with eq have "?h i = ?h j" "?v i = ?v j" by (simp_all add: reference_def)
  then have "bytes_of_32 (ci_task_hash i) = bytes_of_32 (ci_task_hash j)"
    by (metis decode_encode_hex option.inject)
  with \<open>?v i = ?v j\<close> show "i = j" by (simp add: word_unat_eq_iff)
qed simp

end
