(* ===== verification/Store_Completions.thy ===== *)
theory Store_Completions
  imports Store_Schema Cache_Ids
begin

text \<open>
  The bindings of the four slots and the completions observed in rollout files, from
  \<open>app/host/src/store.rs\<close>: the compare-and-swap of a slot's binding, and the transaction
  that commits a completion together with the new position in the rollout file.
\<close>

section \<open>Data\<close>

definition MAX_ROLLOUT_PATH_BYTES :: nat where "MAX_ROLLOUT_PATH_BYTES = 4 * 1024"
definition MAX_TURN_PACK_BYTES :: nat where "MAX_TURN_PACK_BYTES = 64 * 1024"

record binding =
  bd_slot :: u8
  bd_task_id :: string
  bd_generation :: u64

record rollout_cursor =
  rc_task_id :: string
  rc_rollout_path :: path
  rc_device :: u64
  rc_inode :: u64
  rc_offset :: u64
  rc_generation :: u64
  rc_anchor :: bytes32

datatype completion_outcome = CompletionInserted | CompletionReplay

section \<open>Bindings\<close>

definition map_binding :: "binding_row \<Rightarrow> binding" where
  "map_binding r = \<lparr> bd_slot = b_slot r, bd_task_id = b_task_id r, bd_generation = as_u64 (b_generation r) \<rparr>"

text \<open>\<open>INSERT ... ON CONFLICT(key) DO UPDATE\<close>: replace the row with this key or add one.\<close>

definition upsert :: "('r \<Rightarrow> 'k) \<Rightarrow> 'r \<Rightarrow> 'r list \<Rightarrow> 'r list" where
  "upsert key row rows =
     (if list_ex (\<lambda>r. key r = key row) rows
      then update_where (\<lambda>r. key r = key row) (\<lambda>_. row) rows else rows @ [row])"

definition next_binding_generation :: "u64 option \<Rightarrow> store_error + u64" where
  "next_binding_generation expected =
     (case expected of
        Some v \<Rightarrow> if uint v + 1 < 2 ^ 64 then Ok (v + 1) else Err GenerationOutOfRange
      | None \<Rightarrow> Ok 1)"

definition set_binding ::
  "u8 \<Rightarrow> u64 option \<Rightarrow> string \<Rightarrow> db \<Rightarrow> (store_error + binding option) \<times> db" where
  "set_binding slot expected task_id = checked (validate_slot slot) (\<lambda>_. in_txn (\<lambda>d.
     let current = first_row (\<lambda>b. b_slot b = slot) (db_bindings d);
         current_generation = map_option (\<lambda>b. as_u64 (b_generation b)) current
     in if current_generation \<noteq> expected then Rollback (Ok None)
        else attempt (next_binding_generation expected) (\<lambda>generation.
               attempt (to_i64 generation) (\<lambda>generation_i64.
                 attempt (write_bindings (upsert b_slot
                     \<lparr> b_slot = slot, b_task_id = task_id, b_generation = generation_i64 \<rparr>
                     (db_bindings d)) d) (\<lambda>d'.
                   Commit (Ok (Some \<lparr> bd_slot = slot, bd_task_id = task_id,
                                      bd_generation = generation \<rparr>)) d')))))"

definition binding_of :: "u8 \<Rightarrow> db \<Rightarrow> store_error + binding option" where
  "binding_of slot d =
     and_then (validate_slot slot) (\<lambda>_.
       Ok (map_option map_binding (first_row (\<lambda>b. b_slot b = slot) (db_bindings d))))"

text \<open>\<open>ORDER BY slot ASC LIMIT 4\<close>.\<close>

definition query_bindings :: "db \<Rightarrow> store_error + binding list" where
  "query_bindings d =
     Ok (map map_binding (take 4 (sort_key (\<lambda>b. uint (b_slot b)) (db_bindings d))))"

definition bindings :: "db \<Rightarrow> store_error + binding list" where
  "bindings d = query_bindings d"

section \<open>Rollout cursors and completions\<close>

definition map_rollout_cursor :: "cursor_row \<Rightarrow> store_error + rollout_cursor" where
  "map_rollout_cursor r =
     (if length (r_anchor r) \<noteq> 32 then Err (Sqlite FromSqlConversionFailure)
      else and_then (decode_path (r_rollout_path r)) (\<lambda>path.
        Ok \<lparr> rc_task_id = r_task_id r, rc_rollout_path = path, rc_device = as_u64 (r_device r),
             rc_inode = as_u64 (r_inode r), rc_offset = as_u64 (r_offset r),
             rc_generation = as_u64 (r_generation r), rc_anchor = to_bytes32 (r_anchor r) \<rparr>))"

definition query_rollout_cursor :: "string \<Rightarrow> db \<Rightarrow> store_error + rollout_cursor option" where
  "query_rollout_cursor task_id d =
     (case first_row (\<lambda>r. r_task_id r = task_id) (db_cursors d) of
        None \<Rightarrow> Ok None
      | Some r \<Rightarrow> and_then (map_rollout_cursor r) (\<lambda>c. Ok (Some c)))"

definition rollout_cursor_of :: "string \<Rightarrow> db \<Rightarrow> store_error + rollout_cursor option" where
  "rollout_cursor_of = query_rollout_cursor"

text \<open>The derived equality of cursors; paths are compared by components.\<close>

definition cursor_eq :: "rollout_cursor \<Rightarrow> rollout_cursor \<Rightarrow> bool" where
  "cursor_eq a b \<longleftrightarrow>
     rc_task_id a = rc_task_id b \<and> path_eq (rc_rollout_path a) (rc_rollout_path b) \<and>
     rc_device a = rc_device b \<and> rc_inode a = rc_inode b \<and> rc_offset a = rc_offset b \<and>
     rc_generation a = rc_generation b \<and> rc_anchor a = rc_anchor b"

definition cursor_option_eq :: "rollout_cursor option \<Rightarrow> rollout_cursor option \<Rightarrow> bool" where
  "cursor_option_eq a b =
     (case (a, b) of (None, None) \<Rightarrow> True | (Some x, Some y) \<Rightarrow> cursor_eq x y | _ \<Rightarrow> False)"

definition saturating_succ :: "u64 \<Rightarrow> u64" where
  "saturating_succ v = (if uint v + 1 < 2 ^ 64 then v + 1 else v)"

definition transition_valid :: "rollout_cursor option \<Rightarrow> rollout_cursor \<Rightarrow> bool" where
  "transition_valid expected nxt =
     (case expected of
        None \<Rightarrow> rc_generation nxt = 1
      | Some previous \<Rightarrow>
          rc_task_id previous = rc_task_id nxt \<and>
          (path_eq (rc_rollout_path previous) (rc_rollout_path nxt) \<and>
           rc_device previous = rc_device nxt \<and> rc_inode previous = rc_inode nxt \<and>
           rc_generation previous = rc_generation nxt \<and> rc_offset nxt \<ge> rc_offset previous \<or>
           rc_generation nxt = saturating_succ (rc_generation previous)))"

definition validate_rollout_completion ::
  "externals \<Rightarrow> rollout_cursor option \<Rightarrow> rollout_cursor \<Rightarrow> string \<Rightarrow> string \<Rightarrow> store_error + unit" where
  "validate_rollout_completion x expected nxt completion_id turn_pack =
     (let path = encode_path (rc_rollout_path nxt);
          base_valid = uuid_ok x (rc_task_id nxt) \<and> uuid_ok x completion_id \<and>
            is_absolute (rc_rollout_path nxt) \<and> path \<noteq> [] \<and> length path \<le> MAX_ROLLOUT_PATH_BYTES \<and>
            \<not> path_contains_nul (rc_rollout_path nxt) \<and> rc_generation nxt > 0 \<and>
            rc_anchor nxt \<noteq> 0 \<and> turn_pack \<noteq> [] \<and> length turn_pack \<le> MAX_TURN_PACK_BYTES \<and>
            json_is_object x turn_pack
      in if base_valid \<and> transition_valid expected nxt then Ok () else Err InvalidCompletion)"

definition still_bound :: "binding option \<Rightarrow> db \<Rightarrow> store_error + bool" where
  "still_bound binding d =
     (case binding of
        None \<Rightarrow> Ok True
      | Some b \<Rightarrow> and_then (to_i64 (bd_generation b)) (\<lambda>generation.
          Ok (list_ex (\<lambda>r. b_slot r = bd_slot b \<and> b_task_id r = bd_task_id b \<and>
                b_generation r = generation) (db_bindings d))))"

definition cursor_row_of :: "rollout_cursor \<Rightarrow> store_error + cursor_row" where
  "cursor_row_of c =
     and_then (to_sql_i64 (rc_device c)) (\<lambda>device.
       and_then (to_sql_i64 (rc_inode c)) (\<lambda>inode.
         and_then (to_sql_i64 (rc_offset c)) (\<lambda>offset.
           and_then (to_sql_i64 (rc_generation c)) (\<lambda>generation.
             Ok \<lparr> r_task_id = rc_task_id c, r_rollout_path = encode_path (rc_rollout_path c),
                  r_device = device, r_inode = inode, r_offset = offset,
                  r_generation = generation, r_anchor = bytes_of_32 (rc_anchor c) \<rparr>))))"

text \<open>\<open>format!("{}:{}", generation, offset)\<close>.\<close>

definition cursor_text :: "rollout_cursor \<Rightarrow> string" where
  "cursor_text c = decimal (unat (rc_generation c)) @ '':'' @ decimal (unat (rc_offset c))"

text \<open>The match on the stored completion: the outcome and the completions after it; \<open>now\<close>
  is \<open>unixepoch()\<close>.\<close>

definition record_completion ::
  "int \<Rightarrow> rollout_cursor \<Rightarrow> string \<Rightarrow> string \<Rightarrow> db \<Rightarrow> store_error + completion_outcome \<times> db" where
  "record_completion now nxt completion_id turn_pack d =
     (case first_row (\<lambda>c. c_completion_id c = completion_id) (db_completions d) of
        Some c \<Rightarrow> if c_task_id c = rc_task_id nxt then Ok (CompletionReplay, d) else Err CompletionConflict
      | None \<Rightarrow> and_then (write_completions (db_completions d @
            [\<lparr> c_completion_id = completion_id, c_task_id = rc_task_id nxt,
               c_rollout_cursor = cursor_text nxt, c_observed_at = now,
               c_summarized_generation = None, c_turn_pack = turn_pack \<rparr>]) d)
          (\<lambda>d'. Ok (CompletionInserted, d')))"

definition commit_rollout_completion_on ::
  "externals \<Rightarrow> int \<Rightarrow> binding option \<Rightarrow> rollout_cursor option \<Rightarrow> rollout_cursor \<Rightarrow> string \<Rightarrow> string
   \<Rightarrow> db \<Rightarrow> (store_error + completion_outcome) \<times> db" where
  "commit_rollout_completion_on x now binding expected nxt completion_id turn_pack =
     checked (validate_rollout_completion x expected nxt completion_id turn_pack) (\<lambda>_.
       in_txn (\<lambda>d.
         attempt (still_bound binding d) (\<lambda>bound.
           if \<not> bound then Rollback (Err BindingChanged)
           else attempt (query_rollout_cursor (rc_task_id nxt) d) (\<lambda>current.
             if \<not> cursor_option_eq current expected then Rollback (Err RolloutCursorChanged)
             else attempt (record_completion now nxt completion_id turn_pack d) (\<lambda>(outcome, d').
               attempt (cursor_row_of nxt) (\<lambda>row.
                 attempt (write_cursors (upsert r_task_id row (db_cursors d')) d') (\<lambda>d''.
                   Commit (Ok outcome) d'')))))))"

definition commit_rollout_completion ::
  "externals \<Rightarrow> int \<Rightarrow> rollout_cursor option \<Rightarrow> rollout_cursor \<Rightarrow> string \<Rightarrow> string
   \<Rightarrow> db \<Rightarrow> (store_error + completion_outcome) \<times> db" where
  "commit_rollout_completion x now expected nxt completion_id turn_pack =
     commit_rollout_completion_on x now None expected nxt completion_id turn_pack"

definition commit_bound_rollout_completion ::
  "externals \<Rightarrow> int \<Rightarrow> binding \<Rightarrow> rollout_cursor option \<Rightarrow> rollout_cursor \<Rightarrow> string \<Rightarrow> string
   \<Rightarrow> db \<Rightarrow> (store_error + completion_outcome) \<times> db" where
  "commit_bound_rollout_completion x now binding expected nxt completion_id turn_pack =
     commit_rollout_completion_on x now (Some binding) expected nxt completion_id turn_pack"

section \<open>Lemmas\<close>

lemma set_upsert: "set (upsert key row rows) = insert row {r \<in> set rows. key r \<noteq> key row}"
proof (cases "list_ex (\<lambda>r. key r = key row) rows")
  case True
  then show ?thesis
    by (auto simp: upsert_def set_update_where list_ex_iff image_iff)
next
  case False
  then show ?thesis by (auto simp: upsert_def list_ex_iff)
qed

lemma distinct_upsert:
  assumes "distinct (map key rows)"
  shows "distinct (map key (upsert key row rows))"
proof (cases "list_ex (\<lambda>r. key r = key row) rows")
  case True
  have "map key (update_where (\<lambda>r. key r = key row) (\<lambda>_. row) rows) = map key rows"
    by (rule map_update_where) simp
  with assms True show ?thesis by (simp add: upsert_def)
next
  case False
  with assms show ?thesis by (auto simp: upsert_def list_ex_iff)
qed

lemma find_update_other:
  "(\<And>r. q r \<Longrightarrow> \<not> p r) \<Longrightarrow> (\<And>r. p r \<Longrightarrow> \<not> q (f r)) \<Longrightarrow>
   first_row q (update_where p f rows) = first_row q rows"
  by (induction rows) (auto simp: first_row_def update_where_def)

lemma first_row_upsert_other:
  assumes "k \<noteq> key row"
  shows "first_row (\<lambda>r. key r = k) (upsert key row rows) = first_row (\<lambda>r. key r = k) rows"
proof -
  have "find (\<lambda>r. key r = k) (rows @ [row]) = find (\<lambda>r. key r = k) rows"
    using assms by (induction rows) auto
  moreover have "first_row (\<lambda>r. key r = k) (update_where (\<lambda>r. key r = key row) (\<lambda>_. row) rows) =
      first_row (\<lambda>r. key r = k) rows"
    using assms by (intro find_update_other) auto
  ultimately show ?thesis
    by (simp add: upsert_def first_row_def)
qed

lemma first_row_upsert:
  assumes "distinct (map key rows)"
  shows "first_row (\<lambda>r. key r = key row) (upsert key row rows) = Some row"
  using distinct_upsert [OF assms, of row]
  by (rule first_row_unique [where key = key]) (auto simp: set_upsert)

definition bindings_inv :: "db \<Rightarrow> bool" where
  "bindings_inv d \<longleftrightarrow>
     bindings_ok (db_bindings d) \<and> list_all (\<lambda>b. b_generation b \<le> i64_max) (db_bindings d)"

lemma bindings_invD:
  assumes "bindings_inv d"
  shows "distinct (map b_slot (db_bindings d))"
    "\<And>b. b \<in> set (db_bindings d) \<Longrightarrow> slot_in_range (b_slot b) \<and> 0 < b_generation b \<and> b_generation b \<le> i64_max"
  using assms by (auto simp: bindings_inv_def bindings_ok_def list_all_iff)

lemma bindings_ok_upsert:
  assumes "bindings_inv d" "slot_in_range slot" "0 < g"
  shows "bindings_ok (upsert b_slot \<lparr> b_slot = slot, b_task_id = task, b_generation = g \<rparr> (db_bindings d))"
  using assms bindings_invD [OF assms(1)]
  by (auto simp: bindings_ok_def list_all_iff set_upsert distinct_upsert)

definition stored_generation :: "u8 \<Rightarrow> db \<Rightarrow> u64 option" where
  "stored_generation slot d =
     map_option (\<lambda>b. as_u64 (b_generation b)) (first_row (\<lambda>b. b_slot b = slot) (db_bindings d))"

lemma stored_generation_bounds:
  assumes "bindings_inv d" "stored_generation slot d = Some g"
  shows "0 < uint g" "uint g \<le> i64_max"
proof -
  obtain b where "first_row (\<lambda>b. b_slot b = slot) (db_bindings d) = Some b" "g = as_u64 (b_generation b)"
    using assms(2) by (auto simp: stored_generation_def)
  with bindings_invD(2) [OF assms(1)] first_row_Some
  show "0 < uint g" "uint g \<le> i64_max" by (fastforce simp: uint_as_u64)+
qed

text \<open>The binding a successful compare-and-swap stores.\<close>

definition next_binding :: "u8 \<Rightarrow> u64 option \<Rightarrow> string \<Rightarrow> binding" where
  "next_binding slot expected task = \<lparr> bd_slot = slot, bd_task_id = task,
     bd_generation = (case expected of None \<Rightarrow> 1 | Some g \<Rightarrow> g + 1) \<rparr>"

lemma uint_plus_one_i64: "uint (g :: u64) < i64_max \<Longrightarrow> uint (g + 1) = uint g + 1"
  by (simp add: uint_word_ariths i64_max_def)

lemma set_binding_result:
  assumes "bindings_inv d" "slot_in_range slot"
  shows "set_binding slot expected task d =
    (if stored_generation slot d \<noteq> expected then (Ok None, d)
     else if expected = Some (as_u64 i64_max) then (Err GenerationOutOfRange, d)
     else (Ok (Some (next_binding slot expected task)),
           d\<lparr>db_bindings := upsert b_slot \<lparr> b_slot = slot, b_task_id = task,
               b_generation = uint (bd_generation (next_binding slot expected task)) \<rparr> (db_bindings d)\<rparr>))"
proof (cases "stored_generation slot d \<noteq> expected")
  case True
  with assms(2) show ?thesis
    by (auto simp: set_binding_def validate_slot_def stored_generation_def in_txn_def Let_def)
next
  case False
  show ?thesis
  proof (cases expected)
    case None
    have "bindings_ok (upsert b_slot \<lparr> b_slot = slot, b_task_id = task, b_generation = 1 \<rparr> (db_bindings d))"
      using assms by (simp add: bindings_ok_upsert)
    with None False assms(2) show ?thesis
      by (simp add: set_binding_def validate_slot_def stored_generation_def in_txn_def Let_def
          next_binding_generation_def to_i64_def i64_max_def write_defs next_binding_def)
  next
    case (Some g)
    with False have g: "0 < uint g" "uint g \<le> i64_max"
      using stored_generation_bounds [OF assms(1)] by auto
    show ?thesis
    proof (cases "g = as_u64 i64_max")
      case True
      have "uint (g + 1) = i64_max + 1" "\<not> uint (g + 1) \<le> i64_max"
        unfolding True by (simp_all add: uint_word_ariths i64_max_def as_u64_def uint_word_of_int)
      moreover have "uint g + 1 < 2 ^ 64" using g by (simp add: i64_max_def)
      ultimately show ?thesis
        using True Some False assms(2)
        by (simp add: set_binding_def validate_slot_def stored_generation_def in_txn_def Let_def
          next_binding_generation_def to_i64_def)
    next
      case ne: False
      have lt: "uint g < i64_max"
        using g ne as_u64_uint [of g] by (metis order_le_less)
      have "bindings_ok (upsert b_slot \<lparr> b_slot = slot, b_task_id = task, b_generation = uint (g + 1) \<rparr> (db_bindings d))"
        using assms g uint_plus_one_i64 [OF lt] by (simp add: bindings_ok_upsert)
      moreover have "uint g + 1 < 2 ^ 64" using g by (simp add: i64_max_def)
      ultimately show ?thesis
        using ne lt Some False assms(2) uint_plus_one_i64 [OF lt]
        by (simp add: set_binding_def validate_slot_def stored_generation_def in_txn_def Let_def
          next_binding_generation_def to_i64_def write_defs next_binding_def)
    qed
  qed
qed

lemma set_binding_invalid: "\<not> slot_in_range slot \<Longrightarrow> set_binding slot expected task d = (Err InvalidSlot, d)"
  by (simp add: set_binding_def validate_slot_def)

lemma next_binding_bounds:
  assumes "bindings_inv d" "stored_generation slot d = expected" "expected \<noteq> Some (as_u64 i64_max)"
  shows "0 < uint (bd_generation (next_binding slot expected task))"
    "uint (bd_generation (next_binding slot expected task)) \<le> i64_max"
proof -
  have "uint g < i64_max" if "expected = Some g" for g
    using assms that stored_generation_bounds [OF assms(1), of slot g] as_u64_uint [of g]
    by (metis order_le_less)
  then show "0 < uint (bd_generation (next_binding slot expected task))"
    "uint (bd_generation (next_binding slot expected task)) \<le> i64_max"
    using assms(2) stored_generation_bounds [OF assms(1), of slot]
    by (cases expected; simp add: next_binding_def uint_plus_one_i64 i64_max_def)+
qed

lemma set_binding_inv [store_inv_intros]:
  assumes "bindings_inv d"
  shows "bindings_inv (snd (set_binding slot expected task d))"
proof (cases "slot_in_range slot")
  case False
  with assms show ?thesis by (simp add: set_binding_invalid)
next
  case True
  show ?thesis
  proof (cases "stored_generation slot d = expected \<and> expected \<noteq> Some (as_u64 i64_max)")
    case False
    with assms True show ?thesis by (auto simp: set_binding_result)
  next
    case ok: True
    note b = next_binding_bounds [OF assms, of slot expected task]
    have "bindings_inv (d\<lparr>db_bindings := upsert b_slot \<lparr> b_slot = slot, b_task_id = task,
         b_generation = uint (bd_generation (next_binding slot expected task)) \<rparr> (db_bindings d)\<rparr>)"
      using bindings_ok_upsert [OF assms True] bindings_invD(2) [OF assms] b ok
      by (auto simp: bindings_inv_def list_all_iff set_upsert)
    with ok True assms show ?thesis by (simp add: set_binding_result)
  qed
qed

section \<open>Properties of bindings\<close>

text \<open>C27: Rebinding a slot is a compare-and-swap on its generation: it stores the new task under
  the successor of the expected generation exactly when that generation is the stored one, leaves
  the other slots and tables alone, and otherwise changes nothing; it fails only for an invalid
  slot or an exhausted generation.\<close>

theorem set_binding_cas:
  assumes "bindings_inv d" "slot_in_range slot" "set_binding slot expected task d = (res, d')"
  shows "(res = Ok None \<and> d' = d \<and> stored_generation slot d \<noteq> expected) \<or>
    (res = Err GenerationOutOfRange \<and> d' = d \<and> stored_generation slot d = Some (as_u64 i64_max)) \<or>
    (\<exists>b. res = Ok (Some b) \<and> stored_generation slot d = expected \<and> bd_slot b = slot \<and>
       bd_task_id b = task \<and>
       uint (bd_generation b) = (case expected of None \<Rightarrow> 1 | Some g \<Rightarrow> uint g + 1) \<and>
       binding_of slot d' = Ok (Some b) \<and>
       (\<forall>s. s \<noteq> slot \<longrightarrow> binding_of s d' = binding_of s d) \<and>
       d' = d\<lparr>db_bindings := db_bindings d'\<rparr>)"
proof (cases "stored_generation slot d = expected \<and> expected \<noteq> Some (as_u64 i64_max)")
  case False
  with assms show ?thesis by (auto simp: set_binding_result split: if_splits)
next
  case True
  let ?b = "next_binding slot expected task"
  let ?row = "\<lparr> b_slot = slot, b_task_id = task, b_generation = uint (bd_generation ?b) \<rparr>"
  have r: "res = Ok (Some ?b)" "d' = d\<lparr>db_bindings := upsert b_slot ?row (db_bindings d)\<rparr>"
    using True assms by (auto simp: set_binding_result)
  have "first_row (\<lambda>b. b_slot b = b_slot ?row) (upsert b_slot ?row (db_bindings d)) = Some ?row"
    by (intro first_row_upsert bindings_invD assms)
  then have here: "binding_of slot d' = Ok (Some ?b)"
    using assms(2) by (simp add: r binding_of_def validate_slot_def map_binding_def next_binding_def)
  have other: "binding_of s d' = binding_of s d" if "s \<noteq> slot" for s
    using that first_row_upsert_other [of s b_slot ?row "db_bindings d"] by (simp add: r binding_of_def)
  have gen: "uint (bd_generation ?b) = (case expected of None \<Rightarrow> 1 | Some g \<Rightarrow> uint g + 1)"
  proof (cases expected)
    case (Some g)
    then have "uint g < i64_max"
      using True stored_generation_bounds [OF assms(1), of slot g] as_u64_uint [of g] by (metis order_le_less)
    with Some show ?thesis by (simp add: next_binding_def uint_plus_one_i64)
  qed (simp add: next_binding_def)
  show ?thesis
    using True r here other gen by (intro disjI2 exI [of _ ?b]) (simp add: next_binding_def)
qed

theorem set_binding_cas_witness:
  "bindings_inv empty_db \<and> slot_in_range 2 \<and>
   set_binding 2 None ''t'' empty_db = (Ok (Some \<lparr> bd_slot = 2, bd_task_id = ''t'', bd_generation = 1 \<rparr>),
     empty_db\<lparr>db_bindings := [\<lparr> b_slot = 2, b_task_id = ''t'', b_generation = 1 \<rparr>]\<rparr>) \<and>
   binding_of 2 (empty_db\<lparr>db_bindings := [\<lparr> b_slot = 2, b_task_id = ''t'', b_generation = 1 \<rparr>]\<rparr>) =
     Ok (Some \<lparr> bd_slot = 2, bd_task_id = ''t'', bd_generation = 1 \<rparr>)"
proof -
  have i: "bindings_inv empty_db" "slot_in_range 2" by code_simp+
  have e: "set_binding 2 None ''t'' empty_db = (Ok (Some \<lparr> bd_slot = 2, bd_task_id = ''t'', bd_generation = 1 \<rparr>),
     empty_db\<lparr>db_bindings := [\<lparr> b_slot = 2, b_task_id = ''t'', b_generation = 1 \<rparr>]\<rparr>)"
    using i by (simp add: set_binding_result next_binding_def stored_generation_def empty_db_def
        first_row_def upsert_def)
  show ?thesis using i e set_binding_cas [OF i e] by auto
qed

section \<open>The completion invariant\<close>

definition completion_checks :: "externals \<Rightarrow> completion_row \<Rightarrow> bool" where
  "completion_checks x c \<longleftrightarrow>
     uuid_ok x (c_completion_id c) \<and> uuid_ok x (c_task_id c) \<and> c_turn_pack c \<noteq> [] \<and>
     length (c_turn_pack c) \<le> MAX_TURN_PACK_BYTES"

definition cursor_ranges :: "cursor_row \<Rightarrow> bool" where
  "cursor_ranges r \<longleftrightarrow>
     r_device r \<le> i64_max \<and> r_inode r \<le> i64_max \<and> r_offset r \<le> i64_max \<and> r_generation r \<le> i64_max"

definition completions_inv :: "externals \<Rightarrow> db \<Rightarrow> bool" where
  "completions_inv x d \<longleftrightarrow>
     completions_ok (db_completions d) \<and> list_all (completion_checks x) (db_completions d) \<and>
     cursors_ok (db_cursors d) \<and> list_all cursor_ranges (db_cursors d)"

lemma completions_invD:
  assumes "completions_inv x d"
  shows "distinct (map c_completion_id (db_completions d))"
    "\<And>c. c \<in> set (db_completions d) \<Longrightarrow> completion_checks x c"
    "distinct (map r_task_id (db_cursors d))"
    "\<And>r. r \<in> set (db_cursors d) \<Longrightarrow> cursor_checks r \<and> cursor_ranges r"
  using assms by (auto simp: completions_inv_def completions_ok_def cursors_ok_def list_all_iff)

lemma cursor_row_roundtrip:
  assumes "cursor_row_of c = Ok row"
  shows "map_rollout_cursor row = Ok c" "r_task_id row = rc_task_id c" "cursor_ranges row"
    "r_generation row = uint (rc_generation c)" "r_offset row = uint (rc_offset c)"
  using assms
  by (auto simp: cursor_row_of_def and_then_Ok_iff to_sql_i64_Ok map_rollout_cursor_def encode_path_def
      decode_path_def cursor_ranges_def)

lemma query_rollout_cursor_total:
  assumes "completions_inv x d"
  obtains c where "query_rollout_cursor task d = Ok c"
proof (cases "first_row (\<lambda>r. r_task_id r = task) (db_cursors d)")
  case None
  with that show ?thesis by (simp add: query_rollout_cursor_def)
next
  case (Some r)
  then have "length (r_anchor r) = 32"
    using first_row_Some [OF Some] completions_invD(4) [OF assms] by (auto simp: cursor_checks_def)
  with Some that show ?thesis
    by (simp add: query_rollout_cursor_def map_rollout_cursor_def decode_path_def)
qed

text \<open>The row a new completion gets.\<close>

definition new_completion :: "int \<Rightarrow> rollout_cursor \<Rightarrow> string \<Rightarrow> string \<Rightarrow> completion_row" where
  "new_completion now nxt completion_id turn_pack =
     \<lparr> c_completion_id = completion_id, c_task_id = rc_task_id nxt, c_rollout_cursor = cursor_text nxt,
       c_observed_at = now, c_summarized_generation = None, c_turn_pack = turn_pack \<rparr>"

lemma commit_completion_cases:
  assumes "commit_rollout_completion_on x now b expected nxt cid pack d = (res, d')"
  obtains (refused) e where "res = Err e" "d' = d"
  | (committed) outcome row where "res = Ok outcome"
      "validate_rollout_completion x expected nxt cid pack = Ok ()" "still_bound b d = Ok True"
      "cursor_row_of nxt = Ok row" "cursors_ok (upsert r_task_id row (db_cursors d))"
      "\<And>c. query_rollout_cursor (rc_task_id nxt) d = Ok c \<Longrightarrow> cursor_option_eq c expected"
      "\<exists>c. query_rollout_cursor (rc_task_id nxt) d = Ok c"
      "d' = d\<lparr>db_completions := db_completions d', db_cursors := upsert r_task_id row (db_cursors d)\<rparr>"
      "case outcome of
         CompletionReplay \<Rightarrow> db_completions d' = db_completions d \<and>
           (\<exists>c \<in> set (db_completions d). c_completion_id c = cid \<and> c_task_id c = rc_task_id nxt)
       | CompletionInserted \<Rightarrow> db_completions d' = db_completions d @ [new_completion now nxt cid pack] \<and>
           (\<forall>c \<in> set (db_completions d). c_completion_id c \<noteq> cid) \<and> completions_ok (db_completions d')"
proof (cases res)
  case (Inl e)
  with assms refused show ?thesis
    by (auto simp: commit_rollout_completion_on_def checked_def in_txn_Pair attempt_Commit
        split: sum.splits if_splits prod.splits)
next
  case (Inr outcome)
  obtain c o' d1 row d2 where steps:
    "validate_rollout_completion x expected nxt cid pack = Ok ()" "still_bound b d = Ok True"
    "query_rollout_cursor (rc_task_id nxt) d = Ok c" "cursor_option_eq c expected"
    "record_completion now nxt cid pack d = Ok (o', d1)" "cursor_row_of nxt = Ok row"
    "write_cursors (upsert r_task_id row (db_cursors d1)) d1 = Ok d2" "outcome = o'" "d' = d2"
    using assms Inr
    by (auto simp: commit_rollout_completion_on_def checked_def in_txn_Pair attempt_Commit attempt_Rollback
        split: sum.splits if_splits prod.splits)
  have rec: "case outcome of
         CompletionReplay \<Rightarrow> d1 = d \<and>
           (\<exists>c \<in> set (db_completions d). c_completion_id c = cid \<and> c_task_id c = rc_task_id nxt)
       | CompletionInserted \<Rightarrow> d1 = d\<lparr>db_completions := db_completions d @ [new_completion now nxt cid pack]\<rparr> \<and>
           (\<forall>c \<in> set (db_completions d). c_completion_id c \<noteq> cid) \<and> completions_ok (db_completions d1)"
  proof (cases "first_row (\<lambda>c. c_completion_id c = cid) (db_completions d)")
    case None
    with steps(5,8) show ?thesis
      by (auto simp: record_completion_def and_then_Ok_iff write_Ok new_completion_def first_row_None)
  next
    case (Some c)
    with steps(5,8) first_row_Some [OF Some] show ?thesis
      by (auto simp: record_completion_def split: if_splits)
  qed
  show ?thesis
    using steps rec Inr
    by (intro committed [of outcome row]) (cases outcome; auto simp: write_Ok)+
qed

lemma commit_completion_inv [store_inv_intros]:
  assumes "completions_inv x d"
  shows "completions_inv x (snd (commit_rollout_completion_on x now b expected nxt cid pack d))"
proof -
  obtain res d' where e: "commit_rollout_completion_on x now b expected nxt cid pack d = (res, d')"
    by fastforce
  then show ?thesis
  proof (cases rule: commit_completion_cases)
    case refused
    with e assms show ?thesis by simp
  next
    case (committed outcome row)
    have "completion_checks x (new_completion now nxt cid pack)"
      using committed(2) by (auto simp: validate_rollout_completion_def completion_checks_def
          new_completion_def Let_def split: if_splits)
    then have "completions_ok (db_completions d')" "list_all (completion_checks x) (db_completions d')"
      using committed(9) assms by (auto simp: completions_inv_def split: completion_outcome.splits)
    moreover have cur: "db_cursors d' = upsert r_task_id row (db_cursors d)"
      by (subst committed(8)) simp
    moreover have "list_all cursor_ranges (upsert r_task_id row (db_cursors d))"
      using completions_invD(4) [OF assms] cursor_row_roundtrip(3) [OF committed(4)]
      by (auto simp: list_all_iff set_upsert)
    ultimately show ?thesis
      using committed(5) e by (simp add: completions_inv_def)
  qed
qed

section \<open>Properties of completions\<close>

text \<open>C28: Committing a completion is atomic and exactly once: an error leaves the database
  unchanged; on success the task's stored cursor is the new one, every other task's cursor is
  unchanged, the position never moves backwards, and the ledger holds exactly one row with this
  completion id, for this task: the row that was there for a replay, a new one otherwise.\<close>

theorem commit_completion_atomic:
  assumes "completions_inv x d"
    "commit_rollout_completion_on x now b expected nxt cid pack d = (res, d')"
  shows "case res of
      Inl e \<Rightarrow> d' = d
    | Inr outcome \<Rightarrow>
        query_rollout_cursor (rc_task_id nxt) d' = Ok (Some nxt) \<and>
        (\<forall>t. t \<noteq> rc_task_id nxt \<longrightarrow> query_rollout_cursor t d' = query_rollout_cursor t d) \<and>
        (\<forall>old. query_rollout_cursor (rc_task_id nxt) d = Ok (Some old) \<longrightarrow>
           (rc_generation nxt = rc_generation old \<and> rc_offset old \<le> rc_offset nxt) \<or>
           uint (rc_generation nxt) = uint (rc_generation old) + 1) \<and>
        count_where (\<lambda>c. c_completion_id c = cid) (db_completions d') = 1 \<and>
        (\<forall>c \<in> set (db_completions d'). c_completion_id c = cid \<longrightarrow> c_task_id c = rc_task_id nxt) \<and>
        db_completions d' = db_completions d @
          (if outcome = CompletionInserted then [new_completion now nxt cid pack] else [])"
  using assms(2)
proof (cases rule: commit_completion_cases)
  case (refused e)
  then show ?thesis by simp
next
  case (committed outcome row)
  note rt = cursor_row_roundtrip [OF committed(4)]
  have cur: "db_cursors d' = upsert r_task_id row (db_cursors d)" by (subst committed(8)) simp
  have "first_row (\<lambda>r. r_task_id r = r_task_id row) (upsert r_task_id row (db_cursors d)) = Some row"
    by (intro first_row_upsert completions_invD [OF assms(1)])
  then have here: "query_rollout_cursor (rc_task_id nxt) d' = Ok (Some nxt)"
    using rt by (simp add: query_rollout_cursor_def cur)
  have others: "query_rollout_cursor t d' = query_rollout_cursor t d" if "t \<noteq> rc_task_id nxt" for t
    using that rt(2) first_row_upsert_other [of t r_task_id row "db_cursors d"]
    by (simp add: query_rollout_cursor_def cur)
  have inv': "completions_inv x d'"
    using commit_completion_inv [OF assms(1)] assms(2) by (metis snd_conv)
  have advance: "(rc_generation nxt = rc_generation old \<and> rc_offset old \<le> rc_offset nxt) \<or>
      uint (rc_generation nxt) = uint (rc_generation old) + 1"
    if old: "query_rollout_cursor (rc_task_id nxt) d = Ok (Some old)" for old
  proof -
    obtain p where p: "expected = Some p" "rc_generation p = rc_generation old" "rc_offset p = rc_offset old"
      using committed(6) [OF old] by (auto simp: cursor_option_eq_def cursor_eq_def split: option.splits)
    obtain r where r: "first_row (\<lambda>r. r_task_id r = rc_task_id nxt) (db_cursors d) = Some r"
        "map_rollout_cursor r = Ok old"
      using old by (auto simp: query_rollout_cursor_def and_then_Ok_iff split: option.splits)
    have "r_generation r \<le> i64_max" "0 < r_generation r"
      using first_row_Some [OF r(1)] completions_invD(4) [OF assms(1)]
      by (auto simp: cursor_ranges_def cursor_checks_def)
    then have "uint (rc_generation old) \<le> i64_max"
      using r(2) by (auto simp: map_rollout_cursor_def and_then_Ok_iff uint_as_u64 split: if_splits)
    then have "uint (saturating_succ (rc_generation old)) = uint (rc_generation old) + 1"
      by (simp add: saturating_succ_def i64_max_def uint_word_ariths)
    then show ?thesis
      using committed(2) p
      by (auto simp: validate_rollout_completion_def transition_valid_def Let_def split: if_splits)
  qed
  have member: "\<exists>c \<in> set (db_completions d'). c_completion_id c = cid \<and> c_task_id c = rc_task_id nxt"
    using committed(9) by (cases outcome) (auto simp: new_completion_def)
  then obtain c where c: "c \<in> set (db_completions d')" "c_completion_id c = cid" "c_task_id c = rc_task_id nxt"
    by blast
  have one: "count_where (\<lambda>c. c_completion_id c = cid) (db_completions d') = 1"
    using completions_invD(1) [OF inv'] c by (intro count_where_one [where key = c_completion_id]) auto
  have task: "\<forall>c' \<in> set (db_completions d'). c_completion_id c' = cid \<longrightarrow> c_task_id c' = rc_task_id nxt"
    using distinct_key_eq [OF completions_invD(1) [OF inv']] c by metis
  have "db_completions d' = db_completions d @
      (if outcome = CompletionInserted then [new_completion now nxt cid pack] else [])"
    using committed(9) by (cases outcome) auto
  with committed(1) here others advance one task show ?thesis by simp
qed

definition sample_externals :: externals where
  "sample_externals = \<lparr> uuid_ok = (\<lambda>s. s \<noteq> []), json_ids = concat, parse_ids = (\<lambda>_. None),
     json_is_object = (\<lambda>s. s \<noteq> []), sha256 = (\<lambda>s. of_nat (length s)) \<rparr>"

definition sample_cursor :: "u64 \<Rightarrow> rollout_cursor" where
  "sample_cursor off = \<lparr> rc_task_id = ''t'', rc_rollout_path = [0x2F, 0x72], rc_device = 1, rc_inode = 2,
     rc_offset = off, rc_generation = 1, rc_anchor = 5 \<rparr>"

theorem commit_completion_atomic_witness:
  "completions_inv sample_externals empty_db \<and>
   fst (commit_rollout_completion_on sample_externals 9 None None (sample_cursor 10) ''c'' ''{}'' empty_db)
     = Ok CompletionInserted \<and>
   query_rollout_cursor ''t''
     (snd (commit_rollout_completion_on sample_externals 9 None None (sample_cursor 10) ''c'' ''{}'' empty_db))
     = Ok (Some (sample_cursor 10))"
proof -
  have i: "completions_inv sample_externals empty_db" by code_simp
  have r: "fst (commit_rollout_completion_on sample_externals 9 None None (sample_cursor 10) ''c'' ''{}'' empty_db)
     = Ok CompletionInserted" by code_simp
  let ?c = "commit_rollout_completion_on sample_externals 9 None None (sample_cursor 10) ''c'' ''{}'' empty_db"
  have "?c = (fst ?c, snd ?c)" by simp
  from commit_completion_atomic [OF i this] i r show ?thesis
    by (simp add: sample_cursor_def)
qed

end
