(* ===== verification/Store_Summaries.thy ===== *)
theory Store_Summaries
  imports Store_Completions "HOL-Library.List_Lexorder" "HOL-Library.Char_ord"
begin

text \<open>
  The summary ledger of \<open>app/host/src/store.rs\<close>: claiming the next summary generation of
  a task, abandoning, interrupting and resuming a claim, the single text-to-speech attempt of
  a claim, publication, and the mailbox status shown on the keyboard.
\<close>

section \<open>Data\<close>

definition MAX_SUMMARY_COMPLETIONS_PER_CLAIM :: nat where "MAX_SUMMARY_COMPLETIONS_PER_CLAIM = 32"
definition MAX_SUMMARY_TURN_PACK_BYTES :: nat where "MAX_SUMMARY_TURN_PACK_BYTES = 1024 * 1024"

datatype summary_claim_outcome = ClaimInserted | ClaimReplay

record pending_summary_completion =
  p_completion_id :: string
  p_turn_pack :: string

record unread_summary =
  u_task_id :: string
  u_generation :: u64
  u_cache_object :: string
  u_coverage_count :: u32

record summary_claim =
  sc_outcome :: summary_claim_outcome
  sc_request_id :: string
  sc_task_id :: string
  sc_generation :: u64
  sc_previous_unread :: "unread_summary option"
  sc_completions :: "pending_summary_completion list"

datatype summary_claim_result = Claimed summary_claim | Published string u64

datatype summary_tts_attempt_state = Started | Ambiguous

record mailbox_status_snapshot =
  ms_unread_slots :: u8
  ms_coverage_by_slot :: "u8 list"

section \<open>Validators\<close>

definition validate_summary_request :: "externals \<Rightarrow> string \<Rightarrow> string \<Rightarrow> store_error + unit" where
  "validate_summary_request x task_id request_id =
     (let request_valid = request_id \<noteq> [] \<and> length request_id \<le> MAX_REQUEST_ID_BYTES \<and>
            \<not> list_ex is_ascii_control request_id
      in if uuid_ok x task_id \<and> request_valid then Ok () else Err InvalidSummaryRequest)"

text \<open>The loop over the completions of a claim; \<open>checked_add\<close> cannot overflow a \<open>usize\<close>
  here, because the loop stops at the first total above one mebibyte.\<close>

fun validate_claim_completions ::
  "externals \<Rightarrow> nat \<Rightarrow> pending_summary_completion list \<Rightarrow> store_error + unit" where
  "validate_claim_completions x acc [] = Ok ()"
| "validate_claim_completions x acc (c # cs) =
     (let total_bytes = acc + length (p_turn_pack c)
      in if \<not> uuid_ok x (p_completion_id c) \<or> p_turn_pack c = [] \<or>
            length (p_turn_pack c) > MAX_TURN_PACK_BYTES \<or> total_bytes > MAX_SUMMARY_TURN_PACK_BYTES
         then Err InvalidSummaryRequest else validate_claim_completions x total_bytes cs)"

definition validate_summary_claim :: "externals \<Rightarrow> summary_claim \<Rightarrow> store_error + unit" where
  "validate_summary_claim x c =
     and_then (validate_summary_request x (sc_task_id c) (sc_request_id c)) (\<lambda>_.
       if sc_generation c = 0 \<or> sc_completions c = [] \<or>
          length (sc_completions c) > MAX_SUMMARY_COMPLETIONS_PER_CLAIM \<or>
          (case sc_previous_unread c of None \<Rightarrow> False | Some p \<Rightarrow> u_task_id p \<noteq> sc_task_id c)
       then Err InvalidSummaryRequest
       else validate_claim_completions x 0 (sc_completions c))"

section \<open>Queries\<close>

definition covered_by :: "string \<Rightarrow> int \<Rightarrow> completion_row \<Rightarrow> bool" where
  "covered_by task generation c \<longleftrightarrow> c_task_id c = task \<and> c_summarized_generation c = Some generation"

definition query_current_unread :: "string \<Rightarrow> db \<Rightarrow> store_error + unread_summary option" where
  "query_current_unread task d =
     (case first_row (\<lambda>s. s_task_id s = task \<and> is_current_unread s) (db_summaries d) of
        None \<Rightarrow> Ok None
      | Some s \<Rightarrow>
          (let coverage_count = count_where (covered_by task (s_generation s)) (db_completions d)
           in case s_cache_object s of
                None \<Rightarrow> Err InvalidSummaryState
              | Some cache_object \<Rightarrow>
                  if s_generation s > 0 \<and> coverage_count > 0
                  then if coverage_count \<le> u32_max
                       then Ok (Some \<lparr> u_task_id = task, u_generation = as_u64 (s_generation s),
                                       u_cache_object = cache_object,
                                       u_coverage_count = of_nat coverage_count \<rparr>)
                       else Err InvalidSummaryState
                  else Err InvalidSummaryState))"

definition is_uncovered :: "string \<Rightarrow> completion_row \<Rightarrow> bool" where
  "is_uncovered task c \<longleftrightarrow> c_task_id c = task \<and> c_summarized_generation c = None"

fun collect_pending ::
  "externals \<Rightarrow> nat \<Rightarrow> nat \<Rightarrow> completion_row list \<Rightarrow> store_error + pending_summary_completion list" where
  "collect_pending x n acc [] = Ok []"
| "collect_pending x n acc (r # rs) =
     (if n = MAX_SUMMARY_COMPLETIONS_PER_CLAIM then Ok []
      else if \<not> uuid_ok x (c_completion_id r) \<or> c_turn_pack r = [] \<or>
              length (c_turn_pack r) > MAX_TURN_PACK_BYTES then Err InvalidSummaryState
      else let next_total = acc + length (c_turn_pack r)
           in if n \<noteq> 0 \<and> next_total > MAX_SUMMARY_TURN_PACK_BYTES then Ok []
              else and_then (collect_pending x (Suc n) next_total rs) (\<lambda>cs.
                     Ok (\<lparr> p_completion_id = c_completion_id r, p_turn_pack = c_turn_pack r \<rparr> # cs)))"

text \<open>\<open>ORDER BY observed_at ASC, rowid ASC LIMIT 33\<close>: the sort is stable and rows are in
  rowid order.\<close>

definition query_pending_summary_completions ::
  "externals \<Rightarrow> string \<Rightarrow> db \<Rightarrow> store_error + pending_summary_completion list" where
  "query_pending_summary_completions x task d =
     collect_pending x 0 0 (take (MAX_SUMMARY_COMPLETIONS_PER_CLAIM + 1)
       (sort_key c_observed_at (filter (is_uncovered task) (db_completions d))))"

fun load_completions ::
  "string \<Rightarrow> completion_row list \<Rightarrow> nat \<Rightarrow> string list \<Rightarrow> store_error + pending_summary_completion list" where
  "load_completions task cs acc [] = Ok []"
| "load_completions task cs acc (i # ids) =
     (case first_row (\<lambda>c. c_completion_id c = i \<and> c_task_id c = task) cs of
        None \<Rightarrow> Err InvalidSummaryState
      | Some c \<Rightarrow>
          if c_summarized_generation c \<noteq> None then Err InvalidSummaryState
          else let total_bytes = acc + length (c_turn_pack c)
               in if c_turn_pack c = [] \<or> length (c_turn_pack c) > MAX_TURN_PACK_BYTES \<or>
                     total_bytes > MAX_SUMMARY_TURN_PACK_BYTES then Err InvalidSummaryState
                  else and_then (load_completions task cs total_bytes ids) (\<lambda>ps.
                         Ok (\<lparr> p_completion_id = i, p_turn_pack = c_turn_pack c \<rparr> # ps)))"

definition load_previous :: "string \<Rightarrow> int option \<Rightarrow> db \<Rightarrow> store_error + unread_summary option" where
  "load_previous task previous_generation d =
     (case previous_generation of
        None \<Rightarrow> Ok None
      | Some expected \<Rightarrow> and_then (query_current_unread task d) (\<lambda>current.
          case current of
            Some u \<Rightarrow> if u_generation u = as_u64 expected then Ok (Some u) else Err InvalidSummaryState
          | None \<Rightarrow> Err InvalidSummaryState))"

definition load_summary_claim ::
  "externals \<Rightarrow> summary_claim_outcome \<Rightarrow> string \<Rightarrow> string \<Rightarrow> int \<Rightarrow> int option \<Rightarrow> string \<Rightarrow> db
   \<Rightarrow> store_error + summary_claim" where
  "load_summary_claim x outcome request_id task_id generation previous_generation covers d =
     (if generation \<le> 0 \<or> (case previous_generation of None \<Rightarrow> False | Some p \<Rightarrow> p \<le> 0)
      then Err InvalidSummaryState
      else and_then (ok_or InvalidSummaryState (parse_ids x covers)) (\<lambda>ids.
        if ids = [] \<or> length ids > MAX_SUMMARY_COMPLETIONS_PER_CLAIM then Err InvalidSummaryState
        else and_then (load_completions task_id (db_completions d) 0 ids) (\<lambda>completions.
          and_then (load_previous task_id previous_generation d) (\<lambda>previous_unread.
            Ok \<lparr> sc_outcome = outcome, sc_request_id = request_id, sc_task_id = task_id,
                 sc_generation = as_u64 generation, sc_previous_unread = previous_unread,
                 sc_completions = completions \<rparr>))))"

section \<open>Claiming\<close>

definition max_generation :: "string \<Rightarrow> summary_row list \<Rightarrow> int" where
  "max_generation task ss =
     (case map s_generation (filter (\<lambda>s. s_task_id s = task) ss) of
        [] \<Rightarrow> 0 | g # gs \<Rightarrow> fold max gs g)"

definition set_summary_state :: "summary_state \<Rightarrow> summary_row \<Rightarrow> summary_row" where
  "set_summary_state st s = s\<lparr>s_state := st\<rparr>"

text \<open>The arm for a request id that is already in the ledger, in the row \<open>s\<close>.\<close>

definition replay_summary_request ::
  "externals \<Rightarrow> string \<Rightarrow> string \<Rightarrow> summary_row \<Rightarrow> db \<Rightarrow> summary_claim_result option txn" where
  "replay_summary_request x task request s d =
     (let load = (\<lambda>d'. attempt (load_summary_claim x ClaimReplay request task (s_generation s)
                    (s_previous_generation s) (s_covers s) d') (\<lambda>claim. Commit (Ok (Some (Claimed claim))) d'))
      in if s_task_id s \<noteq> task then Rollback (Err SummaryRequestConflict)
         else case s_state s of
             Abandoned \<Rightarrow> Rollback (Err SummaryRequestAbandoned)
           | Interrupted \<Rightarrow>
               let sel = (\<lambda>r. s_request_id r = Some request \<and> s_task_id r = task \<and>
                     s_generation r = s_generation s \<and> s_state r = Interrupted \<and> s_claim_id r = Some request)
               in attempt (write_summaries (update_where sel (set_summary_state Generating) (db_summaries d)) d)
                    (\<lambda>d'. if count_where sel (db_summaries d) \<noteq> 1 then Rollback (Err SummaryClaimChanged)
                          else load d')
           | Generating \<Rightarrow> load d
           | _ \<Rightarrow> Commit (Ok (Some (Published task (as_u64 (s_generation s))))) d)"

text \<open>The arm for a task that already has an active claim, in the row \<open>s\<close>.\<close>

definition join_active_claim ::
  "externals \<Rightarrow> string \<Rightarrow> string \<Rightarrow> summary_row \<Rightarrow> db \<Rightarrow> summary_claim_result option txn" where
  "join_active_claim x task request s d =
     (case s_claim_id s of
        None \<Rightarrow> Rollback (Err (Sqlite InvalidColumnType))
      | Some claim_id \<Rightarrow>
          if claim_id \<noteq> request then Rollback (Err SummaryBusy)
          else attempt (load_summary_claim x ClaimReplay request task (s_generation s)
                 (s_previous_generation s) (s_covers s) d) (\<lambda>claim. Commit (Ok (Some (Claimed claim))) d))"

definition generation_option_i64 :: "unread_summary option \<Rightarrow> store_error + int option" where
  "generation_option_i64 u =
     (case u of None \<Rightarrow> Ok None | Some s \<Rightarrow> and_then (to_i64 (u_generation s)) (\<lambda>g. Ok (Some g)))"

definition insert_summary_claim ::
  "externals \<Rightarrow> string \<Rightarrow> string \<Rightarrow> db \<Rightarrow> summary_claim_result option txn" where
  "insert_summary_claim x task request d =
     attempt (query_current_unread task d) (\<lambda>previous_unread.
       attempt (query_pending_summary_completions x task d) (\<lambda>completions.
         if completions = [] then Commit (Ok None) d
         else attempt (checked_succ SummaryGenerationOutOfRange (max_generation task (db_summaries d)))
           (\<lambda>generation.
             let covers = json_ids x (map p_completion_id completions)
             in attempt (generation_option_i64 previous_unread) (\<lambda>previous_generation.
                  attempt (write_summaries (db_summaries d @
                      [\<lparr> s_task_id = task, s_generation = generation, s_state = Generating,
                         s_covers = covers, s_cache_object = None, s_request_id = Some request,
                         s_claim_id = Some request, s_previous_generation = previous_generation,
                         s_superseded_by = None \<rparr>]) d) (\<lambda>d'.
                    Commit (Ok (Some (Claimed
                      \<lparr> sc_outcome = ClaimInserted, sc_request_id = request, sc_task_id = task,
                        sc_generation = as_u64 generation, sc_previous_unread = previous_unread,
                        sc_completions = completions \<rparr>))) d')))))"

definition claim_summary ::
  "externals \<Rightarrow> string \<Rightarrow> string \<Rightarrow> db \<Rightarrow> (store_error + summary_claim_result option) \<times> db" where
  "claim_summary x task request = checked (validate_summary_request x task request) (\<lambda>_. in_txn (\<lambda>d.
     case first_row (\<lambda>s. s_request_id s = Some request) (db_summaries d) of
       Some s \<Rightarrow> replay_summary_request x task request s d
     | None \<Rightarrow>
         (case first_row (\<lambda>s. s_task_id s = task \<and> is_active_claim s) (db_summaries d) of
            Some s \<Rightarrow> join_active_claim x task request s d
          | None \<Rightarrow> insert_summary_claim x task request d)))"

section \<open>Abandoning, interrupting and resuming\<close>

definition abandon_row :: "summary_row \<Rightarrow> summary_row" where
  "abandon_row s = s\<lparr>s_state := Abandoned, s_claim_id := None\<rparr>"

definition has_tts_key :: "string \<Rightarrow> int \<Rightarrow> tts_row \<Rightarrow> bool" where
  "has_tts_key task generation t \<longleftrightarrow> t_task_id t = task \<and> t_generation t = generation"

definition abandon_summary_claim ::
  "externals \<Rightarrow> summary_claim \<Rightarrow> db \<Rightarrow> (store_error + bool) \<times> db" where
  "abandon_summary_claim x c = checked (validate_summary_claim x c) (\<lambda>_. in_txn (\<lambda>d.
     attempt (to_i64 (sc_generation c)) (\<lambda>generation.
       let sel = (\<lambda>s. s_task_id s = sc_task_id c \<and> s_generation s = generation \<and>
             is_active_claim s \<and> s_claim_id s = Some (sc_request_id c));
           changed = count_where sel (db_summaries d)
       in attempt (write_summaries (update_where sel abandon_row (db_summaries d)) d) (\<lambda>d'.
            if changed = 1
            then attempt (write_tts (delete_where (has_tts_key (sc_task_id c) generation) (db_tts_attempts d')) d')
                   (\<lambda>d''. Commit (Ok True) d'')
            else Commit (Ok False) d'))))"

definition abandon_interrupted_summary_for_task ::
  "externals \<Rightarrow> string \<Rightarrow> db \<Rightarrow> (store_error + u64 option) \<times> db" where
  "abandon_interrupted_summary_for_task x task = checked
     (if uuid_ok x task then Ok () else Err InvalidSummaryRequest) (\<lambda>_. in_txn (\<lambda>d.
       case first_row (\<lambda>s. s_task_id s = task \<and> s_state s = Interrupted) (db_summaries d) of
         None \<Rightarrow> Commit (Ok None) d
       | Some r \<Rightarrow>
           let sel = (\<lambda>s. s_task_id s = task \<and> s_generation s = s_generation r \<and> s_state s = Interrupted)
           in attempt (write_summaries (update_where sel abandon_row (db_summaries d)) d) (\<lambda>d'.
                if count_where sel (db_summaries d) \<noteq> 1 then Rollback (Err SummaryClaimChanged)
                else attempt (write_tts (delete_where (has_tts_key task (s_generation r)) (db_tts_attempts d')) d')
                       (\<lambda>d''. Commit (Ok (Some (as_u64 (s_generation r)))) d''))))"

definition resume_interrupted_summary ::
  "externals \<Rightarrow> string \<Rightarrow> db \<Rightarrow> (store_error + summary_claim option) \<times> db" where
  "resume_interrupted_summary x task = checked
     (if uuid_ok x task then Ok () else Err InvalidSummaryRequest) (\<lambda>_. in_txn (\<lambda>d.
       case first_row (\<lambda>s. s_task_id s = task \<and> s_state s = Interrupted) (db_summaries d) of
         None \<Rightarrow> Commit (Ok None) d
       | Some r \<Rightarrow>
           (case s_claim_id r of
              None \<Rightarrow> Rollback (Err (Sqlite InvalidColumnType))
            | Some request \<Rightarrow>
                let sel = (\<lambda>s. s_task_id s = task \<and> s_generation s = s_generation r \<and>
                      s_state s = Interrupted \<and> s_claim_id s = Some request)
                in attempt (write_summaries (update_where sel (set_summary_state Generating) (db_summaries d)) d)
                     (\<lambda>d'. if count_where sel (db_summaries d) \<noteq> 1 then Rollback (Err SummaryClaimChanged)
                           else attempt (load_summary_claim x ClaimReplay request task (s_generation r)
                                  (s_previous_generation r) (s_covers r) d')
                                  (\<lambda>claim. Commit (Ok (Some claim)) d')))))"

definition recover_interrupted_summaries :: "db \<Rightarrow> (store_error + nat) \<times> db" where
  "recover_interrupted_summaries = in_txn (\<lambda>d.
     let sel = (\<lambda>s. s_state s = Generating)
     in attempt (write_summaries (update_where sel (set_summary_state Interrupted) (db_summaries d)) d) (\<lambda>d'.
          Commit (Ok (count_where sel (db_summaries d))) d'))"

section \<open>The text-to-speech attempt of a claim\<close>

fun tts_attempt_state :: "tts_state \<Rightarrow> summary_tts_attempt_state" where
  "tts_attempt_state TtsStarted = Started"
| "tts_attempt_state TtsAmbiguous = Ambiguous"

definition is_own_claim :: "summary_claim \<Rightarrow> int \<Rightarrow> summary_row \<Rightarrow> bool" where
  "is_own_claim c generation s \<longleftrightarrow>
     s_task_id s = sc_task_id c \<and> s_generation s = generation \<and>
     s_request_id s = Some (sc_request_id c) \<and> s_claim_id s = Some (sc_request_id c) \<and> is_active_claim s"

definition summary_tts_attempt ::
  "externals \<Rightarrow> summary_claim \<Rightarrow> db \<Rightarrow> store_error + summary_tts_attempt_state option" where
  "summary_tts_attempt x c d =
     and_then (validate_summary_claim x c) (\<lambda>_.
       and_then (to_i64 (sc_generation c)) (\<lambda>generation.
         Ok (map_option (\<lambda>t. tts_attempt_state (t_state t))
               (first_row (\<lambda>t. has_tts_key (sc_task_id c) generation t \<and>
                  list_ex (\<lambda>s. s_task_id s = t_task_id t \<and> s_generation s = t_generation t \<and>
                     s_request_id s = Some (sc_request_id c) \<and> is_active_claim s) (db_summaries d))
                  (db_tts_attempts d)))))"

definition begin_summary_tts_attempt ::
  "externals \<Rightarrow> summary_claim \<Rightarrow> db \<Rightarrow> (store_error + summary_tts_attempt_state) \<times> db" where
  "begin_summary_tts_attempt x c = checked (validate_summary_claim x c) (\<lambda>_. in_txn (\<lambda>d.
     attempt (to_i64 (sc_generation c)) (\<lambda>generation.
       if \<not> list_ex (is_own_claim c generation) (db_summaries d) then Rollback (Err SummaryTtsAttemptChanged)
       else let row = \<lparr> t_task_id = sc_task_id c, t_generation = generation, t_state = TtsStarted \<rparr>;
                rows = (if list_ex (has_tts_key (sc_task_id c) generation) (db_tts_attempts d)
                        then db_tts_attempts d else db_tts_attempts d @ [row])
            in attempt (write_tts rows d) (\<lambda>d'.
                 case first_row (has_tts_key (sc_task_id c) generation) (db_tts_attempts d') of
                   None \<Rightarrow> Rollback (Err (Sqlite QueryReturnedNoRows))
                 | Some t \<Rightarrow> Commit (Ok (tts_attempt_state (t_state t))) d'))))"

text \<open>The statement commits by itself; the error only reports how many rows it changed.\<close>

definition mark_summary_tts_ambiguous ::
  "externals \<Rightarrow> summary_claim \<Rightarrow> db \<Rightarrow> (store_error + unit) \<times> db" where
  "mark_summary_tts_ambiguous x c = checked (validate_summary_claim x c) (\<lambda>_. in_txn (\<lambda>d.
     attempt (to_i64 (sc_generation c)) (\<lambda>generation.
       let sel = (\<lambda>t. has_tts_key (sc_task_id c) generation t \<and>
             list_ex (is_own_claim c generation) (db_summaries d))
       in attempt (write_tts (update_where sel (\<lambda>t. t\<lparr>t_state := TtsAmbiguous\<rparr>) (db_tts_attempts d)) d) (\<lambda>d'.
            Commit (if count_where sel (db_tts_attempts d) = 1 then Ok ()
                    else Err SummaryTtsAttemptChanged) d'))))"

section \<open>Publication\<close>

definition supersede_row :: "int \<Rightarrow> summary_row \<Rightarrow> summary_row" where
  "supersede_row generation s =
     s\<lparr>s_state := (if s_state s = Unheard then Superseded else s_state s),
       s_superseded_by := Some generation\<rparr>"

definition cover_row :: "int \<Rightarrow> completion_row \<Rightarrow> completion_row" where
  "cover_row generation c = c\<lparr>c_summarized_generation := Some generation\<rparr>"

text \<open>Replacing the previous unread summary: the database and the number of completions it
  covered, as a \<open>u32\<close>.\<close>

definition supersede_previous ::
  "summary_claim \<Rightarrow> int \<Rightarrow> db \<Rightarrow> store_error + u32 \<times> db" where
  "supersede_previous c generation d =
     (case sc_previous_unread c of
        None \<Rightarrow> and_then (query_current_unread (sc_task_id c) d) (\<lambda>current.
          if current \<noteq> None then Err SummaryClaimChanged else Ok (0, d))
      | Some previous \<Rightarrow> and_then (query_current_unread (sc_task_id c) d) (\<lambda>current.
          if current \<noteq> Some previous then Err SummaryClaimChanged
          else and_then (to_i64 (u_generation previous)) (\<lambda>previous_generation.
            let sel = (\<lambda>s. s_task_id s = sc_task_id c \<and> s_generation s = previous_generation \<and>
                  is_current_unread s)
            in and_then (write_summaries (update_where sel (supersede_row generation) (db_summaries d)) d) (\<lambda>d'.
                 if count_where sel (db_summaries d) \<noteq> 1 then Err SummaryClaimChanged
                 else let cov = covered_by (sc_task_id c) previous_generation;
                          previous_coverage = of_nat (count_where cov (db_completions d'))
                      in and_then (write_completions (update_where cov (cover_row generation) (db_completions d')) d')
                           (\<lambda>d''. if previous_coverage \<noteq> u_coverage_count previous then Err SummaryClaimChanged
                                  else Ok (previous_coverage, d''))))))"

fun cover_completions ::
  "string \<Rightarrow> int \<Rightarrow> pending_summary_completion list \<Rightarrow> db \<Rightarrow> store_error + db" where
  "cover_completions task generation [] d = Ok d"
| "cover_completions task generation (p # ps) d =
     (let sel = (\<lambda>c. c_completion_id c = p_completion_id p \<and> c_task_id c = task \<and>
            c_turn_pack c = p_turn_pack p \<and> c_summarized_generation c = None)
      in and_then (write_completions (update_where sel (cover_row generation) (db_completions d)) d) (\<lambda>d'.
           if count_where sel (db_completions d) \<noteq> 1 then Err SummaryClaimChanged
           else cover_completions task generation ps d'))"

definition publish_row :: "string \<Rightarrow> summary_row \<Rightarrow> summary_row" where
  "publish_row cache_object s =
     s\<lparr>s_state := Unheard, s_cache_object := Some cache_object, s_claim_id := None\<rparr>"

definition u32_checked_add :: "store_error \<Rightarrow> u32 \<Rightarrow> u32 \<Rightarrow> store_error + u32" where
  "u32_checked_add e a b = (if unat a + unat b \<le> u32_max then Ok (a + b) else Err e)"

definition publish_txn :: "externals \<Rightarrow> summary_claim \<Rightarrow> string \<Rightarrow> db \<Rightarrow> unread_summary txn" where
  "publish_txn x c cache_object d =
     attempt (to_i64 (sc_generation c)) (\<lambda>generation.
       let sel = (\<lambda>s. s_task_id s = sc_task_id c \<and> s_generation s = generation \<and>
             s_state s = Generating \<and> s_claim_id s = Some (sc_request_id c))
       in case first_row sel (db_summaries d) of
            None \<Rightarrow> Rollback (Err SummaryClaimChanged)
          | Some stored \<Rightarrow>
              attempt (generation_option_i64 (sc_previous_unread c)) (\<lambda>expected_previous.
                let expected_covers = json_ids x (map p_completion_id (sc_completions c))
                in if s_previous_generation stored \<noteq> expected_previous \<or> s_covers stored \<noteq> expected_covers
                   then Rollback (Err SummaryClaimChanged)
                   else attempt (supersede_previous c generation d) (\<lambda>(previous_coverage, d1).
                     attempt (cover_completions (sc_task_id c) generation (sc_completions c) d1) (\<lambda>d2.
                       attempt (write_summaries (update_where sel (publish_row cache_object) (db_summaries d2)) d2)
                         (\<lambda>d3. if count_where sel (db_summaries d2) \<noteq> 1 then Rollback (Err SummaryClaimChanged)
                           else attempt (write_tts (delete_where (has_tts_key (sc_task_id c) generation)
                                  (db_tts_attempts d3)) d3) (\<lambda>d4.
                             attempt (u32_checked_add InvalidSummaryState previous_coverage
                                 (of_nat (length (sc_completions c)))) (\<lambda>coverage_count.
                               Commit (Ok \<lparr> u_task_id = sc_task_id c, u_generation = sc_generation c,
                                            u_cache_object = cache_object,
                                            u_coverage_count = coverage_count \<rparr>) d4)))))))"

definition publish_summary ::
  "externals \<Rightarrow> summary_claim \<Rightarrow> string \<Rightarrow> db \<Rightarrow> (store_error + unread_summary) \<times> db" where
  "publish_summary x c cache_object = checked (validate_summary_claim x c) (\<lambda>_.
     checked (map_err (\<lambda>_. InvalidSummaryCacheReference)
       (for_task (sha256 x) (sc_task_id c) (sc_generation c))) (\<lambda>expected_cache.
         if cache_object \<noteq> reference expected_cache then (\<lambda>d. (Err InvalidSummaryCacheReference, d))
         else in_txn (publish_txn x c cache_object)))"

section \<open>Status\<close>

definition current_unread_summary :: "externals \<Rightarrow> string \<Rightarrow> db \<Rightarrow> store_error + unread_summary option" where
  "current_unread_summary x task d =
     (if \<not> uuid_ok x task then Err InvalidSummaryRequest else query_current_unread task d)"

text \<open>The loop over the bindings; \<open>min\<close> with 255 makes the conversion to \<open>u8\<close> succeed.\<close>

fun mailbox_loop ::
  "externals \<Rightarrow> db \<Rightarrow> binding list \<Rightarrow> mailbox_status_snapshot \<Rightarrow> store_error + mailbox_status_snapshot" where
  "mailbox_loop x d [] status = Ok status"
| "mailbox_loop x d (b # bs) status =
     and_then (current_unread_summary x (bd_task_id b) d) (\<lambda>unread.
       case unread of
         None \<Rightarrow> mailbox_loop x d bs status
       | Some u \<Rightarrow>
           let index = unat (bd_slot b - 1)
           in mailbox_loop x d bs
                \<lparr> ms_unread_slots = or (ms_unread_slots status) (push_bit index 1),
                  ms_coverage_by_slot = (ms_coverage_by_slot status)[index :=
                    of_nat (min (unat (u_coverage_count u)) 255)] \<rparr>)"

definition mailbox_mismatch :: "mailbox_status_snapshot \<Rightarrow> bool" where
  "mailbox_mismatch status \<longleftrightarrow>
     list_ex (\<lambda>index. (and (ms_unread_slots status) (push_bit index 1) \<noteq> 0) \<noteq>
                      (ms_coverage_by_slot status ! index \<noteq> 0)) [0..<4]"

definition store_mailbox_status :: "externals \<Rightarrow> db \<Rightarrow> store_error + mailbox_status_snapshot" where
  "store_mailbox_status x d =
     and_then (bindings d) (\<lambda>bs.
       and_then (mailbox_loop x d bs \<lparr> ms_unread_slots = 0, ms_coverage_by_slot = [0, 0, 0, 0] \<rparr>) (\<lambda>status.
         if mailbox_mismatch status then Err InvalidSummaryState else Ok status))"

definition retained_summary_cache_references :: "db \<Rightarrow> string set" where
  "retained_summary_cache_references d =
     set (List.map_filter (\<lambda>s. if s_state s \<in> {Unheard, Leased} then s_cache_object s else None)
       (db_summaries d))"

definition pending_summary_completion_count :: "externals \<Rightarrow> string \<Rightarrow> db \<Rightarrow> store_error + u32" where
  "pending_summary_completion_count x task d =
     (if \<not> uuid_ok x task then Err InvalidSummaryRequest
      else get_count (count_where (is_uncovered task) (db_completions d)))"

definition summary_work_tasks_after ::
  "externals \<Rightarrow> string option \<Rightarrow> db \<Rightarrow> store_error + string list" where
  "summary_work_tasks_after x after d =
     (let tasks = remdups (map s_task_id (filter (\<lambda>s. s_state s = Interrupted) (db_summaries d)) @
            map c_task_id (filter (\<lambda>c. c_summarized_generation c = None) (db_completions d)));
          selected = take 32 (sort (filter (\<lambda>t. case after of None \<Rightarrow> True | Some a \<Rightarrow> a < t) tasks))
      in if list_all (uuid_ok x) selected then Ok selected else Err InvalidSummaryState)"

end
