(* ===== verification/Store_Leases.thy ===== *)
theory Store_Leases
  imports Store_Summaries
begin

text \<open>
  The playback leases of \<open>app/host/src/store.rs\<close>: acquiring the current unread summary of
  a slot for one playback, cancelling or finishing that playback, and the recovery of leases
  when the database is opened.
\<close>

section \<open>Data\<close>

record summary_playback_lease =
  pl_lease :: u64
  pl_slot :: u8
  pl_task_id :: string
  pl_summary_generation :: u64
  pl_request_generation :: u32
  pl_connection_generation :: u32
  pl_cache_object :: string

section \<open>Operations\<close>

definition validate_playback_lease :: "externals \<Rightarrow> summary_playback_lease \<Rightarrow> store_error + unit" where
  "validate_playback_lease x l =
     and_then (validate_slot (pl_slot l)) (\<lambda>_.
       let cache_matches =
             (case (from_reference (pl_cache_object l),
                    for_task (sha256 x) (pl_task_id l) (pl_summary_generation l)) of
                (Inr actual, Inr expected) \<Rightarrow> actual = expected
              | _ \<Rightarrow> False)
       in if pl_lease l = 0 \<or> uint (pl_lease l) > i64_max \<or> pl_summary_generation l = 0 \<or>
             uint (pl_summary_generation l) > i64_max \<or> pl_request_generation l = 0 \<or>
             pl_connection_generation l = 0 \<or> \<not> uuid_ok x (pl_task_id l) \<or> \<not> cache_matches
          then Err InvalidPlaybackLease else Ok ())"

text \<open>The lease returned for the current unread summary \<open>s\<close> of \<open>task\<close>.\<close>

definition playback_lease ::
  "u64 \<Rightarrow> u8 \<Rightarrow> string \<Rightarrow> int \<Rightarrow> u32 \<Rightarrow> u32 \<Rightarrow> string \<Rightarrow> summary_playback_lease" where
  "playback_lease lease slot task generation request_generation connection_generation cache_object =
     \<lparr> pl_lease = lease, pl_slot = slot, pl_task_id = task,
       pl_summary_generation = as_u64 generation, pl_request_generation = request_generation,
       pl_connection_generation = connection_generation, pl_cache_object = cache_object \<rparr>"

definition acquire_txn ::
  "u8 \<Rightarrow> u32 \<Rightarrow> u32 \<Rightarrow> u64 \<Rightarrow> db \<Rightarrow> summary_playback_lease option txn" where
  "acquire_txn slot request_generation connection_generation lease d =
     (case first_row (\<lambda>b. b_slot b = slot) (db_bindings d) of
        None \<Rightarrow> Commit (Ok None) d
      | Some b \<Rightarrow>
          let task = b_task_id b
          in case first_row (\<lambda>s. s_task_id s = task \<and> is_current_unread s) (db_summaries d) of
               None \<Rightarrow> Commit (Ok None) d
             | Some s \<Rightarrow>
                 (case s_cache_object s of
                    None \<Rightarrow> Rollback (Err (Sqlite InvalidColumnType))
                  | Some cache_object \<Rightarrow>
                      let generation = s_generation s;
                          granted = playback_lease lease slot task generation request_generation
                            connection_generation cache_object
                      in case first_row (\<lambda>l. lease_key l = (task, generation)) (db_leases d) of
                           Some l \<Rightarrow>
                             Commit (if l_lease_id l = uint lease \<and> l_slot l = slot \<and>
                                        l_request_generation l = uint request_generation \<and>
                                        l_connection_generation l = uint connection_generation
                                     then Ok (Some granted) else Err PlaybackBusy) d
                         | None \<Rightarrow>
                             if s_state s \<noteq> Unheard then Rollback (Err PlaybackBusy)
                             else let sel = (\<lambda>r. s_task_id r = task \<and> s_generation r = generation \<and>
                                        s_state r = Unheard \<and> s_superseded_by r = None)
                                  in attempt (write_summaries (update_where sel (set_summary_state Leased)
                                         (db_summaries d)) d) (\<lambda>d'.
                                       if count_where sel (db_summaries d) \<noteq> 1 then Rollback (Err PlaybackBusy)
                                       else attempt (write_leases (db_leases d' @
                                              [\<lparr> l_lease_id = uint lease, l_task_id = task,
                                                 l_summary_generation = generation, l_slot = slot,
                                                 l_request_generation = uint request_generation,
                                                 l_connection_generation = uint connection_generation \<rparr>]) d')
                                            (\<lambda>d''. Commit (Ok (Some granted)) d''))))"

definition acquire_summary_playback ::
  "u8 \<Rightarrow> u32 \<Rightarrow> u32 \<Rightarrow> u64 \<Rightarrow> db \<Rightarrow> (store_error + summary_playback_lease option) \<times> db" where
  "acquire_summary_playback slot request_generation connection_generation lease =
     checked (validate_slot slot) (\<lambda>_.
       checked (if request_generation = 0 \<or> connection_generation = 0 \<or> lease = 0 \<or> uint lease > i64_max
                then Err InvalidPlaybackLease else Ok ()) (\<lambda>_.
         in_txn (acquire_txn slot request_generation connection_generation lease)))"

text \<open>The row of exactly this lease.\<close>

definition is_lease :: "summary_playback_lease \<Rightarrow> int \<Rightarrow> int \<Rightarrow> lease_row \<Rightarrow> bool" where
  "is_lease l lease_id generation r \<longleftrightarrow>
     l_lease_id r = lease_id \<and> l_task_id r = pl_task_id l \<and> l_summary_generation r = generation \<and>
     l_slot r = pl_slot l \<and> l_request_generation r = uint (pl_request_generation l) \<and>
     l_connection_generation r = uint (pl_connection_generation l)"

definition release_row :: "summary_row \<Rightarrow> summary_row" where
  "release_row s = s\<lparr>s_state := (if s_superseded_by s = None then Unheard else Superseded)\<rparr>"

definition cancel_summary_playback ::
  "externals \<Rightarrow> summary_playback_lease \<Rightarrow> db \<Rightarrow> (store_error + bool) \<times> db" where
  "cancel_summary_playback x l = checked (validate_playback_lease x l) (\<lambda>_. in_txn (\<lambda>d.
     attempt (to_i64 (pl_lease l)) (\<lambda>lease_id.
       attempt (to_i64 (pl_summary_generation l)) (\<lambda>generation.
         let removed = count_where (is_lease l lease_id generation) (db_leases d)
         in attempt (write_leases (delete_where (is_lease l lease_id generation) (db_leases d)) d) (\<lambda>d'.
              if removed = 1
              then attempt (write_summaries (update_where (\<lambda>s. s_task_id s = pl_task_id l \<and>
                       s_generation s = generation \<and> s_state s = Leased) release_row (db_summaries d')) d')
                     (\<lambda>d''. Commit (Ok True) d'')
              else Commit (Ok False) d')))))"

definition finish_summary_playback ::
  "externals \<Rightarrow> summary_playback_lease \<Rightarrow> db \<Rightarrow> (store_error + bool) \<times> db" where
  "finish_summary_playback x l = checked (validate_playback_lease x l) (\<lambda>_. in_txn (\<lambda>d.
     attempt (to_i64 (pl_lease l)) (\<lambda>lease_id.
       attempt (to_i64 (pl_summary_generation l)) (\<lambda>generation.
         if \<not> list_ex (is_lease l lease_id generation) (db_leases d) then Commit (Ok False) d
         else let sel = (\<lambda>s. s_task_id s = pl_task_id l \<and> s_generation s = generation \<and>
                    s_state s = Leased \<and> s_cache_object s = Some (pl_cache_object l))
              in attempt (write_summaries (update_where sel (set_summary_state Heard) (db_summaries d)) d) (\<lambda>d'.
                   if count_where sel (db_summaries d) \<noteq> 1 then Rollback (Err InvalidSummaryState)
                   else attempt (write_leases (delete_where (\<lambda>r. l_lease_id r = lease_id) (db_leases d')) d')
                          (\<lambda>d''. Commit (Ok True) d''))))))"

definition recover_interrupted_playback_leases :: "db \<Rightarrow> (store_error + unit) \<times> db" where
  "recover_interrupted_playback_leases = in_txn (\<lambda>d.
     attempt (write_summaries (update_where (\<lambda>s. s_state s = Leased) release_row (db_summaries d)) d) (\<lambda>d'.
       attempt (write_leases [] d') (\<lambda>d''. Commit (Ok ()) d'')))"

end
