(* ===== verification/Store_Ledger.thy ===== *)
theory Store_Ledger
  imports Store_Leases
begin

text \<open>
  The invariant of the summary ledger of \<open>app/host/src/store.rs\<close> and its preservation by
  every operation on summaries, text-to-speech attempts and playback leases. It ties the five
  tables together: a leased row has its lease and a lease its leased row, a speech attempt
  belongs to an active claim, every covered completion belongs to a summary that was heard or
  is the one the user will hear next, and an active claim can still be loaded.
\<close>

section \<open>The invariant\<close>

definition is_published :: "summary_row \<Rightarrow> bool" where
  "is_published s \<longleftrightarrow> s_state s \<in> {Unheard, Leased, Heard, Superseded}"

text \<open>A summary that was heard, or is the current unread one.\<close>

definition is_live :: "summary_row \<Rightarrow> bool" where
  "is_live s \<longleftrightarrow> s_state s \<in> {Unheard, Leased, Heard} \<and> s_superseded_by s = None"

definition row_cache_id :: "externals \<Rightarrow> string \<Rightarrow> int \<Rightarrow> cache_id" where
  "row_cache_id x task generation = \<lparr> ci_task_hash = sha256 x task, ci_generation = as_u64 generation \<rparr>"

definition row_inv :: "externals \<Rightarrow> summary_row \<Rightarrow> bool" where
  "row_inv x s \<longleftrightarrow>
     s_generation s \<le> i64_max \<and> uuid_ok x (s_task_id s) \<and>
     (is_published s \<longrightarrow>
        s_cache_object s = Some (reference (row_cache_id x (s_task_id s) (s_generation s)))) \<and>
     (s_state s = Unheard \<longrightarrow> s_superseded_by s = None) \<and>
     (s_state s = Superseded \<longrightarrow> s_superseded_by s \<noteq> None) \<and>
     (is_active_claim s \<longrightarrow> s_superseded_by s = None \<and>
        s_claim_id s \<noteq> None \<and> s_request_id s = s_claim_id s \<and>
        validate_summary_request x (s_task_id s) (the (s_claim_id s)) = Ok ())"

definition lease_inv :: "summary_row list \<Rightarrow> lease_row list \<Rightarrow> bool" where
  "lease_inv ss ls \<longleftrightarrow>
     leases_ok ss ls \<and> (\<forall>s \<in> set ss. s_state s = Leased \<longleftrightarrow> summary_key s \<in> lease_key ` set ls)"

definition tts_inv :: "summary_row list \<Rightarrow> tts_row list \<Rightarrow> bool" where
  "tts_inv ss ts \<longleftrightarrow>
     tts_ok ss ts \<and> (\<forall>t \<in> set ts. \<exists>s \<in> set ss. summary_key s = tts_key t \<and> is_active_claim s)"

definition cover_inv :: "summary_row list \<Rightarrow> completion_row list \<Rightarrow> bool" where
  "cover_inv ss cs \<longleftrightarrow>
     (\<forall>c \<in> set cs. case c_summarized_generation c of None \<Rightarrow> True
        | Some g \<Rightarrow> \<exists>s \<in> set ss. summary_key s = (c_task_id c, g) \<and> is_live s) \<and>
     (\<forall>s \<in> set ss. is_current_unread s \<longrightarrow>
        (\<exists>c \<in> set cs. covered_by (s_task_id s) (s_generation s) c))"

definition loadable :: "string \<Rightarrow> completion_row list \<Rightarrow> string list \<Rightarrow> bool" where
  "loadable task cs ids = (case load_completions task cs 0 ids of Inl _ \<Rightarrow> False | Inr _ \<Rightarrow> True)"

definition covers_ok :: "externals \<Rightarrow> completion_row list \<Rightarrow> summary_row \<Rightarrow> bool" where
  "covers_ok x cs s =
     (case parse_ids x (s_covers s) of
        None \<Rightarrow> False
      | Some ids \<Rightarrow> s_covers s = json_ids x ids \<and> ids \<noteq> [] \<and> length ids \<le> MAX_SUMMARY_COMPLETIONS_PER_CLAIM \<and>
          distinct ids \<and> loadable (s_task_id s) cs ids)"

definition claim_inv_row :: "summary_row list \<Rightarrow> summary_row \<Rightarrow> bool" where
  "claim_inv_row ss s \<longleftrightarrow>
     (\<forall>u \<in> set ss. s_task_id u = s_task_id s \<longrightarrow> s_generation u \<le> s_generation s \<and>
        (is_current_unread u \<longrightarrow> s_previous_generation s = Some (s_generation u)))"

definition claims_inv :: "externals \<Rightarrow> summary_row list \<Rightarrow> completion_row list \<Rightarrow> bool" where
  "claims_inv x ss cs \<longleftrightarrow>
     (\<forall>s \<in> set ss. is_active_claim s \<longrightarrow> covers_ok x cs s \<and> claim_inv_row ss s)"

definition ledger_inv :: "externals \<Rightarrow> db \<Rightarrow> bool" where
  "ledger_inv x d \<longleftrightarrow>
     completions_inv x d \<and> summaries_ok (db_summaries d) \<and> list_all (row_inv x) (db_summaries d) \<and>
     lease_inv (db_summaries d) (db_leases d) \<and> tts_inv (db_summaries d) (db_tts_attempts d) \<and>
     cover_inv (db_summaries d) (db_completions d) \<and> claims_inv x (db_summaries d) (db_completions d)"

section \<open>Rows and keys\<close>

lemma ledger_invD:
  assumes "ledger_inv x d"
  shows "completions_inv x d" "summaries_ok (db_summaries d)"
    "\<And>s. s \<in> set (db_summaries d) \<Longrightarrow> row_inv x s"
    "lease_inv (db_summaries d) (db_leases d)" "tts_inv (db_summaries d) (db_tts_attempts d)"
    "cover_inv (db_summaries d) (db_completions d)" "claims_inv x (db_summaries d) (db_completions d)"
  using assms by (auto simp: ledger_inv_def list_all_iff)

lemma summaries_okD:
  assumes "summaries_ok ss"
  shows "distinct (map summary_key ss)" "\<And>s. s \<in> set ss \<Longrightarrow> summary_checks s" "distinct ss"
    "distinct (map s_task_id (filter is_active_claim ss))"
    "distinct (map s_task_id (filter is_current_unread ss))"
    "distinct (map s_request_id (filter (\<lambda>s. s_request_id s \<noteq> None) ss))"
  using assms by (auto simp: summaries_ok_def list_all_iff distinct_map)

lemma filter_key_unique:
  assumes "distinct (map key (filter p rows))" "r \<in> set rows" "r' \<in> set rows" "p r" "p r'" "key r = key r'"
  shows "r = r'"
  using distinct_key_eq [OF assms(1), of r r'] assms by simp

lemma active_unique:
  "summaries_ok ss \<Longrightarrow> r \<in> set ss \<Longrightarrow> r' \<in> set ss \<Longrightarrow> is_active_claim r \<Longrightarrow> is_active_claim r' \<Longrightarrow>
   s_task_id r = s_task_id r' \<Longrightarrow> r = r'"
  using filter_key_unique [OF summaries_okD(4)] by blast

lemma unread_unique:
  "summaries_ok ss \<Longrightarrow> r \<in> set ss \<Longrightarrow> r' \<in> set ss \<Longrightarrow> is_current_unread r \<Longrightarrow> is_current_unread r' \<Longrightarrow>
   s_task_id r = s_task_id r' \<Longrightarrow> r = r'"
  using filter_key_unique [OF summaries_okD(5)] by blast

lemma request_unique:
  assumes "summaries_ok ss" "r \<in> set ss" "r' \<in> set ss" "s_request_id r = Some q" "s_request_id r' = Some q"
  shows "r = r'"
  using filter_key_unique [OF summaries_okD(6) [OF assms(1)], of r r'] assms by simp

lemma key_unique:
  "summaries_ok ss \<Longrightarrow> r \<in> set ss \<Longrightarrow> r' \<in> set ss \<Longrightarrow> s_task_id r = s_task_id r' \<Longrightarrow>
   s_generation r = s_generation r' \<Longrightarrow> r = r'"
  using distinct_key_eq [OF summaries_okD(1)] by (simp add: summary_key_def)

lemma count_one_row:
  assumes "distinct rows" "count_where p rows = 1"
  obtains s where "s \<in> set rows" "p s" "\<And>r. r \<in> set rows \<Longrightarrow> p r \<Longrightarrow> r = s"
proof -
  obtain s where "filter p rows = [s]"
    using assms(2) by (auto simp: count_where_def length_Suc_conv)
  then have "set (filter p rows) = {s}" by simp
  then show ?thesis using that by auto
qed

text \<open>The tables of a database whose summaries are mapped row by row.\<close>

definition row_step :: "externals \<Rightarrow> summary_row \<Rightarrow> summary_row \<Rightarrow> bool" where
  "row_step x s s' \<longleftrightarrow>
     summary_key s' = summary_key s \<and> row_inv x s' \<and>
     (is_active_claim s' \<longrightarrow> is_active_claim s \<and> s_covers s' = s_covers s \<and>
        s_previous_generation s' = s_previous_generation s) \<and>
     (is_live s \<longrightarrow> is_live s') \<and> (is_current_unread s' \<longrightarrow> is_current_unread s)"

lemma row_step_keys:
  "row_step x s s' \<Longrightarrow> s_task_id s' = s_task_id s \<and> s_generation s' = s_generation s"
  by (simp add: row_step_def summary_key_def)

lemma row_step_refl: "row_inv x s \<Longrightarrow> row_step x s s"
  by (simp add: row_step_def)

lemma cover_invD:
  assumes "cover_inv ss cs"
  shows "\<And>c g. c \<in> set cs \<Longrightarrow> c_summarized_generation c = Some g \<Longrightarrow>
      \<exists>s \<in> set ss. summary_key s = (c_task_id c, g) \<and> is_live s"
    "\<And>s. s \<in> set ss \<Longrightarrow> is_current_unread s \<Longrightarrow>
      \<exists>c \<in> set cs. covered_by (s_task_id s) (s_generation s) c"
  using assms by (force simp: cover_inv_def)+

lemma cover_inv_map:
  assumes "cover_inv ss cs" "\<And>s. s \<in> set ss \<Longrightarrow> row_step x s (F s)"
  shows "cover_inv (map F ss) cs"
  unfolding cover_inv_def
proof (intro conjI ballI impI)
  fix c assume c: "c \<in> set cs"
  show "case c_summarized_generation c of None \<Rightarrow> True
        | Some g \<Rightarrow> \<exists>s \<in> set (map F ss). summary_key s = (c_task_id c, g) \<and> is_live s"
  proof (cases "c_summarized_generation c")
    case (Some g)
    then obtain s where "s \<in> set ss" "summary_key s = (c_task_id c, g)" "is_live s"
      using cover_invD(1) [OF assms(1) c] by blast
    then show ?thesis
      using assms(2) [of s] Some by (auto simp: row_step_def intro!: bexI [of _ s])
  qed simp
next
  fix s' assume "s' \<in> set (map F ss)" "is_current_unread s'"
  then obtain s where "s \<in> set ss" "s' = F s" "is_current_unread s"
    using assms(2) by (auto simp: row_step_def)
  then show "\<exists>c \<in> set cs. covered_by (s_task_id s') (s_generation s') c"
    using assms row_step_keys by (fastforce simp: cover_inv_def)
qed

lemma claims_inv_map:
  assumes "claims_inv x ss cs" "\<And>s. s \<in> set ss \<Longrightarrow> row_step x s (F s)"
  shows "claims_inv x (map F ss) cs"
  unfolding claims_inv_def
proof (intro ballI impI)
  fix s' assume s': "s' \<in> set (map F ss)" "is_active_claim s'"
  then obtain s where s: "s \<in> set ss" "s' = F s" "is_active_claim s" "s_covers s' = s_covers s"
      "s_previous_generation s' = s_previous_generation s"
    using assms(2) by (auto simp: row_step_def)
  have t: "s_task_id s' = s_task_id s" "s_generation s' = s_generation s"
    using row_step_keys [OF assms(2) [OF s(1)]] s(2) by simp_all
  have old: "covers_ok x cs s" "claim_inv_row ss s" using assms(1) s by (auto simp: claims_inv_def)
  have "covers_ok x cs s'" using old(1) s(4) t by (simp add: covers_ok_def cong: option.case_cong)
  moreover have "claim_inv_row (map F ss) s'"
    unfolding claim_inv_row_def
  proof (intro ballI impI)
    fix u' assume u': "u' \<in> set (map F ss)" "s_task_id u' = s_task_id s'"
    then obtain u where u: "u \<in> set ss" "u' = F u" by auto
    then show "s_generation u' \<le> s_generation s' \<and>
        (is_current_unread u' \<longrightarrow> s_previous_generation s' = Some (s_generation u'))"
      using old(2) u' t s(5) row_step_keys [OF assms(2) [OF u(1)]] assms(2) [OF u(1)]
      by (auto simp: claim_inv_row_def row_step_def)
  qed
  ultimately show "covers_ok x cs s' \<and> claim_inv_row (map F ss) s'" by simp
qed

lemma keys_map:
  "(\<And>s. s \<in> set ss \<Longrightarrow> row_step x s (F s)) \<Longrightarrow> map summary_key (map F ss) = map summary_key ss"
  by (simp add: row_step_def)

lemma tts_ok_keys: "map summary_key ss' = map summary_key ss \<Longrightarrow> tts_ok ss ts \<Longrightarrow> tts_ok ss' ts"
  by (simp add: tts_ok_def)

lemma leases_ok_keys: "map summary_key ss' = map summary_key ss \<Longrightarrow> leases_ok ss ls \<Longrightarrow> leases_ok ss' ls"
  by (simp add: leases_ok_def)

text \<open>A step that maps the summaries and keeps the completions keeps the whole invariant once
  the leases and the speech attempts agree with the new rows.\<close>

lemma ledger_inv_map:
  assumes "ledger_inv x d" "summaries_ok (map F (db_summaries d))"
    "\<And>s. s \<in> set (db_summaries d) \<Longrightarrow> row_step x s (F s)"
    "lease_inv (map F (db_summaries d)) ls" "tts_inv (map F (db_summaries d)) ts"
  shows "ledger_inv x (d\<lparr>db_summaries := map F (db_summaries d), db_leases := ls, db_tts_attempts := ts\<rparr>)"
proof -
  note old = ledger_invD [OF assms(1)]
  have "list_all (row_inv x) (map F (db_summaries d))"
    using assms(3) by (auto simp: list_all_iff row_step_def)
  with assms cover_inv_map [OF old(6) assms(3)] claims_inv_map [OF old(7) assms(3)] old(1)
  show ?thesis by (simp add: ledger_inv_def completions_inv_def)
qed

lemma lease_inv_map:
  assumes "lease_inv ss ls" "map summary_key (map F ss) = map summary_key ss"
    "\<And>s. s \<in> set ss \<Longrightarrow> s_state (F s) = Leased \<longleftrightarrow> s_state s = Leased"
  shows "lease_inv (map F ss) ls"
proof -
  have k: "summary_key (F s) = summary_key s" if "s \<in> set ss" for s
    using assms(2) that by (simp add: list_eq_iff_nth_eq in_set_conv_nth) metis
  show ?thesis
    using assms(1,3) k leases_ok_keys [OF assms(2)] by (auto simp: lease_inv_def)
qed

lemma tts_inv_map:
  assumes "tts_inv ss ts" "map summary_key (map F ss) = map summary_key ss" "set ts' \<subseteq> set ts" "tts_ok ss ts'"
    "\<And>s. s \<in> set ss \<Longrightarrow> is_active_claim s \<Longrightarrow> summary_key s \<in> tts_key ` set ts' \<Longrightarrow> is_active_claim (F s)"
  shows "tts_inv (map F ss) ts'"
proof -
  have k: "summary_key (F s) = summary_key s" if "s \<in> set ss" for s
    using assms(2) that by (simp add: list_eq_iff_nth_eq in_set_conv_nth) metis
  have "\<exists>s' \<in> set (map F ss). summary_key s' = tts_key t \<and> is_active_claim s'" if t: "t \<in> set ts'" for t
  proof -
    obtain s where s: "s \<in> set ss" "summary_key s = tts_key t" "is_active_claim s"
      using assms(1,3) t by (auto simp: tts_inv_def)
    with assms(5) [of s] t k [of s] show ?thesis by (auto intro!: bexI [of _ s])
  qed
  with tts_ok_keys [OF assms(2,4)] show ?thesis by (simp add: tts_inv_def)
qed

section \<open>Row changes\<close>

lemma flip_step:
  "row_inv x s \<Longrightarrow> is_active_claim s \<Longrightarrow> st \<in> {Generating, Interrupted} \<Longrightarrow>
   row_step x s (set_summary_state st s)"
  by (cases st; cases "s_state s"; simp add: row_step_def row_inv_def set_summary_state_def summary_key_def
      is_active_claim_def is_live_def is_current_unread_def is_published_def)

lemma abandon_step: "row_inv x s \<Longrightarrow> is_active_claim s \<Longrightarrow> row_step x s (abandon_row s)"
  by (auto simp: row_step_def row_inv_def abandon_row_def summary_key_def is_active_claim_def
      is_live_def is_current_unread_def is_published_def)

lemma lease_step:
  "row_inv x s \<Longrightarrow> s_state s = Unheard \<Longrightarrow> row_step x s (set_summary_state Leased s)"
  by (auto simp: row_step_def row_inv_def set_summary_state_def summary_key_def is_active_claim_def
      is_live_def is_current_unread_def is_published_def)

lemma hear_step:
  "row_inv x s \<Longrightarrow> s_state s = Leased \<Longrightarrow> row_step x s (set_summary_state Heard s)"
  by (auto simp: row_step_def row_inv_def set_summary_state_def summary_key_def is_active_claim_def
      is_live_def is_current_unread_def is_published_def)

lemma release_step: "row_inv x s \<Longrightarrow> s_state s = Leased \<Longrightarrow> row_step x s (release_row s)"
  by (auto simp: row_step_def row_inv_def release_row_def summary_key_def is_active_claim_def
      is_live_def is_current_unread_def is_published_def)

lemmas row_steps = flip_step abandon_step lease_step hear_step release_step

text \<open>A statement that changes the summaries by such row changes, with the leases and speech
  attempts it leaves.\<close>

lemma ledger_inv_update:
  assumes inv: "ledger_inv x d"
    and step: "\<And>s. s \<in> set (db_summaries d) \<Longrightarrow> p s \<Longrightarrow> row_step x s (f s)"
    and ok: "summaries_ok (update_where p f (db_summaries d))"
    and ls: "leases_ok (db_summaries d) ls" "\<And>s. s \<in> set (db_summaries d) \<Longrightarrow>
        s_state (if p s then f s else s) = Leased \<longleftrightarrow> summary_key s \<in> lease_key ` set ls"
    and ts: "tts_ok (db_summaries d) ts" "set ts \<subseteq> set (db_tts_attempts d)"
        "\<And>s. s \<in> set (db_summaries d) \<Longrightarrow> p s \<Longrightarrow> is_active_claim s \<Longrightarrow>
           summary_key s \<in> tts_key ` set ts \<Longrightarrow> is_active_claim (f s)"
  shows "ledger_inv x (d\<lparr>db_summaries := update_where p f (db_summaries d), db_leases := ls, db_tts_attempts := ts\<rparr>)"
proof -
  let ?F = "\<lambda>s. if p s then f s else s" and ?ss = "db_summaries d"
  have st: "row_step x s (?F s)" if "s \<in> set ?ss" for s
    using step [OF that] row_step_refl [OF ledger_invD(3) [OF inv that]] by simp
  have keys: "map summary_key (map ?F ?ss) = map summary_key ?ss" by (rule keys_map [OF st])
  have "s_state (?F s) = Leased \<longleftrightarrow> summary_key (?F s) \<in> lease_key ` set ls" if "s \<in> set ?ss" for s
    using ls(2) [OF that] st [OF that] unfolding row_step_def by metis
  then have "lease_inv (map ?F ?ss) ls"
    using leases_ok_keys [OF keys ls(1)] unfolding lease_inv_def set_map by blast
  moreover have "tts_inv (map ?F ?ss) ts"
    using ts by (intro tts_inv_map [OF ledger_invD(5) [OF inv] keys]) auto
  ultimately show ?thesis
    using ledger_inv_map [OF inv, of ?F ls ts] ok st by (simp add: update_where_def)
qed

text \<open>The same when no row enters or leaves the leased or the active states.\<close>

lemma ledger_inv_flip:
  assumes inv: "ledger_inv x d"
    and p: "\<And>s. s \<in> set (db_summaries d) \<Longrightarrow> p s \<Longrightarrow> is_active_claim s"
    and st: "st \<in> {Generating, Interrupted}"
    and ok: "summaries_ok (update_where p (set_summary_state st) (db_summaries d))"
  shows "ledger_inv x (d\<lparr>db_summaries := update_where p (set_summary_state st) (db_summaries d)\<rparr>)"
proof -
  note old = ledger_invD [OF inv]
  have "ledger_inv x (d\<lparr>db_summaries := update_where p (set_summary_state st) (db_summaries d),
      db_leases := db_leases d, db_tts_attempts := db_tts_attempts d\<rparr>)"
  proof (rule ledger_inv_update [OF inv])
    fix s assume s: "s \<in> set (db_summaries d)"
    show "s_state (if p s then set_summary_state st s else s) = Leased \<longleftrightarrow>
        summary_key s \<in> lease_key ` set (db_leases d)"
      using old(4) p [OF s] s st by (auto simp: lease_inv_def set_summary_state_def is_active_claim_def)
    show "row_step x s (set_summary_state st s)" if "p s"
      using flip_step [OF old(3) [OF s] p [OF s that] st] .
    show "is_active_claim (set_summary_state st s)"
      using st by (auto simp: set_summary_state_def is_active_claim_def)
  qed (use old(4,5) ok in \<open>simp_all add: lease_inv_def tts_inv_def\<close>)
  then show ?thesis by simp
qed

lemma recover_summaries_inv [store_inv_intros]:
  assumes "ledger_inv x d"
  shows "ledger_inv x (snd (recover_interrupted_summaries d))"
  unfolding recover_interrupted_summaries_def
proof (rule in_txn_inv [where P = "ledger_inv x", OF assms])
  fix r d' assume "(let sel = \<lambda>s. s_state s = Generating in
      attempt (write_summaries (update_where sel (set_summary_state Interrupted) (db_summaries d)) d)
        (\<lambda>d'. Commit (Ok (count_where sel (db_summaries d))) d')) = Commit r d'"
  then show "ledger_inv x d'"
    by (auto simp: Let_def attempt_Commit write_Ok is_active_claim_def intro!: ledger_inv_flip [OF assms])
qed

lemma abandon_inv:
  assumes inv: "ledger_inv x d" and p: "\<And>s. s \<in> set (db_summaries d) \<Longrightarrow> p s \<longleftrightarrow> s = r"
    and r: "r \<in> set (db_summaries d)" "is_active_claim r"
    and ok: "summaries_ok (update_where p abandon_row (db_summaries d))"
    and ts: "tts_ok (db_summaries d) ts" "ts = delete_where (has_tts_key (s_task_id r) (s_generation r)) (db_tts_attempts d)"
  shows "ledger_inv x (d\<lparr>db_summaries := update_where p abandon_row (db_summaries d), db_tts_attempts := ts\<rparr>)"
proof -
  note old = ledger_invD [OF inv]
  have gone: "summary_key r \<notin> tts_key ` set ts"
    by (auto simp: ts(2) delete_where_def has_tts_key_def tts_key_def summary_key_def)
  have "ledger_inv x (d\<lparr>db_summaries := update_where p abandon_row (db_summaries d),
      db_leases := db_leases d, db_tts_attempts := ts\<rparr>)"
  proof (rule ledger_inv_update [OF inv])
    fix s assume s: "s \<in> set (db_summaries d)"
    show "s_state (if p s then abandon_row s else s) = Leased \<longleftrightarrow> summary_key s \<in> lease_key ` set (db_leases d)"
      using old(4) p [OF s] s r by (auto simp: lease_inv_def abandon_row_def is_active_claim_def)
    show "row_step x s (abandon_row s)" if "p s"
      using p [OF s] that r old(3) by (auto intro: abandon_step)
    show "is_active_claim (abandon_row s)" if "p s" "is_active_claim s" "summary_key s \<in> tts_key ` set ts"
      using that gone p [OF s] by auto
  qed (use old(4) ok ts in \<open>auto simp: lease_inv_def delete_where_def\<close>)
  then show ?thesis by simp
qed

lemma abandon_summary_claim_inv [store_inv_intros]:
  assumes inv: "ledger_inv x d"
  shows "ledger_inv x (snd (abandon_summary_claim x c d))"
  unfolding abandon_summary_claim_def
proof (rule checked_inv [where P = "ledger_inv x", OF inv],
    rule in_txn_inv [where P = "ledger_inv x", OF inv], goal_cases)
  case (1 _ r d')
  obtain g where g: "to_i64 (sc_generation c) = Ok g" using 1 by (auto simp: attempt_Commit)
  define sel where "sel = (\<lambda>s :: summary_row. s_task_id s = sc_task_id c \<and> s_generation s = g \<and>
             is_active_claim s \<and> s_claim_id s = Some (sc_request_id c))"
  have ok: "summaries_ok (update_where sel abandon_row (db_summaries d))"
    and res: "count_where sel (db_summaries d) = 1 \<and>
        tts_ok (update_where sel abandon_row (db_summaries d))
          (delete_where (has_tts_key (sc_task_id c) g) (db_tts_attempts d)) \<and>
        d' = d\<lparr>db_summaries := update_where sel abandon_row (db_summaries d),
               db_tts_attempts := delete_where (has_tts_key (sc_task_id c) g) (db_tts_attempts d)\<rparr> \<or>
      count_where sel (db_summaries d) \<noteq> 1 \<and> d' = d\<lparr>db_summaries := update_where sel abandon_row (db_summaries d)\<rparr>"
    using 1 g by (auto simp: attempt_Commit write_Ok sel_def [symmetric] Let_def split: if_splits)
  note old = ledger_invD [OF inv]
  from res show ?case
  proof (elim disjE conjE)
    assume one: "count_where sel (db_summaries d) = 1"
      and ts: "tts_ok (update_where sel abandon_row (db_summaries d))
          (delete_where (has_tts_key (sc_task_id c) g) (db_tts_attempts d))"
      and d': "d' = d\<lparr>db_summaries := update_where sel abandon_row (db_summaries d),
               db_tts_attempts := delete_where (has_tts_key (sc_task_id c) g) (db_tts_attempts d)\<rparr>"
    obtain s where s: "s \<in> set (db_summaries d)" "sel s" "\<And>r. r \<in> set (db_summaries d) \<Longrightarrow> sel r \<Longrightarrow> r = s"
      using count_one_row [OF summaries_okD(3) [OF old(2)] one] by blast
    have keys: "map summary_key (update_where sel abandon_row (db_summaries d)) = map summary_key (db_summaries d)"
      by (rule map_update_where) (simp add: summary_key_def abandon_row_def)
    have iff: "sel r \<longleftrightarrow> r = s" if "r \<in> set (db_summaries d)" for r
      using s that by blast
    have "is_active_claim s" "s_task_id s = sc_task_id c" "s_generation s = g"
      using s(2) by (simp_all add: sel_def)
    with iff s(1) ok tts_ok_keys [OF keys [symmetric] ts] show "ledger_inv x d'"
      unfolding d' by (intro abandon_inv [OF inv, of sel s]) simp_all
  next
    assume n: "count_where sel (db_summaries d) \<noteq> 1"
      and d': "d' = d\<lparr>db_summaries := update_where sel abandon_row (db_summaries d)\<rparr>"
    have "\<not> sel r" if "r \<in> set (db_summaries d)" for r
    proof
      assume "sel r"
      then have "count_where sel (db_summaries d) = 1"
        using that by (intro count_where_one [OF summaries_okD(1) [OF old(2)] that])
          (auto simp: sel_def summary_key_def)
      with n show False by simp
    qed
    then have "update_where sel abandon_row (db_summaries d) = db_summaries d" by (rule update_where_id)
    with inv d' show "ledger_inv x d'" by simp
  qed
qed

lemma abandon_interrupted_inv [store_inv_intros]:
  assumes inv: "ledger_inv x d"
  shows "ledger_inv x (snd (abandon_interrupted_summary_for_task x task d))"
  unfolding abandon_interrupted_summary_for_task_def
proof (rule checked_inv [where P = "ledger_inv x", OF inv],
    rule in_txn_inv [where P = "ledger_inv x", OF inv], goal_cases)
  case (1 _ res d')
  note old = ledger_invD [OF inv]
  show ?case
  proof (cases "first_row (\<lambda>s. s_task_id s = task \<and> s_state s = Interrupted) (db_summaries d)")
    case None
    with 1 inv show ?thesis by simp
  next
    case (Some r)
    note r = first_row_Some [OF Some]
    define sel where "sel = (\<lambda>s :: summary_row. s_task_id s = task \<and> s_generation s = s_generation r \<and> s_state s = Interrupted)"
    have keys: "map summary_key (update_where sel abandon_row (db_summaries d)) = map summary_key (db_summaries d)"
      by (rule map_update_where) (simp add: summary_key_def abandon_row_def)
    have ok: "summaries_ok (update_where sel abandon_row (db_summaries d))"
      and ts: "tts_ok (update_where sel abandon_row (db_summaries d))
          (delete_where (has_tts_key task (s_generation r)) (db_tts_attempts d))"
      and d': "d' = d\<lparr>db_summaries := update_where sel abandon_row (db_summaries d),
               db_tts_attempts := delete_where (has_tts_key task (s_generation r)) (db_tts_attempts d)\<rparr>"
      using 1 Some by (auto simp: attempt_Commit write_Ok sel_def [symmetric] Let_def split: if_splits)
    show ?thesis
      unfolding d' using r ok ts tts_ok_keys [OF keys [symmetric]] key_unique [OF old(2), of _ r]
      by (intro abandon_inv [OF inv, of sel r]) (auto simp: sel_def is_active_claim_def)
  qed
qed

lemma resume_inv [store_inv_intros]:
  assumes inv: "ledger_inv x d"
  shows "ledger_inv x (snd (resume_interrupted_summary x task d))"
  unfolding resume_interrupted_summary_def
proof (rule checked_inv [where P = "ledger_inv x", OF inv],
    rule in_txn_inv [where P = "ledger_inv x", OF inv], goal_cases)
  case (1 _ res d')
  show ?case
  proof (cases "first_row (\<lambda>s. s_task_id s = task \<and> s_state s = Interrupted) (db_summaries d)")
    case None
    with 1 inv show ?thesis by simp
  next
    case (Some r)
    then obtain q where q: "s_claim_id r = Some q" using 1 by (auto split: option.splits)
    have "ledger_inv x (d\<lparr>db_summaries := update_where (\<lambda>s. s_task_id s = task \<and> s_generation s = s_generation r \<and>
          s_state s = Interrupted \<and> s_claim_id s = Some q) (set_summary_state Generating) (db_summaries d)\<rparr>)"
      using 1 Some q by (intro ledger_inv_flip [OF inv])
        (auto simp: attempt_Commit write_Ok Let_def is_active_claim_def split: if_splits)
    with 1 Some q show ?thesis
      by (auto simp: attempt_Commit write_Ok Let_def split: if_splits)
  qed
qed

section \<open>Speech attempts\<close>

lemma update_where_cong:
  "(\<And>r. r \<in> set rows \<Longrightarrow> p r \<longleftrightarrow> q r) \<Longrightarrow> update_where p f rows = update_where q f rows"
  by (simp add: update_where_def cong: map_cong)

lemma delete_where_cong:
  "(\<And>r. r \<in> set rows \<Longrightarrow> p r \<longleftrightarrow> r = s) \<Longrightarrow> delete_where p rows = filter (\<lambda>r. r \<noteq> s) rows"
  by (simp add: delete_where_def cong: filter_cong)

lemma ledger_inv_tts:
  "ledger_inv x d \<Longrightarrow> tts_inv (db_summaries d) ts \<Longrightarrow> ledger_inv x (d\<lparr>db_tts_attempts := ts\<rparr>)"
  by (simp add: ledger_inv_def completions_inv_def)

lemma begin_tts_inv [store_inv_intros]:
  assumes inv: "ledger_inv x d"
  shows "ledger_inv x (snd (begin_summary_tts_attempt x c d))"
  unfolding begin_summary_tts_attempt_def
proof (rule checked_inv [where P = "ledger_inv x", OF inv],
    rule in_txn_inv [where P = "ledger_inv x", OF inv], goal_cases)
  case (1 _ res d')
  note old = ledger_invD [OF inv]
  obtain g where to: "to_i64 (sc_generation c) = Ok g" using 1 by (auto simp: attempt_Commit)
  have g: "list_ex (is_own_claim c g) (db_summaries d)"
    using 1 to by (auto split: if_splits)
  define rows where "rows = (if list_ex (has_tts_key (sc_task_id c) g) (db_tts_attempts d)
      then db_tts_attempts d
      else db_tts_attempts d @ [\<lparr> t_task_id = sc_task_id c, t_generation = g, t_state = TtsStarted \<rparr>])"
  have rows: "tts_ok (db_summaries d) rows" "d' = d\<lparr>db_tts_attempts := rows\<rparr>"
    using 1 to g by (auto simp: rows_def Let_def attempt_Commit write_Ok split: option.splits)
  have "\<exists>s \<in> set (db_summaries d). summary_key s = (sc_task_id c, g) \<and> is_active_claim s"
    using g by (auto simp: list_ex_iff is_own_claim_def summary_key_def)
  with rows(1) old(5) have "tts_inv (db_summaries d) rows"
    by (auto simp: tts_inv_def tts_key_def rows_def)
  with rows(2) inv show ?case by (simp add: ledger_inv_tts)
qed

lemma mark_ambiguous_inv [store_inv_intros]:
  assumes inv: "ledger_inv x d"
  shows "ledger_inv x (snd (mark_summary_tts_ambiguous x c d))"
  unfolding mark_summary_tts_ambiguous_def
proof (rule checked_inv [where P = "ledger_inv x", OF inv],
    rule in_txn_inv [where P = "ledger_inv x", OF inv], goal_cases)
  case (1 _ res d')
  then obtain p where p: "tts_ok (db_summaries d) (update_where p (\<lambda>t. t\<lparr>t_state := TtsAmbiguous\<rparr>) (db_tts_attempts d))"
      "d' = d\<lparr>db_tts_attempts := update_where p (\<lambda>t. t\<lparr>t_state := TtsAmbiguous\<rparr>) (db_tts_attempts d)\<rparr>"
    by (auto simp: attempt_Commit write_Ok Let_def)
  have "tts_inv (db_summaries d) (update_where p (\<lambda>t. t\<lparr>t_state := TtsAmbiguous\<rparr>) (db_tts_attempts d))"
    using p(1) ledger_invD(5) [OF inv] by (auto simp: tts_inv_def set_update_where tts_key_def)
  with p(2) inv show ?case by (simp add: ledger_inv_tts)
qed

section \<open>Leases\<close>

lemma ledger_inv_leases:
  assumes inv: "ledger_inv x d"
    and step: "\<And>s. s \<in> set (db_summaries d) \<Longrightarrow> p s \<Longrightarrow> row_step x s (f s) \<and> \<not> is_active_claim s"
    and ok: "summaries_ok (update_where p f (db_summaries d))"
    and ls: "leases_ok (db_summaries d) ls" "\<And>s. s \<in> set (db_summaries d) \<Longrightarrow>
        s_state (if p s then f s else s) = Leased \<longleftrightarrow> summary_key s \<in> lease_key ` set ls"
  shows "ledger_inv x (d\<lparr>db_summaries := update_where p f (db_summaries d), db_leases := ls\<rparr>)"
proof -
  have "ledger_inv x (d\<lparr>db_summaries := update_where p f (db_summaries d), db_leases := ls,
      db_tts_attempts := db_tts_attempts d\<rparr>)"
    using step ledger_invD(5) [OF inv]
    by (intro ledger_inv_update [OF inv _ ok ls]) (auto simp: tts_inv_def)
  then show ?thesis by simp
qed

lemma leases_ok_sub:
  assumes "leases_ok ss ls"
  shows "leases_ok ss (filter q ls)"
  using assms by (auto simp: leases_ok_def list_all_iff distinct_map_filter)

lemma acquire_cases:
  assumes "ledger_inv x d" "acquire_summary_playback slot rg cg lease d = (res, d')"
  obtains (unchanged) "d' = d"
  | (granted) b s where "b \<in> set (db_bindings d)" "b_slot b = slot" "s \<in> set (db_summaries d)"
      "s_task_id s = b_task_id b" "s_state s = Unheard" "s_superseded_by s = None"
      "summary_key s \<notin> lease_key ` set (db_leases d)"
      "res = Ok (Some (playback_lease lease slot (s_task_id s) (s_generation s) rg cg
                  (reference (row_cache_id x (s_task_id s) (s_generation s)))))"
      "0 < uint lease" "uint lease \<le> i64_max" "slot_in_range slot" "rg \<noteq> 0" "cg \<noteq> 0"
      "summaries_ok (update_where (\<lambda>r. r = s) (set_summary_state Leased) (db_summaries d))"
      "leases_ok (db_summaries d) (db_leases d @ [\<lparr> l_lease_id = uint lease, l_task_id = s_task_id s,
           l_summary_generation = s_generation s, l_slot = slot,
           l_request_generation = uint rg, l_connection_generation = uint cg \<rparr>])"
      "d' = d\<lparr>db_summaries := update_where (\<lambda>r. r = s) (set_summary_state Leased) (db_summaries d),
           db_leases := db_leases d @ [\<lparr> l_lease_id = uint lease, l_task_id = s_task_id s,
             l_summary_generation = s_generation s, l_slot = slot,
             l_request_generation = uint rg, l_connection_generation = uint cg \<rparr>]\<rparr>"
proof (cases "d' = d")
  case True
  then show ?thesis by (rule unchanged)
next
  case False
  note old = ledger_invD [OF assms(1)]
  have chk: "slot_in_range slot" "rg \<noteq> 0" "cg \<noteq> 0" "lease \<noteq> 0" "uint lease \<le> i64_max"
    and t: "acquire_txn slot rg cg lease d = Commit res d'"
    using assms(2) False
    by (auto simp: acquire_summary_playback_def checked_def validate_slot_def in_txn_Pair split: if_splits)
  obtain b where b: "first_row (\<lambda>b. b_slot b = slot) (db_bindings d) = Some b"
    using t False by (auto simp: acquire_txn_def split: option.splits)
  obtain s where s: "first_row (\<lambda>s. s_task_id s = b_task_id b \<and> is_current_unread s) (db_summaries d) = Some s"
    using t False b by (auto simp: acquire_txn_def Let_def split: option.splits)
  note bs = first_row_Some [OF b] first_row_Some [OF s]
  have pub: "is_published s" using bs by (auto simp: is_current_unread_def is_published_def)
  have cache: "s_cache_object s = Some (reference (row_cache_id x (s_task_id s) (s_generation s)))"
    using old(3) [of s] bs pub by (simp add: row_inv_def)
  have no: "first_row (\<lambda>l. lease_key l = (b_task_id b, s_generation s)) (db_leases d) = None"
    using t False b s cache by (auto simp: acquire_txn_def Let_def split: option.splits)
  define sel where "sel = (\<lambda>r :: summary_row. s_task_id r = b_task_id b \<and> s_generation r = s_generation s \<and>
            s_state r = Unheard \<and> s_superseded_by r = None)"
  define row where "row = \<lparr> l_lease_id = uint lease, l_task_id = s_task_id s, l_summary_generation = s_generation s,
     l_slot = slot, l_request_generation = uint rg, l_connection_generation = uint cg \<rparr>"
  have un: "s_state s = Unheard" using t b s cache no by (auto simp: acquire_txn_def Let_def split: if_splits)
  have sel: "update_where sel f (db_summaries d) = update_where (\<lambda>r. r = s) f (db_summaries d)" for f
    using key_unique [OF old(2), of _ s] bs un
    by (intro update_where_cong) (auto simp: sel_def is_current_unread_def)
  let ?ss = "update_where (\<lambda>r. r = s) (set_summary_state Leased) (db_summaries d)"
  have ok: "summaries_ok ?ss" "leases_ok ?ss (db_leases d @ [row])"
    and d': "d' = d\<lparr>db_summaries := ?ss, db_leases := db_leases d @ [row]\<rparr>"
    and res: "res = Ok (Some (playback_lease lease slot (s_task_id s) (s_generation s) rg cg
                  (reference (row_cache_id x (s_task_id s) (s_generation s)))))"
    using t b s cache no un bs
    by (auto simp: acquire_txn_def Let_def attempt_Commit write_Ok sel_def [symmetric] sel row_def
        split: if_splits)
  have "map summary_key ?ss = map summary_key (db_summaries d)"
    by (rule map_update_where) (simp add: summary_key_def set_summary_state_def)
  then have "leases_ok (db_summaries d) (db_leases d @ [row])"
    using ok(2) leases_ok_keys by metis
  moreover have "summary_key s \<notin> lease_key ` set (db_leases d)"
    using no bs by (auto simp: first_row_None summary_key_def)
  moreover have "0 < uint lease" using chk(4) by (simp add: word_neq_0_conv word_less_def)
  ultimately show ?thesis
    using granted [of b s] bs un chk ok(1) d' res old(3) [of s]
    by (auto simp: row_def is_current_unread_def)
qed

lemma acquire_inv [store_inv_intros]:
  assumes inv: "ledger_inv x d"
  shows "ledger_inv x (snd (acquire_summary_playback slot rg cg lease d))"
proof -
  obtain res d' where e: "acquire_summary_playback slot rg cg lease d = (res, d')" by fastforce
  note old = ledger_invD [OF inv]
  from inv e show ?thesis
  proof (cases rule: acquire_cases)
    case unchanged
    with e inv show ?thesis by simp
  next
    case (granted b s)
    have "s_state (if r = s then set_summary_state Leased r else r) = Leased \<longleftrightarrow>
        summary_key r \<in> lease_key ` set (db_leases d @ [\<lparr> l_lease_id = uint lease, l_task_id = s_task_id s,
             l_summary_generation = s_generation s, l_slot = slot,
             l_request_generation = uint rg, l_connection_generation = uint cg \<rparr>])"
      if "r \<in> set (db_summaries d)" for r
      using old(4) that key_unique [OF old(2) that granted(3)]
      by (auto simp: lease_inv_def set_summary_state_def lease_key_def summary_key_def)
    then have "ledger_inv x d'"
      unfolding granted(16) using granted old(3)
      by (intro ledger_inv_leases [OF inv]) (auto intro: lease_step simp: is_active_claim_def)
    with e show ?thesis by simp
  qed
qed

lemma is_lease_key:
  "is_lease l i g r \<Longrightarrow> lease_key r = (pl_task_id l, g)"
  by (simp add: is_lease_def lease_key_def)

lemma lease_row_unique:
  "leases_ok ss ls \<Longrightarrow> r \<in> set ls \<Longrightarrow> r' \<in> set ls \<Longrightarrow> lease_key r = lease_key r' \<Longrightarrow> r = r'"
  using distinct_key_eq [of lease_key ls] by (auto simp: leases_ok_def)

lemma lease_id_unique:
  "leases_ok ss ls \<Longrightarrow> r \<in> set ls \<Longrightarrow> r' \<in> set ls \<Longrightarrow> l_lease_id r = l_lease_id r' \<Longrightarrow> r = r'"
  using distinct_key_eq [of l_lease_id ls] by (auto simp: leases_ok_def)

text \<open>A lease row has its leased summary.\<close>

lemma lease_summary:
  assumes "ledger_inv x d" "r \<in> set (db_leases d)"
  obtains s where "s \<in> set (db_summaries d)" "summary_key s = lease_key r" "s_state s = Leased"
proof -
  have "lease_key r \<in> summary_key ` set (db_summaries d)"
    using ledger_invD(4) [OF assms(1)] assms(2) by (auto simp: lease_inv_def leases_ok_def list_all_iff)
  then obtain s where "s \<in> set (db_summaries d)" "summary_key s = lease_key r" by force
  with that ledger_invD(4) [OF assms(1)] assms(2) show ?thesis by (auto simp: lease_inv_def)
qed

lemma leased_without:
  assumes "lease_inv ss ls" "summaries_ok ss" "r \<in> set ls" "u \<in> set ss" "s \<in> set ss" "summary_key s = lease_key r"
  shows "u \<noteq> s \<and> s_state u = Leased \<longleftrightarrow> summary_key u \<in> lease_key ` set (filter (\<lambda>l. l \<noteq> r) ls)"
proof -
  have "lease_key l = lease_key r \<Longrightarrow> l \<in> set ls \<Longrightarrow> l = r" for l
    using assms(1,3) lease_row_unique by (auto simp: lease_inv_def)
  moreover have "summary_key u = summary_key s \<longleftrightarrow> u = s"
    using distinct_key_eq [OF summaries_okD(1) [OF assms(2)]] assms(4,5) by blast
  ultimately show ?thesis
    using assms by (auto simp: lease_inv_def)
qed

text \<open>What cancelling and finishing a playback do: nothing, or the one leased row of this lease
  is released or heard and the lease is removed.\<close>

lemma cancel_cases:
  assumes "ledger_inv x d" "cancel_summary_playback x l d = (res, d')"
  obtains (unchanged) "d' = d" "res \<noteq> Ok True"
  | (released) s r where "res = Ok True" "r \<in> set (db_leases d)"
      "is_lease l (uint (pl_lease l)) (uint (pl_summary_generation l)) r"
      "s \<in> set (db_summaries d)" "summary_key s = lease_key r" "s_state s = Leased"
      "summaries_ok (update_where (\<lambda>u. u = s) release_row (db_summaries d))"
      "d' = d\<lparr>db_summaries := update_where (\<lambda>u. u = s) release_row (db_summaries d),
               db_leases := filter (\<lambda>k. k \<noteq> r) (db_leases d)\<rparr>"
proof -
  note old = ledger_invD [OF assms(1)]
  let ?i = "uint (pl_lease l)" and ?g = "uint (pl_summary_generation l)"
  define p where "p = is_lease l ?i ?g"
  show ?thesis
  proof (cases "validate_playback_lease x l")
    case (Inl e)
    with assms(2) unchanged show ?thesis by (auto simp: cancel_summary_playback_def)
  next
    case (Inr u)
    have conv: "to_i64 (pl_lease l) = Ok ?i" "to_i64 (pl_summary_generation l) = Ok ?g"
      using Inr by (auto simp: validate_playback_lease_def and_then_Ok_iff to_i64_def Let_def split: if_splits)
    have lok: "leases_ok (db_summaries d) (delete_where p (db_leases d))"
      using old(4) leases_ok_sub by (auto simp: lease_inv_def delete_where_def)
    show ?thesis
    proof (cases "count_where p (db_leases d) = 1")
      case False
      have "\<not> p r" if "r \<in> set (db_leases d)" for r
        using False that old(4) count_where_one [of lease_key "db_leases d" r p]
        by (auto simp: lease_inv_def leases_ok_def p_def is_lease_key)
      then have "delete_where p (db_leases d) = db_leases d"
        by (simp add: delete_where_def filter_id_conv)
      with assms(2) Inr conv lok False unchanged show ?thesis
        by (auto simp: cancel_summary_playback_def in_txn_Pair write_defs p_def [symmetric] Let_def)
    next
      case True
      have dist: "distinct (db_leases d)" using old(4) by (auto simp: lease_inv_def leases_ok_def distinct_map)
      obtain r where r: "r \<in> set (db_leases d)" "p r" "\<And>k. k \<in> set (db_leases d) \<Longrightarrow> p k \<Longrightarrow> k = r"
        using count_one_row [OF dist True] by blast
      obtain s where s: "s \<in> set (db_summaries d)" "summary_key s = lease_key r" "s_state s = Leased"
        using lease_summary [OF assms(1) r(1)] by blast
      have del: "delete_where p (db_leases d) = filter (\<lambda>k. k \<noteq> r) (db_leases d)"
        using r by (intro delete_where_cong) blast
      have sk: "s_task_id s = pl_task_id l" "s_generation s = ?g"
        using s(2) is_lease_key [of l ?i ?g r] r(2) by (auto simp: p_def summary_key_def)
      have upd: "update_where (\<lambda>u. s_task_id u = pl_task_id l \<and> s_generation u = ?g \<and> s_state u = Leased) f (db_summaries d)
          = update_where (\<lambda>u. u = s) f (db_summaries d)" for f
        using s sk key_unique [OF old(2) _ s(1)] by (intro update_where_cong) metis
      have lok': "leases_ok (db_summaries d) (filter (\<lambda>k. k \<noteq> r) (db_leases d))" using lok del by simp
      let ?d = "d\<lparr>db_summaries := update_where (\<lambda>u. u = s) release_row (db_summaries d),
               db_leases := filter (\<lambda>k. k \<noteq> r) (db_leases d)\<rparr>"
      have eq: "cancel_summary_playback x l d =
          (if summaries_ok (update_where (\<lambda>u. u = s) release_row (db_summaries d)) then (Ok True, ?d)
           else (Err (Sqlite ConstraintViolation), d))"
        using lok' True
        by (simp add: cancel_summary_playback_def Inr conv in_txn_def write_defs p_def [symmetric]
            Let_def upd del)
      show ?thesis
      proof (cases "summaries_ok (update_where (\<lambda>u. u = s) release_row (db_summaries d))")
        case ok: True
        with eq assms(2) have "res = Ok True" "d' = ?d" by simp_all
        with r(1,2) s ok show ?thesis by (intro released [of r s]) (simp_all add: p_def)
      next
        case False
        with eq assms(2) show ?thesis by (intro unchanged) simp_all
      qed
    qed
  qed
qed

lemma cancel_inv [store_inv_intros]:
  assumes inv: "ledger_inv x d"
  shows "ledger_inv x (snd (cancel_summary_playback x l d))"
proof -
  obtain res d' where e: "cancel_summary_playback x l d = (res, d')" by fastforce
  note old = ledger_invD [OF inv]
  from inv e show ?thesis
  proof (cases rule: cancel_cases)
    case unchanged
    with e inv show ?thesis by simp
  next
    case (released s r)
    have "s_state (if u = s then release_row u else u) = Leased \<longleftrightarrow>
        summary_key u \<in> lease_key ` set (filter (\<lambda>k. k \<noteq> r) (db_leases d))" if "u \<in> set (db_summaries d)" for u
      using leased_without [OF old(4,2) released(2) that released(4,5)] by (auto simp: release_row_def)
    then have "ledger_inv x d'"
      unfolding released(8) using released old(3,4) leases_ok_sub
      by (intro ledger_inv_leases [OF inv]) (auto intro: release_step simp: is_active_claim_def lease_inv_def)
    with e show ?thesis by simp
  qed
qed

lemma finish_cases:
  assumes "ledger_inv x d" "finish_summary_playback x l d = (res, d')"
  obtains (unchanged) "d' = d" "res \<noteq> Ok True"
  | (heard) s r where "res = Ok True" "r \<in> set (db_leases d)"
      "is_lease l (uint (pl_lease l)) (uint (pl_summary_generation l)) r"
      "s \<in> set (db_summaries d)" "summary_key s = lease_key r" "s_state s = Leased"
      "summaries_ok (update_where (\<lambda>u. u = s) (set_summary_state Heard) (db_summaries d))"
      "d' = d\<lparr>db_summaries := update_where (\<lambda>u. u = s) (set_summary_state Heard) (db_summaries d),
               db_leases := filter (\<lambda>k. k \<noteq> r) (db_leases d)\<rparr>"
proof (cases "d' = d \<and> res \<noteq> Ok True")
  case True
  then show ?thesis using unchanged by blast
next
  case False
  note old = ledger_invD [OF assms(1)]
  let ?i = "uint (pl_lease l)" and ?g = "uint (pl_summary_generation l)"
  define sel where "sel = (\<lambda>s :: summary_row. s_task_id s = pl_task_id l \<and> s_generation s = ?g \<and>
                    s_state s = Leased \<and> s_cache_object s = Some (pl_cache_object l))"
  have steps: "list_ex (is_lease l ?i ?g) (db_leases d)" "count_where sel (db_summaries d) = 1"
    "summaries_ok (update_where sel (set_summary_state Heard) (db_summaries d))"
    "res = Ok True" "d' = d\<lparr>db_summaries := update_where sel (set_summary_state Heard) (db_summaries d),
       db_leases := delete_where (\<lambda>r. l_lease_id r = ?i) (db_leases d)\<rparr>"
    using assms(2) False
    by (auto simp: finish_summary_playback_def checked_def in_txn_Pair attempt_Commit attempt_Rollback
        write_Ok to_i64_Ok sel_def [symmetric] Let_def split: sum.splits if_splits)
  obtain s where s: "s \<in> set (db_summaries d)" "sel s" "\<And>u. u \<in> set (db_summaries d) \<Longrightarrow> sel u \<Longrightarrow> u = s"
    using count_one_row [OF summaries_okD(3) [OF old(2)] steps(2)] by blast
  obtain r where r: "r \<in> set (db_leases d)" "is_lease l ?i ?g r" using steps(1) by (auto simp: list_ex_iff)
  have lok: "leases_ok (db_summaries d) (db_leases d)" using old(4) by (simp add: lease_inv_def)
  have del: "delete_where (\<lambda>k. l_lease_id k = ?i) (db_leases d) = filter (\<lambda>k. k \<noteq> r) (db_leases d)"
    using r lease_id_unique [OF lok] by (intro delete_where_cong) (auto simp: is_lease_def)
  have upd: "update_where sel f (db_summaries d) = update_where (\<lambda>u. u = s) f (db_summaries d)" for f
    using s by (intro update_where_cong) blast
  have "summary_key s = lease_key r" "s_state s = Leased"
    using s(2) is_lease_key [OF r(2)] by (auto simp: sel_def summary_key_def)
  with r s(1) steps show ?thesis
    using heard [of r s] by (simp add: upd del)
qed

lemma finish_inv [store_inv_intros]:
  assumes inv: "ledger_inv x d"
  shows "ledger_inv x (snd (finish_summary_playback x l d))"
proof -
  obtain res d' where e: "finish_summary_playback x l d = (res, d')" by fastforce
  note old = ledger_invD [OF inv]
  from inv e show ?thesis
  proof (cases rule: finish_cases)
    case unchanged
    with e inv show ?thesis by simp
  next
    case (heard s r)
    have "s_state (if u = s then set_summary_state Heard u else u) = Leased \<longleftrightarrow>
        summary_key u \<in> lease_key ` set (filter (\<lambda>k. k \<noteq> r) (db_leases d))" if "u \<in> set (db_summaries d)" for u
      using leased_without [OF old(4,2) heard(2) that heard(4,5)] by (auto simp: set_summary_state_def)
    then have "ledger_inv x d'"
      unfolding heard(8) using heard old(3,4) leases_ok_sub
      by (intro ledger_inv_leases [OF inv]) (auto intro: hear_step simp: is_active_claim_def lease_inv_def)
    with e show ?thesis by simp
  qed
qed

lemma recover_leases_inv [store_inv_intros]:
  assumes inv: "ledger_inv x d"
  shows "ledger_inv x (snd (recover_interrupted_playback_leases d))"
  unfolding recover_interrupted_playback_leases_def
proof (rule in_txn_inv [where P = "ledger_inv x", OF inv], goal_cases)
  case (1 res d')
  have ok: "summaries_ok (update_where (\<lambda>s. s_state s = Leased) release_row (db_summaries d))"
    and d': "d' = d\<lparr>db_summaries := update_where (\<lambda>s. s_state s = Leased) release_row (db_summaries d), db_leases := []\<rparr>"
    using 1 by (auto simp: attempt_Commit write_Ok)
  show ?case
    unfolding d'
  proof (rule ledger_inv_leases [OF inv])
    fix s assume s: "s \<in> set (db_summaries d)"
    show "row_step x s (release_row s) \<and> \<not> is_active_claim s" if "s_state s = Leased"
      using release_step [OF ledger_invD(3) [OF inv s] that] that by (simp add: is_active_claim_def)
    show "s_state (if s_state s = Leased then release_row s else s) = Leased \<longleftrightarrow> summary_key s \<in> lease_key ` set []"
      by (simp add: release_row_def)
  qed (use ok in \<open>simp_all add: leases_ok_def\<close>)
qed

section \<open>New completions\<close>

lemma first_row_append: "first_row p rows = Some r \<Longrightarrow> first_row p (rows @ extra) = Some r"
  by (induction rows) (auto simp: first_row_def)

lemma load_completions_append:
  "load_completions task cs acc ids = Ok ps \<Longrightarrow> load_completions task (cs @ extra) acc ids = Ok ps"
proof (induction ids arbitrary: acc ps)
  case (Cons i ids)
  then obtain c where c: "first_row (\<lambda>c. c_completion_id c = i \<and> c_task_id c = task) cs = Some c"
    by (auto split: option.splits)
  with Cons show ?case
    by (auto simp: first_row_append [OF c] Let_def and_then_Ok_iff split: if_splits)
qed simp

lemma covers_ok_mono:
  assumes "covers_ok x cs s" "\<And>ids. loadable (s_task_id s) cs ids \<Longrightarrow> loadable (s_task_id s) cs' ids"
  shows "covers_ok x cs' s"
  using assms by (auto simp: covers_ok_def split: option.splits)

lemma ledger_inv_completion:
  assumes inv: "ledger_inv x d" and cs: "cs = db_completions d \<or> (\<exists>c. cs = db_completions d @ [c] \<and> c_summarized_generation c = None)"
    and new: "completions_inv x (d\<lparr>db_completions := cs, db_cursors := rs\<rparr>)"
  shows "ledger_inv x (d\<lparr>db_completions := cs, db_cursors := rs\<rparr>)"
proof -
  note old = ledger_invD [OF inv]
  have "cover_inv (db_summaries d) cs"
    using cs old(6) by (auto simp: cover_inv_def)
  moreover have "claims_inv x (db_summaries d) cs"
    unfolding claims_inv_def
  proof (intro ballI impI conjI)
    fix s assume s: "s \<in> set (db_summaries d)" "is_active_claim s"
    show "claim_inv_row (db_summaries d) s" using old(7) s by (simp add: claims_inv_def)
    have "loadable (s_task_id s) cs ids" if "loadable (s_task_id s) (db_completions d) ids" for ids
      using that cs load_completions_append by (auto simp: loadable_def split: sum.splits)
    then show "covers_ok x cs s" using old(7) s covers_ok_mono by (auto simp: claims_inv_def)
  qed
  ultimately show ?thesis
    using inv new by (simp add: ledger_inv_def completions_inv_def)
qed

lemma commit_completion_ledger_inv [store_inv_intros]:
  assumes inv: "ledger_inv x d"
  shows "ledger_inv x (snd (commit_rollout_completion_on x now b expected nxt cid pack d))"
proof -
  obtain res d' where e: "commit_rollout_completion_on x now b expected nxt cid pack d = (res, d')" by fastforce
  then show ?thesis
  proof (cases rule: commit_completion_cases)
    case refused
    with e inv show ?thesis by simp
  next
    case (committed outcome row)
    have "completions_inv x d'"
      using commit_completion_inv [OF ledger_invD(1) [OF inv]] e by (metis snd_conv)
    moreover have "db_completions d' = db_completions d \<or>
        (\<exists>c. db_completions d' = db_completions d @ [c] \<and> c_summarized_generation c = None)"
      using committed(9) by (cases outcome) (auto simp: new_completion_def)
    ultimately have "ledger_inv x (d\<lparr>db_completions := db_completions d', db_cursors := upsert r_task_id row (db_cursors d)\<rparr>)"
      using committed(8) by (intro ledger_inv_completion [OF inv]) auto
    with committed(8) e show ?thesis by simp
  qed
qed

section \<open>Claims\<close>

lemma first_completion_unique:
  assumes "distinct (map c_completion_id cs)" "r \<in> set cs" "c_task_id r = task"
  shows "first_row (\<lambda>c. c_completion_id c = c_completion_id r \<and> c_task_id c = task) cs = Some r"
  using assms by (intro first_row_unique [where key = c_completion_id]) auto

lemma collect_pending_load:
  assumes "collect_pending x n acc rs = Ok ps" "distinct (map c_completion_id cs)"
    "\<And>r. r \<in> set rs \<Longrightarrow> r \<in> set cs \<and> is_uncovered task r" "n \<noteq> 0 \<or> acc = 0"
  shows "load_completions task cs acc (map p_completion_id ps) = Ok ps"
  using assms
proof (induction x n acc rs arbitrary: ps rule: collect_pending.induct)
  case (2 x n acc r rs)
  show ?case
  proof (cases ps)
    case (Cons p ps')
    have r: "r \<in> set cs" "c_task_id r = task" "c_summarized_generation r = None"
      using 2(4) [of r] by (auto simp: is_uncovered_def)
    have step: "n \<noteq> MAX_SUMMARY_COMPLETIONS_PER_CLAIM" "uuid_ok x (c_completion_id r)" "c_turn_pack r \<noteq> []"
      "length (c_turn_pack r) \<le> MAX_TURN_PACK_BYTES"
      "n = 0 \<or> acc + length (c_turn_pack r) \<le> MAX_SUMMARY_TURN_PACK_BYTES"
      "collect_pending x (Suc n) (acc + length (c_turn_pack r)) rs = Ok ps'"
      "p = \<lparr> p_completion_id = c_completion_id r, p_turn_pack = c_turn_pack r \<rparr>"
      using 2(2) Cons by (auto simp: Let_def and_then_Ok_iff split: if_splits)
    have "load_completions task cs (acc + length (c_turn_pack r)) (map p_completion_id ps') = Ok ps'"
      using step 2(3-5) by (intro 2(1)) auto
    moreover have "acc + length (c_turn_pack r) \<le> MAX_SUMMARY_TURN_PACK_BYTES"
      using step(4,5) 2(5) by (auto simp: MAX_SUMMARY_TURN_PACK_BYTES_def MAX_TURN_PACK_BYTES_def)
    ultimately show ?thesis
      using Cons step r first_completion_unique [OF 2(3) r(1,2)] by (simp add: Let_def)
  qed simp
qed simp

lemma collect_pending_prefix:
  assumes "collect_pending x n acc rs = Ok ps" "n \<le> MAX_SUMMARY_COMPLETIONS_PER_CLAIM"
  shows "map p_completion_id ps = map c_completion_id (take (length ps) rs) \<and>
    n + length ps \<le> MAX_SUMMARY_COMPLETIONS_PER_CLAIM \<and> length ps \<le> length rs"
  using assms
proof (induction x n acc rs arbitrary: ps rule: collect_pending.induct)
  case (2 x n acc r rs)
  show ?case
  proof (cases ps)
    case (Cons p ps')
    have step: "n \<noteq> MAX_SUMMARY_COMPLETIONS_PER_CLAIM"
      "collect_pending x (Suc n) (acc + length (c_turn_pack r)) rs = Ok ps'"
      "p_completion_id p = c_completion_id r"
      "\<not> (\<not> uuid_ok x (c_completion_id r) \<or> c_turn_pack r = [] \<or> length (c_turn_pack r) > MAX_TURN_PACK_BYTES)"
      "\<not> (n \<noteq> 0 \<and> acc + length (c_turn_pack r) > MAX_SUMMARY_TURN_PACK_BYTES)"
      using 2(2) Cons by (auto simp: Let_def and_then_Ok_iff split: if_splits)
    have "map p_completion_id ps' = map c_completion_id (take (length ps') rs) \<and>
        Suc n + length ps' \<le> MAX_SUMMARY_COMPLETIONS_PER_CLAIM \<and> length ps' \<le> length rs"
      using 2(1) [OF step(1) step(4) refl step(5) step(2)] step(1) 2(3) by simp
    with Cons step(3) show ?thesis by simp
  qed (use 2(3) in simp)
qed simp

lemma pending_completions:
  assumes "completions_inv x d" "query_pending_summary_completions x task d = Ok ps"
  shows "load_completions task (db_completions d) 0 (map p_completion_id ps) = Ok ps"
    "distinct (map p_completion_id ps)" "length ps \<le> MAX_SUMMARY_COMPLETIONS_PER_CLAIM"
proof -
  let ?rs = "take (MAX_SUMMARY_COMPLETIONS_PER_CLAIM + 1)
      (sort_key c_observed_at (filter (is_uncovered task) (db_completions d)))"
  have q: "collect_pending x 0 0 ?rs = Ok ps"
    using assms(2) by (simp add: query_pending_summary_completions_def)
  note dist = completions_invD(1) [OF assms(1)]
  show "load_completions task (db_completions d) 0 (map p_completion_id ps) = Ok ps"
    using q dist by (rule collect_pending_load) (auto dest!: in_set_takeD)
  have "distinct (map c_completion_id (sort_key c_observed_at (filter (is_uncovered task) (db_completions d))))"
    using dist by (auto simp: distinct_map intro: inj_on_subset)
  then have "distinct (map c_completion_id (take (length ps) ?rs))"
    by (simp add: take_map [symmetric])
  with collect_pending_prefix [OF q] show "distinct (map p_completion_id ps)"
    "length ps \<le> MAX_SUMMARY_COMPLETIONS_PER_CLAIM" by simp_all
qed

lemma fold_max_ge: "(a :: int) \<le> fold max gs a"
proof (induction gs arbitrary: a)
  case (Cons g gs)
  from Cons [of "max g a"] show ?case by simp
qed simp

lemma fold_max_member: "g \<in> set gs \<Longrightarrow> (g :: int) \<le> fold max gs a"
proof (induction gs arbitrary: a)
  case (Cons h gs)
  with fold_max_ge [of "max h a" gs] show ?case by auto
qed simp

lemma max_generation_ge:
  assumes "s \<in> set ss" "s_task_id s = task"
  shows "s_generation s \<le> max_generation task ss"
proof -
  have "s_generation s \<in> set (map s_generation (filter (\<lambda>s. s_task_id s = task) ss))"
    using assms by simp
  then obtain g gs where g: "map s_generation (filter (\<lambda>s. s_task_id s = task) ss) = g # gs"
      "s_generation s \<in> set (g # gs)"
    by (metis list.exhaust list.set(1) empty_iff)
  then have "s_generation s \<le> fold max gs g"
    using fold_max_ge [of g gs] fold_max_member [of "s_generation s" gs g] by auto
  with g(1) show ?thesis by (simp add: max_generation_def)
qed

lemma query_unread_row:
  assumes "summaries_ok ss" "s \<in> set ss" "is_current_unread s"
  shows "first_row (\<lambda>r. s_task_id r = s_task_id s \<and> is_current_unread r) ss = Some s"
  using assms unread_unique [OF assms(1)]
  by (intro first_row_unique [OF summaries_okD(1)]) auto

lemma query_unread_generation:
  assumes "ledger_inv x d" "query_current_unread task d = Ok u" "generation_option_i64 u = Ok prev"
    "s \<in> set (db_summaries d)" "s_task_id s = task" "is_current_unread s"
  shows "prev = Some (s_generation s)"
proof -
  note old = ledger_invD [OF assms(1)]
  have "first_row (\<lambda>r. s_task_id r = task \<and> is_current_unread r) (db_summaries d) = Some s"
    using query_unread_row [OF old(2) assms(4,6)] assms(5) by simp
  then obtain v where v: "u = Some v" "u_generation v = as_u64 (s_generation s)"
    using assms(2) by (auto simp: query_current_unread_def Let_def split: option.splits if_splits)
  have "0 < s_generation s" "s_generation s \<le> i64_max"
    using summaries_okD(2) [OF old(2) assms(4)] old(3) [OF assms(4)] by (auto simp: summary_checks_def row_inv_def)
  with v assms(3) show ?thesis
    by (auto simp: generation_option_i64_def and_then_Ok_iff to_i64_Ok uint_as_u64)
qed

lemma ledger_inv_insert:
  assumes inv: "ledger_inv x d" and rt: "json_ids_roundtrip x"
    and valid: "validate_summary_request x task request = Ok ()"
    and idle: "\<And>s. s \<in> set (db_summaries d) \<Longrightarrow> s_task_id s = task \<Longrightarrow> \<not> is_active_claim s"
    and u: "query_current_unread task d = Ok u" "generation_option_i64 u = Ok prev"
    and ps: "query_pending_summary_completions x task d = Ok ps" "ps \<noteq> []"
    and g: "g = max_generation task (db_summaries d) + 1" "g \<le> i64_max"
    and n: "n = \<lparr> s_task_id = task, s_generation = g, s_state = Generating,
         s_covers = json_ids x (map p_completion_id ps), s_cache_object = None, s_request_id = Some request,
         s_claim_id = Some request, s_previous_generation = prev, s_superseded_by = None \<rparr>"
    and ok: "summaries_ok (db_summaries d @ [n])"
  shows "ledger_inv x (d\<lparr>db_summaries := db_summaries d @ [n]\<rparr>)"
proof -
  note old = ledger_invD [OF inv]
  have fresh: "s_generation s < g" if "s \<in> set (db_summaries d)" "s_task_id s = task" for s
    using max_generation_ge [OF that] g by simp
  have act: "is_active_claim n" and unpub: "\<not> is_published n" "\<not> is_current_unread n" "s_state n \<noteq> Leased"
    by (simp_all add: n is_active_claim_def is_published_def is_current_unread_def)
  have row: "row_inv x n"
    using valid g(2) unpub by (simp add: n row_inv_def validate_summary_request_def is_published_def split: if_splits)
  have "summary_key n \<notin> lease_key ` set (db_leases d)"
  proof
    assume "summary_key n \<in> lease_key ` set (db_leases d)"
    then obtain l s where "s \<in> set (db_summaries d)" "summary_key s = summary_key n"
      using lease_summary [OF inv] by (metis imageE)
    with fresh show False by (auto simp: n summary_key_def)
  qed
  then have "lease_inv (db_summaries d @ [n]) (db_leases d)"
    using old(4) unpub by (auto simp: lease_inv_def leases_ok_def list_all_iff)
  moreover have "tts_inv (db_summaries d @ [n]) (db_tts_attempts d)"
    using old(5) by (fastforce simp: tts_inv_def tts_ok_def list_all_iff)
  moreover have "cover_inv (db_summaries d @ [n]) (db_completions d)"
    using old(6) unpub by (fastforce simp: cover_inv_def split: option.splits)
  moreover have "claims_inv x (db_summaries d @ [n]) (db_completions d)"
    unfolding claims_inv_def
  proof (intro ballI impI)
    fix s assume s: "s \<in> set (db_summaries d @ [n])" "is_active_claim s"
    show "covers_ok x (db_completions d) s \<and> claim_inv_row (db_summaries d @ [n]) s"
    proof (cases "s = n")
      case True
      have "covers_ok x (db_completions d) n"
        using pending_completions [OF old(1) ps(1)] ps(2) rt
        by (simp add: covers_ok_def n json_ids_roundtrip_def loadable_def)
      moreover have "claim_inv_row (db_summaries d @ [n]) n"
        using fresh query_unread_generation [OF inv u] unpub
        by (auto simp: claim_inv_row_def n intro: less_imp_le)
      ultimately show ?thesis using True by simp
    next
      case False
      then have s': "s \<in> set (db_summaries d)" "s_task_id s \<noteq> task" using s idle by auto
      then have "covers_ok x (db_completions d) s" "claim_inv_row (db_summaries d) s"
        using old(7) s(2) by (auto simp: claims_inv_def)
      with s' show ?thesis by (auto simp: claim_inv_row_def n)
    qed
  qed
  ultimately show ?thesis
    using inv row ok by (simp add: ledger_inv_def completions_inv_def)
qed

lemma claim_summary_ledger_inv [store_inv_intros]:
  assumes inv: "ledger_inv x d" and rt: "json_ids_roundtrip x"
  shows "ledger_inv x (snd (claim_summary x task request d))"
  unfolding claim_summary_def
proof (rule checked_inv [where P = "ledger_inv x", OF inv],
    rule in_txn_inv [where P = "ledger_inv x", OF inv], goal_cases)
  case (1 _ res d')
  show ?case
  proof (cases "first_row (\<lambda>s. s_request_id s = Some request) (db_summaries d)")
    case (Some s)
    have same: "d' = d" if "s_state s \<noteq> Interrupted"
      using 1 Some that by (auto simp: replay_summary_request_def attempt_Commit Let_def
          split: if_splits summary_state.splits)
    show ?thesis
    proof (cases "s_state s = Interrupted")
      case True
      let ?sel = "\<lambda>r. s_request_id r = Some request \<and> s_task_id r = task \<and> s_generation r = s_generation s \<and>
          s_state r = Interrupted \<and> s_claim_id r = Some request"
      have "d' = d\<lparr>db_summaries := update_where ?sel (set_summary_state Generating) (db_summaries d)\<rparr>"
        "summaries_ok (update_where ?sel (set_summary_state Generating) (db_summaries d))"
        using 1 Some True by (auto simp: replay_summary_request_def attempt_Commit write_Ok Let_def split: if_splits)
      then show ?thesis by (auto intro!: ledger_inv_flip [OF inv] simp: is_active_claim_def)
    qed (use same inv in simp)
  next
    case None
    show ?thesis
    proof (cases "first_row (\<lambda>s. s_task_id s = task \<and> is_active_claim s) (db_summaries d)")
      case (Some s)
      with 1 None inv show ?thesis
        by (auto simp: join_active_claim_def attempt_Commit split: option.splits if_splits)
    next
      case idle: None
      from 1 None idle have b: "insert_summary_claim x task request d = Commit res d'" by simp
      show ?thesis
      proof (cases "d' = d")
        case False
        with b obtain u ps g prev where
          "query_current_unread task d = Ok u" "query_pending_summary_completions x task d = Ok ps" "ps \<noteq> []"
          "g = max_generation task (db_summaries d) + 1" "g \<le> i64_max" "generation_option_i64 u = Ok prev"
          and w: "write_summaries (db_summaries d @
                      [\<lparr> s_task_id = task, s_generation = g, s_state = Generating,
                         s_covers = json_ids x (map p_completion_id ps), s_cache_object = None, s_request_id = Some request,
                         s_claim_id = Some request, s_previous_generation = prev,
                         s_superseded_by = None \<rparr>]) d = Ok d'"
          by (auto simp: insert_summary_claim_def attempt_Commit checked_succ_Ok Let_def split: if_splits)
        with 1 idle show ?thesis
          by (auto simp: write_Ok first_row_None intro!: ledger_inv_insert [OF inv rt])
      qed (use inv in simp)
    qed
  qed
qed

section \<open>Publication\<close>

text \<open>The current unread row of a task, and the rows and completions after publishing \<open>s\<close>.\<close>

definition unread_row :: "string \<Rightarrow> summary_row list \<Rightarrow> summary_row option" where
  "unread_row task ss = first_row (\<lambda>r. s_task_id r = task \<and> is_current_unread r) ss"

definition moved :: "string \<Rightarrow> summary_row option \<Rightarrow> completion_row \<Rightarrow> bool" where
  "moved task uo c = (case uo of None \<Rightarrow> False | Some u \<Rightarrow> covered_by task (s_generation u) c)"

definition superseded_rows :: "summary_row option \<Rightarrow> int \<Rightarrow> summary_row list \<Rightarrow> summary_row list" where
  "superseded_rows uo g ss = map (\<lambda>r. if Some r = uo then supersede_row g r else r) ss"

definition published_rows ::
  "summary_row option \<Rightarrow> summary_row \<Rightarrow> string \<Rightarrow> summary_row list \<Rightarrow> summary_row list" where
  "published_rows uo s cache ss =
     map (\<lambda>r. if r = s then publish_row cache r
              else if Some r = uo then supersede_row (s_generation s) r else r) ss"

definition covered_rows ::
  "string \<Rightarrow> summary_row option \<Rightarrow> int \<Rightarrow> string list \<Rightarrow> completion_row list \<Rightarrow> completion_row list" where
  "covered_rows task uo g ids cs =
     map (\<lambda>c. if c_completion_id c \<in> set ids \<or> moved task uo c then cover_row g c else c) cs"

lemma unread_row_Some:
  "unread_row task ss = Some u \<Longrightarrow> u \<in> set ss \<and> s_task_id u = task \<and> is_current_unread u"
  unfolding unread_row_def by (drule first_row_Some) simp

lemma cover_row_simps [simp]:
  "c_completion_id (cover_row g c) = c_completion_id c" "c_task_id (cover_row g c) = c_task_id c"
  "c_turn_pack (cover_row g c) = c_turn_pack c" "c_summarized_generation (cover_row g c) = Some g"
  by (simp_all add: cover_row_def)

lemma cover_completions_effect:
  assumes "cover_completions task g ps d = Ok d'" "distinct (map c_completion_id (db_completions d))"
  shows "d' = d\<lparr>db_completions := map (\<lambda>c. if c_completion_id c \<in> set (map p_completion_id ps)
             then cover_row g c else c) (db_completions d)\<rparr> \<and>
    (\<forall>p \<in> set ps. \<exists>c \<in> set (db_completions d). c_completion_id c = p_completion_id p \<and> c_task_id c = task \<and>
        c_turn_pack c = p_turn_pack p \<and> c_summarized_generation c = None)"
  using assms
proof (induction ps arbitrary: d)
  case (Cons p ps)
  let ?cs = "db_completions d" and ?i = "p_completion_id p"
  define sel where "sel = (\<lambda>c :: completion_row. c_completion_id c = ?i \<and> c_task_id c = task \<and>
            c_turn_pack c = p_turn_pack p \<and> c_summarized_generation c = None)"
  have one: "count_where sel ?cs = 1"
    and rest: "cover_completions task g ps (d\<lparr>db_completions := update_where sel (cover_row g) ?cs\<rparr>) = Ok d'"
    using Cons.prems(1) by (auto simp: and_then_Ok_iff write_Ok Let_def sel_def [symmetric] split: if_splits)
  have dist: "distinct ?cs" using Cons.prems(2) by (auto simp: distinct_map)
  obtain c where c: "c \<in> set ?cs" "sel c" "\<And>r. r \<in> set ?cs \<Longrightarrow> sel r \<Longrightarrow> r = c"
    using count_one_row [OF dist one] by blast
  have iff: "sel r \<longleftrightarrow> c_completion_id r = ?i" if "r \<in> set ?cs" for r
    using distinct_key_eq [OF Cons.prems(2) that c(1)] c(2) by (auto simp: sel_def)
  let ?cs1 = "update_where sel (cover_row g) ?cs"
  have cs1: "?cs1 = map (\<lambda>c. if c_completion_id c = ?i then cover_row g c else c) ?cs"
    using iff by (simp add: update_where_def cong: map_cong)
  have ids: "map c_completion_id ?cs1 = map c_completion_id ?cs"
    by (rule map_update_where) simp
  note ih = Cons.IH [OF rest] 
  have ih': "d' = d\<lparr>db_completions := map (\<lambda>c. if c_completion_id c \<in> set (map p_completion_id ps)
             then cover_row g c else c) ?cs1\<rparr>"
    "\<forall>q \<in> set ps. \<exists>c \<in> set ?cs1. c_completion_id c = p_completion_id q \<and> c_task_id c = task \<and>
        c_turn_pack c = p_turn_pack q \<and> c_summarized_generation c = None"
    using ih ids Cons.prems(2) by simp_all
  have earlier: "r \<in> set ?cs" if "r \<in> set ?cs1" "c_summarized_generation r = None" for r
    using that by (auto simp: cs1 split: if_splits)
  have "map (\<lambda>c. if c_completion_id c \<in> set (map p_completion_id ps) then cover_row g c else c) ?cs1 =
      map (\<lambda>c. if c_completion_id c \<in> set (map p_completion_id (p # ps)) then cover_row g c else c) ?cs"
    unfolding cs1 by (auto simp: cover_row_def)
  moreover have "\<forall>q \<in> set (p # ps). \<exists>c \<in> set ?cs. c_completion_id c = p_completion_id q \<and> c_task_id c = task \<and>
        c_turn_pack c = p_turn_pack q \<and> c_summarized_generation c = None"
    using c(1,2) ih'(2) earlier by (auto simp: sel_def)
  ultimately show ?case using ih'(1) by simp
qed (simp add: map_idI)

lemma supersede_previous_effect:
  assumes inv: "ledger_inv x d" and e: "supersede_previous c g d = Ok (cov, d1)"
  defines "uo \<equiv> unread_row (sc_task_id c) (db_summaries d)"
  shows "d1 = d\<lparr>db_summaries := superseded_rows uo g (db_summaries d),
      db_completions := covered_rows (sc_task_id c) uo g [] (db_completions d)\<rparr>"
    "cov = of_nat (count_where (moved (sc_task_id c) uo) (db_completions d))"
proof -
  note old = ledger_invD [OF inv]
  let ?task = "sc_task_id c" and ?ss = "db_summaries d" and ?cs = "db_completions d"
  have "d1 = d\<lparr>db_summaries := superseded_rows uo g ?ss, db_completions := covered_rows ?task uo g [] ?cs\<rparr> \<and>
    cov = of_nat (count_where (moved ?task uo) ?cs)"
  proof (cases uo)
    case None
    then have q: "query_current_unread ?task d = Ok None"
      by (simp add: query_current_unread_def uo_def unread_row_def)
    have "cov = 0" "d1 = d"
      using e q by (cases "sc_previous_unread c"; auto simp: supersede_previous_def)+
    moreover have "count_where (moved ?task None) ?cs = 0"
      by (simp add: count_where_def moved_def)
    ultimately show ?thesis
      using None by (simp add: superseded_rows_def covered_rows_def moved_def)
  next
    case (Some u)
    have u: "u \<in> set ?ss" "s_task_id u = ?task" "is_current_unread u"
      using unread_row_Some [of ?task ?ss u] Some by (auto simp: uo_def)
    obtain v where v: "sc_previous_unread c = Some v" "query_current_unread ?task d = Ok (Some v)"
      using e Some by (auto simp: supersede_previous_def and_then_Ok_iff query_current_unread_def uo_def
          unread_row_def Let_def split: option.splits if_splits)
    have vg: "u_generation v = as_u64 (s_generation u)"
      using v(2) Some by (auto simp: query_current_unread_def uo_def unread_row_def Let_def
          split: option.splits if_splits)
    have "0 < s_generation u" "s_generation u \<le> i64_max"
      using summaries_okD(2) [OF old(2) u(1)] old(3) [OF u(1)] by (auto simp: summary_checks_def row_inv_def)
    then have conv: "to_i64 (u_generation v) = Ok (s_generation u)"
      by (simp add: vg to_i64_as_u64)
    have sel: "s_task_id r = ?task \<and> s_generation r = s_generation u \<and> is_current_unread r \<longleftrightarrow> Some r = uo"
      if "r \<in> set ?ss" for r
      using unread_unique [OF old(2) that u(1)] u Some by auto
    have upd: "update_where (\<lambda>r. s_task_id r = ?task \<and> s_generation r = s_generation u \<and> is_current_unread r)
        (supersede_row g) ?ss = superseded_rows uo g ?ss"
      unfolding superseded_rows_def update_where_def using sel by (simp cong: map_cong)
    have cov: "update_where (covered_by ?task (s_generation u)) (cover_row g) ?cs = covered_rows ?task uo g [] ?cs"
      by (simp add: covered_rows_def update_where_def moved_def Some)
    show ?thesis
      using e v conv Some
      by (auto simp: supersede_previous_def and_then_Ok_iff write_Ok Let_def upd cov moved_def [abs_def] split: if_splits)
  qed
  then show "d1 = d\<lparr>db_summaries := superseded_rows uo g ?ss, db_completions := covered_rows ?task uo g [] ?cs\<rparr>"
    "cov = of_nat (count_where (moved ?task uo) ?cs)" by simp_all
qed

lemma covered_rows_compose:
  assumes "\<And>c. c \<in> set cs \<Longrightarrow> c_completion_id c \<in> set ids \<Longrightarrow> \<not> moved task uo c"
  shows "map (\<lambda>c. if c_completion_id c \<in> set ids then cover_row g c else c) (covered_rows task uo g [] cs) =
    covered_rows task uo g ids cs"
  unfolding covered_rows_def using assms by (auto simp: cover_row_def)

lemma publish_cases:
  assumes inv: "ledger_inv x d" and e: "publish_summary x c cache d = (res, d')"
  obtains (refused) err where "res = Err err" "d' = d"
  | (published) s uo where
      "validate_summary_claim x c = Ok ()"
      "s \<in> set (db_summaries d)" "s_task_id s = sc_task_id c" "s_generation s = uint (sc_generation c)"
      "s_state s = Generating" "s_claim_id s = Some (sc_request_id c)"
      "cache = reference (row_cache_id x (s_task_id s) (s_generation s))"
      "uo = unread_row (s_task_id s) (db_summaries d)"
      "s_covers s = json_ids x (map p_completion_id (sc_completions c))"
      "generation_option_i64 (sc_previous_unread c) = Ok (s_previous_generation s)"
      "\<And>p. p \<in> set (sc_completions c) \<Longrightarrow> \<exists>r \<in> set (db_completions d). c_completion_id r = p_completion_id p \<and>
         c_task_id r = s_task_id s \<and> c_turn_pack r = p_turn_pack p \<and> c_summarized_generation r = None"
      "summaries_ok (published_rows uo s cache (db_summaries d))"
      "d' = d\<lparr>db_summaries := published_rows uo s cache (db_summaries d),
         db_completions := covered_rows (s_task_id s) uo (s_generation s)
            (map p_completion_id (sc_completions c)) (db_completions d),
         db_tts_attempts := delete_where (has_tts_key (s_task_id s) (s_generation s)) (db_tts_attempts d)\<rparr>"
      "res = Ok \<lparr> u_task_id = sc_task_id c, u_generation = sc_generation c, u_cache_object = cache,
          u_coverage_count = of_nat (count_where (moved (s_task_id s) uo) (db_completions d)) +
            of_nat (length (sc_completions c)) \<rparr>"
proof (cases res)
  case (Inl err)
  with e refused show ?thesis
    by (auto simp: publish_summary_def checked_def in_txn_Pair publish_txn_def attempt_Commit Let_def
        split: sum.splits if_splits option.splits)
next
  case (Inr out)
  note old = ledger_invD [OF inv]
  let ?task = "sc_task_id c" and ?g = "uint (sc_generation c)" and ?ids = "map p_completion_id (sc_completions c)"
  define sel where "sel = (\<lambda>s :: summary_row. s_task_id s = ?task \<and> s_generation s = ?g \<and>
             s_state s = Generating \<and> s_claim_id s = Some (sc_request_id c))"
  have valid: "validate_summary_claim x c = Ok ()"
    and cache: "cache = reference (row_cache_id x ?task ?g)"
    and body: "publish_txn x c cache d = Commit res d' \<or> publish_txn x c cache d = Rollback res"
    using e Inr
    by (auto simp: publish_summary_def checked_def in_txn_Pair for_task_def row_cache_id_def map_err_def
        split: sum.splits if_splits)
  obtain s cov d1 d2 where s0: "first_row sel (db_summaries d) = Some s"
    and gen: "to_i64 (sc_generation c) = Ok ?g"
    and prev: "generation_option_i64 (sc_previous_unread c) = Ok (s_previous_generation s)"
    and covers: "s_covers s = json_ids x ?ids"
    and sup: "supersede_previous c ?g d = Ok (cov, d1)"
    and cc: "cover_completions ?task ?g (sc_completions c) d1 = Ok d2"
    and ok: "summaries_ok (update_where sel (publish_row cache) (db_summaries d2))"
    and d': "d' = d2\<lparr>db_summaries := update_where sel (publish_row cache) (db_summaries d2),
        db_tts_attempts := delete_where (has_tts_key ?task ?g) (db_tts_attempts d2)\<rparr>"
    and add: "u32_checked_add InvalidSummaryState cov (of_nat (length (sc_completions c))) = Ok (u_coverage_count out)"
    and out: "u_task_id out = ?task" "u_generation out = sc_generation c" "u_cache_object out = cache"
    using body Inr
    by (auto simp: publish_txn_def attempt_Commit attempt_Rollback to_i64_Ok write_Ok Let_def sel_def [symmetric]
        split: option.splits if_splits prod.splits)
  note s = first_row_Some [OF s0]
  define uo where "uo = unread_row ?task (db_summaries d)"
  note eff = supersede_previous_effect [OF inv sup, folded uo_def]
  have sg: "s_task_id s = ?task" "s_generation s = ?g" "s_state s = Generating"
      "s_claim_id s = Some (sc_request_id c)" using s by (simp_all add: sel_def)
  have notu: "Some s \<noteq> uo"
    using sg(3) unread_row_Some [of ?task "db_summaries d" s] by (auto simp: uo_def is_current_unread_def)
  have ids1: "map c_completion_id (db_completions d1) = map c_completion_id (db_completions d)"
    by (simp add: eff(1) covered_rows_def)
  have cce: "d2 = d1\<lparr>db_completions := map (\<lambda>c. if c_completion_id c \<in> set ?ids then cover_row ?g c else c)
        (db_completions d1)\<rparr>"
    and found: "\<forall>p \<in> set (sc_completions c). \<exists>r \<in> set (db_completions d1). c_completion_id r = p_completion_id p \<and>
        c_task_id r = ?task \<and> c_turn_pack r = p_turn_pack p \<and> c_summarized_generation r = None"
    using cover_completions_effect [OF cc] ids1 completions_invD(1) [OF old(1)] by auto
  have found': "\<exists>r \<in> set (db_completions d). c_completion_id r = p_completion_id p \<and>
        c_task_id r = ?task \<and> c_turn_pack r = p_turn_pack p \<and> c_summarized_generation r = None"
    if "p \<in> set (sc_completions c)" for p
    using found that by (fastforce simp: eff(1) covered_rows_def split: if_splits)
  have nomove: "\<not> moved ?task uo r" if r: "r \<in> set (db_completions d)" "c_completion_id r \<in> set ?ids" for r
  proof -
    obtain p where "p \<in> set (sc_completions c)" "c_completion_id r = p_completion_id p" using r(2) by auto
    then obtain r' where "r' \<in> set (db_completions d)" "c_completion_id r' = c_completion_id r"
        "c_summarized_generation r' = None" using found' by metis
    then have "c_summarized_generation r = None"
      using distinct_key_eq [OF completions_invD(1) [OF old(1)] r(1)] by metis
    then show ?thesis by (auto simp: moved_def covered_by_def split: option.splits)
  qed
  have rows: "update_where sel (publish_row cache) (superseded_rows uo ?g (db_summaries d)) =
      published_rows uo s cache (db_summaries d)"
    unfolding superseded_rows_def published_rows_def update_where_def map_map
  proof (rule map_cong [OF refl])
    fix r assume r: "r \<in> set (db_summaries d)"
    have "sel r \<longleftrightarrow> r = s"
      using key_unique [OF old(2) r] s sg by (auto simp: sel_def)
    moreover have "\<not> sel (supersede_row ?g r)" if "Some r = uo"
    proof -
      have "is_current_unread r" using that unread_row_Some [of ?task "db_summaries d" r] by (simp add: uo_def)
      then show ?thesis by (auto simp: sel_def supersede_row_def is_current_unread_def)
    qed
    ultimately show "((\<lambda>r. if sel r then publish_row cache r else r) \<circ> (\<lambda>r. if Some r = uo then supersede_row ?g r else r)) r =
        (if r = s then publish_row cache r else if Some r = uo then supersede_row (s_generation s) r else r)"
      using notu sg(2) by auto
  qed
  show ?thesis
  proof (rule published [of s uo])
    show "d' = d\<lparr>db_summaries := published_rows uo s cache (db_summaries d),
         db_completions := covered_rows (s_task_id s) uo (s_generation s) ?ids (db_completions d),
         db_tts_attempts := delete_where (has_tts_key (s_task_id s) (s_generation s)) (db_tts_attempts d)\<rparr>"
      using d' cce eff(1) rows covered_rows_compose [of "db_completions d" ?ids ?task uo ?g] nomove sg by simp
    show "res = Ok \<lparr> u_task_id = ?task, u_generation = sc_generation c, u_cache_object = cache,
          u_coverage_count = of_nat (count_where (moved (s_task_id s) uo) (db_completions d)) +
            of_nat (length (sc_completions c)) \<rparr>"
      using Inr out add eff(2) sg by (auto simp: u32_checked_add_def split: if_splits)
    show "summaries_ok (published_rows uo s cache (db_summaries d))"
      using ok cce eff(1) rows by simp
  qed (use valid s sg cache covers prev found' in \<open>simp_all add: uo_def\<close>)
qed

text \<open>The situation of a successful publication of the claimed row \<open>s\<close>, whose completions have
  the ids \<open>ids\<close>, over the current unread row \<open>uo\<close>.\<close>

definition publication ::
  "externals \<Rightarrow> db \<Rightarrow> summary_row \<Rightarrow> summary_row option \<Rightarrow> string \<Rightarrow> string list \<Rightarrow> bool" where
  "publication x d s uo cache ids \<longleftrightarrow>
     ledger_inv x d \<and> s \<in> set (db_summaries d) \<and> s_state s = Generating \<and>
     cache = reference (row_cache_id x (s_task_id s) (s_generation s)) \<and>
     uo = unread_row (s_task_id s) (db_summaries d) \<and> ids \<noteq> [] \<and>
     (\<forall>i \<in> set ids. \<exists>c \<in> set (db_completions d). c_completion_id c = i \<and> c_task_id c = s_task_id s)"

definition publish_map :: "summary_row option \<Rightarrow> summary_row \<Rightarrow> string \<Rightarrow> summary_row \<Rightarrow> summary_row" where
  "publish_map uo s cache r =
     (if r = s then publish_row cache r else if Some r = uo then supersede_row (s_generation s) r else r)"

definition cover_map ::
  "string \<Rightarrow> summary_row option \<Rightarrow> int \<Rightarrow> string list \<Rightarrow> completion_row \<Rightarrow> completion_row" where
  "cover_map task uo g ids c = (if c_completion_id c \<in> set ids \<or> moved task uo c then cover_row g c else c)"

lemma publish_maps:
  "published_rows uo s cache ss = map (publish_map uo s cache) ss"
  "covered_rows task uo g ids cs = map (cover_map task uo g ids) cs"
  by (simp_all add: published_rows_def covered_rows_def publish_map_def [abs_def] cover_map_def [abs_def])

lemma publicationD:
  assumes "publication x d s uo cache ids"
  shows "ledger_inv x d" "s \<in> set (db_summaries d)" "s_state s = Generating"
    "\<And>u. Some u = uo \<Longrightarrow> u \<in> set (db_summaries d) \<and> s_task_id u = s_task_id s \<and> is_current_unread u"
    "\<And>u. u \<in> set (db_summaries d) \<Longrightarrow> s_task_id u = s_task_id s \<Longrightarrow> is_current_unread u \<Longrightarrow> Some u = uo"
    "ids \<noteq> []"
    "\<And>c. c \<in> set (db_completions d) \<Longrightarrow> c_completion_id c \<in> set ids \<Longrightarrow> c_task_id c = s_task_id s"
    "\<And>i. i \<in> set ids \<Longrightarrow> \<exists>c \<in> set (db_completions d). c_completion_id c = i \<and> c_task_id c = s_task_id s"
proof -
  show inv: "ledger_inv x d" "s \<in> set (db_summaries d)" "s_state s = Generating" "ids \<noteq> []"
    "\<And>i. i \<in> set ids \<Longrightarrow> \<exists>c \<in> set (db_completions d). c_completion_id c = i \<and> c_task_id c = s_task_id s"
    using assms by (auto simp: publication_def)
  show "u \<in> set (db_summaries d) \<and> s_task_id u = s_task_id s \<and> is_current_unread u" if "Some u = uo" for u
    using that assms unread_row_Some by (metis publication_def)
  show "Some u = uo" if "u \<in> set (db_summaries d)" "s_task_id u = s_task_id s" "is_current_unread u" for u
    using query_unread_row [OF ledger_invD(2) [OF inv(1)] that(1,3)] that(2) assms
    by (simp add: unread_row_def publication_def)
  show "c_task_id c = s_task_id s" if "c \<in> set (db_completions d)" "c_completion_id c \<in> set ids" for c
    using inv(5) [OF that(2)] distinct_key_eq [OF completions_invD(1) [OF ledger_invD(1) [OF inv(1)]] that(1)]
    by metis
qed

lemma published_row_facts:
  assumes "publication x d s uo cache ids"
  shows "row_inv x (publish_row cache s)" "is_live (publish_row cache s)"
    "is_current_unread (publish_row cache s)" "\<not> is_active_claim (publish_row cache s)"
    "summary_key (publish_row cache s) = summary_key s"
  using ledger_invD(3) [OF publicationD(1,2) [OF assms]] assms
  by (simp_all add: publication_def row_inv_def publish_row_def is_live_def is_current_unread_def
      is_active_claim_def is_published_def summary_key_def)

lemma superseded_row_facts:
  assumes "publication x d s uo cache ids" "Some u = uo"
  shows "row_inv x (supersede_row g u)" "\<not> is_current_unread (supersede_row g u)"
    "\<not> is_active_claim (supersede_row g u)" "summary_key (supersede_row g u) = summary_key u"
    "s_state (supersede_row g u) = Leased \<longleftrightarrow> s_state u = Leased"
  using ledger_invD(3) [OF publicationD(1) [OF assms(1)], of u] publicationD(4) [OF assms]
  by (auto simp: row_inv_def supersede_row_def is_current_unread_def is_active_claim_def
      is_published_def summary_key_def)

lemma publish_map_key:
  assumes "publication x d s uo cache ids"
  shows "summary_key (publish_map uo s cache r) = summary_key r"
  using published_row_facts(5) [OF assms] superseded_row_facts(4) [OF assms] by (auto simp: publish_map_def)

lemma cover_map_checks: "completion_checks x (cover_map task uo g ids c) \<longleftrightarrow> completion_checks x c"
  by (simp add: cover_map_def completion_checks_def)

lemma completions_inv_replace:
  "completions_inv x d \<Longrightarrow> map c_completion_id cs = map c_completion_id (db_completions d) \<Longrightarrow>
   list_all (completion_checks x) cs \<Longrightarrow> completions_inv x (d\<lparr>db_completions := cs\<rparr>)"
  by (simp add: completions_inv_def completions_ok_def)

lemma publish_map_same:
  assumes "publication x d s uo cache ids" "s_task_id r \<noteq> s_task_id s"
  shows "publish_map uo s cache r = r"
  using assms(2) publicationD(4) [OF assms(1)] by (auto simp: publish_map_def)

lemma cover_map_same:
  assumes "publication x d s uo cache ids" "c \<in> set (db_completions d)" "c_task_id c \<noteq> s_task_id s"
  shows "cover_map (s_task_id s) uo g ids c = c"
  using assms publicationD(7) [OF assms(1,2)]
  by (auto simp: cover_map_def moved_def covered_by_def split: option.splits)

lemma load_completions_cong:
  assumes "\<And>i. first_row (\<lambda>c. c_completion_id c = i \<and> c_task_id c = task) cs' =
      first_row (\<lambda>c. c_completion_id c = i \<and> c_task_id c = task) cs"
  shows "load_completions task cs' acc ids = load_completions task cs acc ids"
  by (induction ids arbitrary: acc) (simp_all add: assms Let_def split: option.splits)

lemma first_row_map_other:
  assumes "\<And>c. c \<in> set cs \<Longrightarrow> q c \<Longrightarrow> F c = c" "\<And>c. c \<in> set cs \<Longrightarrow> q (F c) \<longleftrightarrow> q c"
  shows "first_row q (map F cs) = first_row q cs"
  using assms by (induction cs) (auto simp: first_row_def)

text \<open>Every covered completion has its live summary after a publication: those of the replaced
  summary move to the new one.\<close>

lemma publish_cover_rows:
  assumes pub: "publication x d s uo cache ids" and r: "r \<in> set (db_completions d)"
    and k: "c_summarized_generation (cover_map (s_task_id s) uo (s_generation s) ids r) = Some h"
  shows "\<exists>v \<in> publish_map uo s cache ` set (db_summaries d). summary_key v = (c_task_id r, h) \<and> is_live v"
proof (cases "c_completion_id r \<in> set ids \<or> moved (s_task_id s) uo r")
  case True
  then have "c_task_id r = s_task_id s"
    using publicationD(7) [OF pub r] by (auto simp: moved_def covered_by_def split: option.splits)
  moreover have "h = s_generation s" using True k by (simp add: cover_map_def)
  moreover have "publish_row cache s \<in> publish_map uo s cache ` set (db_summaries d)"
    using publicationD(2) [OF pub] by (auto simp: publish_map_def intro!: image_eqI [of _ _ s])
  ultimately show ?thesis
    using published_row_facts(2,5) [OF pub] by (auto simp: summary_key_def)
next
  case False
  then have "c_summarized_generation r = Some h" using k by (simp add: cover_map_def)
  then obtain v where v: "v \<in> set (db_summaries d)" "summary_key v = (c_task_id r, h)" "is_live v"
    using cover_invD(1) [OF ledger_invD(6) [OF publicationD(1) [OF pub]] r] by blast
  have "v \<noteq> s" using v(3) publicationD(3) [OF pub] by (auto simp: is_live_def)
  moreover have "Some v \<noteq> uo"
    using False v(2) \<open>c_summarized_generation r = Some h\<close> publicationD(4) [OF pub, of v]
    by (auto simp: moved_def covered_by_def summary_key_def split: option.splits)
  ultimately have "publish_map uo s cache v = v" by (simp add: publish_map_def)
  with v show ?thesis by (metis imageI)
qed

lemma publish_cover_unread:
  assumes pub: "publication x d s uo cache ids" and r: "r \<in> set (db_summaries d)"
    and k: "is_current_unread (publish_map uo s cache r)"
  shows "\<exists>c \<in> cover_map (s_task_id s) uo (s_generation s) ids ` set (db_completions d).
      covered_by (s_task_id r) (s_generation r) c"
proof (cases "r = s")
  case True
  obtain i where i: "i \<in> set ids" using publicationD(6) [OF pub] by (cases ids) auto
  then obtain q where q: "q \<in> set (db_completions d)" "c_completion_id q = i" "c_task_id q = s_task_id s"
    using publicationD(8) [OF pub] by blast
  then have "cover_map (s_task_id s) uo (s_generation s) ids q = cover_row (s_generation s) q"
    using i by (simp add: cover_map_def)
  with q True show ?thesis by (force simp: covered_by_def)
next
  case False
  have "Some r \<noteq> uo" using k superseded_row_facts(2) [OF pub] False by (auto simp: publish_map_def)
  then have cur: "is_current_unread r" using False k by (simp add: publish_map_def)
  then have t: "s_task_id r \<noteq> s_task_id s" using publicationD(5) [OF pub r] \<open>Some r \<noteq> uo\<close> by blast
  obtain q where q: "q \<in> set (db_completions d)" "covered_by (s_task_id r) (s_generation r) q"
    using cover_invD(2) [OF ledger_invD(6) [OF publicationD(1) [OF pub]] r cur] by blast
  moreover have "cover_map (s_task_id s) uo (s_generation s) ids q = q"
    using cover_map_same [OF pub q(1)] q(2) t by (simp add: covered_by_def)
  ultimately show ?thesis by (metis imageI)
qed

text \<open>Active claims of other tasks are not affected.\<close>

lemma publish_claims:
  assumes pub: "publication x d s uo cache ids"
  shows "claims_inv x (map (publish_map uo s cache) (db_summaries d))
    (map (cover_map (s_task_id s) uo (s_generation s) ids) (db_completions d))"
  unfolding claims_inv_def
proof (intro ballI impI)
  let ?F = "publish_map uo s cache" and ?G = "cover_map (s_task_id s) uo (s_generation s) ids"
  note old = ledger_invD [OF publicationD(1) [OF pub]]
  fix k assume k: "k \<in> set (map ?F (db_summaries d))" "is_active_claim k"
  then obtain r where r: "r \<in> set (db_summaries d)" "k = ?F r" by auto
  have ne: "r \<noteq> s" "Some r \<noteq> uo"
    using k(2) r published_row_facts(4) [OF pub] superseded_row_facts(3) [OF pub, of r]
    by (auto simp: publish_map_def split: if_splits)
  then have kr: "k = r" using r by (simp add: publish_map_def)
  have t: "s_task_id r \<noteq> s_task_id s"
    using active_unique [OF old(2) r(1) publicationD(2) [OF pub]] publicationD(3) [OF pub] k(2) kr ne(1)
    by (auto simp: is_active_claim_def)
  have o: "covers_ok x (db_completions d) r" "claim_inv_row (db_summaries d) r"
    using old(7) r(1) k(2) kr by (auto simp: claims_inv_def)
  have "load_completions (s_task_id r) (map ?G (db_completions d)) 0 js =
      load_completions (s_task_id r) (db_completions d) 0 js" for js
    using cover_map_same [OF pub] t
    by (intro load_completions_cong first_row_map_other) (auto simp: cover_map_def)
  then have "covers_ok x (map ?G (db_completions d)) r"
    using o(1) by (auto simp: covers_ok_def loadable_def split: option.splits)
  moreover have "claim_inv_row (map ?F (db_summaries d)) r"
    unfolding claim_inv_row_def
  proof (intro ballI impI)
    fix v assume v: "v \<in> set (map ?F (db_summaries d))" "s_task_id v = s_task_id r"
    then obtain w where w: "w \<in> set (db_summaries d)" "v = ?F w" by auto
    have "s_task_id w = s_task_id r"
      using v(2) w publish_map_key [OF pub, of w] by (simp add: summary_key_def)
    then have "v = w" using w(2) t publish_map_same [OF pub] by simp
    with w(1) v(2) o(2) show "s_generation v \<le> s_generation r \<and>
        (is_current_unread v \<longrightarrow> s_previous_generation r = Some (s_generation v))"
      by (simp add: claim_inv_row_def)
  qed
  ultimately show "covers_ok x (map ?G (db_completions d)) k \<and> claim_inv_row (map ?F (db_summaries d)) k"
    using kr by simp
qed

lemma publish_side_tables:
  assumes pub: "publication x d s uo cache ids"
  shows "lease_inv (map (publish_map uo s cache) (db_summaries d)) (db_leases d)"
    "tts_inv (map (publish_map uo s cache) (db_summaries d))
       (delete_where (has_tts_key (s_task_id s) (s_generation s)) (db_tts_attempts d))"
proof -
  let ?F = "publish_map uo s cache"
  note old = ledger_invD [OF publicationD(1) [OF pub]]
  have keys: "map summary_key (map ?F (db_summaries d)) = map summary_key (db_summaries d)"
    using publish_map_key [OF pub] by simp
  show "lease_inv (map ?F (db_summaries d)) (db_leases d)"
    using old(4) publicationD(3) [OF pub] superseded_row_facts(5) [OF pub] keys
    by (intro lease_inv_map) (auto simp: publish_map_def publish_row_def)
  let ?ts = "delete_where (has_tts_key (s_task_id s) (s_generation s)) (db_tts_attempts d)"
  have "tts_ok (db_summaries d) ?ts"
    using old(5) by (auto simp: tts_inv_def tts_ok_def delete_where_def list_all_iff distinct_map_filter)
  then show "tts_inv (map ?F (db_summaries d)) ?ts"
  proof (rule tts_inv_map [OF old(5) keys, rotated])
    fix r assume r: "r \<in> set (db_summaries d)" "is_active_claim r" "summary_key r \<in> tts_key ` set ?ts"
    then have "r \<noteq> s" by (auto simp: delete_where_def has_tts_key_def tts_key_def summary_key_def)
    moreover have "Some r \<noteq> uo"
      using publicationD(4) [OF pub, of r] r(2) by (auto simp: is_active_claim_def is_current_unread_def)
    ultimately show "is_active_claim (?F r)" using r(2) by (simp add: publish_map_def)
  qed (auto simp: delete_where_def)
qed

lemma publish_ledger_inv [store_inv_intros]:
  assumes inv: "ledger_inv x d"
  shows "ledger_inv x (snd (publish_summary x c cache d))"
proof -
  obtain res d' where e: "publish_summary x c cache d = (res, d')" by fastforce
  note old = ledger_invD [OF inv]
  from inv e show ?thesis
  proof (cases rule: publish_cases)
    case refused
    with e inv show ?thesis by simp
  next
    case (published s uo)
    let ?ids = "map p_completion_id (sc_completions c)"
    let ?F = "publish_map uo s cache" and ?G = "cover_map (s_task_id s) uo (s_generation s) ?ids"
    have "?ids \<noteq> []"
      using published(1) by (auto simp: validate_summary_claim_def and_then_Ok_iff split: if_splits)
    then have pub: "publication x d s uo cache ?ids"
      using inv published(2,5,7,8,11) unfolding publication_def by fastforce
    have "map c_completion_id (map ?G (db_completions d)) = map c_completion_id (db_completions d)"
      by (simp add: cover_map_def)
    moreover have "list_all (completion_checks x) (map ?G (db_completions d))"
      using completions_invD(2) [OF old(1)] by (simp add: list_all_iff cover_map_checks)
    ultimately have "completions_inv x (d\<lparr>db_completions := map ?G (db_completions d)\<rparr>)"
      using old(1) by (intro completions_inv_replace)
    moreover have "list_all (row_inv x) (map ?F (db_summaries d))"
      using old(3) published_row_facts(1) [OF pub] superseded_row_facts(1) [OF pub]
      by (auto simp: list_all_iff publish_map_def)
    moreover have "cover_inv (map ?F (db_summaries d)) (map ?G (db_completions d))"
      unfolding cover_inv_def
    proof (intro conjI ballI impI)
      fix k assume "k \<in> set (map ?G (db_completions d))"
      then obtain r where r: "r \<in> set (db_completions d)" "k = ?G r" by auto
      have "c_task_id k = c_task_id r" using r(2) by (simp add: cover_map_def)
      then show "case c_summarized_generation k of None \<Rightarrow> True
          | Some g \<Rightarrow> \<exists>s \<in> set (map ?F (db_summaries d)). summary_key s = (c_task_id k, g) \<and> is_live s"
        using publish_cover_rows [OF pub r(1)] r(2) by (simp split: option.splits)
    next
      fix k assume "k \<in> set (map ?F (db_summaries d))" "is_current_unread k"
      then show "\<exists>c \<in> set (map ?G (db_completions d)). covered_by (s_task_id k) (s_generation k) c"
        using publish_cover_unread [OF pub] publish_map_key [OF pub] by (fastforce simp: summary_key_def)
    qed
    ultimately have "ledger_inv x d'"
      using published(12,13) publish_claims [OF pub] publish_side_tables [OF pub]
      by (simp add: ledger_inv_def completions_inv_def publish_maps)
    with e show ?thesis by simp
  qed
qed

end
