(* ===== verification/Store_Machine.thy ===== *)
theory Store_Machine
  imports Store_Jobs Store_Ledger
begin

text \<open>
  The state database of \<open>app/host/src/store.rs\<close> as a state machine: one step per store
  operation, plus the recovery that \<open>StateStore::open\<close> runs. An interface, a predicate that
  every operation keeps, is stated as a locale and interpreted for the queue, the bindings and
  the ledger; a second one, a reflexive and transitive relation that every operation respects,
  gives the facts about what can still happen to a stored row.
\<close>

section \<open>Opening the store\<close>

definition open_store :: "db \<Rightarrow> (store_error + nat \<times> nat) \<times> db" where
  "open_store d =
     (case recover_interrupted_jobs d of
        (Inl e, d1) \<Rightarrow> (Err e, d1)
      | (Inr recovered_jobs, d1) \<Rightarrow>
          (case recover_interrupted_summaries d1 of
             (Inl e, d2) \<Rightarrow> (Err e, d2)
           | (Inr recovered_summaries, d2) \<Rightarrow>
               (case recover_interrupted_playback_leases d2 of
                  (Inl e, d3) \<Rightarrow> (Err e, d3)
                | (Inr _, d3) \<Rightarrow> (Ok (recovered_jobs, recovered_summaries), d3))))"

lemma open_store_inv:
  assumes "P d" "\<And>d. P d \<Longrightarrow> P (snd (recover_interrupted_jobs d))"
    "\<And>d. P d \<Longrightarrow> P (snd (recover_interrupted_summaries d))"
    "\<And>d. P d \<Longrightarrow> P (snd (recover_interrupted_playback_leases d))"
  shows "P (snd (open_store d))"
proof -
  obtain r1 d1 r2 d2 r3 d3 where e: "recover_interrupted_jobs d = (r1, d1)"
      "recover_interrupted_summaries d1 = (r2, d2)" "recover_interrupted_playback_leases d2 = (r3, d3)"
    by (meson surj_pair)
  then have "P d1" "P d2" "P d3" using assms by (metis snd_conv)+
  with e show ?thesis by (auto simp: open_store_def split: sum.splits)
qed

section \<open>Steps\<close>

inductive store_step :: "externals \<Rightarrow> db \<Rightarrow> db \<Rightarrow> bool" for x where
  open_step: "store_step x d (snd (open_store d))"
| enqueue_step: "store_step x d (snd (enqueue j d))"
| claim_step: "store_step x d (snd (claim_next_runnable d))"
| completed_step: "store_step x d (snd (mark_completed request g d))"
| failed_step: "store_step x d (snd (mark_failed request g failure d))"
| binding_step: "store_step x d (snd (set_binding slot expected task d))"
| completion_step: "store_step x d (snd (commit_rollout_completion_on x now b cur nxt cid pack d))"
| claim_summary_step: "store_step x d (snd (claim_summary x task request d))"
| abandon_step: "store_step x d (snd (abandon_summary_claim x c d))"
| abandon_interrupted_step: "store_step x d (snd (abandon_interrupted_summary_for_task x task d))"
| begin_tts_step: "store_step x d (snd (begin_summary_tts_attempt x c d))"
| ambiguous_tts_step: "store_step x d (snd (mark_summary_tts_ambiguous x c d))"
| resume_step: "store_step x d (snd (resume_interrupted_summary x task d))"
| publish_step: "store_step x d (snd (publish_summary x c cache d))"
| acquire_step: "store_step x d (snd (acquire_summary_playback slot rg cg lease d))"
| cancel_step: "store_step x d (snd (cancel_summary_playback x l d))"
| finish_step: "store_step x d (snd (finish_summary_playback x l d))"

inductive store_steps :: "externals \<Rightarrow> db \<Rightarrow> db \<Rightarrow> bool" for x where
  steps_refl: "store_steps x d d"
| steps_step: "store_steps x d e \<Longrightarrow> store_step x e f \<Longrightarrow> store_steps x d f"

definition store_reachable :: "externals \<Rightarrow> db \<Rightarrow> bool" where
  "store_reachable x d \<longleftrightarrow> store_steps x empty_db d"

section \<open>Frames\<close>

text \<open>Which tables an operation leaves alone.\<close>

definition job_part :: "db \<Rightarrow> job_row list \<times> int" where
  "job_part d = (db_jobs d, db_job_sequence d)"

definition ledger_part ::
  "db \<Rightarrow> completion_row list \<times> cursor_row list \<times> summary_row list \<times> tts_row list \<times> lease_row list" where
  "ledger_part d = (db_completions d, db_cursors d, db_summaries d, db_tts_attempts d, db_leases d)"

lemma jobs_inv_frame: "job_part d' = job_part d \<Longrightarrow> jobs_inv d \<Longrightarrow> jobs_inv d'"
  by (simp add: job_part_def jobs_inv_alt job_ranges_def)

lemma bindings_inv_frame: "db_bindings d' = db_bindings d \<Longrightarrow> bindings_inv d \<Longrightarrow> bindings_inv d'"
  by (simp add: bindings_inv_def)

lemma ledger_inv_frame: "ledger_part d' = ledger_part d \<Longrightarrow> ledger_inv x d \<Longrightarrow> ledger_inv x d'"
  by (simp add: ledger_part_def ledger_inv_def completions_inv_def)

lemma jobs_evolve_frame: "job_part d' = job_part d \<Longrightarrow> jobs_evolve d d'"
  by (simp add: job_part_def jobs_evolve_same)

lemma in_txn_frame:
  assumes "\<And>r d'. body d = Commit r d' \<Longrightarrow> f d' = f d"
  shows "f (snd (in_txn body d)) = f d"
  using assms by (cases "body d") auto

lemma checked_frame:
  assumes "\<And>y. r = Inr y \<Longrightarrow> f (snd (k y d)) = f d"
  shows "f (snd (checked r k d)) = f d"
  using assms by (cases r) auto

lemma enqueue_frame:
  "db_bindings (snd (enqueue j d)) = db_bindings d" "ledger_part (snd (enqueue j d)) = ledger_part d"
proof -
  obtain res d' where e: "enqueue j d = (res, d')" by fastforce
  then have "db_bindings d' = db_bindings d \<and> ledger_part d' = ledger_part d"
    by (cases rule: enqueue_cases) (simp_all add: ledger_part_def)
  with e show "db_bindings (snd (enqueue j d)) = db_bindings d"
    "ledger_part (snd (enqueue j d)) = ledger_part d" by simp_all
qed

lemma claim_frame:
  "db_bindings (snd (claim_next_runnable d)) = db_bindings d"
  "ledger_part (snd (claim_next_runnable d)) = ledger_part d"
  unfolding claim_next_runnable_def
  by (rule in_txn_frame; auto simp: claim_next_runnable_txn_def attempt_Commit write_Ok ledger_part_def Let_def
      split: if_splits option.splits)+

lemma ack_frame:
  "db_bindings (snd (mark_completed request g d)) = db_bindings d"
  "ledger_part (snd (mark_completed request g d)) = ledger_part d"
  "db_bindings (snd (mark_failed request g failure d)) = db_bindings d"
  "ledger_part (snd (mark_failed request g failure d)) = ledger_part d"
  unfolding mark_completed_def mark_failed_def
  by (rule in_txn_frame; auto simp: attempt_Commit write_Ok ledger_part_def Let_def)+

lemma recover_frame:
  "db_bindings (snd (recover_interrupted_jobs d)) = db_bindings d"
  "ledger_part (snd (recover_interrupted_jobs d)) = ledger_part d"
  "db_bindings (snd (recover_interrupted_summaries d)) = db_bindings d"
  "job_part (snd (recover_interrupted_summaries d)) = job_part d"
  "db_bindings (snd (recover_interrupted_playback_leases d)) = db_bindings d"
  "job_part (snd (recover_interrupted_playback_leases d)) = job_part d"
  unfolding recover_interrupted_jobs_def recover_interrupted_summaries_def
    recover_interrupted_playback_leases_def
  by (rule in_txn_frame; auto simp: attempt_Commit write_Ok ledger_part_def job_part_def Let_def)+

lemma set_binding_frame:
  "job_part (snd (set_binding slot expected task d)) = job_part d"
  "ledger_part (snd (set_binding slot expected task d)) = ledger_part d"
  unfolding set_binding_def
  by (rule checked_frame; rule in_txn_frame;
      auto simp: attempt_Commit write_Ok ledger_part_def job_part_def Let_def split: if_splits)+

lemma completion_frame:
  "job_part (snd (commit_rollout_completion_on x now b cur nxt cid pack d)) = job_part d"
  "db_bindings (snd (commit_rollout_completion_on x now b cur nxt cid pack d)) = db_bindings d"
proof -
  obtain res d' where e: "commit_rollout_completion_on x now b cur nxt cid pack d = (res, d')" by fastforce
  then have "job_part d' = job_part d \<and> db_bindings d' = db_bindings d"
  proof (cases rule: commit_completion_cases)
    case (committed outcome row)
    have "job_part d' = job_part d" by (subst committed(8)) (simp add: job_part_def)
    moreover have "db_bindings d' = db_bindings d" by (subst committed(8)) simp
    ultimately show ?thesis ..
  qed simp
  with e show "job_part (snd (commit_rollout_completion_on x now b cur nxt cid pack d)) = job_part d"
    "db_bindings (snd (commit_rollout_completion_on x now b cur nxt cid pack d)) = db_bindings d" by simp_all
qed

lemma claim_summary_frame:
  "job_part (snd (claim_summary x task request d)) = job_part d"
  "db_bindings (snd (claim_summary x task request d)) = db_bindings d"
  unfolding claim_summary_def
  by (rule checked_frame; rule in_txn_frame;
      auto simp: attempt_Commit write_Ok job_part_def Let_def replay_summary_request_def
        join_active_claim_def insert_summary_claim_def
      split: if_splits option.splits summary_state.splits)+

lemma summary_claim_frame:
  "job_part (snd (abandon_summary_claim x c d)) = job_part d"
  "db_bindings (snd (abandon_summary_claim x c d)) = db_bindings d"
  "job_part (snd (abandon_interrupted_summary_for_task x task d)) = job_part d"
  "db_bindings (snd (abandon_interrupted_summary_for_task x task d)) = db_bindings d"
  "job_part (snd (resume_interrupted_summary x task d)) = job_part d"
  "db_bindings (snd (resume_interrupted_summary x task d)) = db_bindings d"
  unfolding abandon_summary_claim_def abandon_interrupted_summary_for_task_def resume_interrupted_summary_def
  by (rule checked_frame; rule in_txn_frame;
      auto simp: attempt_Commit write_Ok job_part_def Let_def split: if_splits option.splits)+

lemma tts_frame:
  "job_part (snd (begin_summary_tts_attempt x c d)) = job_part d"
  "db_bindings (snd (begin_summary_tts_attempt x c d)) = db_bindings d"
  "job_part (snd (mark_summary_tts_ambiguous x c d)) = job_part d"
  "db_bindings (snd (mark_summary_tts_ambiguous x c d)) = db_bindings d"
  unfolding begin_summary_tts_attempt_def mark_summary_tts_ambiguous_def
  by (rule checked_frame; rule in_txn_frame;
      auto simp: attempt_Commit write_Ok job_part_def Let_def split: if_splits option.splits)+

lemma supersede_frame:
  "supersede_previous c g d = Ok (n, d1) \<Longrightarrow> job_part d1 = job_part d \<and> db_bindings d1 = db_bindings d"
  by (auto simp: supersede_previous_def and_then_Ok_iff write_Ok job_part_def Let_def
      split: option.splits if_splits)

lemma cover_frame:
  "cover_completions task g ps d = Ok d1 \<Longrightarrow> job_part d1 = job_part d \<and> db_bindings d1 = db_bindings d"
proof (induction ps arbitrary: d)
  case (Cons p ps)
  then show ?case
    by (fastforce simp: and_then_Ok_iff write_Ok job_part_def Let_def split: if_splits)
qed simp

lemma publish_txn_frame:
  assumes "publish_txn x c cache d = Commit r d'"
  shows "job_part d' = job_part d" "db_bindings d' = db_bindings d"
proof -
  obtain g n d1 d2 where "supersede_previous c g d = Ok (n, d1)"
      "cover_completions (sc_task_id c) g (sc_completions c) d1 = Ok d2"
      "job_part d' = job_part d2" "db_bindings d' = db_bindings d2"
    using assms by (auto simp: publish_txn_def attempt_Commit write_Ok job_part_def Let_def
        split: option.splits if_splits prod.splits)
  then show "job_part d' = job_part d" "db_bindings d' = db_bindings d"
    using supersede_frame cover_frame by metis+
qed

lemma publish_frame:
  "job_part (snd (publish_summary x c cache d)) = job_part d"
  "db_bindings (snd (publish_summary x c cache d)) = db_bindings d"
proof -
  have "job_part (snd (in_txn (publish_txn x c cache) d)) = job_part d"
    "db_bindings (snd (in_txn (publish_txn x c cache) d)) = db_bindings d"
    using publish_txn_frame by (auto intro!: in_txn_frame)
  then show "job_part (snd (publish_summary x c cache d)) = job_part d"
    "db_bindings (snd (publish_summary x c cache d)) = db_bindings d"
    by (auto simp: publish_summary_def checked_def split: sum.splits)
qed

lemma acquire_frame:
  "job_part (snd (acquire_summary_playback slot rg cg lease d)) = job_part d"
  "db_bindings (snd (acquire_summary_playback slot rg cg lease d)) = db_bindings d"
  unfolding acquire_summary_playback_def
  by (rule checked_frame; rule checked_frame; rule in_txn_frame;
      auto simp: acquire_txn_def attempt_Commit write_Ok job_part_def Let_def split: if_splits option.splits)+

lemma lease_frame:
  "job_part (snd (cancel_summary_playback x l d)) = job_part d"
  "db_bindings (snd (cancel_summary_playback x l d)) = db_bindings d"
  "job_part (snd (finish_summary_playback x l d)) = job_part d"
  "db_bindings (snd (finish_summary_playback x l d)) = db_bindings d"
  unfolding cancel_summary_playback_def finish_summary_playback_def
  by (rule checked_frame; rule in_txn_frame;
      auto simp: attempt_Commit write_Ok job_part_def Let_def split: if_splits)+

lemmas frames =
  enqueue_frame claim_frame ack_frame recover_frame set_binding_frame completion_frame claim_summary_frame
  summary_claim_frame tts_frame publish_frame acquire_frame lease_frame

section \<open>Invariants of the store\<close>

text \<open>The interface of an invariant: it holds of an empty database and every operation keeps it.\<close>

locale store_invariant =
  fixes x :: externals and I :: "db \<Rightarrow> bool"
  assumes initially: "I empty_db"
    and kept: "I d \<Longrightarrow> store_step x d e \<Longrightarrow> I e"
begin

lemma steps_keep: "store_steps x d e \<Longrightarrow> I d \<Longrightarrow> I e"
  by (induction rule: store_steps.induct) (auto intro: kept)

lemma reachable_holds: "store_reachable x d \<Longrightarrow> I d"
  using steps_keep initially by (auto simp: store_reachable_def)

end

lemma jobs_inv_empty: "jobs_inv empty_db"
  by (simp add: jobs_inv_def empty_db_def jobs_ok_def)

lemma bindings_inv_empty: "bindings_inv empty_db"
  by (simp add: bindings_inv_def empty_db_def bindings_ok_def)

lemma ledger_inv_empty: "ledger_inv x empty_db"
  by (simp add: ledger_inv_def completions_inv_def completions_ok_def cursors_ok_def summaries_ok_def
      lease_inv_def leases_ok_def tts_inv_def tts_ok_def cover_inv_def claims_inv_def empty_db_def)

lemma open_store_jobs_inv: "jobs_inv d \<Longrightarrow> jobs_inv (snd (open_store d))"
  by (erule open_store_inv) (auto intro: recover_jobs_inv jobs_inv_frame simp: frames)

lemma open_store_bindings_inv: "bindings_inv d \<Longrightarrow> bindings_inv (snd (open_store d))"
  by (erule open_store_inv) (auto intro: bindings_inv_frame simp: frames)

lemma open_store_ledger_inv: "ledger_inv x d \<Longrightarrow> ledger_inv x (snd (open_store d))"
  by (erule open_store_inv) (auto intro: recover_summaries_inv recover_leases_inv ledger_inv_frame simp: frames)

lemma jobs_inv_step: "jobs_inv d \<Longrightarrow> store_step x d e \<Longrightarrow> jobs_inv e"
  by (erule store_step.cases)
    (auto intro: store_inv_intros open_store_jobs_inv jobs_inv_frame simp: frames)

lemma bindings_inv_step: "bindings_inv d \<Longrightarrow> store_step x d e \<Longrightarrow> bindings_inv e"
  by (erule store_step.cases)
    (auto intro: store_inv_intros open_store_bindings_inv bindings_inv_frame simp: frames)

lemma ledger_inv_step:
  "ledger_inv x d \<Longrightarrow> json_ids_roundtrip x \<Longrightarrow> store_step x d e \<Longrightarrow> ledger_inv x e"
  by (erule store_step.cases)
    (auto intro: store_inv_intros open_store_ledger_inv ledger_inv_frame simp: frames)

interpretation queue: store_invariant x jobs_inv
  by unfold_locales (auto intro: jobs_inv_empty jobs_inv_step)

interpretation slots: store_invariant x bindings_inv
  by unfold_locales (auto intro: bindings_inv_empty bindings_inv_step)

interpretation ledger: store_invariant x "\<lambda>d. json_ids_roundtrip x \<longrightarrow> ledger_inv x d"
  by unfold_locales (auto intro: ledger_inv_empty ledger_inv_step)

section \<open>What later operations may do\<close>

text \<open>The interface of an evolution: a reflexive and transitive relation that every operation
  respects from a database that satisfies the invariant.\<close>

locale store_evolution = store_invariant +
  fixes R :: "db \<Rightarrow> db \<Rightarrow> bool"
  assumes refl: "R d d"
    and trans: "R d e \<Longrightarrow> R e f \<Longrightarrow> R d f"
    and respected: "I d \<Longrightarrow> store_step x d e \<Longrightarrow> R d e"
begin

lemma steps_evolve: "store_steps x d e \<Longrightarrow> I d \<Longrightarrow> R d e"
  by (induction rule: store_steps.induct) (auto intro: refl trans respected steps_keep)

end

lemma open_store_relation:
  assumes "P d" "\<And>d. R d d" "\<And>d e f. R d e \<Longrightarrow> R e f \<Longrightarrow> R d f"
    "\<And>d. P d \<Longrightarrow> P (snd (recover_interrupted_jobs d)) \<and> R d (snd (recover_interrupted_jobs d))"
    "\<And>d. P d \<Longrightarrow> P (snd (recover_interrupted_summaries d)) \<and> R d (snd (recover_interrupted_summaries d))"
    "\<And>d. P d \<Longrightarrow> P (snd (recover_interrupted_playback_leases d)) \<and> R d (snd (recover_interrupted_playback_leases d))"
  shows "R d (snd (open_store d))"
proof -
  have "P (snd (open_store d)) \<and> R d (snd (open_store d))"
    by (rule open_store_inv [where P = "\<lambda>e. P e \<and> R d e"]) (use assms in blast)+
  then show ?thesis ..
qed

lemma open_store_jobs_evolve: "jobs_inv d \<Longrightarrow> jobs_evolve d (snd (open_store d))"
  by (rule open_store_relation [where P = jobs_inv])
    (auto intro: jobs_evolve_trans jobs_evolve_same recover_jobs_inv recover_jobs_evolve jobs_inv_frame
      jobs_evolve_frame simp: frames)

lemma jobs_evolve_step: "jobs_inv d \<Longrightarrow> store_step x d e \<Longrightarrow> jobs_evolve d e"
  by (erule store_step.cases)
    (auto intro: enqueue_evolve claim_evolve ack_evolve open_store_jobs_evolve jobs_evolve_frame simp: frames)

interpretation job_history: store_evolution x jobs_inv jobs_evolve
  by unfold_locales (auto intro: jobs_evolve_same jobs_evolve_trans jobs_evolve_step)

text \<open>What later operations may do to a row of the summary ledger: its identity never changes,
  an abandoned, heard or superseded row is final, a published row stays published with its cache
  object, and a row once superseded stays superseded by the same generation.\<close>

definition row_evolves :: "summary_row \<Rightarrow> summary_row \<Rightarrow> bool" where
  "row_evolves s s' \<longleftrightarrow>
     summary_key s' = summary_key s \<and> s_request_id s' = s_request_id s \<and> s_covers s' = s_covers s \<and>
     s_previous_generation s' = s_previous_generation s \<and>
     (s_state s \<in> {Abandoned, Heard, Superseded} \<longrightarrow> s' = s) \<and>
     (is_published s \<longrightarrow> is_published s' \<and> s_cache_object s' = s_cache_object s) \<and>
     (s_superseded_by s \<noteq> None \<longrightarrow> s_superseded_by s' = s_superseded_by s)"

definition summaries_evolve :: "db \<Rightarrow> db \<Rightarrow> bool" where
  "summaries_evolve d d' \<longleftrightarrow>
     (\<forall>s \<in> set (db_summaries d). \<exists>s' \<in> set (db_summaries d'). row_evolves s s')"

lemma row_evolves_refl [simp]: "row_evolves s s"
  by (simp add: row_evolves_def)

lemma row_evolves_trans: "row_evolves s t \<Longrightarrow> row_evolves t u \<Longrightarrow> row_evolves s u"
  unfolding row_evolves_def by (elim conjE) (intro conjI impI; metis)

lemma summaries_evolve_same: "db_summaries d' = db_summaries d \<Longrightarrow> summaries_evolve d d'"
  by (auto simp: summaries_evolve_def intro: row_evolves_refl)

lemma summaries_evolve_trans: "summaries_evolve d e \<Longrightarrow> summaries_evolve e f \<Longrightarrow> summaries_evolve d f"
  unfolding summaries_evolve_def by (meson row_evolves_trans)

lemma summaries_evolve_map:
  assumes "db_summaries d' = map F (db_summaries d)" "\<And>s. s \<in> set (db_summaries d) \<Longrightarrow> row_evolves s (F s)"
  shows "summaries_evolve d d'"
  unfolding summaries_evolve_def assms(1) set_map using assms(2) by blast

lemma summaries_evolve_update:
  assumes "db_summaries d' = update_where p f (db_summaries d)"
    "\<And>s. s \<in> set (db_summaries d) \<Longrightarrow> p s \<Longrightarrow> row_evolves s (f s)"
  shows "summaries_evolve d d'"
  using assms by (intro summaries_evolve_map [where F = "\<lambda>s. if p s then f s else s"])
    (auto simp: update_where_def)

text \<open>The changes that an operation other than publication makes to one row.\<close>

definition row_step :: "summary_row \<Rightarrow> summary_row \<Rightarrow> bool" where
  "row_step s s' \<longleftrightarrow>
     is_active_claim s \<and> s' \<in> {set_summary_state Generating s, set_summary_state Interrupted s, abandon_row s} \<or>
     s_state s = Unheard \<and> s' = set_summary_state Leased s \<or>
     s_state s = Leased \<and> s' \<in> {set_summary_state Heard s, release_row s}"

lemma row_step_evolves: "row_step s s' \<Longrightarrow> row_evolves s s'"
  unfolding row_step_def
  by (elim disjE conjE insertE emptyE)
    (simp_all add: row_evolves_def summary_key_def set_summary_state_def abandon_row_def release_row_def
      is_active_claim_def is_published_def, auto)

lemma supersede_evolves: "is_current_unread s \<Longrightarrow> row_evolves s (supersede_row g s)"
  by (auto simp: row_evolves_def summary_key_def supersede_row_def is_published_def is_current_unread_def)

lemma publish_evolves: "s_state s = Generating \<Longrightarrow> row_evolves s (publish_row cache s)"
  by (auto simp: row_evolves_def summary_key_def publish_row_def is_published_def)

lemma row_steps:
  "is_active_claim s \<Longrightarrow> row_step s (set_summary_state Generating s)"
  "is_active_claim s \<Longrightarrow> row_step s (set_summary_state Interrupted s)"
  "is_active_claim s \<Longrightarrow> row_step s (abandon_row s)"
  "s_state s = Unheard \<Longrightarrow> row_step s (set_summary_state Leased s)"
  "s_state s = Leased \<Longrightarrow> row_step s (set_summary_state Heard s)"
  "s_state s = Leased \<Longrightarrow> row_step s (release_row s)"
  by (simp_all add: row_step_def)

text \<open>
  A relation between databases that holds when the summaries are the same, when a claim is
  inserted, and when rows make the steps above, holds across every operation but publication.
\<close>

locale ledger_relation =
  fixes R :: "db \<Rightarrow> db \<Rightarrow> bool"
  assumes same: "db_summaries d' = db_summaries d \<Longrightarrow> R d d'"
    and inserted: "db_summaries d' = db_summaries d @ [n] \<Longrightarrow> s_state n = Generating \<Longrightarrow> R d d'"
    and updated: "db_summaries d' = update_where p f (db_summaries d) \<Longrightarrow>
      (\<And>s. s \<in> set (db_summaries d) \<Longrightarrow> p s \<Longrightarrow> row_step s (f s)) \<Longrightarrow> R d d'"
    and trans: "R d e \<Longrightarrow> R e f' \<Longrightarrow> R d f'"
begin

lemma relate_frame: "ledger_part d' = ledger_part d \<Longrightarrow> R d d'"
  by (simp add: ledger_part_def same)

lemma relate_txn:
  assumes "\<And>r d'. body d = Commit r d' \<Longrightarrow> R d d'"
  shows "R d (snd (in_txn body d))"
  using assms by (cases "body d") (auto intro: same)

lemma relate_checked:
  assumes "\<And>y. r = Inr y \<Longrightarrow> R d (snd (k y d))"
  shows "R d (snd (checked r k d))"
  using assms by (cases r) (auto intro: same)

lemma recover_summaries_related: "R d (snd (recover_interrupted_summaries d))"
  unfolding recover_interrupted_summaries_def
  by (rule relate_txn)
    (auto simp: attempt_Commit write_Ok Let_def is_active_claim_def
      intro!: updated [where p = "\<lambda>s. s_state s = Generating"] row_steps)

lemma recover_leases_related: "R d (snd (recover_interrupted_playback_leases d))"
  unfolding recover_interrupted_playback_leases_def
  by (rule relate_txn)
    (auto simp: attempt_Commit write_Ok
      intro!: updated [where p = "\<lambda>s. s_state s = Leased"] row_steps)

lemma abandon_summary_related: "R d (snd (abandon_summary_claim x c d))"
  unfolding abandon_summary_claim_def
proof (rule relate_checked, rule relate_txn, goal_cases)
  case (1 _ r d')
  then obtain g where "db_summaries d' = update_where (\<lambda>s. s_task_id s = sc_task_id c \<and> s_generation s = g \<and>
      is_active_claim s \<and> s_claim_id s = Some (sc_request_id c)) abandon_row (db_summaries d)"
    by (auto simp: attempt_Commit write_Ok Let_def split: if_splits)
  then show ?case by (rule updated) (auto intro: row_steps)
qed

lemma abandon_interrupted_related: "R d (snd (abandon_interrupted_summary_for_task x task d))"
  unfolding abandon_interrupted_summary_for_task_def
proof (rule relate_checked, rule relate_txn, goal_cases)
  case (1 _ r d')
  show ?case
  proof (cases "first_row (\<lambda>s. s_task_id s = task \<and> s_state s = Interrupted) (db_summaries d)")
    case None
    with 1 show ?thesis by (simp add: same)
  next
    case (Some s)
    with 1 show ?thesis
      by (intro updated [where p = "\<lambda>r. s_task_id r = task \<and>
            s_generation r = s_generation s \<and> s_state r = Interrupted" and f = abandon_row])
        (auto simp: attempt_Commit write_Ok Let_def is_active_claim_def intro: row_steps split: if_splits)
  qed
qed

lemma resume_related: "R d (snd (resume_interrupted_summary x task d))"
  unfolding resume_interrupted_summary_def
proof (rule relate_checked, rule relate_txn, goal_cases)
  case (1 _ r d')
  show ?case
  proof (cases "first_row (\<lambda>s. s_task_id s = task \<and> s_state s = Interrupted) (db_summaries d)")
    case None
    with 1 show ?thesis by (simp add: same)
  next
    case (Some s)
    then obtain q where q: "s_claim_id s = Some q" using 1 by (auto split: option.splits)
    with 1 Some show ?thesis
      by (intro updated [where p = "\<lambda>r. s_task_id r = task \<and> s_generation r = s_generation s \<and>
            s_state r = Interrupted \<and> s_claim_id r = Some q" and f = "set_summary_state Generating"])
        (auto simp: attempt_Commit write_Ok Let_def is_active_claim_def intro: row_steps split: if_splits)
  qed
qed

lemma tts_related:
  "R d (snd (begin_summary_tts_attempt x c d))"
  "R d (snd (mark_summary_tts_ambiguous x c d))"
  unfolding begin_summary_tts_attempt_def mark_summary_tts_ambiguous_def
  by (rule relate_checked; rule relate_txn; rule same;
      auto simp: attempt_Commit write_Ok Let_def split: if_splits option.splits)+

lemma claim_summary_related: "R d (snd (claim_summary x task request d))"
  unfolding claim_summary_def
proof (rule relate_checked, rule relate_txn, goal_cases)
  case (1 _ r d')
  consider (replay) s where "replay_summary_request x task request s d = Commit r d'"
    | (join) s where "join_active_claim x task request s d = Commit r d'"
    | (new) "insert_summary_claim x task request d = Commit r d'"
    using 1 by (auto split: option.splits)
  then show ?case
  proof cases
    case replay
    then have "db_summaries d' = db_summaries d \<or> db_summaries d' = update_where (\<lambda>r. s_request_id r = Some request \<and>
        s_task_id r = task \<and> s_generation r = s_generation s \<and> s_state r = Interrupted \<and> s_claim_id r = Some request)
        (set_summary_state Generating) (db_summaries d)"
      by (auto simp: replay_summary_request_def attempt_Commit write_Ok Let_def
          split: if_splits summary_state.splits)
    then show ?thesis
      by (auto intro: same)
        (erule updated, auto intro: row_steps simp: is_active_claim_def)
  next
    case join
    then show ?thesis
      by (intro same) (auto simp: join_active_claim_def attempt_Commit split: option.splits if_splits)
  next
    case new
    then have "db_summaries d' = db_summaries d \<or> (\<exists>n. db_summaries d' = db_summaries d @ [n] \<and> s_state n = Generating)"
      by (auto simp: insert_summary_claim_def attempt_Commit write_Ok Let_def split: if_splits)
    then show ?thesis by (auto intro: same inserted)
  qed
qed

lemma acquire_related:
  assumes "ledger_inv x d"
  shows "R d (snd (acquire_summary_playback slot rg cg lease d))"
proof -
  obtain res d' where e: "acquire_summary_playback slot rg cg lease d = (res, d')" by fastforce
  from assms e have "R d d'"
  proof (cases rule: acquire_cases)
    case (granted b s)
    then show ?thesis by (intro updated [where p = "\<lambda>r. r = s"]) (auto intro: row_steps)
  qed (auto intro: same)
  with e show ?thesis by simp
qed

lemma cancel_related:
  assumes "ledger_inv x d"
  shows "R d (snd (cancel_summary_playback x l d))"
proof -
  obtain res d' where e: "cancel_summary_playback x l d = (res, d')" by fastforce
  from assms e have "R d d'"
  proof (cases rule: cancel_cases)
    case (released s r)
    then show ?thesis by (intro updated [where p = "\<lambda>r. r = s"]) (auto intro: row_steps)
  qed (auto intro: same)
  with e show ?thesis by simp
qed

lemma finish_related:
  assumes "ledger_inv x d"
  shows "R d (snd (finish_summary_playback x l d))"
proof -
  obtain res d' where e: "finish_summary_playback x l d = (res, d')" by fastforce
  from assms e have "R d d'"
  proof (cases rule: finish_cases)
    case (heard s r)
    then show ?thesis by (intro updated [where p = "\<lambda>r. r = s"]) (auto intro: row_steps)
  qed (auto intro: same)
  with e show ?thesis by simp
qed

lemma completion_related:
  "R d (snd (commit_rollout_completion_on x now b cur nxt cid pack d))"
proof -
  obtain res d' where e: "commit_rollout_completion_on x now b cur nxt cid pack d = (res, d')" by fastforce
  then have "db_summaries d' = db_summaries d"
  proof (cases rule: commit_completion_cases)
    case (committed outcome row)
    show ?thesis by (subst committed(8)) simp
  qed simp
  with e show ?thesis by (simp add: same)
qed

lemma open_store_summaries_related: "R d (snd (open_store d))"
  by (rule open_store_relation [where P = "\<lambda>_. True"])
    (auto intro: trans same relate_frame recover_summaries_related
      recover_leases_related simp: frames)

lemma relate_step:
  assumes "ledger_inv x d" "store_step x d e" "\<And>c cache. R d (snd (publish_summary x c cache d))"
  shows "R d e"
  using assms(2)
  by (cases rule: store_step.cases)
    (auto intro: open_store_summaries_related relate_frame completion_related claim_summary_related
      abandon_summary_related abandon_interrupted_related tts_related resume_related assms acquire_related
      cancel_related finish_related simp: frames)

end

interpretation evolving: ledger_relation summaries_evolve
proof
  show "summaries_evolve d d'" if "db_summaries d' = db_summaries d @ [n]" for d d' n
    using that by (auto simp: summaries_evolve_def intro: row_evolves_refl)
qed (blast intro: summaries_evolve_same summaries_evolve_trans summaries_evolve_update row_step_evolves)+

lemma publish_evolve:
  assumes inv: "ledger_inv x d"
  shows "summaries_evolve d (snd (publish_summary x c cache d))"
proof -
  obtain res d' where e: "publish_summary x c cache d = (res, d')" by fastforce
  from inv e show ?thesis
  proof (cases rule: publish_cases)
    case refused
    with e show ?thesis by (simp add: summaries_evolve_same)
  next
    case (published s uo)
    have "row_evolves r (if r = s then publish_row cache r
        else if Some r = uo then supersede_row (s_generation s) r else r)" for r
      using published(5,8) unread_row_Some [of "s_task_id s" "db_summaries d" r]
      by (auto intro: publish_evolves supersede_evolves)
    then have "summaries_evolve d d'"
      by (rule summaries_evolve_map [rotated]) (simp add: published(13) published_rows_def)
    with e show ?thesis by simp
  qed
qed

lemma summaries_evolve_step: "ledger_inv x d \<Longrightarrow> store_step x d e \<Longrightarrow> summaries_evolve d e"
  by (rule evolving.relate_step) (auto intro: publish_evolve)

interpretation ledger_history: store_evolution x "\<lambda>d. json_ids_roundtrip x \<longrightarrow> ledger_inv x d"
    "\<lambda>d e. json_ids_roundtrip x \<longrightarrow> summaries_evolve d e"
  by unfold_locales (auto intro: summaries_evolve_same summaries_evolve_trans summaries_evolve_step)

end
