(* ===== verification/Store_Properties.thy ===== *)
theory Store_Properties
  imports Store_Machine
begin

text \<open>
  Properties of the state database of \<open>app/host/src/store.rs\<close> that span its operations: what
  holds in every database the program can produce, retries and restarts of jobs and of summary
  claims, and what a published summary covers.
\<close>

section \<open>A loaded claim can be published\<close>

lemma unique_filter:
  assumes "distinct rows"
    "\<And>a b. a \<in> set rows \<Longrightarrow> b \<in> set rows \<Longrightarrow> P a \<Longrightarrow> P b \<Longrightarrow> key a = key b \<Longrightarrow> a = b"
  shows "distinct (map key (filter P rows))"
  using assms by (auto simp: distinct_map inj_on_def)

lemma summaries_ok_map:
  assumes ok: "summaries_ok ss"
    and same: "\<And>r. r \<in> set ss \<Longrightarrow> summary_key (F r) = summary_key r \<and> s_request_id (F r) = s_request_id r \<and>
        summary_checks (F r) \<and> (is_active_claim (F r) \<longrightarrow> is_active_claim r)"
    and cur: "\<And>a b. a \<in> set ss \<Longrightarrow> b \<in> set ss \<Longrightarrow> is_current_unread (F a) \<Longrightarrow> is_current_unread (F b) \<Longrightarrow>
        s_task_id a = s_task_id b \<Longrightarrow> a = b"
  shows "summaries_ok (map F ss)"
proof -
  have keys: "map summary_key (map F ss) = map summary_key ss" using same by simp
  then have dist: "distinct (map summary_key (map F ss))" using summaries_okD(1) [OF ok] by (simp only:)
  then have rows: "distinct (map F ss)" by (simp only: distinct_map)
  have task: "s_task_id (F r) = s_task_id r" if "r \<in> set ss" for r
    using same [OF that] by (simp add: summary_key_def)
  have "distinct (map s_task_id (filter is_active_claim (map F ss)))"
    by (intro unique_filter [OF rows]) (clarsimp simp: task, metis same active_unique [OF ok])
  moreover have "distinct (map s_request_id (filter (\<lambda>s. s_request_id s \<noteq> None) (map F ss)))"
    by (intro unique_filter [OF rows]) (clarsimp, metis same request_unique [OF ok])
  moreover have "distinct (map s_task_id (filter is_current_unread (map F ss)))"
    by (intro unique_filter [OF rows]) (clarsimp simp: task, metis cur)
  moreover have "list_all summary_checks (map F ss)" using same by (auto simp: list_all_iff)
  ultimately show ?thesis using dist by (simp only: summaries_ok_def simp_thms)
qed

lemma supersede_ok:
  assumes inv: "ledger_inv x d" and s: "s \<in> set (db_summaries d)" "s_state s = Generating"
  defines "uo \<equiv> unread_row (s_task_id s) (db_summaries d)"
  shows "summaries_ok (superseded_rows uo (s_generation s) (db_summaries d))"
    "summaries_ok (published_rows uo s cache (db_summaries d))"
proof -
  note old = ledger_invD [OF inv]
  have act: "is_active_claim s" using s(2) by (simp add: is_active_claim_def)
  have checks: "summary_checks r" if "r \<in> set (db_summaries d)" for r using summaries_okD(2) [OF old(2) that] .
  have u: "u \<in> set (db_summaries d) \<and> s_task_id u = s_task_id s \<and> is_current_unread u \<and> u \<noteq> s" if "Some u = uo" for u
    using that unread_row_Some [of "s_task_id s" "db_summaries d" u] s(2) by (auto simp: uo_def is_current_unread_def)
  have less: "s_generation u < s_generation s" if "Some u = uo" for u
    using old(7) s(1) act u [OF that] key_unique [OF old(2), of u s]
    by (auto simp: claims_inv_def claim_inv_row_def order_less_le)
  have sup: "summary_checks (supersede_row (s_generation s) r) \<and> \<not> is_active_claim (supersede_row (s_generation s) r) \<and>
      \<not> is_current_unread (supersede_row (s_generation s) r)" if "Some r = uo" for r
    using checks [of r] u [OF that] less [OF that]
    by (auto simp: summary_checks_def supersede_row_def is_active_claim_def is_current_unread_def split: option.splits)
  have key: "summary_key (supersede_row g r) = summary_key r" "s_request_id (supersede_row g r) = s_request_id r"
    "summary_key (publish_row cache r) = summary_key r" "s_request_id (publish_row cache r) = s_request_id r"
    for r g by (simp_all add: summary_key_def supersede_row_def publish_row_def)
  have pub: "summary_checks (publish_row cache s)" "\<not> is_active_claim (publish_row cache s)"
    using checks [OF s(1)] by (auto simp: summary_checks_def publish_row_def is_active_claim_def
        split: option.splits)
  have other: "Some r = uo" if "r \<in> set (db_summaries d)" "s_task_id r = s_task_id s" "is_current_unread r" for r
    using query_unread_row [OF old(2) that(1,3)] that(2) by (simp add: uo_def unread_row_def)
  show "summaries_ok (superseded_rows uo (s_generation s) (db_summaries d))"
    unfolding superseded_rows_def
    using sup key checks unread_unique [OF old(2)]
    by (intro summaries_ok_map [OF old(2)]) (auto split: if_splits)
  show "summaries_ok (published_rows uo s cache (db_summaries d))"
    unfolding published_rows_def
  proof (rule summaries_ok_map [OF old(2)], goal_cases)
    case (1 r)
    then show ?case using sup key checks pub by auto
  next
    case (2 a b)
    have f: "r = s \<or> (r \<noteq> s \<and> Some r \<noteq> uo \<and> is_current_unread r)"
      if "is_current_unread (if r = s then publish_row cache r
          else if Some r = uo then supersede_row (s_generation s) r else r)" for r
      using that sup by (auto split: if_splits)
    from f [OF 2(3)] f [OF 2(4)] 2(1,2,5) show ?case
      using unread_unique [OF old(2)] other by metis
  qed
qed

lemma cover_completions_ok:
  assumes "distinct (map c_completion_id (db_completions d))" "distinct (map p_completion_id ps)"
    "\<And>p. p \<in> set ps \<Longrightarrow> \<exists>c \<in> set (db_completions d). c_completion_id c = p_completion_id p \<and> c_task_id c = task \<and>
        c_turn_pack c = p_turn_pack p \<and> c_summarized_generation c = None"
  obtains d' where "cover_completions task g ps d = Ok d'"
  using assms
proof (induction ps arbitrary: d thesis)
  case (Cons p ps)
  define sel where "sel = (\<lambda>c :: completion_row. c_completion_id c = p_completion_id p \<and> c_task_id c = task \<and>
            c_turn_pack c = p_turn_pack p \<and> c_summarized_generation c = None)"
  let ?cs = "update_where sel (cover_row g) (db_completions d)"
  obtain c where c: "c \<in> set (db_completions d)" "sel c" using Cons.prems(4) [of p] by (auto simp: sel_def)
  have one: "count_where sel (db_completions d) = 1"
    using Cons.prems(2) c by (intro count_where_one [where key = c_completion_id]) (auto simp: sel_def)
  have ids: "map c_completion_id ?cs = map c_completion_id (db_completions d)"
    by (rule map_update_where) simp
  have rest: "\<exists>c \<in> set ?cs. c_completion_id c = p_completion_id q \<and> c_task_id c = task \<and>
        c_turn_pack c = p_turn_pack q \<and> c_summarized_generation c = None" if q: "q \<in> set ps" for q
  proof -
    obtain c where c: "c \<in> set (db_completions d)" "c_completion_id c = p_completion_id q" "c_task_id c = task"
        "c_turn_pack c = p_turn_pack q" "c_summarized_generation c = None"
      using Cons.prems(4) [of q] q by auto
    have "p_completion_id q \<noteq> p_completion_id p" using Cons.prems(3) q by (auto simp: image_iff)
    then have "\<not> sel c" using c(2) by (simp add: sel_def)
    then have "c \<in> set ?cs" using c(1) by (force simp: set_update_where)
    with c show ?thesis by blast
  qed
  have dist: "distinct (map c_completion_id (db_completions (d\<lparr>db_completions := ?cs\<rparr>)))"
    using ids Cons.prems(2) by simp
  obtain d' where "cover_completions task g ps (d\<lparr>db_completions := ?cs\<rparr>) = Ok d'"
    using Cons.IH [OF _ dist] Cons.prems(3) rest by auto
  moreover have "completions_ok ?cs" using ids Cons.prems(2) by (simp add: completions_ok_def)
  ultimately show ?case
    using Cons.prems(1) one by (simp add: sel_def [symmetric] Let_def write_defs)
qed simp

lemma load_completions_found:
  assumes "load_completions task cs acc ids = Ok ps"
  shows "map p_completion_id ps = ids \<and>
    (\<forall>p \<in> set ps. \<exists>c \<in> set cs. c_completion_id c = p_completion_id p \<and> c_task_id c = task \<and>
        c_turn_pack c = p_turn_pack p \<and> c_summarized_generation c = None)"
  using assms
proof (induction ids arbitrary: acc ps)
  case (Cons i ids)
  then obtain c ps' acc' where c: "first_row (\<lambda>c. c_completion_id c = i \<and> c_task_id c = task) cs = Some c"
      "c_summarized_generation c = None" "load_completions task cs acc' ids = Ok ps'"
      "ps = \<lparr> p_completion_id = i, p_turn_pack = c_turn_pack c \<rparr> # ps'"
    by (auto simp: Let_def and_then_Ok_iff split: option.splits if_splits)
  with first_row_Some [OF c(1)] Cons.IH [OF c(3)] show ?case by auto
qed simp

lemma load_completions_valid:
  assumes "load_completions task cs acc ids = Ok ps" "\<And>c. c \<in> set cs \<Longrightarrow> completion_checks x c"
  shows "validate_claim_completions x acc ps = Ok ()"
  using assms(1)
proof (induction ids arbitrary: acc ps)
  case (Cons i ids)
  then obtain c ps' where c: "first_row (\<lambda>c. c_completion_id c = i \<and> c_task_id c = task) cs = Some c"
      "c_turn_pack c \<noteq> []" "length (c_turn_pack c) \<le> MAX_TURN_PACK_BYTES"
      "acc + length (c_turn_pack c) \<le> MAX_SUMMARY_TURN_PACK_BYTES"
      "load_completions task cs (acc + length (c_turn_pack c)) ids = Ok ps'"
      "ps = \<lparr> p_completion_id = i, p_turn_pack = c_turn_pack c \<rparr> # ps'"
    by (auto simp: Let_def and_then_Ok_iff split: option.splits if_splits)
  have "uuid_ok x i" using first_row_Some [OF c(1)] assms(2) by (auto simp: completion_checks_def)
  with c Cons.IH [OF c(5)] show ?case by (simp add: Let_def)
qed simp

lemma claimed_row_unique:
  assumes inv: "ledger_inv x d" and s: "s \<in> set (db_summaries d)" "s_state s = Generating"
    and r: "r \<in> set (db_summaries d)"
  defines "uo \<equiv> unread_row (s_task_id s) (db_summaries d)"
  shows "s_task_id (if Some r = uo then supersede_row g r else r) = s_task_id s \<and>
      s_generation (if Some r = uo then supersede_row g r else r) = s_generation s \<longleftrightarrow> r = s"
    "Some s \<noteq> uo"
proof -
  show "Some s \<noteq> uo"
    using s(2) unread_row_Some [of "s_task_id s" "db_summaries d" s] by (auto simp: uo_def is_current_unread_def)
  then show "s_task_id (if Some r = uo then supersede_row g r else r) = s_task_id s \<and>
      s_generation (if Some r = uo then supersede_row g r else r) = s_generation s \<longleftrightarrow> r = s"
    using key_unique [OF ledger_invD(2) [OF inv] r s(1)] by (auto simp: supersede_row_def)
qed

text \<open>The row of the claim in the ledger, before and after the previous summary is superseded.\<close>

definition is_claim_row :: "summary_row \<Rightarrow> string \<Rightarrow> summary_row \<Rightarrow> bool" where
  "is_claim_row s request r \<longleftrightarrow> s_task_id r = s_task_id s \<and> s_generation r = s_generation s \<and>
     s_state r = Generating \<and> s_claim_id r = Some request"

lemma claim_row_statements:
  assumes inv: "ledger_inv x d" and s: "s \<in> set (db_summaries d)" "s_state s = Generating"
    and claim: "s_claim_id s = Some request"
  defines "uo \<equiv> unread_row (s_task_id s) (db_summaries d)"
  shows "first_row (is_claim_row s request) (db_summaries d) = Some s"
    "count_where (is_claim_row s request) (superseded_rows uo (s_generation s) (db_summaries d)) = 1"
    "update_where (is_claim_row s request) (publish_row cache) (superseded_rows uo (s_generation s) (db_summaries d)) =
       published_rows uo s cache (db_summaries d)"
proof -
  note old = ledger_invD [OF inv]
  let ?F = "\<lambda>r. if Some r = uo then supersede_row (s_generation s) r else r"
  note u = claimed_row_unique [OF inv s, folded uo_def]
  have F: "is_claim_row s request (?F r) \<longleftrightarrow> r = s" if "r \<in> set (db_summaries d)" for r
    using u(1) [OF that, of "s_generation s"] u(2) [OF that] s claim unfolding is_claim_row_def by (auto split: if_splits)
  have self: "is_claim_row s request s" using s claim by (simp add: is_claim_row_def)
  show "first_row (is_claim_row s request) (db_summaries d) = Some s"
    using s(1) self by (intro first_row_unique [OF summaries_okD(1) [OF old(2)]])
      (auto simp: is_claim_row_def summary_key_def)
  have "count_where (is_claim_row s request) (map ?F (db_summaries d)) =
      count_where (\<lambda>r. is_claim_row s request (?F r)) (db_summaries d)"
    by (simp add: count_where_def filter_map comp_def)
  also have "\<dots> = count_where (\<lambda>r. r = s) (db_summaries d)"
    using F by (intro count_where_cong) simp
  also have "\<dots> = 1"
    using s(1) by (intro count_where_one [OF summaries_okD(1) [OF old(2)]]) auto
  finally show "count_where (is_claim_row s request) (superseded_rows uo (s_generation s) (db_summaries d)) = 1"
    by (simp add: superseded_rows_def)
  show "update_where (is_claim_row s request) (publish_row cache) (superseded_rows uo (s_generation s) (db_summaries d)) =
       published_rows uo s cache (db_summaries d)"
    unfolding superseded_rows_def published_rows_def update_where_def map_map
    using F u(2) s(1) by (intro map_cong) auto
qed

lemma supersede_previous_ok:
  assumes inv: "ledger_inv x d" and s: "s \<in> set (db_summaries d)" "s_state s = Generating"
    and c: "sc_task_id c = s_task_id s"
    and load: "load_previous (s_task_id s) (s_previous_generation s) d = Ok (sc_previous_unread c)"
  obtains n d1 where "supersede_previous c (s_generation s) d = Ok (n, d1)"
    "generation_option_i64 (sc_previous_unread c) = Ok (s_previous_generation s)"
proof -
  note old = ledger_invD [OF inv]
  let ?t = "s_task_id s" and ?g = "s_generation s"
  have act: "is_active_claim s" using s(2) by (simp add: is_active_claim_def)
  define uo where "uo = unread_row ?t (db_summaries d)"
  show ?thesis
  proof (cases uo)
    case None
    then have q: "query_current_unread ?t d = Ok None"
      by (simp add: query_current_unread_def uo_def unread_row_def)
    then have p: "s_previous_generation s = None" "sc_previous_unread c = None"
      using load by (cases "s_previous_generation s"; simp add: load_previous_def)+
    with q c that show ?thesis by (simp add: supersede_previous_def generation_option_i64_def)
  next
    case (Some u)
    have u: "u \<in> set (db_summaries d)" "s_task_id u = ?t" "is_current_unread u"
      using unread_row_Some [of ?t "db_summaries d" u] Some by (auto simp: uo_def)
    have p: "s_previous_generation s = Some (s_generation u)"
      using old(7) s(1) act u by (auto simp: claims_inv_def claim_inv_row_def)
    have b: "0 < s_generation u" "s_generation u \<le> i64_max"
      using summaries_okD(2) [OF old(2) u(1)] old(3) [OF u(1)] by (auto simp: summary_checks_def row_inv_def)
    obtain v where v: "query_current_unread ?t d = Ok (Some v)" "u_generation v = as_u64 (s_generation u)"
        "sc_previous_unread c = Some v"
      using load p by (auto simp: load_previous_def and_then_Ok_iff split: option.splits if_splits)
    have cov: "u_coverage_count v = of_nat (count_where (covered_by ?t (s_generation u)) (db_completions d))"
      using v(1) Some by (auto simp: query_current_unread_def uo_def unread_row_def Let_def split: option.splits if_splits)
    let ?sel = "\<lambda>r. s_task_id r = ?t \<and> s_generation r = s_generation u \<and> is_current_unread r"
    have one: "count_where ?sel (db_summaries d) = 1"
      using u by (intro count_where_one [OF summaries_okD(1) [OF old(2)]]) (auto simp: summary_key_def)
    have upd: "update_where ?sel (supersede_row ?g) (db_summaries d) = superseded_rows uo ?g (db_summaries d)"
      unfolding superseded_rows_def update_where_def
    proof (rule map_cong [OF refl])
      fix r assume r: "r \<in> set (db_summaries d)"
      have "?sel r \<longleftrightarrow> Some r = uo" using unread_unique [OF old(2) r u(1)] u Some by auto
      then show "(if ?sel r then supersede_row ?g r else r) = (if Some r = uo then supersede_row ?g r else r)" by simp
    qed
    have "map c_completion_id (update_where (covered_by ?t (s_generation u)) (cover_row ?g) (db_completions d)) =
        map c_completion_id (db_completions d)" by (rule map_update_where) simp
    then have "completions_ok (update_where (covered_by ?t (s_generation u)) (cover_row ?g) (db_completions d))"
      using completions_invD(1) [OF old(1)] by (simp add: completions_ok_def)
    then have "\<exists>n d1. supersede_previous c ?g d = Ok (n, d1)"
      using v cov c one upd to_i64_as_u64 [of "s_generation u"] b supersede_ok(1) [OF inv s, folded uo_def]
      by (simp add: supersede_previous_def write_defs Let_def)
    with that p v b show ?thesis
      by (auto simp: generation_option_i64_def to_i64_as_u64)
  qed
qed

lemma load_previous_Some:
  assumes "load_previous task p d = Ok (Some u)"
  shows "query_current_unread task d = Ok (Some u)" "u_task_id u = task"
proof -
  show "query_current_unread task d = Ok (Some u)"
    using assms by (auto simp: load_previous_def and_then_Ok_iff split: option.splits if_splits)
  then show "u_task_id u = task"
    by (auto simp: query_current_unread_def Let_def split: option.splits if_splits)
qed

lemma publish_loaded:
  assumes inv: "ledger_inv x d" and s: "s \<in> set (db_summaries d)" "s_state s = Generating" "s_claim_id s = Some request"
    and load: "load_summary_claim x outcome request (s_task_id s) (s_generation s) (s_previous_generation s) (s_covers s) d = Ok c"
    and len: "length (db_completions d) + MAX_SUMMARY_COMPLETIONS_PER_CLAIM \<le> u32_max"
  obtains u d' where "publish_summary x c (reference (row_cache_id x (s_task_id s) (s_generation s))) d = (Ok u, d')"
proof -
  note old = ledger_invD [OF inv]
  let ?t = "s_task_id s" and ?g = "s_generation s"
  let ?cache = "reference (row_cache_id x ?t ?g)"
  define uo where "uo = unread_row ?t (db_summaries d)"
  have act: "is_active_claim s" using s(2) by (simp add: is_active_claim_def)
  have covers: "covers_ok x (db_completions d) s" using old(7) s(1) act by (simp add: claims_inv_def)
  obtain ids where ids: "parse_ids x (s_covers s) = Some ids" "s_covers s = json_ids x ids" "ids \<noteq> []"
      "length ids \<le> MAX_SUMMARY_COMPLETIONS_PER_CLAIM" "distinct ids"
    using covers by (auto simp: covers_ok_def split: option.splits)
  have g: "0 < ?g" "?g \<le> i64_max"
    using summaries_okD(2) [OF old(2) s(1)] old(3) [OF s(1)] by (auto simp: summary_checks_def row_inv_def)
  have c: "sc_request_id c = request" "sc_task_id c = ?t" "sc_generation c = as_u64 ?g"
      "load_completions ?t (db_completions d) 0 ids = Ok (sc_completions c)"
      "load_previous ?t (s_previous_generation s) d = Ok (sc_previous_unread c)"
    using load ids by (auto simp: load_summary_claim_def and_then_Ok_iff split: if_splits)
  note found = load_completions_found [OF c(4)]
  have cc: "map p_completion_id (sc_completions c) = ids" using found by simp
  have gen: "sc_generation c \<noteq> 0" "to_i64 (sc_generation c) = Ok ?g"
    using g c(3) uint_as_u64 [of ?g] by (auto simp: to_i64_as_u64)
  have prev_task: "u_task_id p = ?t" if "sc_previous_unread c = Some p" for p
    using c(5) that load_previous_Some by metis
  have "sc_completions c \<noteq> []" "length (sc_completions c) \<le> MAX_SUMMARY_COMPLETIONS_PER_CLAIM"
    using cc ids(3,4) by auto
  then have valid: "validate_summary_claim x c = Ok ()"
    using old(3) [OF s(1)] act s(3) c gen(1) prev_task load_completions_valid [OF c(4) completions_invD(2) [OF old(1)]]
    by (auto simp: validate_summary_claim_def row_inv_def split: option.splits)
  obtain n d1 where sup: "supersede_previous c ?g d = Ok (n, d1)"
      and prev: "generation_option_i64 (sc_previous_unread c) = Ok (s_previous_generation s)"
    using supersede_previous_ok [OF inv s(1,2) c(2,5)] by blast
  note eff = supersede_previous_effect [OF inv sup, unfolded c(2), folded uo_def]
  have dist1: "distinct (map c_completion_id (db_completions d1))"
    using completions_invD(1) [OF old(1)] by (simp add: eff(1) covered_rows_def comp_def if_distrib [of c_completion_id] cong: if_cong)
  have "\<exists>r \<in> set (db_completions d1). c_completion_id r = p_completion_id p \<and> c_task_id r = ?t \<and>
        c_turn_pack r = p_turn_pack p \<and> c_summarized_generation r = None" if p: "p \<in> set (sc_completions c)" for p
  proof -
    obtain r where r: "r \<in> set (db_completions d)" "c_completion_id r = p_completion_id p" "c_task_id r = ?t"
        "c_turn_pack r = p_turn_pack p" "c_summarized_generation r = None" using found p by blast
    then have "\<not> moved ?t uo r" by (auto simp: moved_def covered_by_def split: option.splits)
    then have "r \<in> set (db_completions d1)" using r(1) by (force simp: eff(1) covered_rows_def)
    with r show ?thesis by blast
  qed
  then obtain d2 where cov: "cover_completions ?t ?g (sc_completions c) d1 = Ok d2"
    using cover_completions_ok [OF dist1, of "sc_completions c" ?t ?g] cc ids(5) by metis
  have d2: "db_summaries d2 = superseded_rows uo ?g (db_summaries d)" "db_tts_attempts d2 = db_tts_attempts d"
    using cover_completions_effect [OF cov dist1] eff(1) by simp_all
  note st = claim_row_statements [OF inv s, folded uo_def]
  have ts: "tts_ok (published_rows uo s ?cache (db_summaries d)) (delete_where (has_tts_key ?t ?g) (db_tts_attempts d))"
  proof (rule tts_ok_keys)
    show "map summary_key (published_rows uo s ?cache (db_summaries d)) = map summary_key (db_summaries d)"
      by (simp add: published_rows_def publish_row_def supersede_row_def summary_key_def)
    show "tts_ok (db_summaries d) (delete_where (has_tts_key ?t ?g) (db_tts_attempts d))"
      using old(5) by (auto simp: tts_inv_def tts_ok_def delete_where_def list_all_iff distinct_map_filter)
  qed
  have "count_where (moved ?t uo) (db_completions d) \<le> length (db_completions d)" by (simp add: count_where_def)
  then have "unat n + length ids \<le> u32_max" "length ids \<le> u32_max"
    using len ids(4) eff(2) by (simp_all add: unat_of_nat_u32)
  moreover have "length (sc_completions c) = length ids" using cc by auto
  ultimately have add: "u32_checked_add InvalidSummaryState n (of_nat (length (sc_completions c))) = Ok (n + of_nat (length ids))"
    by (simp add: u32_checked_add_def unat_of_nat_u32)
  have cache: "for_task (sha256 x) (sc_task_id c) (sc_generation c) = Ok (row_cache_id x ?t ?g)"
    using gen(1) c by (simp add: for_task_def row_cache_id_def)
  have sel: "(\<lambda>r. s_task_id r = ?t \<and> s_generation r = ?g \<and> s_state r = Generating \<and>
      s_claim_id r = Some request) = is_claim_row s request"
    by (auto simp: is_claim_row_def)
  have "\<exists>u d'. publish_txn x c ?cache d = Commit (Ok u) d'"
    using supersede_ok(2) [OF inv s(1,2), folded uo_def, of ?cache] ts st add sup cov prev ids(2) cc d2
    by (simp add: publish_txn_def gen(2) sel Let_def write_defs c(1,2))
  with that valid cache show ?thesis
    by (auto simp: publish_summary_def in_txn_def)
qed

section \<open>Concrete library functions\<close>

text \<open>A printer and parser of string lists, for the examples: each string is preceded by its
  length in unary.\<close>

fun print_ids :: "string list \<Rightarrow> string" where
  "print_ids [] = []"
| "print_ids (s # ss) = replicate (length s) (CHR ''#'') @ CHR '','' # s @ print_ids ss"

fun read_ids :: "nat \<Rightarrow> string \<Rightarrow> string list option" where
  "read_ids fuel [] = Some []"
| "read_ids 0 (c # s) = None"
| "read_ids (Suc fuel) (c # s) =
     (let n = length (takeWhile (\<lambda>d. d = CHR ''#'') (c # s)); rest = drop (Suc n) (c # s)
      in map_option ((#) (take n rest)) (read_ids fuel (drop n rest)))"

lemma read_print_ids: "length ids \<le> fuel \<Longrightarrow> read_ids fuel (print_ids ids) = Some ids"
proof (induction ids arbitrary: fuel)
  case (Cons s ss)
  then obtain f where f: "fuel = Suc f" "length ss \<le> f" by (cases fuel) auto
  obtain c r where p: "print_ids (s # ss) = c # r" by (cases "print_ids (s # ss)") auto
  have t: "takeWhile (\<lambda>d. d = CHR ''#'') (replicate (length s) (CHR ''#'') @ CHR '','' # s @ print_ids ss) =
      replicate (length s) (CHR ''#'')"
    by (subst takeWhile_append2) auto
  show ?case
    unfolding p f(1) read_ids.simps Let_def
    unfolding p [symmetric] print_ids.simps t using Cons.IH [OF f(2)] by simp
qed simp

lemma length_print_ids: "length ids \<le> length (print_ids ids)"
  by (induction ids) auto

definition demo_externals :: externals where
  "demo_externals = \<lparr> uuid_ok = (\<lambda>s. s \<noteq> []), json_ids = print_ids, parse_ids = (\<lambda>s. read_ids (length s) s),
     json_is_object = (\<lambda>s. s \<noteq> []), sha256 = (\<lambda>s. of_nat (length s)) \<rparr>"

lemma demo_roundtrip: "json_ids_roundtrip demo_externals"
  by (simp add: json_ids_roundtrip_def demo_externals_def read_print_ids length_print_ids)

section \<open>Every reachable database\<close>

text \<open>C6: In every database the store can produce, every constraint of the schema holds, at most
  four jobs run, no task has two running jobs or more than twelve pending ones, and every lease
  belongs to a leased summary and conversely.\<close>

theorem reachable_store_sound:
  assumes "store_reachable x d" "json_ids_roundtrip x"
  shows "schema_ok d \<and> count_where is_running (db_jobs d) \<le> MAX_GLOBAL_RUNNING_JOBS \<and>
    (\<forall>t. count_where (\<lambda>j. is_running j \<and> j_task_id j = t) (db_jobs d) \<le> 1) \<and>
    (\<forall>t. count_where (is_pending t) (db_jobs d) \<le> MAX_PENDING_JOBS_PER_TASK) \<and>
    (\<forall>s \<in> set (db_summaries d). s_state s = Leased \<longleftrightarrow> (\<exists>l \<in> set (db_leases d). lease_key l = summary_key s))"
proof -
  have j: "jobs_inv d" using queue.reachable_holds [OF assms(1)] .
  have b: "bindings_inv d" using slots.reachable_holds [OF assms(1)] .
  have l: "ledger_inv x d" using ledger.reachable_holds [OF assms(1)] assms(2) by blast
  have "count_where (\<lambda>j. is_running j \<and> j_task_id j = t) (db_jobs d) \<le> 1" for t
  proof -
    have "distinct (map j_task_id (filter is_running (db_jobs d)))"
      using j jobs_okD(4) by (auto simp: jobs_inv_alt)
    then have "count_where (\<lambda>j. j_task_id j = t) (filter is_running (db_jobs d)) \<le> 1"
      by (rule count_where_key) simp
    then show ?thesis by (simp add: count_where_def conj_commute)
  qed
  moreover have "schema_ok d"
    using j b l by (simp add: schema_ok_def jobs_inv_def bindings_inv_def ledger_inv_def completions_inv_def
        lease_inv_def tts_inv_def)
  moreover have "s_state s = Leased \<longleftrightarrow> (\<exists>k \<in> set (db_leases d). lease_key k = summary_key s)"
    if "s \<in> set (db_summaries d)" for s
    using ledger_invD(4) [OF l] that by (auto simp: lease_inv_def image_iff) metis+
  ultimately show ?thesis
    using j by (simp add: jobs_inv_alt MAX_GLOBAL_RUNNING_JOBS_def MAX_PENDING_JOBS_PER_TASK_def)
qed

lemma sample_queue_reachable: "store_reachable x sample_queue"
  unfolding store_reachable_def sample_queue_def
  by (rule steps_step [OF steps_step [OF steps_refl enqueue_step] enqueue_step])

theorem reachable_store_sound_witness:
  "store_reachable demo_externals sample_queue \<and> json_ids_roundtrip demo_externals \<and> schema_ok sample_queue"
  using reachable_store_sound [OF sample_queue_reachable demo_roundtrip] sample_queue_reachable demo_roundtrip
  by blast

section \<open>Jobs across retries and restarts\<close>

lemma steps_jobs:
  assumes "store_steps x d e" "jobs_inv d"
  shows "jobs_inv e" "jobs_evolve d e"
  using queue.steps_keep [OF assms] job_history.steps_evolve [OF assms] .

text \<open>C25: Enqueueing is idempotent: after a job was accepted, whatever operations and restarts
  follow, submitting the same payload under the same request id is reported as a replay and
  changes nothing, and submitting a different payload under it is refused.\<close>

theorem enqueue_idempotent:
  assumes "jobs_inv d" "enqueue j d = (Ok Inserted, d1)" "store_steps x d1 d2"
    "nj_request_id j' = nj_request_id j" "slot_in_range (nj_slot j')" "validate_job j' = Ok ()"
    "uint (nj_generation j') \<le> i64_max"
  shows "enqueue j' d2 =
    (if nj_task_id j' = nj_task_id j \<and> nj_slot j' = nj_slot j \<and> nj_generation j' = nj_generation j \<and>
        nj_prompt j' = nj_prompt j \<and> nj_cwd j' = nj_cwd j then Ok Replay else Err RequestIdConflict, d2)"
  using assms(2)
proof (cases rule: enqueue_cases)
  case (inserted gen row)
  have inv1: "jobs_inv d1" using enqueue_inv [OF assms(1), of j] assms(2) by simp
  note later = steps_jobs [OF assms(3) inv1]
  have "row \<in> set (db_jobs d1)" by (simp add: inserted(9))
  then obtain r where r: "r \<in> set (db_jobs d2)" "job_evolves row r"
    using jobs_evolveD [OF later(2)] by blast
  have gen: "gen = uint (nj_generation j)" using inserted(2) by (simp add: to_i64_Ok)
  have f: "j_request_id r = nj_request_id j'" "j_task_id r = nj_task_id j" "j_slot r = nj_slot j"
    "j_generation r = uint (nj_generation j)" "j_prompt r = nj_prompt j" "j_cwd r = nj_cwd j"
    using r(2) assms(4) unfolding inserted(7) gen job_evolves_def same_payload_def by simp_all
  let ?same = "nj_task_id j' = nj_task_id j \<and> nj_slot j' = nj_slot j \<and> nj_generation j' = nj_generation j \<and>
        nj_prompt j' = nj_prompt j \<and> nj_cwd j' = nj_cwd j"
  have "exact_replay r j' = Ok ?same"
    unfolding exact_replay_def f to_i64_def encode_path_def using assms(7) by (auto simp: word_uint_eq_iff)
  moreover have "first_row (\<lambda>e. j_request_id e = nj_request_id j') (db_jobs d2) = Some r"
    using first_row_request [OF later(1) r(1)] unfolding f(1) .
  ultimately have "enqueue_txn j' d2 = Rollback (if ?same then Ok Replay else Err RequestIdConflict)"
    by (simp only: enqueue_txn_def option.case attempt_simps)
  with assms(5,6) show ?thesis
    by (simp only: enqueue_def validate_slot_def if_True checked_simps in_txn_simps(2))
qed simp

theorem enqueue_idempotent_witness:
  "enqueue (sample_new_job ''r'' ''t'') (snd (claim_next_runnable (snd (enqueue (sample_new_job ''r'' ''t'') empty_db)))) =
   (Ok Replay, snd (claim_next_runnable (snd (enqueue (sample_new_job ''r'' ''t'') empty_db))))"
proof -
  let ?j = "sample_new_job ''r'' ''t''"
  have "fst (enqueue ?j empty_db) = Ok Inserted" by code_simp
  then have e: "enqueue ?j empty_db = (Ok Inserted, snd (enqueue ?j empty_db))" by (metis prod.collapse)
  have s: "store_steps demo_externals (snd (enqueue ?j empty_db)) (snd (claim_next_runnable (snd (enqueue ?j empty_db))))"
    by (intro steps_step [OF steps_refl] claim_step)
  have v: "slot_in_range (nj_slot ?j)" "validate_job ?j = Ok ()" "uint (nj_generation ?j) \<le> i64_max"
    by code_simp+
  show ?thesis using enqueue_idempotent [OF jobs_inv_empty e s refl v] by simp
qed

text \<open>Once a job has finished, or was claimed again, every acknowledgement under the old claim is refused.\<close>

lemma finished_claim_refused:
  assumes "jobs_inv d" "r \<in> set (db_jobs d)" "is_finished r \<or> gen < j_claim_generation r"
    "to_i64 g = Ok gen" "store_steps x d e"
  shows "mark_completed (j_request_id r) g e = (Ok False, e)" "mark_failed (j_request_id r) g failure e = (Ok False, e)"
proof -
  note later = steps_jobs [OF assms(5,1)]
  obtain r' where r': "r' \<in> set (db_jobs e)" "job_evolves r r'"
    using jobs_evolveD [OF later(2) assms(2)] by blast
  then have "j_request_id r' = j_request_id r" "\<not> is_claimed (j_request_id r') gen r'"
    using assms(3) by (auto simp: job_evolves_def same_payload_def is_claimed_def is_finished_def)
  with ack_stale [OF later(1) r'(1) _ assms(4)]
  show "mark_completed (j_request_id r) g e = (Ok False, e)" "mark_failed (j_request_id r) g failure e = (Ok False, e)"
    by simp_all
qed

text \<open>A successful acknowledgement finds the claimed row and leaves it finished.\<close>

lemma acknowledged_row:
  assumes "jobs_inv d" "mark_completed i g d = (Ok True, d1) \<or> mark_failed i g failure d = (Ok True, d1)"
  obtains r gen where "to_i64 g = Ok gen" "r \<in> set (db_jobs d1)" "j_request_id r = i" "is_finished r" "jobs_inv d1"
proof -
  obtain gen where gen: "to_i64 g = Ok gen" using assms(2) ack_error by (cases "to_i64 g") auto
  have ok: "jobs_ok (db_jobs d)" using assms(1) by (simp add: jobs_inv_alt)
  have "fst (mark_completed i g d) = Ok True \<or> fst (mark_failed i g failure d) = Ok True" using assms(2) by auto
  then obtain r where r: "r \<in> set (db_jobs d)" "is_claimed i gen r" by (rule ack_true [OF assms(1) gen])
  have inv: "jobs_inv d1"
    using assms(2) mark_completed_inv [OF assms(1), of i g] mark_failed_inv [OF assms(1), of i g failure] by auto
  from assms(2) show ?thesis
  proof
    assume "mark_completed i g d = (Ok True, d1)"
    then have "d1 = d\<lparr>db_jobs := update_where (is_claimed i gen) (\<lambda>r. r\<lparr>j_state := Completed\<rparr>) (db_jobs d)\<rparr>"
      unfolding ack_result(1) [OF ok gen] by simp
    then have "r\<lparr>j_state := Completed\<rparr> \<in> set (db_jobs d1)" using r by (force simp: set_update_where)
    then show ?thesis using that [OF gen _ _ _ inv] r(2) by (force simp: is_claimed_def is_finished_def)
  next
    assume "mark_failed i g failure d = (Ok True, d1)"
    then have "d1 = d\<lparr>db_jobs := update_where (is_claimed i gen)
        (\<lambda>r. r\<lparr>j_state := Failed, j_failure_kind := Some (failure_str failure)\<rparr>) (db_jobs d)\<rparr>"
      unfolding ack_result(2) [OF ok gen] by simp
    then have "r\<lparr>j_state := Failed, j_failure_kind := Some (failure_str failure)\<rparr> \<in> set (db_jobs d1)"
      using r by (force simp: set_update_where)
    then show ?thesis using that [OF gen _ _ _ inv] r(2) by (force simp: is_claimed_def is_finished_def)
  qed
qed

text \<open>C26: A claim is acknowledged at most once: after an acknowledgement of a request under a claim
  generation has reported success, whether as completed or as failed, every acknowledgement of this
  request under this generation, at any later time and whatever happened in between, reports failure
  and changes nothing.\<close>

theorem acknowledge_at_most_once:
  assumes "jobs_inv d" "mark_completed i g d = (Ok True, d1) \<or> mark_failed i g failure d = (Ok True, d1)"
    "store_steps x d1 e"
  shows "mark_completed i g e = (Ok False, e) \<and> mark_failed i g failure' e = (Ok False, e)"
proof -
  obtain r gen where r: "to_i64 g = Ok gen" "r \<in> set (db_jobs d1)" "j_request_id r = i" "is_finished r" "jobs_inv d1"
    by (rule acknowledged_row [OF assms(1,2)])
  show ?thesis
    using finished_claim_refused [OF r(5,2) disjI1 [OF r(4)] r(1) assms(3)] r(3) by simp
qed

definition demo_running :: db where
  "demo_running = snd (claim_next_runnable sample_queue)"

theorem acknowledge_at_most_once_witness:
  "fst (mark_completed ''r1'' 1 demo_running) = Ok True \<and>
   mark_completed ''r1'' 1 (snd (mark_completed ''r1'' 1 demo_running)) =
     (Ok False, snd (mark_completed ''r1'' 1 demo_running))"
proof -
  let ?d = "snd (mark_completed ''r1'' 1 demo_running)"
  have inv: "jobs_inv demo_running" unfolding demo_running_def by (intro claim_inv sample_queue_inv)
  have f: "fst (mark_completed ''r1'' 1 demo_running) = Ok True" by code_simp
  then have r: "mark_completed ''r1'' 1 demo_running = (Ok True, ?d)" by (simp add: prod_eq_iff)
  show ?thesis
    using acknowledge_at_most_once [OF inv disjI1 [OF r] steps_refl] f by simp
qed

section \<open>Summaries\<close>

lemma query_unread_cong:
  assumes "db_completions d' = db_completions d"
    "first_row (\<lambda>s. s_task_id s = task \<and> is_current_unread s) (db_summaries d') = None \<longleftrightarrow>
     first_row (\<lambda>s. s_task_id s = task \<and> is_current_unread s) (db_summaries d) = None"
    "\<And>s s'. first_row (\<lambda>s. s_task_id s = task \<and> is_current_unread s) (db_summaries d') = Some s' \<Longrightarrow>
      first_row (\<lambda>s. s_task_id s = task \<and> is_current_unread s) (db_summaries d) = Some s \<Longrightarrow>
      s_generation s' = s_generation s \<and> s_cache_object s' = s_cache_object s"
  shows "query_current_unread task d' = query_current_unread task d"
proof (cases "first_row (\<lambda>s. s_task_id s = task \<and> is_current_unread s) (db_summaries d)")
  case None
  with assms(2) show ?thesis by (simp add: query_current_unread_def)
next
  case (Some s)
  with assms(2) obtain s' where s': "first_row (\<lambda>s. s_task_id s = task \<and> is_current_unread s) (db_summaries d') = Some s'"
    by auto
  from assms(3) [OF s' Some] have same: "s_generation s' = s_generation s" "s_cache_object s' = s_cache_object s"
    by simp_all
  show ?thesis unfolding query_current_unread_def s' Some option.case same assms(1) ..
qed

lemma first_row_append_other: "\<not> q n \<Longrightarrow> first_row q (ss @ [n]) = first_row q ss"
  by (induction ss) (auto simp: first_row_def)

lemma first_row_map_key:
  assumes "\<And>s. s \<in> set ss \<Longrightarrow> q (F s) \<longleftrightarrow> q s"
  shows "first_row q (map F ss) = map_option F (first_row q ss)"
  using assms by (induction ss) (auto simp: first_row_def)

lemma load_summary_cong:
  assumes "db_completions d' = db_completions d" "query_current_unread task d' = query_current_unread task d"
  shows "load_summary_claim x outcome request task g p covers d' = load_summary_claim x outcome request task g p covers d"
  unfolding load_summary_claim_def load_previous_def assms ..

lemma load_outcome:
  "load_summary_claim x outcome request task g p covers d = Ok c \<longleftrightarrow>
   sc_outcome c = outcome \<and> load_summary_claim x outcome' request task g p covers d = Ok (c\<lparr>sc_outcome := outcome'\<rparr>)"
  by (cases c) (auto simp: load_summary_claim_def and_then_Ok_iff split: if_splits)

lemma flip_query:
  assumes "\<And>s. s \<in> set (db_summaries d) \<Longrightarrow> p s \<Longrightarrow> is_active_claim s" "st \<in> {Generating, Interrupted}"
  shows "query_current_unread task (d\<lparr>db_summaries := update_where p (set_summary_state st) (db_summaries d)\<rparr>) =
    query_current_unread task d"
proof -
  let ?F = "\<lambda>s. if p s then set_summary_state st s else s"
  let ?q = "\<lambda>s. s_task_id s = task \<and> is_current_unread s"
  have q: "?q (?F s) \<longleftrightarrow> ?q s" if "s \<in> set (db_summaries d)" for s
    using assms(1) [OF that] assms(2)
    by (auto simp: set_summary_state_def is_current_unread_def is_active_claim_def)
  have "first_row ?q (map ?F (db_summaries d)) = map_option ?F (first_row ?q (db_summaries d))"
    using q by (rule first_row_map_key)
  then show ?thesis
    by (intro query_unread_cong) (auto simp: update_where_def set_summary_state_def)
qed

text \<open>A claim that \<open>claim_summary\<close> returns is stored, generating, under the request id, and is
  what the store loads for that row.\<close>

lemma claim_summary_loaded:
  assumes inv: "ledger_inv x d" and rt: "json_ids_roundtrip x"
    and e: "claim_summary x task request d = (Ok (Some (Claimed c)), d1)"
  obtains s where "s \<in> set (db_summaries d1)" "s_task_id s = task" "s_state s = Generating" "s_claim_id s = Some request"
    "load_summary_claim x (sc_outcome c) request task (s_generation s) (s_previous_generation s) (s_covers s) d1 = Ok c"
    "sc_generation c = as_u64 (s_generation s)"
proof -
  note old = ledger_invD [OF inv]
  have lo: "sc_outcome c' = out" "sc_generation c' = as_u64 g"
    if "load_summary_claim x out request task g p cov d' = Ok c'" for out g p cov d' c'
    using that by (auto simp: load_summary_claim_def and_then_Ok_iff split: if_splits)
  have active: "s_claim_id s = Some q" if "s \<in> set (db_summaries d)" "s_request_id s = Some q" "is_active_claim s" for s q
    using old(3) [OF that(1)] that(2,3) by (simp add: row_inv_def)
  let ?body = "\<lambda>d. case first_row (\<lambda>s. s_request_id s = Some request) (db_summaries d) of
       Some s \<Rightarrow> replay_summary_request x task request s d
     | None \<Rightarrow> (case first_row (\<lambda>s. s_task_id s = task \<and> is_active_claim s) (db_summaries d) of
            Some s \<Rightarrow> join_active_claim x task request s d
          | None \<Rightarrow> insert_summary_claim x task request d)"
  have body: "?body d = Commit (Ok (Some (Claimed c))) d1"
  proof -
    have "in_txn ?body d = (Ok (Some (Claimed c)), d1)"
      using e by (auto simp: claim_summary_def checked_def split: sum.splits)
    then show ?thesis
      by (auto simp: in_txn_Pair replay_summary_request_def join_active_claim_def insert_summary_claim_def
          attempt_Rollback Let_def split: option.splits if_splits summary_state.splits)
  qed
  show ?thesis
  proof (cases "first_row (\<lambda>s. s_request_id s = Some request) (db_summaries d)")
    case (Some s)
    note s = first_row_Some [OF Some]
    from body Some have b: "replay_summary_request x task request s d = Commit (Ok (Some (Claimed c))) d1" by simp
    then have st: "s_task_id s = task" "s_state s = Generating \<or> s_state s = Interrupted"
      by (auto simp: replay_summary_request_def Let_def split: if_splits summary_state.splits)
    then have cl: "s_claim_id s = Some request" using active s by (auto simp: is_active_claim_def)
    let ?load = "\<lambda>d. load_summary_claim x ClaimReplay request task (s_generation s) (s_previous_generation s) (s_covers s) d"
    from st(2) show ?thesis
    proof
      assume g: "s_state s = Generating"
      then have "d1 = d" "?load d = Ok c"
        using b st(1) by (auto simp: replay_summary_request_def attempt_Commit Let_def)
      with s st(1) cl g lo that show ?thesis by metis
    next
      assume i: "s_state s = Interrupted"
      let ?sel = "\<lambda>r. s_request_id r = Some request \<and> s_task_id r = task \<and> s_generation r = s_generation s \<and>
          s_state r = Interrupted \<and> s_claim_id r = Some request"
      have d1: "d1 = d\<lparr>db_summaries := update_where ?sel (set_summary_state Generating) (db_summaries d)\<rparr>" "?load d1 = Ok c"
        using b st(1) i by (auto simp: replay_summary_request_def attempt_Commit write_Ok Let_def split: if_splits)
      have "set_summary_state Generating s \<in> set (db_summaries d1)"
        using s st(1) i cl by (auto simp: d1(1) set_update_where intro!: image_eqI [of _ _ s])
      with d1(2) st(1) cl lo that [of "set_summary_state Generating s"] show ?thesis
        by (simp add: set_summary_state_def)
    qed
  next
    case None
    show ?thesis
    proof (cases "first_row (\<lambda>s. s_task_id s = task \<and> is_active_claim s) (db_summaries d)")
      case (Some s)
      note s = first_row_Some [OF Some]
      from body None Some have "s_claim_id s = Some request"
        by (auto simp: join_active_claim_def split: option.splits if_splits)
      then have "s_request_id s = Some request" using old(3) [of s] s by (simp add: row_inv_def)
      with None s show ?thesis by (auto simp: first_row_None)
    next
      case idle: None
      from body None idle have b: "insert_summary_claim x task request d = Commit (Ok (Some (Claimed c))) d1" by simp
      then obtain u ps g prev where q: "query_current_unread task d = Ok u" "query_pending_summary_completions x task d = Ok ps"
          "ps \<noteq> []" "g = max_generation task (db_summaries d) + 1" "g \<le> i64_max" "generation_option_i64 u = Ok prev"
        and n: "d1 = d\<lparr>db_summaries := db_summaries d @
                      [\<lparr> s_task_id = task, s_generation = g, s_state = Generating,
                         s_covers = json_ids x (map p_completion_id ps), s_cache_object = None, s_request_id = Some request,
                         s_claim_id = Some request, s_previous_generation = prev, s_superseded_by = None \<rparr>]\<rparr>"
          "summaries_ok (db_summaries d1)"
        and c: "c = \<lparr> sc_outcome = ClaimInserted, sc_request_id = request, sc_task_id = task,
                   sc_generation = as_u64 g, sc_previous_unread = u, sc_completions = ps \<rparr>"
        by (auto simp: insert_summary_claim_def attempt_Commit checked_succ_Ok write_Ok Let_def split: if_splits)
      let ?n = "\<lparr> s_task_id = task, s_generation = g, s_state = Generating,
                         s_covers = json_ids x (map p_completion_id ps), s_cache_object = None, s_request_id = Some request,
                         s_claim_id = Some request, s_previous_generation = prev, s_superseded_by = None \<rparr>"
      let ?q = "\<lambda>s. s_task_id s = task \<and> is_current_unread s"
      have "\<not> ?q ?n" by (simp add: is_current_unread_def)
      from first_row_append_other [of ?q, OF this, of "db_summaries d"]
      have "first_row ?q (db_summaries d1) = first_row ?q (db_summaries d)" by (simp add: n(1))
      then have qq: "query_current_unread task d1 = query_current_unread task d"
        by (intro query_unread_cong) (auto simp: n(1))
      have pos: "summary_checks ?n" using summaries_okD(2) [OF n(2), of ?n] by (simp add: n(1))
      have prev: "load_previous task prev d1 = Ok u"
        using q(1,6) qq by (cases u) (auto simp: load_previous_def generation_option_i64_def and_then_Ok_iff to_i64_Ok)
      note pc = pending_completions [OF old(1) q(2)]
      have "load_summary_claim x ClaimInserted request task g prev (json_ids x (map p_completion_id ps)) d1 = Ok c"
        using pos pc(1,3) q(3) rt prev unfolding n(1) c
        by (simp add: load_summary_claim_def json_ids_roundtrip_def summary_checks_def split: option.splits)
      with that [of ?n] c show ?thesis by (simp add: n(1))
    qed
  qed
qed

text \<open>C2: No observed completion is lost: in every database the store can produce, a completion
  that is recorded as summarized belongs to a summary of its task that was heard, or to the
  current unread summary of the task, the one that will be played next; never to a summary that
  was replaced before it was heard.\<close>

theorem no_completion_lost:
  assumes "store_reachable x d" "json_ids_roundtrip x" "c \<in> set (db_completions d)"
    "c_summarized_generation c = Some g"
  shows "\<exists>s \<in> set (db_summaries d). s_task_id s = c_task_id c \<and> s_generation s = g \<and>
    (s_state s = Heard \<and> s_superseded_by s = None \<or> is_current_unread s)"
proof -
  have l: "ledger_inv x d" using ledger.reachable_holds [OF assms(1)] assms(2) by blast
  obtain s where "s \<in> set (db_summaries d)" "summary_key s = (c_task_id c, g)" "is_live s"
    using cover_invD(1) [OF ledger_invD(6) [OF l] assms(3,4)] by blast
  then show ?thesis by (auto simp: summary_key_def is_live_def is_current_unread_def)
qed

text \<open>C19: A claimed summary can be published: whatever \<open>claim_summary\<close> returns, as a new claim
  or as a replay, publishing it next succeeds with the reference of its cache object (as long as
  the number of completions stays within the range of a \<open>u32\<close>).\<close>

theorem claimed_summary_publishes:
  assumes "ledger_inv x d" "json_ids_roundtrip x" "claim_summary x task request d = (Ok (Some (Claimed c)), d1)"
    "length (db_completions d1) + MAX_SUMMARY_COMPLETIONS_PER_CLAIM \<le> u32_max"
  shows "\<exists>i u d2. for_task (sha256 x) task (sc_generation c) = Ok i \<and> publish_summary x c (reference i) d1 = (Ok u, d2)"
proof -
  have inv1: "ledger_inv x d1" using claim_summary_ledger_inv [OF assms(1,2), of task request] assms(3) by simp
  obtain s where s: "s \<in> set (db_summaries d1)" "s_task_id s = task" "s_state s = Generating" "s_claim_id s = Some request"
    "load_summary_claim x (sc_outcome c) request task (s_generation s) (s_previous_generation s) (s_covers s) d1 = Ok c"
    "sc_generation c = as_u64 (s_generation s)"
    using claim_summary_loaded [OF assms(1-3)] by blast
  have "0 < s_generation s" "s_generation s \<le> i64_max"
    using summaries_okD(2) [OF ledger_invD(2) [OF inv1] s(1)] ledger_invD(3) [OF inv1 s(1)]
    by (auto simp: summary_checks_def row_inv_def)
  then have "sc_generation c \<noteq> 0" using s(6) uint_as_u64 [of "s_generation s"] by auto
  then have "for_task (sha256 x) task (sc_generation c) = Ok (row_cache_id x task (s_generation s))"
    using s(6) by (simp add: for_task_def row_cache_id_def)
  with publish_loaded [OF inv1 s(1,3,4) _ assms(4)] s(2,5) show ?thesis by metis
qed

text \<open>Restarting and resuming.\<close>

lemma flip_ok:
  assumes "summaries_ok ss" "\<And>s. s \<in> set ss \<Longrightarrow> p s \<Longrightarrow> is_active_claim s" "st \<in> {Generating, Interrupted}"
  shows "summaries_ok (update_where p (set_summary_state st) ss)"
  unfolding update_where_def
proof (rule summaries_ok_map [OF assms(1)], goal_cases)
  case (1 r)
  then show ?case
    using assms(2) [OF 1] assms(3) summaries_okD(2) [OF assms(1) 1]
    by (auto simp: set_summary_state_def summary_key_def summary_checks_def is_active_claim_def split: option.splits)
next
  case (2 a b)
  have "is_current_unread r" if "is_current_unread (if p r then set_summary_state st r else r)" for r
    using that assms(3) by (auto simp: set_summary_state_def is_current_unread_def split: if_splits)
  with 2 show ?case using unread_unique [OF assms(1)] by blast
qed

lemma release_ok:
  assumes inv: "ledger_inv x d"
  shows "summaries_ok (update_where (\<lambda>s. s_state s = Leased) release_row (db_summaries d))"
  unfolding update_where_def
proof (rule summaries_ok_map [OF ledger_invD(2) [OF inv]], goal_cases)
  case (1 r)
  then show ?case
    using summaries_okD(2) [OF ledger_invD(2) [OF inv] 1]
    by (auto simp: release_row_def summary_key_def summary_checks_def is_active_claim_def split: option.splits)
next
  case (2 a b)
  have "is_current_unread r" if "is_current_unread (if s_state r = Leased then release_row r else r)" for r
    using that by (auto simp: release_row_def is_current_unread_def split: if_splits)
  with 2 show ?case using unread_unique [OF ledger_invD(2) [OF inv]] by blast
qed

lemma release_query:
  "query_current_unread task (d\<lparr>db_summaries := update_where (\<lambda>s. s_state s = Leased) release_row (db_summaries d),
     db_leases := []\<rparr>) = query_current_unread task d"
proof -
  let ?F = "\<lambda>s. if s_state s = Leased then release_row s else s"
  let ?q = "\<lambda>s. s_task_id s = task \<and> is_current_unread s"
  have "?q (?F s) \<longleftrightarrow> ?q s" for s by (auto simp: release_row_def is_current_unread_def)
  then have "first_row ?q (map ?F (db_summaries d)) = map_option ?F (first_row ?q (db_summaries d))"
    by (intro first_row_map_key) simp
  then show ?thesis
    by (intro query_unread_cong) (auto simp: update_where_def release_row_def)
qed

text \<open>What a successful start of the program leaves of the ledger: every claim that was being
  generated is interrupted, nothing is leased, and the queries of the ledger are unchanged.\<close>

lemma open_store_ledger:
  assumes inv: "ledger_inv x d" and e: "open_store d = (Ok r, d')"
  shows "ledger_inv x d'" "db_completions d' = db_completions d"
    "query_current_unread task d' = query_current_unread task d"
    "db_summaries d' = map (\<lambda>s. if s_state s = Generating then set_summary_state Interrupted s
        else if s_state s = Leased then release_row s else s) (db_summaries d)"
    "db_leases d' = []"
proof -
  show inv': "ledger_inv x d'" using open_store_ledger_inv [OF inv] e by simp
  obtain n1 d1 where d1: "recover_interrupted_jobs d = (Ok n1, d1)"
    using e by (auto simp: open_store_def split: prod.splits sum.splits)
  have lp: "ledger_part d1 = ledger_part d" using frames(10) [of d] d1 by (simp add: recover_frame)
  then have s1: "db_summaries d1 = db_summaries d" "db_completions d1 = db_completions d" by (simp_all add: ledger_part_def)
  have inv1: "ledger_inv x d1" using ledger_inv_frame [OF lp inv] .
  let ?d2 = "d1\<lparr>db_summaries := update_where (\<lambda>s. s_state s = Generating) (set_summary_state Interrupted) (db_summaries d1)\<rparr>"
  have "summaries_ok (update_where (\<lambda>s. s_state s = Generating) (set_summary_state Interrupted) (db_summaries d1))"
    by (rule flip_ok [OF ledger_invD(2) [OF inv1]]) (auto simp: is_active_claim_def)
  then have r2: "recover_interrupted_summaries d1 = (Ok (count_where (\<lambda>s. s_state s = Generating) (db_summaries d1)), ?d2)"
    by (simp add: recover_interrupted_summaries_def in_txn_def write_defs Let_def)
  have inv2: "ledger_inv x ?d2" using recover_summaries_inv [OF inv1] r2 by simp
  let ?d3 = "?d2\<lparr>db_summaries := update_where (\<lambda>s. s_state s = Leased) release_row (db_summaries ?d2), db_leases := []\<rparr>"
  have r3: "recover_interrupted_playback_leases ?d2 = (Ok (), ?d3)"
    using release_ok [OF inv2] by (simp add: recover_interrupted_playback_leases_def in_txn_def write_defs leases_ok_def)
  have d': "d' = ?d3" using e d1 r2 r3 by (simp add: open_store_def)
  show "db_completions d' = db_completions d" "db_leases d' = []" using d' s1 by simp_all
  show "db_summaries d' = map (\<lambda>s. if s_state s = Generating then set_summary_state Interrupted s
        else if s_state s = Leased then release_row s else s) (db_summaries d)"
    using d' s1 by (auto simp: update_where_def set_summary_state_def)
  have "query_current_unread task d' = query_current_unread task ?d2" unfolding d' by (rule release_query)
  also have "\<dots> = query_current_unread task d1" by (rule flip_query) (auto simp: is_active_claim_def)
  also have "\<dots> = query_current_unread task d"
    by (rule query_unread_cong) (use s1 in auto)
  finally show "query_current_unread task d' = query_current_unread task d" .
qed

text \<open>An interrupted claim whose row still loads is resumed with exactly what it loads.\<close>

lemma resume_loaded:
  assumes inv: "ledger_inv x d" and s: "s \<in> set (db_summaries d)" "s_state s = Interrupted" "s_claim_id s = Some request"
    and load: "load_summary_claim x ClaimReplay request (s_task_id s) (s_generation s) (s_previous_generation s) (s_covers s) d = Ok c"
  defines "p \<equiv> \<lambda>r. s_task_id r = s_task_id s \<and> s_generation r = s_generation s \<and> s_state r = Interrupted \<and> s_claim_id r = Some request"
  shows "resume_interrupted_summary x (s_task_id s) d =
    (Ok (Some c), d\<lparr>db_summaries := update_where p (set_summary_state Generating) (db_summaries d)\<rparr>)"
proof -
  note old = ledger_invD [OF inv]
  have act: "is_active_claim s" using s(2) by (simp add: is_active_claim_def)
  have uu: "uuid_ok x (s_task_id s)" using old(3) [OF s(1)] by (simp add: row_inv_def)
  have first: "first_row (\<lambda>r. s_task_id r = s_task_id s \<and> s_state r = Interrupted) (db_summaries d) = Some s"
    using s active_unique [OF old(2) _ s(1)] act
    by (intro first_row_unique [OF summaries_okD(1) [OF old(2)]]) (auto simp: is_active_claim_def)
  have pa: "is_active_claim r" if "p r" for r using that by (simp add: p_def is_active_claim_def)
  have ok: "summaries_ok (update_where p (set_summary_state Generating) (db_summaries d))"
    using pa by (intro flip_ok [OF old(2)]) auto
  have one: "count_where p (db_summaries d) = 1"
    using s by (intro count_where_one [OF summaries_okD(1) [OF old(2)]]) (auto simp: p_def summary_key_def)
  let ?d = "d\<lparr>db_summaries := update_where p (set_summary_state Generating) (db_summaries d)\<rparr>"
  have "query_current_unread (s_task_id s) ?d = query_current_unread (s_task_id s) d"
    using pa by (intro flip_query) auto
  then have "load_summary_claim x ClaimReplay request (s_task_id s) (s_generation s) (s_previous_generation s) (s_covers s) ?d = Ok c"
    using load load_summary_cong [of ?d d "s_task_id s"] by simp
  with first ok one s(3) uu show ?thesis
    by (simp add: resume_interrupted_summary_def in_txn_def write_defs Let_def p_def)
qed

text \<open>C20: A summary survives a restart: if the program stops right after a claim and starts again,
  resuming the task returns the same claim, with the same generation, completions and previous
  summary, and publishing it succeeds.\<close>

theorem claim_survives_restart:
  assumes "ledger_inv x d" "json_ids_roundtrip x" "claim_summary x task request d = (Ok (Some (Claimed c)), d1)"
    "open_store d1 = (Ok r, d2)"
    "length (db_completions d1) + MAX_SUMMARY_COMPLETIONS_PER_CLAIM \<le> u32_max"
  shows "\<exists>d3 i u d4. resume_interrupted_summary x task d2 = (Ok (Some (c\<lparr>sc_outcome := ClaimReplay\<rparr>)), d3) \<and>
    for_task (sha256 x) task (sc_generation c) = Ok i \<and>
    publish_summary x (c\<lparr>sc_outcome := ClaimReplay\<rparr>) (reference i) d3 = (Ok u, d4)"
proof -
  have inv1: "ledger_inv x d1" using claim_summary_ledger_inv [OF assms(1,2), of task request] assms(3) by simp
  obtain s where s: "s \<in> set (db_summaries d1)" "s_task_id s = task" "s_state s = Generating" "s_claim_id s = Some request"
    "load_summary_claim x (sc_outcome c) request task (s_generation s) (s_previous_generation s) (s_covers s) d1 = Ok c"
    "sc_generation c = as_u64 (s_generation s)"
    using claim_summary_loaded [OF assms(1-3)] by blast
  note op = open_store_ledger [OF inv1 assms(4)]
  let ?s = "set_summary_state Interrupted s" and ?c = "c\<lparr>sc_outcome := ClaimReplay\<rparr>"
  have s2: "?s \<in> set (db_summaries d2)" "s_state ?s = Interrupted" "s_claim_id ?s = Some request" "s_task_id ?s = task"
    using s by (auto simp: op(4) set_summary_state_def intro!: image_eqI [of _ _ s])
  have load2: "load_summary_claim x ClaimReplay request (s_task_id ?s) (s_generation ?s) (s_previous_generation ?s) (s_covers ?s) d2 = Ok ?c"
    using s(2,5) load_outcome [of x "sc_outcome c" request task _ _ _ d1 c ClaimReplay] load_summary_cong [OF op(2,3)]
    by (simp add: set_summary_state_def)
  define d3 where "d3 = d2\<lparr>db_summaries := update_where (\<lambda>r. s_task_id r = s_task_id ?s \<and> s_generation r = s_generation ?s \<and>
      s_state r = Interrupted \<and> s_claim_id r = Some request) (set_summary_state Generating) (db_summaries d2)\<rparr>"
  have res: "resume_interrupted_summary x task d2 = (Ok (Some ?c), d3)"
    using resume_loaded [OF op(1) s2(1-3) load2] s2(4) by (simp add: d3_def)
  have inv3: "ledger_inv x d3" using resume_inv [OF op(1), of task] res by simp
  let ?g = "set_summary_state Generating ?s"
  have g3: "?g \<in> set (db_summaries d3)" "s_state ?g = Generating" "s_claim_id ?g = Some request" "s_task_id ?g = task"
      "s_generation ?g = s_generation s"
    using s2 by (auto simp: d3_def set_update_where set_summary_state_def intro!: image_eqI [of _ _ ?s])
  have q3: "query_current_unread task d3 = query_current_unread task d2"
    unfolding d3_def by (rule flip_query) (auto simp: is_active_claim_def)
  have load3: "load_summary_claim x ClaimReplay request (s_task_id ?g) (s_generation ?g) (s_previous_generation ?g) (s_covers ?g) d3 = Ok ?c"
    using load2 load_summary_cong [OF _ q3] g3(4) s2(4) by (simp add: d3_def set_summary_state_def)
  have len: "length (db_completions d3) + MAX_SUMMARY_COMPLETIONS_PER_CLAIM \<le> u32_max"
    using assms(5) op(2) by (simp add: d3_def)
  obtain u d4 where pub: "publish_summary x ?c (reference (row_cache_id x task (s_generation s))) d3 = (Ok u, d4)"
    using publish_loaded [OF inv3 g3(1-3) load3 len] g3(4,5) by metis
  have "0 < s_generation s" "s_generation s \<le> i64_max"
    using summaries_okD(2) [OF ledger_invD(2) [OF inv1] s(1)] ledger_invD(3) [OF inv1 s(1)]
    by (auto simp: summary_checks_def row_inv_def)
  then have "for_task (sha256 x) task (sc_generation c) = Ok (row_cache_id x task (s_generation s))"
    using s(6) uint_as_u64 [of "s_generation s"] by (auto simp: for_task_def row_cache_id_def)
  with res pub show ?thesis by blast
qed

section \<open>What a published summary covers\<close>

lemma count_where_map: "count_where q (map f xs) = count_where (\<lambda>r. q (f r)) xs"
  by (simp add: count_where_def filter_map comp_def)

lemma count_where_ids:
  assumes "distinct (map key rows)" "distinct ids" "\<And>i. i \<in> set ids \<Longrightarrow> \<exists>r \<in> set rows. key r = i"
  shows "count_where (\<lambda>r. key r \<in> set ids) rows = length ids"
proof -
  have "distinct (map key (filter (\<lambda>r. key r \<in> set ids) rows))" using assms(1) by (rule distinct_map_filter)
  moreover have "set (map key (filter (\<lambda>r. key r \<in> set ids) rows)) = set ids" using assms(3) by fastforce
  ultimately have "length (map key (filter (\<lambda>r. key r \<in> set ids) rows)) = length ids"
    using assms(2) by (metis distinct_card)
  then show ?thesis by (simp add: count_where_def)
qed

lemma count_where_disj:
  "(\<And>r. r \<in> set rows \<Longrightarrow> \<not> (p r \<and> q r)) \<Longrightarrow> count_where (\<lambda>r. p r \<or> q r) rows = count_where p rows + count_where q rows"
  by (induction rows) (auto simp: count_where_def)

lemma publication_count:
  assumes pub: "publication x d s uo cache ids" and "distinct ids"
    and none: "\<And>i c. c \<in> set (db_completions d) \<Longrightarrow> c_completion_id c \<in> set ids \<Longrightarrow> c_summarized_generation c = None"
  shows "count_where (covered_by (s_task_id s) (s_generation s))
      (map (cover_map (s_task_id s) uo (s_generation s) ids) (db_completions d)) =
    length ids + count_where (moved (s_task_id s) uo) (db_completions d)"
proof -
  let ?cs = "db_completions d" and ?t = "s_task_id s" and ?g = "s_generation s"
  have old: "\<not> covered_by ?t ?g c" if c: "c \<in> set ?cs" for c
  proof
    assume "covered_by ?t ?g c"
    then obtain v where v: "v \<in> set (db_summaries d)" "summary_key v = (?t, ?g)" "is_live v"
      using cover_invD(1) [OF ledger_invD(6) [OF publicationD(1) [OF pub]] c] by (auto simp: covered_by_def)
    then have "v = s"
      using key_unique [OF ledger_invD(2) [OF publicationD(1) [OF pub]] v(1) publicationD(2) [OF pub]]
      by (simp add: summary_key_def)
    with v(3) publicationD(3) [OF pub] show False by (simp add: is_live_def)
  qed
  have "covered_by ?t ?g (cover_map ?t uo ?g ids c) \<longleftrightarrow> c_completion_id c \<in> set ids \<or> moved ?t uo c"
    if c: "c \<in> set ?cs" for c
    using old [OF c] publicationD(7) [OF pub c]
    by (auto simp: cover_map_def covered_by_def moved_def split: option.splits)
  then have "count_where (covered_by ?t ?g) (map (cover_map ?t uo ?g ids) ?cs) =
      count_where (\<lambda>c. c_completion_id c \<in> set ids \<or> moved ?t uo c) ?cs"
    by (simp add: count_where_map cong: count_where_cong)
  also have "\<dots> = count_where (\<lambda>c. c_completion_id c \<in> set ids) ?cs + count_where (moved ?t uo) ?cs"
    using none by (intro count_where_disj) (auto simp: moved_def covered_by_def split: option.splits)
  also have "count_where (\<lambda>c. c_completion_id c \<in> set ids) ?cs = length ids"
    using completions_invD(1) [OF ledger_invD(1) [OF publicationD(1) [OF pub]]] assms(2) publicationD(8) [OF pub]
    by (intro count_where_ids) blast+
  finally show ?thesis .
qed

lemma previous_coverage:
  assumes inv: "ledger_inv x d" and uo: "uo = unread_row t (db_summaries d)"
    and n: "count_where (moved t uo) (db_completions d) \<le> u32_max"
  shows "(case query_current_unread t d of Inr (Some v) \<Rightarrow> unat (u_coverage_count v) | _ \<Rightarrow> 0) =
    count_where (moved t uo) (db_completions d)"
proof (cases uo)
  case None
  then have "first_row (\<lambda>s. s_task_id s = t \<and> is_current_unread s) (db_summaries d) = None"
    using uo by (simp add: unread_row_def)
  with None show ?thesis by (simp add: query_current_unread_def moved_def count_where_def)
next
  case (Some w)
  have w: "first_row (\<lambda>s. s_task_id s = t \<and> is_current_unread s) (db_summaries d) = Some w" "w \<in> set (db_summaries d)"
      "s_task_id w = t" "is_current_unread w"
    using uo Some unread_row_Some [of t "db_summaries d" w] by (auto simp: unread_row_def)
  have nm: "count_where (covered_by t (s_generation w)) (db_completions d) = count_where (moved t uo) (db_completions d)"
    by (simp add: moved_def [abs_def] Some)
  obtain k where "k \<in> set (db_completions d)" "covered_by t (s_generation w) k"
    using cover_invD(2) [OF ledger_invD(6) [OF inv] w(2,4)] w(3) by auto
  then have "0 < count_where (moved t uo) (db_completions d)" using nm count_where_pos by metis
  moreover have "s_cache_object w \<noteq> None" "0 < s_generation w"
    using ledger_invD(3) [OF inv w(2)] w(4) summaries_okD(2) [OF ledger_invD(2) [OF inv] w(2)]
    by (auto simp: row_inv_def is_published_def is_current_unread_def summary_checks_def)
  ultimately show ?thesis
    using w(1) n nm by (auto simp: query_current_unread_def Let_def unat_of_nat_u32)
qed

lemma publication_others:
  assumes pub: "publication x d s uo cache ids" and t: "t \<noteq> s_task_id s"
  shows "first_row (\<lambda>r. s_task_id r = t \<and> is_current_unread r) (map (publish_map uo s cache) (db_summaries d)) =
      first_row (\<lambda>r. s_task_id r = t \<and> is_current_unread r) (db_summaries d)"
    "count_where (covered_by t g) (map (cover_map (s_task_id s) uo (s_generation s) ids) (db_completions d)) =
      count_where (covered_by t g) (db_completions d)"
proof -
  show "first_row (\<lambda>r. s_task_id r = t \<and> is_current_unread r) (map (publish_map uo s cache) (db_summaries d)) =
      first_row (\<lambda>r. s_task_id r = t \<and> is_current_unread r) (db_summaries d)"
  proof (rule first_row_map_other)
    fix r
    show "publish_map uo s cache r = r" if "s_task_id r = t \<and> is_current_unread r"
      using that t publish_map_same [OF pub] by simp
    show "s_task_id (publish_map uo s cache r) = t \<and> is_current_unread (publish_map uo s cache r) \<longleftrightarrow>
        s_task_id r = t \<and> is_current_unread r"
      using t publish_map_same [OF pub, of r] publish_map_key [OF pub, of r] by (auto simp: summary_key_def)
  qed
  show "count_where (covered_by t g) (map (cover_map (s_task_id s) uo (s_generation s) ids) (db_completions d)) =
      count_where (covered_by t g) (db_completions d)"
    unfolding count_where_map
  proof (rule count_where_cong)
    fix k assume "k \<in> set (db_completions d)"
    then show "covered_by t g (cover_map (s_task_id s) uo (s_generation s) ids k) = covered_by t g k"
      using t cover_map_same [OF pub] by (cases "c_task_id k = s_task_id s") (auto simp: cover_map_def covered_by_def)
  qed
qed

lemma publish_outcome:
  assumes inv: "ledger_inv x d" and rt: "json_ids_roundtrip x" and e: "publish_summary x c cache d = (Ok u, d')"
    and len: "length (db_completions d) + MAX_SUMMARY_COMPLETIONS_PER_CLAIM \<le> u32_max"
  shows "current_unread_summary x (sc_task_id c) d' = Ok (Some u) \<and>
    unat (u_coverage_count u) = length (sc_completions c) +
      (case query_current_unread (sc_task_id c) d of Inr (Some v) \<Rightarrow> unat (u_coverage_count v) | _ \<Rightarrow> 0) \<and>
    (\<forall>r' \<in> set (db_completions d'). c_completion_id r' \<in> p_completion_id ` set (sc_completions c) \<longrightarrow>
       c_summarized_generation r' = Some (uint (sc_generation c))) \<and>
    (\<forall>t. t \<noteq> sc_task_id c \<longrightarrow> query_current_unread t d' = query_current_unread t d)"
  using inv e
proof (cases rule: publish_cases)
  case (published s uo)
  note old = ledger_invD [OF inv]
  let ?t = "s_task_id s" and ?g = "s_generation s" and ?ids = "map p_completion_id (sc_completions c)"
  let ?F = "publish_map uo s cache" and ?G = "cover_map ?t uo ?g ?ids"
  have "?ids \<noteq> []"
    using published(1) by (auto simp: validate_summary_claim_def and_then_Ok_iff split: if_splits)
  then have pub: "publication x d s uo cache ?ids"
    using inv published(2,5,7,8,11) unfolding publication_def by fastforce
  have d': "db_summaries d' = map ?F (db_summaries d)" "db_completions d' = map ?G (db_completions d)"
    by (simp_all add: published(13) publish_maps)
  have act: "is_active_claim s" using published(5) by (simp add: is_active_claim_def)
  then have "covers_ok x (db_completions d) s" using old(7) published(2) by (simp add: claims_inv_def)
  then have ids: "distinct ?ids" "length ?ids \<le> MAX_SUMMARY_COMPLETIONS_PER_CLAIM"
    using published(9) rt by (simp_all add: covers_ok_def json_ids_roundtrip_def)
  have none: "c_summarized_generation r = None" if r: "r \<in> set (db_completions d)" "c_completion_id r \<in> set ?ids" for r
  proof -
    obtain p where "p \<in> set (sc_completions c)" "c_completion_id r = p_completion_id p" using r(2) by auto
    then show ?thesis
      using published(11) distinct_key_eq [OF completions_invD(1) [OF old(1)] r(1)] by metis
  qed
  let ?n = "count_where (moved ?t uo) (db_completions d)"
  have cov: "count_where (covered_by ?t ?g) (db_completions d') = length ?ids + ?n"
    unfolding d'(2) using none by (intro publication_count [OF pub ids(1)])
  have n: "?n + length ?ids \<le> u32_max"
    using len ids(2) by (simp add: count_where_def) (meson add_mono_thms_linordered_semiring(1) le_trans length_filter_le)
  have uf: "u = \<lparr> u_task_id = ?t, u_generation = sc_generation c, u_cache_object = cache,
      u_coverage_count = of_nat (length ?ids + ?n) \<rparr>"
    using published(3,14) by (simp add: add.commute)
  have gen: "as_u64 ?g = sc_generation c" "0 < ?g"
    using published(4) summaries_okD(2) [OF old(2) published(2)] by (auto simp: summary_checks_def)
  have mem: "publish_row cache s \<in> set (db_summaries d')"
    using published(2) by (auto simp: d'(1) publish_map_def intro!: image_eqI [of _ _ s])
  have "first_row (\<lambda>r. s_task_id r = ?t \<and> is_current_unread r) (db_summaries d') = Some (publish_row cache s)"
    using query_unread_row [OF published(12), of "publish_row cache s"] mem published_row_facts(3) [OF pub]
    by (simp add: published(13) publish_row_def)
  then have q: "query_current_unread ?t d' = Ok (Some u)"
    using cov n gen \<open>?ids \<noteq> []\<close>
    by (simp add: query_current_unread_def publish_row_def uf Let_def)
  have uu: "uuid_ok x ?t" using old(3) [OF published(2)] by (simp add: row_inv_def)
  have count: "unat (u_coverage_count u) = length (sc_completions c) + ?n"
    using n by (simp add: uf unat_of_nat_u32 del: of_nat_add)
  have prev: "(case query_current_unread ?t d of Inr (Some v) \<Rightarrow> unat (u_coverage_count v) | _ \<Rightarrow> 0) = ?n"
    using n by (intro previous_coverage [OF inv]) (use published(8) in auto)
  have others: "query_current_unread t d' = query_current_unread t d" if "t \<noteq> ?t" for t
    unfolding query_current_unread_def d' publication_others [OF pub that] ..
  have covered: "c_summarized_generation r' = Some (uint (sc_generation c))"
    if "r' \<in> set (db_completions d')" "c_completion_id r' \<in> set ?ids" for r'
    using that published(4) by (auto simp: d'(2) cover_map_def)
  show ?thesis
    using q uu count prev others covered published(3) by (auto simp: current_unread_summary_def)
qed simp

section \<open>Playback of a summary\<close>

lemma granted_lease_valid:
  assumes "uuid_ok x t" "0 < g" "g \<le> i64_max" "slot_in_range slot" "rg \<noteq> 0" "cg \<noteq> 0" "0 < uint lease"
    "uint lease \<le> i64_max"
  shows "validate_playback_lease x (playback_lease lease slot t g rg cg (reference (row_cache_id x t g))) = Ok ()"
proof -
  have g: "as_u64 g \<noteq> 0" "uint (as_u64 g) = g" using assms(2,3) uint_as_u64 [of g] by auto
  then have "from_reference (reference (row_cache_id x t g)) = Ok (row_cache_id x t g)"
    by (intro from_reference_reference) (simp add: row_cache_id_def)
  moreover have "for_task (sha256 x) t (as_u64 g) = Ok (row_cache_id x t g)"
    using g by (simp add: for_task_def row_cache_id_def)
  moreover have "lease \<noteq> 0" using assms(7) by auto
  ultimately show ?thesis
    using assms g by (simp add: validate_playback_lease_def playback_lease_def validate_slot_def)
qed

text \<open>C18: A publication delivers the claim: afterwards the current unread summary of the task is
  the returned one; it covers every completion of the claim and everything the replaced unread
  summary covered, and its coverage count is exactly their number; the unread summaries of all
  other tasks are untouched.\<close>

theorem publish_delivers:
  assumes inv: "ledger_inv x d" and rt: "json_ids_roundtrip x" and e: "publish_summary x c cache d = (Ok u, d')"
    and len: "length (db_completions d) + MAX_SUMMARY_COMPLETIONS_PER_CLAIM \<le> u32_max"
  shows "current_unread_summary x (sc_task_id c) d' = Ok (Some u) \<and>
    unat (u_coverage_count u) = length (sc_completions c) +
      (case query_current_unread (sc_task_id c) d of Inr (Some v) \<Rightarrow> unat (u_coverage_count v) | _ \<Rightarrow> 0) \<and>
    (\<forall>r' \<in> set (db_completions d'). c_completion_id r' \<in> p_completion_id ` set (sc_completions c) \<longrightarrow>
       c_summarized_generation r' = Some (uint (sc_generation c))) \<and>
    (\<forall>t. t \<noteq> sc_task_id c \<longrightarrow> query_current_unread t d' = query_current_unread t d)"
  by (rule publish_outcome [OF assms])

lemma summaries_ok_one:
  assumes ok: "summaries_ok ss" and s: "s \<in> set ss"
    and f: "summary_key (f s) = summary_key s" "s_request_id (f s) = s_request_id s" "summary_checks (f s)"
      "is_active_claim (f s) \<longrightarrow> is_active_claim s" "is_current_unread (f s) \<longrightarrow> is_current_unread s"
  shows "summaries_ok (update_where (\<lambda>r. r = s) f ss)"
  unfolding update_where_def
proof (rule summaries_ok_map [OF ok], goal_cases)
  case (1 r)
  then show ?case using f summaries_okD(2) [OF ok 1] by auto
next
  case (2 a b)
  have "is_current_unread r" if "is_current_unread (if r = s then f r else r)" for r
    using that f(5) by (auto split: if_splits)
  with 2 show ?case using unread_unique [OF ok] by blast
qed

lemma granted_finishes:
  assumes inv: "ledger_inv x d" and e: "acquire_summary_playback slot rg cg lease d = (Ok (Some l), d1)" "d1 \<noteq> d"
  shows "\<exists>s \<in> set (db_summaries d). s_task_id s = pl_task_id l \<and> s_generation s = uint (pl_summary_generation l) \<and>
    s_state s = Unheard \<and>
    finish_summary_playback x l d1 = (Ok True,
      d\<lparr>db_summaries := map (\<lambda>r. if r = s then r\<lparr>s_state := Heard\<rparr> else r) (db_summaries d)\<rparr>)"
  using inv e(1)
proof (cases rule: acquire_cases)
  case (granted b s)
  note old = ledger_invD [OF inv]
  let ?t = "s_task_id s" and ?g = "s_generation s"
  let ?row = "\<lparr> l_lease_id = uint lease, l_task_id = ?t, l_summary_generation = ?g, l_slot = slot,
     l_request_generation = uint rg, l_connection_generation = uint cg \<rparr>"
  have l: "l = playback_lease lease slot ?t ?g rg cg (reference (row_cache_id x ?t ?g))"
    using granted(8) by simp
  have g: "0 < ?g" "?g \<le> i64_max" "uuid_ok x ?t"
    using summaries_okD(2) [OF old(2) granted(3)] old(3) [OF granted(3)] by (auto simp: summary_checks_def row_inv_def)
  have lf: "pl_task_id l = ?t" "uint (pl_summary_generation l) = ?g" "uint (pl_lease l) = uint lease"
    using g by (simp_all add: l playback_lease_def uint_as_u64)
  have valid: "validate_playback_lease x l = Ok ()"
    using granted_lease_valid g granted(9-13) l by simp
  have conv: "to_i64 (pl_lease l) = Ok (uint lease)" "to_i64 (pl_summary_generation l) = Ok ?g"
    using lf granted(10) g(2) by (simp_all add: to_i64_def)
  let ?ss = "update_where (\<lambda>r. r = s) (set_summary_state Leased) (db_summaries d)"
  let ?s1 = "set_summary_state Leased s"
  define sel where "sel = (\<lambda>r :: summary_row. s_task_id r = ?t \<and> s_generation r = ?g \<and> s_state r = Leased \<and>
     s_cache_object r = Some (pl_cache_object l))"
  have cache: "s_cache_object s = Some (pl_cache_object l)"
    using old(3) [OF granted(3)] granted(5) by (simp add: row_inv_def is_published_def l playback_lease_def)
  have mem: "?s1 \<in> set ?ss" using granted(3) by (auto simp: set_update_where)
  have iff: "sel r \<longleftrightarrow> r = ?s1" if "r \<in> set ?ss" for r
    using key_unique [OF granted(14) that mem] cache by (auto simp: sel_def set_summary_state_def)
  have one: "count_where sel ?ss = 1"
    using mem iff by (intro count_where_one [OF summaries_okD(1) [OF granted(14)] mem]) auto
  have upd: "update_where sel (set_summary_state Heard) ?ss = map (\<lambda>r. if r = s then r\<lparr>s_state := Heard\<rparr> else r) (db_summaries d)"
  proof -
    have "s \<noteq> ?s1" using granted(5) by (auto simp: set_summary_state_def dest: arg_cong [of _ _ s_state])
    moreover have "?s1 \<notin> set (db_summaries d)"
      using key_unique [OF old(2) granted(3), of ?s1] \<open>s \<noteq> ?s1\<close> by (auto simp: set_summary_state_def)
    ultimately show ?thesis
      using iff unfolding update_where_def map_map
      by (intro map_cong) (auto simp: update_where_def set_summary_state_def split: if_splits)
  qed
  have "summaries_ok (update_where (\<lambda>r. r = s) (set_summary_state Heard) (db_summaries d))"
    using summaries_okD(2) [OF old(2) granted(3)] granted(3,5)
    by (intro summaries_ok_one [OF old(2)])
      (auto simp: summary_key_def set_summary_state_def summary_checks_def is_active_claim_def is_current_unread_def
        split: option.splits)
  then have ok: "summaries_ok (map (\<lambda>r. if r = s then r\<lparr>s_state := Heard\<rparr> else r) (db_summaries d))"
    unfolding update_where_def set_summary_state_def .
  have lok: "leases_ok (db_summaries d) (db_leases d @ [?row])" using granted(15) .
  have nol: "l_lease_id k \<noteq> uint lease" if "k \<in> set (db_leases d)" for k
    using lok imageI [OF that, of l_lease_id] by (auto simp: leases_ok_def)
  have del: "delete_where (\<lambda>r. l_lease_id r = uint lease) (db_leases d @ [?row]) = db_leases d"
    using nol by (simp add: delete_where_def filter_id_conv)
  have keys: "map summary_key (map (\<lambda>r. if r = s then r\<lparr>s_state := Heard\<rparr> else r) (db_summaries d)) = map summary_key (db_summaries d)"
    by (simp add: summary_key_def)
  have lok': "leases_ok (map (\<lambda>r. if r = s then r\<lparr>s_state := Heard\<rparr> else r) (db_summaries d)) (db_leases d)"
    using leases_ok_keys [OF keys] old(4) by (simp add: lease_inv_def)
  have ex: "list_ex (is_lease l (uint lease) ?g) (db_leases d @ [?row])"
    by (simp add: is_lease_def l playback_lease_def)
  have "finish_summary_playback x l d1 = (Ok True,
      d\<lparr>db_summaries := map (\<lambda>r. if r = s then r\<lparr>s_state := Heard\<rparr> else r) (db_summaries d)\<rparr>)"
    unfolding granted(16) finish_summary_playback_def valid checked_simps in_txn_def conv attempt_simps
    using ex one ok lok' upd del
    by (simp add: lf(1) sel_def [symmetric] write_defs Let_def)
  with granted(3,5) lf(1,2) show ?thesis by (intro bexI [of _ s] conjI) simp_all
qed (use e(2) in simp)

text \<open>A granted playback can be finished: after \<open>acquire_summary_playback\<close> grants a lease,
  finishing that lease next succeeds, marks the summary heard, and nothing else of the ledger
  changes; the lease is gone.\<close>

lemma granted_playback_finishes:
  assumes "ledger_inv x d" and "acquire_summary_playback slot rg cg lease d = (Ok (Some l), d1)" "d1 \<noteq> d"
  shows "\<exists>s \<in> set (db_summaries d). s_task_id s = pl_task_id l \<and> s_generation s = uint (pl_summary_generation l) \<and>
    s_state s = Unheard \<and>
    finish_summary_playback x l d1 = (Ok True,
      d\<lparr>db_summaries := map (\<lambda>r. if r = s then r\<lparr>s_state := Heard\<rparr> else r) (db_summaries d)\<rparr>)"
  by (rule granted_finishes [OF assms])

text \<open>C21: A playback counts once: after a lease was finished, whatever happens later, the summary
  stays heard, and finishing or cancelling the same lease again reports failure and changes
  nothing.\<close>

theorem playback_counts_once:
  assumes inv: "ledger_inv x d" and rt: "json_ids_roundtrip x"
    and e: "finish_summary_playback x l d = (Ok True, d1)" and steps: "store_steps x d1 d2"
  shows "finish_summary_playback x l d2 = (Ok False, d2) \<and> cancel_summary_playback x l d2 = (Ok False, d2) \<and>
    (\<exists>s \<in> set (db_summaries d2). s_task_id s = pl_task_id l \<and> s_generation s = uint (pl_summary_generation l) \<and>
       s_state s = Heard)"
  using inv e
proof (cases rule: finish_cases)
  case (heard s r)
  have inv1: "ledger_inv x d1" using finish_inv [OF inv, of l] e by simp
  have inv2: "ledger_inv x d2" and ev: "summaries_evolve d1 d2"
    using ledger.steps_keep [OF steps] ledger_history.steps_evolve [OF steps] inv1 rt by blast+
  let ?i = "uint (pl_lease l)" and ?g = "uint (pl_summary_generation l)"
  let ?h = "set_summary_state Heard s"
  have h: "?h \<in> set (db_summaries d1)" "summary_key ?h = (pl_task_id l, ?g)"
    using heard(4,5) is_lease_key [OF heard(3)] by (auto simp: heard(8) set_update_where set_summary_state_def summary_key_def)
  then obtain s2 where s2: "s2 \<in> set (db_summaries d2)" "row_evolves ?h s2"
    using ev by (auto simp: summaries_evolve_def)
  have same: "s2 = ?h" using s2(2) by (simp add: row_evolves_def set_summary_state_def)
  have no: "\<not> is_lease l ?i ?g k" if k: "k \<in> set (db_leases d2)" for k
  proof
    assume "is_lease l ?i ?g k"
    then obtain v where v: "v \<in> set (db_summaries d2)" "summary_key v = (pl_task_id l, ?g)" "s_state v = Leased"
      using lease_summary [OF inv2 k] is_lease_key by metis
    then have "v = s2"
      using distinct_key_eq [OF summaries_okD(1) [OF ledger_invD(2) [OF inv2]] v(1) s2(1)] h(2) same by simp
    with v(3) same show False by (simp add: set_summary_state_def)
  qed
  have valid: "validate_playback_lease x l = Ok ()"
    using e by (cases "validate_playback_lease x l") (auto simp: finish_summary_playback_def)
  have conv: "to_i64 (pl_lease l) = Ok ?i" "to_i64 (pl_summary_generation l) = Ok ?g"
    using valid by (auto simp: validate_playback_lease_def and_then_Ok_iff to_i64_def Let_def split: if_splits)
  have "finish_summary_playback x l d2 = (Ok False, d2)"
    using no by (simp add: finish_summary_playback_def valid in_txn_def conv list_ex_iff)
  moreover have "cancel_summary_playback x l d2 = (Ok False, d2)"
  proof -
    have "count_where (is_lease l ?i ?g) (db_leases d2) = 0" using no count_where_pos by (metis gr0I)
    moreover have "delete_where (is_lease l ?i ?g) (db_leases d2) = db_leases d2"
      using no by (simp add: delete_where_def filter_id_conv)
    ultimately show ?thesis
      using ledger_invD(4) [OF inv2]
      by (simp add: cancel_summary_playback_def valid in_txn_def conv write_defs lease_inv_def Let_def)
  qed
  moreover have "s_task_id s2 = pl_task_id l" "s_generation s2 = ?g" "s_state s2 = Heard"
    using same h(2) by (simp_all add: summary_key_def) (simp add: set_summary_state_def)
  ultimately show ?thesis using s2(1) by blast
qed simp

section \<open>A claim whose previous summary was heard\<close>

lemma load_without_previous:
  "query_current_unread task d = Ok None \<Longrightarrow> load_summary_claim x out request task g (Some p) covers d \<noteq> Ok c"
  by (auto simp: load_summary_claim_def load_previous_def and_then_Ok_iff split: if_splits)

lemma in_txn_Ok: "fst (in_txn body d) = Ok y \<longleftrightarrow> (\<exists>d'. body d = Commit (Ok y) d') \<or> body d = Rollback (Ok y)"
  by (auto simp: in_txn_def split: txn.splits)

text \<open>C22: A claim that was made while a summary was unread depends on that summary: once it was
  heard (the task has no unread summary left), the claim cannot be published, its request cannot
  be replayed and it cannot be resumed after a restart; only abandoning it frees the task.\<close>

theorem heard_previous_blocks_claim:
  assumes inv: "ledger_inv x d" and s: "s \<in> set (db_summaries d)" "is_active_claim s"
    "s_previous_generation s = Some p" and heard: "query_current_unread (s_task_id s) d = Ok None"
  shows "(\<forall>c cache u. sc_task_id c = s_task_id s \<longrightarrow> fst (publish_summary x c cache d) \<noteq> Ok u) \<and>
    (\<forall>request c. fst (claim_summary x (s_task_id s) request d) \<noteq> Ok (Some (Claimed c))) \<and>
    (\<forall>c. fst (resume_interrupted_summary x (s_task_id s) d) \<noteq> Ok (Some c))"
proof (intro conjI allI impI)
  note old = ledger_invD [OF inv]
  have same: "r = s" if "r \<in> set (db_summaries d)" "s_task_id r = s_task_id s" "is_active_claim r" for r
    using active_unique [OF old(2) that(1) s(1) that(3) s(2) that(2)] .
  have flip: "query_current_unread (s_task_id s) (d\<lparr>db_summaries := update_where sel (set_summary_state Generating) (db_summaries d)\<rparr>) = Ok None"
    if "\<And>r. sel r \<Longrightarrow> s_state r = Interrupted" for sel
    using that heard by (subst flip_query) (auto simp: is_active_claim_def)
  note noload = load_without_previous [OF flip]
  show "fst (publish_summary x c cache d) \<noteq> Ok u" if c: "sc_task_id c = s_task_id s" for c cache u
  proof
    assume "fst (publish_summary x c cache d) = Ok u"
    then have e: "publish_summary x c cache d = (Ok u, snd (publish_summary x c cache d))" by (simp add: prod_eq_iff)
    from inv e show False
    proof (cases rule: publish_cases)
      case (published r uo)
      then have "r = s" using same c by (simp add: is_active_claim_def)
      then have "sc_previous_unread c \<noteq> None" using published(10) s(3) by (cases "sc_previous_unread c") (auto simp: generation_option_i64_def)
      then have "supersede_previous c g d = Err SummaryClaimChanged" for g
        using heard c by (auto simp: supersede_previous_def)
      then show False
        using e by (auto simp: publish_summary_def publish_txn_def checked_def in_txn_Pair attempt_Commit attempt_Rollback Let_def
            split: sum.splits option.splits if_splits)
    qed simp
  qed
  show "fst (claim_summary x (s_task_id s) request d) \<noteq> Ok (Some (Claimed c))" for request c
  proof
    assume e: "fst (claim_summary x (s_task_id s) request d) = Ok (Some (Claimed c))"
    show False
    proof (cases "first_row (\<lambda>r. s_request_id r = Some request) (db_summaries d)")
      case (Some r)
      have "s_task_id r = s_task_id s" "is_active_claim r"
        using e Some by (auto simp: claim_summary_def checked_def in_txn_def replay_summary_request_def is_active_claim_def Let_def
            split: sum.splits if_splits summary_state.splits)
      then have "r = s" using same first_row_Some [OF Some] by blast
      then show False
        using e Some s(3) load_without_previous [OF heard, of x ClaimReplay request]
        by (auto simp: claim_summary_def checked_def in_txn_Ok replay_summary_request_def attempt_Commit attempt_Rollback
            write_Ok Let_def split: sum.splits if_splits summary_state.splits
            elim!: notE [OF noload, rotated])
    next
      case None
      obtain r where r: "first_row (\<lambda>r. s_task_id r = s_task_id s \<and> is_active_claim r) (db_summaries d) = Some r"
        using s(1,2) by (cases "first_row (\<lambda>r. s_task_id r = s_task_id s \<and> is_active_claim r) (db_summaries d)")
          (auto simp: first_row_None)
      then have "r = s" using same first_row_Some [OF r] by blast
      with None r e s(3) load_without_previous [OF heard, of x ClaimReplay request] show False
        by (auto simp: claim_summary_def checked_def in_txn_Ok join_active_claim_def attempt_Commit attempt_Rollback
            split: sum.splits option.splits if_splits)
    qed
  qed
  show "fst (resume_interrupted_summary x (s_task_id s) d) \<noteq> Ok (Some c)" for c
  proof
    assume e: "fst (resume_interrupted_summary x (s_task_id s) d) = Ok (Some c)"
    then obtain r where r: "first_row (\<lambda>r. s_task_id r = s_task_id s \<and> s_state r = Interrupted) (db_summaries d) = Some r"
      by (cases "first_row (\<lambda>r. s_task_id r = s_task_id s \<and> s_state r = Interrupted) (db_summaries d)")
        (auto simp: resume_interrupted_summary_def checked_def in_txn_Ok split: sum.splits)
    then have "r = s" using same [of r] first_row_Some [OF r] by (auto simp: is_active_claim_def)
    with r e s(3) show False
      by (auto simp: resume_interrupted_summary_def checked_def in_txn_Ok attempt_Commit attempt_Rollback write_Ok Let_def
          split: sum.splits option.splits if_splits elim!: notE [OF noload, rotated])
  qed
qed

end
