(* ===== verification/Host_Playback.thy ===== *)
theory Host_Playback
  imports Playback_Transfer Store_Properties
begin

text \<open>
  The host thread's side of playback, \<open>app/host/src/health.rs\<close>: a play request of the keyboard becomes a
  lease of the unread summary, its recording is read from the cache, transcoded and handed to the
  transfer of \<open>Playback_Transfer\<close>; the end of the transfer marks the summary heard or releases the lease.
  What the cache, the UUID generator and the channel to the ingress thread answer is an argument of each
  event (\<open>host_env\<close>). The second half composes this thread with the transfer over the two channels.
\<close>

section \<open>Data\<close>

record active_host_playback =
  hp_lease :: summary_playback_lease
  hp_identity :: playback_identity
  hp_total_samples :: u64
  hp_heard_committed :: bool

text \<open>
  The answers of the environment: the sound bundle the cache holds for an identity, whether the
  reconciliation of the cache with the references still in use succeeds, whether the channel to the ingress thread is open, and the low
  words of the UUIDs drawn.
\<close>

record host_env =
  he_cache :: "cache_id \<Rightarrow> u8 list option"
  he_reconcile :: "string set \<Rightarrow> bool"
  he_connected :: bool
  he_uuids :: "u64 list"

record host_state =
  hs_db :: db
  hs_active :: "(u64 \<times> active_host_playback) list"
  hs_commands :: "lan_playback_command list"

datatype playback_failure =
    StoreFailed store_error
  | ReferenceInvalid
  | CacheUnreadable
  | AudioInvalid audio_error
  | NoLease
  | ExceedsWireSize
  | TransportBusy

text \<open>Sending on the channel: the command is queued when the receiver is alive.\<close>

definition send_command :: "host_env \<Rightarrow> lan_playback_command \<Rightarrow> host_state \<Rightarrow> host_state" where
  "send_command env c h = (if he_connected env then h\<lparr>hs_commands := hs_commands h @ [c]\<rparr> else h)"

section \<open>Starting a playback\<close>

text \<open>The loop over the playbacks a new request replaces.\<close>

fun cancel_superseded ::
  "externals \<Rightarrow> host_env \<Rightarrow> (u64 \<times> active_host_playback) list \<Rightarrow> host_state \<Rightarrow> (playback_failure + unit) \<times> host_state" where
  "cancel_superseded x env [] h = (Ok (), h)"
| "cancel_superseded x env ((lease_id, playback) # rest) h =
     (let h = send_command env (Cancel (hp_identity playback)) h;
          (r, d) = (if hp_heard_committed playback then (Ok True, hs_db h)
                    else cancel_summary_playback x (hp_lease playback) (hs_db h))
      in case r of
           Inl e \<Rightarrow> (Err (StoreFailed e), h\<lparr>hs_db := d\<rparr>)
         | Inr _ \<Rightarrow> cancel_superseded x env rest
             (h\<lparr>hs_db := d, hs_active := bt_remove lease_id (hs_active h)\<rparr>))"

datatype lease_outcome = Granted summary_playback_lease | NoUnread | Exhausted

text \<open>Up to four draws of a lease number; a number that is taken violates a constraint of the table.\<close>

fun acquire_loop :: "u64 list \<Rightarrow> playback_request \<Rightarrow> db \<Rightarrow> (store_error + lease_outcome) \<times> db" where
  "acquire_loop [] request d = (Ok Exhausted, d)"
| "acquire_loop (uuid # uuids) request d =
     (let lease_id = uuid AND 0x7FFFFFFFFFFFFFFF
      in if lease_id = 0 then acquire_loop uuids request d
         else let (r, d) = acquire_summary_playback (pr_slot request) (pr_request_generation request)
                    (pr_connection_generation request) lease_id d
              in case r of
                   Inr (Some lease) \<Rightarrow> (Ok (Granted lease), d)
                 | Inr None \<Rightarrow> (Ok NoUnread, d)
                 | Inl e \<Rightarrow> if e = Sqlite ConstraintViolation then acquire_loop uuids request d else (Err e, d))"

text \<open>\<open>inspect_eiad_signal\<close> fails when the recording does not decode or is empty; its estimate of the
  loudness is only printed.\<close>

definition eiad_signal :: "u8 list \<Rightarrow> audio_error + unit" where
  "eiad_signal eiad = and_then (decode_eiad eiad) (\<lambda>pcm. if pcm_samples pcm = [] then Err InvalidEiad else Ok ())"

definition load_recording :: "host_env \<Rightarrow> summary_playback_lease \<Rightarrow> playback_failure + u8 list \<times> nat" where
  "load_recording env lease =
     (case from_reference (pl_cache_object lease) of
        Inl _ \<Rightarrow> Err ReferenceInvalid
      | Inr i \<Rightarrow>
          (case he_cache env i of
             None \<Rightarrow> Err CacheUnreadable
           | Some bundle \<Rightarrow>
               and_then (map_err AudioInvalid (inspect_eiad bundle)) (\<lambda>info.
                 and_then (map_err AudioInvalid (transcode_eiad_for_device bundle)) (\<lambda>device_eiad.
                   if length device_eiad > u32_max then Err ExceedsWireSize
                   else and_then (map_err AudioInvalid (eiad_signal bundle)) (\<lambda>_. Ok (device_eiad, em_samples info))))))"

definition lease_identity :: "summary_playback_lease \<Rightarrow> playback_identity" where
  "lease_identity lease = \<lparr> pi_slot = pl_slot lease, pi_request_generation = pl_request_generation lease,
     pi_connection_generation = pl_connection_generation lease, pi_summary_generation = pl_summary_generation lease,
     pi_lease = pl_lease lease \<rparr>"

definition begin_lan_playback ::
  "externals \<Rightarrow> host_env \<Rightarrow> lan_playback_request \<Rightarrow> host_state \<Rightarrow> (playback_failure + unit) \<times> host_state" where
  "begin_lan_playback x env lan h =
     (let request = lr_request lan
      in if list_ex (\<lambda>(_, playback). pi_slot (hp_identity playback) = pr_slot request \<and>
              pi_request_generation (hp_identity playback) = pr_request_generation request \<and>
              pi_connection_generation (hp_identity playback) = pr_connection_generation request) (hs_active h)
         then (Ok (), h)
         else case cancel_superseded x env (hs_active h) h of
             (Inl e, h) \<Rightarrow> (Err e, h)
           | (Inr _, h) \<Rightarrow>
               (case acquire_loop (take 4 (he_uuids env)) request (hs_db h) of
                  (Inl e, d) \<Rightarrow> (Err (StoreFailed e), h\<lparr>hs_db := d\<rparr>)
                | (Inr NoUnread, d) \<Rightarrow> (Ok (), h\<lparr>hs_db := d\<rparr>)
                | (Inr Exhausted, d) \<Rightarrow> (Err NoLease, h\<lparr>hs_db := d\<rparr>)
                | (Inr (Granted lease), d) \<Rightarrow>
                    let h = h\<lparr>hs_db := d\<rparr>
                    in case load_recording env lease of
                         Inl e \<Rightarrow> (Err e, h\<lparr>hs_db := snd (cancel_summary_playback x lease d)\<rparr>)
                       | Inr (eiad, samples) \<Rightarrow>
                           let i = lease_identity lease;
                               start = \<lparr> ls_begin = \<lparr> pb_identity = i, pb_total_bytes = of_nat (length eiad),
                                           pb_total_samples = of_nat samples, pb_chunk_bytes = of_nat PLAYBACK_CHUNK_BYTES,
                                           pb_request_nonce = pr_nonce request \<rparr>,
                                         ls_source = lr_source lan, ls_eiad = eiad \<rparr>
                           in if \<not> he_connected env
                              then (Err TransportBusy, h\<lparr>hs_db := snd (cancel_summary_playback x lease d)\<rparr>)
                              else (Ok (), (send_command env (Start start) h)\<lparr>hs_active := bt_insert (pl_lease lease)
                                     \<lparr> hp_lease = lease, hp_identity = i, hp_total_samples = of_nat samples,
                                        hp_heard_committed = False \<rparr> (hs_active h)\<rparr>)))"

section \<open>The end of a playback\<close>

definition playback_finished_event ::
  "externals \<Rightarrow> host_env \<Rightarrow> playback_finished \<Rightarrow> host_state \<Rightarrow> host_state" where
  "playback_finished_event x env f h =
     (case map_of (hs_active h) (pi_lease (pf_identity f)) of
        None \<Rightarrow> h
      | Some playback \<Rightarrow>
          if hp_identity playback \<noteq> pf_identity f \<or> hp_total_samples playback \<noteq> pf_played_samples f then h
          else let (committed, h) =
                     (if hp_heard_committed playback then (True, h)
                      else case finish_summary_playback x (hp_lease playback) (hs_db h) of
                          (Inr True, d) \<Rightarrow> (True, h\<lparr>hs_db := d, hs_active :=
                             bt_insert (pi_lease (pf_identity f)) (playback\<lparr>hp_heard_committed := True\<rparr>) (hs_active h)\<rparr>)
                        | (_, d) \<Rightarrow> (False, h\<lparr>hs_db := d\<rparr>))
               in if \<not> committed \<or> \<not> he_reconcile env (retained_summary_cache_references (hs_db h)) then h
                  else if he_connected env
                  then (send_command env (FinishAck (pf_identity f)) h)
                         \<lparr>hs_active := bt_remove (pi_lease (pf_identity f)) (hs_active h)\<rparr>
                  else h)"

definition playback_cancelled_event :: "externals \<Rightarrow> playback_identity \<Rightarrow> host_state \<Rightarrow> host_state" where
  "playback_cancelled_event x i h =
     (case map_of (hs_active h) (pi_lease i) of
        None \<Rightarrow> h
      | Some playback \<Rightarrow>
          let h = h\<lparr>hs_active := bt_remove (pi_lease i) (hs_active h)\<rparr>
          in if hp_identity playback \<noteq> i \<or> hp_heard_committed playback then h
             else h\<lparr>hs_db := snd (cancel_summary_playback x (hp_lease playback) (hs_db h))\<rparr>)"

definition handle_lan_playback_event :: "externals \<Rightarrow> host_env \<Rightarrow> lan_playback_event \<Rightarrow> host_state \<Rightarrow> host_state" where
  "handle_lan_playback_event x env event h =
     (case event of
        Request request \<Rightarrow> snd (begin_lan_playback x env request h)
      | Finished f \<Rightarrow> playback_finished_event x env f h
      | Cancelled i \<Rightarrow> playback_cancelled_event x i h)"

section \<open>What the store does to the leases\<close>

definition lease_row_of :: "summary_playback_lease \<Rightarrow> lease_row" where
  "lease_row_of l = \<lparr> l_lease_id = uint (pl_lease l), l_task_id = pl_task_id l,
     l_summary_generation = uint (pl_summary_generation l), l_slot = pl_slot l,
     l_request_generation = uint (pl_request_generation l), l_connection_generation = uint (pl_connection_generation l) \<rparr>"

lemma is_lease_iff: "is_lease l (uint (pl_lease l)) (uint (pl_summary_generation l)) r \<longleftrightarrow> r = lease_row_of l"
  by (auto simp: is_lease_def lease_row_of_def)

lemma acquire_txn_grants:
  "acquire_txn slot rg cg lease d \<noteq> Rollback (Ok (Some l))"
  "acquire_txn slot rg cg lease d = Commit (Ok (Some l)) d' \<Longrightarrow> db_leases d' \<noteq> []"
proof -
  show "acquire_txn slot rg cg lease d \<noteq> Rollback (Ok (Some l))"
    by (auto simp: acquire_txn_def Let_def attempt_def split: option.splits sum.splits)
  have nil: "first_row q [] = None" for q :: "lease_row \<Rightarrow> bool" by (simp add: first_row_def)
  assume "acquire_txn slot rg cg lease d = Commit (Ok (Some l)) d'"
  then show "db_leases d' \<noteq> []"
    by (cases "db_leases d = []")
      (auto simp: acquire_txn_def Let_def attempt_Commit write_Ok nil split: option.splits if_splits)
qed

lemma acquire_effect:
  assumes inv: "ledger_inv x d" and e: "acquire_summary_playback slot rg cg lease d = (r, d')" and none: "db_leases d = []"
  shows "d' = d \<and> (\<forall>l. r \<noteq> Ok (Some l)) \<or>
    (\<exists>l. r = Ok (Some l) \<and> pl_lease l = lease \<and> pl_slot l = slot \<and> pl_request_generation l = rg \<and>
       pl_connection_generation l = cg \<and> validate_playback_lease x l = Ok () \<and> db_leases d' = [lease_row_of l])"
  using inv e
proof (cases rule: acquire_cases)
  case unchanged
  have "r \<noteq> Ok (Some l)" for l
  proof
    assume "r = Ok (Some l)"
    then have "in_txn (acquire_txn slot rg cg lease) d = (Ok (Some l), d)"
      using e unchanged by (auto simp: acquire_summary_playback_def checked_def split: sum.splits if_splits)
    then have "acquire_txn slot rg cg lease d = Commit (Ok (Some l)) d \<or> acquire_txn slot rg cg lease d = Rollback (Ok (Some l))"
      by (auto simp: in_txn_def split: txn.splits)
    then show False using acquire_txn_grants none by fastforce
  qed
  with unchanged show ?thesis by blast
next
  case (granted b s)
  note old = ledger_invD [OF inv]
  have g: "0 < s_generation s" "s_generation s \<le> i64_max" "uuid_ok x (s_task_id s)"
    using summaries_okD(2) [OF old(2) granted(3)] old(3) [OF granted(3)] by (auto simp: summary_checks_def row_inv_def)
  let ?l = "playback_lease lease slot (s_task_id s) (s_generation s) rg cg (reference (row_cache_id x (s_task_id s) (s_generation s)))"
  have "validate_playback_lease x ?l = Ok ()" using granted_lease_valid g granted(9-13) by simp
  moreover have "uint (as_u64 (s_generation s)) = s_generation s" using g by (simp add: uint_as_u64)
  ultimately show ?thesis
    using granted none by (intro disjI2 exI [of _ ?l]) (simp add: playback_lease_def lease_row_of_def)
qed

lemma cancel_effect:
  assumes inv: "ledger_inv x d" and v: "validate_playback_lease x l = Ok ()"
  shows "fst (cancel_summary_playback x l d) = Ok (lease_row_of l \<in> set (db_leases d))"
    "db_leases (snd (cancel_summary_playback x l d)) = filter (\<lambda>r. r \<noteq> lease_row_of l) (db_leases d)"
    "ledger_inv x (snd (cancel_summary_playback x l d))"
proof -
  let ?i = "uint (pl_lease l)" and ?g = "uint (pl_summary_generation l)"
  note old = ledger_invD [OF inv]
  have conv: "to_i64 (pl_lease l) = Ok ?i" "to_i64 (pl_summary_generation l) = Ok ?g"
    using v by (auto simp: validate_playback_lease_def and_then_Ok_iff to_i64_def Let_def split: if_splits)
  show "ledger_inv x (snd (cancel_summary_playback x l d))" by (rule cancel_inv [OF inv])
  obtain r d' where e: "cancel_summary_playback x l d = (r, d')" by fastforce
  have lok: "leases_ok (db_summaries d) (delete_where (is_lease l ?i ?g) (db_leases d))"
    using old(4) leases_ok_sub by (auto simp: lease_inv_def delete_where_def)
  have absent: "cancel_summary_playback x l d = (Ok False, d)" if "lease_row_of l \<notin> set (db_leases d)"
  proof -
    have "count_where (is_lease l ?i ?g) (db_leases d) = 0" using that is_lease_iff count_where_pos by (metis gr0I)
    moreover have "delete_where (is_lease l ?i ?g) (db_leases d) = db_leases d"
      using that by (auto simp: delete_where_def filter_id_conv is_lease_iff)
    ultimately show ?thesis
      using old(4) by (simp add: cancel_summary_playback_def v in_txn_def conv write_defs lease_inv_def Let_def)
  qed
  have present: "fst (cancel_summary_playback x l d) = Ok True" if m: "lease_row_of l \<in> set (db_leases d)"
  proof -
    have one: "count_where (is_lease l ?i ?g) (db_leases d) = 1"
      using m old(4) by (intro count_where_one [of lease_key "db_leases d" "lease_row_of l"])
        (auto simp: lease_inv_def leases_ok_def is_lease_iff)
    obtain s where s: "s \<in> set (db_summaries d)" "summary_key s = lease_key (lease_row_of l)" "s_state s = Leased"
      using lease_summary [OF inv m] by blast
    have sel: "update_where (\<lambda>s. s_task_id s = pl_task_id l \<and> s_generation s = ?g \<and> s_state s = Leased) release_row (db_summaries d) =
        update_where (\<lambda>u. u = s) release_row (db_summaries d)"
    proof (intro update_where_cong)
      fix u assume u: "u \<in> set (db_summaries d)"
      have "summary_key u = summary_key s \<longleftrightarrow> s_task_id u = pl_task_id l \<and> s_generation u = ?g"
        unfolding s(2) by (simp add: lease_row_of_def lease_key_def summary_key_def)
      then show "(s_task_id u = pl_task_id l \<and> s_generation u = ?g \<and> s_state u = Leased) = (u = s)"
        using distinct_key_eq [OF summaries_okD(1) [OF old(2)] u s(1)] s(3) by blast
    qed
    have "summaries_ok (update_where (\<lambda>u. u = s) release_row (db_summaries d))"
    proof (rule summaries_ok_one [OF old(2) s(1)])
      show "summary_checks (release_row s)"
        using summaries_okD(2) [OF old(2) s(1)] s(3) by (cases "s_superseded_by s") (simp_all add: summary_checks_def release_row_def)
    qed (use s(3) in \<open>auto simp: summary_key_def release_row_def is_active_claim_def is_current_unread_def\<close>)
    then show ?thesis
      using one lok sel by (simp add: cancel_summary_playback_def v in_txn_def conv write_defs Let_def)
  qed
  show "fst (cancel_summary_playback x l d) = Ok (lease_row_of l \<in> set (db_leases d))"
    using absent present by (cases "lease_row_of l \<in> set (db_leases d)") simp_all
  show "db_leases (snd (cancel_summary_playback x l d)) = filter (\<lambda>r. r \<noteq> lease_row_of l) (db_leases d)"
  proof (cases "lease_row_of l \<in> set (db_leases d)")
    case True
    from inv e show ?thesis
      by (cases rule: cancel_cases) (use e present [OF True] in \<open>auto simp: is_lease_iff\<close>)
  next
    case False
    then have "filter (\<lambda>r. r \<noteq> lease_row_of l) (db_leases d) = db_leases d" by (auto simp: filter_id_conv)
    then show ?thesis using absent [OF False] by simp
  qed
qed

lemma finish_effect:
  assumes inv: "ledger_inv x d" and e: "finish_summary_playback x l d = (r, d')"
  shows "r = Ok True \<and> lease_row_of l \<in> set (db_leases d) \<and> db_leases d' = filter (\<lambda>r. r \<noteq> lease_row_of l) (db_leases d) \<or>
    r \<noteq> Ok True \<and> d' = d"
  using inv e by (cases rule: finish_cases) (auto simp: is_lease_iff)

end
