(* ===== verification/Playback_System.thy ===== *)
theory Playback_System
  imports Host_Playback
begin

text \<open>
  The host thread of \<open>Host_Playback\<close> and the transfer of \<open>Playback_Transfer\<close> joined by their two channels, as
  \<open>serve_until\<close> (\<open>health.rs\<close>) and the ingress thread (\<open>lan_voice.rs\<close>) run them: the host takes the events of the
  transfer in order and answers with commands, which the transfer takes in order; other work on the state
  database, datagrams and timer ticks come in between in any order. The invariant of the composed system
  says that every lease in the database belongs to a playback that is still on its way.
\<close>

section \<open>The host thread alone\<close>

definition unheard :: "(u64 \<times> active_host_playback) list \<Rightarrow> summary_playback_lease list" where
  "unheard active = map (hp_lease \<circ> snd) (filter (\<lambda>(_, p). \<not> hp_heard_committed p) active)"

definition entry_ok :: "externals \<Rightarrow> u64 \<times> active_host_playback \<Rightarrow> bool" where
  "entry_ok x e \<longleftrightarrow> fst e = pl_lease (hp_lease (snd e)) \<and> hp_identity (snd e) = lease_identity (hp_lease (snd e)) \<and>
     validate_playback_lease x (hp_lease (snd e)) = Ok ()"

definition host_inv :: "externals \<Rightarrow> host_state \<Rightarrow> bool" where
  "host_inv x h \<longleftrightarrow> ledger_inv x (hs_db h) \<and> length (hs_active h) \<le> 1 \<and> list_all (entry_ok x) (hs_active h) \<and>
     db_leases (hs_db h) = map lease_row_of (unheard (hs_active h))"

lemma unheard_simps [simp]:
  "unheard [] = []"
  "unheard ((k, p) # a) = (if hp_heard_committed p then unheard a else hp_lease p # unheard a)"
  by (simp_all add: unheard_def)

lemma host_inv_cases [consumes 1, case_names idle busy]:
  assumes "host_inv x h"
  obtains "hs_active h = []" "ledger_inv x (hs_db h)" "db_leases (hs_db h) = []"
  | p where "hs_active h = [(pl_lease (hp_lease p), p)]" "hp_identity p = lease_identity (hp_lease p)"
      "validate_playback_lease x (hp_lease p) = Ok ()" "ledger_inv x (hs_db h)"
      "db_leases (hs_db h) = (if hp_heard_committed p then [] else [lease_row_of (hp_lease p)])"
proof (cases "hs_active h")
  case Nil
  then show ?thesis using assms that(1) by (simp add: host_inv_def)
next
  case (Cons e es)
  then show ?thesis using assms that(2) [of "snd e"] by (cases e) (auto simp: host_inv_def entry_ok_def)
qed

definition cancels :: "host_env \<Rightarrow> host_state \<Rightarrow> lan_playback_command list" where
  "cancels env h = (if he_connected env then map (\<lambda>(_, p). Cancel (hp_identity p)) (hs_active h) else [])"

text \<open>The keys of the summaries that were heard.\<close>

definition heard :: "db \<Rightarrow> (string \<times> int) set" where
  "heard d = summary_key ` {s \<in> set (db_summaries d). s_state s = Heard}"

lemma heard_update:
  assumes "s \<in> set (db_summaries d)" "s_state s \<noteq> Heard" "summary_key (f s) = summary_key s"
  shows "heard (d\<lparr>db_summaries := update_where (\<lambda>u. u = s) f (db_summaries d), db_leases := ls\<rparr>) =
    (if s_state (f s) = Heard then insert (summary_key s) (heard d) else heard d)"
proof -
  have "{u \<in> set (update_where (\<lambda>u. u = s) f (db_summaries d)). s_state u = Heard} =
      (if s_state (f s) = Heard then {f s} else {}) \<union> {u \<in> set (db_summaries d). s_state u = Heard}"
    using assms(1,2) by (auto simp: update_where_def)
  then show ?thesis using assms(3) by (auto simp: heard_def)
qed

lemma acquire_heard:
  assumes "ledger_inv x d" "acquire_summary_playback slot rg cg lease d = (r, d')"
  shows "heard d' = heard d"
  using assms
proof (cases rule: acquire_cases)
  case (granted b s)
  then show ?thesis by (simp add: heard_update set_summary_state_def summary_key_def)
qed simp

lemma cancel_heard:
  assumes "ledger_inv x d" shows "heard (snd (cancel_summary_playback x l d)) = heard d"
proof -
  obtain r d' where e: "cancel_summary_playback x l d = (r, d')" by fastforce
  from assms e have "heard d' = heard d"
  proof (cases rule: cancel_cases)
    case (released s r)
    then show ?thesis by (simp add: heard_update release_row_def summary_key_def)
  qed simp
  with e show ?thesis by simp
qed

lemma finish_heard:
  assumes "ledger_inv x d" "finish_summary_playback x l d = (r, d')"
  shows "heard d' = (if r = Ok True then insert (lease_key (lease_row_of l)) (heard d) else heard d)"
  using assms
proof (cases rule: finish_cases)
  case (heard s r)
  then have "r = lease_row_of l" by (simp add: is_lease_iff)
  with heard show ?thesis by (simp add: heard_update set_summary_state_def summary_key_def)
qed simp

lemma cancel_superseded_effect:
  assumes "host_inv x h"
  obtains d where "cancel_superseded x env (hs_active h) h =
      (Ok (), h\<lparr>hs_db := d, hs_active := [], hs_commands := hs_commands h @ cancels env h\<rparr>)"
    "ledger_inv x d" "db_leases d = []" "heard d = heard (hs_db h)"
  using assms
proof (cases rule: host_inv_cases)
  case idle
  have "h\<lparr>hs_db := hs_db h, hs_active := [], hs_commands := hs_commands h\<rparr> = h" using idle by (cases h) simp
  then show ?thesis using that [of "hs_db h"] idle by (simp add: cancels_def)
next
  case (busy p)
  let ?c = "cancel_summary_playback x (hp_lease p) (hs_db h)"
  show ?thesis
  proof (cases "hp_heard_committed p")
    case True
    then show ?thesis
      using that [of "hs_db h"] busy by (auto simp: cancels_def send_command_def Let_def bt_remove_def)
  next
    case False
    note ce = cancel_effect [OF busy(4) busy(3)]
    obtain d where c: "?c = (Ok True, d)" using ce(1) busy(5) False by (cases ?c) auto
    show ?thesis
      using that [of d] ce(2,3) cancel_heard [OF busy(4), of "hp_lease p"] busy c False
      by (auto simp: cancels_def send_command_def Let_def bt_remove_def)
  qed
qed

lemma acquire_loop_effect:
  assumes "ledger_inv x d" "db_leases d = []" "acquire_loop uuids q d = (r, d')"
  shows "ledger_inv x d' \<and> heard d' = heard d \<and>
    (d' = d \<and> (\<forall>l. r \<noteq> Ok (Granted l)) \<or>
     (\<exists>l. r = Ok (Granted l) \<and> (\<exists>u \<in> set uuids. pl_lease l = u AND 0x7FFFFFFFFFFFFFFF) \<and> pl_slot l = pr_slot q \<and>
        pl_request_generation l = pr_request_generation q \<and> pl_connection_generation l = pr_connection_generation q \<and>
        validate_playback_lease x l = Ok () \<and> db_leases d' = [lease_row_of l]))"
  using assms
proof (induction uuids q d rule: acquire_loop.induct)
  case (2 uuid uuids q d)
  let ?i = "uuid AND 0x7FFFFFFFFFFFFFFF"
  obtain ra da where a: "acquire_summary_playback (pr_slot q) (pr_request_generation q) (pr_connection_generation q) ?i d = (ra, da)"
    by fastforce
  note ae = acquire_effect [OF 2(3) a 2(4)] and ah = acquire_heard [OF 2(3) a]
  have ai: "ledger_inv x da" using acquire_inv [OF 2(3)] a by (metis snd_conv)
  have same: "da = d" if "\<And>l. ra \<noteq> Ok (Some l)" using ae that by blast
  show ?case
  proof (cases "?i = 0")
    case True
    then show ?thesis using 2(1) [OF refl] 2(3-5) by fastforce
  next
    case False
    show ?thesis
    proof (cases "ra = Err (Sqlite ConstraintViolation)")
      case True
      then have "acquire_loop uuids q d = (r, d')" using 2(5) False a same by simp
      then show ?thesis using 2(2) [OF refl False a [symmetric]] 2(3-4) True same by fastforce
    next
      case nc: False
      show ?thesis
      proof (cases ra)
        case (Inl e)
        then show ?thesis using 2(3,5) False a same nc by auto
      next
        case (Inr found)
        then show ?thesis using 2(3,5) False a same ae ah ai by (cases found) auto
      qed
    qed
  qed
qed auto

definition start_of :: "lan_playback_request \<Rightarrow> summary_playback_lease \<Rightarrow> u8 list \<Rightarrow> nat \<Rightarrow> lan_playback_start" where
  "start_of lan lease eiad samples = \<lparr> ls_begin = \<lparr> pb_identity = lease_identity lease, pb_total_bytes = of_nat (length eiad),
     pb_total_samples = of_nat samples, pb_chunk_bytes = of_nat PLAYBACK_CHUNK_BYTES, pb_request_nonce = pr_nonce (lr_request lan) \<rparr>,
     ls_source = lr_source lan, ls_eiad = eiad \<rparr>"

definition entry_of :: "summary_playback_lease \<Rightarrow> nat \<Rightarrow> active_host_playback" where
  "entry_of lease samples = \<lparr> hp_lease = lease, hp_identity = lease_identity lease, hp_total_samples = of_nat samples,
     hp_heard_committed = False \<rparr>"

lemma begin_cases [consumes 2, case_names ignored failed started]:
  assumes inv: "host_inv x h" and b: "begin_lan_playback x env lan h = (r, h')"
  obtains "h' = h"
  | d where "h' = h\<lparr>hs_db := d, hs_active := [], hs_commands := hs_commands h @ cancels env h\<rparr>"
      "ledger_inv x d" "db_leases d = []" "heard d = heard (hs_db h)"
  | d lease eiad samples u where
      "h' = h\<lparr>hs_db := d, hs_active := [(pl_lease lease, entry_of lease samples)],
         hs_commands := hs_commands h @ cancels env h @ [Start (start_of lan lease eiad samples)]\<rparr>"
      "ledger_inv x d" "db_leases d = [lease_row_of lease]" "heard d = heard (hs_db h)"
      "load_recording env lease = Ok (eiad, samples)" "validate_playback_lease x lease = Ok ()"
      "u \<in> set (take 4 (he_uuids env))" "pl_lease lease = u AND 0x7FFFFFFFFFFFFFFF"
proof -
  let ?q = "lr_request lan"
  obtain dc where c: "cancel_superseded x env (hs_active h) h =
      (Ok (), h\<lparr>hs_db := dc, hs_active := [], hs_commands := hs_commands h @ cancels env h\<rparr>)"
    "ledger_inv x dc" "db_leases dc = []" "heard dc = heard (hs_db h)"
    by (rule cancel_superseded_effect [OF inv])
  obtain ra da where a: "acquire_loop (take 4 (he_uuids env)) ?q dc = (ra, da)" by fastforce
  note ae = acquire_loop_effect [OF c(2,3) a]
  show ?thesis
  proof (cases "h' = h")
    case True
    then show ?thesis by (rule that(1))
  next
    case new: False
    note u = b [unfolded begin_lan_playback_def, simplified Let_def c a]
    show ?thesis
    proof (cases "\<exists>l. ra = Ok (Granted l)")
      case False
      then have "da = dc" using ae by blast
      then have "h' = h\<lparr>hs_db := dc, hs_active := [], hs_commands := hs_commands h @ cancels env h\<rparr>"
        using u new c a False by (auto split: if_splits sum.splits lease_outcome.splits)
      then show ?thesis using that(2) c by blast
    next
      case True
      then obtain l where l: "ra = Ok (Granted l)" by blast
      with ae obtain v where ll: "v \<in> set (take 4 (he_uuids env))" "pl_lease l = v AND 0x7FFFFFFFFFFFFFFF"
        "validate_playback_lease x l = Ok ()" "db_leases da = [lease_row_of l]" "ledger_inv x da" "heard da = heard dc" by auto
      let ?d = "snd (cancel_summary_playback x l da)"
      note ce = cancel_effect(2,3) [OF ll(5) ll(3)] cancel_heard [OF ll(5), of l]
      have undo: "ledger_inv x ?d" "db_leases ?d = []" "heard ?d = heard (hs_db h)" using ce ll(4,6) c(4) by simp_all
      show ?thesis
      proof (cases "load_recording env l")
        case (Inl e)
        then have "h' = h\<lparr>hs_db := ?d, hs_active := [], hs_commands := hs_commands h @ cancels env h\<rparr>"
          using u new c a l by (auto split: if_splits)
        then show ?thesis using that(2) undo by blast
      next
        case (Inr rec)
        obtain eiad samples where rec: "rec = (eiad, samples)" by fastforce
        show ?thesis
        proof (cases "he_connected env")
          case False
          then have "h' = h\<lparr>hs_db := ?d, hs_active := [], hs_commands := hs_commands h @ cancels env h\<rparr>"
            using u new c a l Inr rec by (auto split: if_splits)
          then show ?thesis using that(2) undo by blast
        next
          case True
          then have "h' = h\<lparr>hs_db := da, hs_active := [(pl_lease l, entry_of l samples)],
              hs_commands := hs_commands h @ cancels env h @ [Start (start_of lan l eiad samples)]\<rparr>"
            using u new c a l Inr rec by (auto simp: start_of_def entry_of_def send_command_def split: if_splits)
          then show ?thesis using that(3) [where lease = l and d = da and u = v] Inr rec ll c(4) by simp
        qed
      qed
    qed
  qed
qed

lemma finished_cases [consumes 2, case_names ignored committed retired]:
  assumes inv: "host_inv x h" and e: "playback_finished_event x env f h = h'"
  obtains "h' = h"
  | p d where "hs_active h = [(pl_lease (hp_lease p), p)]" "hp_identity p = pf_identity f" "hp_total_samples p = pf_played_samples f"
      "\<not> hp_heard_committed p" "ledger_inv x d" "db_leases d = []"
      "heard d = insert (lease_key (lease_row_of (hp_lease p))) (heard (hs_db h))"
      "hs_db h' = d" "hs_active h' = [(pl_lease (hp_lease p), p\<lparr>hp_heard_committed := True\<rparr>)]" "hs_commands h' = hs_commands h"
  | p d where "hs_active h = [(pl_lease (hp_lease p), p)]" "hp_identity p = pf_identity f" "hp_total_samples p = pf_played_samples f"
      "ledger_inv x d" "db_leases d = []"
      "heard d = (if hp_heard_committed p then heard (hs_db h) else insert (lease_key (lease_row_of (hp_lease p))) (heard (hs_db h)))"
      "hs_db h' = d" "hs_active h' = []" "hs_commands h' = hs_commands h @ [FinishAck (pf_identity f)]"
proof (cases "h' = h")
  case True
  then show ?thesis by (rule that(1))
next
  case new: False
  show ?thesis using inv
  proof (cases rule: host_inv_cases)
    case idle
    then show ?thesis using new e by (simp add: playback_finished_event_def)
  next
    case (busy p)
    have k: "pi_lease (pf_identity f) = pl_lease (hp_lease p)" "hp_identity p = pf_identity f" "hp_total_samples p = pf_played_samples f"
      using new e busy by (auto simp: playback_finished_event_def split: if_splits)
    obtain r d where fin: "finish_summary_playback x (hp_lease p) (hs_db h) = (r, d)" by fastforce
    note fe = finish_effect [OF busy(4) fin] and fh = finish_heard [OF busy(4) fin]
    have fi: "ledger_inv x d" using finish_inv [OF busy(4)] fin by (metis snd_conv)
    show ?thesis
    proof (cases "hp_heard_committed p")
      case True
      then show ?thesis
        using new e busy k that(3) [of p "hs_db h"]
        by (auto simp: playback_finished_event_def Let_def send_command_def bt_remove_def split: if_splits)
    next
      case False
      have ok: "r = Ok True"
      proof (rule ccontr)
        assume "r \<noteq> Ok True"
        then have "h' = h" using e busy k False fin fe
          by (cases r) (auto simp: playback_finished_event_def Let_def split: if_splits bool.splits)
        with new show False by simp
      qed
      then have d: "db_leases d = []" "heard d = insert (lease_key (lease_row_of (hp_lease p))) (heard (hs_db h))"
        using fe fh busy(5) False by auto
      let ?h = "h\<lparr>hs_db := d, hs_active := [(pl_lease (hp_lease p), p\<lparr>hp_heard_committed := True\<rparr>)]\<rparr>"
      have "h' = ?h \<or> h' = ?h\<lparr>hs_active := [], hs_commands := hs_commands h @ [FinishAck (pf_identity f)]\<rparr>"
        using e busy(1) k False fin ok
        by (auto simp: playback_finished_event_def Let_def send_command_def bt_remove_def)
      then show ?thesis
      proof
        assume "h' = ?h"
        then show ?thesis using that(2) [of p d] busy(1) k False d fi by simp
      next
        assume "h' = ?h\<lparr>hs_active := [], hs_commands := hs_commands h @ [FinishAck (pf_identity f)]\<rparr>"
        then show ?thesis using that(3) [of p d] busy(1) k False d fi by simp
      qed
    qed
  qed
qed

lemma cancelled_cases [consumes 3, case_names ignored released]:
  assumes inv: "host_inv x h" and e: "playback_cancelled_event x i h = h'"
    and fits: "\<And>p. map_of (hs_active h) (pi_lease i) = Some p \<Longrightarrow> hp_identity p = i"
  obtains "h' = h" "\<And>e. e \<in> set (hs_active h) \<Longrightarrow> hp_identity (snd e) \<noteq> i"
  | d where "h' = h\<lparr>hs_db := d, hs_active := []\<rparr>" "ledger_inv x d" "db_leases d = []" "heard d = heard (hs_db h)"
  using inv
proof (cases rule: host_inv_cases)
  case idle
  then show ?thesis using e that(1) by (simp add: playback_cancelled_event_def)
next
  case (busy p)
  show ?thesis
  proof (cases "pl_lease (hp_lease p) = pi_lease i")
    case False
    then have "hp_identity p \<noteq> i" using busy(2) by (auto simp: lease_identity_def)
    then show ?thesis using e busy False that(1) by (simp add: playback_cancelled_event_def)
  next
    case True
    then have i: "hp_identity p = i" using fits busy by simp
    note ce = cancel_effect(2,3) [OF busy(4) busy(3)] cancel_heard [OF busy(4), of "hp_lease p"]
    show ?thesis
    proof (cases "hp_heard_committed p")
      case h: True
      then have "h' = h\<lparr>hs_db := hs_db h, hs_active := []\<rparr>"
        using e busy True i by (simp add: playback_cancelled_event_def bt_remove_def Let_def)
      then show ?thesis using that(2) [of "hs_db h"] busy h by simp
    next
      case h: False
      then have "h' = h\<lparr>hs_db := snd (cancel_summary_playback x (hp_lease p) (hs_db h)), hs_active := []\<rparr>"
        using e busy True i by (auto simp: playback_cancelled_event_def bt_remove_def Let_def)
      then show ?thesis using that(2) ce busy h by simp
    qed
  qed
qed

section \<open>What the transfer does to its recording\<close>

text \<open>The identities a list of events says were cancelled.\<close>

definition cancelled :: "lan_playback_event list \<Rightarrow> playback_identity set" where
  "cancelled evs = {i. Cancelled i \<in> set evs}"

lemma cancelled_simps [simp]:
  "cancelled [] = {}" "cancelled (a @ b) = cancelled a \<union> cancelled b"
  "cancelled (Cancelled i # evs) = insert i (cancelled evs)" "cancelled (Finished f # evs) = cancelled evs"
  "cancelled (Request r # evs) = cancelled evs"
  by (auto simp: cancelled_def)

text \<open>A step that is no command keeps the recording in transfer, or drops it and says so.\<close>

definition carries :: "active_lan_playback \<Rightarrow> playback_io \<Rightarrow> active_lan_playback \<Rightarrow> playback_io \<Rightarrow> bool" where
  "carries p io p' io' \<longleftrightarrow> (\<exists>evs. io_events io' = io_events io @ evs \<and>
     (cancelled evs = {} \<and> map_option pt_begin (lp_transfer p') = map_option pt_begin (lp_transfer p) \<or>
      (\<exists>t. lp_transfer p = Some t \<and> lp_transfer p' = None \<and> cancelled evs = {pb_identity (pt_begin t)})))"

lemma carries_same: "io_events io' = io_events io \<Longrightarrow>
    map_option pt_begin (lp_transfer p') = map_option pt_begin (lp_transfer p) \<Longrightarrow> carries p io p' io'"
  by (simp add: carries_def)

lemma carries_drop:
  assumes "lp_transfer p = Some t" "pt_begin t' = pt_begin t" "io_events io1 = io_events io" "drop_transfer t' p1 io1 = (p', io')"
  shows "carries p io p' io'"
  using assms by (auto simp: carries_def drop_transfer_def emit_def)

lemma send_or_drop_carries:
  assumes "lp_transfer p = Some t" "pt_begin t' = pt_begin t" "io_events io1 = io_events io" "pt_eiad t' = pt_eiad t"
    "send_or_drop hmac seal orc key now t' p io1 = (p', io')"
  shows "carries p io p' io'"
proof -
  let ?start = "pt_acknowledged_offset t'"
  let ?stop = "min (?start + PLAYBACK_CHUNK_BYTES * PLAYBACK_SEND_WINDOW_CHUNKS) (length (pt_eiad t'))"
  obtain r io2 where s: "send_chunks hmac seal orc key t' ?start ?stop io1 = (r, io2)" by fastforce
  have ev: "io_events io2 = io_events io" using send_chunks_spec(1) [OF s] assms(3) by simp
  show ?thesis
  proof (cases "r = AllSent")
    case True
    then show ?thesis using assms s ev
      by (auto simp: send_or_drop_def send_next_data_def Let_def intro!: carries_same)
  next
    case False
    then have "drop_transfer t' p io2 = (p', io')" using assms(5) s by (simp add: send_or_drop_def send_next_data_def Let_def)
    then show ?thesis using assms(1,2) ev by (rule carries_drop [rotated 3])
  qed
qed

lemma send_to_events: "io_events (snd (send_to orc packet dest io)) = io_events io"
  by (simp add: send_to_def Let_def)

lemma send_chunks_events:
  "send_chunks hmac seal orc key t offset stop io = (r, io') \<Longrightarrow> io_events io' = io_events io"
proof (induction hmac seal orc key t offset stop io rule: send_chunks.induct)
  case (1 hmac seal orc key t offset stop io)
  note u = 1(2) [unfolded send_chunks.simps [of _ _ _ _ _ offset] Let_def]
  show ?case
  proof (cases "encode_data hmac seal key (pb_identity (pt_begin t)) (pb_request_nonce (pt_begin t)) (of_nat offset)
            (slice offset (min (offset + PLAYBACK_CHUNK_BYTES) stop) (pt_eiad t))")
    case (Inl e)
    then show ?thesis using u by (auto split: if_splits)
  next
    case (Inr packet)
    obtain sent io1 where s: "send_to orc packet (pt_source t) io = (sent, io1)" by fastforce
    have e: "io_events io1 = io_events io" using send_to_cases [OF s] by simp
    show ?thesis
    proof (cases "offset < stop \<and> sent \<noteq> None")
      case True
      then show ?thesis using 1(1) [OF _ refl Inr s [symmetric] refl] u Inr s e by auto
    next
      case False
      then show ?thesis using u Inr s e by (auto split: if_splits)
    qed
  qed
qed

lemma accept_ack_carries:
  assumes "accept_ack hmac seal orc ack source key now p io = (p', io')"
  shows "carries p io p' io'"
proof (cases "lp_transfer p")
  case None
  then show ?thesis using assms
    by (auto simp: accept_ack_def send_to_events split: if_splits intro!: carries_same)
next
  case (Some t)
  have sd: "carries p io p' io'" if "send_or_drop hmac seal orc key now t' p io = (p', io')"
      "pt_begin t' = pt_begin t" "pt_eiad t' = pt_eiad t" for t'
    by (rule send_or_drop_carries [OF Some that(2) refl that(3,1)])
  have dr: "carries p io p' io'" if "drop_transfer t p1 io1 = (p', io')" "io_events io1 = io_events io" for p1 io1
    by (rule carries_drop [OF Some refl that(2,1)])
  note u = assms [unfolded accept_ack_def Let_def Some option.case]
  show ?thesis
    using u by (auto simp: Some split: if_splits intro: carries_same elim!: sd dr intro: send_to_events)
qed

lemma accept_finished_carries:
  assumes "accept_finished hmac orc finished source key now p io = (p', io')"
  shows "carries p io p' io'"
  using assms unfolding accept_finished_def
  by (auto simp: send_to_events carries_def emit_def split: if_splits option.splits)

lemma playback_ingest_carries:
  assumes "playback_ingest hmac seal orc packet source key now p io = (p', io')"
  shows "carries p io p' io'"
proof -
  have same: "carries p io p io" by (rule carries_same) simp_all
  have req: "carries p io p' io'" if r: "decode_request hmac key packet = Ok request" and "starts_with EIPR packet" for request
  proof -
    obtain b p1 where a: "accept_request_generation request p = (b, p1)" by fastforce
    have t: "lp_transfer p1 = lp_transfer p" using accept_request_transfer [of request p] a by simp
    show ?thesis
      using assms that a t
      by (auto simp: playback_ingest_def Let_def carries_def drop_transfer_def emit_def split: if_splits option.splits)
  qed
  show ?thesis
    using assms same req
    by (auto simp: playback_ingest_def intro: accept_ack_carries accept_finished_carries split: if_splits sum.splits)
qed

lemma tick_carries:
  assumes "tick hmac seal orc key now p io = (p', io')"
  shows "carries p io p' io'"
proof -
  let ?p = "expire_retired now p"
  have e: "lp_transfer ?p = lp_transfer p" by (simp add: expire_retired_def Let_def)
  show ?thesis
  proof (cases "lp_transfer p")
    case None
    then show ?thesis using assms e by (auto simp: tick_def Let_def intro!: carries_same)
  next
    case (Some t)
    have drop: "carries p io p' io'" if "drop_transfer t ?p io = (p', io')" using that by (rule carries_drop [OF Some refl refl])
    have keep: "carries p io ?p io" by (rule carries_same) (simp_all add: e)
    show ?thesis
    proof (cases "pt_phase t = DeviceFinished \<or> pt_phase t = HostCommit \<or> now - pt_last_send t < PLAYBACK_RETRY \<or>
          pt_retry_count t \<ge> PLAYBACK_MAX_RETRIES \<or> key = None")
      case True
      then show ?thesis using assms e Some drop keep by (auto simp: tick_def Let_def split: if_splits option.splits)
    next
      case False
      then obtain k where k: "key = Some k" by auto
      obtain r io1 where s: "(if pt_phase t = BeginAck
            then (case send_to orc (encode_begin hmac k (pt_begin t)) (pt_source t) io of
                    (None, io) \<Rightarrow> (SocketFailed, io) | (Some _, io) \<Rightarrow> (AllSent, io))
            else send_chunks hmac seal orc k t (pt_acknowledged_offset t) (pt_sent_end_offset t) io) = (r, io1)"
        by fastforce
      have "io_events io1 = io_events io"
        using s send_chunks_events [of hmac seal orc k t _ _ io r io1] send_to_events [of orc _ _ io]
        by (auto split: if_splits prod.splits option.splits) (metis snd_conv)+
      then show ?thesis
        using assms False k e Some s by (auto simp: tick_def Let_def split: if_splits intro!: carries_same)
    qed
  qed
qed

section \<open>The two threads together\<close>

text \<open>
  The host thread, the transfer, the packets and events of the ingress thread, how many of the events the
  host has taken, and, for the statements only, every recording the host ever started.
\<close>

record playback_system =
  sy_host :: host_state
  sy_transfer :: active_lan_playback
  sy_io :: playback_io
  sy_seen :: nat
  sy_issued :: "lan_playback_start set"

definition started :: "lan_playback_command list \<Rightarrow> lan_playback_start set" where
  "started cs = {s. Start s \<in> set cs}"

text \<open>A lease number is not drawn twice, and the cache answers with what was stored.\<close>

definition fresh_uuids :: "host_env \<Rightarrow> lan_playback_start set \<Rightarrow> bool" where
  "fresh_uuids env S \<longleftrightarrow> (\<forall>u \<in> set (he_uuids env). \<forall>s \<in> S. u AND 0x7FFFFFFFFFFFFFFF \<noteq> pi_lease (pb_identity (ls_begin s)))"

definition honest_cache :: "(cache_id \<Rightarrow> u8 list) \<Rightarrow> host_env \<Rightarrow> bool" where
  "honest_cache content env \<longleftrightarrow> (\<forall>i b. he_cache env i = Some b \<longrightarrow> b = content i)"

inductive system_reach ::
  "externals \<Rightarrow> (cache_id \<Rightarrow> u8 list) \<Rightarrow> hmac_sha256 \<Rightarrow> aead_seal \<Rightarrow> send_oracle \<Rightarrow> bytes32 \<Rightarrow> playback_system \<Rightarrow> bool"
  for x content hmac seal orc k where
  sys_start: "store_reachable x d \<Longrightarrow> db_leases d = [] \<Longrightarrow>
    system_reach x content hmac seal orc k
      \<lparr> sy_host = \<lparr> hs_db = d, hs_active = [], hs_commands = [] \<rparr>, sy_transfer = default_playback, sy_io = empty_io,
         sy_seen = 0, sy_issued = {} \<rparr>"
| sys_store: "system_reach x content hmac seal orc k y \<Longrightarrow> store_step x (hs_db (sy_host y)) d \<Longrightarrow>
    db_leases d = db_leases (hs_db (sy_host y)) \<Longrightarrow>
    system_reach x content hmac seal orc k (y\<lparr>sy_host := (sy_host y)\<lparr>hs_db := d\<rparr>\<rparr>)"
| sys_event: "system_reach x content hmac seal orc k y \<Longrightarrow> sy_seen y < length (io_events (sy_io y)) \<Longrightarrow>
    fresh_uuids env (sy_issued y) \<Longrightarrow> honest_cache content env \<Longrightarrow>
    h = handle_lan_playback_event x env (io_events (sy_io y) ! sy_seen y) (sy_host y) \<Longrightarrow>
    system_reach x content hmac seal orc k
      (y\<lparr>sy_host := h, sy_seen := Suc (sy_seen y), sy_issued := sy_issued y \<union> started (hs_commands h)\<rparr>)"
| sys_command: "system_reach x content hmac seal orc k y \<Longrightarrow> hs_commands (sy_host y) = c # cs \<Longrightarrow> key = None \<or> key = Some k \<Longrightarrow>
    playback_step hmac seal orc key now (Command c) (sy_transfer y) (sy_io y) = (p, io) \<Longrightarrow>
    system_reach x content hmac seal orc k
      (y\<lparr>sy_host := (sy_host y)\<lparr>hs_commands := cs\<rparr>, sy_transfer := p, sy_io := io\<rparr>)"
| sys_input: "system_reach x content hmac seal orc k y \<Longrightarrow> (\<And>c. inp \<noteq> Command c) \<Longrightarrow> key = None \<or> key = Some k \<Longrightarrow>
    playback_step hmac seal orc key now inp (sy_transfer y) (sy_io y) = (p, io) \<Longrightarrow>
    system_reach x content hmac seal orc k (y\<lparr>sy_transfer := p, sy_io := io\<rparr>)"

section \<open>The invariant of the system\<close>

definition start_identity :: "lan_playback_start \<Rightarrow> playback_identity" where
  "start_identity s = pb_identity (ls_begin s)"

text \<open>The recording of an entry of the host's table is the one the cache holds for the leased summary.\<close>

definition recording_of :: "externals \<Rightarrow> (cache_id \<Rightarrow> u8 list) \<Rightarrow> active_host_playback \<Rightarrow> lan_playback_start \<Rightarrow> bool" where
  "recording_of x content p s \<longleftrightarrow> start_identity s = hp_identity p \<and> pb_total_samples (ls_begin s) = hp_total_samples p \<and>
     transcode_eiad_for_device (content \<lparr> ci_task_hash = sha256 x (pl_task_id (hp_lease p)),
        ci_generation = pl_summary_generation (hp_lease p) \<rparr>) = Ok (ls_eiad s)"

text \<open>A playback that is not heard yet waits to start, is in transfer, or its end is on the way to the host.\<close>

definition in_flight :: "playback_system \<Rightarrow> playback_identity \<Rightarrow> bool" where
  "in_flight y i \<longleftrightarrow>
     (\<exists>s \<in> started (hs_commands (sy_host y)). start_identity s = i) \<or>
     (\<exists>t. lp_transfer (sy_transfer y) = Some t \<and> pb_identity (pt_begin t) = i) \<or>
     i \<in> cancelled (drop (sy_seen y) (io_events (sy_io y)))"

text \<open>The commands in the queue that end a transfer without an event.\<close>

definition stopped :: "lan_playback_command list \<Rightarrow> playback_identity set" where
  "stopped cs = {i. Cancel i \<in> set cs \<or> FinishAck i \<in> set cs}"

definition entry_inv :: "externals \<Rightarrow> (cache_id \<Rightarrow> u8 list) \<Rightarrow> playback_system \<Rightarrow> active_host_playback \<Rightarrow> bool" where
  "entry_inv x content y p \<longleftrightarrow> (\<exists>s \<in> sy_issued y. recording_of x content p s) \<and>
     hp_identity p \<notin> stopped (hs_commands (sy_host y)) \<and> (\<not> hp_heard_committed p \<longrightarrow> in_flight y (hp_identity p))"

definition system_inv ::
  "externals \<Rightarrow> (cache_id \<Rightarrow> u8 list) \<Rightarrow> hmac_sha256 \<Rightarrow> aead_seal \<Rightarrow> send_oracle \<Rightarrow> bytes32 \<Rightarrow> playback_system \<Rightarrow> bool" where
  "system_inv x content hmac seal orc k y \<longleftrightarrow>
     host_inv x (sy_host y) \<and>
     playback_reach (sy_issued y) hmac seal orc k (sy_transfer y) (sy_io y) \<and>
     started (hs_commands (sy_host y)) \<subseteq> sy_issued y \<and>
     stopped (hs_commands (sy_host y)) \<subseteq> start_identity ` sy_issued y \<and>
     cancelled (io_events (sy_io y)) \<subseteq> start_identity ` sy_issued y \<and>
     inj_on (\<lambda>s. pi_lease (start_identity s)) (sy_issued y) \<and>
     sy_seen y \<le> length (io_events (sy_io y)) \<and>
     (\<forall>e \<in> set (hs_active (sy_host y)). entry_inv x content y (snd e))"

lemma started_simps [simp]: "started [] = {}" "started (a @ b) = started a \<union> started b"
  "started (c # cs) = (case c of Start s \<Rightarrow> insert s (started cs) | _ \<Rightarrow> started cs)"
  by (auto simp: started_def split: lan_playback_command.splits)

lemma stopped_simps [simp]: "stopped [] = {}" "stopped (a @ b) = stopped a \<union> stopped b"
  "stopped (c # cs) = (case c of Cancel i \<Rightarrow> insert i (stopped cs) | FinishAck i \<Rightarrow> insert i (stopped cs) | _ \<Rightarrow> stopped cs)"
  by (auto simp: stopped_def split: lan_playback_command.splits)

lemma cancels_facts [simp]: "started (cancels env h) = {}"
  "stopped (cancels env h) \<subseteq> (\<lambda>e. hp_identity (snd e)) ` set (hs_active h)"
  by (auto simp: cancels_def started_def stopped_def intro: rev_image_eqI)

lemma system_invD:
  assumes "system_inv x content hmac seal orc k y"
  shows "host_inv x (sy_host y)" "playback_reach (sy_issued y) hmac seal orc k (sy_transfer y) (sy_io y)"
    "started (hs_commands (sy_host y)) \<subseteq> sy_issued y" "stopped (hs_commands (sy_host y)) \<subseteq> start_identity ` sy_issued y"
    "cancelled (io_events (sy_io y)) \<subseteq> start_identity ` sy_issued y"
    "inj_on (\<lambda>s. pi_lease (start_identity s)) (sy_issued y)" "sy_seen y \<le> length (io_events (sy_io y))"
    "e \<in> set (hs_active (sy_host y)) \<Longrightarrow> entry_inv x content y (snd e)"
  using assms by (simp_all add: system_inv_def)

text \<open>The cancellations and ends of a recording the host hears of name entries of its table exactly.\<close>

lemma issued_fits:
  assumes inv: "system_inv x content hmac seal orc k y" and i: "i \<in> start_identity ` sy_issued y"
    and p: "map_of (hs_active (sy_host y)) (pi_lease i) = Some p"
  shows "hp_identity p = i"
proof -
  note D = system_invD [OF inv]
  have m: "(pi_lease i, p) \<in> set (hs_active (sy_host y))" using p by (rule map_of_SomeD)
  have "entry_ok x (pi_lease i, p)" using D(1) m by (auto simp: host_inv_def list_all_iff)
  then have l: "pi_lease (hp_identity p) = pi_lease i" by (simp add: entry_ok_def lease_identity_def)
  obtain s where s: "s \<in> sy_issued y" "start_identity s = hp_identity p"
    using D(8) [OF m] by (auto simp: entry_inv_def recording_of_def)
  obtain s' where s': "s' \<in> sy_issued y" "start_identity s' = i" using i by blast
  have "s = s'" using inj_onD [OF D(6) _ s(1) s'(1)] s(2) s'(2) l by simp
  then show ?thesis using s(2) s'(2) by simp
qed

lemma system_store_step:
  assumes inv: "system_inv x content hmac seal orc k y" and ext: "json_ids_roundtrip x"
    and st: "store_step x (hs_db (sy_host y)) d" and l: "db_leases d = db_leases (hs_db (sy_host y))"
  shows "system_inv x content hmac seal orc k (y\<lparr>sy_host := (sy_host y)\<lparr>hs_db := d\<rparr>\<rparr>)"
proof -
  have "ledger_inv x d" using system_invD(1) [OF inv] ledger_inv_step [OF _ ext st] by (simp add: host_inv_def)
  then show ?thesis using inv l by (simp add: system_inv_def host_inv_def entry_inv_def in_flight_def)
qed

lemma system_input_step:
  assumes inv: "system_inv x content hmac seal orc k y" and i: "\<And>c. inp \<noteq> Command c" and key: "key = None \<or> key = Some k"
    and st: "playback_step hmac seal orc key now inp (sy_transfer y) (sy_io y) = (p, io)"
  shows "system_inv x content hmac seal orc k (y\<lparr>sy_transfer := p, sy_io := io\<rparr>)"
proof -
  note D = system_invD [OF inv]
  have r: "playback_reach (sy_issued y) hmac seal orc k p io"
    using D(2) key _ st by (rule reach_step) (use i in auto)
  have c: "carries (sy_transfer y) (sy_io y) p io"
  proof (cases inp)
    case (Packet packet source)
    then show ?thesis using st by (auto simp: playback_step_def intro: carries_same playback_ingest_carries split: option.splits)
  next
    case (Heartbeat packet source)
    then show ?thesis using st
      by (auto simp: playback_step_def handle_heartbeat_def Let_def send_to_events split: option.splits sum.splits prod.splits if_splits
          intro!: carries_same dest!: send_to_cases)
  next
    case Tick
    then show ?thesis using st by (auto simp: playback_step_def intro: tick_carries)
  qed (use i in blast)
  then obtain evs where ev: "io_events io = io_events (sy_io y) @ evs"
    "cancelled evs = {} \<and> map_option pt_begin (lp_transfer p) = map_option pt_begin (lp_transfer (sy_transfer y)) \<or>
      (\<exists>t. lp_transfer (sy_transfer y) = Some t \<and> lp_transfer p = None \<and> cancelled evs = {pb_identity (pt_begin t)})"
    unfolding carries_def by blast
  have tr: "pb_identity (pt_begin t) \<in> start_identity ` sy_issued y" if "lp_transfer (sy_transfer y) = Some t" for t
    using reach_good [OF D(2) that] by (force simp: transfer_good_def start_identity_def)
  have "cancelled evs \<subseteq> start_identity ` sy_issued y" using ev(2) tr by auto
  moreover have "in_flight (y\<lparr>sy_transfer := p, sy_io := io\<rparr>) i" if "in_flight y i" for i
    using that ev D(7) unfolding in_flight_def by (auto simp: map_option_case split: option.splits)
  ultimately show ?thesis using inv r ev(1) by (auto simp: system_inv_def entry_inv_def)
qed

lemma handle_start_effect:
  assumes "handle_command hmac orc key now (Start s) p io = (p', io')"
  shows "io_events io' = io_events io @ [Cancelled (start_identity s)] \<and> p' = p \<or>
    io_events io' = io_events io \<and> lp_transfer p = None \<and> (\<exists>t. lp_transfer p' = Some t \<and> pt_begin t = ls_begin s)"
proof (cases key)
  case None
  then show ?thesis using assms by (auto simp: handle_command_def Let_def emit_def start_identity_def split: if_splits)
next
  case (Some k)
  obtain r io1 where s: "send_to orc (encode_begin hmac k (ls_begin s)) (ls_source s) io = (r, io1)" by fastforce
  then have "io_events io1 = io_events io" by (auto dest: send_to_cases)
  then show ?thesis using assms Some s by (auto simp: handle_command_def Let_def emit_def start_identity_def split: if_splits)
qed

lemma handle_other_effect:
  assumes "handle_command hmac orc key now c p io = (p', io')" "\<And>s. c \<noteq> Start s"
  shows "io_events io' = io_events io \<and>
    (lp_transfer p' = lp_transfer p \<or> (\<exists>t. lp_transfer p = Some t \<and> pb_identity (pt_begin t) \<in> stopped [c]))"
proof (cases c)
  case (FinishAck i)
  then show ?thesis using assms(1)
    by (auto simp: handle_command_def Let_def split: if_splits option.splits prod.splits dest!: send_to_cases)
next
  case (Cancel i)
  then show ?thesis using assms(1) by (auto simp: handle_command_def split: if_splits option.splits)
qed (use assms in \<open>auto simp: handle_command_def\<close>)

lemma system_command_step:
  assumes inv: "system_inv x content hmac seal orc k y" and q: "hs_commands (sy_host y) = c # cs" and key: "key = None \<or> key = Some k"
    and st: "playback_step hmac seal orc key now (Command c) (sy_transfer y) (sy_io y) = (p, io)"
  shows "system_inv x content hmac seal orc k (y\<lparr>sy_host := (sy_host y)\<lparr>hs_commands := cs\<rparr>, sy_transfer := p, sy_io := io\<rparr>)"
proof -
  note D = system_invD [OF inv]
  let ?y = "y\<lparr>sy_host := (sy_host y)\<lparr>hs_commands := cs\<rparr>, sy_transfer := p, sy_io := io\<rparr>"
  have starts: "s \<in> sy_issued y" if "c = Start s" for s using D(3) q that by auto
  have r: "playback_reach (sy_issued y) hmac seal orc k p io"
    using D(2) key _ st by (rule reach_step) (use starts in auto)
  have h: "handle_command hmac orc key now c (sy_transfer y) (sy_io y) = (p, io)" using st by (simp add: playback_step_def)
  obtain evs where ev: "io_events io = io_events (sy_io y) @ evs"
    "cancelled evs \<subseteq> start_identity ` started [c]"
    "\<And>s. c = Start s \<Longrightarrow> start_identity s \<in> cancelled evs \<or> (\<exists>t. lp_transfer p = Some t \<and> pt_begin t = ls_begin s)"
    "\<And>t. lp_transfer (sy_transfer y) = Some t \<Longrightarrow> pb_identity (pt_begin t) \<notin> stopped [c] \<Longrightarrow> lp_transfer p = Some t"
  proof (cases "\<exists>s. c = Start s")
    case True
    then obtain s where c: "c = Start s" by blast
    from handle_start_effect [OF h [unfolded c]] show thesis
    proof
      assume "io_events io = io_events (sy_io y) @ [Cancelled (start_identity s)] \<and> p = sy_transfer y"
      then show thesis using that [of "[Cancelled (start_identity s)]"] c by simp
    next
      assume "io_events io = io_events (sy_io y) \<and> lp_transfer (sy_transfer y) = None \<and>
        (\<exists>t. lp_transfer p = Some t \<and> pt_begin t = ls_begin s)"
      then show thesis using that [of "[]"] c by simp
    qed
  next
    case False
    then show thesis using handle_other_effect [OF h] that [of "[]"] by auto
  qed
  have st: "started (c # cs) = started [c] \<union> started cs" "stopped (c # cs) = stopped [c] \<union> stopped cs"
    by (auto split: lan_playback_command.splits)
  have fl: "in_flight ?y i" if i: "in_flight y i" "i \<notin> stopped [c]" for i
  proof -
    have "in_flight ?y i" if "s \<in> started [c]" "start_identity s = i" for s
    proof -
      have "c = Start s" using that(1) by (auto split: lan_playback_command.splits)
      from ev(3) [OF this] show ?thesis using that(2) ev(1) D(7) by (auto simp: in_flight_def start_identity_def)
    qed
    then show ?thesis using i ev(1,4) D(7) st(1) by (fastforce simp: in_flight_def q)
  qed
  have sub: "started cs \<subseteq> started (c # cs)" "stopped [c] \<subseteq> stopped (c # cs)" "stopped cs \<subseteq> stopped (c # cs)" "started [c] \<subseteq> sy_issued y"
    using D(3) unfolding q st by blast+
  have ent: "entry_inv x content ?y p'" if e: "entry_inv x content y p'" for p'
  proof -
    have "hp_identity p' \<notin> stopped (c # cs)" using e q by (simp add: entry_inv_def)
    then show ?thesis using e fl sub(2,3) by (auto simp: entry_inv_def)
  qed
  have hi: "host_inv x ((sy_host y)\<lparr>hs_commands := cs\<rparr>)" using D(1) by (simp add: host_inv_def)
  have ca: "cancelled (io_events io) \<subseteq> start_identity ` sy_issued y" 
    unfolding ev(1) cancelled_simps using D(5) ev(2) image_mono [OF sub(4), of start_identity] by blast
  show ?thesis
    unfolding system_inv_def using D(3,4,6,7) D(8) [THEN ent] r hi ca ev(1) sub(1,3) by (simp add: q) blast
qed

lemma lease_cache:
  assumes "validate_playback_lease x l = Ok ()"
  shows "from_reference (pl_cache_object l) = Ok \<lparr> ci_task_hash = sha256 x (pl_task_id l), ci_generation = pl_summary_generation l \<rparr>"
  using assms by (auto simp: validate_playback_lease_def and_then_Ok_iff Let_def for_task_def split: if_splits sum.splits)

lemma started_recording:
  assumes "validate_playback_lease x l = Ok ()" "honest_cache content env" "load_recording env l = Ok (eiad, samples)"
  shows "recording_of x content (entry_of l samples) (start_of lan l eiad samples)"
  using assms(2,3) lease_cache [OF assms(1)]
  by (auto simp: load_recording_def recording_of_def entry_of_def start_of_def start_identity_def honest_cache_def and_then_Ok_iff
      map_err_def split: option.splits sum.splits if_splits)

text \<open>A step of the host that starts nothing keeps the invariant when the entries left are still well.\<close>

lemma system_quiet:
  assumes inv: "system_inv x content hmac seal orc k y" and hi: "host_inv x h"
    and q: "hs_commands h = hs_commands (sy_host y) @ cs" "started cs = {}" "stopped cs \<subseteq> start_identity ` sy_issued y"
    and ev: "sy_seen y < length (io_events (sy_io y))"
    and ent: "\<And>e. e \<in> set (hs_active h) \<Longrightarrow> hp_identity (snd e) \<notin> stopped cs \<and>
      (\<exists>p. (fst e, p) \<in> set (hs_active (sy_host y)) \<and> hp_identity p = hp_identity (snd e) \<and> hp_lease p = hp_lease (snd e) \<and>
        hp_total_samples p = hp_total_samples (snd e) \<and> (hp_heard_committed p \<longrightarrow> hp_heard_committed (snd e))) \<and>
      (\<not> hp_heard_committed (snd e) \<longrightarrow> io_events (sy_io y) ! sy_seen y \<noteq> Cancelled (hp_identity (snd e)))"
  shows "system_inv x content hmac seal orc k
    (y\<lparr>sy_host := h, sy_seen := Suc (sy_seen y), sy_issued := sy_issued y \<union> started (hs_commands h)\<rparr>)"
proof -
  note D = system_invD [OF inv]
  let ?y = "y\<lparr>sy_host := h, sy_seen := Suc (sy_seen y), sy_issued := sy_issued y \<union> started (hs_commands h)\<rparr>"
  have iss: "sy_issued y \<union> started (hs_commands h) = sy_issued y" using D(3) q by auto
  have dr: "drop (sy_seen y) (io_events (sy_io y)) = io_events (sy_io y) ! sy_seen y # drop (Suc (sy_seen y)) (io_events (sy_io y))"
    using ev by (simp add: Cons_nth_drop_Suc)
  have fl: "in_flight ?y i" if "in_flight y i" "io_events (sy_io y) ! sy_seen y \<noteq> Cancelled i" for i
    using that unfolding in_flight_def dr by (cases "io_events (sy_io y) ! sy_seen y") (auto simp: q(1))
  have "entry_inv x content ?y (snd e)" if e: "e \<in> set (hs_active h)" for e
  proof -
    obtain p where p: "(fst e, p) \<in> set (hs_active (sy_host y))" "hp_identity p = hp_identity (snd e)" "hp_lease p = hp_lease (snd e)"
        "hp_total_samples p = hp_total_samples (snd e)" "hp_heard_committed p \<longrightarrow> hp_heard_committed (snd e)"
      using ent [OF e] by blast
    have "entry_inv x content y p" using D(8) [OF p(1)] by simp
    then show ?thesis
      using ent [OF e] p(2-5) fl [of "hp_identity (snd e)"] q(1) iss by (auto simp: entry_inv_def recording_of_def)
  qed
  then show ?thesis
    unfolding system_inv_def using D(2-7) hi q iss ev by simp
qed

lemma system_event_step:
  assumes inv: "system_inv x content hmac seal orc k y" and ev: "sy_seen y < length (io_events (sy_io y))"
    and fresh: "fresh_uuids env (sy_issued y)" and honest: "honest_cache content env"
    and h: "h = handle_lan_playback_event x env (io_events (sy_io y) ! sy_seen y) (sy_host y)"
  shows "system_inv x content hmac seal orc k
    (y\<lparr>sy_host := h, sy_seen := Suc (sy_seen y), sy_issued := sy_issued y \<union> started (hs_commands h)\<rparr>)"
proof -
  note D = system_invD [OF inv]
  have ids: "(\<lambda>e. hp_identity (snd e)) ` set (hs_active (sy_host y)) \<subseteq> start_identity ` sy_issued y"
  proof
    fix i assume "i \<in> (\<lambda>e. hp_identity (snd e)) ` set (hs_active (sy_host y))"
    then obtain e where e: "e \<in> set (hs_active (sy_host y))" "i = hp_identity (snd e)" by blast
    then show "i \<in> start_identity ` sy_issued y" using D(8) [OF e(1)] by (force simp: entry_inv_def recording_of_def)
  qed
  have mem: "io_events (sy_io y) ! sy_seen y \<in> set (io_events (sy_io y))" using ev by simp
  show ?thesis
  proof (cases "io_events (sy_io y) ! sy_seen y")
    case (Request lan)
    obtain r where b: "begin_lan_playback x env lan (sy_host y) = (r, h)"
      using h Request by (cases "begin_lan_playback x env lan (sy_host y)") (simp add: handle_lan_playback_event_def)
    from D(1) b show ?thesis
    proof (cases rule: begin_cases)
      case ignored
      then show ?thesis using D(1) Request by (intro system_quiet [OF inv _ _ _ _ ev, where cs = "[]"]) auto
    next
      case (failed d)
      have "stopped (cancels env (sy_host y)) \<subseteq> start_identity ` sy_issued y" using cancels_facts(2) ids by (rule subset_trans)
      then show ?thesis
        using failed by (intro system_quiet [OF inv _ _ _ _ ev, where cs = "cancels env (sy_host y)"]) (auto simp: host_inv_def)
    next
      case (started d lease eiad samples u)
      let ?s = "start_of lan lease eiad samples"
      have iss: "sy_issued y \<union> started (hs_commands h) = insert ?s (sy_issued y)" using started(1) D(3) by auto
      have si: "start_identity ?s = lease_identity lease" by (simp add: start_of_def start_identity_def)
      have new: "pi_lease (start_identity s) \<noteq> pi_lease (lease_identity lease)" if "s \<in> sy_issued y" for s
      proof -
        have "u \<in> set (he_uuids env)" using started(7) by (rule in_set_takeD)
        then have "u AND 0x7FFFFFFFFFFFFFFF \<noteq> pi_lease (start_identity s)"
          using fresh that by (simp add: fresh_uuids_def start_identity_def)
        then show ?thesis using started(8) by (simp add: lease_identity_def)
      qed
      have st: "stopped (hs_commands h) \<subseteq> start_identity ` sy_issued y"
        using started(1) D(4) subset_trans [OF cancels_facts(2) ids] by auto
      have "lease_identity lease \<notin> stopped (hs_commands h)" using st new by fastforce
      moreover have "host_inv x h" using started by (simp add: host_inv_def entry_ok_def entry_of_def)
      moreover have "inj_on (\<lambda>s. pi_lease (start_identity s)) (insert ?s (sy_issued y))" using D(6) new si by force
      moreover have "playback_reach (insert ?s (sy_issued y)) hmac seal orc k (sy_transfer y) (sy_io y)"
        using D(2) by (rule reach_mono) blast
      moreover have "entry_inv x content (y\<lparr>sy_host := h, sy_seen := Suc (sy_seen y), sy_issued := insert ?s (sy_issued y)\<rparr>)
          (entry_of lease samples)"
        using calculation(1) started(1) started_recording [OF started(6) honest started(5), of lan] si
        by (auto simp: entry_inv_def in_flight_def entry_of_def)
      ultimately show ?thesis
        unfolding system_inv_def iss using started(1) D(3,5) st ev by auto
    qed
  next
    case (Finished f)
    have e: "playback_finished_event x env f (sy_host y) = h" using h Finished by (simp add: handle_lan_playback_event_def)
    from D(1) e show ?thesis
    proof (cases rule: finished_cases)
      case ignored
      then show ?thesis using D(1) Finished by (intro system_quiet [OF inv _ _ _ _ ev, where cs = "[]"]) auto
    next
      case (committed p d)
      have "host_inv x h" using committed D(1) by (simp add: host_inv_def entry_ok_def)
      then show ?thesis using committed Finished by (intro system_quiet [OF inv _ _ _ _ ev, where cs = "[]"]) auto
    next
      case (retired p d)
      have "host_inv x h" using retired by (simp add: host_inv_def)
      moreover have "pf_identity f \<in> start_identity ` sy_issued y" using retired(1,2) ids by auto
      ultimately show ?thesis
        using retired by (intro system_quiet [OF inv _ _ _ _ ev, where cs = "[FinishAck (pf_identity f)]"]) auto
    qed
  next
    case (Cancelled i)
    have e: "playback_cancelled_event x i (sy_host y) = h" using h Cancelled by (simp add: handle_lan_playback_event_def)
    have i: "i \<in> start_identity ` sy_issued y" using D(5) mem Cancelled by (auto simp: cancelled_def)
    have fits: "\<And>p. map_of (hs_active (sy_host y)) (pi_lease i) = Some p \<Longrightarrow> hp_identity p = i"
      by (rule issued_fits [OF inv i])
    show ?thesis
    proof (rule cancelled_cases [OF D(1) e fits])
      assume ignored: "h = sy_host y" "\<And>e. e \<in> set (hs_active (sy_host y)) \<Longrightarrow> hp_identity (snd e) \<noteq> i"
      from ignored(2) show ?thesis unfolding ignored(1) using D(1) Cancelled by (intro system_quiet [OF inv _ _ _ _ ev, where cs = "[]"]) auto
    next
      fix d assume "h = (sy_host y)\<lparr>hs_db := d, hs_active := []\<rparr>" "ledger_inv x d" "db_leases d = []"
      then show ?thesis by (intro system_quiet [OF inv _ _ _ _ ev, where cs = "[]"]) (auto simp: host_inv_def)
    qed
  qed
qed

lemma system_reach_inv:
  assumes "system_reach x content hmac seal orc k y" "json_ids_roundtrip x"
  shows "system_inv x content hmac seal orc k y"
  using assms(1)
proof (induction rule: system_reach.induct)
  case (sys_start d)
  then show ?case
    using ledger.reachable_holds assms(2) reach_init
    by (auto simp: system_inv_def host_inv_def empty_io_def)
next
  case (sys_store y d)
  then show ?case using system_store_step assms(2) by blast
next
  case (sys_event y env h)
  then show ?case using system_event_step by blast
next
  case (sys_command y c cs key now p io)
  then show ?case using system_command_step by blast
next
  case (sys_input y inp key now p io)
  from sys_input.IH sys_input.hyps(2-4) show ?case by (rule system_input_step)
qed

section \<open>A keyboard that answers gets the whole recording\<close>

lemma playback_run_append:
  "playback_run hmac seal orc k (a @ b) s = playback_run hmac seal orc k b (playback_run hmac seal orc k a s)"
  by (induction hmac seal orc k a s rule: playback_run.induct) auto

text \<open>What the keyboard sends while it receives the recording \<open>i\<close>: acknowledgements with status 0.\<close>

definition acks :: "hmac_sha256 \<Rightarrow> bytes32 \<Rightarrow> playback_identity \<Rightarrow> socket_addr \<Rightarrow> (instant \<times> playback_input) list \<Rightarrow> bool" where
  "acks hmac k i source ins \<longleftrightarrow>
     (\<forall>(now, inp) \<in> set ins. \<exists>off. inp = Packet (encode_ack hmac k \<lparr> pa_identity = i, pa_status = 0, pa_next_offset = off \<rparr>) source)"

text \<open>The transfer before a window is sent and after.\<close>

definition sendable :: "active_playback_transfer \<Rightarrow> bool" where
  "sendable t \<longleftrightarrow> valid_identity (pb_identity (pt_begin t)) \<and> pb_request_nonce (pt_begin t) \<noteq> 0 \<and> length (pt_eiad t) < 2 ^ 32"

abbreviation window_end :: "active_playback_transfer \<Rightarrow> nat" where
  "window_end t \<equiv> min (pt_acknowledged_offset t + PLAYBACK_CHUNK_BYTES * PLAYBACK_SEND_WINDOW_CHUNKS) (length (pt_eiad t))"

lemma send_next_data_succeeds:
  assumes "link_up orc seal" "sendable t"
  obtains io' where "send_next_data hmac seal orc k now t io =
      (True, t\<lparr>pt_sent_end_offset := window_end t, pt_phase := DataAck, pt_last_send := now\<rparr>, io')"
    "io_events io' = io_events io"
proof -
  obtain r io1 where s: "send_chunks hmac seal orc k t (pt_acknowledged_offset t) (window_end t) io = (r, io1)" by fastforce
  have "fst (send_chunks hmac seal orc k t (pt_acknowledged_offset t) (window_end t) io) = AllSent"
    using assms by (intro send_chunks_succeeds) (simp_all add: sendable_def)
  then show ?thesis using that [of io1] s send_chunks_events [OF s] by (simp add: send_next_data_def Let_def)
qed

lemma ack_step:
  assumes t: "lp_transfer p = Some t" "sendable t"
  shows "playback_step hmac seal orc (Some k) now
      (Packet (encode_ack hmac k \<lparr> pa_identity = pb_identity (pt_begin t), pa_status = 0, pa_next_offset = off \<rparr>) source) p io =
    accept_ack hmac seal orc \<lparr> pa_identity = pb_identity (pt_begin t), pa_status = 0, pa_next_offset = off \<rparr> source k now p io"
  using t by (simp add: playback_step_def ingest_ack valid_ack_def sendable_def)

lemma unat_offset: "n \<le> m \<Longrightarrow> m < 2 ^ 32 \<Longrightarrow> unat (of_nat n :: u32) = n"
  by (simp add: unat_of_nat)

lemma windows_acknowledged:
  assumes "link_up orc seal" "lp_transfer p = Some t" "sendable t" "pt_phase t = DataAck"
    "pt_acknowledged_offset t < length (pt_eiad t)" "pt_sent_end_offset t = window_end t"
  shows "\<exists>ins p' io' t'. acks hmac k (pb_identity (pt_begin t)) (pt_source t) ins \<and>
    playback_run hmac seal orc k ins (p, io) = (p', io') \<and> io_events io' = io_events io \<and> lp_transfer p' = Some t' \<and>
    pt_begin t' = pt_begin t \<and> pt_source t' = pt_source t \<and> pt_phase t' = DeviceFinished"
  using assms(2-)
proof (induction "length (pt_eiad t) - pt_acknowledged_offset t" arbitrary: p t io rule: less_induct)
  case less
  let ?off = "pt_sent_end_offset t"
  let ?ack = "Packet (encode_ack hmac k \<lparr> pa_identity = pb_identity (pt_begin t), pa_status = 0, pa_next_offset = of_nat ?off \<rparr>) (pt_source t)"
  let ?t = "t\<lparr>pt_acknowledged_offset := ?off, pt_retry_count := 0\<rparr>"
  have len: "length (pt_eiad t) < 2 ^ 32" using less(3) by (simp add: sendable_def)
  have o: "pt_acknowledged_offset t < ?off" "?off \<le> length (pt_eiad t)"
    using less(5,6) by (auto simp: PLAYBACK_CHUNK_BYTES_def PLAYBACK_SEND_WINDOW_CHUNKS_def)
  have u: "unat (of_nat ?off :: u32) = ?off" using unat_offset [OF o(2) len] .
  note st = ack_step [OF less(2,3), of hmac seal orc k 0 "of_nat ?off" "pt_source t" io]
  have one: "acks hmac k (pb_identity (pt_begin t)) (pt_source t) ((0, ?ack) # ins) \<longleftrightarrow>
      acks hmac k (pb_identity (pt_begin t)) (pt_source t) ins" for ins by (auto simp: acks_def)
  show ?case
  proof (cases "?off = length (pt_eiad t)")
    case True
    let ?t' = "?t\<lparr>pt_phase := DeviceFinished, pt_finish_deadline := 0 + PLAYBACK_FINISH_TIMEOUT\<rparr>"
    have "playback_run hmac seal orc k [(0, ?ack)] (p, io) = (p\<lparr>lp_transfer := Some ?t'\<rparr>, io)"
      using st less(2,4) o u True by (simp add: accept_ack_def Let_def)
    then show ?thesis
      using one [of "[]"] by (intro exI [of _ "[(0, ?ack)]"] exI [of _ "p\<lparr>lp_transfer := Some ?t'\<rparr>"] exI [of _ io] exI [of _ ?t'])
        (simp add: acks_def)
  next
    case False
    have sd: "sendable ?t" using less(3) by (simp add: sendable_def)
    obtain io1 where n: "send_next_data hmac seal orc k 0 ?t io =
        (True, ?t\<lparr>pt_sent_end_offset := window_end ?t, pt_phase := DataAck, pt_last_send := 0\<rparr>, io1)" "io_events io1 = io_events io"
      by (rule send_next_data_succeeds [OF assms(1) sd])
    let ?t2 = "?t\<lparr>pt_sent_end_offset := window_end ?t, pt_phase := DataAck, pt_last_send := 0\<rparr>"
    let ?p2 = "p\<lparr>lp_transfer := Some ?t2\<rparr>"
    have step: "playback_step hmac seal orc (Some k) 0 ?ack p io = (?p2, io1)"
      using st less(2,4) o u False n by (simp add: accept_ack_def Let_def send_or_drop_def)
    have "\<exists>ins p' io' t'. acks hmac k (pb_identity (pt_begin ?t2)) (pt_source ?t2) ins \<and>
      playback_run hmac seal orc k ins (?p2, io1) = (p', io') \<and> io_events io' = io_events io1 \<and> lp_transfer p' = Some t' \<and>
      pt_begin t' = pt_begin ?t2 \<and> pt_source t' = pt_source ?t2 \<and> pt_phase t' = DeviceFinished"
      by (rule less(1)) (use o False less(3) in \<open>auto simp: sendable_def\<close>)
    then obtain ins p' io' t' where r: "acks hmac k (pb_identity (pt_begin t)) (pt_source t) ins"
      "playback_run hmac seal orc k ins (?p2, io1) = (p', io')" "io_events io' = io_events io1" "lp_transfer p' = Some t'"
      "pt_begin t' = pt_begin t" "pt_source t' = pt_source t" "pt_phase t' = DeviceFinished" by auto
    show ?thesis
      using one [of ins] r step n(2)
      by (intro exI [of _ "(0, ?ack) # ins"] exI [of _ p'] exI [of _ io'] exI [of _ t']) simp
  qed
qed

lemma recording_plays_through:
  assumes up: "link_up orc seal" and idle: "lp_transfer p = None"
    and s: "ls_eiad s \<noteq> []" "length (ls_eiad s) = unat (pb_total_bytes (ls_begin s))"
      "valid_identity (pb_identity (ls_begin s))" "pb_request_nonce (ls_begin s) \<noteq> 0" "pb_total_samples (ls_begin s) \<noteq> 0"
  obtains p1 io1 ins p' io' where
    "playback_step hmac seal orc (Some k) 0 (Command (Start s)) p io = (p1, io1)"
    "playback_run hmac seal orc k ins (p1, io1) = (p', io')" "\<And>now c. (now, Command c) \<notin> set ins"
    "io_events io1 = io_events io"
    "io_events io' = io_events io @ [Finished \<lparr> pf_identity = pb_identity (ls_begin s), pf_played_samples = pb_total_samples (ls_begin s) \<rparr>]"
proof -
  let ?i = "pb_identity (ls_begin s)"
  let ?t0 = "\<lparr> pt_begin = ls_begin s, pt_source = ls_source s, pt_eiad = ls_eiad s, pt_phase = BeginAck, pt_acknowledged_offset = 0,
     pt_sent_end_offset = 0, pt_last_send = 0, pt_retry_count = 0, pt_finish_deadline = 0 + PLAYBACK_FINISH_TIMEOUT, pt_started_at = 0 \<rparr>"
  let ?p1 = "p\<lparr>lp_transfer := Some ?t0\<rparr>"
  obtain n io1 where se: "send_to orc (encode_begin hmac k (ls_begin s)) (ls_source s) io = (Some n, io1)"
    using link_upD(1) [OF up, of "io_attempts io"] by (auto simp: send_to_def Let_def)
  have ev1: "io_events io1 = io_events io" using send_to_cases [OF se] by simp
  have cmd: "playback_step hmac seal orc (Some k) 0 (Command (Start s)) p io = (?p1, io1)"
    using idle s(1,2) se by (simp add: playback_step_def handle_command_def Let_def)
  have sd: "sendable ?t0"
    using s unsigned_less [of "pb_total_bytes (ls_begin s)", where ?'a = nat] by (simp add: sendable_def)
  let ?ack = "Packet (encode_ack hmac k \<lparr> pa_identity = ?i, pa_status = 0, pa_next_offset = 0 \<rparr>) (ls_source s)"
  let ?t = "?t0\<lparr>pt_acknowledged_offset := 0, pt_retry_count := 0\<rparr>"
  let ?t1 = "?t\<lparr>pt_sent_end_offset := window_end ?t, pt_phase := DataAck, pt_last_send := 0\<rparr>"
  obtain io2 where n: "send_next_data hmac seal orc k 0 ?t io1 = (True, ?t1, io2)" "io_events io2 = io_events io1"
    by (rule send_next_data_succeeds [OF up, where t = ?t and io = io1]) (use sd in \<open>simp_all add: sendable_def\<close>)
  have first: "playback_step hmac seal orc (Some k) 0 ?ack ?p1 io1 = (?p1\<lparr>lp_transfer := Some ?t1\<rparr>, io2)"
    using ack_step [OF _ sd, of ?p1 hmac seal orc k 0 0 "ls_source s" io1] n(1)
    by (simp add: accept_ack_def Let_def send_or_drop_def)
  have "\<exists>ins p' io' t'. acks hmac k (pb_identity (pt_begin ?t1)) (pt_source ?t1) ins \<and>
    playback_run hmac seal orc k ins (?p1\<lparr>lp_transfer := Some ?t1\<rparr>, io2) = (p', io') \<and> io_events io' = io_events io2 \<and> lp_transfer p' = Some t' \<and>
    pt_begin t' = pt_begin ?t1 \<and> pt_source t' = pt_source ?t1 \<and> pt_phase t' = DeviceFinished"
    by (rule windows_acknowledged [OF up]) (use sd s(1) in \<open>simp_all add: sendable_def\<close>)
  then obtain ins p3 io3 t3 where w: "acks hmac k ?i (ls_source s) ins"
    "playback_run hmac seal orc k ins (?p1\<lparr>lp_transfer := Some ?t1\<rparr>, io2) = (p3, io3)" "io_events io3 = io_events io2"
    "lp_transfer p3 = Some t3" "pt_begin t3 = ls_begin s" "pt_source t3 = ls_source s" "pt_phase t3 = DeviceFinished" by auto
  let ?f = "\<lparr> pf_identity = ?i, pf_played_samples = pb_total_samples (ls_begin s) \<rparr>"
  let ?fin = "Packet (encode_finished hmac k ?f) (ls_source s)"
  have last: "playback_step hmac seal orc (Some k) 0 ?fin p3 io3 =
      (p3\<lparr>lp_transfer := Some (t3\<lparr>pt_phase := HostCommit, pt_finish_deadline := 0 + PLAYBACK_FINISH_TIMEOUT\<rparr>)\<rparr>, emit (Finished ?f) io3)"
    using w(4-7) s(3,5) by (simp add: playback_step_def ingest_finished valid_finished_def accept_finished_def)
  have run: "playback_run hmac seal orc k ((0, ?ack) # ins @ [(0, ?fin)]) (?p1, io1) =
      (p3\<lparr>lp_transfer := Some (t3\<lparr>pt_phase := HostCommit, pt_finish_deadline := 0 + PLAYBACK_FINISH_TIMEOUT\<rparr>)\<rparr>, emit (Finished ?f) io3)"
    using first w(2) last by (simp add: playback_run_append)
  show ?thesis
  proof (rule that [OF cmd run _ ev1])
    show "\<And>now c. (now, Command c) \<notin> set ((0, ?ack) # ins @ [(0, ?fin)])" using w(1) by (auto simp: acks_def)
  qed (use w(3) n(2) ev1 in \<open>simp add: emit_def\<close>)
qed

section \<open>Properties\<close>

text \<open>C3: the leases in the database and the host's table of playbacks agree in every reachable state of
  the two threads: there is at most one lease, it is the one of the playback in the table that is not
  heard yet, and that playback is on its way - its start is queued, its recording is in transfer, or its
  cancellation waits for the host. No lease is left behind that would keep a summary from being played.\<close>

theorem no_orphaned_lease:
  assumes "system_reach x content hmac seal orc k y" "json_ids_roundtrip x"
  shows "length (db_leases (hs_db (sy_host y))) \<le> 1 \<and>
    db_leases (hs_db (sy_host y)) = map lease_row_of (unheard (hs_active (sy_host y))) \<and>
    (\<forall>l \<in> set (unheard (hs_active (sy_host y))). validate_playback_lease x l = Ok () \<and> in_flight y (lease_identity l))"
proof -
  note D = system_invD [OF system_reach_inv [OF assms]]
  from D(1) show ?thesis
  proof (cases rule: host_inv_cases)
    case idle
    then show ?thesis by simp
  next
    case (busy p)
    then show ?thesis using D(8) [of "(pl_lease (hp_lease p), p)"] by (simp add: entry_inv_def)
  qed
qed

lemma new_heard:
  assumes inv: "system_inv x content hmac seal orc k y"
    and new: "key \<in> heard (hs_db (handle_lan_playback_event x env event (sy_host y)))" "key \<notin> heard (hs_db (sy_host y))"
    and ev: "event \<in> set (io_events (sy_io y))"
  obtains f p where "event = Finished f"
    "hs_active (sy_host y) = [(pl_lease (hp_lease p), p)]" "hp_identity p = pf_identity f"
    "hp_total_samples p = pf_played_samples f" "key = lease_key (lease_row_of (hp_lease p))"
proof -
  note D = system_invD [OF inv]
  show ?thesis
  proof (cases event)
    case (Request lan)
    obtain r h where b: "begin_lan_playback x env lan (sy_host y) = (r, h)" by fastforce
    from D(1) b have "heard (hs_db h) = heard (hs_db (sy_host y))" by (cases rule: begin_cases) simp_all
    then show ?thesis using new Request b by (simp add: handle_lan_playback_event_def)
  next
    case (Finished f)
    from D(1) refl show ?thesis
    proof (cases rule: finished_cases [of x "sy_host y" env f])
      case ignored
      then show ?thesis using new Finished by (simp add: handle_lan_playback_event_def)
    next
      case (committed p d)
      then show ?thesis using new Finished that [of f p] by (simp add: handle_lan_playback_event_def)
    next
      case (retired p d)
      then show ?thesis using new Finished that [of f p] by (simp add: handle_lan_playback_event_def split: if_splits)
    qed
  next
    case (Cancelled i)
    have "i \<in> start_identity ` sy_issued y" using D(5) ev Cancelled by (auto simp: cancelled_def)
    note fits = issued_fits [OF inv this]
    have "heard (hs_db (playback_cancelled_event x i (sy_host y))) = heard (hs_db (sy_host y))"
      by (rule cancelled_cases [OF D(1) refl fits]) simp_all
    then show ?thesis using new Cancelled by (simp add: handle_lan_playback_event_def)
  qed
qed

text \<open>C1: a summary turns heard only after its recording was played. When the host thread, in any
  reachable state of the system, takes the next event and a summary of the task \<open>fst key\<close> and generation
  \<open>snd key\<close> is heard afterwards and was not before, then the event is the keyboard's report that it
  finished; it names a playback that the host issued, whose recording is the transcoding of what the cache
  holds for exactly this task and generation; the number of samples the keyboard played is the number the
  host announced for this playback; and every byte of the recording went out in an authenticated packet
  that decodes to this byte.\<close>

theorem heard_only_when_delivered:
  assumes "system_reach x content hmac seal orc k y" "json_ids_roundtrip x" "aead_correct seal opn"
    and "sy_seen y < length (io_events (sy_io y))"
    and "key \<in> heard (hs_db (handle_lan_playback_event x env (io_events (sy_io y) ! sy_seen y) (sy_host y)))"
    and "key \<notin> heard (hs_db (sy_host y))"
  shows "\<exists>f. \<exists>s \<in> sy_issued y. io_events (sy_io y) ! sy_seen y = Finished f \<and>
    transcode_eiad_for_device (content \<lparr> ci_task_hash = sha256 x (fst key), ci_generation = word_of_int (snd key) \<rparr>) = Ok (ls_eiad s) \<and>
    pb_identity (ls_begin s) = pf_identity f \<and> pb_total_samples (ls_begin s) = pf_played_samples f \<and>
    (\<forall>pos < length (ls_eiad s). \<exists>packet off chunk. (packet, ls_source s) \<in> set (io_sent (sy_io y)) \<and>
       decode_data hmac opn k packet (pb_request_nonce (ls_begin s)) = Ok (pb_identity (ls_begin s), off, chunk) \<and>
       unat off \<le> pos \<and> pos < unat off + length chunk \<and> chunk ! (pos - unat off) = ls_eiad s ! pos)"
proof -
  note inv = system_reach_inv [OF assms(1,2)]
  note D = system_invD [OF inv]
  have mem: "io_events (sy_io y) ! sy_seen y \<in> set (io_events (sy_io y))" using assms(4) by simp
  obtain f p where f: "io_events (sy_io y) ! sy_seen y = Finished f" "hs_active (sy_host y) = [(pl_lease (hp_lease p), p)]"
      "hp_identity p = pf_identity f" "key = lease_key (lease_row_of (hp_lease p))"
    using new_heard [OF inv assms(5,6) mem] by blast
  obtain s where s: "s \<in> sy_issued y" "recording_of x content p s"
    using D(8) [of "(pl_lease (hp_lease p), p)"] f(2) by (auto simp: entry_inv_def)
  have "delivered (sy_issued y) hmac seal k (io_sent (sy_io y)) f"
    using playback_reach_inv [OF D(2)] mem f(1) by (simp add: playback_inv_def)
  then obtain s' where s': "s' \<in> sy_issued y" "pb_identity (ls_begin s') = pf_identity f"
      "pb_total_samples (ls_begin s') = pf_played_samples f" "length (ls_eiad s') = unat (pb_total_bytes (ls_begin s'))"
      "\<forall>pos < length (ls_eiad s'). byte_sent hmac seal k (ls_begin s') (ls_source s') (ls_eiad s') (io_sent (sy_io y)) pos"
    unfolding delivered_def by blast
  have "s' = s" using inj_onD [OF D(6) _ s'(1) s(1)] s(2) s'(2) f(3) by (simp add: recording_of_def start_identity_def)
  with s'(5) byte_sent_decodes [OF _ assms(3) s'(4)] have
    "\<forall>pos < length (ls_eiad s). \<exists>packet off chunk. (packet, ls_source s) \<in> set (io_sent (sy_io y)) \<and>
       decode_data hmac opn k packet (pb_request_nonce (ls_begin s)) = Ok (pb_identity (ls_begin s), off, chunk) \<and>
       unat off \<le> pos \<and> pos < unat off + length chunk \<and> chunk ! (pos - unat off) = ls_eiad s ! pos" by simp
  moreover have "fst key = pl_task_id (hp_lease p)" "word_of_int (snd key) = pl_summary_generation (hp_lease p)"
    using f(4) by (simp_all add: lease_key_def lease_row_of_def)
  ultimately show ?thesis
    using f(1,3) s s'(3) \<open>s' = s\<close> by (intro exI [of _ f] bexI [of _ s] conjI) (simp_all add: recording_of_def start_identity_def)
qed

section \<open>An unread summary can be heard\<close>

lemma system_run:
  assumes "system_reach x content hmac seal orc k y" "\<And>now c. (now, Command c) \<notin> set ins"
    "playback_run hmac seal orc k ins (sy_transfer y, sy_io y) = (p, io)"
  shows "system_reach x content hmac seal orc k (y\<lparr>sy_transfer := p, sy_io := io\<rparr>)"
  using assms
proof (induction ins arbitrary: y)
  case Nil
  then show ?case by (cases y) simp
next
  case (Cons i ins)
  obtain now inp where i: "i = (now, inp)" by fastforce
  obtain p1 io1 where s: "playback_step hmac seal orc (Some k) now inp (sy_transfer y) (sy_io y) = (p1, io1)" by fastforce
  have "system_reach x content hmac seal orc k (y\<lparr>sy_transfer := p1, sy_io := io1\<rparr>)"
    using Cons.prems(1) _ _ s by (rule sys_input) (use Cons.prems(2) i in auto)
  from Cons.IH [OF this] Cons.prems(2,3) i s show ?case by auto
qed

lemma recording_loads:
  assumes v: "validate_playback_lease x l = Ok ()"
    and m: "inspect_eiad (content \<lparr> ci_task_hash = sha256 x (pl_task_id l), ci_generation = pl_summary_generation l \<rparr>) = Ok m"
    and env: "he_cache env = Some \<circ> content"
  obtains eiad where "load_recording env l = Ok (eiad, em_samples m)" "eiad \<noteq> []" "length eiad < 2 ^ 32"
proof -
  let ?b = "content \<lparr> ci_task_hash = sha256 x (pl_task_id l), ci_generation = pl_summary_generation l \<rparr>"
  obtain pcm where pcm: "decode_eiad ?b = Ok pcm" "length pcm = 2 * em_samples m" by (rule inspected_decodes [OF m])
  note n = inspect_eiad_Ok(2,3) [OF m]
  note t = transcode_decoded [OF pcm n]
  have len: "length (device_of (pcm_samples pcm)) \<le> 3690020" using length_device_of t(2) n(2) by simp
  have ne: "pcm_samples pcm \<noteq> []" using t(2) n(1) by auto
  have "device_of (pcm_samples pcm) \<noteq> []" by (auto simp: device_of_def device_header_def EIAD_def)
  then show ?thesis
    using that [of "device_of (pcm_samples pcm)"] len ne env lease_cache [OF v] m t(1) pcm(1)
    by (simp add: load_recording_def eiad_signal_def map_err_def u32_max_def)
qed

lemma mask_id:
  assumes "uint (w :: u64) \<le> i64_max" shows "w AND 0x7FFFFFFFFFFFFFFF = w"
proof -
  have "(0x7FFFFFFFFFFFFFFF :: u64) = mask 63" by (simp add: mask_eq_exp_minus_1)
  moreover have "take_bit 63 w = w"
    using assms unsigned_greater_eq [of w, where ?'a = int]
    by (simp add: word_uint_eq_iff unsigned_take_bit_eq take_bit_int_eq_self_iff i64_max_def)
  ultimately show ?thesis by (metis take_bit_eq_mask)
qed

text \<open>Both threads at rest.\<close>

definition at_rest :: "playback_system \<Rightarrow> bool" where
  "at_rest y \<longleftrightarrow> hs_active (sy_host y) = [] \<and> hs_commands (sy_host y) = [] \<and> sy_seen y = length (io_events (sy_io y)) \<and>
     lp_transfer (sy_transfer y) = None"

lemma system_full: "y\<lparr>sy_transfer := p, sy_io := io, sy_host := h, sy_seen := n, sy_issued := I\<rparr> =
      \<lparr> sy_host = h, sy_transfer = p, sy_io = io, sy_seen = n, sy_issued = I \<rparr>"
  by (cases y) simp

lemma request_arrives:
  assumes reach: "system_reach x content hmac seal orc k y" and rest: "at_rest y"
    and q: "valid_request q" "fst (accept_request_generation q (sy_transfer y))"
  obtains p where "system_reach x content hmac seal orc k
      (y\<lparr>sy_transfer := p, sy_io := emit (Request \<lparr> lr_request = q, lr_source = source \<rparr>) (sy_io y)\<rparr>)" "lp_transfer p = None"
proof -
  obtain p where a: "accept_request_generation q (sy_transfer y) = (True, p)"
    using q(2) by (cases "accept_request_generation q (sy_transfer y)") simp
  then have t: "lp_transfer p = None" using accept_request_transfer [of q "sy_transfer y"] rest by (simp add: at_rest_def)
  have "playback_step hmac seal orc (Some k) 0 (Packet (encode_request hmac k q) source) (sy_transfer y) (sy_io y) =
      (p, emit (Request \<lparr> lr_request = q, lr_source = source \<rparr>) (sy_io y))"
    using a t q(1) by (simp add: playback_step_def ingest_request)
  then have "system_reach x content hmac seal orc k
      (y\<lparr>sy_transfer := p, sy_io := emit (Request \<lparr> lr_request = q, lr_source = source \<rparr>) (sy_io y)\<rparr>)"
    by (intro sys_input [OF reach, where inp = "Packet (encode_request hmac k q) source" and key = "Some k" and now = 0]) simp_all
  then show ?thesis using t that by blast
qed

text \<open>An environment in which the cache has every recording and the channel is open.\<close>

definition good_env :: "(cache_id \<Rightarrow> u8 list) \<Rightarrow> u64 list \<Rightarrow> host_env" where
  "good_env content uuids = \<lparr> he_cache = Some \<circ> content, he_reconcile = (\<lambda>_. True), he_connected = True, he_uuids = uuids \<rparr>"

lemma begin_granted:
  assumes "hs_active h = []" "hs_commands h = []" "lease \<noteq> 0" "uint lease \<le> i64_max"
    "acquire_summary_playback (pr_slot (lr_request lan)) (pr_request_generation (lr_request lan))
       (pr_connection_generation (lr_request lan)) lease (hs_db h) = (Ok (Some l), d)"
    "load_recording (good_env content [lease]) l = Ok (eiad, samples)"
  shows "snd (begin_lan_playback x (good_env content [lease]) lan h) =
    \<lparr> hs_db = d, hs_active = [(pl_lease l, entry_of l samples)], hs_commands = [Start (start_of lan l eiad samples)] \<rparr>"
  using assms mask_id [OF assms(4)]
  by (simp add: begin_lan_playback_def send_command_def start_of_def entry_of_def Let_def good_env_def)

lemma finish_committed:
  assumes "hs_active h = [(pl_lease l, entry_of l samples)]" "finish_summary_playback x l (hs_db h) = (Ok True, d)"
  shows "hs_db (playback_finished_event x (good_env content [])
      \<lparr> pf_identity = lease_identity l, pf_played_samples = of_nat samples \<rparr> h) = d"
  using assms by (simp add: playback_finished_event_def entry_of_def lease_identity_def Let_def send_command_def good_env_def)

lemma granted_turns_heard:
  assumes inv: "ledger_inv x d" and a: "acquire_summary_playback slot rg cg lease d = (Ok (Some l), d')" and none: "db_leases d = []"
  shows "\<exists>d5. finish_summary_playback x l d' = (Ok True, d5) \<and>
    (pl_task_id l, uint (pl_summary_generation l)) \<in> heard d5 - heard d'"
proof -
  have "d' \<noteq> d" using acquire_effect [OF inv a none] none by auto
  from granted_finishes [OF inv a this] obtain s where s: "s \<in> set (db_summaries d)" "s_task_id s = pl_task_id l"
      "s_generation s = uint (pl_summary_generation l)" "s_state s = Unheard"
      "finish_summary_playback x l d' = (Ok True, d\<lparr>db_summaries := map (\<lambda>r. if r = s then r\<lparr>s_state := Heard\<rparr> else r) (db_summaries d)\<rparr>)"
    by blast
  let ?d5 = "d\<lparr>db_summaries := map (\<lambda>r. if r = s then r\<lparr>s_state := Heard\<rparr> else r) (db_summaries d)\<rparr>"
  have "(pl_task_id l, uint (pl_summary_generation l)) = summary_key (s\<lparr>s_state := Heard\<rparr>)" "s\<lparr>s_state := Heard\<rparr> \<in> set (db_summaries ?d5)"
    using s(1-3) by (auto simp: summary_key_def)
  moreover have "s_state r \<noteq> Heard" if "r \<in> set (db_summaries d)" "summary_key r = summary_key s" for r
    using distinct_key_eq [OF summaries_okD(1) [OF ledger_invD(2) [OF inv]] that(1) s(1)] that(2) s(4) by auto
  ultimately have "(pl_task_id l, uint (pl_summary_generation l)) \<in> heard ?d5 - heard d"
    by (auto simp: heard_def summary_key_def image_iff)
  then show ?thesis using s(5) acquire_heard [OF inv a] by simp
qed

text \<open>The host takes the request and queues the start of the recording.\<close>

lemma playback_begins:
  assumes reach: "system_reach x content hmac seal orc k y" and ext: "json_ids_roundtrip x" and up: "link_up orc seal"
    and rest: "at_rest y"
    and q: "valid_request q" "fst (accept_request_generation q (sy_transfer y))"
    and unread: "acquire_summary_playback (pr_slot q) (pr_request_generation q) (pr_connection_generation q) lease (hs_db (sy_host y)) =
        (Ok (Some l), d)" "lease \<notin> (\<lambda>s. pi_lease (pb_identity (ls_begin s))) ` sy_issued y"
    and rec: "inspect_eiad (content \<lparr> ci_task_hash = sha256 x (pl_task_id l), ci_generation = pl_summary_generation l \<rparr>) = Ok m"
  obtains p io h s where "system_reach x content hmac seal orc k
      \<lparr> sy_host = h\<lparr>hs_commands := [Start s]\<rparr>, sy_transfer = p, sy_io = io, sy_seen = length (io_events io), sy_issued = sy_issued y \<union> {s} \<rparr>"
    "lp_transfer p = None" "hs_db h = d" "hs_active h = [(pl_lease l, entry_of l (em_samples m))]"
    "pb_identity (ls_begin s) = lease_identity l" "pb_total_samples (ls_begin s) = of_nat (em_samples m)" "ls_eiad s \<noteq> []"
    "length (ls_eiad s) = unat (pb_total_bytes (ls_begin s))" "pb_request_nonce (ls_begin s) \<noteq> 0"
    "valid_identity (lease_identity l)" "(of_nat (em_samples m) :: u64) \<noteq> 0"
proof -
  note D = system_invD [OF system_reach_inv [OF reach ext]]
  have inv: "ledger_inv x (hs_db (sy_host y))" and none: "db_leases (hs_db (sy_host y)) = []"
    using D(1) rest by (simp_all add: host_inv_def at_rest_def)
  let ?d = "hs_db (sy_host y)"
  have l: "pl_lease l = lease" "pl_slot l = pr_slot q" "pl_request_generation l = pr_request_generation q"
      "pl_connection_generation l = pr_connection_generation q" "validate_playback_lease x l = Ok ()" "db_leases d = [lease_row_of l]"
    using acquire_effect [OF inv unread(1) none] by auto
  have v: "lease \<noteq> 0" "uint lease \<le> i64_max" "pl_summary_generation l \<noteq> 0" "valid_identity (lease_identity l)"
    using l q(1) by (auto simp: validate_playback_lease_def and_then_Ok_iff Let_def valid_identity_def valid_request_def
        lease_identity_def split: if_splits)
  obtain eiad where eiad: "load_recording (good_env content [lease]) l = Ok (eiad, em_samples m)" "eiad \<noteq> []" "length eiad < 2 ^ 32"
    by (rule recording_loads [of x l content m "good_env content [lease]", OF l(5) rec]) (simp add: good_env_def)
  let ?lan = "\<lparr> lr_request = q, lr_source = source \<rparr>" and ?e = "good_env content [lease]"
  let ?io = "emit (Request ?lan) (sy_io y)"
  obtain p where p: "system_reach x content hmac seal orc k (y\<lparr>sy_transfer := p, sy_io := ?io\<rparr>)" "lp_transfer p = None"
    by (rule request_arrives [OF reach rest q])
  let ?s = "start_of ?lan l eiad (em_samples m)"
  let ?h = "\<lparr> hs_db = d, hs_active = [(pl_lease l, entry_of l (em_samples m))], hs_commands = [Start ?s] \<rparr>"
  have "handle_lan_playback_event x ?e (io_events ?io ! sy_seen y) (sy_host y) = ?h"
    using rest begin_granted [OF _ _ v(1,2), of "sy_host y" ?lan l d content eiad "em_samples m" x] unread(1) eiad(1)
    by (simp add: at_rest_def emit_def handle_lan_playback_event_def)
  then have two: "system_reach x content hmac seal orc k
      \<lparr> sy_host = ?h, sy_transfer = p, sy_io = ?io, sy_seen = Suc (sy_seen y), sy_issued = sy_issued y \<union> {?s} \<rparr>"
    using sys_event [OF p(1), where env = ?e and h = ?h] rest unread(2) mask_id [OF v(2)]
    by (auto simp: system_full at_rest_def emit_def fresh_uuids_def honest_cache_def good_env_def)
  have sam: "0 < em_samples m" "em_samples m \<le> 7200000" using inspect_eiad_Ok(2,3) [OF rec] .
  have sf: "pb_identity (ls_begin ?s) = lease_identity l" "pb_total_samples (ls_begin ?s) = of_nat (em_samples m)" "ls_eiad ?s = eiad"
      "unat (pb_total_bytes (ls_begin ?s)) = length eiad" "pb_request_nonce (ls_begin ?s) = pr_nonce q"
    using eiad(3) by (simp_all add: start_of_def unat_of_nat)
  have "unat (of_nat (em_samples m) :: u64) = em_samples m" using sam(2) by (simp add: unat_of_nat)
  then have nz: "(of_nat (em_samples m) :: u64) \<noteq> 0" using sam(1) by force
  show ?thesis
    by (rule that [where h = ?h and s = ?s and p = p and io = ?io]) (use two p(2) rest eiad v(4) q(1) sf nz in \<open>simp_all add: at_rest_def emit_def valid_request_def\<close>)
qed

text \<open>The keyboard receives it and says that it finished; the host takes the report next.\<close>

lemma playback_reported:
  assumes reach: "system_reach x content hmac seal orc k y" and ext: "json_ids_roundtrip x" and up: "link_up orc seal"
    and rest: "at_rest y"
    and q: "valid_request q" "fst (accept_request_generation q (sy_transfer y))"
    and unread: "acquire_summary_playback (pr_slot q) (pr_request_generation q) (pr_connection_generation q) lease (hs_db (sy_host y)) =
        (Ok (Some l), d)" "lease \<notin> (\<lambda>s. pi_lease (pb_identity (ls_begin s))) ` sy_issued y"
    and rec: "inspect_eiad (content \<lparr> ci_task_hash = sha256 x (pl_task_id l), ci_generation = pl_summary_generation l \<rparr>) = Ok m"
  obtains z f where "system_reach x content hmac seal orc k z" "sy_seen z < length (io_events (sy_io z))"
    "io_events (sy_io z) ! sy_seen z = Finished f" "hs_db (sy_host z) = d"
    "(pl_task_id l, uint (pl_summary_generation l)) \<in>
       heard (hs_db (handle_lan_playback_event x (good_env content []) (Finished f) (sy_host z))) - heard d"
proof -
  note D = system_invD [OF system_reach_inv [OF reach ext]]
  have inv: "ledger_inv x (hs_db (sy_host y))" and none: "db_leases (hs_db (sy_host y)) = []"
    using D(1) rest by (simp_all add: host_inv_def at_rest_def)
  let ?d = "hs_db (sy_host y)"
  obtain p io h s where b: "system_reach x content hmac seal orc k
      \<lparr> sy_host = h\<lparr>hs_commands := [Start s]\<rparr>, sy_transfer = p, sy_io = io, sy_seen = length (io_events io), sy_issued = sy_issued y \<union> {s} \<rparr>"
    "lp_transfer p = None" "hs_db h = d" "hs_active h = [(pl_lease l, entry_of l (em_samples m))]"
    "pb_identity (ls_begin s) = lease_identity l" "pb_total_samples (ls_begin s) = of_nat (em_samples m)" "ls_eiad s \<noteq> []"
    "length (ls_eiad s) = unat (pb_total_bytes (ls_begin s))" "pb_request_nonce (ls_begin s) \<noteq> 0"
    "valid_identity (lease_identity l)" "(of_nat (em_samples m) :: u64) \<noteq> 0"
    by (rule playback_begins [OF assms])
  let ?f = "\<lparr> pf_identity = lease_identity l, pf_played_samples = of_nat (em_samples m) \<rparr>"
  obtain p1 io1 ins p' io' where run: "playback_step hmac seal orc (Some k) 0 (Command (Start s)) p io = (p1, io1)"
    "playback_run hmac seal orc k ins (p1, io1) = (p', io')" "\<And>now c. (now, Command c) \<notin> set ins"
    "io_events io1 = io_events io" "io_events io' = io_events io @ [Finished ?f]"
    by (rule recording_plays_through [OF up b(2,7,8), where hmac = hmac and k = k and io = io, unfolded b(5,6)])
      (use b(9-11) in auto)
  have "system_reach x content hmac seal orc k
      \<lparr> sy_host = h\<lparr>hs_commands := []\<rparr>, sy_transfer = p1, sy_io = io1, sy_seen = length (io_events io), sy_issued = sy_issued y \<union> {s} \<rparr>"
    using sys_command [OF b(1) _ _, of "Start s" "[]" "Some k" 0 p1 io1] run(1) by simp
  from system_run [OF this run(3)] run(2) have four: "system_reach x content hmac seal orc k
      \<lparr> sy_host = h\<lparr>hs_commands := []\<rparr>, sy_transfer = p', sy_io = io', sy_seen = length (io_events io), sy_issued = sy_issued y \<union> {s} \<rparr>"
    by simp
  obtain d5 where d5: "finish_summary_playback x l d = (Ok True, d5)"
      "(pl_task_id l, uint (pl_summary_generation l)) \<in> heard d5 - heard d"
    using granted_turns_heard [OF inv unread(1) none] by blast
  have "hs_db (handle_lan_playback_event x (good_env content []) (Finished ?f) (h\<lparr>hs_commands := []\<rparr>)) = d5"
    using finish_committed [of "h\<lparr>hs_commands := []\<rparr>" l "em_samples m" x d5 content] b(3,4) d5(1)
    by (simp add: handle_lan_playback_event_def)
  then show ?thesis using that [OF four, of ?f] run(5) b(3) d5(2) by (simp add: nth_append)
qed

text \<open>C4: an unread summary can be heard. In every reachable state in which both threads are idle, when the
  keyboard asks for its unread summary with a new request and the cached recording is well-formed, then -
  the link being up - there is a continuation in which the keyboard acknowledges what it receives, the
  whole recording goes out, and the summary is heard.\<close>

theorem unread_summary_plays:
  assumes reach: "system_reach x content hmac seal orc k y" and ext: "json_ids_roundtrip x" and up: "link_up orc seal"
    and rest: "at_rest y"
    and q: "valid_request q" "fst (accept_request_generation q (sy_transfer y))"
    and unread: "acquire_summary_playback (pr_slot q) (pr_request_generation q) (pr_connection_generation q) lease (hs_db (sy_host y)) =
        (Ok (Some l), d)" "lease \<notin> (\<lambda>s. pi_lease (pb_identity (ls_begin s))) ` sy_issued y"
    and rec: "inspect_eiad (content \<lparr> ci_task_hash = sha256 x (pl_task_id l), ci_generation = pl_summary_generation l \<rparr>) = Ok m"
  shows "\<exists>z. system_reach x content hmac seal orc k z \<and>
    (pl_task_id l, uint (pl_summary_generation l)) \<in> heard (hs_db (sy_host z)) - heard (hs_db (sy_host y))"
proof -
  have inv: "ledger_inv x (hs_db (sy_host y))"
    using system_invD(1) [OF system_reach_inv [OF reach ext]] by (simp add: host_inv_def)
  obtain z f where z: "system_reach x content hmac seal orc k z" "sy_seen z < length (io_events (sy_io z))"
    "io_events (sy_io z) ! sy_seen z = Finished f"
    "(pl_task_id l, uint (pl_summary_generation l)) \<in>
       heard (hs_db (handle_lan_playback_event x (good_env content []) (Finished f) (sy_host z))) - heard d"
    by (rule playback_reported [OF assms])
  moreover have "fresh_uuids (good_env content []) (sy_issued z)" "honest_cache content (good_env content [])"
    by (simp_all add: fresh_uuids_def honest_cache_def good_env_def)
  ultimately have "system_reach x content hmac seal orc k
      (z\<lparr>sy_host := handle_lan_playback_event x (good_env content []) (Finished f) (sy_host z), sy_seen := Suc (sy_seen z),
         sy_issued := sy_issued z \<union> started (hs_commands (handle_lan_playback_event x (good_env content []) (Finished f) (sy_host z)))\<rparr>)"
    by (intro sys_event) simp_all
  then show ?thesis using z(4) acquire_heard [OF inv unread(1)] by (intro exI conjI) (assumption, simp)
qed

end
