(* ===== verification/Store_Witnesses.thy ===== *)
theory Store_Witnesses
  imports Store_Properties
begin

text \<open>
  A concrete history of the state database, from the first observed completion to a finished
  playback, evaluated by the kernel, and the properties of Store_Properties applied to it.
\<close>

section \<open>A database that went through a summary\<close>

text \<open>One completion of the task \<open>t\<close> is recorded, claimed for a summary, published, and the slot 1
  is bound to the task and plays the summary.\<close>

definition demo_observed :: db where
  "demo_observed = snd (commit_rollout_completion_on demo_externals 9 None None (sample_cursor 10) ''c'' ''{}'' empty_db)"

definition demo_claim :: summary_claim where
  "demo_claim = \<lparr> sc_outcome = ClaimInserted, sc_request_id = ''r'', sc_task_id = ''t'', sc_generation = 1,
     sc_previous_unread = None, sc_completions = [\<lparr> p_completion_id = ''c'', p_turn_pack = ''{}'' \<rparr>] \<rparr>"

definition demo_claimed :: db where
  "demo_claimed = snd (claim_summary demo_externals ''t'' ''r'' demo_observed)"

definition demo_cache_id :: cache_id where
  "demo_cache_id = row_cache_id demo_externals ''t'' 1"

definition demo_published :: db where
  "demo_published = snd (publish_summary demo_externals demo_claim (reference demo_cache_id) demo_claimed)"

definition demo_bound :: db where
  "demo_bound = snd (set_binding 1 None ''t'' demo_published)"

definition demo_lease :: summary_playback_lease where
  "demo_lease = playback_lease 7 1 ''t'' 1 1 1 (reference demo_cache_id)"

definition demo_playing :: db where
  "demo_playing = snd (acquire_summary_playback 1 1 1 7 demo_bound)"

definition demo_heard :: db where
  "demo_heard = snd (finish_summary_playback demo_externals demo_lease demo_playing)"

lemma demo_reachable:
  "store_reachable demo_externals demo_observed" "store_reachable demo_externals demo_claimed"
  "store_reachable demo_externals demo_published" "store_reachable demo_externals demo_bound"
  "store_reachable demo_externals demo_playing" "store_reachable demo_externals demo_heard"
proof -
  note steps = store_reachable_def
  show o: "store_reachable demo_externals demo_observed"
    unfolding steps demo_observed_def by (rule steps_step [OF steps_refl completion_step])
  show c: "store_reachable demo_externals demo_claimed"
    using o unfolding steps demo_claimed_def by (rule steps_step) (rule claim_summary_step)
  show p: "store_reachable demo_externals demo_published"
    using c unfolding steps demo_published_def by (rule steps_step) (rule publish_step)
  show b: "store_reachable demo_externals demo_bound"
    using p unfolding steps demo_bound_def by (rule steps_step) (rule binding_step)
  show a: "store_reachable demo_externals demo_playing"
    using b unfolding steps demo_playing_def by (rule steps_step) (rule acquire_step)
  show "store_reachable demo_externals demo_heard"
    using a unfolding steps demo_heard_def by (rule steps_step) (rule finish_step)
qed

lemmas demo_ledger = demo_reachable [THEN ledger.reachable_holds, THEN mp, OF demo_roundtrip]

text \<open>The states of the history, written out.\<close>

definition demo_reference :: string where
  "demo_reference = ''01'' @ replicate 62 (CHR ''0'') @ ''/1''"

definition demo_cursor :: "int \<Rightarrow> cursor_row" where
  "demo_cursor off = \<lparr> r_task_id = ''t'', r_rollout_path = [47, 114], r_device = 1, r_inode = 2, r_offset = off,
     r_generation = 1, r_anchor = 5 # replicate 31 0 \<rparr>"

definition demo_completion :: "string \<Rightarrow> string \<Rightarrow> int \<Rightarrow> int option \<Rightarrow> completion_row" where
  "demo_completion i cur now g = \<lparr> c_completion_id = i, c_task_id = ''t'', c_rollout_cursor = cur, c_observed_at = now,
     c_summarized_generation = g, c_turn_pack = ''{}'' \<rparr>"

definition demo_summary :: "summary_state \<Rightarrow> summary_row" where
  "demo_summary st = \<lparr> s_task_id = ''t'', s_generation = 1, s_state = st, s_covers = ''#,c'',
     s_cache_object = (if st = Generating then None else Some demo_reference), s_request_id = Some ''r'',
     s_claim_id = (if st = Generating then Some ''r'' else None), s_previous_generation = None, s_superseded_by = None \<rparr>"

definition demo_lease_row :: lease_row where
  "demo_lease_row = \<lparr> l_lease_id = 7, l_task_id = ''t'', l_summary_generation = 1, l_slot = 1,
     l_request_generation = 1, l_connection_generation = 1 \<rparr>"

lemma demo_reference_eq: "reference demo_cache_id = demo_reference"
  by code_simp

lemma demo_observed_code [code]:
  "demo_observed = empty_db\<lparr>db_completions := [demo_completion ''c'' ''1:10'' 9 None], db_cursors := [demo_cursor 10]\<rparr>"
  by code_simp

lemma demo_claim_eq:
  "claim_summary demo_externals ''t'' ''r'' demo_observed =
     (Ok (Some (Claimed demo_claim)), demo_observed\<lparr>db_summaries := [demo_summary Generating]\<rparr>)"
  by code_simp

lemma demo_claimed_code [code]: "demo_claimed = demo_observed\<lparr>db_summaries := [demo_summary Generating]\<rparr>"
  by (simp add: demo_claimed_def demo_claim_eq)

lemma publish_summary_valid:
  assumes "validate_summary_claim x c = Ok ()" "for_task (sha256 x) (sc_task_id c) (sc_generation c) = Ok i"
  shows "publish_summary x c (reference i) d = in_txn (publish_txn x c (reference i)) d"
  using assms by (simp add: publish_summary_def)

lemma demo_publish_eq:
  "publish_summary demo_externals demo_claim (reference demo_cache_id) demo_claimed =
   (Ok \<lparr> u_task_id = ''t'', u_generation = 1, u_cache_object = reference demo_cache_id, u_coverage_count = 1 \<rparr>,
    empty_db\<lparr>db_completions := [demo_completion ''c'' ''1:10'' 9 (Some 1)], db_cursors := [demo_cursor 10],
      db_summaries := [demo_summary Unheard]\<rparr>)"
proof -
  have "validate_summary_claim demo_externals demo_claim = Ok ()" by code_simp
  moreover have "for_task (sha256 demo_externals) (sc_task_id demo_claim) (sc_generation demo_claim) = Ok demo_cache_id"
    by code_simp
  ultimately have e: "publish_summary demo_externals demo_claim (reference demo_cache_id) demo_claimed =
      in_txn (publish_txn demo_externals demo_claim (reference demo_cache_id)) demo_claimed"
    by (rule publish_summary_valid)
  show ?thesis unfolding e unfolding demo_reference_eq by code_simp
qed

lemma demo_bound_code [code]:
  "demo_bound = \<lparr> db_bindings = [\<lparr> b_slot = 1, b_task_id = ''t'', b_generation = 1 \<rparr>], db_jobs = [], db_job_sequence = 0,
     db_completions = [demo_completion ''c'' ''1:10'' 9 (Some 1)], db_cursors = [demo_cursor 10],
     db_summaries = [demo_summary Unheard], db_tts_attempts = [], db_leases = [] \<rparr>"
  unfolding demo_bound_def demo_published_def demo_publish_eq by code_simp

lemma demo_lease_code [code]: "demo_lease = playback_lease 7 1 ''t'' 1 1 1 demo_reference"
  by (simp add: demo_lease_def demo_reference_eq)

lemma demo_acquire_eq:
  "acquire_summary_playback 1 1 1 7 demo_bound =
     (Ok (Some demo_lease), demo_bound\<lparr>db_summaries := [demo_summary Leased], db_leases := [demo_lease_row]\<rparr>)"
  by code_simp

lemma demo_playing_code [code]:
  "demo_playing = demo_bound\<lparr>db_summaries := [demo_summary Leased], db_leases := [demo_lease_row]\<rparr>"
  by (simp add: demo_playing_def demo_acquire_eq)

lemma demo_finish_eq:
  "finish_summary_playback demo_externals demo_lease demo_playing =
     (Ok True, demo_bound\<lparr>db_summaries := [demo_summary Heard]\<rparr>)"
  by code_simp

lemma demo_heard_code [code]: "demo_heard = demo_bound\<lparr>db_summaries := [demo_summary Heard]\<rparr>"
  by (simp add: demo_heard_def demo_finish_eq)

lemma demo_lengths: "length (db_completions demo_claimed) = 1"
  by code_simp

section \<open>Witnesses\<close>

theorem no_completion_lost_witness:
  "\<exists>s \<in> set (db_summaries demo_heard). s_task_id s = ''t'' \<and> s_generation s = 1 \<and>
    (s_state s = Heard \<and> s_superseded_by s = None \<or> is_current_unread s)"
proof -
  have c: "\<exists>c \<in> set (db_completions demo_heard). c_summarized_generation c = Some 1 \<and> c_task_id c = ''t''" by code_simp
  then obtain c where "c \<in> set (db_completions demo_heard)" "c_summarized_generation c = Some 1" "c_task_id c = ''t''"
    by blast
  with no_completion_lost [OF demo_reachable(6) demo_roundtrip this(1,2)] show ?thesis by simp
qed

theorem claimed_summary_publishes_witness:
  "\<exists>i u d2. for_task (sha256 demo_externals) ''t'' (sc_generation demo_claim) = Ok i \<and>
    publish_summary demo_externals demo_claim (reference i) demo_claimed = (Ok u, d2)"
proof -
  have e: "claim_summary demo_externals ''t'' ''r'' demo_observed = (Ok (Some (Claimed demo_claim)), demo_claimed)"
    by (simp add: prod_eq_iff demo_claim_eq demo_claimed_def)
  show ?thesis
    using claimed_summary_publishes [OF demo_ledger(1) demo_roundtrip e] demo_lengths
    by (simp add: MAX_SUMMARY_COMPLETIONS_PER_CLAIM_def u32_max_def)
qed

theorem claim_survives_restart_witness:
  "\<exists>d3 i u d4. resume_interrupted_summary demo_externals ''t'' (snd (open_store demo_claimed)) =
      (Ok (Some (demo_claim\<lparr>sc_outcome := ClaimReplay\<rparr>)), d3) \<and>
    for_task (sha256 demo_externals) ''t'' (sc_generation demo_claim) = Ok i \<and>
    publish_summary demo_externals (demo_claim\<lparr>sc_outcome := ClaimReplay\<rparr>) (reference i) d3 = (Ok u, d4)"
proof -
  have e: "claim_summary demo_externals ''t'' ''r'' demo_observed = (Ok (Some (Claimed demo_claim)), demo_claimed)"
    by (simp add: prod_eq_iff demo_claim_eq demo_claimed_def)
  have f: "\<exists>r. fst (open_store demo_claimed) = Ok r" by (rule exI [of _ "(0, 1)"]) code_simp
  then obtain r where o: "open_store demo_claimed = (Ok r, snd (open_store demo_claimed))" by (auto simp: prod_eq_iff)
  show ?thesis
    using claim_survives_restart [OF demo_ledger(1) demo_roundtrip e o] demo_lengths
    by (simp add: MAX_SUMMARY_COMPLETIONS_PER_CLAIM_def u32_max_def)
qed

theorem publish_delivers_witness:
  "current_unread_summary demo_externals ''t'' demo_published =
     Ok (Some \<lparr> u_task_id = ''t'', u_generation = 1, u_cache_object = reference demo_cache_id, u_coverage_count = 1 \<rparr>)"
proof -
  have e: "publish_summary demo_externals demo_claim (reference demo_cache_id) demo_claimed =
    (Ok \<lparr> u_task_id = ''t'', u_generation = 1, u_cache_object = reference demo_cache_id, u_coverage_count = 1 \<rparr>,
     demo_published)"
    by (simp add: prod_eq_iff demo_publish_eq demo_published_def)
  show ?thesis
    using publish_delivers [OF demo_ledger(2) demo_roundtrip e] demo_lengths
    by (simp add: demo_claim_def MAX_SUMMARY_COMPLETIONS_PER_CLAIM_def u32_max_def)
qed

lemma granted_playback_finishes_witness:
  "\<exists>s \<in> set (db_summaries demo_bound). s_task_id s = ''t'' \<and> s_generation s = 1 \<and> s_state s = Unheard \<and>
    finish_summary_playback demo_externals demo_lease demo_playing = (Ok True,
      demo_bound\<lparr>db_summaries := map (\<lambda>r. if r = s then r\<lparr>s_state := Heard\<rparr> else r) (db_summaries demo_bound)\<rparr>)"
proof -
  have e: "acquire_summary_playback 1 1 1 7 demo_bound = (Ok (Some demo_lease), demo_playing)"
    by (simp add: prod_eq_iff demo_acquire_eq demo_playing_def)
  have ls: "db_leases demo_playing \<noteq> []" "db_leases demo_bound = []" by code_simp+
  then have n: "demo_playing \<noteq> demo_bound" by metis
  have "pl_task_id demo_lease = ''t''" "uint (pl_summary_generation demo_lease) = 1"
    by (simp_all add: demo_lease_def playback_lease_def as_u64_def)
  with granted_playback_finishes [OF demo_ledger(4) e n] show ?thesis by simp
qed

theorem playback_counts_once_witness:
  "finish_summary_playback demo_externals demo_lease demo_heard = (Ok False, demo_heard) \<and>
   cancel_summary_playback demo_externals demo_lease demo_heard = (Ok False, demo_heard)"
proof -
  have e: "finish_summary_playback demo_externals demo_lease demo_playing = (Ok True, demo_heard)"
    by (simp add: prod_eq_iff demo_finish_eq demo_heard_def)
  show ?thesis
    using playback_counts_once [OF demo_ledger(5) demo_roundtrip e steps_refl] by simp
qed

text \<open>The second completion of the task is claimed while the first summary is unread, and then
  that summary is played to the end.\<close>

definition demo_second :: db where
  "demo_second = snd (claim_summary demo_externals ''t'' ''r2'' (snd (commit_rollout_completion_on demo_externals 10 None
     (Some (sample_cursor 10)) (sample_cursor 20) ''d'' ''{}'' demo_bound)))"

definition demo_stuck :: db where
  "demo_stuck = snd (finish_summary_playback demo_externals demo_lease (snd (acquire_summary_playback 1 1 1 7 demo_second)))"

lemma demo_second_code [code]:
  "demo_second = demo_bound\<lparr>db_completions := [demo_completion ''c'' ''1:10'' 9 (Some 1), demo_completion ''d'' ''1:20'' 10 None],
     db_cursors := [demo_cursor 20],
     db_summaries := [demo_summary Unheard, \<lparr> s_task_id = ''t'', s_generation = 2, s_state = Generating, s_covers = ''#,d'',
       s_cache_object = None, s_request_id = Some ''r2'', s_claim_id = Some ''r2'', s_previous_generation = Some 1,
       s_superseded_by = None \<rparr>]\<rparr>"
  by code_simp

lemma demo_stuck_reachable: "store_reachable demo_externals demo_stuck"
  using demo_reachable(4) unfolding store_reachable_def demo_second_def demo_stuck_def
  by (intro steps_step [OF steps_step [OF steps_step [OF steps_step [OF _ completion_step] claim_summary_step] acquire_step]
        finish_step])

theorem heard_previous_blocks_claim_witness:
  "query_current_unread ''t'' demo_stuck = Ok None \<and>
   (\<forall>c. fst (resume_interrupted_summary demo_externals ''t'' demo_stuck) \<noteq> Ok (Some c)) \<and>
   (\<forall>request c. fst (claim_summary demo_externals ''t'' request demo_stuck) \<noteq> Ok (Some (Claimed c)))"
proof -
  have q: "query_current_unread ''t'' demo_stuck = Ok None" by code_simp
  have s: "\<exists>s \<in> set (db_summaries demo_stuck). is_active_claim s \<and> s_previous_generation s = Some 1 \<and> s_task_id s = ''t''"
    by code_simp
  then obtain s where s: "s \<in> set (db_summaries demo_stuck)" "is_active_claim s" "s_previous_generation s = Some 1"
      "s_task_id s = ''t''" by blast
  have inv: "ledger_inv demo_externals demo_stuck"
    using ledger.reachable_holds [OF demo_stuck_reachable] demo_roundtrip by blast
  from heard_previous_blocks_claim [OF inv s(1-3)] s(4) q show ?thesis by simp
qed

end
