(* ===== verification/Playback_Witnesses.thy ===== *)
theory Playback_Witnesses
  imports Playback_System Store_Witnesses
begin

text \<open>
  The properties of \<open>Playback_System\<close> applied to a system that starts with the published summary of
  \<open>Store_Witnesses\<close> and a recording of one sample in the cache.
\<close>

definition demo_eiad :: "u8 list" where
  "demo_eiad = [69, 73, 65, 68, 1, 0, 32, 0, 128, 187, 0, 0, 1, 0, 4, 0, 192, 3, 8, 0,
     1, 0, 0, 0, 0, 0, 0, 0, 1, 0, 0, 0, 1, 0, 1, 0, 0, 0, 0, 0]"

definition demo_system :: playback_system where
  "demo_system = \<lparr> sy_host = \<lparr> hs_db = demo_bound, hs_active = [], hs_commands = [] \<rparr>, sy_transfer = default_playback,
     sy_io = empty_io, sy_seen = 0, sy_issued = {} \<rparr>"

definition demo_play :: playback_request where
  "demo_play = \<lparr> pr_slot = 1, pr_request_generation = 1, pr_connection_generation = 1, pr_nonce = 1 \<rparr>"

definition demo_reached :: "playback_system \<Rightarrow> bool" where
  "demo_reached = system_reach demo_externals (\<lambda>_. demo_eiad) demo_hmac plain_seal (\<lambda>n. Some 0) 4"

lemma demo_inspect: "inspect_eiad demo_eiad = Ok \<lparr> em_sample_rate = 48000, em_samples = 1, em_frames = 1 \<rparr>"
  unfolding demo_eiad_def by code_simp

lemma demo_system_reached: "demo_reached demo_system"
  unfolding demo_reached_def demo_system_def
  by (rule sys_start [OF demo_reachable(4)]) (simp add: demo_bound_code)

lemma demo_hypotheses:
  "link_up (\<lambda>n. Some 0) plain_seal" "at_rest demo_system" "valid_request demo_play"
  "fst (accept_request_generation demo_play (sy_transfer demo_system))"
  "acquire_summary_playback (pr_slot demo_play) (pr_request_generation demo_play) (pr_connection_generation demo_play) 7
     (hs_db (sy_host demo_system)) = (Ok (Some demo_lease), demo_playing)"
  "7 \<notin> (\<lambda>s. pi_lease (pb_identity (ls_begin s))) ` sy_issued demo_system"
  "(pl_task_id demo_lease, uint (pl_summary_generation demo_lease)) = (''t'', 1)"
  using demo_acquire_eq demo_playing_code
  by (simp_all add: link_up_def plain_seal_def at_rest_def demo_system_def empty_io_def default_playback_def valid_request_def
      demo_play_def accept_request_generation_def demo_lease_def playback_lease_def as_u64_def)

theorem unread_summary_plays_witness:
  "\<exists>z. demo_reached z \<and> (''t'', 1) \<in> heard (hs_db (sy_host z)) - heard demo_bound"
proof -
  have "\<exists>z. demo_reached z \<and> (''t'', 1) \<in> heard (hs_db (sy_host z)) - heard (hs_db (sy_host demo_system))"
    using unread_summary_plays [OF demo_system_reached [unfolded demo_reached_def] demo_roundtrip demo_hypotheses(1-6) demo_inspect]
    unfolding demo_hypotheses(7) demo_reached_def .
  then show ?thesis by (simp add: demo_system_def)
qed

theorem heard_only_when_delivered_witness:
  "\<exists>z f. \<exists>s \<in> sy_issued z. demo_reached z \<and> io_events (sy_io z) ! sy_seen z = Finished f \<and>
     transcode_eiad_for_device demo_eiad = Ok (ls_eiad s) \<and> pb_total_samples (ls_begin s) = pf_played_samples f"
proof -
  obtain z f where z: "system_reach demo_externals (\<lambda>_. demo_eiad) demo_hmac plain_seal (\<lambda>n. Some 0) 4 z"
    "sy_seen z < length (io_events (sy_io z))" "io_events (sy_io z) ! sy_seen z = Finished f" "hs_db (sy_host z) = demo_playing"
    "(''t'', 1) \<in> heard (hs_db (handle_lan_playback_event demo_externals (good_env (\<lambda>_. demo_eiad) []) (Finished f) (sy_host z))) - heard demo_playing"
    by (rule playback_reported [OF demo_system_reached [unfolded demo_reached_def] demo_roundtrip demo_hypotheses(1-6) demo_inspect,
          unfolded demo_hypotheses(7)])
  have "(''t'', 1) \<notin> heard (hs_db (sy_host z))"
    "(''t'', 1) \<in> heard (hs_db (handle_lan_playback_event demo_externals (good_env (\<lambda>_. demo_eiad) [])
        (io_events (sy_io z) ! sy_seen z) (sy_host z)))" using z(3-5) by simp_all
  from heard_only_when_delivered [OF z(1) demo_roundtrip plain_aead_correct z(2) this(2,1)] z(1) z(3)
  show ?thesis unfolding demo_reached_def by auto
qed

theorem no_orphaned_lease_witness:
  "\<exists>z. demo_reached z \<and> db_leases (hs_db (sy_host z)) = [demo_lease_row] \<and>
     list_all (\<lambda>l. in_flight z (lease_identity l)) (unheard (hs_active (sy_host z)))"
proof -
  obtain p io h s where z: "system_reach demo_externals (\<lambda>_. demo_eiad) demo_hmac plain_seal (\<lambda>n. Some 0) 4
      \<lparr> sy_host = h\<lparr>hs_commands := [Start s]\<rparr>, sy_transfer = p, sy_io = io, sy_seen = length (io_events io),
         sy_issued = sy_issued demo_system \<union> {s} \<rparr>" "hs_db h = demo_playing"
    by (rule playback_begins [OF demo_system_reached [unfolded demo_reached_def] demo_roundtrip demo_hypotheses(1-6) demo_inspect])
  have "db_leases demo_playing = [demo_lease_row]" by (simp add: demo_playing_code)
  then show ?thesis
    using no_orphaned_lease [OF z(1) demo_roundtrip] z(2) unfolding demo_reached_def list_all_iff
    by (intro exI conjI) (rule z(1), simp, blast)
qed

end
