(* ===== verification/Task_Queue.thy ===== *)
theory Task_Queue
  imports Store_Properties
begin

text \<open>
  The prompt jobs of the store as what they are for: per task a queue of waiting requests and at most one
  request that runs. Every operation of the state database is a step of this abstract queue.
\<close>

section \<open>The abstract queue\<close>

record task_queue =
  tq_waiting :: "string \<Rightarrow> string list"
  tq_running :: "string \<Rightarrow> string option"

text \<open>A request enters at the end of its task's queue, the first request of an idle task starts while
  fewer than four run, a running request ends, and a restart puts every running request back to the front.\<close>

inductive queue_step :: "task_queue \<Rightarrow> task_queue \<Rightarrow> bool" where
  q_stay: "queue_step q q"
| q_enqueue: "length (tq_waiting q t) + (if tq_running q t = None then 0 else 1) < 12 \<Longrightarrow> (\<And>u. r \<notin> set (tq_waiting q u)) \<Longrightarrow>
    r \<notin> ran (tq_running q) \<Longrightarrow> queue_step q (q\<lparr>tq_waiting := (tq_waiting q)(t := tq_waiting q t @ [r])\<rparr>)"
| q_start: "tq_waiting q t = r # rs \<Longrightarrow> tq_running q t = None \<Longrightarrow> card (dom (tq_running q)) < 4 \<Longrightarrow>
    queue_step q (q\<lparr>tq_waiting := (tq_waiting q)(t := rs), tq_running := (tq_running q)(t \<mapsto> r)\<rparr>)"
| q_end: "tq_running q t = Some r \<Longrightarrow> queue_step q (q\<lparr>tq_running := (tq_running q)(t := None)\<rparr>)"
| q_restart: "queue_step q
    \<lparr> tq_waiting = (\<lambda>t. (case tq_running q t of None \<Rightarrow> [] | Some r \<Rightarrow> [r]) @ tq_waiting q t), tq_running = Map.empty \<rparr>"

inductive_simps queue_stay_simp: "queue_step q q"

section \<open>The queue a database holds\<close>

definition waits :: "string \<Rightarrow> job_row \<Rightarrow> bool" where
  "waits t r \<longleftrightarrow> j_task_id r = t \<and> j_state r = Queued"

definition runs :: "string \<Rightarrow> job_row \<Rightarrow> bool" where
  "runs t r \<longleftrightarrow> j_task_id r = t \<and> j_state r = Running"

definition queue_of :: "db \<Rightarrow> task_queue" where
  "queue_of d = \<lparr> tq_waiting = (\<lambda>t. map j_request_id (filter (waits t) (db_jobs d))),
     tq_running = (\<lambda>t. map_option j_request_id (first_row (runs t) (db_jobs d))) \<rparr>"

text \<open>Rows are kept in the order of their sequence numbers, and a running job is older than the waiting
  jobs of its task.\<close>

definition order_inv :: "db \<Rightarrow> bool" where
  "order_inv d \<longleftrightarrow> sorted_wrt (<) (map j_sequence (db_jobs d)) \<and>
     (\<forall>a \<in> set (db_jobs d). \<forall>b \<in> set (db_jobs d). runs (j_task_id a) a \<longrightarrow> waits (j_task_id a) b \<longrightarrow> j_sequence a < j_sequence b)"

lemma order_inv_frame: "job_part d' = job_part d \<Longrightarrow> order_inv d \<Longrightarrow> order_inv d'"
  by (simp add: order_inv_def job_part_def)

lemma queue_of_frame: "job_part d' = job_part d \<Longrightarrow> queue_of d' = queue_of d"
  by (simp add: queue_of_def job_part_def)

lemma order_inv_update:
  assumes "order_inv d" "\<And>r. j_sequence (f r) = j_sequence r" "\<And>r. j_task_id (f r) = j_task_id r"
    "\<And>a b. a \<in> set (update_where p f (db_jobs d)) \<Longrightarrow> b \<in> set (update_where p f (db_jobs d)) \<Longrightarrow>
       runs (j_task_id a) a \<Longrightarrow> waits (j_task_id a) b \<Longrightarrow> j_sequence a < j_sequence b"
  shows "order_inv (d\<lparr>db_jobs := update_where p f (db_jobs d)\<rparr>)"
proof -
  have "map j_sequence (update_where p f (db_jobs d)) = map j_sequence (db_jobs d)"
    using assms(2) by (simp add: update_where_def)
  then show ?thesis using assms(1,4) by (auto simp: order_inv_def)
qed

lemma enqueue_order: "jobs_inv d \<Longrightarrow> order_inv d \<Longrightarrow> order_inv (snd (enqueue j d))"
proof -
  assume inv: "jobs_inv d" "order_inv d"
  obtain res d' where e: "enqueue j d = (res, d')" by fastforce
  then have "order_inv d'"
  proof (cases rule: enqueue_cases)
    case (inserted gen row)
    have "j_sequence r < j_sequence row" if "r \<in> set (db_jobs d)" for r
      using inv(1) that inserted(7) by (auto simp: jobs_inv_alt job_ranges_def)
    then show ?thesis using inv(2) inserted(7,9) by (auto simp: order_inv_def sorted_wrt_append runs_def waits_def)
  qed (use inv in simp)
  with e show ?thesis by simp
qed

lemma claim_order: "jobs_inv d \<Longrightarrow> order_inv d \<Longrightarrow> order_inv (snd (claim_next_runnable d))"
proof -
  assume inv: "jobs_inv d" "order_inv d"
  obtain res d' where e: "claim_next_runnable d = (res, d')" by fastforce
  have ok: "jobs_ok (db_jobs d)" using inv by (simp add: jobs_inv_alt)
  from ok e have "order_inv d'"
  proof (cases rule: claim_next_runnable_cases)
    case (claimed c j)
    have uniq: "r = c" if "r \<in> set (db_jobs d)" "j_request_id r = j_request_id c" for r
      using job_row_unique [OF inv(1) that(1) claimed(2) that(2)] .
    let ?js = "update_where (\<lambda>r. j_request_id r = j_request_id c) (claim_job_row (j_claim_generation c + 1)) (db_jobs d)"
    have mem: "r \<in> set ?js \<longleftrightarrow> r = claim_job_row (j_claim_generation c + 1) c \<or> r \<in> set (db_jobs d) \<and> r \<noteq> c" for r
      using claimed(2) uniq by (auto simp: set_update_where)
    show ?thesis unfolding claimed(8)
    proof (rule order_inv_update [OF inv(2)])
      fix a b assume ab: "a \<in> set ?js" "b \<in> set ?js" "runs (j_task_id a) a" "waits (j_task_id a) b"
      have "b \<noteq> claim_job_row (j_claim_generation c + 1) c" using ab(4) by (auto simp: waits_def claim_job_row_def)
      then have b: "b \<in> set (db_jobs d)" "b \<noteq> c" using ab(2) unfolding mem by auto
      show "j_sequence a < j_sequence b"
      proof (cases "a = claim_job_row (j_claim_generation c + 1) c")
        case True
        then have "waits (j_task_id c) b" using ab(4) by (simp add: claim_job_row_def)
        then have "\<not> j_sequence b < j_sequence c" using claimed(3) b(1) by (auto simp: is_runnable_def list_ex_iff waits_def)
        moreover have "j_sequence b \<noteq> j_sequence c"
          using distinct_key_eq [OF jobs_okD(1) [OF ok] b(1) claimed(2)] b(2) by blast
        ultimately show ?thesis using True by (simp add: claim_job_row_def)
      next
        case False
        then show ?thesis using ab(1,3,4) b(1) inv(2) unfolding mem by (auto simp: order_inv_def)
      qed
    qed (simp_all add: claim_job_row_def)
  qed (use inv in simp_all)
  with e show ?thesis by simp
qed

lemma ack_order:
  assumes "jobs_inv d" "order_inv d"
  shows "order_inv (snd (mark_completed request g d))" "order_inv (snd (mark_failed request g failure d))"
proof -
  have ok: "jobs_ok (db_jobs d)" using assms by (simp add: jobs_inv_alt)
  have *: "order_inv (d\<lparr>db_jobs := update_where p f (db_jobs d)\<rparr>)"
    if "\<And>r. j_sequence (f r) = j_sequence r \<and> j_task_id (f r) = j_task_id r \<and> j_state (f r) \<noteq> Running \<and> j_state (f r) \<noteq> Queued" for p f
  proof (rule order_inv_update [OF assms(2)])
    fix a b assume "a \<in> set (update_where p f (db_jobs d))" "b \<in> set (update_where p f (db_jobs d))"
      "runs (j_task_id a) a" "waits (j_task_id a) b"
    moreover from this that have "a \<in> set (db_jobs d)" "b \<in> set (db_jobs d)"
      by (auto simp: set_update_where runs_def waits_def split: if_splits)
    ultimately show "j_sequence a < j_sequence b" using assms(2) by (auto simp: order_inv_def)
  qed (use that in auto)
  show "order_inv (snd (mark_completed request g d))"
    using assms(2) * by (cases "to_i64 g") (simp_all add: ack_error ack_result [OF ok])
  show "order_inv (snd (mark_failed request g failure d))"
    using assms(2) * by (cases "to_i64 g") (simp_all add: ack_error ack_result [OF ok])
qed

lemma recover_order: "order_inv d \<Longrightarrow> order_inv (snd (recover_interrupted_jobs d))"
proof -
  assume inv: "order_inv d"
  have "order_inv (d\<lparr>db_jobs := update_where is_running requeue_row (db_jobs d)\<rparr>)"
    by (rule order_inv_update [OF inv])
      (auto simp: requeue_row_def set_update_where runs_def is_running_def split: if_splits)
  then show ?thesis using inv by (simp add: recover_jobs_result)
qed

definition queue_inv :: "db \<Rightarrow> bool" where
  "queue_inv d \<longleftrightarrow> jobs_inv d \<and> order_inv d"

lemma open_store_queue_inv: "queue_inv d \<Longrightarrow> queue_inv (snd (open_store d))"
  by (erule open_store_inv)
    (auto simp: queue_inv_def frames intro: recover_jobs_inv recover_order jobs_inv_frame order_inv_frame)

lemma queue_inv_step: "queue_inv d \<Longrightarrow> store_step x d e \<Longrightarrow> queue_inv e"
  using open_store_queue_inv [of d]
  by (elim store_step.cases)
    (auto intro: store_inv_intros enqueue_order claim_order ack_order
       jobs_inv_frame order_inv_frame simp: queue_inv_def frames)

lemma queue_inv_empty: "queue_inv empty_db"
  using jobs_inv_empty by (simp add: queue_inv_def order_inv_def empty_db_def)

interpretation ordered: store_invariant x queue_inv
  by unfold_locales (auto intro: queue_inv_step queue_inv_empty)

section \<open>Every operation is a step of the queue\<close>

lemma first_row_filter: "first_row p rows = (case filter p rows of [] \<Rightarrow> None | r # _ \<Rightarrow> Some r)"
  by (induction rows) (auto simp: first_row_def)

lemma first_row_snoc: "\<not> p r \<Longrightarrow> first_row p (rows @ [r]) = first_row p rows"
  by (simp add: first_row_filter)

lemma running_unique:
  assumes "jobs_inv d" "runs t a" "runs t b" "a \<in> set (db_jobs d)" "b \<in> set (db_jobs d)"
  shows "a = b"
proof -
  have "inj_on j_task_id {r \<in> set (db_jobs d). is_running r}"
    using assms(1) jobs_okD(4) [of "db_jobs d"] by (simp add: jobs_inv_alt distinct_map)
  then show ?thesis using assms(2-) by (auto simp: runs_def is_running_def inj_on_def)
qed

lemma running_list:
  assumes "jobs_inv d"
  shows "filter (runs t) (db_jobs d) = (case first_row (runs t) (db_jobs d) of None \<Rightarrow> [] | Some r \<Rightarrow> [r])"
proof (cases "filter (runs t) (db_jobs d)")
  case Nil
  then show ?thesis by (simp add: first_row_filter)
next
  case (Cons a as)
  have "distinct (filter (runs t) (db_jobs d))" using assms jobs_okD(1) [of "db_jobs d"] by (simp add: jobs_inv_alt distinct_map)
  moreover have "b = a" if "b \<in> set as" for b
  proof -
    have "a \<in> set (filter (runs t) (db_jobs d))" "b \<in> set (filter (runs t) (db_jobs d))" using that Cons by simp_all
    then show ?thesis using running_unique [OF assms, of t b a] by auto
  qed
  ultimately have "as = []" using Cons by (cases as) auto
  then show ?thesis using Cons by (simp add: first_row_filter)
qed

lemma pending_split:
  assumes "jobs_inv d"
  shows "count_where (is_pending t) (db_jobs d) =
    length (tq_waiting (queue_of d) t) + (if tq_running (queue_of d) t = None then 0 else 1)"
proof -
  have "count_where (is_pending t) js = length (filter (waits t) js) + length (filter (runs t) js)" for js
    by (induction js) (auto simp: count_where_def is_pending_def waits_def runs_def)
  then show ?thesis using running_list [OF assms] by (simp add: queue_of_def split: option.splits)
qed

lemma running_card:
  assumes "jobs_inv d" shows "card (dom (tq_running (queue_of d))) = count_where is_running (db_jobs d)"
proof -
  let ?R = "filter is_running (db_jobs d)"
  have "dom (tq_running (queue_of d)) = j_task_id ` set ?R"
  proof -
    have "tq_running (queue_of d) t \<noteq> None \<longleftrightarrow> (\<exists>r \<in> set (db_jobs d). runs t r)" for t
      by (auto simp: queue_of_def first_row_def find_None_iff)
    then show ?thesis by (auto simp: dom_def runs_def is_running_def)
  qed
  also have "card \<dots> = length ?R"
    using assms jobs_okD(4) [of "db_jobs d"] distinct_card [of "map j_task_id ?R"] by (simp add: jobs_inv_alt)
  finally show ?thesis by (simp add: count_where_def)
qed

lemma enqueue_refines:
  assumes "queue_inv d" shows "queue_step (queue_of d) (queue_of (snd (enqueue j d)))"
proof -
  obtain res d' where e: "enqueue j d = (res, d')" by fastforce
  then have "queue_step (queue_of d) (queue_of d')"
  proof (cases rule: enqueue_cases)
    case (inserted gen row)
    have inv: "jobs_inv d" using assms by (simp add: queue_inv_def)
    let ?q = "queue_of d" and ?t = "nj_task_id j"
    have "queue_of d' = ?q\<lparr>tq_waiting := (tq_waiting ?q)(?t := tq_waiting ?q ?t @ [nj_request_id j])\<rparr>"
      using inserted(7,9) by (auto simp: queue_of_def waits_def runs_def first_row_snoc)
    moreover have "nj_request_id j \<notin> j_request_id ` set (db_jobs d)"
      using inserted(5) by (auto simp: first_row_filter filter_empty_conv split: list.splits)
    then have "\<And>u. nj_request_id j \<notin> set (tq_waiting ?q u)" "nj_request_id j \<notin> ran (tq_running ?q)"
      by (auto simp: queue_of_def ran_def first_row_filter filter_eq_Cons_iff split: list.splits)
    ultimately show ?thesis using q_enqueue [of ?q ?t "nj_request_id j"] inserted(6) pending_split [OF inv, of ?t] by simp
  qed (simp add: q_stay)
  with e show ?thesis by simp
qed

lemma first_row_unique_iff:
  assumes "\<And>a b. a \<in> set js \<Longrightarrow> b \<in> set js \<Longrightarrow> p a \<Longrightarrow> p b \<Longrightarrow> a = b" "c \<in> set js" "p c"
  shows "first_row p js = Some c"
  using assms by (induction js) (auto simp: first_row_def)

lemma claim_refines:
  assumes "queue_inv d" shows "queue_step (queue_of d) (queue_of (snd (claim_next_runnable d)))"
proof -
  have inv: "jobs_inv d" "order_inv d" and ok: "jobs_ok (db_jobs d)" using assms by (auto simp: queue_inv_def jobs_inv_alt)
  obtain res d' where e: "claim_next_runnable d = (res, d')" by fastforce
  from ok e have "queue_step (queue_of d) (queue_of d')"
  proof (cases rule: claim_next_runnable_cases)
    case (claimed c j)
    let ?q = "queue_of d" and ?t = "j_task_id c" and ?c = "claim_job_row (j_claim_generation c + 1) c"
    obtain pre post where split: "db_jobs d = pre @ c # post"
      "\<And>f. update_where (\<lambda>r. j_request_id r = j_request_id c) f (db_jobs d) = pre @ f c # post"
      using update_key_split [OF jobs_okD(2) [OF ok] claimed(2)] by metis
    have run: "j_state c = Queued" "\<And>r. r \<in> set (db_jobs d) \<Longrightarrow> \<not> runs ?t r"
      "\<And>r. r \<in> set (db_jobs d) \<Longrightarrow> waits ?t r \<Longrightarrow> \<not> j_sequence r < j_sequence c"
      using claimed(3) by (auto simp: is_runnable_def list_ex_iff waits_def runs_def)
    have pre: "filter (waits ?t) pre = []"
      using inv(2) run(3) split(1) by (force simp: order_inv_def sorted_wrt_append filter_empty_conv)
    have d': "db_jobs d' = pre @ ?c # post" using claimed(8) split(2) by simp
    have c': "waits u c \<longleftrightarrow> u = ?t" "\<not> waits u ?c" "runs u ?c \<longleftrightarrow> u = ?t" "\<not> runs u c" "j_request_id ?c = j_request_id c" for u
      using run(1) by (auto simp: waits_def runs_def claim_job_row_def)
    have none: "filter (runs ?t) pre = []" "filter (runs ?t) post = []" using run(2) split(1) by (auto simp: filter_empty_conv)
    have w: "tq_waiting ?q ?t = j_request_id c # map j_request_id (filter (waits ?t) post)" "tq_running ?q ?t = None"
      using pre none c' by (simp_all add: queue_of_def split(1) first_row_filter)
    have "queue_of d' = ?q\<lparr>tq_waiting := (tq_waiting ?q)(?t := map j_request_id (filter (waits ?t) post)),
        tq_running := (tq_running ?q)(?t \<mapsto> j_request_id c)\<rparr>"
      using pre none c' by (auto simp: queue_of_def d' split(1) first_row_filter fun_eq_iff)
    moreover have "card (dom (tq_running ?q)) < 4" using running_card [OF inv(1)] claimed(5) by simp
    ultimately show ?thesis using q_start [OF w] by simp
  qed (simp_all add: q_stay)
  with e show ?thesis by simp
qed

lemma ack_queue:
  assumes inv: "jobs_inv d" and f: "\<And>r. j_request_id (f r) = j_request_id r \<and> j_task_id (f r) = j_task_id r \<and>
      j_state (f r) \<noteq> Running \<and> j_state (f r) \<noteq> Queued"
  shows "queue_step (queue_of d) (queue_of (d\<lparr>db_jobs := update_where (is_claimed request gen) f (db_jobs d)\<rparr>))"
proof (cases "\<exists>c \<in> set (db_jobs d). is_claimed request gen c")
  case False
  then have "update_where (is_claimed request gen) f (db_jobs d) = db_jobs d" by (intro update_where_id) auto
  then show ?thesis by (simp add: q_stay)
next
  case True
  then obtain c where c: "c \<in> set (db_jobs d)" "is_claimed request gen c" by blast
  have ok: "jobs_ok (db_jobs d)" using inv by (simp add: jobs_inv_alt)
  let ?q = "queue_of d" and ?t = "j_task_id c"
  have cr: "j_state c = Running" "j_request_id c = request" using c(2) by (auto simp: is_claimed_def)
  have sel: "update_where (is_claimed request gen) f (db_jobs d) = update_where (\<lambda>r. j_request_id r = j_request_id c) f (db_jobs d)"
    using job_row_unique [OF inv _ c(1)] c(2) cr(2) by (intro update_where_cong) (auto simp: is_claimed_def)
  obtain pre post where split: "db_jobs d = pre @ c # post"
    "\<And>f. update_where (\<lambda>r. j_request_id r = j_request_id c) f (db_jobs d) = pre @ f c # post"
    using update_key_split [OF jobs_okD(2) [OF ok] c(1)] by metis
  have c': "\<not> waits u c" "\<not> waits u (f c)" "runs u c \<longleftrightarrow> u = ?t" "\<not> runs u (f c)" for u
    using cr(1) f [of c] by (auto simp: waits_def runs_def)
  have "distinct (db_jobs d)" using jobs_okD(1) [OF ok] by (simp add: distinct_map)
  then have none: "filter (runs ?t) pre = []" "filter (runs ?t) post = []"
    using running_unique [OF inv, of ?t _ c] c'(3) split(1) by (auto simp: filter_empty_conv)
  have w: "tq_running ?q ?t = Some request"
    using none c' cr(2) by (simp add: queue_of_def split(1) first_row_filter)
  have "queue_of (d\<lparr>db_jobs := update_where (is_claimed request gen) f (db_jobs d)\<rparr>) =
      ?q\<lparr>tq_running := (tq_running ?q)(?t := None)\<rparr>"
    unfolding sel split(2) using none c' by (auto simp: queue_of_def split(1) first_row_filter fun_eq_iff)
  then show ?thesis using q_end [OF w] by simp
qed

lemma ack_refines:
  assumes "queue_inv d"
  shows "queue_step (queue_of d) (queue_of (snd (mark_completed request g d)))"
    "queue_step (queue_of d) (queue_of (snd (mark_failed request g failure d)))"
proof -
  have inv: "jobs_inv d" and ok: "jobs_ok (db_jobs d)" using assms by (auto simp: queue_inv_def jobs_inv_alt)
  show "queue_step (queue_of d) (queue_of (snd (mark_completed request g d)))"
    using ack_queue [OF inv] by (cases "to_i64 g") (simp_all add: ack_error ack_result [OF ok] q_stay)
  show "queue_step (queue_of d) (queue_of (snd (mark_failed request g failure d)))"
    using ack_queue [OF inv] by (cases "to_i64 g") (simp_all add: ack_error ack_result [OF ok] q_stay)
qed

lemma filter_before:
  assumes "sorted_wrt (<) (map f xs)" "\<And>a b. a \<in> set xs \<Longrightarrow> b \<in> set xs \<Longrightarrow> P a \<Longrightarrow> Q b \<Longrightarrow> f a < (f b :: int)" "\<And>a. \<not> (P a \<and> Q a)"
  shows "filter (\<lambda>a. P a \<or> Q a) xs = filter P xs @ filter Q xs"
  using assms
proof (induction xs)
  case (Cons x xs)
  have IH: "filter (\<lambda>a. P a \<or> Q a) xs = filter P xs @ filter Q xs"
    using Cons.prems by (intro Cons.IH) auto
  have "filter P xs = []" if "Q x"
  proof -
    have "\<not> P a" if "a \<in> set xs" for a
    proof
      assume "P a"
      then have "f a < f x" using Cons.prems(2) [of a x] that \<open>Q x\<close> by simp
      moreover have "f x < f a" using Cons.prems(1) that by simp
      ultimately show False by simp
    qed
    then show ?thesis by (simp add: filter_empty_conv)
  qed
  then show ?case using IH Cons.prems(3) [of x] by auto
qed simp

lemma recover_refines:
  assumes "queue_inv d" shows "queue_step (queue_of d) (queue_of (snd (recover_interrupted_jobs d)))"
proof -
  have inv: "jobs_inv d" "order_inv d" using assms by (auto simp: queue_inv_def)
  let ?q = "queue_of d" and ?js = "update_where is_running requeue_row (db_jobs d)"
  have w: "map j_request_id (filter (waits t) (update_where is_running requeue_row js)) =
      map j_request_id (filter (\<lambda>r. runs t r \<or> waits t r) js)" for t js
    by (induction js) (auto simp: update_where_def waits_def runs_def is_running_def requeue_row_def)
  have f: "filter (\<lambda>r. runs t r \<or> waits t r) (db_jobs d) = filter (runs t) (db_jobs d) @ filter (waits t) (db_jobs d)" for t
    using inv(2) by (intro filter_before [where f = j_sequence]) (auto simp: order_inv_def runs_def waits_def)
  have r: "filter (runs t) ?js = []" for t
    by (auto simp: filter_empty_conv set_update_where runs_def is_running_def requeue_row_def)
  have "queue_of (d\<lparr>db_jobs := ?js\<rparr>) =
      \<lparr> tq_waiting = (\<lambda>t. (case tq_running ?q t of None \<Rightarrow> [] | Some r \<Rightarrow> [r]) @ tq_waiting ?q t), tq_running = Map.empty \<rparr>"
    using running_list [OF inv(1)] by (auto simp: queue_of_def w f r first_row_filter [of _ ?js] split: option.splits)
  then show ?thesis using q_restart [of ?q] by (simp add: recover_jobs_result q_stay)
qed

lemma open_refines:
  assumes "queue_inv d" shows "queue_step (queue_of d) (queue_of (snd (open_store d)))"
proof -
  obtain r1 d1 r2 d2 r3 d3 where e: "recover_interrupted_jobs d = (r1, d1)"
      "recover_interrupted_summaries d1 = (r2, d2)" "recover_interrupted_playback_leases d2 = (r3, d3)"
    by (meson surj_pair)
  have q: "queue_of d2 = queue_of d1" "queue_of d3 = queue_of d2"
    using queue_of_frame [OF recover_frame(4) [of d1]] queue_of_frame [OF recover_frame(6) [of d2]] e by simp_all
  have "snd (open_store d) = d1 \<or> snd (open_store d) = d2 \<or> snd (open_store d) = d3"
    unfolding open_store_def e prod.case by (cases r1; cases r2; cases r3) (simp_all add: e)
  then have "queue_of (snd (open_store d)) = queue_of d1" using q by auto
  then show ?thesis using recover_refines [OF assms] e(1) by simp
qed

lemma frame_refines: "job_part e = job_part d \<Longrightarrow> queue_step (queue_of d) (queue_of e)"
  by (drule queue_of_frame) (simp add: q_stay)

text \<open>C9: the job table of every reachable database implements a first-in-first-out queue per task. With
  the waiting requests of a task in the order in which they were accepted, every operation of the state
  database is a step of the abstract queue or leaves it alone: requests enter at the end while fewer than
  twelve are pending, only the oldest request of an idle task starts and only while fewer than four run,
  at most one request of a task runs, and a restart puts running requests back in front of the waiting.\<close>

theorem job_table_refines_queue:
  assumes "store_reachable x d" "store_step x d e"
  shows "queue_step (queue_of d) (queue_of e)"
proof -
  have inv: "queue_inv d" using assms(1) by (rule ordered.reachable_holds)
  from assms(2) show ?thesis
    by cases (auto intro: frame_refines inv enqueue_refines claim_refines ack_refines open_refines simp: frames)
qed

theorem job_table_refines_queue_witness:
  "queue_step (queue_of sample_queue) (queue_of (snd (claim_next_runnable sample_queue))) \<and>
   tq_waiting (queue_of sample_queue) ''t'' = [''r1'', ''r2''] \<and>
   tq_running (queue_of (snd (claim_next_runnable sample_queue))) ''t'' = Some ''r1''"
proof (intro conjI)
  show "queue_step (queue_of sample_queue) (queue_of (snd (claim_next_runnable sample_queue)))"
    by (rule job_table_refines_queue [OF sample_queue_reachable claim_step])
qed code_simp+

end
