(* ===== verification/Scheduler.thy ===== *)
theory Scheduler
  imports Task_Queue Capture "HOL-Library.List_Lexorder" "HOL-Library.Char_ord"
begin

text \<open>
  The durable prompt scheduler, \<open>app/host/src/prompt_queue.rs\<close> and \<open>bindings.rs\<close>: prompts enter the job table
  through the binding of their slot, the scheduler claims runnable jobs, runs each in a worker thread and
  acknowledges the results the workers send. The catalog of Codex tasks and the outcome of a worker are
  arguments of the operations.
\<close>

section \<open>Enqueueing by slot\<close>

record codex_task =
  ct_task_id :: string
  ct_name :: string
  ct_project :: string
  ct_cwd :: path
  ct_rollout_path :: path
  ct_updated_at_ms :: u64
  ct_pinned :: bool

datatype catalog_error = CatalogIo | CatalogSqlite | InvalidIndex | IndexTooLarge | UnsafePath | NotAllowlisted

datatype binding_error = Catalog catalog_error | BindingStore store_error

datatype prompt_queue_error = UnboundSlot | Binding binding_error | QueueStore store_error

type_synonym task_catalog = "catalog_error + codex_task list"

text \<open>\<open>allowlisted\<close> looks a task up in the list the catalog returned.\<close>

definition allowlisted :: "externals \<Rightarrow> task_catalog \<Rightarrow> string \<Rightarrow> catalog_error + codex_task" where
  "allowlisted x catalog task_id =
     (if \<not> uuid_ok x task_id then Err NotAllowlisted
      else and_then catalog (\<lambda>tasks.
        case find (\<lambda>task. ct_task_id task = task_id) tasks of None \<Rightarrow> Err NotAllowlisted | Some task \<Rightarrow> Ok task))"

definition bind ::
  "externals \<Rightarrow> task_catalog \<Rightarrow> u8 \<Rightarrow> u64 option \<Rightarrow> string \<Rightarrow> db \<Rightarrow> (binding_error + binding option) \<times> db" where
  "bind x catalog slot expected_generation task_id d =
     (case allowlisted x catalog task_id of
        Inl e \<Rightarrow> (Err (Catalog e), d)
      | Inr _ \<Rightarrow> (case set_binding slot expected_generation task_id d of (r, d) \<Rightarrow> (map_err BindingStore r, d)))"

definition resolve :: "externals \<Rightarrow> task_catalog \<Rightarrow> u8 \<Rightarrow> db \<Rightarrow> binding_error + (binding \<times> codex_task) option" where
  "resolve x catalog slot d =
     and_then (map_err BindingStore (binding_of slot d)) (\<lambda>found.
       case found of
         None \<Rightarrow> Ok None
       | Some b \<Rightarrow> and_then (map_err Catalog (allowlisted x catalog (bd_task_id b))) (\<lambda>task. Ok (Some (b, task))))"

definition enqueue_slot ::
  "externals \<Rightarrow> task_catalog \<Rightarrow> u8 \<Rightarrow> string \<Rightarrow> string \<Rightarrow> db \<Rightarrow> (prompt_queue_error + enqueue_outcome) \<times> db" where
  "enqueue_slot x catalog slot request_id prompt d =
     (case resolve x catalog slot d of
        Inl e \<Rightarrow> (Err (Binding e), d)
      | Inr None \<Rightarrow> (Err UnboundSlot, d)
      | Inr (Some (b, task)) \<Rightarrow>
          (case enqueue \<lparr> nj_request_id = request_id, nj_task_id = bd_task_id b, nj_slot = slot,
                  nj_generation = bd_generation b, nj_prompt = prompt, nj_cwd = ct_cwd task \<rparr> d of
             (r, d) \<Rightarrow> (map_err QueueStore r, d)))"

section \<open>The scheduler\<close>

record worker_result =
  wr_request_id :: string
  wr_claim_generation :: u64
  wr_result :: "job_failure_kind + unit"

record worker =
  wk_job :: job
  wk_cancel :: bool

record scheduler =
  sd_workers :: "(string \<times> worker) list"
  sd_results :: "worker_result list"

definition new_scheduler :: scheduler where
  "new_scheduler = \<lparr> sd_workers = [], sd_results = [] \<rparr>"

definition start_worker :: "job \<Rightarrow> scheduler \<Rightarrow> scheduler" where
  "start_worker job s = s\<lparr>sd_workers := bt_insert (job_request_id job) \<lparr> wk_job = job, wk_cancel = False \<rparr> (sd_workers s)\<rparr>"

definition acknowledge :: "worker_result \<Rightarrow> db \<Rightarrow> (store_error + bool) \<times> db" where
  "acknowledge r d =
     (case wr_result r of
        Inr _ \<Rightarrow> mark_completed (wr_request_id r) (wr_claim_generation r) d
      | Inl failure \<Rightarrow> mark_failed (wr_request_id r) (wr_claim_generation r) failure d)"

text \<open>The loop over the results that have arrived.\<close>

fun drain_results :: "worker_result list \<Rightarrow> scheduler \<Rightarrow> db \<Rightarrow> (store_error + unit) \<times> scheduler \<times> db" where
  "drain_results [] s d = (Ok (), s\<lparr>sd_results := []\<rparr>, d)"
| "drain_results (r # rs) s d =
     (let s = s\<lparr>sd_workers := bt_remove (wr_request_id r) (sd_workers s)\<rparr>
      in case acknowledge r d of
           (Inl e, d) \<Rightarrow> (Err e, s\<lparr>sd_results := rs\<rparr>, d)
         | (Inr _, d) \<Rightarrow> drain_results rs s d)"

definition is_queued :: "job_row \<Rightarrow> bool" where
  "is_queued r \<longleftrightarrow> j_state r = Queued"

lemma queued_update:
  "(\<And>r. p r \<Longrightarrow> is_queued r \<and> \<not> is_queued (f r)) \<Longrightarrow>
   count_where is_queued (update_where p f js) + count_where p js = count_where is_queued js"
  by (induction js) (auto simp: update_where_def count_where_def)

text \<open>Every claim takes a job from the queue, so the loop that starts workers ends.\<close>

lemma claim_decreases:
  assumes "claim_next_runnable d = (Ok (Some j), d')"
  shows "count_where is_queued (db_jobs d') < count_where is_queued (db_jobs d)"
proof -
  have "claim_next_runnable_txn d = Commit (Ok (Some j)) d' \<or> claim_next_runnable_txn d = Rollback (Ok (Some j))"
    using assms by (auto simp: claim_next_runnable_def in_txn_Pair)
  then have "\<exists>rid gen. count_where (\<lambda>r. j_request_id r = rid \<and> j_state r = Queued) (db_jobs d) = Suc 0 \<and>
      db_jobs d' = update_where (\<lambda>r. j_request_id r = rid \<and> j_state r = Queued) (claim_job_row gen) (db_jobs d)"
    by (auto simp: claim_next_runnable_txn_def attempt_Commit attempt_Rollback write_Ok Let_def split: if_splits option.splits) blast+
  then obtain rid gen where "count_where (\<lambda>r. j_request_id r = rid \<and> j_state r = Queued) (db_jobs d) = Suc 0"
      "db_jobs d' = update_where (\<lambda>r. j_request_id r = rid \<and> j_state r = Queued) (claim_job_row gen) (db_jobs d)" by blast
  then show ?thesis
    using queued_update [of "\<lambda>r. j_request_id r = rid \<and> j_state r = Queued" "claim_job_row gen" "db_jobs d"]
    by (simp add: is_queued_def claim_job_row_def)
qed

function fill_workers :: "scheduler \<Rightarrow> db \<Rightarrow> (store_error + unit) \<times> scheduler \<times> db" where
  "fill_workers s d =
     (if length (sd_workers s) < MAX_GLOBAL_RUNNING_JOBS then
        (case claim_next_runnable d of
           (Inl e, d') \<Rightarrow> (Err e, s, d')
         | (Inr None, d') \<Rightarrow> (Ok (), s, d')
         | (Inr (Some job), d') \<Rightarrow> fill_workers (start_worker job s) d')
      else (Ok (), s, d))"
  by pat_completeness auto
termination
  by (relation "measure (\<lambda>(s, d). count_where is_queued (db_jobs d))") (auto intro: claim_decreases sym)

declare fill_workers.simps [simp del]

definition tick_scheduler :: "scheduler \<Rightarrow> db \<Rightarrow> (store_error + unit) \<times> scheduler \<times> db" where
  "tick_scheduler s d =
     (case drain_results (sd_results s) s d of
        (Inl e, s, d) \<Rightarrow> (Err e, s, d)
      | (Inr _, s, d) \<Rightarrow> fill_workers s d)"

definition in_flight_jobs :: "scheduler \<Rightarrow> nat" where
  "in_flight_jobs s = length (sd_workers s)"

text \<open>Cancelling sets the flag of every worker; joining waits for them and drops what they report.\<close>

definition shutdown_without_acknowledging :: "scheduler \<Rightarrow> scheduler" where
  "shutdown_without_acknowledging s = s\<lparr>sd_workers := [], sd_results := []\<rparr>"

section \<open>Workers and running jobs\<close>

text \<open>No claim counter is exhausted.\<close>

definition claimable :: "db \<Rightarrow> bool" where
  "claimable d \<longleftrightarrow> (\<forall>r \<in> set (db_jobs d). j_state r = Queued \<longrightarrow> j_claim_generation r < i64_max)"

text \<open>The worker of a running job: it runs the claimed job under the claim generation of the row.\<close>

definition runs_job :: "db \<Rightarrow> string \<times> worker \<Rightarrow> bool" where
  "runs_job d w \<longleftrightarrow> job_request_id (wk_job (snd w)) = fst w \<and>
     (\<exists>r \<in> set (db_jobs d). j_request_id r = fst w \<and> j_state r = Running \<and> j_task_id r = job_task_id (wk_job (snd w)) \<and>
        j_claim_generation r = uint (job_claim_generation (wk_job (snd w))))"

definition workers_ok :: "worker_result list \<Rightarrow> (string \<times> worker) list \<Rightarrow> db \<Rightarrow> bool" where
  "workers_ok rs ws d \<longleftrightarrow> jobs_inv d \<and> bt_ok ws \<and> (\<forall>w \<in> set ws. runs_job d w) \<and>
     (\<forall>r \<in> set (db_jobs d). j_state r = Running \<longrightarrow> j_request_id r \<in> fst ` set ws) \<and>
     distinct (map wr_request_id rs) \<and>
     (\<forall>r \<in> set rs. \<exists>w \<in> set ws. fst w = wr_request_id r \<and> wr_claim_generation r = job_claim_generation (wk_job (snd w)))"

definition scheduler_inv :: "scheduler \<Rightarrow> db \<Rightarrow> bool" where
  "scheduler_inv s d \<longleftrightarrow> workers_ok (sd_results s) (sd_workers s) d"

lemma workers_okD:
  assumes "workers_ok rs ws d"
  shows "jobs_inv d" "bt_ok ws" "w \<in> set ws \<Longrightarrow> runs_job d w"
    "r \<in> set (db_jobs d) \<Longrightarrow> j_state r = Running \<Longrightarrow> j_request_id r \<in> fst ` set ws" "distinct (map wr_request_id rs)"
    "o' \<in> set rs \<Longrightarrow> \<exists>w \<in> set ws. fst w = wr_request_id o' \<and> wr_claim_generation o' = job_claim_generation (wk_job (snd w))"
  using assms by (auto simp: workers_ok_def)

lemma workers_count:
  assumes "workers_ok rs ws d" shows "length ws = count_where is_running (db_jobs d)"
proof -
  note W = workers_okD [OF assms]
  have ok: "distinct (map j_request_id (db_jobs d))" using W(1) jobs_okD(2) by (simp add: jobs_inv_alt)
  have "fst ` set ws = j_request_id ` set (filter is_running (db_jobs d))"
  proof (intro equalityI subsetI)
    fix i assume "i \<in> fst ` set ws"
    then obtain w where "w \<in> set ws" "i = fst w" by blast
    then show "i \<in> j_request_id ` set (filter is_running (db_jobs d))"
      using W(3) [of w] by (force simp: runs_job_def is_running_def)
  qed (use W(4) in \<open>auto simp: is_running_def\<close>)
  moreover have "card (fst ` set ws) = length ws" using bt_ok_distinct [OF W(2)] distinct_card by fastforce
  moreover have "distinct (map j_request_id (filter is_running (db_jobs d)))" using ok by (rule distinct_map_filter)
  then have "card (j_request_id ` set (filter is_running (db_jobs d))) = count_where is_running (db_jobs d)"
    using distinct_card by (fastforce simp: count_where_def)
  ultimately show ?thesis by simp
qed

lemma acknowledge_effect:
  assumes inv: "workers_ok (r # rs) ws d"
  obtains d' row where "acknowledge r d = (Ok True, d')" "workers_ok rs (bt_remove (wr_request_id r) ws) d'" "jobs_evolve d d'"
    "claimable d \<longrightarrow> claimable d'" "row \<in> set (db_jobs d')" "j_request_id row = wr_request_id r"
    "case wr_result r of Inr _ \<Rightarrow> j_state row = Completed | Inl f \<Rightarrow> j_state row = Failed \<and> j_failure_kind row = Some (failure_str f)"
proof -
  note W = workers_okD [OF inv]
  have ok: "jobs_ok (db_jobs d)" using W(1) by (simp add: jobs_inv_alt)
  let ?q = "wr_request_id r" and ?g = "uint (wr_claim_generation r)"
  obtain w where w: "w \<in> set ws" "fst w = ?q" "wr_claim_generation r = job_claim_generation (wk_job (snd w))"
    using W(6) [of r] by auto
  obtain c where c: "c \<in> set (db_jobs d)" "j_request_id c = ?q" "j_state c = Running" "j_claim_generation c = ?g"
    using W(3) [OF w(1)] w(2,3) by (auto simp: runs_job_def)
  have "?g \<le> i64_max" using W(1) c(1,4) by (auto simp: jobs_inv_alt job_ranges_def)
  then have g: "to_i64 (wr_claim_generation r) = Ok ?g" by (simp add: to_i64_def)
  have cl: "is_claimed ?q ?g e \<longleftrightarrow> e = c" if "e \<in> set (db_jobs d)" for e
    using job_row_unique [OF W(1) that c(1)] c(2-4) by (auto simp: is_claimed_def)
  have one: "count_where (is_claimed ?q ?g) (db_jobs d) = 1"
    using cl c(1) by (intro count_where_one [OF jobs_okD(2) [OF ok] c(1)]) auto
  define f :: "job_row \<Rightarrow> job_row" where "f = (case wr_result r of Inr _ \<Rightarrow> (\<lambda>r. r\<lparr>j_state := Completed\<rparr>)
     | Inl failure \<Rightarrow> (\<lambda>r. r\<lparr>j_state := Failed, j_failure_kind := Some (failure_str failure)\<rparr>))"
  have f: "j_request_id (f e) = j_request_id e" "j_task_id (f e) = j_task_id e" "j_state (f e) \<noteq> Running" "j_state (f e) \<noteq> Queued" for e
    by (simp_all add: f_def split: sum.splits)
  let ?d = "d\<lparr>db_jobs := update_where (is_claimed ?q ?g) f (db_jobs d)\<rparr>"
  have a: "acknowledge r d = (Ok True, ?d)"
    using one by (cases "wr_result r") (simp_all add: acknowledge_def ack_result [OF ok g] f_def)
  have inv': "jobs_inv ?d" and ev: "jobs_evolve d ?d"
  proof -
    have "jobs_inv (snd (acknowledge r d)) \<and> jobs_evolve d (snd (acknowledge r d))"
      by (cases "wr_result r")
        (simp_all add: acknowledge_def mark_completed_inv [OF W(1)] mark_failed_inv [OF W(1)] ack_evolve [OF W(1)])
    then show "jobs_inv ?d" "jobs_evolve d ?d" using a by simp_all
  qed
  have mem: "e \<in> set (db_jobs ?d) \<longleftrightarrow> e = f c \<or> e \<in> set (db_jobs d) \<and> e \<noteq> c" for e
    using cl c(1) by (auto simp: set_update_where)
  have "workers_ok rs (bt_remove ?q ws) ?d"
    unfolding workers_ok_def
  proof (intro conjI ballI impI)
    fix v assume v: "v \<in> set (bt_remove ?q ws)"
    obtain e where e: "e \<in> set (db_jobs d)" "j_request_id e = fst v" "j_state e = Running" "j_task_id e = job_task_id (wk_job (snd v))"
        "j_claim_generation e = uint (job_claim_generation (wk_job (snd v)))" "job_request_id (wk_job (snd v)) = fst v"
      using W(3) [of v] v by (auto simp: runs_job_def set_bt_remove)
    have "e \<noteq> c" using v e(2) c(2) by (auto simp: set_bt_remove)
    then have "e \<in> set (db_jobs ?d)" using e(1) unfolding mem by simp
    then show "runs_job ?d v" using e(2-6) unfolding runs_job_def by (intro conjI bexI [of _ e]) simp_all
  next
    fix e assume e: "e \<in> set (db_jobs ?d)" "j_state e = Running"
    then have "e \<in> set (db_jobs d)" "e \<noteq> c" using f(3) [of c] unfolding mem by auto
    then show "j_request_id e \<in> fst ` set (bt_remove ?q ws)"
      using W(4) e(2) job_row_unique [OF W(1) _ c(1)] c(2) by (force simp: set_bt_remove)
  next
    fix p assume p: "p \<in> set rs"
    then have "wr_request_id p \<noteq> ?q" using W(5) by (metis distinct.simps(2) list.simps(9) image_eqI list.set_map)
    then show "\<exists>w \<in> set (bt_remove ?q ws). fst w = wr_request_id p \<and> wr_claim_generation p = job_claim_generation (wk_job (snd w))"
      using W(6) [of p] p by (auto simp: set_bt_remove)
  qed (use W(2,5) inv' bt_remove_ok in auto)
  moreover have "claimable d \<longrightarrow> claimable ?d"
    using f(4) by (auto simp: claimable_def set_update_where split: if_splits)
  ultimately show ?thesis
    using that [OF a _ ev, of "f c"] mem [of "f c"] f(1) [of c] c(2) by (auto simp: f_def split: sum.splits)
qed

definition acknowledged :: "db \<Rightarrow> worker_result \<Rightarrow> bool" where
  "acknowledged d r \<longleftrightarrow> (\<exists>row \<in> set (db_jobs d). j_request_id row = wr_request_id r \<and>
     (case wr_result r of Inr _ \<Rightarrow> j_state row = Completed
      | Inl f \<Rightarrow> j_state row = Failed \<and> j_failure_kind row = Some (failure_str f)))"

lemma acknowledged_evolve:
  assumes "acknowledged d r" "jobs_evolve d d'" shows "acknowledged d' r"
proof -
  obtain row where row: "row \<in> set (db_jobs d)" "j_request_id row = wr_request_id r"
    "case wr_result r of Inr _ \<Rightarrow> j_state row = Completed | Inl f \<Rightarrow> j_state row = Failed \<and> j_failure_kind row = Some (failure_str f)"
    using assms(1) by (auto simp: acknowledged_def)
  obtain row' where "row' \<in> set (db_jobs d')" "job_evolves row row'" using jobs_evolveD [OF assms(2) row(1)] .
  moreover have "is_finished row" using row(3) by (auto simp: is_finished_def split: sum.splits)
  ultimately show ?thesis using row by (auto simp: job_evolves_def acknowledged_def)
qed

lemma drain_effect:
  assumes "workers_ok rs (sd_workers s) d"
  shows "\<exists>s' d'. drain_results rs s d = (Ok (), s', d') \<and> sd_results s' = [] \<and> workers_ok [] (sd_workers s') d' \<and>
    jobs_evolve d d' \<and> (\<forall>r \<in> set rs. acknowledged d' r) \<and> (claimable d \<longrightarrow> claimable d')"
  using assms
proof (induction rs s d rule: drain_results.induct)
  case (1 s d)
  then show ?case by (simp add: jobs_evolve_same)
next
  case (2 r rs s d)
  obtain d1 row where a: "acknowledge r d = (Ok True, d1)" "workers_ok rs (bt_remove (wr_request_id r) (sd_workers s)) d1" "jobs_evolve d d1"
    "claimable d \<longrightarrow> claimable d1" "row \<in> set (db_jobs d1)" "j_request_id row = wr_request_id r"
    "case wr_result r of Inr _ \<Rightarrow> j_state row = Completed | Inl f \<Rightarrow> j_state row = Failed \<and> j_failure_kind row = Some (failure_str f)"
    by (rule acknowledge_effect [OF 2(2)])
  have ar: "acknowledged d1 r" using a(5-7) by (auto simp: acknowledged_def)
  let ?s = "s\<lparr>sd_workers := bt_remove (wr_request_id r) (sd_workers s)\<rparr>"
  obtain s' d' where IH: "drain_results rs ?s d1 = (Ok (), s', d')" "sd_results s' = []" "workers_ok [] (sd_workers s') d'"
    "jobs_evolve d1 d'" "\<forall>r \<in> set rs. acknowledged d' r" "claimable d1 \<longrightarrow> claimable d'"
    using 2(1) [OF refl a(1) [symmetric] refl] a(2) by auto
  then show ?case
    using a(1,3,4) jobs_evolve_trans acknowledged_evolve [OF ar IH(4)] by (auto simp: Let_def)
qed

lemma claim_succeeds:
  assumes inv: "jobs_inv d" and cl: "claimable d" and e: "claim_next_runnable d = (r, d')"
  shows "\<exists>res. r = Ok res" "claimable d'"
proof -
  have ok: "jobs_ok (db_jobs d)" using inv by (simp add: jobs_inv_alt)
  have r: "\<exists>res. r = Ok res"
  proof (cases "count_where is_running (db_jobs d) < 4")
    case False
    with inv e show ?thesis
      by (auto simp: jobs_inv_alt claim_next_runnable_def in_txn_def claim_next_runnable_txn_def get_count_def u32_max_def
          MAX_GLOBAL_RUNNING_JOBS_def unat_of_nat)
  next
    case True
    show ?thesis
    proof (cases "first_by j_sequence (is_runnable (db_jobs d)) (db_jobs d)")
      case None
      with True e show ?thesis
        by (auto simp: claim_next_runnable_def in_txn_def claim_next_runnable_txn_def get_count_def u32_max_def
            MAX_GLOBAL_RUNNING_JOBS_def unat_of_nat)
    next
      case (Some c)
      have "j_claim_generation c < i64_max" using cl first_by_Some(1,2) [OF Some] by (auto simp: claimable_def is_runnable_def)
      from claim_result [OF inv True Some this] e show ?thesis by auto
    qed
  qed
  then show "\<exists>res. r = Ok res" .
  from ok e show "claimable d'"
    by (cases rule: claim_next_runnable_cases) (use cl r in \<open>auto simp: claimable_def set_update_where claim_job_row_def\<close>)
qed

lemma start_worker_ok:
  assumes inv: "workers_ok [] ws d" and e: "claim_next_runnable d = (Ok (Some j), d')"
  shows "workers_ok [] (bt_insert (job_request_id j) \<lparr> wk_job = j, wk_cancel = False \<rparr> ws) d'" "jobs_evolve d d'"
proof -
  note W = workers_okD [OF inv]
  have ok: "jobs_ok (db_jobs d)" using W(1) by (simp add: jobs_inv_alt)
  have inv': "jobs_inv d'" and ev: "jobs_evolve d d'"
    using claim_inv [OF W(1)] claim_evolve [OF W(1)] e by simp_all
  show "jobs_evolve d d'" by (rule ev)
  from ok e show "workers_ok [] (bt_insert (job_request_id j) \<lparr> wk_job = j, wk_cancel = False \<rparr> ws) d'"
  proof (cases rule: claim_next_runnable_cases)
    case (claimed c k)
    let ?c = "claim_job_row (j_claim_generation c + 1) c" and ?w = "\<lparr> wk_job = j, wk_cancel = False \<rparr>"
    have mem: "r \<in> set (db_jobs d') \<longleftrightarrow> r = ?c \<or> r \<in> set (db_jobs d) \<and> r \<noteq> c" for r
      using claimed(2,8) job_row_unique [OF W(1) _ claimed(2)] by (auto simp: set_update_where)
    have q: "j_state c = Queued" using claimed(3) by (simp add: is_runnable_def)
    have j: "job_request_id j = j_request_id c" "job_task_id j = j_task_id c" "uint (job_claim_generation j) = j_claim_generation c + 1"
    proof -
      have "map_job ?c = Ok j" using claimed(1,7) by simp
      moreover have "job_checks ?c" using jobs_okD(3) [OF claimed(9)] mem [of ?c] by blast
      moreover have "j_generation ?c \<le> i64_max" "j_claim_generation ?c \<le> i64_max"
        using W(1) claimed(2,6) by (auto simp: claim_job_row_def jobs_inv_alt job_ranges_def)
      ultimately show "job_request_id j = j_request_id c" "job_task_id j = j_task_id c" "uint (job_claim_generation j) = j_claim_generation c + 1"
        using map_job_fields(1,2,7) [of ?c j] by (simp_all add: claim_job_row_def)
    qed
    have new: "j_request_id c \<notin> fst ` set ws"
    proof
      assume "j_request_id c \<in> fst ` set ws"
      then obtain w where w: "w \<in> set ws" "fst w = j_request_id c" by force
      then obtain r where "r \<in> set (db_jobs d)" "j_request_id r = j_request_id c" "j_state r = Running"
        using W(3) [OF w(1)] by (auto simp: runs_job_def)
      then show False using job_row_unique [OF W(1) _ claimed(2)] q by force
    qed
    have ws: "set (bt_insert (job_request_id j) ?w ws) = insert (j_request_id c, ?w) (set ws)"
    proof -
      have "{p \<in> set ws. fst p \<noteq> j_request_id c} = set ws" using new by (auto simp: image_iff)
      then show ?thesis using set_bt_insert [OF W(2), of "j_request_id c" ?w] j(1) by simp
    qed
    have "runs_job d' v" if v: "v \<in> set ws" for v
    proof -
      obtain e where e: "e \<in> set (db_jobs d)" "j_request_id e = fst v" "j_state e = Running" "j_task_id e = job_task_id (wk_job (snd v))"
          "j_claim_generation e = uint (job_claim_generation (wk_job (snd v)))" "job_request_id (wk_job (snd v)) = fst v"
        using W(3) [OF v] by (auto simp: runs_job_def)
      have "e \<in> set (db_jobs d')" using e(1,3) q unfolding mem by auto
      then show ?thesis using e(2-6) unfolding runs_job_def by (intro conjI bexI [of _ e]) simp_all
    qed
    moreover have "runs_job d' (j_request_id c, ?w)"
      using j mem [of ?c] unfolding runs_job_def by (intro conjI bexI [of _ ?c]) (simp_all add: claim_job_row_def)
    moreover have "j_request_id r \<in> fst ` insert (j_request_id c, ?w) (set ws)" if "r \<in> set (db_jobs d')" "j_state r = Running" for r
      using that W(4) unfolding mem by (auto simp: claim_job_row_def)
    ultimately show ?thesis
      unfolding workers_ok_def ws using inv' bt_insert_ok [OF W(2)] by auto
  qed (use e in auto)
qed

lemma fill_effect:
  assumes "workers_ok [] (sd_workers s) d" "sd_results s = []" "fill_workers s d = (r, s', d')"
  shows "workers_ok [] (sd_workers s') d' \<and> sd_results s' = [] \<and> jobs_evolve d d' \<and>
    (r = Ok () \<longrightarrow> length (sd_workers s') = 4 \<or> (\<forall>q \<in> set (db_jobs d'). \<not> is_runnable (db_jobs d') q)) \<and>
    (claimable d \<longrightarrow> r = Ok ())"
  using assms
proof (induction s d rule: fill_workers.induct)
  case (1 s d)
  have le: "length (sd_workers s) \<le> 4" using workers_count [OF 1(2)] workers_okD(1) [OF 1(2)] by (simp add: jobs_inv_alt)
  have ok: "jobs_ok (db_jobs d)" using workers_okD(1) [OF 1(2)] by (simp add: jobs_inv_alt)
  note u = 1(4) [unfolded fill_workers.simps [of s d]]
  show ?case
  proof (cases "length (sd_workers s) < MAX_GLOBAL_RUNNING_JOBS")
    case False
    then show ?thesis using u 1(2,3) le by (auto simp: MAX_GLOBAL_RUNNING_JOBS_def jobs_evolve_same)
  next
    case True
    obtain ra da where c: "claim_next_runnable d = (ra, da)" by fastforce
    from ok c show ?thesis
    proof (cases rule: claim_next_runnable_cases)
      case idle
      then show ?thesis using u 1(2,3) True c workers_count [OF 1(2)] by (auto simp: MAX_GLOBAL_RUNNING_JOBS_def jobs_evolve_same)
    next
      case (failed e)
      then show ?thesis using u 1(2,3) True c claim_succeeds(1) [OF workers_okD(1) [OF 1(2)] _ c] by (auto simp: jobs_evolve_same)
    next
      case (claimed cr j)
      have e: "claim_next_runnable d = (Ok (Some j), da)" using c claimed(1) by simp
      note st = start_worker_ok [OF 1(2) e]
      have "workers_ok [] (sd_workers s') d' \<and> sd_results s' = [] \<and> jobs_evolve da d' \<and>
          (r = Ok () \<longrightarrow> length (sd_workers s') = 4 \<or> (\<forall>q \<in> set (db_jobs d'). \<not> is_runnable (db_jobs d') q)) \<and>
          (claimable da \<longrightarrow> r = Ok ())"
        by (rule 1(1) [OF True e [symmetric] refl refl]) (use u True e st(1) 1(3) in \<open>simp_all add: start_worker_def\<close>)
      then show ?thesis using jobs_evolve_trans [OF st(2)] claim_succeeds(2) [OF workers_okD(1) [OF 1(2)] _ e] by blast
    qed
  qed
qed

lemma tick_effect:
  assumes inv: "scheduler_inv s d" and t: "tick_scheduler s d = (r, s', d')"
  shows "scheduler_inv s' d'" "sd_results s' = []" "\<forall>o' \<in> set (sd_results s). acknowledged d' o'" "jobs_evolve d d'"
    "claimable d \<Longrightarrow> r = Ok ()" "r = Ok () \<Longrightarrow> length (sd_workers s') = 4 \<or> (\<forall>q \<in> set (db_jobs d'). \<not> is_runnable (db_jobs d') q)"
proof -
  obtain s1 d1 where dr: "drain_results (sd_results s) s d = (Ok (), s1, d1)" "sd_results s1 = []" "workers_ok [] (sd_workers s1) d1"
    "jobs_evolve d d1" "\<forall>r \<in> set (sd_results s). acknowledged d1 r" "claimable d \<longrightarrow> claimable d1"
    using drain_effect inv unfolding scheduler_inv_def by blast
  have f: "fill_workers s1 d1 = (r, s', d')" using t dr(1) by (simp add: tick_scheduler_def)
  note fe = fill_effect [OF dr(3,2) f]
  show "scheduler_inv s' d'" "sd_results s' = []" using fe by (simp_all add: scheduler_inv_def)
  show "jobs_evolve d d'" using fe dr(4) jobs_evolve_trans by blast
  show "claimable d \<Longrightarrow> r = Ok ()" using dr(6) fe by blast
  show "\<forall>o' \<in> set (sd_results s). acknowledged d' o'" using dr(5) fe acknowledged_evolve by blast
  show "r = Ok () \<Longrightarrow> length (sd_workers s') = 4 \<or> (\<forall>q \<in> set (db_jobs d'). \<not> is_runnable (db_jobs d') q)" using fe by blast
qed

section \<open>The scheduler and the rest of the host\<close>

text \<open>A run of the host: the store was opened, other threads work on tables other than the jobs, prompts are
  enqueued, worker threads send their result once, and the host ticks the scheduler.\<close>

inductive scheduler_reach :: "externals \<Rightarrow> scheduler \<Rightarrow> db \<Rightarrow> bool" for x where
  sched_open: "store_reachable x d0 \<Longrightarrow> open_store d0 = (Ok n, d) \<Longrightarrow> scheduler_reach x new_scheduler d"
| sched_store: "scheduler_reach x s d \<Longrightarrow> store_step x d e \<Longrightarrow> job_part e = job_part d \<Longrightarrow> scheduler_reach x s e"
| sched_enqueue: "scheduler_reach x s d \<Longrightarrow> enqueue_slot x catalog slot request prompt d = (r, e) \<Longrightarrow> scheduler_reach x s e"
| sched_result: "scheduler_reach x s d \<Longrightarrow> (q, w) \<in> set (sd_workers s) \<Longrightarrow> q \<notin> wr_request_id ` set (sd_results s) \<Longrightarrow>
    scheduler_reach x (s\<lparr>sd_results := sd_results s @
      [\<lparr> wr_request_id = q, wr_claim_generation = job_claim_generation (wk_job w), wr_result = outcome \<rparr>]\<rparr>) d"
| sched_tick: "scheduler_reach x s d \<Longrightarrow> tick_scheduler s d = (r, s', d') \<Longrightarrow> scheduler_reach x s' d'"

lemma workers_ok_enqueue:
  assumes inv: "workers_ok rs ws d" and e: "enqueue j d = (r, d')"
  shows "workers_ok rs ws d'"
proof -
  have "jobs_inv d'" using enqueue_inv [OF workers_okD(1) [OF inv], of j] e by simp
  with e inv show ?thesis
    by (cases rule: enqueue_cases) (auto simp: workers_ok_def runs_job_def)
qed

lemma enqueue_slot_ok:
  assumes "workers_ok rs ws d" "enqueue_slot x catalog slot request prompt d = (r, d')"
  shows "workers_ok rs ws d'"
proof (cases "\<exists>b task. resolve x catalog slot d = Ok (Some (b, task))")
  case True
  then show ?thesis using assms workers_ok_enqueue by (fastforce simp: enqueue_slot_def split: prod.splits)
next
  case False
  then have "d' = d" using assms(2) by (auto simp: enqueue_slot_def split: sum.splits option.splits)
  then show ?thesis using assms(1) by simp
qed

lemma opened_idle:
  assumes "jobs_inv d0" "open_store d0 = (Ok n, d)" "r \<in> set (db_jobs d)"
  shows "j_state r \<noteq> Running"
proof -
  obtain r1 d1 r2 d2 r3 d3 where e: "recover_interrupted_jobs d0 = (r1, d1)"
      "recover_interrupted_summaries d1 = (r2, d2)" "recover_interrupted_playback_leases d2 = (r3, d3)"
    by (meson surj_pair)
  have "job_part d2 = job_part d1" "job_part d3 = job_part d2" using recover_frame(4) [of d1] recover_frame(6) [of d2] e by simp_all
  moreover have "d = d3" "\<exists>m. r1 = Ok m" using assms(2) e by (auto simp: open_store_def split: sum.splits)
  ultimately have "db_jobs d = db_jobs d1" "\<exists>m. r1 = Ok m" by (auto simp: job_part_def)
  then have "db_jobs d = update_where is_running requeue_row (db_jobs d0)"
    using e(1) by (auto simp: recover_jobs_result split: if_splits)
  then show ?thesis using assms(3) by (auto simp: set_update_where is_running_def requeue_row_def)
qed

lemma scheduler_reach_inv: "scheduler_reach x s d \<Longrightarrow> scheduler_inv s d"
proof (induction rule: scheduler_reach.induct)
  case (sched_open d0 n d)
  have j0: "jobs_inv d0" using sched_open(1) by (rule queue.reachable_holds)
  have "jobs_inv d" using open_store_jobs_inv [OF j0] sched_open(2) by simp
  then show ?case
    using opened_idle [OF j0 sched_open(2)] by (auto simp: scheduler_inv_def workers_ok_def new_scheduler_def bt_ok_def)
next
  case (sched_store s d e)
  have "jobs_inv e" using sched_store by (auto intro: jobs_inv_step simp: scheduler_inv_def workers_ok_def)
  then show ?case using sched_store(4,3) by (simp add: scheduler_inv_def workers_ok_def runs_job_def job_part_def)
next
  case (sched_enqueue s d catalog slot request prompt r e)
  then show ?case using enqueue_slot_ok by (auto simp: scheduler_inv_def)
next
  case (sched_result s d q w outcome)
  then show ?case by (auto simp: scheduler_inv_def workers_ok_def intro: bexI [of _ "(q, w)"])
next
  case (sched_tick s d r s' d')
  then show ?case using tick_effect(1) by blast
qed

section \<open>Properties\<close>

text \<open>C8: in every reachable state of the scheduler and the job table, whatever the workers report and
  whenever the host enqueues, the worker threads are exactly the running jobs: one worker for each running
  row, for its request, its task and the claim generation of the row; at most four; no two for one task; and
  the results that wait to be acknowledged come from different workers.\<close>

theorem scheduler_matches_store:
  assumes "scheduler_reach x s d"
  shows "fst ` set (sd_workers s) = j_request_id ` {r \<in> set (db_jobs d). j_state r = Running} \<and>
    in_flight_jobs s \<le> 4 \<and> distinct (map (\<lambda>(_, w). job_task_id (wk_job w)) (sd_workers s)) \<and>
    (\<forall>(q, w) \<in> set (sd_workers s). \<exists>r \<in> set (db_jobs d). j_request_id r = q \<and> job_request_id (wk_job w) = q \<and>
       j_state r = Running \<and> j_task_id r = job_task_id (wk_job w) \<and> j_claim_generation r = uint (job_claim_generation (wk_job w))) \<and>
    distinct (map wr_request_id (sd_results s)) \<and> wr_request_id ` set (sd_results s) \<subseteq> fst ` set (sd_workers s)"
proof -
  have inv: "workers_ok (sd_results s) (sd_workers s) d" using scheduler_reach_inv [OF assms] by (simp add: scheduler_inv_def)
  note W = workers_okD [OF inv]
  have keys: "fst ` set (sd_workers s) = j_request_id ` {r \<in> set (db_jobs d). j_state r = Running}"
  proof (intro equalityI subsetI)
    fix i assume "i \<in> fst ` set (sd_workers s)"
    then obtain w where "w \<in> set (sd_workers s)" "i = fst w" by blast
    then show "i \<in> j_request_id ` {r \<in> set (db_jobs d). j_state r = Running}"
      using W(3) [of w] by (force simp: runs_job_def)
  qed (use W(4) in auto)
  moreover have "in_flight_jobs s \<le> 4" using workers_count [OF inv] W(1) by (simp add: in_flight_jobs_def jobs_inv_alt)
  moreover have "distinct (map (\<lambda>(_, w). job_task_id (wk_job w)) (sd_workers s))"
  proof -
    have "v = w" if vw: "v \<in> set (sd_workers s)" "w \<in> set (sd_workers s)"
      "job_task_id (wk_job (snd v)) = job_task_id (wk_job (snd w))" for v w
    proof -
      obtain a b where ab: "a \<in> set (db_jobs d)" "j_request_id a = fst v" "runs (job_task_id (wk_job (snd v))) a"
        "b \<in> set (db_jobs d)" "j_request_id b = fst w" "runs (job_task_id (wk_job (snd v))) b"
        using W(3) [OF vw(1)] W(3) [OF vw(2)] vw(3) by (auto simp: runs_job_def runs_def)
      then have "fst v = fst w" using running_unique [OF W(1) ab(3,6,1,4)] by simp
      then show ?thesis using bt_ok_distinct [OF W(2)] vw by (metis eq_key_imp_eq_value prod.collapse)
    qed
    then show ?thesis
      using bt_ok_distinct [OF W(2)] by (auto simp: distinct_map inj_on_def case_prod_beta)
  qed
  moreover have "\<forall>(q, w) \<in> set (sd_workers s). \<exists>r \<in> set (db_jobs d). j_request_id r = q \<and> job_request_id (wk_job w) = q \<and>
       j_state r = Running \<and> j_task_id r = job_task_id (wk_job w) \<and> j_claim_generation r = uint (job_claim_generation (wk_job w))"
    using W(3) by (fastforce simp: runs_job_def)
  moreover have "wr_request_id ` set (sd_results s) \<subseteq> fst ` set (sd_workers s)" using W(6) by force
  ultimately show ?thesis using W(5) by blast
qed

text \<open>C12: a tick of the scheduler ends, and while no claim counter is exhausted it succeeds: afterwards
  every result that had arrived is recorded in the job table as the worker reported it, none is left over,
  and the scheduler is busy - four workers run, or no task has a job that could run.\<close>

theorem tick_acknowledges_and_fills:
  assumes "scheduler_reach x s d" "\<forall>r \<in> set (db_jobs d). j_claim_generation r < i64_max"
  shows "\<exists>s' d'. tick_scheduler s d = (Ok (), s', d') \<and> sd_results s' = [] \<and>
    (\<forall>r \<in> set (sd_results s). \<exists>row \<in> set (db_jobs d'). j_request_id row = wr_request_id r \<and>
       (case wr_result r of Inr _ \<Rightarrow> j_state row = Completed
        | Inl f \<Rightarrow> j_state row = Failed \<and> j_failure_kind row = Some (failure_str f))) \<and>
    (in_flight_jobs s' = 4 \<or> (\<forall>q \<in> set (db_jobs d'). j_state q = Queued \<longrightarrow>
       (\<exists>r \<in> set (db_jobs d'). j_task_id r = j_task_id q \<and> j_state r = Running)))"
proof -
  obtain r s' d' where t: "tick_scheduler s d = (r, s', d')" by (metis prod_cases3)
  note te = tick_effect [OF scheduler_reach_inv [OF assms(1)] t]
  have "claimable d" using assms(2) by (simp add: claimable_def)
  then have r: "r = Ok ()" using te(5) by blast
  have "in_flight_jobs s' = 4 \<or> (\<forall>q \<in> set (db_jobs d'). j_state q = Queued \<longrightarrow>
       (\<exists>r \<in> set (db_jobs d'). j_task_id r = j_task_id q \<and> j_state r = Running))"
    using te(6) [OF r] runnable_exists unfolding in_flight_jobs_def by metis
  then show ?thesis using t r te(2,3) by (auto simp: acknowledged_def)
qed

section \<open>A concrete run\<close>

definition demo_codex_task :: codex_task where
  "demo_codex_task = \<lparr> ct_task_id = ''t'', ct_name = ''n'', ct_project = ''p'', ct_cwd = [0x2F, 0x77], ct_rollout_path = [0x2F, 0x72],
     ct_updated_at_ms = 5, ct_pinned = False \<rparr>"

definition demo_slots :: db where
  "demo_slots = snd (set_binding 1 None ''t'' empty_db)"

definition demo_prompted :: db where
  "demo_prompted = snd (enqueue_slot demo_externals (Ok [demo_codex_task]) 1 ''r1'' ''run'' (snd (open_store demo_slots)))"

definition demo_started :: "scheduler \<times> db" where
  "demo_started = snd (tick_scheduler new_scheduler demo_prompted)"

definition demo_reported :: scheduler where
  "demo_reported = (fst demo_started)\<lparr>sd_results := [\<lparr> wr_request_id = ''r1'', wr_claim_generation = 1, wr_result = Ok () \<rparr>]\<rparr>"

lemma demo_started_eval:
  "map fst (sd_workers (fst demo_started)) = [''r1'']"
  "map (\<lambda>(q, w). job_claim_generation (wk_job w)) (sd_workers (fst demo_started)) = [1]"
  "sd_results (fst demo_started) = []" "map j_claim_generation (db_jobs (snd demo_started)) = [1]"
  by code_simp+

lemma demo_started_reach: "scheduler_reach demo_externals (fst demo_started) (snd demo_started)"
proof -
  have o: "open_store demo_slots = (Ok (0, 0), snd (open_store demo_slots))" by code_simp
  have "store_reachable demo_externals demo_slots"
    unfolding store_reachable_def demo_slots_def by (rule steps_step [OF steps_refl binding_step])
  then have "scheduler_reach demo_externals new_scheduler (snd (open_store demo_slots))" using o by (rule sched_open)
  then have "scheduler_reach demo_externals new_scheduler demo_prompted"
    unfolding demo_prompted_def by (rule sched_enqueue) (rule prod.collapse [symmetric])
  then show ?thesis unfolding demo_started_def
    by (rule sched_tick [where r = "fst (tick_scheduler new_scheduler demo_prompted)"]) simp
qed

lemma demo_reported_reach: "scheduler_reach demo_externals demo_reported (snd demo_started)"
proof -
  obtain w where w: "(''r1'', w) \<in> set (sd_workers (fst demo_started))" "job_claim_generation (wk_job w) = 1"
    using demo_started_eval(1,2) by (cases "sd_workers (fst demo_started)") auto
  show ?thesis
    using sched_result [OF demo_started_reach w(1), of "Ok ()"] w(2) demo_started_eval(3) by (simp add: demo_reported_def)
qed

theorem scheduler_matches_store_witness:
  "fst ` set (sd_workers demo_reported) = {''r1''} \<and> in_flight_jobs demo_reported \<le> 4 \<and>
   j_request_id ` {r \<in> set (db_jobs (snd demo_started)). j_state r = Running} = {''r1''}"
proof -
  have "fst ` set (sd_workers demo_reported) = set (map fst (sd_workers (fst demo_started)))" by (simp add: demo_reported_def)
  then have "fst ` set (sd_workers demo_reported) = {''r1''}" using demo_started_eval(1) by simp
  then show ?thesis using scheduler_matches_store [OF demo_reported_reach] by auto
qed

theorem tick_acknowledges_and_fills_witness:
  "\<exists>s' d'. tick_scheduler demo_reported (snd demo_started) = (Ok (), s', d') \<and> sd_results s' = [] \<and>
     list_ex (\<lambda>row. j_request_id row = ''r1'' \<and> j_state row = Completed) (db_jobs d')"
proof -
  have "\<forall>r \<in> set (db_jobs (snd demo_started)). j_claim_generation r < i64_max"
    using demo_started_eval(4) by (auto simp: i64_max_def)
  from tick_acknowledges_and_fills [OF demo_reported_reach this] show ?thesis
    by (auto simp: demo_reported_def list_ex_iff)
qed

end
