(* ===== verification/Cache_Objects.thy ===== *)
theory Cache_Objects
  imports Cache_Ids
begin

text \<open>
  The encrypted objects of the summary cache (\<open>app/host/src/cache.rs\<close>): limits, the 48 byte
  header, the associated data, key derivation, encryption and decryption. HKDF and AES-GCM are
  parameters; the lemmas show that a header and an object decode to what was encoded.
\<close>

section \<open>Errors, limits and objects\<close>

datatype io_error = NotFound | AlreadyExists | OtherIo

datatype cache_error =
    CacheIo io_error
  | CacheRef cache_ref_error
  | InvalidKey
  | ObjectTooLarge
  | GenerationTooLarge
  | CapacityExceeded
  | CacheAlreadyPublished
  | AlreadyOpen
  | MissingObject
  | MissingReference
  | Corrupt
  | Crypto
  | LockUnavailable

definition HEADER_BYTES :: nat where "HEADER_BYTES = 48"
definition TAG_BYTES :: nat where "TAG_BYTES = 16"
definition CACHE_MAGIC :: "u8 list" where "CACHE_MAGIC = [69, 67, 73, 67, 65, 67, 72, 69]"
definition CACHE_VERSION :: u8 where "CACHE_VERSION = 1"
definition TEMP_PREFIX :: string where "TEMP_PREFIX = ''.tmp-''"
definition CACHE_LOCK_FILE :: string where "CACHE_LOCK_FILE = ''.cache.lock''"
definition KEY_MARKER_FILE :: string where "KEY_MARKER_FILE = ''.key-check.enc''"
definition KEY_MARKER_PLAINTEXT_BYTES :: nat where "KEY_MARKER_PLAINTEXT_BYTES = 29"
definition MAX_GENERATION_PLAINTEXT_BYTES :: nat where "MAX_GENERATION_PLAINTEXT_BYTES = 32 * 1024 * 1024"
definition MAX_MANIFEST_BYTES :: nat where "MAX_MANIFEST_BYTES = 1024 * 1024"
definition MAX_AUDIO_OBJECT_BYTES :: nat where "MAX_AUDIO_OBJECT_BYTES = 16 * 1024 * 1024"

lemmas cache_consts = HEADER_BYTES_def TAG_BYTES_def CACHE_MAGIC_def CACHE_VERSION_def TEMP_PREFIX_def
  CACHE_LOCK_FILE_def KEY_MARKER_FILE_def KEY_MARKER_PLAINTEXT_BYTES_def MAX_GENERATION_PLAINTEXT_BYTES_def
  MAX_MANIFEST_BYTES_def MAX_AUDIO_OBJECT_BYTES_def

datatype object_kind = KeyCheck | Manifest | QwenWav | DeviceEiad

definition ALL_KINDS :: "object_kind list" where
  "ALL_KINDS = [Manifest, QwenWav, DeviceEiad]"

fun file_name :: "object_kind \<Rightarrow> string" where
  "file_name KeyCheck = KEY_MARKER_FILE"
| "file_name Manifest = ''manifest.json.enc''"
| "file_name QwenWav = ''qwen.wav.enc''"
| "file_name DeviceEiad = ''device.eiad.enc''"

fun kind_byte :: "object_kind \<Rightarrow> u8" where
  "kind_byte KeyCheck = 0"
| "kind_byte Manifest = 1"
| "kind_byte QwenWav = 2"
| "kind_byte DeviceEiad = 3"

fun max_plaintext_bytes :: "object_kind \<Rightarrow> nat" where
  "max_plaintext_bytes KeyCheck = KEY_MARKER_PLAINTEXT_BYTES"
| "max_plaintext_bytes Manifest = MAX_MANIFEST_BYTES"
| "max_plaintext_bytes QwenWav = MAX_AUDIO_OBJECT_BYTES"
| "max_plaintext_bytes DeviceEiad = MAX_AUDIO_OBJECT_BYTES"

record cache_bundle =
  cb_manifest_json :: "u8 list"
  cb_qwen_wav :: "u8 list"
  cb_device_eiad :: "u8 list"

record cache_limits =
  max_total_bytes :: nat
  max_generations :: nat

definition default_limits :: cache_limits where
  "default_limits = \<lparr> max_total_bytes = 512 * 1024 * 1024, max_generations = 512 \<rparr>"

text \<open>Lengths are those of byte vectors, so the additions are those of \<open>u64\<close>.\<close>

definition checked_add :: "nat \<Rightarrow> nat \<Rightarrow> nat option" where
  "checked_add a b = (if a + b < 2 ^ 64 then Some (a + b) else None)"

definition too_large :: "object_kind \<times> u8 list \<Rightarrow> bool" where
  "too_large kv \<longleftrightarrow> max_plaintext_bytes (fst kv) < length (snd kv)"

definition validate_bundle :: "cache_bundle \<Rightarrow> cache_error + unit" where
  "validate_bundle b =
     (if list_ex too_large
           [(Manifest, cb_manifest_json b), (QwenWav, cb_qwen_wav b), (DeviceEiad, cb_device_eiad b)]
      then Err ObjectTooLarge
      else and_then (ok_or GenerationTooLarge
             (Option.bind (checked_add (length (cb_manifest_json b)) (length (cb_qwen_wav b)))
               (\<lambda>v. checked_add v (length (cb_device_eiad b)))))
             (\<lambda>total. if MAX_GENERATION_PLAINTEXT_BYTES < total then Err GenerationTooLarge else Ok ()))"

definition encoded_bundle_bytes :: "cache_bundle \<Rightarrow> cache_error + nat" where
  "encoded_bundle_bytes b =
     ok_or CapacityExceeded
       (Option.bind (checked_add (length (cb_manifest_json b)) (length (cb_qwen_wav b)))
         (\<lambda>v. Option.bind (checked_add v (length (cb_device_eiad b)))
         (\<lambda>v. checked_add v ((HEADER_BYTES + TAG_BYTES) * length ALL_KINDS))))"

section \<open>Encrypted objects\<close>

text \<open>
  The libraries the cache calls: HKDF with SHA-256 (\<open>hkdf salt key info\<close> is the 32 byte
  output), AES-256-GCM with the tag appended to the ciphertext, the operating system's random
  numbers and the UUID generator (both indexed by the number of earlier draws) and the UUID parser.
\<close>

type_synonym bytes12 = "96 word"

record cache_lib =
  hkdf :: "u8 list \<Rightarrow> bytes32 \<Rightarrow> u8 list \<Rightarrow> bytes32"
  gcm_encrypt :: "bytes32 \<Rightarrow> u8 list \<Rightarrow> u8 list \<Rightarrow> u8 list \<Rightarrow> u8 list option"
  gcm_decrypt :: "bytes32 \<Rightarrow> u8 list \<Rightarrow> u8 list \<Rightarrow> u8 list \<Rightarrow> u8 list option"
  random_salt :: "nat \<Rightarrow> bytes16"
  random_nonce :: "nat \<Rightarrow> bytes12"
  new_uuid :: "nat \<Rightarrow> string"
  uuid_parses :: "string \<Rightarrow> bool"

text \<open>What the cipher promises: decryption undoes encryption, and the tag has sixteen bytes.\<close>

definition gcm_correct :: "cache_lib \<Rightarrow> bool" where
  "gcm_correct lib \<longleftrightarrow>
     (\<forall>k n a m c. gcm_encrypt lib k n a m = Some c \<longrightarrow>
        gcm_decrypt lib k n a c = Some m \<and> length c = length m + TAG_BYTES)"

definition bytes_of_12 :: "bytes12 \<Rightarrow> u8 list" where
  "bytes_of_12 w = nat_le 12 (unat w)"

definition to_bytes12 :: "u8 list \<Rightarrow> bytes12" where
  "to_bytes12 bs = of_nat (le_nat bs)"

definition to_be_bytes :: "u64 \<Rightarrow> u8 list" where
  "to_be_bytes v = rev (nat_le 8 (unat v))"

definition from_be_bytes :: "u8 list \<Rightarrow> u64" where
  "from_be_bytes bs = of_nat (le_nat (rev bs))"

definition encode_header :: "object_kind \<Rightarrow> u64 \<Rightarrow> bytes16 \<Rightarrow> bytes12 \<Rightarrow> u8 list" where
  "encode_header kind plaintext_bytes salt nonce =
     (let header = replicate HEADER_BYTES 0;
          header = blit 0 CACHE_MAGIC header;
          header = header[8 := CACHE_VERSION];
          header = header[9 := kind_byte kind];
          header = blit 12 (to_be_bytes plaintext_bytes) header;
          header = blit 20 (bytes_of_16 salt) header
      in blit 36 (bytes_of_12 nonce) header)"

definition decode_header :: "u8 list \<Rightarrow> cache_error + (object_kind \<times> u64 \<times> bytes16 \<times> bytes12)" where
  "decode_header header =
     (if slice 0 8 header \<noteq> CACHE_MAGIC \<or> header ! 8 \<noteq> CACHE_VERSION \<or> header ! 10 \<noteq> 0 \<or> header ! 11 \<noteq> 0
      then Err Corrupt
      else and_then
        (if header ! 9 = 0 then Ok KeyCheck else if header ! 9 = 1 then Ok Manifest
         else if header ! 9 = 2 then Ok QwenWav else if header ! 9 = 3 then Ok DeviceEiad else Err Corrupt)
        (\<lambda>kind. Ok (kind, from_be_bytes (slice 12 20 header), to_bytes16 (slice 20 36 header),
                  to_bytes12 (slice 36 48 header))))"

definition object_aad :: "u8 list \<Rightarrow> cache_id \<Rightarrow> u8 list" where
  "object_aad header i = header @ bytes_of_32 (ci_task_hash i) @ to_be_bytes (ci_generation i)"

definition object_key_info :: "u8 list" where
  "object_key_info = map of_char ''easy-codex-input/cache/object-key/v1''"

definition derive_object_key :: "cache_lib \<Rightarrow> bytes32 \<Rightarrow> cache_id \<Rightarrow> object_kind \<Rightarrow> bytes16 \<Rightarrow> bytes32" where
  "derive_object_key lib root_key i kind salt =
     (let info = object_key_info @ bytes_of_32 (ci_task_hash i) @ to_be_bytes (ci_generation i) @ [kind_byte kind]
      in hkdf lib (bytes_of_16 salt) root_key info)"

definition encrypt_object ::
  "cache_lib \<Rightarrow> bytes32 \<Rightarrow> cache_id \<Rightarrow> object_kind \<Rightarrow> bytes16 \<Rightarrow> bytes12 \<Rightarrow> u8 list \<Rightarrow> cache_error + u8 list" where
  "encrypt_object lib root_key i kind salt nonce plaintext =
     (let header = encode_header kind (of_nat (length plaintext)) salt nonce;
          aad = object_aad header i;
          object_key = derive_object_key lib root_key i kind salt
      in and_then (ok_or Crypto (gcm_encrypt lib object_key (bytes_of_12 nonce) aad plaintext))
           (\<lambda>ciphertext. Ok (header @ ciphertext)))"

definition decrypt_object ::
  "cache_lib \<Rightarrow> bytes32 \<Rightarrow> cache_id \<Rightarrow> object_kind \<Rightarrow> u8 list \<Rightarrow> cache_error + u8 list" where
  "decrypt_object lib root_key i expected_kind encoded =
     (if length encoded < HEADER_BYTES + TAG_BYTES then Err Corrupt
      else let header = take HEADER_BYTES encoded in
        and_then (decode_header header) (\<lambda>(kind, plaintext_bytes, salt, nonce).
          if kind \<noteq> expected_kind \<or> max_plaintext_bytes expected_kind < unat plaintext_bytes then Err Corrupt
          else and_then (ok_or Corrupt (Option.bind (checked_add HEADER_BYTES (unat plaintext_bytes))
                 (\<lambda>v. checked_add v TAG_BYTES))) (\<lambda>expected_encoded.
            if length encoded \<noteq> expected_encoded then Err Corrupt
            else let aad = object_aad header i;
                     object_key = derive_object_key lib root_key i kind salt
              in and_then (ok_or Corrupt (gcm_decrypt lib object_key (bytes_of_12 nonce) aad (drop HEADER_BYTES encoded)))
                   (\<lambda>plaintext. if length plaintext \<noteq> unat plaintext_bytes then Err Corrupt else Ok plaintext))))"

section \<open>Lemmas on objects\<close>

lemma length_to_be_bytes [simp, bytes_simps]: "length (to_be_bytes v) = 8"
  by (simp add: to_be_bytes_def)

lemma length_bytes_of_12 [simp, bytes_simps]: "length (bytes_of_12 w) = 12"
  by (simp add: bytes_of_12_def)

lemma from_be_to_be [simp]: "from_be_bytes (to_be_bytes v) = v"
  by (simp add: from_be_bytes_def to_be_bytes_def)

lemma to_bytes12_bytes_of_12 [simp]: "to_bytes12 (bytes_of_12 w) = w"
  using unsigned_less [of w, where ?'a = nat] by (simp add: to_bytes12_def bytes_of_12_def le_nat_nat_le)

lemma length_CACHE_MAGIC [simp, bytes_simps]: "length CACHE_MAGIC = 8"
  by (simp add: CACHE_MAGIC_def)

lemma length_encode_header [simp]: "length (encode_header kind n salt nonce) = HEADER_BYTES"
  by (simp add: encode_header_def Let_def bytes_simps HEADER_BYTES_def)

lemma decode_encode_header:
  "decode_header (encode_header kind n salt nonce) = Ok (kind, n, salt, nonce)"
proof -
  have n48: "HEADER_BYTES = 48" by (simp add: HEADER_BYTES_def)
  show ?thesis
    by (cases kind)
       (simp_all add: decode_header_def encode_header_def Let_def bytes_simps n48)
qed

lemma kind_byte_inj [simp]: "kind_byte a = kind_byte b \<longleftrightarrow> a = b"
  by (cases a; cases b) simp_all

lemma file_name_inj [simp]: "file_name a = file_name b \<longleftrightarrow> a = b"
  by (cases a; cases b) (simp_all add: KEY_MARKER_FILE_def)

lemma kind_bounded: "max_plaintext_bytes kind \<le> 16777216"
  by (cases kind) (simp_all add: cache_consts)

lemma decrypt_encrypt_object:
  assumes lib: "gcm_correct lib" and enc: "encrypt_object lib key i kind salt nonce m = Ok c"
    and len: "length m \<le> max_plaintext_bytes kind"
  shows "decrypt_object lib key i kind c = Ok m" "length c = HEADER_BYTES + length m + TAG_BYTES"
proof -
  define header where "header = encode_header kind (of_nat (length m)) salt nonce"
  define k where "k = derive_object_key lib key i kind salt"
  obtain ct where ct: "gcm_encrypt lib k (bytes_of_12 nonce) (object_aad header i) m = Some ct" "c = header @ ct"
    using enc by (auto simp: encrypt_object_def Let_def and_then_Ok_iff header_def k_def ok_or_def split: option.splits)
  have g: "gcm_decrypt lib k (bytes_of_12 nonce) (object_aad header i) ct = Some m" "length ct = length m + TAG_BYTES"
    using lib ct(1) by (auto simp: gcm_correct_def)
  have hl: "length header = HEADER_BYTES" by (simp add: header_def)
  have u: "unat (of_nat (length m) :: u64) = length m"
    using len kind_bounded [of kind] by (simp add: unat_of_nat)
  have d: "decode_header header = Ok (kind, of_nat (length m), salt, nonce)"
    by (simp add: header_def decode_encode_header)
  have ca: "checked_add HEADER_BYTES (length m) = Some (HEADER_BYTES + length m)"
    "checked_add (HEADER_BYTES + length m) TAG_BYTES = Some (HEADER_BYTES + length m + TAG_BYTES)"
    using len kind_bounded [of kind] by (simp_all add: checked_add_def cache_consts)
  show "length c = HEADER_BYTES + length m + TAG_BYTES" using ct hl g by simp
  show "decrypt_object lib key i kind c = Ok m"
    using ct hl g d len ca by (simp add: decrypt_object_def Let_def u k_def)
qed

lemma decrypt_object_Ok:
  assumes "decrypt_object lib key i kind c = Ok m"
  shows "length c = HEADER_BYTES + length m + TAG_BYTES" "length m \<le> max_plaintext_bytes kind"
  using assms
  by (auto simp: decrypt_object_def Let_def and_then_Ok_iff checked_add_def ok_or_def split: if_splits option.splits prod.splits)

end
