(* ===== verification/Cache_Disk.thy ===== *)
theory Cache_Disk
  imports Cache_Objects
begin

text \<open>
  The directory tree of the summary cache and the operations of \<open>app/host/src/cache.rs\<close> on it
  (the Unix variants): every system call may fail, and a ghost history holds all intermediate trees.
\<close>

section \<open>The file system\<close>

text \<open>
  The tree below the cache directory. A directory lists its entries in the order in which
  \<open>readdir\<close> reports them; \<open>Link\<close> is any entry that is neither a regular file nor a directory.
  System calls may fail: \<open>dk_plan\<close> holds the outcome of the coming calls (\<open>None\<close> is success,
  and so is the end of the list), chosen by the environment; the number that comes with a
  failure says how many bytes a failing write had stored, and distinguishes a failing call from
  an untrusted owner or mode where the code checks these. \<open>dk_draws\<close> counts the random draws. \<open>dk_history\<close>
  is a ghost: every tree that existed so far, so that a crash at any moment leaves one of them.
\<close>

datatype disk_node = File "u8 list" | Dir "(string \<times> disk_node) list" | Link

type_synonym entries = "(string \<times> disk_node) list"

record disk =
  dk_root :: entries
  dk_plan :: "nat option list"
  dk_draws :: nat
  dk_history :: "entries list"

type_synonym 'a io = "disk \<Rightarrow> (cache_error + 'a) \<times> disk"

definition io_return :: "'a \<Rightarrow> 'a io" where
  "io_return x s = (Ok x, s)"

definition io_fail :: "cache_error \<Rightarrow> 'a io" where
  "io_fail e s = (Err e, s)"

definition io_bind :: "'a io \<Rightarrow> ('a \<Rightarrow> 'b io) \<Rightarrow> 'b io" where
  "io_bind m f s = (case m s of (Inl e, s') \<Rightarrow> (Inl e, s') | (Inr x, s') \<Rightarrow> f x s')"

definition io_of :: "cache_error + 'a \<Rightarrow> 'a io" where
  "io_of r s = (r, s)"

text \<open>\<open>let _ = m\<close>.\<close>

definition io_ignore :: "'a io \<Rightarrow> unit io" where
  "io_ignore m s = (Ok (), snd (m s))"

definition syscall :: "nat option io" where
  "syscall s = (case dk_plan s of [] \<Rightarrow> (Ok None, s) | f # fs \<Rightarrow> (Ok f, s\<lparr>dk_plan := fs\<rparr>))"

definition call :: "unit io" where
  "call = io_bind syscall (\<lambda>f. case f of None \<Rightarrow> io_return () | Some _ \<Rightarrow> io_fail (CacheIo OtherIo))"

text \<open>\<open>metadata()?\<close> followed by \<open>validate_directory\<close> or \<open>validate_file\<close>.\<close>

definition check_metadata :: "unit io" where
  "check_metadata =
     io_bind syscall (\<lambda>f. case f of None \<Rightarrow> io_return () | Some 0 \<Rightarrow> io_fail (CacheIo OtherIo) | Some (Suc _) \<Rightarrow> io_fail Corrupt)"

definition draw :: "nat io" where
  "draw s = (Ok (dk_draws s), s\<lparr>dk_draws := Suc (dk_draws s)\<rparr>)"

fun dir_at :: "entries \<Rightarrow> string list \<Rightarrow> entries option" where
  "dir_at es [] = Some es"
| "dir_at es (n # p) = (case map_of es n of Some (Dir es') \<Rightarrow> dir_at es' p | _ \<Rightarrow> None)"

fun change_dir :: "(entries \<Rightarrow> entries) \<Rightarrow> string list \<Rightarrow> entries \<Rightarrow> entries" where
  "change_dir f [] es = f es"
| "change_dir f (n # p) es =
     map (\<lambda>(m, x). (m, if m = n then case x of Dir es' \<Rightarrow> Dir (change_dir f p es') | _ \<Rightarrow> x else x)) es"

definition entries_at :: "string list \<Rightarrow> entries io" where
  "entries_at p s = (case dir_at (dk_root s) p of None \<Rightarrow> (Err (CacheIo NotFound), s) | Some es \<Rightarrow> (Ok es, s))"

definition modify :: "string list \<Rightarrow> (entries \<Rightarrow> entries) \<Rightarrow> unit io" where
  "modify p f s =
     (let r = change_dir f p (dk_root s) in (Ok (), s\<lparr>dk_root := r, dk_history := r # dk_history s\<rparr>))"

section \<open>System calls and helpers\<close>

text \<open>An open directory is named by its path: the process lock keeps other processes away.\<close>

definition open_directory_at :: "string list \<Rightarrow> string \<Rightarrow> (string list) io" where
  "open_directory_at p n =
     io_bind call (\<lambda>_. io_bind (entries_at p) (\<lambda>es.
       case map_of es n of
         None \<Rightarrow> io_fail (CacheIo NotFound)
       | Some (Dir _) \<Rightarrow> io_return (p @ [n])
       | Some _ \<Rightarrow> io_fail (CacheIo OtherIo)))"

definition directory_names :: "string list \<Rightarrow> (string list) io" where
  "directory_names p = io_bind call (\<lambda>_. io_bind (entries_at p) (\<lambda>es. io_return (map fst es)))"

definition open_file_at :: "string list \<Rightarrow> string \<Rightarrow> disk_node io" where
  "open_file_at p n =
     io_bind call (\<lambda>_. io_bind (entries_at p) (\<lambda>es.
       case map_of es n of
         None \<Rightarrow> io_fail (CacheIo NotFound)
       | Some Link \<Rightarrow> io_fail (CacheIo OtherIo)
       | Some x \<Rightarrow> io_return x))"

definition file_length :: "disk_node \<Rightarrow> nat io" where
  "file_length x = io_bind check_metadata (\<lambda>_. case x of File b \<Rightarrow> io_return (length b) | _ \<Rightarrow> io_fail Corrupt)"

definition read_to_end :: "disk_node \<Rightarrow> (u8 list) io" where
  "read_to_end x = io_bind call (\<lambda>_. case x of File b \<Rightarrow> io_return b | _ \<Rightarrow> io_fail (CacheIo OtherIo))"

definition sync_directory :: "string list \<Rightarrow> unit io" where
  "sync_directory p = call"

definition entry_exists :: "string list \<Rightarrow> string \<Rightarrow> bool io" where
  "entry_exists p n = io_bind call (\<lambda>_. io_bind (entries_at p) (\<lambda>es. io_return (map_of es n \<noteq> None)))"

definition entry_regular :: "string list \<Rightarrow> string \<Rightarrow> bool io" where
  "entry_regular p n =
     io_bind call (\<lambda>_. io_bind (entries_at p) (\<lambda>es.
       case map_of es n of None \<Rightarrow> io_fail (CacheIo NotFound) | Some x \<Rightarrow>
         io_bind syscall (\<lambda>f. io_return ((case x of File _ \<Rightarrow> True | _ \<Rightarrow> False) \<and> f = None))))"

definition unlink_file_at :: "string list \<Rightarrow> string \<Rightarrow> unit io" where
  "unlink_file_at p n =
     io_bind call (\<lambda>_. io_bind (entries_at p) (\<lambda>es.
       case map_of es n of
         None \<Rightarrow> io_fail (CacheIo NotFound)
       | Some (Dir _) \<Rightarrow> io_fail (CacheIo OtherIo)
       | Some _ \<Rightarrow> modify p (filter (\<lambda>e. fst e \<noteq> n))))"

definition remove_directory_at :: "string list \<Rightarrow> string \<Rightarrow> unit io" where
  "remove_directory_at p n =
     io_bind call (\<lambda>_. io_bind (entries_at p) (\<lambda>es.
       case map_of es n of
         None \<Rightarrow> io_fail (CacheIo NotFound)
       | Some (Dir []) \<Rightarrow> modify p (filter (\<lambda>e. fst e \<noteq> n))
       | Some _ \<Rightarrow> io_fail (CacheIo OtherIo)))"

definition create_directory_at :: "string list \<Rightarrow> string \<Rightarrow> (string list) io" where
  "create_directory_at p n =
     io_bind call (\<lambda>_. io_bind (entries_at p) (\<lambda>es.
       if map_of es n \<noteq> None then io_fail (CacheIo AlreadyExists)
       else io_bind (modify p (\<lambda>es. es @ [(n, Dir [])])) (\<lambda>_.
         io_bind syscall (\<lambda>chmod.
           if chmod \<noteq> None then io_bind (io_ignore (remove_directory_at p n)) (\<lambda>_. io_fail (CacheIo OtherIo))
           else io_bind (open_directory_at p n) (\<lambda>directory.
                io_bind call (\<lambda>_. io_bind check_metadata (\<lambda>_. io_return directory)))))))"

definition open_or_create_directory_at :: "string list \<Rightarrow> string \<Rightarrow> (string list \<times> bool) io" where
  "open_or_create_directory_at p n s =
     (case open_directory_at p n s of
        (Inr directory, s') \<Rightarrow> io_bind check_metadata (\<lambda>_. io_return (directory, False)) s'
      | (Inl e, s') \<Rightarrow>
          if e = CacheIo NotFound
          then io_bind (create_directory_at p n) (\<lambda>directory. io_return (directory, True)) s'
          else (Inl e, s'))"

text \<open>A file is created empty, then receives its mode, its contents and is flushed.\<close>

definition write_create_only_file :: "string list \<Rightarrow> string \<Rightarrow> u8 list \<Rightarrow> unit io" where
  "write_create_only_file p n contents =
     io_bind call (\<lambda>_. io_bind (entries_at p) (\<lambda>es.
       if map_of es n \<noteq> None then io_fail (CacheIo AlreadyExists)
       else io_bind (modify p (\<lambda>es. es @ [(n, File [])])) (\<lambda>_.
         io_bind call (\<lambda>_.
         io_bind syscall (\<lambda>written.
           case written of
             Some k \<Rightarrow> io_bind (modify p (map (\<lambda>(m, x). (m, if m = n then File (take k contents) else x))))
                         (\<lambda>_. io_fail (CacheIo OtherIo))
           | None \<Rightarrow> io_bind (modify p (map (\<lambda>(m, x). (m, if m = n then File contents else x)))) (\<lambda>_. call))))))"

definition rename_noreplace :: "string list \<Rightarrow> string \<Rightarrow> string \<Rightarrow> unit io" where
  "rename_noreplace p old_name new_name =
     io_bind call (\<lambda>_. io_bind (entries_at p) (\<lambda>es.
       if map_of es old_name = None then io_fail (CacheIo NotFound)
       else if map_of es new_name \<noteq> None then io_fail CacheAlreadyPublished
       else modify p (map (\<lambda>(m, x). (if m = old_name then new_name else m, x)))))"

fun remove_children :: "string list \<Rightarrow> string list \<Rightarrow> unit io" where
  "remove_children p [] = io_return ()"
| "remove_children p (child # names) =
     io_bind (entry_regular p child) (\<lambda>regular.
       if \<not> regular then io_fail Corrupt
       else io_bind (unlink_file_at p child) (\<lambda>_. remove_children p names))"

definition remove_flat_directory_at :: "string list \<Rightarrow> string \<Rightarrow> unit io" where
  "remove_flat_directory_at p n =
     io_bind (open_directory_at p n) (\<lambda>directory.
     io_bind check_metadata (\<lambda>_.
     io_bind (directory_names directory) (\<lambda>names.
     io_bind (remove_children directory names) (\<lambda>_.
     io_bind (sync_directory directory) (\<lambda>_.
       remove_directory_at p n)))))"

section \<open>Reading\<close>

definition task_directory_name :: "cache_id \<Rightarrow> string" where
  "task_directory_name i = encode_hex (bytes_of_32 (ci_task_hash i))"

definition generation_name :: "cache_id \<Rightarrow> string" where
  "generation_name i = decimal (unat (ci_generation i))"

record cache_store =
  cs_lib :: cache_lib
  cs_key :: bytes32
  cs_limits :: cache_limits

definition missing_if_not_found :: "'a io \<Rightarrow> 'a io" where
  "missing_if_not_found m s =
     (case m s of (Inl e, s') \<Rightarrow> (Inl (if e = CacheIo NotFound then MissingObject else e), s') | r \<Rightarrow> r)"

definition max_encoded :: "object_kind \<Rightarrow> nat" where
  "max_encoded kind = max_plaintext_bytes kind + HEADER_BYTES + TAG_BYTES"

definition read_object :: "cache_store \<Rightarrow> string list \<Rightarrow> cache_id \<Rightarrow> object_kind \<Rightarrow> (u8 list) io" where
  "read_object c directory i kind =
     io_bind (missing_if_not_found (open_file_at directory (file_name kind))) (\<lambda>file.
     io_bind (file_length file) (\<lambda>len.
     if max_encoded kind < len then io_fail ObjectTooLarge
     else io_bind (read_to_end file) (\<lambda>bytes.
       if length bytes \<noteq> len then io_fail Corrupt
       else io_of (decrypt_object (cs_lib c) (cs_key c) i kind bytes))))"

definition kind_of_name :: "string \<Rightarrow> object_kind option" where
  "kind_of_name n = find (\<lambda>kind. file_name kind = n) ALL_KINDS"

fun inspect_final_names :: "string list \<Rightarrow> string list \<Rightarrow> (object_kind \<times> nat) list \<Rightarrow> ((object_kind \<times> nat) list) io" where
  "inspect_final_names directory [] sizes = io_return sizes"
| "inspect_final_names directory (n # names) sizes =
     io_bind (io_of (ok_or Corrupt (kind_of_name n))) (\<lambda>kind.
     io_bind (open_file_at directory n) (\<lambda>file.
     io_bind (file_length file) (\<lambda>len.
     if len < HEADER_BYTES + TAG_BYTES \<or> max_encoded kind < len then io_fail Corrupt
     else if kind \<in> set (map fst sizes) then io_fail Corrupt
     else inspect_final_names directory names (sizes @ [(kind, len)]))))"

fun sum_sizes :: "nat \<Rightarrow> nat list \<Rightarrow> cache_error + nat" where
  "sum_sizes amount [] = Ok amount"
| "sum_sizes amount (v # vs) = and_then (ok_or CapacityExceeded (checked_add amount v)) (\<lambda>t. sum_sizes t vs)"

definition inspect_final_directory :: "string list \<Rightarrow> nat io" where
  "inspect_final_directory directory =
     io_bind (directory_names directory) (\<lambda>names.
     io_bind (inspect_final_names directory names []) (\<lambda>sizes.
     if length sizes \<noteq> length ALL_KINDS then io_fail Corrupt
     else io_of (sum_sizes 0 (map snd sizes))))"

definition ensure_no_extra_entries :: "string list \<Rightarrow> unit io" where
  "ensure_no_extra_entries directory = io_bind (inspect_final_directory directory) (\<lambda>_. io_return ())"

definition read_unlocked :: "cache_store \<Rightarrow> cache_id \<Rightarrow> cache_bundle io" where
  "read_unlocked c i =
     io_bind (missing_if_not_found (open_directory_at [] (task_directory_name i))) (\<lambda>task_directory.
     io_bind (missing_if_not_found (open_directory_at task_directory (generation_name i))) (\<lambda>directory.
     io_bind (read_object c directory i Manifest) (\<lambda>manifest_json.
     io_bind (read_object c directory i QwenWav) (\<lambda>qwen_wav.
     io_bind (read_object c directory i DeviceEiad) (\<lambda>device_eiad.
     io_bind (ensure_no_extra_entries directory) (\<lambda>_.
       io_return \<lparr> cb_manifest_json = manifest_json, cb_qwen_wav = qwen_wav, cb_device_eiad = device_eiad \<rparr>))))))"

section \<open>Scanning\<close>

record cache_audit =
  finalized_generations :: nat
  temporary_generations :: nat
  encrypted_bytes :: nat

record temporary_generation =
  tg_task_name :: string
  tg_temporary_name :: string

record cache_scan =
  sc_audit :: cache_audit
  sc_finalized :: "cache_id list"
  sc_temporaries :: "temporary_generation list"
  sc_tasks :: "string list"

definition empty_scan :: cache_scan where
  "empty_scan = \<lparr> sc_audit = \<lparr> finalized_generations = 0, temporary_generations = 0, encrypted_bytes = 0 \<rparr>,
     sc_finalized = [], sc_temporaries = [], sc_tasks = [] \<rparr>"

definition add_bytes :: "nat \<Rightarrow> cache_scan \<Rightarrow> cache_scan io" where
  "add_bytes n sc =
     io_of (and_then (ok_or CapacityExceeded (checked_add (encrypted_bytes (sc_audit sc)) n))
       (\<lambda>b. Ok (sc\<lparr>sc_audit := (sc_audit sc)\<lparr>encrypted_bytes := b\<rparr>\<rparr>)))"

fun inspect_temporary_names :: "string list \<Rightarrow> string list \<Rightarrow> string list \<Rightarrow> nat \<Rightarrow> nat io" where
  "inspect_temporary_names directory [] seen amount = io_return amount"
| "inspect_temporary_names directory (n # names) seen amount =
     io_bind (io_of (ok_or Corrupt (kind_of_name n))) (\<lambda>kind.
     if n \<in> set seen then io_fail Corrupt
     else io_bind (open_file_at directory n) (\<lambda>file.
     io_bind (file_length file) (\<lambda>len.
     if max_encoded kind < len then io_fail CapacityExceeded
     else io_bind (io_of (ok_or CapacityExceeded (checked_add amount len))) (\<lambda>amount.
       inspect_temporary_names directory names (n # seen) amount))))"

definition inspect_temporary_directory :: "string list \<Rightarrow> nat io" where
  "inspect_temporary_directory directory =
     io_bind (directory_names directory) (\<lambda>names. inspect_temporary_names directory names [] 0)"

definition strip_prefix :: "string \<Rightarrow> string \<Rightarrow> string option" where
  "strip_prefix p s = (if take (length p) s = p then Some (drop (length p) s) else None)"

definition corrupt_on_error :: "'a io \<Rightarrow> 'a io" where
  "corrupt_on_error m s = (case m s of (Inl _, s') \<Rightarrow> (Inl Corrupt, s') | r \<Rightarrow> r)"

definition scan_generation :: "cache_lib \<Rightarrow> string \<Rightarrow> string \<Rightarrow> cache_scan \<Rightarrow> cache_scan io" where
  "scan_generation lib task_name n sc =
     io_bind (corrupt_on_error (open_directory_at [task_name] n)) (\<lambda>directory.
     io_bind check_metadata (\<lambda>_.
     case strip_prefix TEMP_PREFIX n of
       Some uuid \<Rightarrow>
         if \<not> uuid_parses lib uuid then io_fail Corrupt
         else io_bind (io_of (ok_or CapacityExceeded (checked_add (temporary_generations (sc_audit sc)) 1))) (\<lambda>t.
           io_bind (inspect_temporary_directory directory) (\<lambda>bytes.
           io_bind (add_bytes bytes (sc\<lparr>sc_audit := (sc_audit sc)\<lparr>temporary_generations := t\<rparr>\<rparr>)) (\<lambda>sc.
             io_return (sc\<lparr>sc_temporaries := sc_temporaries sc
               @ [\<lparr> tg_task_name = task_name, tg_temporary_name = n \<rparr>]\<rparr>))))
     | None \<Rightarrow>
         io_bind (io_of (map_err (\<lambda>_. Corrupt) (from_reference (task_name @ ''/'' @ n)))) (\<lambda>i.
         io_bind (inspect_final_directory directory) (\<lambda>bytes.
         if i \<in> set (sc_finalized sc) then io_fail Corrupt
         else io_bind (io_of (ok_or CapacityExceeded (checked_add (finalized_generations (sc_audit sc)) 1))) (\<lambda>f.
           add_bytes bytes (sc\<lparr>sc_finalized := i # sc_finalized sc,
             sc_audit := (sc_audit sc)\<lparr>finalized_generations := f\<rparr>\<rparr>))))))"

fun scan_generations :: "cache_lib \<Rightarrow> string \<Rightarrow> string list \<Rightarrow> cache_scan \<Rightarrow> cache_scan io" where
  "scan_generations lib task_name [] sc = io_return sc"
| "scan_generations lib task_name (n # names) sc =
     io_bind (scan_generation lib task_name n sc) (scan_generations lib task_name names)"

definition scan_task :: "cache_lib \<Rightarrow> string \<Rightarrow> cache_scan \<Rightarrow> cache_scan io" where
  "scan_task lib task_name sc =
     (if task_name = CACHE_LOCK_FILE
      then io_bind (open_file_at [] CACHE_LOCK_FILE) (\<lambda>file. io_bind (file_length file) (\<lambda>_. io_return sc))
      else if task_name = KEY_MARKER_FILE
      then io_bind (open_file_at [] KEY_MARKER_FILE) (\<lambda>file. io_bind (file_length file) (\<lambda>_.
             io_bind (file_length file) (\<lambda>len. add_bytes len sc)))
      else if \<not> is_task_hash task_name then io_fail Corrupt
      else io_bind (corrupt_on_error (open_directory_at [] task_name)) (\<lambda>directory.
           io_bind check_metadata (\<lambda>_.
           io_bind call (\<lambda>_.
           if task_name \<in> set (sc_tasks sc) then io_fail Corrupt
           else io_bind (directory_names directory) (\<lambda>names.
             scan_generations lib task_name names (sc\<lparr>sc_tasks := task_name # sc_tasks sc\<rparr>))))))"

fun scan_tasks :: "cache_lib \<Rightarrow> string list \<Rightarrow> cache_scan \<Rightarrow> cache_scan io" where
  "scan_tasks lib [] sc = io_return sc"
| "scan_tasks lib (n # names) sc = io_bind (scan_task lib n sc) (scan_tasks lib names)"

definition scan_unlocked :: "cache_store \<Rightarrow> cache_scan io" where
  "scan_unlocked c =
     io_bind check_metadata (\<lambda>_.
     io_bind (directory_names []) (\<lambda>names. scan_tasks (cs_lib c) names empty_scan))"

definition audit :: "cache_store \<Rightarrow> cache_audit io" where
  "audit c = io_bind (scan_unlocked c) (\<lambda>sc. io_return (sc_audit sc))"

section \<open>Publication\<close>

definition write_object :: "cache_store \<Rightarrow> string list \<Rightarrow> cache_id \<Rightarrow> object_kind \<Rightarrow> u8 list \<Rightarrow> unit io" where
  "write_object c directory i kind plaintext =
     io_bind draw (\<lambda>d.
     io_bind (io_of (encrypt_object (cs_lib c) (cs_key c) i kind (random_salt (cs_lib c) d) (random_nonce (cs_lib c) d) plaintext))
       (\<lambda>encrypted. write_create_only_file directory (file_name kind) encrypted))"

text \<open>
  The closure of \<open>publish_observed\<close>: its steps before the renaming, the renaming, and the flush
  after it. \<open>renamed\<close> is the Boolean that the closure sets.
\<close>

definition fill_temporary :: "cache_store \<Rightarrow> cache_id \<Rightarrow> cache_bundle \<Rightarrow> string list \<Rightarrow> unit io" where
  "fill_temporary c i b temporary_handle =
     io_bind (write_object c temporary_handle i Manifest (cb_manifest_json b)) (\<lambda>_.
     io_bind (write_object c temporary_handle i QwenWav (cb_qwen_wav b)) (\<lambda>_.
     io_bind (write_object c temporary_handle i DeviceEiad (cb_device_eiad b)) (\<lambda>_.
       sync_directory temporary_handle)))"

definition publish_temporary ::
  "cache_store \<Rightarrow> cache_id \<Rightarrow> cache_bundle \<Rightarrow> string list \<Rightarrow> string \<Rightarrow> string list \<Rightarrow> unit io" where
  "publish_temporary c i b task_handle temporary_name temporary_handle s =
     (case io_bind (fill_temporary c i b temporary_handle)
              (\<lambda>_. rename_noreplace task_handle temporary_name (generation_name i)) s of
        (Inr _, s') \<Rightarrow> sync_directory task_handle s'
      | (Inl e, s') \<Rightarrow> (Inl e, snd (io_ignore (remove_flat_directory_at task_handle temporary_name) s')))"

definition publish_observed :: "cache_store \<Rightarrow> cache_id \<Rightarrow> cache_bundle \<Rightarrow> unit io" where
  "publish_observed c i b =
     io_bind (io_of (validate_bundle b)) (\<lambda>_.
     io_bind (io_of (encoded_bundle_bytes b)) (\<lambda>predicted_bytes.
     io_bind (audit c) (\<lambda>current.
     if max_generations (cs_limits c) \<le> finalized_generations current
        \<or> (case checked_add (encrypted_bytes current) predicted_bytes of
             None \<Rightarrow> True | Some amount \<Rightarrow> max_total_bytes (cs_limits c) < amount)
     then io_fail CapacityExceeded
     else io_bind (open_or_create_directory_at [] (task_directory_name i)) (\<lambda>(task_handle, created).
       io_bind (if created then sync_directory [] else io_return ()) (\<lambda>_.
       io_bind (entry_exists task_handle (generation_name i)) (\<lambda>exists.
       if exists then io_fail CacheAlreadyPublished
       else io_bind draw (\<lambda>d.
         let temporary_name = TEMP_PREFIX @ new_uuid (cs_lib c) d in
         io_bind (create_directory_at task_handle temporary_name) (\<lambda>temporary_handle.
           publish_temporary c i b task_handle temporary_name temporary_handle))))))))"

definition publish_or_verify_unlocked :: "cache_store \<Rightarrow> cache_id \<Rightarrow> cache_bundle \<Rightarrow> unit io" where
  "publish_or_verify_unlocked c i b s =
     (case read_unlocked c i s of
        (Inr existing, s') \<Rightarrow> if existing = b then (Ok (), s') else (Err CacheAlreadyPublished, s')
      | (Inl e, s') \<Rightarrow>
          if e = MissingObject
          then io_bind (publish_observed c i b) (\<lambda>_.
               io_bind (read_unlocked c i) (\<lambda>existing.
                 if existing = b then io_return () else io_fail Corrupt)) s'
          else (Inl e, s'))"

section \<open>Reconciliation\<close>

text \<open>The order of \<open>BTreeSet<CacheId>\<close>: the bytes of the hash, then the generation.\<close>

definition cache_id_rank :: "cache_id \<Rightarrow> nat" where
  "cache_id_rank i = le_nat (rev (bytes_of_32 (ci_task_hash i))) * 2 ^ 64 + unat (ci_generation i)"

fun parse_references :: "string list \<Rightarrow> cache_error + cache_id list" where
  "parse_references [] = Ok []"
| "parse_references (r # rs) =
     and_then (map_err CacheRef (from_reference r)) (\<lambda>i. and_then (parse_references rs) (\<lambda>is. Ok (i # is)))"

definition btree_set :: "cache_id list \<Rightarrow> cache_id list" where
  "btree_set is = sort_key cache_id_rank (remdups is)"

fun for_each :: "('a \<Rightarrow> unit io) \<Rightarrow> 'a list \<Rightarrow> unit io" where
  "for_each f [] = io_return ()"
| "for_each f (x # xs) = io_bind (f x) (\<lambda>_. for_each f xs)"

definition validate_identity :: "string list \<Rightarrow> unit io" where
  "validate_identity directory = io_bind check_metadata (\<lambda>_. check_metadata)"

definition remove_temporary :: "temporary_generation \<Rightarrow> unit io" where
  "remove_temporary t =
     io_bind (open_directory_at [] (tg_task_name t)) (\<lambda>task_handle.
     io_bind (validate_identity task_handle) (\<lambda>_.
     io_bind (remove_flat_directory_at task_handle (tg_temporary_name t)) (\<lambda>_.
       sync_directory task_handle)))"

definition remove_orphan_atomically :: "cache_lib \<Rightarrow> cache_id \<Rightarrow> unit io" where
  "remove_orphan_atomically lib i =
     io_bind (open_directory_at [] (task_directory_name i)) (\<lambda>task_handle.
     io_bind (validate_identity task_handle) (\<lambda>_.
     io_bind draw (\<lambda>d.
     let temporary_name = TEMP_PREFIX @ new_uuid lib d in
     io_bind (rename_noreplace task_handle (generation_name i) temporary_name) (\<lambda>_.
     io_bind (sync_directory task_handle) (\<lambda>_.
     io_bind (remove_flat_directory_at task_handle temporary_name) (\<lambda>_.
       sync_directory task_handle))))))"

definition sync_all_task_directories :: "unit io" where
  "sync_all_task_directories =
     io_bind (directory_names []) (\<lambda>names.
     io_bind (for_each (\<lambda>n. if is_task_hash n then io_bind (open_directory_at [] n) sync_directory else io_return ()) names)
       (\<lambda>_. sync_directory []))"

record cleanup_report =
  temporary_generations_removed :: nat
  orphan_generations_removed :: nat
  encrypted_bytes_remaining :: nat

definition reconcile_unlocked :: "cache_store \<Rightarrow> string list \<Rightarrow> cleanup_report io" where
  "reconcile_unlocked c references =
     io_bind (io_of (parse_references references)) (\<lambda>is.
     let expected = btree_set is in
     io_bind (scan_unlocked c) (\<lambda>scan.
     if \<not> set expected \<subseteq> set (sc_finalized scan) then io_fail MissingReference
     else io_bind (for_each (\<lambda>i. io_bind (read_unlocked c i) (\<lambda>_. io_return ())) expected) (\<lambda>_.
       io_bind (for_each remove_temporary (sc_temporaries scan)) (\<lambda>_.
       let orphans = btree_set (filter (\<lambda>i. i \<notin> set expected) (sc_finalized scan)) in
       io_bind (for_each (\<lambda>i. if task_directory_name i \<in> set (sc_tasks scan)
                               then remove_orphan_atomically (cs_lib c) i else io_fail Corrupt) orphans) (\<lambda>_.
       io_bind sync_all_task_directories (\<lambda>_.
       io_bind (scan_unlocked c) (\<lambda>after.
         io_return \<lparr> temporary_generations_removed = length (sc_temporaries scan),
           orphan_generations_removed = length orphans,
           encrypted_bytes_remaining = encrypted_bytes (sc_audit after) \<rparr>)))))))"

end
