(* ===== verification/Cache_Views.thy ===== *)
theory Cache_Views
  imports Cache_Disk
begin

text \<open>
  Rules for sequences of system calls, what a read depends on (the view of a tree), and the
  changes of a tree that leave every view alone.
\<close>

section \<open>Rules for sequences of system calls\<close>

lemma io_bind_return [simp]: "io_bind (io_return x) f = f x"
  by (rule ext) (simp add: io_bind_def io_return_def)

lemma io_bind_Ok: "io_bind m f s = (Inr y, s') \<longleftrightarrow> (\<exists>x u. m s = (Inr x, u) \<and> f x u = (Inr y, s'))"
  by (auto simp: io_bind_def split: prod.splits sum.splits)

text \<open>Computations that leave the tree alone.\<close>

definition readonly :: "'a io \<Rightarrow> bool" where
  "readonly m \<longleftrightarrow> (\<forall>s. dk_root (snd (m s)) = dk_root s \<and> dk_history (snd (m s)) = dk_history s)"

named_theorems io_readonly \<open>computations that leave the tree alone\<close>

lemma readonly_bind [io_readonly]: "readonly m \<Longrightarrow> (\<And>x. readonly (f x)) \<Longrightarrow> readonly (io_bind m f)"
  by (auto simp: readonly_def io_bind_def split: prod.splits sum.splits) (metis snd_conv)+

lemma readonly_basic [io_readonly]:
  "readonly (io_return x)" "readonly (io_fail e)" "readonly (io_of r)" "readonly syscall" "readonly draw"
  "readonly (entries_at p)"
  by (auto simp: readonly_def io_return_def io_fail_def io_of_def syscall_def draw_def entries_at_def split: list.splits option.splits)

lemma readonly_if [io_readonly]: "readonly a \<Longrightarrow> readonly b \<Longrightarrow> readonly (if q then a else b)"
  by simp

lemma readonly_option [io_readonly]: "readonly a \<Longrightarrow> (\<And>x. readonly (f x)) \<Longrightarrow> readonly (case v of None \<Rightarrow> a | Some x \<Rightarrow> f x)"
  by (cases v) simp_all

lemma readonly_node [io_readonly]:
  "(\<And>x. readonly (f x)) \<Longrightarrow> (\<And>x. readonly (g x)) \<Longrightarrow> readonly h \<Longrightarrow> readonly (case v of File x \<Rightarrow> f x | Dir x \<Rightarrow> g x | Link \<Rightarrow> h)"
  by (cases v) simp_all

lemma readonly_nat [io_readonly]: "readonly a \<Longrightarrow> (\<And>x. readonly (f x)) \<Longrightarrow> readonly (case v of 0 \<Rightarrow> a | Suc x \<Rightarrow> f x)"
  by (cases v) simp_all

lemma readonly_missing [io_readonly]: "readonly m \<Longrightarrow> readonly (missing_if_not_found m)"
  by (auto simp: readonly_def missing_if_not_found_def split: prod.splits sum.splits) (metis snd_conv)+

lemma readonly_corrupt [io_readonly]: "readonly m \<Longrightarrow> readonly (corrupt_on_error m)"
  by (auto simp: readonly_def corrupt_on_error_def split: prod.splits sum.splits) (metis snd_conv)+

lemma readonly_calls [io_readonly]:
  "readonly call" "readonly check_metadata"
  unfolding call_def check_metadata_def by (intro io_readonly)+

lemma readonly_files [io_readonly]:
  "readonly (open_directory_at p n)" "readonly (directory_names p)" "readonly (open_file_at p n)" "readonly (file_length x)"
  "readonly (read_to_end x)" "readonly (sync_directory p)" "readonly (entry_exists p n)" "readonly (entry_regular p n)"
  unfolding open_directory_at_def directory_names_def open_file_at_def file_length_def read_to_end_def sync_directory_def
    entry_exists_def entry_regular_def
  by (intro io_readonly)+

lemma readonly_inspect [io_readonly]: "readonly (inspect_final_names p names sizes)"
  by (induction names arbitrary: sizes) (auto intro!: io_readonly simp del: io_bind_return)

lemma readonly_inspect_temporary [io_readonly]: "readonly (inspect_temporary_names p names seen n)"
  by (induction names arbitrary: seen n) (auto intro!: io_readonly simp del: io_bind_return)

lemma readonly_directories [io_readonly]:
  "readonly (inspect_final_directory p)" "readonly (inspect_temporary_directory p)" "readonly (ensure_no_extra_entries p)"
  unfolding inspect_final_directory_def inspect_temporary_directory_def ensure_no_extra_entries_def
  by (intro io_readonly)+

lemma readonly_read [io_readonly]: "readonly (read_object c p i kind)" "readonly (read_unlocked c i)"
  unfolding read_object_def read_unlocked_def by (intro io_readonly)+

lemma readonly_scan_generation [io_readonly]: "readonly (scan_generation lib t n sc)"
  unfolding scan_generation_def add_bytes_def by (intro io_readonly)

lemma readonly_scan_generations [io_readonly]: "readonly (scan_generations lib t names sc)"
  by (induction names arbitrary: sc) (auto intro!: io_readonly simp del: io_bind_return)

lemma readonly_scan_task [io_readonly]: "readonly (scan_task lib n sc)"
  unfolding scan_task_def add_bytes_def by (intro io_readonly)

lemma readonly_scan_tasks [io_readonly]: "readonly (scan_tasks lib names sc)"
  by (induction names arbitrary: sc) (auto intro!: io_readonly simp del: io_bind_return)

lemma readonly_scan [io_readonly]: "readonly (scan_unlocked c)" "readonly (audit c)"
  unfolding audit_def scan_unlocked_def by (intro io_readonly)+

lemma readonly_for_each [io_readonly]: "(\<And>x. readonly (f x)) \<Longrightarrow> readonly (for_each f xs)"
  by (induction xs) (auto intro!: io_readonly simp del: io_bind_return)

lemma readonly_rest [io_readonly]: "readonly (validate_identity p)" "readonly sync_all_task_directories"
  unfolding validate_identity_def sync_all_task_directories_def by (intro io_readonly)+

lemma readonlyD: "readonly m \<Longrightarrow> m s = (r, s') \<Longrightarrow> dk_root s' = dk_root s \<and> dk_history s' = dk_history s"
  by (metis readonly_def snd_conv)

text \<open>Properties of the disk that every step keeps.\<close>

definition keeps :: "(disk \<Rightarrow> bool) \<Rightarrow> 'a io \<Rightarrow> bool" where
  "keeps I m \<longleftrightarrow> (\<forall>s. I s \<longrightarrow> I (snd (m s)))"

named_theorems io_keeps \<open>computations that keep a property of the tree\<close>

lemma keeps_bind [io_keeps]: "keeps I m \<Longrightarrow> (\<And>x. keeps I (f x)) \<Longrightarrow> keeps I (io_bind m f)"
  by (auto simp: keeps_def io_bind_def split: prod.splits sum.splits)

lemma keeps_if [io_keeps]: "(q \<Longrightarrow> keeps I a) \<Longrightarrow> (\<not> q \<Longrightarrow> keeps I b) \<Longrightarrow> keeps I (if q then a else b)"
  by simp

lemma keeps_option [io_keeps]: "keeps I a \<Longrightarrow> (\<And>x. keeps I (f x)) \<Longrightarrow> keeps I (case v of None \<Rightarrow> a | Some x \<Rightarrow> f x)"
  by (cases v) simp_all

lemma keeps_node [io_keeps]:
  "(\<And>x. keeps I (f x)) \<Longrightarrow> (\<And>x. keeps I (g x)) \<Longrightarrow> keeps I h \<Longrightarrow> keeps I (case v of File x \<Rightarrow> f x | Dir x \<Rightarrow> g x | Link \<Rightarrow> h)"
  by (cases v) simp_all

lemma keeps_list [io_keeps]: "keeps I a \<Longrightarrow> (\<And>x xs. keeps I (f x xs)) \<Longrightarrow> keeps I (case v of [] \<Rightarrow> a | x # xs \<Rightarrow> f x xs)"
  by (cases v) simp_all

lemma keeps_ignore [io_keeps]: "keeps I m \<Longrightarrow> keeps I (io_ignore m)"
  by (simp add: keeps_def io_ignore_def)

lemma keepsD: "keeps I m \<Longrightarrow> I s \<Longrightarrow> m s = (r, s') \<Longrightarrow> I s'"
  by (metis keeps_def snd_conv)

section \<open>What a read depends on\<close>

text \<open>The files of a published generation, or the reason why its directory cannot be opened.\<close>

definition sub_dir :: "string \<Rightarrow> entries \<Rightarrow> io_error + entries" where
  "sub_dir n es = (case map_of es n of None \<Rightarrow> Inl NotFound | Some (Dir es') \<Rightarrow> Inr es' | Some _ \<Rightarrow> Inl OtherIo)"

definition view :: "entries \<Rightarrow> cache_id \<Rightarrow> io_error + entries" where
  "view r i = and_then (sub_dir (task_directory_name i) r) (sub_dir (generation_name i))"

definition disk_of :: "entries \<Rightarrow> nat option list \<Rightarrow> nat \<Rightarrow> disk" where
  "disk_of r plan draws = \<lparr> dk_root = r, dk_plan = plan, dk_draws = draws, dk_history = [r] \<rparr>"

text \<open>What an undisturbed read of a tree returns.\<close>

definition peek :: "cache_store \<Rightarrow> entries \<Rightarrow> cache_id \<Rightarrow> cache_error + cache_bundle" where
  "peek c r i = fst (read_unlocked c i (disk_of r [] 0))"

text \<open>Undisturbed calls do not change the disk.\<close>

lemma calm [simp]:
  "dk_plan s = [] \<Longrightarrow> syscall s = (Ok None, s)"
  "dk_plan s = [] \<Longrightarrow> call s = (Ok (), s)"
  "dk_plan s = [] \<Longrightarrow> check_metadata s = (Ok (), s)"
  "io_return x s = (Ok x, s)" "io_fail e s = (Err e, s)" "io_of r s = (r, s)"
  by (simp_all add: syscall_def call_def check_metadata_def io_bind_def io_return_def io_fail_def io_of_def)

lemma calm_entries: "entries_at p s = (case dir_at (dk_root s) p of None \<Rightarrow> Err (CacheIo NotFound) | Some es \<Rightarrow> Ok es, s)"
  by (simp add: entries_at_def split: option.splits)

text \<open>Two undisturbed runs at directories with the same entries agree.\<close>

definition agree :: "string list \<Rightarrow> disk \<Rightarrow> string list \<Rightarrow> disk \<Rightarrow> bool" where
  "agree p s q t \<longleftrightarrow> dk_plan s = [] \<and> dk_plan t = [] \<and> dir_at (dk_root s) p = dir_at (dk_root t) q"

definition same_run :: "'a io \<Rightarrow> disk \<Rightarrow> 'a io \<Rightarrow> disk \<Rightarrow> bool" where
  "same_run m s m' t \<longleftrightarrow> (\<exists>r. m s = (r, s) \<and> m' t = (r, t))"

lemma same_run_bind:
  "same_run m s m' t \<Longrightarrow> (\<And>x. same_run (f x) s (f' x) t) \<Longrightarrow> same_run (io_bind m f) s (io_bind m' f') t"
  by (fastforce simp: same_run_def io_bind_def split: sum.splits)

lemma same_run_pure:
  "same_run (io_return x) s (io_return x) t" "same_run (io_fail e) s (io_fail e) t" "same_run (io_of r) s (io_of r) t"
  by (simp_all add: same_run_def)

lemma same_run_calls:
  assumes "agree p s q t"
  shows "same_run call s call t" "same_run check_metadata s check_metadata t" "same_run syscall s syscall t"
    "same_run (entries_at p) s (entries_at q) t"
  using assms by (auto simp: same_run_def agree_def calm_entries)

lemma same_run_branch:
  "same_run a s a' t \<Longrightarrow> same_run b s b' t \<Longrightarrow> same_run (if q then a else b) s (if q then a' else b') t"
  "same_run a s a' t \<Longrightarrow> (\<And>x. same_run (f x) s (f' x) t) \<Longrightarrow>
     same_run (case v of None \<Rightarrow> a | Some x \<Rightarrow> f x) s (case v of None \<Rightarrow> a' | Some x \<Rightarrow> f' x) t"
  "(\<And>x. same_run (f1 x) s (f1' x) t) \<Longrightarrow> (\<And>x. same_run (f2 x) s (f2' x) t) \<Longrightarrow> same_run h s h' t \<Longrightarrow>
     same_run (case w of File x \<Rightarrow> f1 x | Dir x \<Rightarrow> f2 x | Link \<Rightarrow> h) s (case w of File x \<Rightarrow> f1' x | Dir x \<Rightarrow> f2' x | Link \<Rightarrow> h') t"
  by (simp_all split: option.splits disk_node.splits)

lemma same_run_missing: "same_run m s m' t \<Longrightarrow> same_run (missing_if_not_found m) s (missing_if_not_found m') t"
  by (auto simp: same_run_def missing_if_not_found_def split: sum.splits)

lemmas same_run_rules = same_run_bind same_run_pure same_run_branch same_run_missing

lemma same_run_files:
  assumes "agree p s q t"
  shows "same_run (open_file_at p n) s (open_file_at q n) t" "same_run (file_length x) s (file_length x) t"
    "same_run (read_to_end x) s (read_to_end x) t" "same_run (directory_names p) s (directory_names q) t"
  unfolding open_file_at_def file_length_def read_to_end_def directory_names_def
  by (intro same_run_rules same_run_calls [OF assms])+

lemma same_run_inspect:
  assumes "agree p s q t"
  shows "same_run (inspect_final_names p names sizes) s (inspect_final_names q names sizes) t"
proof (induction names arbitrary: sizes)
  case (Cons n names)
  show ?case unfolding inspect_final_names.simps by (intro same_run_rules same_run_files [OF assms] Cons)
qed (simp add: same_run_pure)

lemma same_run_read:
  assumes "agree p s q t"
  shows "same_run (read_object c p i kind) s (read_object c q i kind) t"
    "same_run (ensure_no_extra_entries p) s (ensure_no_extra_entries q) t"
  unfolding read_object_def ensure_no_extra_entries_def inspect_final_directory_def
  by (intro same_run_rules same_run_files [OF assms] same_run_inspect [OF assms])+

definition read_generation :: "cache_store \<Rightarrow> cache_id \<Rightarrow> string list \<Rightarrow> cache_bundle io" where
  "read_generation c i directory =
     io_bind (read_object c directory i Manifest) (\<lambda>manifest_json.
     io_bind (read_object c directory i QwenWav) (\<lambda>qwen_wav.
     io_bind (read_object c directory i DeviceEiad) (\<lambda>device_eiad.
     io_bind (ensure_no_extra_entries directory) (\<lambda>_.
       io_return \<lparr> cb_manifest_json = manifest_json, cb_qwen_wav = qwen_wav, cb_device_eiad = device_eiad \<rparr>))))"

lemma same_run_generation: "agree p s q t \<Longrightarrow> same_run (read_generation c i p) s (read_generation c i q) t"
  unfolding read_generation_def by (intro same_run_rules same_run_read)

text \<open>Reading an open generation directory whose entries are \<open>es\<close>.\<close>

definition read_files :: "cache_store \<Rightarrow> cache_id \<Rightarrow> entries \<Rightarrow> cache_error + cache_bundle" where
  "read_files c i es = fst (read_generation c i [] (disk_of es [] 0))"

lemma calm_open:
  assumes "dk_plan s = []"
  shows "open_directory_at p n s =
    (case dir_at (dk_root s) p of None \<Rightarrow> Err (CacheIo NotFound)
     | Some es \<Rightarrow> (case sub_dir n es of Inl e \<Rightarrow> Err (CacheIo e) | Inr _ \<Rightarrow> Ok (p @ [n])), s)"
  using assms by (auto simp: open_directory_at_def io_bind_def calm_entries sub_dir_def split: option.splits disk_node.splits)

lemma sub_dir_dir_at: "sub_dir n es = Inr es' \<longleftrightarrow> map_of es n = Some (Dir es')"
  by (auto simp: sub_dir_def split: option.splits disk_node.splits)

lemma calm_read:
  assumes "dk_plan s = []"
  shows "read_unlocked c i s =
    (case view (dk_root s) i of
       Inl e \<Rightarrow> Err (if e = NotFound then MissingObject else CacheIo e)
     | Inr es \<Rightarrow> read_files c i es, s)"
proof -
  let ?t = "task_directory_name i" and ?g = "generation_name i"
  have unf: "read_unlocked c i = io_bind (missing_if_not_found (open_directory_at [] ?t)) (\<lambda>task_directory.
     io_bind (missing_if_not_found (open_directory_at task_directory ?g)) (read_generation c i))"
    by (simp add: read_unlocked_def read_generation_def [abs_def])
  show ?thesis
  proof (cases "sub_dir ?t (dk_root s)")
    case (Inl e)
    then show ?thesis using assms by (simp add: unf io_bind_def missing_if_not_found_def calm_open view_def)
  next
    case (Inr es)
    then have d: "dir_at (dk_root s) [?t] = Some es" by (simp add: sub_dir_dir_at)
    show ?thesis
    proof (cases "sub_dir ?g es")
      case (Inl e)
      then show ?thesis using assms Inr d by (simp add: unf io_bind_def missing_if_not_found_def calm_open view_def)
    next
      case (Inr fs)
      then have "dir_at (dk_root s) [?t, ?g] = Some fs" using d by (auto simp: sub_dir_dir_at split: option.splits disk_node.splits)
      then have "agree [?t, ?g] s [] (disk_of fs [] 0)" using assms by (simp add: agree_def disk_of_def)
      then have "same_run (read_generation c i [?t, ?g]) s (read_generation c i []) (disk_of fs [] 0)"
        by (rule same_run_generation)
      then have "read_generation c i [?t, ?g] s = (read_files c i fs, s)" by (auto simp: same_run_def read_files_def)
      then show ?thesis using assms Inr d \<open>sub_dir ?t (dk_root s) = Inr es\<close>
        by (simp add: unf io_bind_def missing_if_not_found_def calm_open view_def)
    qed
  qed
qed

lemma peek_view:
  "peek c r i = (case view r i of Inl e \<Rightarrow> Err (if e = NotFound then MissingObject else CacheIo e) | Inr es \<Rightarrow> read_files c i es)"
  by (simp add: peek_def calm_read disk_of_def)

lemma calm_read_peek: "dk_plan s = [] \<Longrightarrow> read_unlocked c i s = (peek c (dk_root s) i, s)"
  by (simp add: calm_read peek_view)

text \<open>A computation that succeeds although calls may fail also succeeds undisturbed.\<close>

definition robust :: "'a io \<Rightarrow> bool" where
  "robust m \<longleftrightarrow> (\<forall>s x s'. m s = (Inr x, s') \<longrightarrow> m (s\<lparr>dk_plan := []\<rparr>) = (Inr x, s'\<lparr>dk_plan := []\<rparr>))"

named_theorems io_robust \<open>computations whose success does not depend on a failing call\<close>

lemma robust_bind [io_robust]: "robust m \<Longrightarrow> (\<And>x. robust (f x)) \<Longrightarrow> robust (io_bind m f)"
  by (fastforce simp: robust_def io_bind_Ok)

lemma robust_basic [io_robust]:
  "robust (io_return x)" "robust (io_fail e)" "robust (io_of r)" "robust (entries_at p)" "robust draw"
  by (auto simp: robust_def entries_at_def draw_def split: option.splits)

lemma robust_calls [io_robust]: "robust call" "robust check_metadata"
  by (auto simp: robust_def call_def check_metadata_def syscall_def io_bind_def split: list.splits option.splits nat.splits)

lemma robust_if [io_robust]: "robust a \<Longrightarrow> robust b \<Longrightarrow> robust (if q then a else b)"
  by simp

lemma robust_option [io_robust]: "robust a \<Longrightarrow> (\<And>x. robust (f x)) \<Longrightarrow> robust (case v of None \<Rightarrow> a | Some x \<Rightarrow> f x)"
  by (cases v) simp_all

lemma robust_node [io_robust]:
  "(\<And>x. robust (f x)) \<Longrightarrow> (\<And>x. robust (g x)) \<Longrightarrow> robust h \<Longrightarrow> robust (case v of File x \<Rightarrow> f x | Dir x \<Rightarrow> g x | Link \<Rightarrow> h)"
  by (cases v) simp_all

lemma robust_error_maps [io_robust]: "robust m \<Longrightarrow> robust (missing_if_not_found m)" "robust m \<Longrightarrow> robust (corrupt_on_error m)"
  by (fastforce simp: robust_def missing_if_not_found_def corrupt_on_error_def split: prod.splits sum.splits)+

lemma robust_files [io_robust]:
  "robust (open_directory_at p n)" "robust (directory_names p)" "robust (open_file_at p n)" "robust (file_length x)"
  "robust (read_to_end x)" "robust (sync_directory p)" "robust (entry_exists p n)"
  unfolding open_directory_at_def directory_names_def open_file_at_def file_length_def read_to_end_def sync_directory_def
    entry_exists_def
  by (intro io_robust)+

lemma robust_inspect [io_robust]: "robust (inspect_final_names p names sizes)"
  by (induction names arbitrary: sizes) (auto intro!: io_robust simp del: io_bind_return)

lemma robust_inspect_temporary [io_robust]: "robust (inspect_temporary_names p names seen n)"
  by (induction names arbitrary: seen n) (auto intro!: io_robust simp del: io_bind_return)

lemma robust_directories [io_robust]:
  "robust (inspect_final_directory p)" "robust (inspect_temporary_directory p)" "robust (ensure_no_extra_entries p)"
  unfolding inspect_final_directory_def inspect_temporary_directory_def ensure_no_extra_entries_def
  by (intro io_robust)+

lemma robust_read [io_robust]: "robust (read_object c p i kind)" "robust (read_unlocked c i)"
  unfolding read_object_def read_unlocked_def by (intro io_robust)+

lemma read_peek:
  assumes "read_unlocked c i s = (Ok b, s')"
  shows "peek c (dk_root s) i = Ok b" "dk_root s' = dk_root s" "dk_history s' = dk_history s"
proof -
  have "robust (read_unlocked c i)" by (intro io_robust)
  then have "read_unlocked c i (s\<lparr>dk_plan := []\<rparr>) = (Ok b, s'\<lparr>dk_plan := []\<rparr>)" using assms unfolding robust_def by blast
  then show "peek c (dk_root s) i = Ok b" by (simp add: calm_read_peek)
  have "readonly (read_unlocked c i)" by (intro io_readonly)
  then show "dk_root s' = dk_root s" "dk_history s' = dk_history s" using assms readonlyD by blast+
qed

section \<open>Changes of the tree and what they leave readable\<close>

lemma map_of_change_dir:
  "map_of (change_dir f (n # p) es) m =
    (if m = n then map_option (\<lambda>x. case x of Dir es' \<Rightarrow> Dir (change_dir f p es') | _ \<Rightarrow> x) (map_of es n) else map_of es m)"
  by (induction es) (auto split: disk_node.splits)

lemma sub_dir_change_same:
  "sub_dir n (change_dir f (n # p) es) = and_then (sub_dir n es) (\<lambda>es'. Inr (change_dir f p es'))"
  by (auto simp: sub_dir_def map_of_change_dir split: option.splits disk_node.splits simp del: change_dir.simps)

lemma sub_dir_change_other: "m \<noteq> n \<Longrightarrow> sub_dir m (change_dir f (n # p) es) = sub_dir m es"
  by (simp add: sub_dir_def map_of_change_dir del: change_dir.simps)

lemma dir_at_change:
  "dir_at (change_dir f p r) p = map_option f (dir_at r p)"
proof (induction p arbitrary: r)
  case (Cons n p)
  then show ?case by (auto simp: map_of_change_dir split: option.splits disk_node.splits simp del: change_dir.simps(2))
qed simp

text \<open>Names that no published generation has.\<close>

definition hidden :: "string \<Rightarrow> bool" where
  "hidden n \<longleftrightarrow> (\<exists>u. n = TEMP_PREFIX @ u)"

lemma generation_not_hidden: "hidden n \<Longrightarrow> generation_name i \<noteq> n"
proof
  assume "hidden n" "generation_name i = n"
  then obtain u where "decimal (unat (ci_generation i)) = TEMP_PREFIX @ u" by (auto simp: hidden_def generation_name_def)
  then have "is_digit (CHR ''.'')" using decimal_digits [of "unat (ci_generation i)"] by (simp add: TEMP_PREFIX_def)
  then show False by (simp add: is_digit_def char_code_def)
qed

lemma task_directory_name_inj: "task_directory_name i = task_directory_name j \<longleftrightarrow> ci_task_hash i = ci_task_hash j"
  by (metis task_directory_name_def bytes_of_32_inject decode_encode_hex option.inject)

lemma generation_name_inj [simp]: "generation_name i = generation_name j \<longleftrightarrow> ci_generation i = ci_generation j"
  by (simp add: generation_name_def word_unat_eq_iff)

lemma task_name_cong: "ci_task_hash i = ci_task_hash j \<Longrightarrow> task_directory_name i = task_directory_name j"
  by (simp add: task_directory_name_def)

lemma cache_id_names: "task_directory_name i = task_directory_name j \<Longrightarrow> generation_name i = generation_name j \<Longrightarrow> i = j"
  by (simp add: task_directory_name_inj)

lemma view_change_task:
  assumes "\<And>es i. map_of (f es) (generation_name i) = map_of es (generation_name i)"
  shows "view (change_dir f [t] r) = view r"
proof
  fix i
  show "view (change_dir f [t] r) i = view r i"
  proof (cases "task_directory_name i = t")
    case True
    have "sub_dir (generation_name i) (f es) = sub_dir (generation_name i) es" for es by (simp add: sub_dir_def assms)
    then show ?thesis using True by (cases "sub_dir t r") (simp_all add: view_def sub_dir_change_same del: change_dir.simps(2))
  qed (simp add: view_def sub_dir_change_other del: change_dir.simps(2))
qed

lemma view_change_hidden:
  assumes "hidden n"
  shows "view (change_dir f [t, n] r) = view r"
proof
  fix i
  have g: "generation_name i \<noteq> n" using generation_not_hidden [OF assms] by simp
  show "view (change_dir f [t, n] r) i = view r i"
    by (cases "task_directory_name i = t"; cases "sub_dir t r")
       (simp_all add: view_def sub_dir_change_same sub_dir_change_other g del: change_dir.simps(2))
qed

lemma map_of_rename:
  assumes "map_of es new = None"
  shows "map_of (map (\<lambda>(m, x). (if m = old then new else m, x)) es) n =
      (if n = new then map_of es old else if n = old then None else map_of es n)"
  using assms
proof (induction es)
  case (Cons e es)
  obtain m x where e: "e = (m, x)" by fastforce
  from Cons.prems have "m \<noteq> new" "map_of es new = None" by (auto simp: e split: if_splits)
  with Cons.IH show ?case by (cases "m = old"; cases "n = m"; cases "n = new"; cases "n = old") (simp_all add: e)
qed simp

lemma map_of_remove: "map_of (filter (\<lambda>e. fst e \<noteq> n) es) m = (if m = n then None else map_of es m)"
  by (induction es) auto

lemma view_add_hidden: "hidden n \<Longrightarrow> view (change_dir (\<lambda>es. es @ [(n, x)]) [t] r) = view r"
  by (rule view_change_task) (auto simp: map_add_def generation_not_hidden split: option.splits)

lemma view_remove_hidden: "hidden n \<Longrightarrow> view (change_dir (filter (\<lambda>e. fst e \<noteq> n)) [t] r) = view r"
  by (rule view_change_task) (auto simp: map_of_remove generation_not_hidden)

lemma view_rename:
  assumes "dir_at r [task_directory_name i] = Some es" "map_of es new = None"
    and "\<And>j. j \<noteq> i \<Longrightarrow> ci_task_hash j = ci_task_hash i \<Longrightarrow> generation_name j \<noteq> old \<and> generation_name j \<noteq> new"
  shows "view (change_dir (map (\<lambda>(m, x). (if m = old then new else m, x))) [task_directory_name i] r)
     = (view r)(i := sub_dir (generation_name i) (map (\<lambda>(m, x). (if m = old then new else m, x)) es))"
proof
  fix j
  let ?f = "map (\<lambda>(m, x). (if m = old then new else m, x))"
  have s: "sub_dir (task_directory_name i) r = Inr es"
    using assms(1) by (auto simp: sub_dir_def split: option.splits disk_node.splits)
  have "sub_dir (generation_name j) (?f es) = sub_dir (generation_name j) es"
    if "j \<noteq> i" "ci_task_hash j = ci_task_hash i"
    using assms(3) [OF that] by (simp add: sub_dir_def map_of_rename [OF assms(2)])
  moreover have "view (change_dir ?f [task_directory_name i] r) j = sub_dir (generation_name j) (?f es)"
      "view r j = sub_dir (generation_name j) es" if "ci_task_hash j = ci_task_hash i"
    using s task_name_cong [OF that] by (simp_all add: view_def sub_dir_change_same del: change_dir.simps(2))
  moreover have "view (change_dir ?f [task_directory_name i] r) j = view r j" "j \<noteq> i" if "ci_task_hash j \<noteq> ci_task_hash i"
    using that by (auto simp: view_def sub_dir_change_other task_directory_name_inj simp del: change_dir.simps(2))
  ultimately show "view (change_dir ?f [task_directory_name i] r) j = ((view r)(i := sub_dir (generation_name i) (?f es))) j"
    by (cases "ci_task_hash j = ci_task_hash i"; cases "j = i") simp_all
qed

lemma view_publish:
  assumes "dir_at r [task_directory_name i] = Some es" "map_of es (generation_name i) = None"
    and "map_of es n = Some (Dir fs)" "hidden n"
  shows "view (change_dir (map (\<lambda>(m, x). (if m = n then generation_name i else m, x))) [task_directory_name i] r)
     = (view r)(i := Inr fs)"
proof -
  have "sub_dir (generation_name i) (map (\<lambda>(m, x). (if m = n then generation_name i else m, x)) es) = Inr fs"
    using assms(3) by (simp add: sub_dir_def map_of_rename [OF assms(2)])
  moreover have "generation_name j \<noteq> n \<and> generation_name j \<noteq> generation_name i"
    if "j \<noteq> i" "ci_task_hash j = ci_task_hash i" for j
    using that generation_not_hidden [OF assms(4), of j] by auto
  ultimately show ?thesis using view_rename [OF assms(1,2), of n] by simp
qed

lemma view_unpublish:
  assumes "dir_at r [task_directory_name i] = Some es" "map_of es n = None" "hidden n"
  shows "view (change_dir (map (\<lambda>(m, x). (if m = generation_name i then n else m, x))) [task_directory_name i] r)
     = (view r)(i := Inl NotFound)"
proof -
  have "sub_dir (generation_name i) (map (\<lambda>(m, x). (if m = generation_name i then n else m, x)) es) = Inl NotFound"
    using generation_not_hidden [OF assms(3), of i] by (simp add: sub_dir_def map_of_rename [OF assms(2)])
  moreover have "generation_name j \<noteq> generation_name i \<and> generation_name j \<noteq> n"
    if "j \<noteq> i" "ci_task_hash j = ci_task_hash i" for j
    using that generation_not_hidden [OF assms(3), of j] by auto
  ultimately show ?thesis using view_rename [OF assms(1,2), of "generation_name i"] by simp
qed

section \<open>Publication\<close>

definition views_in :: "(cache_id \<Rightarrow> io_error + entries) set \<Rightarrow> disk \<Rightarrow> bool" where
  "views_in F s \<longleftrightarrow> view (dk_root s) \<in> F \<and> (\<forall>r\<in>set (dk_history s). view r \<in> F)"

lemma views_in_mono: "views_in F s \<Longrightarrow> F \<subseteq> G \<Longrightarrow> views_in G s"
  by (auto simp: views_in_def)

lemma modify_run: "modify p f s = (Ok (), s\<lparr>dk_root := change_dir f p (dk_root s),
    dk_history := change_dir f p (dk_root s) # dk_history s\<rparr>)"
  by (simp add: modify_def Let_def)

lemma view_new_task: "view (r @ [(t, Dir [])]) = view r"
  by (rule ext) (auto simp: view_def sub_dir_def map_add_def split: option.splits)

lemma view_remove_empty:
  assumes "map_of r t = Some (Dir [])"
  shows "view (filter (\<lambda>e. fst e \<noteq> t) r) = view r"
  by (rule ext) (use assms in \<open>auto simp: view_def sub_dir_def map_of_remove\<close>)

lemma remove_directory_run:
  assumes "remove_directory_at p n s = (res, s')"
  shows "dk_root s' = dk_root s \<and> dk_history s' = dk_history s \<and> res \<noteq> Ok () \<or>
    (\<exists>es. dir_at (dk_root s) p = Some es \<and> map_of es n = Some (Dir []) \<and> res = Ok () \<and>
       dk_root s' = change_dir (filter (\<lambda>e. fst e \<noteq> n)) p (dk_root s) \<and> dk_history s' = dk_root s' # dk_history s)"
proof -
  obtain u where "call s = (Ok (), u) \<or> (\<exists>e. call s = (Err e, u))" by (cases "call s"; cases "fst (call s)") auto
  moreover note readonlyD [OF readonly_calls(1), of s]
  ultimately show ?thesis using assms
    by (auto simp: remove_directory_at_def io_bind_def calm_entries modify_run
        split: option.splits disk_node.splits list.splits)
qed

lemma open_directory_Ok:
  assumes "open_directory_at p n s = (Ok d, s')"
  shows "d = p @ [n]" "dk_root s' = dk_root s" "dk_history s' = dk_history s"
    "\<exists>es es'. dir_at (dk_root s) p = Some es \<and> map_of es n = Some (Dir es')"
proof -
  show "dk_root s' = dk_root s" "dk_history s' = dk_history s"
    using readonlyD [OF readonly_files(1) assms] by simp_all
  obtain u es where u: "call s = (Ok (), u)" "entries_at p u = (Ok es, u)"
    and r: "(case map_of es n of None \<Rightarrow> io_fail (CacheIo NotFound) | Some (Dir _) \<Rightarrow> io_return (p @ [n])
       | Some _ \<Rightarrow> io_fail (CacheIo OtherIo)) u = (Ok d, s')"
    using assms by (auto simp: open_directory_at_def io_bind_Ok calm_entries)
  then show "d = p @ [n]" by (auto split: option.splits disk_node.splits)
  have "dir_at (dk_root s) p = Some es"
    using u readonlyD [OF readonly_calls(1) u(1)] by (auto simp: calm_entries split: option.splits)
  then show "\<exists>es es'. dir_at (dk_root s) p = Some es \<and> map_of es n = Some (Dir es')"
    using r by (auto split: option.splits disk_node.splits)
qed


text \<open>
  Properties of the disk that survive every step which changes no readable generation: all
  preparations of a publication and all removals of temporary data are such steps.
\<close>

locale tree_invariant =
  fixes I :: "disk \<Rightarrow> bool"
  assumes same_tree: "I s \<Longrightarrow> dk_root s' = dk_root s \<Longrightarrow> dk_history s' = dk_history s \<Longrightarrow> I s'"
    and same_views: "I s \<Longrightarrow> view (dk_root s') = view (dk_root s) \<Longrightarrow> dk_history s' = dk_root s' # dk_history s \<Longrightarrow> I s'"
begin

lemma keeps_readonly: "readonly m \<Longrightarrow> keeps I m"
  unfolding keeps_def readonly_def by (blast intro: same_tree)

lemmas keeps_reading = keeps_readonly [OF readonly_basic(1)] keeps_readonly [OF readonly_basic(2)]
  keeps_readonly [OF readonly_basic(3)] keeps_readonly [OF readonly_basic(4)] keeps_readonly [OF readonly_basic(5)]
  keeps_readonly [OF readonly_basic(6)] keeps_readonly [OF readonly_calls(1)] keeps_readonly [OF readonly_calls(2)]
  keeps_readonly [OF readonly_files(1)] keeps_readonly [OF readonly_files(2)] keeps_readonly [OF readonly_files(6)]
  keeps_readonly [OF readonly_files(7)] keeps_readonly [OF readonly_files(8)]

lemma keeps_modify: "(\<And>r. view (change_dir f p r) = view r) \<Longrightarrow> keeps I (modify p f)"
  using same_views by (fastforce simp: keeps_def modify_run)

lemma keeps_remove_task: "keeps I (remove_directory_at [] t)"
  unfolding keeps_def
proof (intro allI impI)
  fix s assume I: "I s"
  obtain r s' where r: "remove_directory_at [] t s = (r, s')" by fastforce
  have "I s'"
  proof (cases "dk_root s' = dk_root s \<and> dk_history s' = dk_history s")
    case True
    then show ?thesis using same_tree [OF I] by blast
  next
    case False
    then obtain es where "dir_at (dk_root s) [] = Some es" "map_of es t = Some (Dir [])"
        "dk_root s' = change_dir (filter (\<lambda>e. fst e \<noteq> t)) [] (dk_root s)" and h: "dk_history s' = dk_root s' # dk_history s"
      using remove_directory_run [OF r] by blast
    then have "view (dk_root s') = view (dk_root s)" by (simp add: view_remove_empty)
    then show ?thesis using same_views [OF I] h by blast
  qed
  then show "I (snd (remove_directory_at [] t s))" using r by simp
qed

lemma keeps_remove_hidden:
  assumes "hidden n"
  shows "keeps I (remove_directory_at [t] n)" "keeps I (unlink_file_at [t, n] m)"
  unfolding remove_directory_at_def unlink_file_at_def
  by (intro io_keeps keeps_reading keeps_modify view_remove_hidden [OF assms] view_change_hidden [OF assms])+

lemma keeps_remove_children: "hidden n \<Longrightarrow> keeps I (remove_children [t, n] names)"
  by (induction names) (auto intro!: io_keeps keeps_reading keeps_remove_hidden simp del: io_bind_return)

lemma keeps_open_then:
  assumes "keeps I (f (p @ [n]))"
  shows "keeps I (io_bind (open_directory_at p n) f)"
  unfolding keeps_def
proof (intro allI impI)
  fix s assume v: "I s"
  obtain r u where r: "open_directory_at p n s = (r, u)" by fastforce
  have u: "I u" using keepsD [OF keeps_readonly [OF readonly_files(1)] v r] .
  show "I (snd (io_bind (open_directory_at p n) f s))"
  proof (cases r)
    case (Inr d)
    then have "d = p @ [n]" using r open_directory_Ok(1) by blast
    then show ?thesis using assms u r Inr by (simp add: keeps_def io_bind_def)
  qed (use u r in \<open>simp add: io_bind_def\<close>)
qed

lemma keeps_remove_flat: "hidden n \<Longrightarrow> keeps I (remove_flat_directory_at [t] n)"
  unfolding remove_flat_directory_at_def
  by (intro keeps_open_then io_keeps keeps_reading) (simp_all add: keeps_remove_children keeps_remove_hidden)

lemma keeps_create_task: "keeps I (create_directory_at [] t)"
  unfolding create_directory_at_def
  by (intro io_keeps keeps_reading keeps_modify keeps_remove_task) (simp add: view_new_task)

lemma keeps_create_hidden: "hidden n \<Longrightarrow> keeps I (create_directory_at [t] n)"
  unfolding create_directory_at_def
  by (intro io_keeps keeps_reading keeps_modify keeps_remove_hidden view_add_hidden)

lemma keeps_write_hidden: "hidden n \<Longrightarrow> keeps I (write_create_only_file [t, n] m x)"
  unfolding write_create_only_file_def
  by (intro io_keeps keeps_reading keeps_modify view_change_hidden)

lemma keeps_fill: "hidden n \<Longrightarrow> keeps I (fill_temporary c i b [t, n])"
  unfolding fill_temporary_def write_object_def
  by (intro io_keeps keeps_reading keeps_write_hidden)

lemma keeps_open_or_create: "keeps I (open_or_create_directory_at [] t)"
  unfolding keeps_def
proof (intro allI impI)
  fix s assume v: "I s"
  obtain r u where r: "open_directory_at [] t s = (r, u)" by fastforce
  have u: "I u" using keepsD [OF keeps_readonly [OF readonly_files(1)] v r] .
  have k: "keeps I (io_bind check_metadata (\<lambda>_. io_return (d, False)))"
      "keeps I (io_bind (create_directory_at [] t) (\<lambda>directory. io_return (directory, True)))" for d :: "string list"
    by (intro io_keeps keeps_reading keeps_create_task)+
  show "I (snd (open_or_create_directory_at [] t s))"
    using u r k by (auto simp: open_or_create_directory_at_def keeps_def split: sum.splits)
qed

end

interpretation history: tree_invariant "views_in F" for F
  by unfold_locales (auto simp: views_in_def)

interpretation current: tree_invariant "\<lambda>s. view (dk_root s) \<in> F" for F
  by unfold_locales auto

lemma dir_at_append: "dir_at r (p @ [n]) = Option.bind (dir_at r p)
    (\<lambda>es. case map_of es n of Some (Dir es') \<Rightarrow> Some es' | _ \<Rightarrow> None)"
  by (induction p arbitrary: r) (auto split: option.splits disk_node.splits)

lemma call_Ok: "call s = (Ok (), u) \<Longrightarrow> dk_root u = dk_root s \<and> dk_history u = dk_history s"
  using readonlyD [OF readonly_calls(1)] by blast

lemma syscall_Ok: "syscall s = (Ok f, u) \<Longrightarrow> dk_root u = dk_root s \<and> dk_history u = dk_history s"
  using readonlyD [OF readonly_basic(4)] by blast

lemma entries_at_Ok: "entries_at p s = (Ok es, u) \<longleftrightarrow> u = s \<and> dir_at (dk_root s) p = Some es"
  by (auto simp: calm_entries split: option.splits)

lemma modify_Ok: "modify p f s = (Ok x, u) \<Longrightarrow> dk_root u = change_dir f p (dk_root s)"
  by (auto simp: modify_run)

lemma create_directory_Ok:
  assumes "create_directory_at p n s = (Ok d, s')"
  shows "d = p @ [n]" "dir_at (dk_root s') (p @ [n]) = Some []"
proof -
  obtain u1 es u2 u3 u4 u5 where steps: "call s = (Ok (), u1)" "dir_at (dk_root u1) p = Some es" "map_of es n = None"
      "modify p (\<lambda>es. es @ [(n, Dir [])]) u1 = (Ok (), u2)" "syscall u2 = (Ok None, u3)"
      "open_directory_at p n u3 = (Ok d, u4)" "call u4 = (Ok (), u5)" "check_metadata u5 = (Ok (), s')"
    using assms by (auto simp: create_directory_at_def io_bind_Ok entries_at_Ok split: if_splits)
  show "d = p @ [n]" by (rule open_directory_Ok(1) [OF steps(6)])
  have "dk_root s' = dk_root u2"
    using syscall_Ok [OF steps(5)] open_directory_Ok(2) [OF steps(6)] call_Ok [OF steps(7)]
      readonlyD [OF readonly_calls(2) steps(8)] by simp
  then have "dir_at (dk_root s') p = Some (es @ [(n, Dir [])])"
    using modify_Ok [OF steps(4)] steps(2) by (simp add: dir_at_change)
  then show "dir_at (dk_root s') (p @ [n]) = Some []" using steps(3) by (simp add: dir_at_append map_add_def)
qed

lemma map_other: "map_of es n = None \<Longrightarrow> map (\<lambda>(m, x). (m, if m = n then y else x)) es = es"
  by (induction es) (auto split: if_splits)

lemma write_file_Ok:
  assumes "write_create_only_file p n x s = (Ok (), s')" "dir_at (dk_root s) p = Some es"
  shows "dir_at (dk_root s') p = Some (es @ [(n, File x)])" "map_of es n = None"
proof -
  obtain u1 u2 u3 u4 u5 where steps: "call s = (Ok (), u1)" "map_of es n = None"
      "modify p (\<lambda>es. es @ [(n, File [])]) u1 = (Ok (), u2)" "call u2 = (Ok (), u3)" "syscall u3 = (Ok None, u4)"
      "modify p (map (\<lambda>(m, y). (m, if m = n then File x else y))) u4 = (Ok (), u5)" "call u5 = (Ok (), s')"
    using assms call_Ok
    by (fastforce simp: write_create_only_file_def io_bind_Ok entries_at_Ok split: if_splits option.splits)
  show "map_of es n = None" by (rule steps(2))
  have "dk_root s' = dk_root u5" "dk_root u4 = dk_root u2" "dk_root u1 = dk_root s"
    using call_Ok [OF steps(7)] syscall_Ok [OF steps(5)] call_Ok [OF steps(4)] call_Ok [OF steps(1)] by simp_all
  then show "dir_at (dk_root s') p = Some (es @ [(n, File x)])"
    using modify_Ok [OF steps(6)] modify_Ok [OF steps(3)] assms(2) map_other [OF steps(2)]
    by (simp add: dir_at_change)
qed

lemma write_object_Ok:
  assumes "write_object c p i kind m s = (Ok (), s')" "dir_at (dk_root s) p = Some es"
  obtains salt nonce e where "encrypt_object (cs_lib c) (cs_key c) i kind salt nonce m = Ok e"
    "dir_at (dk_root s') p = Some (es @ [(file_name kind, File e)])"
proof -
  obtain d u e where d: "draw s = (Ok d, u)"
      "encrypt_object (cs_lib c) (cs_key c) i kind (random_salt (cs_lib c) d) (random_nonce (cs_lib c) d) m = Ok e"
      "write_create_only_file p (file_name kind) e u = (Ok (), s')"
    using assms(1) by (auto simp: write_object_def io_bind_Ok)
  have "dk_root u = dk_root s" using readonlyD [OF readonly_basic(5) d(1)] by simp
  then show thesis using write_file_Ok [OF d(3)] assms(2) d(2) that by auto
qed

text \<open>The files of a bundle, each encrypted with its own salt and nonce.\<close>

definition sealed_as :: "cache_store \<Rightarrow> cache_id \<Rightarrow> object_kind \<Rightarrow> u8 list \<Rightarrow> u8 list \<Rightarrow> bool" where
  "sealed_as c i kind m e \<longleftrightarrow>
     decrypt_object (cs_lib c) (cs_key c) i kind e = Ok m \<and> length m \<le> max_plaintext_bytes kind
     \<and> length e = HEADER_BYTES + length m + TAG_BYTES"

definition bundle_entries :: "u8 list \<Rightarrow> u8 list \<Rightarrow> u8 list \<Rightarrow> entries" where
  "bundle_entries a b d = [(file_name Manifest, File a), (file_name QwenWav, File b), (file_name DeviceEiad, File d)]"

lemma read_bundle_entries:
  assumes "sealed_as c i Manifest (cb_manifest_json b) e1" "sealed_as c i QwenWav (cb_qwen_wav b) e2"
    "sealed_as c i DeviceEiad (cb_device_eiad b) e3"
  shows "read_files c i (bundle_entries e1 e2 e3) = Ok b"
proof -
  let ?es = "bundle_entries e1 e2 e3"
  let ?s = "disk_of ?es [] 0"
  have s: "dk_plan ?s = []" "dir_at (dk_root ?s) [] = Some ?es" by (simp_all add: disk_of_def)
  have m: "map_of ?es (file_name Manifest) = Some (File e1)" "map_of ?es (file_name QwenWav) = Some (File e2)"
      "map_of ?es (file_name DeviceEiad) = Some (File e3)"
    by (simp_all add: bundle_entries_def)
  have k: "kind_of_name (file_name Manifest) = Some Manifest" "kind_of_name (file_name QwenWav) = Some QwenWav"
      "kind_of_name (file_name DeviceEiad) = Some DeviceEiad"
    by (simp_all add: kind_of_name_def ALL_KINDS_def)
  have o: "open_file_at [] (file_name kind) ?s = (Ok (File e), ?s)" if "map_of ?es (file_name kind) = Some (File e)" for kind e
    using that s by (simp add: open_file_at_def io_bind_def calm_entries)
  have l: "file_length (File e) ?s = (Ok (length e), ?s)" "read_to_end (File e) ?s = (Ok e, ?s)" for e
    using s by (simp_all add: file_length_def read_to_end_def io_bind_def)
  have n: "directory_names [] ?s = (Ok [file_name Manifest, file_name QwenWav, file_name DeviceEiad], ?s)"
    using s by (simp add: directory_names_def io_bind_def calm_entries bundle_entries_def del: file_name.simps)
  have e: "\<not> max_encoded Manifest < length e1" "\<not> max_encoded QwenWav < length e2" "\<not> max_encoded DeviceEiad < length e3"
      "\<not> length e1 < HEADER_BYTES + TAG_BYTES" "\<not> length e2 < HEADER_BYTES + TAG_BYTES" "\<not> length e3 < HEADER_BYTES + TAG_BYTES"
    using assms by (simp_all add: sealed_as_def max_encoded_def)
  have sum: "sum_sizes 0 [length e1, length e2, length e3] = Ok (length e1 + length e2 + length e3)"
    using assms by (simp add: sealed_as_def checked_add_def cache_consts)
  have r: "read_object c [] i Manifest ?s = (Ok (cb_manifest_json b), ?s)" "read_object c [] i QwenWav ?s = (Ok (cb_qwen_wav b), ?s)"
      "read_object c [] i DeviceEiad ?s = (Ok (cb_device_eiad b), ?s)"
    using assms e by (simp_all add: read_object_def io_bind_def missing_if_not_found_def o [OF m(1)] o [OF m(2)] o [OF m(3)] l
        sealed_as_def del: file_name.simps)
  have x: "ensure_no_extra_entries [] ?s = (Ok (), ?s)"
    using e by (simp add: ensure_no_extra_entries_def inspect_final_directory_def io_bind_def n k o [OF m(1)] o [OF m(2)] o [OF m(3)] l
        ALL_KINDS_def sum del: file_name.simps sum_sizes.simps)
  show ?thesis by (simp add: read_files_def read_generation_def io_bind_def r x)
qed

lemma validate_bundle_Ok:
  assumes "validate_bundle b = Ok ()"
  shows "length (cb_manifest_json b) \<le> max_plaintext_bytes Manifest" "length (cb_qwen_wav b) \<le> max_plaintext_bytes QwenWav"
    "length (cb_device_eiad b) \<le> max_plaintext_bytes DeviceEiad"
  using assms by (auto simp: validate_bundle_def too_large_def split: if_splits)

lemma fill_temporary_Ok:
  assumes lib: "gcm_correct (cs_lib c)" and b: "validate_bundle b = Ok ()"
    and fill: "fill_temporary c i b p s = (Ok (), s')" and d: "dir_at (dk_root s) p = Some []"
  obtains fs where "dir_at (dk_root s') p = Some fs" "read_files c i fs = Ok b"
proof -
  obtain u1 u2 u3 where w: "write_object c p i Manifest (cb_manifest_json b) s = (Ok (), u1)"
      "write_object c p i QwenWav (cb_qwen_wav b) u1 = (Ok (), u2)"
      "write_object c p i DeviceEiad (cb_device_eiad b) u2 = (Ok (), u3)" "sync_directory p u3 = (Ok (), s')"
    using fill by (auto simp: fill_temporary_def io_bind_Ok)
  obtain s1 n1 e1 where e1: "encrypt_object (cs_lib c) (cs_key c) i Manifest s1 n1 (cb_manifest_json b) = Ok e1"
      "dir_at (dk_root u1) p = Some [(file_name Manifest, File e1)]"
    using write_object_Ok [OF w(1) d] by auto
  obtain s2 n2 e2 where e2: "encrypt_object (cs_lib c) (cs_key c) i QwenWav s2 n2 (cb_qwen_wav b) = Ok e2"
      "dir_at (dk_root u2) p = Some [(file_name Manifest, File e1), (file_name QwenWav, File e2)]"
    using write_object_Ok [OF w(2) e1(2)] by auto
  obtain s3 n3 e3 where e3: "encrypt_object (cs_lib c) (cs_key c) i DeviceEiad s3 n3 (cb_device_eiad b) = Ok e3"
      "dir_at (dk_root u3) p = Some (bundle_entries e1 e2 e3)"
    using write_object_Ok [OF w(3) e2(2)] by (auto simp: bundle_entries_def)
  note v = validate_bundle_Ok [OF b]
  have "read_files c i (bundle_entries e1 e2 e3) = Ok b"
    using decrypt_encrypt_object [OF lib e1(1) v(1)] decrypt_encrypt_object [OF lib e2(1) v(2)]
      decrypt_encrypt_object [OF lib e3(1) v(3)] v
    by (intro read_bundle_entries) (simp_all add: sealed_as_def)
  moreover have "dk_root s' = dk_root u3" using readonlyD [OF readonly_files(6) w(4)] by simp
  ultimately show thesis using e3(2) that by simp
qed

lemma rename_Ok:
  assumes "rename_noreplace p old new s = (Ok (), s')"
  obtains es where "dir_at (dk_root s) p = Some es" "map_of es old \<noteq> None" "map_of es new = None"
    "dk_root s' = change_dir (map (\<lambda>(m, x). (if m = old then new else m, x))) p (dk_root s)"
    "dk_history s' = dk_root s' # dk_history s"
proof -
  obtain u es where u: "call s = (Ok (), u)" "dir_at (dk_root u) p = Some es" "map_of es old \<noteq> None" "map_of es new = None"
      "modify p (map (\<lambda>(m, x). (if m = old then new else m, x))) u = (Ok (), s')"
    using assms by (auto simp: rename_noreplace_def io_bind_Ok entries_at_Ok split: if_splits)
  then show thesis using call_Ok [OF u(1)] that by (auto simp: modify_run)
qed

lemma rename_Err:
  assumes "rename_noreplace p old new s = (Err e, s')"
  shows "dk_root s' = dk_root s" "dk_history s' = dk_history s"
proof -
  obtain r u where u: "call s = (r, u)" "dk_root u = dk_root s" "dk_history u = dk_history s"
    using readonlyD [OF readonly_calls(1)] by (metis prod.exhaust)
  then show "dk_root s' = dk_root s" "dk_history s' = dk_history s"
    using assms by (auto simp: rename_noreplace_def io_bind_def calm_entries modify_run split: sum.splits option.splits if_splits)
qed

end
