(* ===== verification/Cache_Store.thy ===== *)
theory Cache_Store
  imports Cache_Views
begin

text \<open>
  Publication and reconciliation of the summary cache: atomicity under failures and crashes,
  retention of what is referenced, and success when nothing fails.
\<close>

text \<open>The two ways a publication can end: no trace in any readable generation, or the new one appears.\<close>

definition publication :: "cache_store \<Rightarrow> cache_id \<Rightarrow> cache_bundle \<Rightarrow> (cache_id \<Rightarrow> io_error + entries) \<Rightarrow> cache_error + unit \<Rightarrow> disk \<Rightarrow> bool" where
  "publication c i b V res s \<longleftrightarrow>
     (res \<noteq> Ok () \<and> views_in {V} s) \<or>
     (\<exists>fs. V i = Inl NotFound \<and> read_files c i fs = Ok b \<and> views_in {V, V(i := Inr fs)} s \<and> view (dk_root s) = V(i := Inr fs))"

lemma publish_temporary_publication:
  assumes lib: "gcm_correct (cs_lib c)" and b: "validate_bundle b = Ok ()" and n: "hidden n"
    and v: "views_in {V} s" and d: "dir_at (dk_root s) [task_directory_name i, n] = Some []"
    and run: "publish_temporary c i b [task_directory_name i] n [task_directory_name i, n] s = (res, s')"
  shows "publication c i b V res s'"
proof -
  let ?t = "task_directory_name i"
  obtain r1 u1 where f: "fill_temporary c i b [?t, n] s = (r1, u1)" by fastforce
  have v1: "views_in {V} u1" using keepsD [OF history.keeps_fill [OF n] v f] .
  have cleanup: "views_in {V} (snd (io_ignore (remove_flat_directory_at [?t] n) u))" if "views_in {V} u" for u
    using keeps_ignore [OF history.keeps_remove_flat [OF n]] that by (simp add: keeps_def)
  show ?thesis
  proof (cases r1)
    case (Inl e)
    then have "res = Err e" "s' = snd (io_ignore (remove_flat_directory_at [?t] n) u1)"
      using run f by (auto simp: publish_temporary_def io_bind_def)
    then show ?thesis using cleanup [OF v1] by (simp add: publication_def)
  next
    case (Inr x)
    obtain fs where fs: "dir_at (dk_root u1) [?t, n] = Some fs" "read_files c i fs = Ok b"
      using fill_temporary_Ok [OF lib b _ d] f Inr by (metis old.unit.exhaust)
    obtain r2 u2 where r2: "rename_noreplace [?t] n (generation_name i) u1 = (r2, u2)" by fastforce
    show ?thesis
    proof (cases r2)
      case (Inl e)
      then have "views_in {V} u2" using v1 r2 rename_Err [of "[?t]" n "generation_name i" u1 e u2] by (simp add: views_in_def)
      moreover have "res = Err e" "s' = snd (io_ignore (remove_flat_directory_at [?t] n) u2)"
        using run f Inr r2 Inl by (auto simp: publish_temporary_def io_bind_def)
      ultimately show ?thesis using cleanup by (simp add: publication_def)
    next
      case (Inr y)
      with r2 have "rename_noreplace [?t] n (generation_name i) u1 = (Ok (), u2)" by simp
      then obtain es where es: "dir_at (dk_root u1) [?t] = Some es" "map_of es (generation_name i) = None"
          "dk_root u2 = change_dir (map (\<lambda>(m, x). (if m = n then generation_name i else m, x))) [?t] (dk_root u1)"
          "dk_history u2 = dk_root u2 # dk_history u1"
        by (rule rename_Ok)
      have m: "map_of es n = Some (Dir fs)"
        using fs(1) es(1) dir_at_append [of "dk_root u1" "[?t]" n] by (auto split: option.splits disk_node.splits)
      have view: "view (dk_root u2) = V(i := Inr fs)"
        using v1 view_publish [OF es(1,2) m n] es(3) by (simp add: views_in_def)
      have old: "V i = Inl NotFound"
        using v1 es(1,2) by (auto simp: views_in_def view_def sub_dir_def split: option.splits disk_node.splits)
      have "views_in {V, V(i := Inr fs)} u2" using v1 view es(4) by (auto simp: views_in_def)
      moreover have "sync_directory [?t] u2 = (res, s')"
        using run f \<open>r1 = Inr x\<close> r2 Inr by (simp add: publish_temporary_def io_bind_def)
      then have "dk_root s' = dk_root u2" "dk_history s' = dk_history u2" using readonlyD [OF readonly_files(6)] by blast+
      ultimately show ?thesis using view old fs(2) by (auto simp: publication_def views_in_def)
    qed
  qed
qed

lemma open_or_create_Ok:
  assumes "open_or_create_directory_at p t s = (Ok (d, created), s')"
  shows "d = p @ [t]"
  using assms open_directory_Ok(1) create_directory_Ok(1)
  by (fastforce simp: open_or_create_directory_at_def io_bind_Ok split: prod.splits sum.splits if_splits)

lemma publish_observed_publication:
  assumes lib: "gcm_correct (cs_lib c)" and v: "views_in {V} s" and run: "publish_observed c i b s = (res, s')"
  shows "publication c i b V res s'"
proof (cases "\<exists>u n. hidden n \<and> validate_bundle b = Ok () \<and> views_in {V} u \<and> dir_at (dk_root u) [task_directory_name i, n] = Some [] \<and>
    publish_temporary c i b [task_directory_name i] n [task_directory_name i, n] u = (res, s')")
  case True
  then show ?thesis using publish_temporary_publication [OF lib] by blast
next
  case False
  let ?t = "task_directory_name i"
  have "res \<noteq> Ok () \<and> views_in {V} s'"
  proof (cases "validate_bundle b")
    case (Inr x)
    then have vb: "validate_bundle b = Ok ()" by simp
    show ?thesis
    proof (cases "encoded_bundle_bytes b")
      case (Inr bytes)
      obtain r1 u1 where a: "audit c s = (r1, u1)" by fastforce
      have v1: "views_in {V} u1" using keepsD [OF history.keeps_readonly [OF readonly_scan(2)] v a] .
      show ?thesis
      proof (cases r1)
        case (Inr current)
        obtain r2 u2 where o2: "open_or_create_directory_at [] ?t u1 = (r2, u2)" by fastforce
        have v2: "views_in {V} u2" using keepsD [OF history.keeps_open_or_create v1 o2] .
        show ?thesis
        proof (cases r2)
          case (Inr tc)
          then obtain created where tc: "r2 = Ok ([?t], created)" using open_or_create_Ok [of "[]" ?t u1] o2 by (cases tc) auto
          obtain r3 u3 where s3: "(if created then sync_directory [] else io_return ()) u2 = (r3, u3)" by fastforce
          have sync: "readonly (if created then sync_directory [] else io_return ())" by (intro io_readonly)
          have v3: "views_in {V} u3" using keepsD [OF history.keeps_readonly [OF sync] v2 s3] .
          obtain r4 u4 where e4: "entry_exists [?t] (generation_name i) u3 = (r4, u4)" by fastforce
          have v4: "views_in {V} u4" using keepsD [OF history.keeps_readonly [OF readonly_files(7)] v3 e4] .
          obtain d u5 where d5: "draw u4 = (Ok d, u5)" by (simp add: draw_def)
          have v5: "views_in {V} u5" using keepsD [OF history.keeps_readonly [OF readonly_basic(5)] v4 d5] .
          define n where "n = TEMP_PREFIX @ new_uuid (cs_lib c) d"
          have hn: "hidden n" by (auto simp: hidden_def n_def)
          obtain r6 u6 where c6: "create_directory_at [?t] n u5 = (r6, u6)" by fastforce
          have v6: "views_in {V} u6" using keepsD [OF history.keeps_create_hidden [OF hn] v5 c6] .
          have no: "\<not> publish_temporary c i b [?t] n [?t, n] u6 = (res, s')" if "r6 = Ok h" for h
            using False hn vb v6 create_directory_Ok [of "[?t]" n u5 h u6] c6 that by auto
          have "r6 = Ok h \<Longrightarrow> h = [?t, n]" for h using create_directory_Ok(1) [of "[?t]" n u5 h u6] c6 by simp
          then show ?thesis
            using run v1 v2 v3 v4 v5 v6 no
            by (cases r3; cases r4; cases r6)
               (auto simp: publish_observed_def io_bind_def Let_def n_def [symmetric] vb \<open>encoded_bundle_bytes b = Inr bytes\<close>
                 a \<open>r1 = Inr current\<close> o2 tc s3 e4 d5 c6 split: if_splits)
        qed (use run vb \<open>encoded_bundle_bytes b = Inr bytes\<close> a \<open>r1 = Inr current\<close> o2 v1 v2 in
              \<open>auto simp: publish_observed_def io_bind_def Let_def split: if_splits\<close>)
      qed (use run vb \<open>encoded_bundle_bytes b = Inr bytes\<close> a v1 in \<open>auto simp: publish_observed_def io_bind_def\<close>)
    qed (use run vb v in \<open>auto simp: publish_observed_def io_bind_def\<close>)
  qed (use run v in \<open>auto simp: publish_observed_def io_bind_def\<close>)
  then show ?thesis by (simp add: publication_def)
qed

lemma publication_readonly:
  "publication c i b V (Ok ()) s \<Longrightarrow> readonly m \<Longrightarrow> m s = (r, s') \<Longrightarrow>
     \<exists>fs. V i = Inl NotFound \<and> read_files c i fs = Ok b \<and> views_in {V, V(i := Inr fs)} s' \<and> view (dk_root s') = V(i := Inr fs)"
  using readonlyD [of m s r s'] by (auto simp: publication_def views_in_def)

lemma publish_or_verify_publication:
  assumes lib: "gcm_correct (cs_lib c)" and v: "views_in {V} s" and run: "publish_or_verify_unlocked c i b s = (res, s')"
  shows "(views_in {V} s' \<and> (res = Ok () \<longrightarrow> peek c (dk_root s') i = Ok b)) \<or>
    (\<exists>fs. V i = Inl NotFound \<and> read_files c i fs = Ok b \<and> views_in {V, V(i := Inr fs)} s' \<and> view (dk_root s') = V(i := Inr fs))"
proof -
  obtain r1 u1 where r1: "read_unlocked c i s = (r1, u1)" by fastforce
  have v1: "views_in {V} u1" using keepsD [OF history.keeps_readonly [OF readonly_read(2)] v r1] .
  show ?thesis
  proof (cases r1)
    case (Inr e)
    then show ?thesis
      using run r1 v1 read_peek [of c i s e u1] by (auto simp: publish_or_verify_unlocked_def split: if_splits)
  next
    case (Inl e)
    show ?thesis
    proof (cases "e = MissingObject")
      case True
      obtain r2 u2 where p: "publish_observed c i b u1 = (r2, u2)" by fastforce
      note pub = publish_observed_publication [OF lib v1 p]
      show ?thesis
      proof (cases r2)
        case (Inr x)
        then have "publication c i b V (Ok ()) u2" using pub by simp
        moreover obtain r3 u3 where r3: "read_unlocked c i u2 = (r3, u3)" by fastforce
        moreover have "s' = u3" using run r1 Inl True p Inr r3
          by (cases r3) (auto simp: publish_or_verify_unlocked_def io_bind_def split: if_splits)
        ultimately show ?thesis using publication_readonly [OF _ readonly_read(2) r3] by blast
      next
        case (Inl e2)
        then have "res = Err e2" "s' = u2" using run r1 \<open>r1 = Inl e\<close> True p
          by (auto simp: publish_or_verify_unlocked_def io_bind_def)
        then show ?thesis using pub by (auto simp: publication_def)
      qed
    next
      case False
      then show ?thesis using run r1 v1 Inl by (auto simp: publish_or_verify_unlocked_def)
    qed
  qed
qed

section \<open>Reconciliation\<close>

lemma keeps_for_each: "(\<And>x. x \<in> set xs \<Longrightarrow> keeps I (f x)) \<Longrightarrow> keeps I (for_each f xs)"
proof (induction xs)
  case (Cons x xs)
  then show ?case unfolding for_each.simps by (intro keeps_bind) simp_all
qed (simp add: keeps_def)

lemma for_each_Ok: "for_each f xs s = (Ok (), s') \<Longrightarrow> x \<in> set xs \<Longrightarrow> \<exists>u u'. f x u = (Ok (), u')"
  by (induction xs arbitrary: s) (auto simp: io_bind_Ok)

lemma set_btree_set [simp]: "set (btree_set is) = set is"
  by (simp add: btree_set_def)

text \<open>What a successful scan reports.\<close>

definition yields :: "('a \<Rightarrow> bool) \<Rightarrow> 'a io \<Rightarrow> bool" where
  "yields P m \<longleftrightarrow> (\<forall>s x s'. m s = (Ok x, s') \<longrightarrow> P x)"

lemma strip_prefix_Some: "strip_prefix TEMP_PREFIX n = Some u \<Longrightarrow> hidden n"
  by (auto simp: strip_prefix_def hidden_def split: if_splits) (metis append_take_drop_id)

lemma hidden_strip: "hidden n \<Longrightarrow> strip_prefix TEMP_PREFIX n \<noteq> None"
  by (auto simp: strip_prefix_def hidden_def)

definition temporaries_hidden :: "cache_scan \<Rightarrow> bool" where
  "temporaries_hidden sc \<longleftrightarrow> (\<forall>t\<in>set (sc_temporaries sc). hidden (tg_temporary_name t))"

lemma add_bytes_Ok: "add_bytes n sc s = (Ok sc', s') \<longleftrightarrow> s' = s \<and>
    (\<exists>m. checked_add (encrypted_bytes (sc_audit sc)) n = Some m \<and> sc' = sc\<lparr>sc_audit := (sc_audit sc)\<lparr>encrypted_bytes := m\<rparr>\<rparr>)"
  by (auto simp: add_bytes_def and_then_Ok_iff ok_or_def split: option.splits)

lemma scan_generation_Ok:
  assumes "scan_generation lib t n sc s = (Ok sc', s')"
  shows "temporaries_hidden sc \<Longrightarrow> temporaries_hidden sc'"
    "set (sc_finalized sc) \<subseteq> set (sc_finalized sc')"
    "\<not> hidden n \<Longrightarrow> \<exists>i\<in>set (sc_finalized sc'). from_reference (t @ ''/'' @ n) = Ok i"
    "sc_tasks sc' = sc_tasks sc"
proof -
  have "(temporaries_hidden sc \<longrightarrow> temporaries_hidden sc') \<and> set (sc_finalized sc) \<subseteq> set (sc_finalized sc') \<and>
    (\<not> hidden n \<longrightarrow> (\<exists>i\<in>set (sc_finalized sc'). from_reference (t @ ''/'' @ n) = Ok i)) \<and> sc_tasks sc' = sc_tasks sc"
  proof (cases "strip_prefix TEMP_PREFIX n")
    case None
    then show ?thesis using assms
      by (auto simp: scan_generation_def io_bind_Ok add_bytes_Ok temporaries_hidden_def map_err_Ok_iff split: if_splits)
  next
    case (Some u)
    then show ?thesis using assms strip_prefix_Some [OF Some]
      by (auto simp: scan_generation_def io_bind_Ok add_bytes_Ok temporaries_hidden_def split: if_splits)
  qed
  then show "temporaries_hidden sc \<Longrightarrow> temporaries_hidden sc'" "set (sc_finalized sc) \<subseteq> set (sc_finalized sc')"
    "\<not> hidden n \<Longrightarrow> \<exists>i\<in>set (sc_finalized sc'). from_reference (t @ ''/'' @ n) = Ok i"
    "sc_tasks sc' = sc_tasks sc" by blast+
qed

lemma scan_generations_Ok:
  assumes "scan_generations lib t names sc s = (Ok sc', s')"
  shows "temporaries_hidden sc \<Longrightarrow> temporaries_hidden sc'"
    "set (sc_finalized sc) \<subseteq> set (sc_finalized sc')"
    "n \<in> set names \<Longrightarrow> \<not> hidden n \<Longrightarrow> \<exists>i\<in>set (sc_finalized sc'). from_reference (t @ ''/'' @ n) = Ok i"
    "sc_tasks sc' = sc_tasks sc"
proof -
  have "(temporaries_hidden sc \<longrightarrow> temporaries_hidden sc') \<and> set (sc_finalized sc) \<subseteq> set (sc_finalized sc') \<and>
    (\<forall>n\<in>set names. \<not> hidden n \<longrightarrow> (\<exists>i\<in>set (sc_finalized sc'). from_reference (t @ ''/'' @ n) = Ok i)) \<and> sc_tasks sc' = sc_tasks sc"
    using assms
  proof (induction names arbitrary: sc s)
    case (Cons n names)
    then obtain sc1 s1 where 1: "scan_generation lib t n sc s = (Ok sc1, s1)" "scan_generations lib t names sc1 s1 = (Ok sc', s')"
      by (auto simp: io_bind_Ok)
    note ih = Cons.IH [OF 1(2)] and g = scan_generation_Ok [OF 1(1)]
    have "\<exists>i\<in>set (sc_finalized sc'). from_reference (t @ ''/'' @ n) = Ok i" if "\<not> hidden n"
      using g(3) [OF that] ih by blast
    with ih g(1,2,4) show ?case by auto
  qed simp
  then show "temporaries_hidden sc \<Longrightarrow> temporaries_hidden sc'" "set (sc_finalized sc) \<subseteq> set (sc_finalized sc')"
    "n \<in> set names \<Longrightarrow> \<not> hidden n \<Longrightarrow> \<exists>i\<in>set (sc_finalized sc'). from_reference (t @ ''/'' @ n) = Ok i"
    "sc_tasks sc' = sc_tasks sc" by blast+
qed

lemma task_name_ordinary:
  "task_directory_name i \<noteq> CACHE_LOCK_FILE" "task_directory_name i \<noteq> KEY_MARKER_FILE"
proof -
  have "length (task_directory_name i) = 64" by (simp add: task_directory_name_def)
  then show "task_directory_name i \<noteq> CACHE_LOCK_FILE" "task_directory_name i \<noteq> KEY_MARKER_FILE"
    by (auto simp: CACHE_LOCK_FILE_def KEY_MARKER_FILE_def)
qed

lemma sub_dir_name: "sub_dir n es \<noteq> Inl NotFound \<Longrightarrow> n \<in> set (map fst es)"
  by (auto simp: sub_dir_def dest!: map_of_SomeD split: option.splits) force

lemma scan_task_run:
  assumes "scan_task lib t sc s = (Ok sc', s')" "t \<noteq> CACHE_LOCK_FILE" "t \<noteq> KEY_MARKER_FILE"
  obtains u es where "dir_at (dk_root s) [t] = Some es"
    "scan_generations lib t (map fst es) (sc\<lparr>sc_tasks := t # sc_tasks sc\<rparr>) u = (Ok sc', s')"
proof -
  obtain d u1 u2 u3 names u4 where r: "corrupt_on_error (open_directory_at [] t) s = (Ok d, u1)"
      "check_metadata u1 = (Ok (), u2)" "call u2 = (Ok (), u3)" "directory_names d u3 = (Ok names, u4)"
      "scan_generations lib t names (sc\<lparr>sc_tasks := t # sc_tasks sc\<rparr>) u4 = (Ok sc', s')"
    using assms by (auto simp: scan_task_def io_bind_Ok split: if_splits)
  have opened: "open_directory_at [] t s = (Ok d, u1)"
    using r(1) by (auto simp: corrupt_on_error_def split: prod.splits sum.splits)
  have root: "dk_root u3 = dk_root s"
    using open_directory_Ok(2) [OF opened] readonlyD [OF readonly_calls(2) r(2)] call_Ok [OF r(3)] by simp
  obtain u5 es where es: "call u3 = (Ok (), u5)" "dir_at (dk_root u5) [t] = Some es" "names = map fst es"
    using r(4) open_directory_Ok(1) [OF opened] by (auto simp: directory_names_def io_bind_Ok entries_at_Ok)
  then have "dir_at (dk_root s) [t] = Some es" using call_Ok [OF es(1)] root by simp
  then show thesis using r(5) es(3) that by blast
qed

lemma scan_task_Ok:
  assumes "scan_task lib t sc s = (Ok sc', s')"
  shows "temporaries_hidden sc \<Longrightarrow> temporaries_hidden sc'"
    "set (sc_finalized sc) \<subseteq> set (sc_finalized sc')"
    "t = task_directory_name i \<Longrightarrow> view (dk_root s) i \<noteq> Inl NotFound \<Longrightarrow>
       \<exists>j\<in>set (sc_finalized sc'). from_reference (t @ ''/'' @ generation_name i) = Ok j"
proof -
  have "(temporaries_hidden sc \<longrightarrow> temporaries_hidden sc') \<and> set (sc_finalized sc) \<subseteq> set (sc_finalized sc')"
  proof (cases "t = CACHE_LOCK_FILE \<or> t = KEY_MARKER_FILE")
    case True
    then have "sc' = sc \<or> (\<exists>m. sc' = sc\<lparr>sc_audit := m\<rparr>)"
    proof
      assume "t = CACHE_LOCK_FILE"
      then have "scan_task lib t sc = io_bind (open_file_at [] CACHE_LOCK_FILE) (\<lambda>file. io_bind (file_length file) (\<lambda>_. io_return sc))"
        by (simp add: scan_task_def)
      then show ?thesis using assms by (auto simp: io_bind_Ok)
    next
      assume "t = KEY_MARKER_FILE"
      moreover have "KEY_MARKER_FILE \<noteq> CACHE_LOCK_FILE" by (simp add: KEY_MARKER_FILE_def CACHE_LOCK_FILE_def)
      ultimately have "scan_task lib t sc = io_bind (open_file_at [] KEY_MARKER_FILE) (\<lambda>file. io_bind (file_length file) (\<lambda>_.
             io_bind (file_length file) (\<lambda>len. add_bytes len sc)))"
        by (simp add: scan_task_def)
      then show ?thesis using assms by (auto simp: io_bind_Ok add_bytes_Ok)
    qed
    then show ?thesis by (auto simp: temporaries_hidden_def)
  next
    case False
    then have ne: "t \<noteq> CACHE_LOCK_FILE" "t \<noteq> KEY_MARKER_FILE" by simp_all
    obtain u es where "dir_at (dk_root s) [t] = Some es"
      and run: "scan_generations lib t (map fst es) (sc\<lparr>sc_tasks := t # sc_tasks sc\<rparr>) u = (Ok sc', s')"
      by (rule scan_task_run [OF assms ne])
    from scan_generations_Ok(1,2) [OF run] show ?thesis by (simp add: temporaries_hidden_def)
  qed
  then show "temporaries_hidden sc \<Longrightarrow> temporaries_hidden sc'" "set (sc_finalized sc) \<subseteq> set (sc_finalized sc')" by blast+
  assume t: "t = task_directory_name i" and v: "view (dk_root s) i \<noteq> Inl NotFound"
  have "t \<noteq> CACHE_LOCK_FILE" "t \<noteq> KEY_MARKER_FILE" using task_name_ordinary t by simp_all
  then obtain u es where es: "dir_at (dk_root s) [t] = Some es"
      "scan_generations lib t (map fst es) (sc\<lparr>sc_tasks := t # sc_tasks sc\<rparr>) u = (Ok sc', s')"
    by (rule scan_task_run [OF assms])
  have "sub_dir (generation_name i) es \<noteq> Inl NotFound"
    using v t es(1) by (auto simp: view_def sub_dir_def [of "task_directory_name i"] split: option.splits disk_node.splits)
  then have "generation_name i \<in> set (map fst es)" using sub_dir_name by simp
  moreover have "\<not> hidden (generation_name i)" using generation_not_hidden by blast
  ultimately show "\<exists>j\<in>set (sc_finalized sc'). from_reference (t @ ''/'' @ generation_name i) = Ok j"
    using scan_generations_Ok(3) [OF es(2)] by blast
qed

lemma scan_tasks_Ok:
  assumes "scan_tasks lib names sc s = (Ok sc', s')"
  shows "(temporaries_hidden sc \<longrightarrow> temporaries_hidden sc') \<and> set (sc_finalized sc) \<subseteq> set (sc_finalized sc') \<and>
    (\<forall>i. task_directory_name i \<in> set names \<longrightarrow> view (dk_root s) i \<noteq> Inl NotFound \<longrightarrow>
       (\<exists>j\<in>set (sc_finalized sc'). from_reference (task_directory_name i @ ''/'' @ generation_name i) = Ok j))"
  using assms
proof (induction names arbitrary: sc s)
  case (Cons n names)
  then obtain sc1 s1 where 1: "scan_task lib n sc s = (Ok sc1, s1)" "scan_tasks lib names sc1 s1 = (Ok sc', s')"
    by (auto simp: io_bind_Ok)
  have root: "dk_root s1 = dk_root s" using readonlyD [OF readonly_scan_task 1(1)] by simp
  note ih = Cons.IH [OF 1(2)] and g = scan_task_Ok [OF 1(1)]
  have "\<exists>j\<in>set (sc_finalized sc'). from_reference (task_directory_name i @ ''/'' @ generation_name i) = Ok j"
    if "task_directory_name i = n" "view (dk_root s) i \<noteq> Inl NotFound" for i
    using g(3) [of i] that ih by blast
  with ih g(1,2) root show ?case by auto
qed simp

lemma reference_names: "task_directory_name i @ ''/'' @ generation_name i = reference i"
  by (simp add: reference_def task_directory_name_def generation_name_def)

lemma scan_unlocked_Ok:
  assumes "scan_unlocked c s = (Ok sc, s')"
  shows "t \<in> set (sc_temporaries sc) \<Longrightarrow> hidden (tg_temporary_name t)"
    "view (dk_root s) i \<noteq> Inl NotFound \<Longrightarrow> i \<in> set (sc_finalized sc)"
proof -
  obtain u1 names u2 where 1: "check_metadata s = (Ok (), u1)" "directory_names [] u1 = (Ok names, u2)"
      "scan_tasks (cs_lib c) names empty_scan u2 = (Ok sc, s')"
    using assms by (auto simp: scan_unlocked_def io_bind_Ok)
  have root: "dk_root u1 = dk_root s" "dk_root u2 = dk_root s"
    using readonlyD [OF readonly_calls(2) 1(1)] readonlyD [OF readonly_files(2) 1(2)] by simp_all
  have names: "names = map fst (dk_root s)"
    using 1(2) root call_Ok by (fastforce simp: directory_names_def io_bind_Ok entries_at_Ok)
  note r = scan_tasks_Ok [OF 1(3)]
  show "t \<in> set (sc_temporaries sc) \<Longrightarrow> hidden (tg_temporary_name t)"
    using r by (simp add: temporaries_hidden_def empty_scan_def)
  assume v: "view (dk_root s) i \<noteq> Inl NotFound"
  then have "sub_dir (task_directory_name i) (dk_root s) \<noteq> Inl NotFound" by (auto simp: view_def)
  then have named: "task_directory_name i \<in> set names" using sub_dir_name names by simp
  have seen: "view (dk_root u2) i \<noteq> Inl NotFound" using v root by simp
  have "\<exists>j\<in>set (sc_finalized sc). from_reference (task_directory_name i @ ''/'' @ generation_name i) = Ok j"
    using r [THEN conjunct2, THEN conjunct2, THEN spec, THEN mp, OF named, THEN mp, OF seen] .
  then obtain j where j: "j \<in> set (sc_finalized sc)" "from_reference (task_directory_name i @ ''/'' @ generation_name i) = Ok j" ..
  note j = j(1) j(2) [unfolded reference_names]
  have "reference i = reference j" using from_reference_sound [OF j(2)] ..
  then have "j = i" by (simp add: reference_inject)
  then show "i \<in> set (sc_finalized sc)" using j(1) by simp
qed

text \<open>The views a reconciliation may pass through: referenced generations stay, others may go.\<close>

definition pruned :: "cache_id set \<Rightarrow> (cache_id \<Rightarrow> io_error + entries) \<Rightarrow> (cache_id \<Rightarrow> io_error + entries) set" where
  "pruned E V = {W. \<forall>i. W i = V i \<or> i \<notin> E \<and> W i = Inl NotFound}"

context tree_invariant begin

lemma keeps_remove_temporary: "hidden (tg_temporary_name t) \<Longrightarrow> keeps I (remove_temporary t)"
  unfolding remove_temporary_def validate_identity_def
  by (intro keeps_open_then io_keeps keeps_reading) (simp add: keeps_remove_flat)

end

lemma rename_away_run:
  assumes "hidden n" "rename_noreplace [task_directory_name i] (generation_name i) n s = (r, s')"
  shows "dk_root s' = dk_root s \<and> dk_history s' = dk_history s \<and> r \<noteq> Ok () \<or>
    view (dk_root s') = (view (dk_root s))(i := Inl NotFound) \<and> dk_history s' = dk_root s' # dk_history s"
proof (cases r)
  case (Inl e)
  then show ?thesis using rename_Err assms(2) by blast
next
  case (Inr x)
  then have "rename_noreplace [task_directory_name i] (generation_name i) n s = (Ok (), s')" using assms(2) by simp
  then obtain es where es: "dir_at (dk_root s) [task_directory_name i] = Some es" "map_of es n = None"
    "dk_root s' = change_dir (map (\<lambda>(m, x). (if m = generation_name i then n else m, x))) [task_directory_name i] (dk_root s)"
    "dk_history s' = dk_root s' # dk_history s"
    by (rule rename_Ok)
  then show ?thesis using view_unpublish [OF es(1,2) assms(1)] by simp
qed

lemma keeps_rename_away:
  assumes "hidden n" "i \<notin> E"
  shows "keeps (views_in (pruned E V)) (rename_noreplace [task_directory_name i] (generation_name i) n)"
  unfolding keeps_def
proof (intro allI impI)
  fix s assume v: "views_in (pruned E V) s"
  obtain r s' where r: "rename_noreplace [task_directory_name i] (generation_name i) n s = (r, s')" by fastforce
  from rename_away_run [OF assms(1) r] have "views_in (pruned E V) s'"
  proof
    assume "view (dk_root s') = (view (dk_root s))(i := Inl NotFound) \<and> dk_history s' = dk_root s' # dk_history s"
    then show ?thesis using v assms(2) by (auto simp: views_in_def pruned_def)
  qed (use v in \<open>simp add: views_in_def\<close>)
  then show "views_in (pruned E V) (snd (rename_noreplace [task_directory_name i] (generation_name i) n s))" using r by simp
qed

lemma hidden_temporary: "hidden (TEMP_PREFIX @ u)"
  by (auto simp: hidden_def)

context tree_invariant begin

lemma keeps_remove_orphan:
  assumes "\<And>n. hidden n \<Longrightarrow> keeps I (rename_noreplace [task_directory_name i] (generation_name i) n)"
  shows "keeps I (remove_orphan_atomically lib i)"
proof -
  have "keeps I (io_bind (validate_identity [task_directory_name i]) (\<lambda>_. io_bind draw (\<lambda>d.
     let temporary_name = TEMP_PREFIX @ new_uuid lib d in
     io_bind (rename_noreplace [task_directory_name i] (generation_name i) temporary_name) (\<lambda>_.
     io_bind (sync_directory [task_directory_name i]) (\<lambda>_.
     io_bind (remove_flat_directory_at [task_directory_name i] temporary_name) (\<lambda>_.
       sync_directory [task_directory_name i]))))))"
    unfolding validate_identity_def Let_def
    by (intro io_keeps keeps_reading assms keeps_remove_flat hidden_temporary)
  then show ?thesis unfolding remove_orphan_atomically_def by (intro keeps_open_then) simp
qed

end

lemma keeps_gone: "keeps (\<lambda>s. view (dk_root s) \<in> {W. W i = Inl NotFound}) (remove_orphan_atomically lib j)"
proof (rule current.keeps_remove_orphan)
  fix n assume n: "hidden n"
  show "keeps (\<lambda>s. view (dk_root s) \<in> {W. W i = Inl NotFound}) (rename_noreplace [task_directory_name j] (generation_name j) n)"
    unfolding keeps_def
  proof (intro allI impI)
    fix s :: disk assume g: "view (dk_root s) \<in> {W. W i = Inl NotFound}"
    obtain r s' where r: "rename_noreplace [task_directory_name j] (generation_name j) n s = (r, s')" by fastforce
    show "view (dk_root (snd (rename_noreplace [task_directory_name j] (generation_name j) n s))) \<in> {W. W i = Inl NotFound}"
      using rename_away_run [OF n r] g r by auto
  qed
qed

text \<open>An orphan that was removed is gone, and stays gone.\<close>

lemma removed_orphan:
  assumes "remove_orphan_atomically lib i s = (Ok (), s')"
  shows "view (dk_root s') i = Inl NotFound"
proof -
  let ?t = "task_directory_name i"
  obtain h u1 u2 d u3 u4 u5 where st: "open_directory_at [] ?t s = (Ok h, u1)"
      "rename_noreplace h (generation_name i) (TEMP_PREFIX @ new_uuid lib d) u3 = (Ok (), u4)"
      "sync_directory h u4 = (Ok (), u5)"
      "io_bind (remove_flat_directory_at h (TEMP_PREFIX @ new_uuid lib d)) (\<lambda>_. sync_directory h) u5 = (Ok (), s')"
    using assms by (auto simp: remove_orphan_atomically_def io_bind_Ok Let_def)
  have h: "h = [?t]" using open_directory_Ok(1) [OF st(1)] by simp
  have "view (dk_root u4) i = Inl NotFound"
    using rename_away_run [OF hidden_temporary, of i "new_uuid lib d" u3 "Ok ()" u4] st(2) h by auto
  then have "view (dk_root u5) i = Inl NotFound" using readonlyD [OF readonly_files(6) st(3)] by simp
  moreover have "keeps (\<lambda>s. view (dk_root s) \<in> {W. W i = Inl NotFound})
      (io_bind (remove_flat_directory_at [?t] (TEMP_PREFIX @ new_uuid lib d)) (\<lambda>_. sync_directory [?t]))"
    by (intro io_keeps current.keeps_remove_flat current.keeps_reading hidden_temporary)
  ultimately show ?thesis using st(4) h by (auto simp: keeps_def)
qed

lemma removed_orphans:
  assumes "for_each (\<lambda>i. if P i then remove_orphan_atomically lib i else io_fail Corrupt) xs s = (Ok (), s')" "i \<in> set xs"
  shows "view (dk_root s') i = Inl NotFound"
  using assms
proof (induction xs arbitrary: s)
  case (Cons x xs)
  let ?f = "\<lambda>i. if P i then remove_orphan_atomically lib i else io_fail Corrupt"
  obtain u where u: "?f x s = (Ok (), u)" "for_each ?f xs u = (Ok (), s')" using Cons.prems(1) by (auto simp: io_bind_Ok)
  show ?case
  proof (cases "i = x")
    case True
    then have "view (dk_root u) i = Inl NotFound" using u(1) removed_orphan [of lib i s u] by (auto split: if_splits)
    moreover have "keeps (\<lambda>s. view (dk_root s) \<in> {W. W i = Inl NotFound}) (for_each ?f xs)"
      by (intro keeps_for_each keeps_if keeps_gone current.keeps_reading)
    ultimately show ?thesis using u(2) keepsD by fastforce
  qed (use Cons u in auto)
qed simp

lemma reading_all_Ok:
  assumes "for_each (\<lambda>i. io_bind (read_unlocked c i) (\<lambda>_. io_return ())) xs s = (Ok (), s')" "i \<in> set xs"
  shows "\<exists>b. peek c (dk_root s) i = Ok b"
  using assms
proof (induction xs arbitrary: s)
  case (Cons x xs)
  obtain b u where u: "read_unlocked c x s = (Ok b, u)"
      "for_each (\<lambda>i. io_bind (read_unlocked c i) (\<lambda>_. io_return ())) xs u = (Ok (), s')"
    using Cons.prems(1) by (auto simp: io_bind_Ok simp del: calm) (auto simp: io_bind_Ok)
  note r = read_peek [OF u(1)]
  show ?case using Cons.IH [OF u(2)] Cons.prems(2) r by auto
qed simp

lemma reading_all_readonly: "readonly (for_each (\<lambda>i. io_bind (read_unlocked c i) (\<lambda>_. io_return ())) xs)"
  by (intro io_readonly)

text \<open>The part of the reconciliation that changes the disk.\<close>

definition prune :: "cache_store \<Rightarrow> cache_scan \<Rightarrow> cache_id list \<Rightarrow> cleanup_report io" where
  "prune c scan expected =
     io_bind (for_each remove_temporary (sc_temporaries scan)) (\<lambda>_.
       let orphans = btree_set (filter (\<lambda>i. i \<notin> set expected) (sc_finalized scan)) in
       io_bind (for_each (\<lambda>i. if task_directory_name i \<in> set (sc_tasks scan)
                               then remove_orphan_atomically (cs_lib c) i else io_fail Corrupt) orphans) (\<lambda>_.
       io_bind sync_all_task_directories (\<lambda>_.
       io_bind (scan_unlocked c) (\<lambda>after.
         io_return \<lparr> temporary_generations_removed = length (sc_temporaries scan),
           orphan_generations_removed = length orphans,
           encrypted_bytes_remaining = encrypted_bytes (sc_audit after) \<rparr>))))"

lemma prune_views:
  assumes v: "views_in (pruned (set expected) V) s" and scan: "scan_unlocked c t = (Ok scan, u)" "dk_root t = dk_root s"
    and run: "prune c scan expected s = (res, s')"
  shows "views_in (pruned (set expected) V) s'"
    "res = Ok report \<Longrightarrow> j \<notin> set expected \<Longrightarrow> view (dk_root s') j = Inl NotFound"
proof -
  let ?F = "pruned (set expected) V"
  let ?orphans = "btree_set (filter (\<lambda>i. i \<notin> set expected) (sc_finalized scan))"
  let ?remove = "\<lambda>i. if task_directory_name i \<in> set (sc_tasks scan) then remove_orphan_atomically (cs_lib c) i else io_fail Corrupt"
  have temps: "keeps (views_in ?F) (for_each remove_temporary (sc_temporaries scan))"
    by (rule keeps_for_each) (use scan_unlocked_Ok(1) [OF scan(1)] history.keeps_remove_temporary in blast)
  have orphans: "keeps (views_in ?F) (for_each ?remove ?orphans)"
    by (intro keeps_for_each keeps_if history.keeps_remove_orphan history.keeps_reading keeps_rename_away) auto
  have "keeps (views_in ?F) (prune c scan expected)"
    unfolding prune_def Let_def
    by (intro keeps_bind temps orphans history.keeps_readonly io_readonly)
  then show "views_in ?F s'" using v run keepsD by blast
  assume "res = Ok report" and j: "j \<notin> set expected"
  then obtain u1 u2 u3 where st: "for_each remove_temporary (sc_temporaries scan) s = (Ok (), u1)"
      "for_each ?remove ?orphans u1 = (Ok (), u2)" "sync_all_task_directories u2 = (Ok (), u3)"
      "io_bind (scan_unlocked c) (\<lambda>after.
         io_return \<lparr> temporary_generations_removed = length (sc_temporaries scan),
           orphan_generations_removed = length ?orphans,
           encrypted_bytes_remaining = encrypted_bytes (sc_audit after) \<rparr>) u3 = (res, s')"
    using run by (auto simp: prune_def io_bind_Ok Let_def)
  have root: "dk_root u3 = dk_root u2" using readonlyD [OF readonly_rest(2) st(3)] by simp
  have "readonly (io_bind (scan_unlocked c) (\<lambda>after.
         io_return \<lparr> temporary_generations_removed = length (sc_temporaries scan),
           orphan_generations_removed = length ?orphans,
           encrypted_bytes_remaining = encrypted_bytes (sc_audit after) \<rparr>))"
    by (intro io_readonly)
  from readonlyD [OF this st(4)] have root: "dk_root s' = dk_root u2" using root by simp
  have "keeps (\<lambda>s. view (dk_root s) \<in> {W. W j = Inl NotFound}) (for_each remove_temporary (sc_temporaries scan))"
      "keeps (\<lambda>s. view (dk_root s) \<in> {W. W j = Inl NotFound}) (for_each ?remove ?orphans)"
    by (rule keeps_for_each, use scan_unlocked_Ok(1) [OF scan(1)] current.keeps_remove_temporary in blast)
       (intro keeps_for_each keeps_if keeps_gone current.keeps_reading)
  note gone = keepsD [OF this(2) keepsD [OF this(1) _ st(1)] st(2)]
  have "view (dk_root u2) j = Inl NotFound" if "view (dk_root s) j = Inl NotFound"
    using gone that by simp
  moreover have "j \<in> set ?orphans" if "view (dk_root s) j \<noteq> Inl NotFound"
    using scan_unlocked_Ok(2) [OF scan(1), of j] scan(2) that j by simp
  then have "view (dk_root u2) j = Inl NotFound" if "view (dk_root s) j \<noteq> Inl NotFound"
    using removed_orphans [OF st(2)] that by blast
  ultimately show "view (dk_root s') j = Inl NotFound" using root by auto
qed

lemma parse_references_Ok:
  "parse_references refs = Ok is \<Longrightarrow> i \<in> set is \<longleftrightarrow> (\<exists>r\<in>set refs. from_reference r = Ok i)"
  by (induction refs arbitrary: "is") (fastforce simp: and_then_Ok_iff map_err_Ok_iff)+

lemma parse_references_all: "parse_references refs = Ok is \<Longrightarrow> r \<in> set refs \<Longrightarrow> \<exists>i\<in>set is. from_reference r = Ok i"
  by (induction refs arbitrary: "is") (fastforce simp: and_then_Ok_iff map_err_Ok_iff)+

definition referenced :: "string list \<Rightarrow> cache_id set" where
  "referenced refs = {i. \<exists>r\<in>set refs. from_reference r = Ok i}"

lemma reconcile_cases:
  assumes run: "reconcile_unlocked c refs s = (res, s')" and v: "views_in {V} s"
  shows "dk_root s' = dk_root s \<and> dk_history s' = dk_history s \<and> (\<forall>report. res \<noteq> Ok report) \<or>
    (\<forall>r\<in>set refs. \<exists>i b. from_reference r = Ok i \<and> peek c (dk_root s) i = Ok b) \<and>
    views_in (pruned (referenced refs) V) s' \<and>
    (\<forall>report j. res = Ok report \<longrightarrow> j \<notin> referenced refs \<longrightarrow> view (dk_root s') j = Inl NotFound)"
proof (cases "parse_references refs")
  case (Inl e)
  then show ?thesis using run by (auto simp: reconcile_unlocked_def io_bind_def)
next
  case (Inr "is")
  let ?E = "btree_set is"
  have E: "set ?E = referenced refs" using parse_references_Ok [OF Inr] by (auto simp: referenced_def)
  obtain r1 u1 where scan: "scan_unlocked c s = (r1, u1)" by fastforce
  have root1: "dk_root u1 = dk_root s" "dk_history u1 = dk_history s" using readonlyD [OF readonly_scan(1) scan] by simp_all
  show ?thesis
  proof (cases "\<exists>sc. r1 = Ok sc \<and> set ?E \<subseteq> set (sc_finalized sc)")
    case False
    then show ?thesis using run scan root1 Inr
      by (cases r1) (auto simp: reconcile_unlocked_def io_bind_def Let_def)
  next
    case True
    then obtain sc where sc: "r1 = Ok sc" "set ?E \<subseteq> set (sc_finalized sc)" by blast
    obtain r2 u2 where auth: "for_each (\<lambda>i. io_bind (read_unlocked c i) (\<lambda>_. io_return ())) ?E u1 = (r2, u2)" by fastforce
    have root2: "dk_root u2 = dk_root s" "dk_history u2 = dk_history s"
      using readonlyD [OF reading_all_readonly auth] root1 by simp_all
    have step: "reconcile_unlocked c refs s = (case r2 of Inl e \<Rightarrow> (Err e, u2) | Inr _ \<Rightarrow> prune c sc ?E u2)"
      using scan sc auth Inr
      by (simp add: reconcile_unlocked_def io_bind_def [of "io_of _"] io_bind_def [of "scan_unlocked c"]
          io_bind_def [of "for_each _ (btree_set is)"] Let_def prune_def split: sum.splits)
    show ?thesis
    proof (cases r2)
      case (Inl e)
      then show ?thesis using step run root2 by auto
    next
      case (Inr x)
      then have p: "prune c sc ?E u2 = (res, s')" using step run by simp
      have v2: "views_in (pruned (set ?E) V) u2" using v root2 by (auto simp: views_in_def pruned_def)
      have sc': "scan_unlocked c s = (Ok sc, u1)" "dk_root s = dk_root u2" using scan sc root2 by simp_all
      note pr = prune_views [OF v2 sc' p]
      have "\<exists>i b. from_reference r = Ok i \<and> peek c (dk_root s) i = Ok b" if r: "r \<in> set refs" for r
      proof -
        obtain i where i: "i \<in> set is" "from_reference r = Ok i"
          using parse_references_all [OF \<open>parse_references refs = Inr is\<close> r] by blast
        then show ?thesis using reading_all_Ok [of c ?E u1 u2 i] auth Inr root1 by auto
      qed
      with pr show ?thesis unfolding E by blast
    qed
  qed
qed

section \<open>Properties\<close>

text \<open>C10: Publication is atomic. Whichever system calls fail, and wherever a crash stops it, a
  publication leaves every other generation as readable as it was; the generation itself reads
  as before or, if it was absent, as exactly the bundle that was published. When the call
  reports success, the bundle can be read back.\<close>

theorem publication_atomic:
  assumes lib: "gcm_correct (cs_lib c)"
    and run: "publish_or_verify_unlocked c i b (disk_of r plan draws) = (res, s)"
  shows "(\<forall>t \<in> set (dk_history s). (\<forall>j. j \<noteq> i \<longrightarrow> peek c t j = peek c r j) \<and>
      (peek c t i = peek c r i \<or> peek c r i = Err MissingObject \<and> peek c t i = Ok b)) \<and>
    (res = Ok () \<longrightarrow> peek c (dk_root s) i = Ok b)"
proof -
  have v: "views_in {view r} (disk_of r plan draws)" by (simp add: views_in_def disk_of_def)
  from publish_or_verify_publication [OF lib v run] show ?thesis
  proof
    assume "views_in {view r} s \<and> (res = Ok () \<longrightarrow> peek c (dk_root s) i = Ok b)"
    then show ?thesis by (auto simp: views_in_def peek_view)
  next
    assume "\<exists>fs. view r i = Inl NotFound \<and> read_files c i fs = Ok b \<and> views_in {view r, (view r)(i := Inr fs)} s \<and>
      view (dk_root s) = (view r)(i := Inr fs)"
    then obtain fs where fs: "view r i = Inl NotFound" "read_files c i fs = Ok b" "view (dk_root s) = (view r)(i := Inr fs)"
        and h: "\<And>t. t \<in> set (dk_history s) \<Longrightarrow> view t = view r \<or> view t = (view r)(i := Inr fs)"
      by (auto simp: views_in_def)
    have "peek c t j = (if j = i then Ok b else peek c r j)" if "view t = (view r)(i := Inr fs)" for t j
      using fs that by (simp add: peek_view)
    moreover have "peek c t j = peek c r j" if "view t = view r" for t j using that by (simp add: peek_view)
    moreover have "peek c r i = Err MissingObject" using fs by (simp add: peek_view)
    ultimately show ?thesis using h fs(3) by metis
  qed
qed

text \<open>C11: Reconciliation keeps what is referenced. At every moment of it, whatever fails, each
  referenced generation reads as before and every other one reads as before or is gone; nothing
  is removed unless every reference is well formed and its generation was authenticated; and
  when it reports success, exactly the referenced generations are left.\<close>

theorem reconcile_keeps_referenced:
  assumes run: "reconcile_unlocked c refs (disk_of r plan draws) = (res, s)"
  shows "(\<forall>t \<in> set (dk_history s). \<forall>j. peek c t j = peek c r j \<or> j \<notin> referenced refs \<and> peek c t j = Err MissingObject) \<and>
    ((\<exists>q\<in>set refs. \<forall>i b. \<not> (from_reference q = Ok i \<and> peek c r i = Ok b)) \<longrightarrow> dk_root s = r \<and> dk_history s = [r]) \<and>
    (\<forall>report j. res = Ok report \<longrightarrow>
       (if j \<in> referenced refs then \<exists>b. peek c r j = Ok b \<and> peek c (dk_root s) j = Ok b
        else peek c (dk_root s) j = Err MissingObject))"
proof -
  have v: "views_in {view r} (disk_of r plan draws)" by (simp add: views_in_def disk_of_def)
  have d: "dk_root (disk_of r plan draws) = r" "dk_history (disk_of r plan draws) = [r]" by (simp_all add: disk_of_def)
  from reconcile_cases [OF run v] show ?thesis unfolding d
  proof
    assume "dk_root s = r \<and> dk_history s = [r] \<and> (\<forall>report. res \<noteq> Ok report)"
    then show ?thesis by simp
  next
    assume a: "(\<forall>q\<in>set refs. \<exists>i b. from_reference q = Ok i \<and> peek c r i = Ok b) \<and>
      views_in (pruned (referenced refs) (view r)) s \<and>
      (\<forall>report j. res = Ok report \<longrightarrow> j \<notin> referenced refs \<longrightarrow> view (dk_root s) j = Inl NotFound)"
    have kept: "peek c t j = peek c r j \<or> j \<notin> referenced refs \<and> peek c t j = Err MissingObject"
      if "t \<in> set (dk_history s) \<or> t = dk_root s" for t j
    proof -
      have "view t j = view r j \<or> j \<notin> referenced refs \<and> view t j = Inl NotFound"
        using a that by (auto simp: views_in_def pruned_def)
      then show ?thesis by (auto simp: peek_view)
    qed
    have "if j \<in> referenced refs then \<exists>b. peek c r j = Ok b \<and> peek c (dk_root s) j = Ok b
        else peek c (dk_root s) j = Err MissingObject" if "res = Ok report" for report j
    proof (cases "j \<in> referenced refs")
      case True
      then obtain q where "q \<in> set refs" "from_reference q = Ok j" by (auto simp: referenced_def)
      then obtain b where "peek c r j = Ok b" using a by fastforce
      then show ?thesis using kept [of "dk_root s" j] True by simp
    next
      case False
      then show ?thesis using a that by (simp add: peek_view)
    qed
    then show ?thesis using a kept by blast
  qed
qed

section \<open>Undisturbed runs succeed\<close>

definition calm_disk :: "disk \<Rightarrow> bool" where
  "calm_disk s \<longleftrightarrow> dk_plan s = []"

lemma calm_basic [io_keeps]:
  "keeps calm_disk (io_return x)" "keeps calm_disk (io_fail e)" "keeps calm_disk (io_of r)" "keeps calm_disk syscall"
  "keeps calm_disk draw" "keeps calm_disk (entries_at p)" "keeps calm_disk (modify p f)"
  by (auto simp: keeps_def calm_disk_def syscall_def draw_def entries_at_def modify_run split: list.splits option.splits)

lemma keeps_nat [io_keeps]: "keeps I a \<Longrightarrow> (\<And>x. keeps I (f x)) \<Longrightarrow> keeps I (case v of 0 \<Rightarrow> a | Suc x \<Rightarrow> f x)"
  by (cases v) simp_all

lemma keeps_error_maps [io_keeps]: "keeps I m \<Longrightarrow> keeps I (missing_if_not_found m)" "keeps I m \<Longrightarrow> keeps I (corrupt_on_error m)"
  by (auto simp: keeps_def missing_if_not_found_def corrupt_on_error_def split: prod.splits sum.splits)

lemma calm_calls [io_keeps]: "keeps calm_disk call" "keeps calm_disk check_metadata"
  unfolding call_def check_metadata_def by (intro io_keeps)+

lemma calm_files [io_keeps]:
  "keeps calm_disk (open_directory_at p n)" "keeps calm_disk (directory_names p)" "keeps calm_disk (open_file_at p n)"
  "keeps calm_disk (file_length x)" "keeps calm_disk (read_to_end x)" "keeps calm_disk (sync_directory p)"
  "keeps calm_disk (entry_exists p n)"
  unfolding open_directory_at_def directory_names_def open_file_at_def file_length_def read_to_end_def sync_directory_def
    entry_exists_def
  by (intro io_keeps)+

lemma calm_create [io_keeps]: "keeps calm_disk (create_directory_at p n)" "keeps calm_disk (write_create_only_file p n x)"
    "keeps calm_disk (rename_noreplace p n n')"
  unfolding create_directory_at_def remove_directory_at_def write_create_only_file_def rename_noreplace_def
  by (intro io_keeps)+

lemma calm_inspect [io_keeps]:
  "keeps calm_disk (inspect_final_names p names sizes)" "keeps calm_disk (inspect_temporary_names p names seen n)"
  by (induction names arbitrary: sizes seen n) (auto intro!: io_keeps simp del: io_bind_return)

lemma calm_scan_generation [io_keeps]: "keeps calm_disk (scan_generation lib t n sc)"
  unfolding scan_generation_def inspect_final_directory_def inspect_temporary_directory_def add_bytes_def
  by (intro io_keeps)

lemma calm_scan_generations [io_keeps]: "keeps calm_disk (scan_generations lib t names sc)"
  by (induction names arbitrary: sc) (auto intro!: io_keeps simp del: io_bind_return)

lemma calm_scan_task [io_keeps]: "keeps calm_disk (scan_task lib n sc)"
  unfolding scan_task_def add_bytes_def by (intro io_keeps)

lemma calm_scan_tasks [io_keeps]: "keeps calm_disk (scan_tasks lib names sc)"
  by (induction names arbitrary: sc) (auto intro!: io_keeps simp del: io_bind_return)

lemma calm_audit [io_keeps]: "keeps calm_disk (audit c)"
  unfolding audit_def scan_unlocked_def by (intro io_keeps)

text \<open>Writing into an existing directory under a fresh name.\<close>

lemma calm_create_directory:
  assumes "calm_disk s" "dir_at (dk_root s) p = Some es" "map_of es n = None"
  obtains s' where "create_directory_at p n s = (Ok (p @ [n]), s')" "calm_disk s'"
    "dir_at (dk_root s') p = Some (es @ [(n, Dir [])])"
proof -
  define s' where "s' = snd (modify p (\<lambda>es. es @ [(n, Dir [])]) s)"
  have m: "modify p (\<lambda>es. es @ [(n, Dir [])]) s = (Ok (), s')" by (simp add: s'_def modify_run)
  have s': "dk_plan s' = []" "dir_at (dk_root s') p = Some (es @ [(n, Dir [])])"
    using assms by (simp_all add: s'_def modify_run calm_disk_def dir_at_change)
  have "open_directory_at p n s' = (Ok (p @ [n]), s')"
    using s' assms(3) by (simp add: calm_open sub_dir_def map_add_def)
  then have "create_directory_at p n s = (Ok (p @ [n]), s')"
    using assms s' m by (simp add: create_directory_at_def io_bind_def calm_entries calm_disk_def)
  then show thesis using that s' by (simp add: calm_disk_def)
qed

lemma calm_write_object:
  assumes "calm_disk s" "dir_at (dk_root s) p = Some es" "map_of es (file_name kind) = None"
    and total: "\<And>k n a m. gcm_encrypt (cs_lib c) k n a m \<noteq> None"
  obtains s' e where "write_object c p i kind m s = (Ok (), s')" "calm_disk s'"
    "dir_at (dk_root s') p = Some (es @ [(file_name kind, File e)])"
proof -
  define d where "d = dk_draws s"
  define u where "u = s\<lparr>dk_draws := Suc d\<rparr>"
  have draw: "draw s = (Ok d, u)" by (simp add: draw_def d_def u_def)
  obtain e where e: "encrypt_object (cs_lib c) (cs_key c) i kind (random_salt (cs_lib c) d) (random_nonce (cs_lib c) d) m = Ok e"
    using total by (fastforce simp: encrypt_object_def Let_def ok_or_def split: option.splits)
  have u: "dk_plan u = []" "dir_at (dk_root u) p = Some es" using assms by (simp_all add: u_def calm_disk_def)
  have "\<exists>s'. write_create_only_file p (file_name kind) e u = (Ok (), s')"
    using u assms(3) by (simp add: write_create_only_file_def io_bind_def calm_entries modify_run)
  then obtain s' where w: "write_create_only_file p (file_name kind) e u = (Ok (), s')" by blast
  have "calm_disk s'" using keepsD [OF calm_create(2) _ w] u(1) by (simp add: calm_disk_def)
  moreover have "write_object c p i kind m s = (Ok (), s')" using draw e w by (simp add: write_object_def io_bind_def)
  ultimately show thesis using write_file_Ok(1) [OF w u(2)] that by blast
qed

lemma calm_publish_temporary:
  assumes s: "calm_disk s" "dir_at (dk_root s) [task_directory_name i] = Some es" "map_of es (generation_name i) = None"
      "map_of es n = Some (Dir [])" and n: "hidden n"
    and total: "\<And>k n a m. gcm_encrypt (cs_lib c) k n a m \<noteq> None"
  obtains s' where "publish_temporary c i b [task_directory_name i] n [task_directory_name i, n] s = (Ok (), s')" "calm_disk s'"
proof -
  let ?t = "task_directory_name i"
  have d0: "dir_at (dk_root s) [?t, n] = Some []" using s dir_at_append [of "dk_root s" "[?t]" n] by simp
  have n1: "map_of ([] :: entries) (file_name Manifest) = None" by simp
  obtain s1 e1 where 1: "write_object c [?t, n] i Manifest (cb_manifest_json b) s = (Ok (), s1)" "calm_disk s1"
      "dir_at (dk_root s1) [?t, n] = Some ([] @ [(file_name Manifest, File e1)])"
    by (rule calm_write_object [OF s(1) d0 n1 total])
  have n2: "map_of ([] @ [(file_name Manifest, File e1)]) (file_name QwenWav) = None" by simp
  obtain s2 e2 where 2: "write_object c [?t, n] i QwenWav (cb_qwen_wav b) s1 = (Ok (), s2)" "calm_disk s2"
      "dir_at (dk_root s2) [?t, n] = Some (([] @ [(file_name Manifest, File e1)]) @ [(file_name QwenWav, File e2)])"
    by (rule calm_write_object [OF 1(2,3) n2 total])
  have n3: "map_of (([] @ [(file_name Manifest, File e1)]) @ [(file_name QwenWav, File e2)]) (file_name DeviceEiad) = None" by simp
  obtain s3 e3 where 3: "write_object c [?t, n] i DeviceEiad (cb_device_eiad b) s2 = (Ok (), s3)" "calm_disk s3"
      "dir_at (dk_root s3) [?t, n] = Some ((([] @ [(file_name Manifest, File e1)]) @ [(file_name QwenWav, File e2)]) @ [(file_name DeviceEiad, File e3)])"
    by (rule calm_write_object [OF 2(2,3) n3 total])
  have f: "fill_temporary c i b [?t, n] s = (Ok (), s3)"
    using 1(1) 2(1) 3(1,2) by (simp add: fill_temporary_def io_bind_def sync_directory_def calm_disk_def)
  obtain es3 x where es3: "dir_at (dk_root s3) [?t] = Some es3" "map_of es3 n = Some x"
    using 3(3) dir_at_append [of "dk_root s3" "[?t]" n] by (cases "dir_at (dk_root s3) [?t]") (auto simp del: dir_at.simps split: option.splits)
  have "view (dk_root s) i = Inl NotFound"
    using s(2,3) by (auto simp: view_def sub_dir_def split: option.splits disk_node.splits)
  moreover have "view (dk_root s3) \<in> {view (dk_root s)}"
    by (rule keepsD [OF current.keeps_fill [OF n] _ f]) simp
  ultimately have "view (dk_root s3) i = Inl NotFound" by simp
  then have "map_of es3 (generation_name i) = None"
    using es3(1) by (auto simp: view_def sub_dir_def split: option.splits disk_node.splits)
  then obtain s4 where r: "rename_noreplace [?t] n (generation_name i) s3 = (Ok (), s4)"
    using es3 3(2) by (auto simp: rename_noreplace_def io_bind_def calm_entries calm_disk_def modify_run simp del: dir_at.simps)
  have c4: "calm_disk s4" using keepsD [OF calm_create(3) 3(2) r] .
  then have "publish_temporary c i b [?t] n [?t, n] s = (Ok (), s4)"
    using f r by (simp add: publish_temporary_def io_bind_def sync_directory_def calm_disk_def)
  then show thesis using that c4 by blast
qed

text \<open>
  An undisturbed publication of a new generation succeeds when the bundle is well formed, the
  cache scans without error and has room, and the names of temporary directories are unused.
\<close>

definition has_room :: "cache_store \<Rightarrow> cache_bundle \<Rightarrow> disk \<Rightarrow> bool" where
  "has_room c b s \<longleftrightarrow>
     (\<exists>a n amount. fst (audit c s) = Ok a \<and> encoded_bundle_bytes b = Ok n \<and>
        finalized_generations a < max_generations (cs_limits c) \<and>
        checked_add (encrypted_bytes a) n = Some amount \<and> amount \<le> max_total_bytes (cs_limits c))"

definition name_unused :: "cache_store \<Rightarrow> cache_id \<Rightarrow> entries \<Rightarrow> bool" where
  "name_unused c i r \<longleftrightarrow>
     (\<forall>es d. dir_at r [task_directory_name i] = Some es \<longrightarrow> map_of es (TEMP_PREFIX @ new_uuid (cs_lib c) d) = None)"

lemma calm_open_or_create:
  assumes s: "calm_disk s" and new: "view (dk_root s) i = Inl NotFound" and unused: "name_unused c i (dk_root s)"
  obtains created s' es where
    "open_or_create_directory_at [] (task_directory_name i) s = (Ok ([task_directory_name i], created), s')"
    "calm_disk s'" "dir_at (dk_root s') [task_directory_name i] = Some es" "map_of es (generation_name i) = None"
    "\<forall>d. map_of es (TEMP_PREFIX @ new_uuid (cs_lib c) d) = None"
proof (cases "sub_dir (task_directory_name i) (dk_root s)")
  case (Inl e)
  let ?t = "task_directory_name i"
  have none: "map_of (dk_root s) ?t = None"
    using new Inl by (auto simp: view_def sub_dir_def split: option.splits disk_node.splits)
  have o1: "open_directory_at [] ?t s = (Err (CacheIo NotFound), s)"
    using s none by (simp add: calm_open calm_disk_def sub_dir_def)
  have d1: "dir_at (dk_root s) [] = Some (dk_root s)" by simp
  obtain s2 where s2: "create_directory_at [] ?t s = (Ok ([] @ [?t]), s2)" "calm_disk s2"
      "dir_at (dk_root s2) [] = Some (dk_root s @ [(?t, Dir [])])"
    by (rule calm_create_directory [OF s d1 none])
  have oc: "open_or_create_directory_at [] ?t s = (Ok ([?t], True), s2)"
    using o1 s2(1) by (simp add: open_or_create_directory_at_def io_bind_def)
  have d2: "dir_at (dk_root s2) [?t] = Some []" using s2(3) none by (simp add: map_add_def)
  show thesis by (rule that [OF oc s2(2) d2]) simp_all
next
  case (Inr es)
  let ?t = "task_directory_name i"
  have m: "map_of (dk_root s) ?t = Some (Dir es)" using Inr by (simp add: sub_dir_dir_at)
  then have d: "dir_at (dk_root s) [?t] = Some es" by simp
  have g: "map_of es (generation_name i) = None"
    using new Inr by (auto simp: view_def sub_dir_def [of "generation_name i"] split: option.splits disk_node.splits)
  have "open_directory_at [] ?t s = (Ok [?t], s)" using s Inr by (simp add: calm_open calm_disk_def)
  then have oc: "open_or_create_directory_at [] ?t s = (Ok ([?t], False), s)"
    using s by (simp add: open_or_create_directory_at_def io_bind_def calm_disk_def)
  show thesis by (rule that [OF oc s d g]) (use unused d in \<open>simp add: name_unused_def\<close>)
qed

lemma fresh_publication_succeeds:
  assumes lib: "gcm_correct (cs_lib c)" and total: "\<And>k n a m. gcm_encrypt (cs_lib c) k n a m \<noteq> None"
    and b: "validate_bundle b = Ok ()" and room: "has_room c b (disk_of r [] draws)"
    and new: "view r i = Inl NotFound" and unused: "name_unused c i r"
  shows "\<exists>s. publish_or_verify_unlocked c i b (disk_of r [] draws) = (Ok (), s) \<and> calm_disk s"
proof -
  let ?s = "disk_of r [] draws" and ?t = "task_directory_name i"
  have calm: "calm_disk ?s" and root: "dk_root ?s = r" by (simp_all add: calm_disk_def disk_of_def)
  have read: "read_unlocked c i ?s = (Err MissingObject, ?s)"
    using calm new by (simp add: calm_read calm_disk_def root)
  obtain a n amount where a: "fst (audit c ?s) = Ok a" "encoded_bundle_bytes b = Ok n"
      "finalized_generations a < max_generations (cs_limits c)" "checked_add (encrypted_bytes a) n = Some amount"
      "amount \<le> max_total_bytes (cs_limits c)"
    using room by (auto simp: has_room_def)
  obtain s1 where au: "audit c ?s = (Ok a, s1)" using a(1) by (metis prod.collapse)
  have s1: "calm_disk s1" "dk_root s1 = r"
    using keepsD [OF calm_audit calm au] readonlyD [OF readonly_scan(2) au] root by simp_all
  have v1: "view (dk_root s1) i = Inl NotFound" "name_unused c i (dk_root s1)" using new unused s1(2) by simp_all
  obtain es created s2 where s2: "open_or_create_directory_at [] ?t s1 = (Ok ([?t], created), s2)" "calm_disk s2"
      "dir_at (dk_root s2) [?t] = Some es" "map_of es (generation_name i) = None"
      "\<forall>d. map_of es (TEMP_PREFIX @ new_uuid (cs_lib c) d) = None"
    by (rule calm_open_or_create [OF s1(1) v1])
  have ex: "entry_exists [?t] (generation_name i) s2 = (Ok False, s2)"
    using s2(2-4) by (simp add: entry_exists_def io_bind_def calm_entries calm_disk_def del: dir_at.simps)
  define d where "d = dk_draws s2"
  define s3 where "s3 = s2\<lparr>dk_draws := Suc d\<rparr>"
  define tmp where "tmp = TEMP_PREFIX @ new_uuid (cs_lib c) d"
  have dr: "draw s2 = (Ok d, s3)" by (simp add: draw_def s3_def d_def)
  have s3: "calm_disk s3" "dir_at (dk_root s3) [?t] = Some es" using s2(2,3) by (simp_all add: s3_def calm_disk_def)
  have none: "map_of es tmp = None" using s2(5) by (simp add: tmp_def)
  obtain s4 where s4: "create_directory_at [?t] tmp s3 = (Ok ([?t] @ [tmp]), s4)" "calm_disk s4"
      "dir_at (dk_root s4) [?t] = Some (es @ [(tmp, Dir [])])"
    by (rule calm_create_directory [OF s3 none])
  have hid: "hidden tmp" by (simp add: tmp_def hidden_temporary)
  have g4: "map_of (es @ [(tmp, Dir [])]) (generation_name i) = None" "map_of (es @ [(tmp, Dir [])]) tmp = Some (Dir [])"
    using generation_not_hidden [OF hid, of i] s2(4) none by (simp_all add: map_add_def)
  obtain s5 where s5: "publish_temporary c i b [?t] tmp [?t, tmp] s4 = (Ok (), s5)" "calm_disk s5"
    by (rule calm_publish_temporary [OF s4(2,3) g4 hid total])
  have sync: "(if created then sync_directory [] else io_return ()) s2 = (Ok (), s2)"
    using s2(2) by (simp add: sync_directory_def calm_disk_def)
  have s4': "create_directory_at [?t] tmp s3 = (Ok [?t, tmp], s4)" using s4(1) by simp
  have pub: "publish_observed c i b ?s = (Ok (), s5)"
    by (simp add: publish_observed_def io_bind_def Let_def tmp_def [symmetric] not_le not_less b a(2-) au s2(1) sync ex dr s4' s5(1))
  have v: "views_in {view r} ?s" by (simp add: views_in_def disk_of_def)
  obtain fs where "read_files c i fs = Ok b" "view (dk_root s5) = (view r)(i := Inr fs)"
    using publish_observed_publication [OF lib v pub] by (auto simp: publication_def)
  then have "read_unlocked c i s5 = (Ok b, s5)" using s5(2) by (simp add: calm_read calm_disk_def)
  then show ?thesis using read pub s5(2) by (simp add: publish_or_verify_unlocked_def io_bind_def)
qed

section \<open>Witnesses\<close>

definition sample_lib :: cache_lib where
  "sample_lib = \<lparr> hkdf = (\<lambda>_ k _. k), gcm_encrypt = (\<lambda>_ _ _ m. Some (m @ replicate 16 0)),
     gcm_decrypt = (\<lambda>_ _ _ c. Some (take (length c - 16) c)), random_salt = of_nat, random_nonce = of_nat,
     new_uuid = (\<lambda>n. replicate (Suc n) (CHR ''a'')), uuid_parses = (\<lambda>_. True) \<rparr>"

definition sample_store :: cache_store where
  "sample_store = \<lparr> cs_lib = sample_lib, cs_key = 7, cs_limits = default_limits \<rparr>"

definition sample_id :: "u64 \<Rightarrow> cache_id" where
  "sample_id g = \<lparr> ci_task_hash = 5, ci_generation = g \<rparr>"

definition sample_bundle :: cache_bundle where
  "sample_bundle = \<lparr> cb_manifest_json = [1, 2], cb_qwen_wav = [3], cb_device_eiad = [] \<rparr>"

lemma sample_correct: "gcm_correct (cs_lib sample_store)"
  by (simp add: gcm_correct_def sample_store_def sample_lib_def TAG_BYTES_def)

lemma sample_total: "gcm_encrypt (cs_lib sample_store) k n a m \<noteq> None"
  by (simp add: sample_store_def sample_lib_def)

lemma scan_empty: "audit c (disk_of [] [] 0) = (Ok \<lparr> finalized_generations = 0, temporary_generations = 0, encrypted_bytes = 0 \<rparr>, disk_of [] [] 0)"
proof -
  have "dk_plan (disk_of [] [] 0) = []" "dk_root (disk_of [] [] 0) = []" by (simp_all add: disk_of_def)
  then show ?thesis
    by (simp add: audit_def scan_unlocked_def directory_names_def io_bind_def calm_entries empty_scan_def)
qed

lemma sample_room: "has_room sample_store sample_bundle (disk_of [] [] 0)"
  unfolding has_room_def scan_empty
  by (simp add: sample_store_def sample_bundle_def default_limits_def encoded_bundle_bytes_def checked_add_def cache_consts ALL_KINDS_def)

lemma sample_published: "\<exists>s. publish_or_verify_unlocked sample_store (sample_id 1) sample_bundle (disk_of [] [] 0) = (Ok (), s)"
proof -
  have "validate_bundle sample_bundle = Ok ()"
    by (simp add: validate_bundle_def too_large_def sample_bundle_def checked_add_def cache_consts)
  moreover have "view [] (sample_id 1) = Inl NotFound" by (simp add: view_def sub_dir_def)
  moreover have "name_unused sample_store (sample_id 1) []" by (simp add: name_unused_def)
  ultimately show ?thesis
    using fresh_publication_succeeds [OF sample_correct sample_total _ sample_room] by blast
qed

theorem publication_atomic_witness:
  "\<exists>s. publish_or_verify_unlocked sample_store (sample_id 1) sample_bundle (disk_of [] [] 0) = (Ok (), s) \<and>
     peek sample_store (dk_root s) (sample_id 1) = Ok sample_bundle"
proof -
  obtain s where s: "publish_or_verify_unlocked sample_store (sample_id 1) sample_bundle (disk_of [] [] 0) = (Ok (), s)"
    using sample_published by blast
  from publication_atomic [OF sample_correct s] have "peek sample_store (dk_root s) (sample_id 1) = Ok sample_bundle" by simp
  with s show ?thesis by blast
qed

theorem reconcile_keeps_referenced_witness:
  "\<exists>s res. reconcile_unlocked sample_store [reference (sample_id 1)] (disk_of [] [] 0) = (res, s) \<and> dk_root s = [] \<and> dk_history s = [[]]"
proof -
  obtain res s where run: "reconcile_unlocked sample_store [reference (sample_id 1)] (disk_of [] [] 0) = (res, s)" by fastforce
  have q: "from_reference (reference (sample_id 1)) = Ok (sample_id 1)" by (rule from_reference_reference) (simp add: sample_id_def)
  have "peek sample_store [] (sample_id 1) = Err MissingObject" by (simp add: peek_view view_def sub_dir_def)
  then have "dk_root s = [] \<and> dk_history s = [[]]" using reconcile_keeps_referenced [OF run] q by simp
  with run show ?thesis by blast
qed

end
