(* ===== verification/Tts_Cache.thy ===== *)
theory Tts_Cache
  imports Cache_Store Audio Store_Machine
begin

text \<open>
  The summary document (summary.rs) and the cached recording (tts_cache.rs): the checks of both,
  and the publication and the loading of a recording, each with a callback that runs after the
  authenticated read, under the gate of the cache.
\<close>

section \<open>Summary documents\<close>

definition SUMMARY_SCHEMA_VERSION :: nat where "SUMMARY_SCHEMA_VERSION = 1"
definition MAX_SUMMARY_DOCUMENT_BYTES :: nat where "MAX_SUMMARY_DOCUMENT_BYTES = 64 * 1024"
definition MAX_SUMMARY_ITEMS_PER_SECTION :: nat where "MAX_SUMMARY_ITEMS_PER_SECTION = 32"
definition MAX_SUMMARY_ITEM_BYTES :: nat where "MAX_SUMMARY_ITEM_BYTES = 1024"
definition MAX_SPOKEN_TEXT_BYTES :: nat where "MAX_SPOKEN_TEXT_BYTES = 24 * 1024"
definition MAX_COVERS_NEW_COMPLETIONS :: nat where "MAX_COVERS_NEW_COMPLETIONS = 32"

datatype summary_document_error = SummarySize | SummaryJson | SummarySchema | SummaryText | SummaryCoverage

record summary_source_evidence =
  se_completion_id :: string
  se_exact_quote :: string

record summary_document =
  sd_schema :: nat
  sd_facts :: "string list"
  sd_pending :: "string list"
  sd_decisions :: "string list"
  sd_spoken_text :: string
  sd_source_evidence :: "summary_source_evidence list"
  sd_covers_new_completions :: "string list"

definition valid_text :: "string \<Rightarrow> nat \<Rightarrow> bool" where
  "valid_text value max_bytes \<longleftrightarrow>
     \<not> trim_is_empty value \<and> length value \<le> max_bytes \<and> \<not> any_control (code_units value)"

definition validate_items :: "string list \<Rightarrow> summary_document_error + unit" where
  "validate_items items =
     (if MAX_SUMMARY_ITEMS_PER_SECTION < length items \<or>
         list_ex (\<lambda>item. \<not> valid_text item MAX_SUMMARY_ITEM_BYTES) items
      then Err SummaryText else Ok ())"

fun validate_covers :: "externals \<Rightarrow> string list \<Rightarrow> string list \<Rightarrow> summary_document_error + unit" where
  "validate_covers x seen [] = Ok ()"
| "validate_covers x seen (i # ids) =
     (if \<not> uuid_ok x i \<or> i \<in> set seen then Err SummaryCoverage else validate_covers x (i # seen) ids)"

definition validate_summary :: "externals \<Rightarrow> summary_document \<Rightarrow> summary_document_error + unit" where
  "validate_summary x d =
     (if sd_schema d \<noteq> SUMMARY_SCHEMA_VERSION then Err SummarySchema
      else and_then (validate_items (sd_facts d)) (\<lambda>_.
           and_then (validate_items (sd_pending d)) (\<lambda>_.
           and_then (validate_items (sd_decisions d)) (\<lambda>_.
           if \<not> valid_text (sd_spoken_text d) MAX_SPOKEN_TEXT_BYTES then Err SummaryText
           else if sd_covers_new_completions d = [] \<or> MAX_COVERS_NEW_COMPLETIONS < length (sd_covers_new_completions d)
           then Err SummaryCoverage
           else validate_covers x [] (sd_covers_new_completions d)))))"

definition validate_expected_covers :: "externals \<Rightarrow> string list \<Rightarrow> summary_document \<Rightarrow> summary_document_error + unit" where
  "validate_expected_covers x expected d =
     and_then (validate_summary x d) (\<lambda>_. if sd_covers_new_completions d = expected then Ok () else Err SummaryCoverage)"

section \<open>The manifest of a cached recording\<close>

definition TTS_CACHE_MANIFEST_SCHEMA :: nat where "TTS_CACHE_MANIFEST_SCHEMA = 1"
definition TTS_MODEL :: string where "TTS_MODEL = ''qwen-audio-3.0-tts-flash''"
definition LEGACY_TTS_MODEL :: string where "LEGACY_TTS_MODEL = ''qwen3-tts-instruct-flash-realtime''"
definition LEGACY_TTS_MODEL_SNAPSHOT :: string where
  "LEGACY_TTS_MODEL_SNAPSHOT = ''qwen3-tts-instruct-flash-realtime-2026-01-22''"

record tts_cache_manifest =
  tm_schema :: nat
  tm_requested_model :: string
  tm_served_model :: string
  tm_voice :: string
  tm_response_format :: string
  tm_sample_rate :: nat
  tm_channels :: nat
  tm_pcm_bits_per_sample :: nat
  tm_samples :: nat
  tm_duration_ms :: nat
  tm_eiad_frames :: nat
  tm_billed_characters :: "nat option"
  tm_summary :: summary_document

record tts_receipt =
  tr_model :: string
  tr_voice :: string
  tr_sample_rate :: nat
  tr_samples :: nat
  tr_characters :: "nat option"
  tr_transport :: string
  tr_attempts :: nat

record tts_audio =
  ta_pcm :: "u8 list"
  ta_receipt :: tts_receipt

text \<open>\<open>serde_json\<close> for the two structures; the round trip is what the library documents.\<close>

record json_lib =
  print_summary :: "summary_document \<Rightarrow> u8 list option"
  parse_summary :: "u8 list \<Rightarrow> summary_document option"
  print_manifest :: "tts_cache_manifest \<Rightarrow> u8 list option"
  parse_manifest :: "u8 list \<Rightarrow> tts_cache_manifest option"

definition json_correct :: "json_lib \<Rightarrow> bool" where
  "json_correct j \<longleftrightarrow>
     (\<forall>d b. print_summary j d = Some b \<longrightarrow> parse_summary j b = Some d) \<and>
     (\<forall>m b. print_manifest j m = Some b \<longrightarrow> parse_manifest j b = Some m)"

definition parse_summary_document :: "externals \<Rightarrow> json_lib \<Rightarrow> u8 list \<Rightarrow> summary_document_error + summary_document" where
  "parse_summary_document x j bytes =
     (if bytes = [] \<or> MAX_SUMMARY_DOCUMENT_BYTES < length bytes then Err SummarySize
      else and_then (ok_or SummaryJson (parse_summary j bytes)) (\<lambda>d.
           and_then (validate_summary x d) (\<lambda>_. Ok d)))"

definition canonical_json :: "externals \<Rightarrow> json_lib \<Rightarrow> summary_document \<Rightarrow> summary_document_error + u8 list" where
  "canonical_json x j d =
     and_then (validate_summary x d) (\<lambda>_.
     and_then (ok_or SummaryJson (print_summary j d)) (\<lambda>encoded.
       if MAX_SUMMARY_DOCUMENT_BYTES < length encoded then Err SummarySize else Ok encoded))"

datatype tts_cache_error =
    TtsAudioError audio_error
  | TtsCacheFailed cache_error
  | TtsSummary summary_document_error
  | TtsManifest

record published_tts_generation =
  pg_cache_reference :: string
  pg_samples :: nat
  pg_duration_ms :: nat
  pg_eiad_frames :: nat

record cached_tts_generation =
  cg_summary :: summary_document
  cg_publication :: published_tts_generation

text \<open>\<open>samples.saturating_mul(1_000) / TTS_SAMPLE_RATE\<close>.\<close>

definition duration_of :: "nat \<Rightarrow> nat" where
  "duration_of samples = min (samples * 1000) (2 ^ 64 - 1) div TTS_SAMPLE_RATE"

definition validate_manifest ::
  "externals \<Rightarrow> json_lib \<Rightarrow> tts_cache_manifest \<Rightarrow> tts_audio \<Rightarrow> tts_cache_error + unit" where
  "validate_manifest x j m tts =
     and_then (map_err TtsSummary (canonical_json x j (tm_summary m))) (\<lambda>_.
       if tm_schema m \<noteq> TTS_CACHE_MANIFEST_SCHEMA
          \<or> tm_requested_model m \<noteq> TTS_MODEL
          \<or> tm_served_model m \<noteq> tr_model (ta_receipt tts)
          \<or> tm_voice m \<noteq> tr_voice (ta_receipt tts)
          \<or> tm_response_format m \<noteq> ''pcm''
          \<or> tm_sample_rate m \<noteq> TTS_SAMPLE_RATE
          \<or> tm_channels m \<noteq> 1
          \<or> tm_pcm_bits_per_sample m \<noteq> 16
          \<or> tm_samples m \<noteq> tr_samples (ta_receipt tts)
          \<or> tm_duration_ms m \<noteq> duration_of (tm_samples m)
          \<or> tm_eiad_frames m = 0
          \<or> tm_billed_characters m \<noteq> tr_characters (ta_receipt tts)
       then Err TtsManifest else Ok ())"

definition validate_cached_manifest ::
  "externals \<Rightarrow> json_lib \<Rightarrow> tts_cache_manifest \<Rightarrow> cache_bundle \<Rightarrow> tts_cache_error + unit" where
  "validate_cached_manifest x j m b =
     and_then (map_err TtsSummary (canonical_json x j (tm_summary m))) (\<lambda>_.
     let current_model = tm_requested_model m = TTS_MODEL \<and> tm_served_model m = TTS_MODEL;
         legacy_model = tm_requested_model m = LEGACY_TTS_MODEL \<and>
           tm_served_model m \<in> {LEGACY_TTS_MODEL, LEGACY_TTS_MODEL_SNAPSHOT}
     in if tm_schema m \<noteq> TTS_CACHE_MANIFEST_SCHEMA
          \<or> \<not> (current_model \<or> legacy_model)
          \<or> tm_voice m = []
          \<or> tm_response_format m \<noteq> ''pcm''
          \<or> tm_sample_rate m \<noteq> TTS_SAMPLE_RATE
          \<or> tm_channels m \<noteq> 1
          \<or> tm_pcm_bits_per_sample m \<noteq> 16
          \<or> tm_samples m = 0
          \<or> tm_duration_ms m \<noteq> duration_of (tm_samples m)
          \<or> tm_eiad_frames m = 0
        then Err TtsManifest
        else and_then (map_err TtsAudioError (decode_wav (cb_qwen_wav b))) (\<lambda>wav_pcm.
          if length wav_pcm div 2 \<noteq> tm_samples m then Err TtsManifest
          else and_then (map_err TtsAudioError (inspect_eiad (cb_device_eiad b))) (\<lambda>eiad.
            if em_samples eiad \<noteq> tm_samples m \<or> em_frames eiad \<noteq> tm_eiad_frames m \<or> em_sample_rate eiad \<noteq> tm_sample_rate m
            then Err TtsManifest else Ok ())))"

section \<open>Publishing and loading a recording\<close>

text \<open>
  The cache calls a closure after an authenticated read, under its gate; the closure works on
  the state of its caller (here the database).
\<close>

definition publish_or_verify_with ::
  "cache_store \<Rightarrow> cache_id \<Rightarrow> cache_bundle \<Rightarrow> (cache_bundle \<Rightarrow> 'd \<Rightarrow> 'r \<times> 'd) \<Rightarrow> disk \<Rightarrow> 'd \<Rightarrow> (cache_error + 'r) \<times> disk \<times> 'd" where
  "publish_or_verify_with c i b after_authenticated_read s d =
     (case io_bind (publish_or_verify_unlocked c i b) (\<lambda>_. read_unlocked c i) s of
        (Inl e, s') \<Rightarrow> (Err e, s', d)
      | (Inr authenticated, s') \<Rightarrow> (case after_authenticated_read authenticated d of (r, d') \<Rightarrow> (Ok r, s', d')))"

definition read_with ::
  "cache_store \<Rightarrow> cache_id \<Rightarrow> (cache_bundle \<Rightarrow> 'd \<Rightarrow> 'r \<times> 'd) \<Rightarrow> disk \<Rightarrow> 'd \<Rightarrow> (cache_error + 'r) \<times> disk \<times> 'd" where
  "read_with c i after_authenticated_read s d =
     (case read_unlocked c i s of
        (Inl e, s') \<Rightarrow> (Err e, s', d)
      | (Inr authenticated, s') \<Rightarrow> (case after_authenticated_read authenticated d of (r, d') \<Rightarrow> (Ok r, s', d')))"

definition reconcile_with :: "cache_store \<Rightarrow> ('e + string list) \<Rightarrow> disk \<Rightarrow> (cache_error + ('e + cleanup_report)) \<times> disk" where
  "reconcile_with c references s =
     (case references of
        Inl e \<Rightarrow> (Ok (Inl e), s)
      | Inr refs \<Rightarrow> (case reconcile_unlocked c refs s of (Inl e, s') \<Rightarrow> (Err e, s') | (Inr r, s') \<Rightarrow> (Ok (Inr r), s')))"

datatype 'e callback_error = CallbackCache tts_cache_error | Callback 'e

definition committed ::
  "(cache_error + ('e callback_error + 'r)) \<times> disk \<times> 'd \<Rightarrow> (tts_cache_error + ('e + 'r)) \<times> disk \<times> 'd" where
  "committed res =
     (case fst res of
        Inl e \<Rightarrow> Err (TtsCacheFailed e)
      | Inr (Inr value) \<Rightarrow> Ok (Inr value)
      | Inr (Inl (CallbackCache e)) \<Rightarrow> Err e
      | Inr (Inl (Callback e)) \<Rightarrow> Ok (Inl e), snd res)"

text \<open>The two closures: checks of the authenticated bundle, then the callback of the caller.\<close>

definition checked_publication ::
  "externals \<Rightarrow> json_lib \<Rightarrow> cache_id \<Rightarrow> tts_audio \<Rightarrow> cache_bundle \<Rightarrow> tts_cache_error + published_tts_generation" where
  "checked_publication x j i tts published =
     and_then (ok_or TtsManifest (parse_manifest j (cb_manifest_json published))) (\<lambda>m.
     and_then (validate_manifest x j m tts) (\<lambda>_.
     and_then (map_err TtsAudioError (decode_wav (cb_qwen_wav published))) (\<lambda>wav_pcm.
     if wav_pcm \<noteq> ta_pcm tts then Err TtsManifest
     else and_then (map_err TtsAudioError (inspect_eiad (cb_device_eiad published))) (\<lambda>eiad.
       if em_samples eiad \<noteq> tm_samples m \<or> em_frames eiad \<noteq> tm_eiad_frames m \<or> em_sample_rate eiad \<noteq> tm_sample_rate m
       then Err TtsManifest
       else Ok \<lparr> pg_cache_reference = reference i, pg_samples = tm_samples m,
                 pg_duration_ms = tm_duration_ms m, pg_eiad_frames = tm_eiad_frames m \<rparr>))))"

definition loaded_generation ::
  "externals \<Rightarrow> json_lib \<Rightarrow> cache_id \<Rightarrow> cache_bundle \<Rightarrow> tts_cache_error + cached_tts_generation" where
  "loaded_generation x j i published =
     and_then (ok_or TtsManifest (parse_manifest j (cb_manifest_json published))) (\<lambda>m.
     and_then (validate_cached_manifest x j m published) (\<lambda>_.
       Ok \<lparr> cg_summary = tm_summary m,
            cg_publication = \<lparr> pg_cache_reference = reference i, pg_samples = tm_samples m,
              pg_duration_ms = tm_duration_ms m, pg_eiad_frames = tm_eiad_frames m \<rparr> \<rparr>))"

definition then_callback :: "(tts_cache_error + 'a) \<Rightarrow> ('a \<Rightarrow> 'd \<Rightarrow> ('e + 'r) \<times> 'd) \<Rightarrow> 'd \<Rightarrow> ('e callback_error + 'r) \<times> 'd" where
  "then_callback v f d =
     (case v of Inl e \<Rightarrow> (Err (CallbackCache e), d)
      | Inr y \<Rightarrow> (case f y d of (r, d') \<Rightarrow> (map_err Callback r, d')))"

definition tts_manifest :: "summary_document \<Rightarrow> tts_audio \<Rightarrow> audio_artifacts \<Rightarrow> tts_cache_manifest" where
  "tts_manifest summary tts artifacts =
     \<lparr> tm_schema = TTS_CACHE_MANIFEST_SCHEMA, tm_requested_model = TTS_MODEL,
       tm_served_model = tr_model (ta_receipt tts), tm_voice = tr_voice (ta_receipt tts),
       tm_response_format = ''pcm'', tm_sample_rate = TTS_SAMPLE_RATE, tm_channels = 1,
       tm_pcm_bits_per_sample = 16, tm_samples = aa_samples artifacts,
       tm_duration_ms = duration_ms artifacts, tm_eiad_frames = aa_frames artifacts,
       tm_billed_characters = tr_characters (ta_receipt tts), tm_summary = summary \<rparr>"

definition prepare_publication ::
  "externals \<Rightarrow> json_lib \<Rightarrow> string \<Rightarrow> u64 \<Rightarrow> summary_document \<Rightarrow> tts_audio \<Rightarrow> tts_cache_error + (cache_id \<times> cache_bundle)" where
  "prepare_publication x j task_id generation summary tts =
     and_then (map_err TtsSummary (canonical_json x j summary)) (\<lambda>_.
     if tr_sample_rate (ta_receipt tts) \<noteq> TTS_SAMPLE_RATE \<or> tr_samples (ta_receipt tts) \<noteq> length (ta_pcm tts) div 2
     then Err TtsManifest
     else and_then (map_err TtsAudioError (encode_tts_audio (ta_pcm tts))) (\<lambda>artifacts.
       and_then (ok_or TtsManifest (print_manifest j (tts_manifest summary tts artifacts))) (\<lambda>manifest_json.
       and_then (map_err (\<lambda>e. TtsCacheFailed (CacheRef e)) (for_task (sha256 x) task_id generation)) (\<lambda>i.
         Ok (i, \<lparr> cb_manifest_json = manifest_json, cb_qwen_wav = aa_wav artifacts, cb_device_eiad = aa_eiad artifacts \<rparr>)))))"

definition publish_tts_generation_with ::
  "externals \<Rightarrow> json_lib \<Rightarrow> cache_store \<Rightarrow> string \<Rightarrow> u64 \<Rightarrow> summary_document \<Rightarrow> tts_audio \<Rightarrow>
   (published_tts_generation \<Rightarrow> 'd \<Rightarrow> ('e + 'r) \<times> 'd) \<Rightarrow> disk \<Rightarrow> 'd \<Rightarrow> (tts_cache_error + ('e + 'r)) \<times> disk \<times> 'd" where
  "publish_tts_generation_with x j c task_id generation summary tts f s d =
     (case prepare_publication x j task_id generation summary tts of
        Inl e \<Rightarrow> (Err e, s, d)
      | Inr (i, b) \<Rightarrow> committed (publish_or_verify_with c i b
           (\<lambda>published. then_callback (checked_publication x j i tts published) f) s d))"

definition load_tts_generation_with ::
  "externals \<Rightarrow> json_lib \<Rightarrow> cache_store \<Rightarrow> string \<Rightarrow> u64 \<Rightarrow>
   (cached_tts_generation \<Rightarrow> 'd \<Rightarrow> ('e + 'r) \<times> 'd) \<Rightarrow> disk \<Rightarrow> 'd \<Rightarrow> (tts_cache_error + ('e + 'r)) \<times> disk \<times> 'd" where
  "load_tts_generation_with x j c task_id generation f s d =
     (case for_task (sha256 x) task_id generation of
        Inl e \<Rightarrow> (Err (TtsCacheFailed (CacheRef e)), s, d)
      | Inr i \<Rightarrow> committed (read_with c i (\<lambda>published. then_callback (loaded_generation x j i published) f) s d))"

definition load_tts_summary ::
  "externals \<Rightarrow> json_lib \<Rightarrow> cache_store \<Rightarrow> string \<Rightarrow> u64 \<Rightarrow> disk \<Rightarrow> (tts_cache_error + summary_document) \<times> disk" where
  "load_tts_summary x j c task_id generation s =
     (case load_tts_generation_with x j c task_id generation (\<lambda>loaded u. (Ok (cg_summary loaded) :: unit + summary_document, u)) s () of
        (Inl e, s', _) \<Rightarrow> (Err e, s')
      | (Inr (Inr summary), s', _) \<Rightarrow> (Ok summary, s')
      | (Inr (Inl _), s', _) \<Rightarrow> (Err TtsManifest, s'))"

end
