(* ===== verification/Summary_Orchestrator.thy ===== *)
theory Summary_Orchestrator
  imports Tts_Cache
begin

text \<open>
  One run of the summary orchestrator (summary_orchestrator.rs): claim, recovery of a recording
  that is already cached, generation of the document, speech, and the commit of the recording
  into the cache and the ledger.
\<close>

section \<open>The orchestrator\<close>

definition SUMMARY_TTS_VOICE :: string where "SUMMARY_TTS_VOICE = ''longanfengyue''"

datatype tts_error =
    TtsCredential | TtsInvalidRequest | TtsRejected | TtsRateLimited | TtsUnavailable
  | AmbiguousAfterCommit | TtsProtocol | TtsAudioLimit

datatype spark_error =
    CliMissing | Authentication | UnsafeWorkspace | InvalidInput | InvalidOutput | OutputTooLarge
  | SparkTimeout | SparkCancelled | Busy | ProcessIo | SparkRateLimited | ServiceUnavailable
  | ResourceLimit | ModelUnavailable | LocalRuntime | SilentExitFailure | ExitFailure

datatype summary_orchestrator_error =
    OrchestratorStore store_error
  | OrchestratorSummary summary_document_error
  | PreviousCache tts_cache_error
  | OrchestratorSpark spark_error
  | OrchestratorTts tts_error
  | OrchestratorCache tts_cache_error

datatype summary_run_outcome =
    Idle
  | AlreadyPublished u64
  | RunPublished unread_summary published_tts_generation bool
  | ManualTtsReconciliationRequired u64

text \<open>
  The parameters of a run: the store and cache it works on (\<open>disk\<close> and \<open>db\<close> are passed along),
  the model that writes the summary and the speech service. The fixed speaking instructions are
  part of the parameter \<open>so_synthesize\<close>.
\<close>

record summary_orchestrator =
  so_externals :: externals
  so_json :: json_lib
  so_cache :: cache_store
  so_generate :: "summary_claim \<Rightarrow> summary_document option \<Rightarrow> spark_error + summary_document"
  so_synthesize :: "string \<Rightarrow> string \<Rightarrow> tts_error + tts_audio"

type_synonym 'r orchestration = "(summary_orchestrator_error + 'r) \<times> disk \<times> db"

definition abandon :: "summary_orchestrator \<Rightarrow> summary_claim \<Rightarrow> db \<Rightarrow> (store_error + unit) \<times> db" where
  "abandon o' claim d =
     (case abandon_summary_claim (so_externals o') claim d of
        (Inl e, d') \<Rightarrow> (Err e, d')
      | (Inr True, d') \<Rightarrow> (Ok (), d')
      | (Inr False, d') \<Rightarrow> (Err SummaryClaimChanged, d'))"

text \<open>\<open>self.abandon(&claim)?\<close> followed by a return.\<close>

definition abandon_and_return ::
  "summary_orchestrator \<Rightarrow> summary_claim \<Rightarrow> (summary_orchestrator_error + 'r) \<Rightarrow> disk \<Rightarrow> db \<Rightarrow> 'r orchestration" where
  "abandon_and_return o' claim r s d =
     (case abandon o' claim d of
        (Inl e, d') \<Rightarrow> (Err (OrchestratorStore e), s, d')
      | (Inr _, d') \<Rightarrow> (r, s, d'))"

datatype recovery_commit_error = RecoveryStore store_error | RecoverySummary summary_document_error

definition expected_covers :: "summary_claim \<Rightarrow> string list" where
  "expected_covers claim = map p_completion_id (sc_completions claim)"

definition recovery_commit ::
  "summary_orchestrator \<Rightarrow> summary_claim \<Rightarrow> cached_tts_generation \<Rightarrow> db \<Rightarrow>
   (recovery_commit_error + (unread_summary \<times> published_tts_generation)) \<times> db" where
  "recovery_commit o' claim cached d =
     (case validate_expected_covers (so_externals o') (expected_covers claim) (cg_summary cached) of
        Inl e \<Rightarrow> (Err (RecoverySummary e), d)
      | Inr _ \<Rightarrow>
          (case publish_summary (so_externals o') claim (pg_cache_reference (cg_publication cached)) d of
             (Inl e, d') \<Rightarrow> (Err (RecoveryStore e), d')
           | (Inr unread, d') \<Rightarrow> (Ok (unread, cg_publication cached), d')))"

definition recover_authenticated_cache ::
  "summary_orchestrator \<Rightarrow> summary_claim \<Rightarrow> disk \<Rightarrow> db \<Rightarrow> summary_run_outcome option orchestration" where
  "recover_authenticated_cache o' claim s d =
     (case load_tts_generation_with (so_externals o') (so_json o') (so_cache o') (sc_task_id claim) (sc_generation claim)
             (recovery_commit o' claim) s d of
        (Inr (Inr (unread, audio)), s', d') \<Rightarrow> (Ok (Some (RunPublished unread audio True)), s', d')
      | (Inr (Inl (RecoveryStore e)), s', d') \<Rightarrow> (Err (OrchestratorStore e), s', d')
      | (Inr (Inl (RecoverySummary e)), s', d') \<Rightarrow> (Err (OrchestratorSummary e), s', d')
      | (Inl e, s', d') \<Rightarrow>
          if e = TtsCacheFailed MissingObject then (Ok None, s', d') else (Err (OrchestratorCache e), s', d'))"

text \<open>The last step of a run: the recording goes into the cache, the summary into the ledger.\<close>

definition publication_commit ::
  "summary_orchestrator \<Rightarrow> summary_claim \<Rightarrow> published_tts_generation \<Rightarrow> db \<Rightarrow>
   (store_error + (unread_summary \<times> published_tts_generation)) \<times> db" where
  "publication_commit o' claim audio d =
     (case publish_summary (so_externals o') claim (pg_cache_reference audio) d of
        (Inl e, d') \<Rightarrow> (Err e, d')
      | (Inr unread, d') \<Rightarrow> (Ok (unread, audio), d'))"

definition commit_recording ::
  "summary_orchestrator \<Rightarrow> summary_claim \<Rightarrow> summary_document \<Rightarrow> tts_audio \<Rightarrow> disk \<Rightarrow> db \<Rightarrow> summary_run_outcome orchestration" where
  "commit_recording o' claim summary tts s d =
     (case publish_tts_generation_with (so_externals o') (so_json o') (so_cache o') (sc_task_id claim) (sc_generation claim)
             summary tts (publication_commit o' claim) s d of
        (Inr (Inr (unread, audio)), s', d') \<Rightarrow> (Ok (RunPublished unread audio False), s', d')
      | (Inr (Inl e), s', d') \<Rightarrow> (Err (OrchestratorStore e), s', d')
      | (Inl _, s', d') \<Rightarrow>
          (case recover_authenticated_cache o' claim s' d' of
             (Inr (Some outcome), s'', d'') \<Rightarrow> (Ok outcome, s'', d'')
           | (Inr None, s'', d'') \<Rightarrow> abandon_and_return o' claim (Ok Idle) s'' d''
           | (Inl e, s'', d'') \<Rightarrow> abandon_and_return o' claim (Err e) s'' d''))"

definition speak ::
  "summary_orchestrator \<Rightarrow> summary_claim \<Rightarrow> summary_document \<Rightarrow> disk \<Rightarrow> db \<Rightarrow> summary_run_outcome orchestration" where
  "speak o' claim summary s d =
     (case begin_summary_tts_attempt (so_externals o') claim d of
        (Inl e, d') \<Rightarrow> (Err (OrchestratorStore e), s, d')
      | (Inr tts_attempt, d') \<Rightarrow>
          if tts_attempt \<noteq> Started then abandon_and_return o' claim (Ok Idle) s d'
          else (case so_synthesize o' (sd_spoken_text summary) SUMMARY_TTS_VOICE of
              Inl e \<Rightarrow> if e = AmbiguousAfterCommit then abandon_and_return o' claim (Ok Idle) s d'
                       else abandon_and_return o' claim (Err (OrchestratorTts e)) s d'
            | Inr tts \<Rightarrow> if tr_voice (ta_receipt tts) \<noteq> SUMMARY_TTS_VOICE
                         then abandon_and_return o' claim (Ok Idle) s d'
                         else commit_recording o' claim summary tts s d'))"

definition write_and_speak ::
  "summary_orchestrator \<Rightarrow> summary_claim \<Rightarrow> summary_document option \<Rightarrow> disk \<Rightarrow> db \<Rightarrow> summary_run_outcome orchestration" where
  "write_and_speak o' claim previous s d =
     (case so_generate o' claim previous of
        Inl e \<Rightarrow> abandon_and_return o' claim (Err (OrchestratorSpark e)) s d
      | Inr summary \<Rightarrow>
          (case validate_expected_covers (so_externals o') (expected_covers claim) summary of
             Inl e \<Rightarrow> abandon_and_return o' claim (Err (OrchestratorSummary e)) s d
           | Inr _ \<Rightarrow> speak o' claim summary s d))"

definition execute_claim :: "summary_orchestrator \<Rightarrow> summary_claim \<Rightarrow> disk \<Rightarrow> db \<Rightarrow> summary_run_outcome orchestration" where
  "execute_claim o' claim s d =
     (case recover_authenticated_cache o' claim s d of
        (Inr (Some outcome), s', d') \<Rightarrow> (Ok outcome, s', d')
      | (Inl e, s', d') \<Rightarrow> (Err e, s', d')
      | (Inr None, s', d') \<Rightarrow>
          (case summary_tts_attempt (so_externals o') claim d' of
             Inl e \<Rightarrow> (Err (OrchestratorStore e), s', d')
           | Inr (Some tts_attempt) \<Rightarrow> abandon_and_return o' claim (Ok Idle) s' d'
           | Inr None \<Rightarrow>
               (case sc_previous_unread claim of
                  None \<Rightarrow> write_and_speak o' claim None s' d'
                | Some previous \<Rightarrow>
                    (case load_tts_summary (so_externals o') (so_json o') (so_cache o') (sc_task_id claim)
                            (u_generation previous) s' of
                       (Inl e, s'') \<Rightarrow> abandon_and_return o' claim (Err (PreviousCache e)) s'' d'
                     | (Inr summary, s'') \<Rightarrow> write_and_speak o' claim (Some summary) s'' d'))))"

definition resume :: "summary_orchestrator \<Rightarrow> string \<Rightarrow> disk \<Rightarrow> db \<Rightarrow> summary_run_outcome orchestration" where
  "resume o' task_id s d =
     (case resume_interrupted_summary (so_externals o') task_id d of
        (Inl e, d') \<Rightarrow> (Err (OrchestratorStore e), s, d')
      | (Inr None, d') \<Rightarrow> (Ok Idle, s, d')
      | (Inr (Some claim), d') \<Rightarrow> execute_claim o' claim s d')"

definition run_summary :: "summary_orchestrator \<Rightarrow> string \<Rightarrow> string \<Rightarrow> disk \<Rightarrow> db \<Rightarrow> summary_run_outcome orchestration" where
  "run_summary o' task_id request_id s d =
     (case claim_summary (so_externals o') task_id request_id d of
        (Inl e, d') \<Rightarrow> (Err (OrchestratorStore e), s, d')
      | (Inr None, d') \<Rightarrow> (Ok Idle, s, d')
      | (Inr (Some (Published _ generation)), d') \<Rightarrow> (Ok (AlreadyPublished generation), s, d')
      | (Inr (Some (Claimed claim)), d') \<Rightarrow> execute_claim o' claim s d')"

end
