(* ===== verification/Summary_System.thy ===== *)
theory Summary_System
  imports Summary_Orchestrator Store_Properties
begin

text \<open>
  The composition of the state database, the cache and the orchestrator: the states they reach
  together, crashes included, and the invariant that every reference the database retains plays.
\<close>

section \<open>The references that the database retains\<close>

definition retained_shrinks :: "db \<Rightarrow> db \<Rightarrow> bool" where
  "retained_shrinks d d' \<longleftrightarrow> retained_summary_cache_references d' \<subseteq> retained_summary_cache_references d"

definition retains :: "summary_row \<Rightarrow> string \<Rightarrow> bool" where
  "retains s r \<longleftrightarrow> s_state s \<in> {Unheard, Leased} \<and> s_cache_object s = Some r"

lemma retained_rows: "r \<in> retained_summary_cache_references d \<longleftrightarrow> (\<exists>s\<in>set (db_summaries d). retains s r)"
  by (auto simp: retained_summary_cache_references_def retains_def List.map_filter_def image_iff)

lemma row_step_retains: "row_step s s' \<Longrightarrow> retains s' r \<Longrightarrow> retains s r"
  by (auto simp: row_step_def retains_def set_summary_state_def abandon_row_def release_row_def split: if_splits)

interpretation shrinking: ledger_relation retained_shrinks
proof
  show "retained_shrinks d d'" if "db_summaries d' = db_summaries d" for d d'
    using that by (simp add: retained_shrinks_def retained_summary_cache_references_def)
  show "retained_shrinks d d'" if "db_summaries d' = db_summaries d @ [n]" "s_state n = Generating" for d d' n
    using that by (auto simp: retained_shrinks_def retained_rows retains_def)
  show "retained_shrinks d d'" if "db_summaries d' = update_where p f (db_summaries d)"
    "\<And>s. s \<in> set (db_summaries d) \<Longrightarrow> p s \<Longrightarrow> row_step s (f s)" for d d' p f
  proof -
    have "\<exists>s\<in>set (db_summaries d). retains s r" if s': "s' \<in> set (db_summaries d')" "retains s' r" for s' r
    proof -
      obtain s where "s \<in> set (db_summaries d)" "s' = (if p s then f s else s)"
        using s'(1) \<open>db_summaries d' = _\<close> unfolding update_where_def by auto
      then show ?thesis using s'(2) \<open>\<And>s. _ \<Longrightarrow> _ \<Longrightarrow> row_step s (f s)\<close> row_step_retains by (metis (full_types))
    qed
    then show ?thesis by (auto simp: retained_shrinks_def retained_rows)
  qed
  show "retained_shrinks d e \<Longrightarrow> retained_shrinks e f' \<Longrightarrow> retained_shrinks d f'" for d e f'
    by (auto simp: retained_shrinks_def)
qed

lemma publish_retains:
  assumes inv: "ledger_inv x d" and e: "publish_summary x c cache d = (res, d')"
  shows "retained_summary_cache_references d' \<subseteq> insert cache (retained_summary_cache_references d)"
  using inv e
proof (cases rule: publish_cases)
  case (published s uo)
  have "retains r ref \<or> ref = cache"
    if "retains (if r = s then publish_row cache r else if Some r = uo then supersede_row (s_generation s) r else r) ref" for r ref
    using that by (auto simp: retains_def publish_row_def supersede_row_def split: if_splits)
  note step = this
  have rows: "db_summaries d' = map (\<lambda>r. if r = s then publish_row cache r
      else if Some r = uo then supersede_row (s_generation s) r else r) (db_summaries d)"
    by (simp add: published(13) published_rows_def)
  show ?thesis
  proof
    fix ref assume "ref \<in> retained_summary_cache_references d'"
    then obtain r where "r \<in> set (db_summaries d)" "retains (if r = s then publish_row cache r
        else if Some r = uo then supersede_row (s_generation s) r else r) ref"
      unfolding retained_rows rows set_map by blast
    then show "ref \<in> insert cache (retained_summary_cache_references d)" using step by (auto simp: retained_rows)
  qed
qed auto

section \<open>Store, cache and orchestrator together\<close>

text \<open>The database operations other than publication, by any thread.\<close>

inductive other_store_step :: "externals \<Rightarrow> db \<Rightarrow> db \<Rightarrow> bool" for x where
  "other_store_step x d (snd (open_store d))"
| "other_store_step x d (snd (enqueue j d))"
| "other_store_step x d (snd (claim_next_runnable d))"
| "other_store_step x d (snd (mark_completed request g d))"
| "other_store_step x d (snd (mark_failed request g failure d))"
| "other_store_step x d (snd (set_binding slot expected task d))"
| "other_store_step x d (snd (commit_rollout_completion_on x now b cur nxt cid turn_pack d))"
| other_claim: "other_store_step x d (snd (claim_summary x task request d))"
| other_abandon: "other_store_step x d (snd (abandon_summary_claim x c d))"
| "other_store_step x d (snd (abandon_interrupted_summary_for_task x task d))"
| other_begin: "other_store_step x d (snd (begin_summary_tts_attempt x c d))"
| "other_store_step x d (snd (mark_summary_tts_ambiguous x c d))"
| other_resume: "other_store_step x d (snd (resume_interrupted_summary x task d))"
| "other_store_step x d (snd (acquire_summary_playback slot rg cg lease d))"
| "other_store_step x d (snd (cancel_summary_playback x l d))"
| "other_store_step x d (snd (finish_summary_playback x l d))"

lemma other_store_step: "other_store_step x d e \<Longrightarrow> store_step x d e"
  by (erule other_store_step.cases) (auto intro: store_step.intros)

lemma other_store_step_retained: "ledger_inv x d \<Longrightarrow> other_store_step x d e \<Longrightarrow> retained_shrinks d e"
  by (erule other_store_step.cases)
    (auto intro: shrinking.open_store_summaries_related shrinking.relate_frame shrinking.completion_related
      shrinking.claim_summary_related shrinking.abandon_summary_related shrinking.abandon_interrupted_related
      shrinking.tts_related shrinking.resume_related shrinking.acquire_related shrinking.cancel_related
      shrinking.finish_related simp: frames)

text \<open>
  The states that the cache tree and the database can reach: other database operations, the
  commit of a recording with the publication in the ledger, the recovery of a recording that
  is already in the cache, and reconciliation with the retained references; and the states that
  a crash leaves behind in the middle of a commit or a reconciliation.
\<close>

inductive summary_reach :: "externals \<Rightarrow> json_lib \<Rightarrow> cache_store \<Rightarrow> entries \<Rightarrow> db \<Rightarrow> bool" for x j c where
  summary_start: "summary_reach x j c r empty_db"
| summary_store: "summary_reach x j c r d \<Longrightarrow> other_store_step x d e \<Longrightarrow> summary_reach x j c r e"
| summary_commit: "summary_reach x j c r d \<Longrightarrow> so_externals o' = x \<Longrightarrow>
    publish_tts_generation_with x j c task generation summary tts (publication_commit o' claim) (disk_of r plan draws) d = (res, s, e) \<Longrightarrow>
    summary_reach x j c (dk_root s) e"
| summary_commit_crash: "summary_reach x j c r d \<Longrightarrow> so_externals o' = x \<Longrightarrow>
    publish_tts_generation_with x j c task generation summary tts (publication_commit o' claim) (disk_of r plan draws) d = (res, s, e) \<Longrightarrow>
    t \<in> set (dk_history s) \<Longrightarrow> summary_reach x j c t d"
| summary_recover: "summary_reach x j c r d \<Longrightarrow> so_externals o' = x \<Longrightarrow> dk_root s = r \<Longrightarrow>
    load_tts_generation_with x j c task generation (recovery_commit o' claim) s d = (res, s', e) \<Longrightarrow>
    summary_reach x j c (dk_root s') e"
| summary_reconcile: "summary_reach x j c r d \<Longrightarrow> set refs = retained_summary_cache_references d \<Longrightarrow>
    reconcile_with c (Ok refs :: store_error + string list) (disk_of r plan draws) = (res, s) \<Longrightarrow>
    t = dk_root s \<or> t \<in> set (dk_history s) \<Longrightarrow> summary_reach x j c t d"

section \<open>Retained recordings stay playable\<close>

text \<open>A reference that reads back an authenticated bundle with a well-formed recording.\<close>

definition plays :: "cache_store \<Rightarrow> entries \<Rightarrow> string \<Rightarrow> bool" where
  "plays c r ref \<longleftrightarrow> (\<exists>i b m. from_reference ref = Ok i \<and> peek c r i = Ok b \<and> inspect_eiad (cb_device_eiad b) = Ok m)"

definition all_play :: "cache_store \<Rightarrow> entries \<Rightarrow> db \<Rightarrow> bool" where
  "all_play c r d \<longleftrightarrow> (\<forall>ref\<in>retained_summary_cache_references d. plays c r ref)"

text \<open>Trees that keep whatever could be read.\<close>

definition keeps_readable :: "cache_store \<Rightarrow> entries \<Rightarrow> entries \<Rightarrow> bool" where
  "keeps_readable c r t \<longleftrightarrow> (\<forall>i b. peek c r i = Ok b \<longrightarrow> peek c t i = Ok b)"

lemma keeps_readable_plays: "keeps_readable c r t \<Longrightarrow> plays c r ref \<Longrightarrow> plays c t ref"
  unfolding plays_def keeps_readable_def by blast

lemma keeps_readable_trans: "keeps_readable c r t \<Longrightarrow> keeps_readable c t u \<Longrightarrow> keeps_readable c r u"
  by (simp add: keeps_readable_def)

lemma publish_keeps_readable:
  assumes lib: "gcm_correct (cs_lib c)" and run: "publish_or_verify_unlocked c i b (disk_of r plan draws) = (res, s)"
    and t: "t = dk_root s \<or> t \<in> set (dk_history s)"
  shows "keeps_readable c r t"
proof -
  have v: "views_in {view r} (disk_of r plan draws)" by (simp add: views_in_def disk_of_def)
  have "view t = view r \<or> view r i = Inl NotFound \<and> (\<exists>fs. view t = (view r)(i := Inr fs))"
    using publish_or_verify_publication [OF lib v run] t by (auto simp: views_in_def)
  then show ?thesis
  proof
    assume a: "view r i = Inl NotFound \<and> (\<exists>fs. view t = (view r)(i := Inr fs))"
    then obtain fs where fs: "view t = (view r)(i := Inr fs)" by blast
    have "peek c r i = Err MissingObject" using a by (simp add: peek_view)
    moreover have "peek c t j = peek c r j" if "j \<noteq> i" for j using fs that by (simp add: peek_view)
    ultimately show ?thesis unfolding keeps_readable_def by (metis sum.distinct(1))
  qed (simp add: keeps_readable_def peek_view)
qed

text \<open>The commit of a recording: the tree, and what the callback was given.\<close>

lemma publish_with_cases:
  assumes lib: "gcm_correct (cs_lib c)"
    and run: "publish_tts_generation_with x j c task generation summary tts f (disk_of r plan draws) d = (res, s, e)"
  shows "(t = dk_root s \<or> t \<in> set (dk_history s) \<longrightarrow> keeps_readable c r t) \<and>
    (e = d \<or> (\<exists>i b m g. peek c (dk_root s) i = Ok b \<and> inspect_eiad (cb_device_eiad b) = Ok m \<and>
       ci_generation i \<noteq> 0 \<and> pg_cache_reference g = reference i \<and> e = snd (f g d)))"
proof (cases "prepare_publication x j task generation summary tts")
  case (Inl err)
  then have "s = disk_of r plan draws" "e = d" using run by (simp_all add: publish_tts_generation_with_def)
  then show ?thesis by (simp add: disk_of_def keeps_readable_def)
next
  case (Inr ib)
  obtain i b where ib: "ib = (i, b)" by fastforce
  have gen: "ci_generation i \<noteq> 0"
    using Inr ib by (auto simp: prepare_publication_def and_then_Ok_iff map_err_Ok_iff for_task_def split: if_splits)
  obtain r1 s1 where p: "publish_or_verify_unlocked c i b (disk_of r plan draws) = (r1, s1)" by fastforce
  have keep: "keeps_readable c r t" if "t = dk_root s1 \<or> t \<in> set (dk_history s1)" for t
    using publish_keeps_readable [OF lib p that] .
  show ?thesis
  proof (cases r1)
    case (Inl err)
    then have "s = s1" "e = d"
      using run Inr ib p by (auto simp: publish_tts_generation_with_def committed_def publish_or_verify_with_def io_bind_def)
    then show ?thesis using keep by blast
  next
    case (Inr u)
    obtain r2 s2 where rd: "read_unlocked c i s1 = (r2, s2)" by fastforce
    have same: "dk_root s2 = dk_root s1" "dk_history s2 = dk_history s1" using readonlyD [OF readonly_read(2) rd] by simp_all
    have run': "(res, s, e) = committed (case r2 of Inl err \<Rightarrow> (Err err, s2, d)
        | Inr a \<Rightarrow> (case then_callback (checked_publication x j i tts a) f d of (v, d') \<Rightarrow> (Ok v, s2, d')))"
      using run \<open>prepare_publication _ _ _ _ _ _ = _\<close> ib p Inr rd
      by (auto simp: publish_tts_generation_with_def publish_or_verify_with_def io_bind_def split: sum.splits prod.splits)
    have s: "s = s2" using run' by (auto simp: committed_def split: sum.splits prod.splits)
    show ?thesis
    proof (cases r2)
      case (Inl err)
      then have "e = d" using run' by (simp add: committed_def)
      then show ?thesis using keep s same by simp
    next
      case (Inr a)
      then have rd': "peek c (dk_root s) i = Ok a" using read_peek [of c i s1 a s2] rd s same by simp
      show ?thesis
      proof (cases "checked_publication x j i tts a")
        case (Inl err)
        then have "e = d" using run' \<open>r2 = Inr a\<close> by (simp add: committed_def then_callback_def)
        then show ?thesis using keep s same by simp
      next
        case (Inr g)
        then have g: "pg_cache_reference g = reference i" "\<exists>m. inspect_eiad (cb_device_eiad a) = Ok m"
          by (auto simp: checked_publication_def and_then_Ok_iff map_err_Ok_iff split: if_splits)
        have "e = snd (f g d)" using run' \<open>r2 = Inr a\<close> Inr by (auto simp: committed_def then_callback_def split: prod.splits)
        moreover obtain m where "inspect_eiad (cb_device_eiad a) = Ok m" using g(2) ..
        ultimately have "\<exists>i b m g. peek c (dk_root s) i = Ok b \<and> inspect_eiad (cb_device_eiad b) = Ok m \<and>
            ci_generation i \<noteq> 0 \<and> pg_cache_reference g = reference i \<and> e = snd (f g d)"
          using rd' g(1) gen by (intro exI conjI)
        moreover have "t = dk_root s \<or> t \<in> set (dk_history s) \<longrightarrow> keeps_readable c r t"
          using keep [of t] s same by simp
        ultimately show ?thesis by simp
      qed
    qed
  qed
qed

lemma load_with_cases:
  assumes run: "load_tts_generation_with x j c task generation f s d = (res, s', e)"
  shows "dk_root s' = dk_root s \<and> dk_history s' = dk_history s \<and>
    (e = d \<or> (\<exists>i b m g. peek c (dk_root s) i = Ok b \<and> inspect_eiad (cb_device_eiad b) = Ok m \<and>
       ci_generation i \<noteq> 0 \<and> pg_cache_reference (cg_publication g) = reference i \<and> e = snd (f g d)))"
proof (cases "for_task (sha256 x) task generation")
  case (Inl err)
  then show ?thesis using run by (simp add: load_tts_generation_with_def)
next
  case (Inr i)
  have gen: "ci_generation i \<noteq> 0" using Inr by (auto simp: for_task_def split: if_splits)
  obtain r2 s2 where rd: "read_unlocked c i s = (r2, s2)" by fastforce
  have same: "dk_root s2 = dk_root s" "dk_history s2 = dk_history s" using readonlyD [OF readonly_read(2) rd] by simp_all
  have run': "(res, s', e) = committed (case r2 of Inl err \<Rightarrow> (Err err, s2, d)
      | Inr a \<Rightarrow> (case then_callback (loaded_generation x j i a) f d of (v, d') \<Rightarrow> (Ok v, s2, d')))"
    using run Inr rd by (auto simp: load_tts_generation_with_def read_with_def split: sum.splits prod.splits)
  have s: "s' = s2" using run' by (auto simp: committed_def split: sum.splits prod.splits)
  show ?thesis
  proof (cases r2)
    case (Inl err)
    then show ?thesis using run' s same by (simp add: committed_def)
  next
    case (Inr a)
    then have rd': "peek c (dk_root s) i = Ok a" using read_peek [of c i s a s2] rd by simp
    show ?thesis
    proof (cases "loaded_generation x j i a")
      case (Inl err)
      then show ?thesis using run' \<open>r2 = Inr a\<close> s same by (simp add: committed_def then_callback_def)
    next
      case (Inr g)
      then have g: "pg_cache_reference (cg_publication g) = reference i" "\<exists>m. inspect_eiad (cb_device_eiad a) = Ok m"
        by (auto simp: loaded_generation_def validate_cached_manifest_def Let_def and_then_Ok_iff map_err_Ok_iff split: if_splits)
      have "e = snd (f g d)" using run' \<open>r2 = Inr a\<close> Inr by (auto simp: committed_def then_callback_def split: prod.splits)
      moreover obtain m where "inspect_eiad (cb_device_eiad a) = Ok m" using g(2) ..
      ultimately have "\<exists>i b m g. peek c (dk_root s) i = Ok b \<and> inspect_eiad (cb_device_eiad b) = Ok m \<and>
          ci_generation i \<noteq> 0 \<and> pg_cache_reference (cg_publication g) = reference i \<and> e = snd (f g d)"
        using rd' g(1) gen by (intro exI conjI)
      then show ?thesis using s same by simp
    qed
  qed
qed

lemma publication_commit_db:
  "snd (publication_commit o' claim g d) = snd (publish_summary (so_externals o') claim (pg_cache_reference g) d)"
  by (simp add: publication_commit_def split: prod.splits sum.splits)

lemma recovery_commit_db:
  "snd (recovery_commit o' claim g d) = d \<or>
   snd (recovery_commit o' claim g d) = snd (publish_summary (so_externals o') claim (pg_cache_reference (cg_publication g)) d)"
  by (simp add: recovery_commit_def split: prod.splits sum.splits)

lemma reconcile_with_run:
  "reconcile_with c (Ok refs) s = (res, s') \<Longrightarrow> \<exists>r. reconcile_unlocked c refs s = (r, s')"
  by (auto simp: reconcile_with_def split: prod.splits sum.splits)

lemma summary_reach_store:
  assumes lib: "gcm_correct (cs_lib c)" and reach: "summary_reach x j c r d"
  shows "store_reachable x d"
  using reach
proof (induction rule: summary_reach.induct)
  case (summary_commit r d o' task generation summary tts claim plan draws res s e)
  then show ?case
    using publish_with_cases [OF lib summary_commit.hyps(3)] publication_commit_db [of o' claim _ d]
    by (metis publish_step steps_step store_reachable_def)
next
  case (summary_recover r d o' s task generation claim res s' e)
  then show ?case
    using load_with_cases [OF summary_recover.hyps(4)] recovery_commit_db [of o' claim _ d]
    by (metis publish_step steps_step store_reachable_def)
qed (auto simp: store_reachable_def intro: steps_refl steps_step other_store_step)

lemma published_plays:
  assumes "peek c r i = Ok b" "inspect_eiad (cb_device_eiad b) = Ok m" "ci_generation i \<noteq> 0"
  shows "plays c r (reference i)"
  using assms from_reference_reference [of i] unfolding plays_def by blast

lemma all_play_publish:
  assumes all: "all_play c r d" and keep: "keeps_readable c r t" and inv: "ledger_inv x d"
    and new: "plays c t ref" and e: "e = snd (publish_summary x claim ref d)"
  shows "all_play c t e"
proof -
  have "retained_summary_cache_references e \<subseteq> insert ref (retained_summary_cache_references d)"
    using publish_retains [OF inv] e by (metis prod.collapse)
  then show ?thesis using all new keeps_readable_plays [OF keep] by (auto simp: all_play_def)
qed

lemma reachable_ledger:
  assumes "gcm_correct (cs_lib c)" "json_ids_roundtrip x" "summary_reach x j c r d"
  shows "ledger_inv x d"
  using ledger.reachable_holds [OF summary_reach_store [OF assms(1,3)]] assms(2) by blast

lemma summary_reach_plays:
  assumes lib: "gcm_correct (cs_lib c)" and json: "json_ids_roundtrip x" and reach: "summary_reach x j c r d"
  shows "all_play c r d"
  using reach
proof (induction rule: summary_reach.induct)
  case (summary_start r)
  then show ?case by (simp add: all_play_def retained_summary_cache_references_def empty_db_def List.map_filter_def)
next
  case (summary_store r d e)
  then show ?case
    using other_store_step_retained [OF reachable_ledger [OF lib json summary_store.hyps(1)]]
    by (auto simp: all_play_def retained_shrinks_def)
next
  case (summary_commit r d o' task generation summary tts claim plan draws res s e)
  note inv = reachable_ledger [OF lib json summary_commit.hyps(1)]
  note cases = publish_with_cases [OF lib summary_commit.hyps(3), of "dk_root s"]
  have keep: "keeps_readable c r (dk_root s)" using cases by blast
  show ?case
  proof (cases "e = d")
    case True
    then show ?thesis using summary_commit.IH keeps_readable_plays [OF keep] by (auto simp: all_play_def)
  next
    case False
    then obtain i b m g where g: "peek c (dk_root s) i = Ok b" "inspect_eiad (cb_device_eiad b) = Ok m" "ci_generation i \<noteq> 0"
        "pg_cache_reference g = reference i" "e = snd (publication_commit o' claim g d)"
      using cases by blast
    then have "e = snd (publish_summary x claim (reference i) d)"
      using summary_commit.hyps(2) by (simp add: publication_commit_db)
    then show ?thesis by (rule all_play_publish [OF summary_commit.IH keep inv published_plays [OF g(1-3)]])
  qed
next
  case (summary_commit_crash r d o' task generation summary tts claim plan draws res s e t)
  have "keeps_readable c r t" using publish_with_cases [OF lib summary_commit_crash.hyps(3), of t] summary_commit_crash.hyps(4) by blast
  then show ?case using summary_commit_crash.IH keeps_readable_plays by (auto simp: all_play_def)
next
  case (summary_recover r d o' s task generation claim res s' e)
  note inv = reachable_ledger [OF lib json summary_recover.hyps(1)]
  note cases = load_with_cases [OF summary_recover.hyps(4)]
  have root: "dk_root s' = r" using cases summary_recover.hyps(3) by simp
  show ?case
  proof (cases "e = d")
    case True
    then show ?thesis using summary_recover.IH root by simp
  next
    case False
    then obtain i b m g where g: "peek c r i = Ok b" "inspect_eiad (cb_device_eiad b) = Ok m" "ci_generation i \<noteq> 0"
        "pg_cache_reference (cg_publication g) = reference i" "e = snd (recovery_commit o' claim g d)"
      using cases summary_recover.hyps(3) by auto
    then have "e = snd (publish_summary x claim (reference i) d)"
      using summary_recover.hyps(2) recovery_commit_db [of o' claim g d] False by auto
    moreover have "keeps_readable c r r" by (simp add: keeps_readable_def)
    ultimately show ?thesis unfolding root by (rule_tac all_play_publish [OF summary_recover.IH _ inv published_plays [OF g(1-3)]])
  qed
next
  case (summary_reconcile r d refs plan draws res s t)
  obtain rr where rr: "reconcile_unlocked c refs (disk_of r plan draws) = (rr, s)"
    using reconcile_with_run [OF summary_reconcile.hyps(3)] by blast
  have v: "views_in {view r} (disk_of r plan draws)" by (simp add: views_in_def disk_of_def)
  have kept: "view t i = view r i" if "i \<in> referenced refs" for i
    using reconcile_cases [OF rr v] summary_reconcile.hyps(4) that by (auto simp: views_in_def pruned_def disk_of_def)
  have "plays c t ref" if "ref \<in> retained_summary_cache_references d" for ref
  proof -
    obtain i b m where i: "from_reference ref = Ok i" "peek c r i = Ok b" "inspect_eiad (cb_device_eiad b) = Ok m"
      using summary_reconcile.IH \<open>ref \<in> _\<close> by (auto simp: all_play_def plays_def)
    then have "i \<in> referenced refs" using \<open>ref \<in> _\<close> summary_reconcile.hyps(2) by (auto simp: referenced_def)
    then have "peek c t i = Ok b" using kept i(2) by (simp add: peek_view)
    then show ?thesis using i unfolding plays_def by blast
  qed
  then show ?case by (simp add: all_play_def)
qed

section \<open>A run of the orchestrator stays within the composed system\<close>

text \<open>States of a run: the tree and the database are reachable.\<close>

definition orchestrates :: "summary_orchestrator \<Rightarrow> externals \<Rightarrow> json_lib \<Rightarrow> cache_store \<Rightarrow> bool" where
  "orchestrates o' x j c \<longleftrightarrow> so_externals o' = x \<and> so_json o' = j \<and> so_cache o' = c"

definition on_track :: "externals \<Rightarrow> json_lib \<Rightarrow> cache_store \<Rightarrow> 'r orchestration \<Rightarrow> bool" where
  "on_track x j c res \<longleftrightarrow> summary_reach x j c (dk_root (fst (snd res))) (snd (snd res))"

lemma abandon_on_track:
  assumes "orchestrates o' x j c" "summary_reach x j c (dk_root s) d"
  shows "on_track x j c (abandon_and_return o' claim r s d)"
proof -
  have "other_store_step x d (snd (abandon o' claim d))"
    using other_abandon [of x d claim] assms(1)
    by (auto simp: abandon_def orchestrates_def split: prod.splits sum.splits bool.splits)
  then have "summary_reach x j c (dk_root s) (snd (abandon o' claim d))" by (rule summary_store [OF assms(2)])
  then show ?thesis by (auto simp: on_track_def abandon_and_return_def split: prod.splits sum.splits)
qed

lemma recover_on_track:
  assumes "orchestrates o' x j c" "summary_reach x j c (dk_root s) d"
  shows "on_track x j c (recover_authenticated_cache o' claim s d)"
    "dk_root (fst (snd (recover_authenticated_cache o' claim s d))) = dk_root s"
    "dk_history (fst (snd (recover_authenticated_cache o' claim s d))) = dk_history s"
proof -
  obtain res s' e where l: "load_tts_generation_with x j c (sc_task_id claim) (sc_generation claim) (recovery_commit o' claim) s d = (res, s', e)"
    by (metis prod.exhaust)
  have reach: "summary_reach x j c (dk_root s') e"
    by (rule summary_recover [OF assms(2) _ refl l]) (use assms(1) in \<open>simp add: orchestrates_def\<close>)
  have "fst (snd (recover_authenticated_cache o' claim s d)) = s' \<and> snd (snd (recover_authenticated_cache o' claim s d)) = e"
    using l assms(1)
    by (simp add: recover_authenticated_cache_def orchestrates_def split: sum.splits prod.splits recovery_commit_error.splits)
  then show "on_track x j c (recover_authenticated_cache o' claim s d)"
    "dk_root (fst (snd (recover_authenticated_cache o' claim s d))) = dk_root s"
    "dk_history (fst (snd (recover_authenticated_cache o' claim s d))) = dk_history s"
    using reach load_with_cases [OF l] by (simp_all add: on_track_def)
qed

text \<open>The disk of a run that has only read so far.\<close>

definition unwritten :: "disk \<Rightarrow> bool" where
  "unwritten s \<longleftrightarrow> dk_history s = [dk_root s]"

lemma unwritten_disk_of: "unwritten s \<Longrightarrow> s = disk_of (dk_root s) (dk_plan s) (dk_draws s)"
  by (simp add: unwritten_def disk_of_def)

lemma commit_on_track:
  assumes o': "orchestrates o' x j c" and reach: "summary_reach x j c (dk_root s) d" and s: "unwritten s"
  shows "on_track x j c (commit_recording o' claim summary tts s d)"
proof -
  obtain res s' e where p: "publish_tts_generation_with x j c (sc_task_id claim) (sc_generation claim) summary tts
      (publication_commit o' claim) s d = (res, s', e)"
    by (metis prod.exhaust)
  then have "publish_tts_generation_with x j c (sc_task_id claim) (sc_generation claim) summary tts
      (publication_commit o' claim) (disk_of (dk_root s) (dk_plan s) (dk_draws s)) d = (res, s', e)"
    using unwritten_disk_of [OF s] by simp
  from summary_commit [OF reach _ this] have reach': "summary_reach x j c (dk_root s') e"
    using o' by (simp add: orchestrates_def)
  show ?thesis
  proof (cases res)
    case (Inr r)
    then show ?thesis using p o' reach'
      by (auto simp: commit_recording_def on_track_def orchestrates_def split: sum.splits)
  next
    case (Inl err)
    obtain res2 s2 e2 where rc: "recover_authenticated_cache o' claim s' e = (res2, s2, e2)" by (metis prod.exhaust)
    have reach2: "summary_reach x j c (dk_root s2) e2"
      using recover_on_track(1) [OF o' reach', of claim] rc by (simp add: on_track_def)
    show ?thesis
      using p o' Inl rc reach2 abandon_on_track [OF o' reach2]
      by (auto simp: commit_recording_def orchestrates_def split: sum.splits option.splits) (simp_all add: on_track_def)
  qed
qed

lemma begin_on_track:
  assumes "orchestrates o' x j c" "summary_reach x j c r d"
  shows "summary_reach x j c r (snd (begin_summary_tts_attempt x claim d))"
  by (rule summary_store [OF assms(2) other_begin])

lemma speak_on_track:
  assumes o': "orchestrates o' x j c" and reach: "summary_reach x j c (dk_root s) d" and s: "unwritten s"
  shows "on_track x j c (speak o' claim summary s d)"
proof -
  obtain res d' where b: "begin_summary_tts_attempt x claim d = (res, d')" by fastforce
  then have reach': "summary_reach x j c (dk_root s) d'" using begin_on_track [OF o' reach, of claim] by simp
  show ?thesis
    using b o' reach' abandon_on_track [OF o' reach'] commit_on_track [OF o' reach' s]
    by (auto simp: speak_def orchestrates_def split: sum.splits) (simp_all add: on_track_def)
qed

lemma write_on_track:
  assumes o': "orchestrates o' x j c" and reach: "summary_reach x j c (dk_root s) d" and s: "unwritten s"
  shows "on_track x j c (write_and_speak o' claim previous s d)"
  using abandon_on_track [OF o' reach] speak_on_track [OF assms]
  by (auto simp: write_and_speak_def split: sum.splits)

lemma load_summary_readonly:
  assumes "load_tts_summary x j c task generation s = (res, s')"
  shows "dk_root s' = dk_root s" "dk_history s' = dk_history s"
proof -
  obtain r u e where l: "load_tts_generation_with x j c task generation
      (\<lambda>loaded u. (Ok (cg_summary loaded) :: unit + summary_document, u)) s () = (r, u, e)"
    by (metis prod.exhaust)
  then have "s' = u" using assms by (auto simp: load_tts_summary_def split: sum.splits)
  then show "dk_root s' = dk_root s" "dk_history s' = dk_history s"
    using l by (auto simp: load_tts_generation_with_def committed_def read_with_def then_callback_def
        dest!: readonlyD [OF readonly_read(2)] split: sum.splits prod.splits)
qed

lemma execute_on_track:
  assumes o': "orchestrates o' x j c" and reach: "summary_reach x j c (dk_root s) d" and s: "unwritten s"
  shows "on_track x j c (execute_claim o' claim s d)"
proof -
  obtain r s1 d1 where rc: "recover_authenticated_cache o' claim s d = (r, s1, d1)" by (metis prod.exhaust)
  have reach1: "summary_reach x j c (dk_root s1) d1" and s1: "unwritten s1"
    using recover_on_track [OF o' reach, of claim] rc s by (simp_all add: on_track_def unwritten_def)
  show ?thesis
  proof (cases "\<exists>previous. r = Ok None \<and> summary_tts_attempt x claim d1 = Ok None \<and> sc_previous_unread claim = Some previous")
    case False
    then show ?thesis
      using rc o' reach1 abandon_on_track [OF o' reach1] write_on_track [OF o' reach1 s1]
      by (auto simp: execute_claim_def orchestrates_def split: sum.splits option.splits) (simp_all add: on_track_def)
  next
    case True
    then obtain previous where p: "r = Ok None" "summary_tts_attempt x claim d1 = Ok None" "sc_previous_unread claim = Some previous"
      by blast
    obtain r2 s2 where ld: "load_tts_summary x j c (sc_task_id claim) (u_generation previous) s1 = (r2, s2)" by fastforce
    have reach2: "summary_reach x j c (dk_root s2) d1" and s2: "unwritten s2"
      using load_summary_readonly [OF ld] reach1 s1 by (simp_all add: unwritten_def)
    show ?thesis
      using rc o' p ld abandon_on_track [OF o' reach2] write_on_track [OF o' reach2 s2]
      by (auto simp: execute_claim_def orchestrates_def split: sum.splits)
  qed
qed

lemma run_on_track:
  assumes o': "orchestrates o' x j c" and reach: "summary_reach x j c r d"
  shows "on_track x j c (run_summary o' task request (disk_of r plan draws) d)"
    "on_track x j c (resume o' task (disk_of r plan draws) d)"
proof -
  have s: "unwritten (disk_of r plan draws)" "dk_root (disk_of r plan draws) = r" by (simp_all add: unwritten_def disk_of_def)
  obtain r1 d1 where c: "claim_summary x task request d = (r1, d1)" by fastforce
  have "summary_reach x j c r (snd (claim_summary x task request d))" by (rule summary_store [OF reach other_claim])
  then have reach1: "summary_reach x j c (dk_root (disk_of r plan draws)) d1" using c s(2) by simp
  show "on_track x j c (run_summary o' task request (disk_of r plan draws) d)"
    using c o' reach1 execute_on_track [OF o' reach1 s(1)]
    by (auto simp: run_summary_def orchestrates_def split: sum.splits option.splits summary_claim_result.splits)
       (simp_all add: on_track_def)
  obtain r2 d2 where c2: "resume_interrupted_summary x task d = (r2, d2)" by fastforce
  have "summary_reach x j c r (snd (resume_interrupted_summary x task d))" by (rule summary_store [OF reach other_resume])
  then have reach2: "summary_reach x j c (dk_root (disk_of r plan draws)) d2" using c2 s(2) by simp
  show "on_track x j c (resume o' task (disk_of r plan draws) d)"
    using c2 o' reach2 execute_on_track [OF o' reach2 s(1)]
    by (auto simp: resume_def orchestrates_def split: sum.splits option.splits) (simp_all add: on_track_def)
qed

lemma inspected_transcodes:
  assumes "inspect_eiad eiad = Ok m"
  shows "\<exists>out. transcode_eiad_for_device eiad = Ok out \<and> length out \<le> 3690020 \<and>
    inspect_device_eiad out = Ok \<lparr> em_sample_rate = TTS_SAMPLE_RATE, em_samples = em_samples m,
      em_frames = div_ceil (em_samples m) DEVICE_EIAD_FRAME_SAMPLES \<rparr>"
proof -
  note m = inspect_eiad_Ok [OF assms]
  obtain pcm where pcm: "decode_eiad eiad = Ok pcm" "length pcm = 2 * em_samples m" by (rule inspected_decodes [OF assms])
  note t = transcode_decoded [OF pcm m(2,3)]
  have len: "0 < length (pcm_samples pcm)" "length (pcm_samples pcm) \<le> 7200000" using t(2) m(2,3) by simp_all
  show ?thesis using t(1) inspect_device_of [OF len] length_device_of [OF len(2)] t(2) by simp
qed

text \<open>C5: Retained recordings stay playable. In every state that the cache and the database reach
  together, through commits and recoveries of recordings, all other database operations,
  reconciliations and crashes in the middle of a commit or a reconciliation, with any failing
  system calls: every cache reference the database retains (a summary that is unread or being
  played) reads back an authenticated bundle, whose recording can be transcoded for the keyboard
  into at most 3,690,020 bytes.\<close>

theorem retained_recordings_play:
  assumes "gcm_correct (cs_lib c)" "json_ids_roundtrip x" "summary_reach x j c r d"
  shows "\<forall>ref\<in>retained_summary_cache_references d. \<exists>i b out. from_reference ref = Ok i \<and> peek c r i = Ok b \<and>
    transcode_eiad_for_device (cb_device_eiad b) = Ok out \<and> length out \<le> 3690020"
proof
  fix ref assume "ref \<in> retained_summary_cache_references d"
  then have "plays c r ref" using summary_reach_plays [OF assms] by (simp add: all_play_def)
  then obtain i b m where "from_reference ref = Ok i" "peek c r i = Ok b" "inspect_eiad (cb_device_eiad b) = Ok m"
    by (auto simp: plays_def)
  then show "\<exists>i b out. from_reference ref = Ok i \<and> peek c r i = Ok b \<and>
      transcode_eiad_for_device (cb_device_eiad b) = Ok out \<and> length out \<le> 3690020"
    using inspected_transcodes by blast
qed

end
