(* ===== verification/Summary_Runs.thy ===== *)
theory Summary_Runs
  imports Summary_System Store_Witnesses
begin

text \<open>
  The undisturbed run of the orchestrator, from the claim to the published recording, and
  concrete runs over the demonstration database of Store_Witnesses and the sample cache.
\<close>

section \<open>An undisturbed run publishes\<close>

lemma calm_load:
  assumes "calm_disk s" "for_task (sha256 x) task generation = Ok i"
  shows "load_tts_generation_with x j c task generation f s d =
    committed (case peek c (dk_root s) i of
        Inl e \<Rightarrow> (Err e, s, d)
      | Inr b \<Rightarrow> (case then_callback (loaded_generation x j i b) f d of (r, d') \<Rightarrow> (Ok r, s, d')))"
  using assms by (simp add: load_tts_generation_with_def read_with_def calm_read_peek calm_disk_def split: sum.splits)

lemma calm_load_summary:
  assumes "calm_disk s" "for_task (sha256 x) task generation = Ok i" "peek c (dk_root s) i = Ok b"
    "loaded_generation x j i b = Ok g"
  shows "load_tts_summary x j c task generation s = (Ok (cg_summary g), s)"
  using assms by (simp add: load_tts_summary_def calm_load then_callback_def committed_def)

lemma calm_load_disk:
  assumes "calm_disk s" "load_tts_summary x j c task generation s = (r, s')"
  shows "s' = s"
proof (cases "for_task (sha256 x) task generation")
  case (Inl e)
  then show ?thesis using assms(2) by (simp add: load_tts_summary_def load_tts_generation_with_def)
next
  case (Inr i)
  show ?thesis
    using assms(2) unfolding load_tts_summary_def calm_load [OF assms(1) Inr]
    by (auto simp: committed_def split: sum.splits prod.splits callback_error.splits)
qed

lemma first_row_last: "\<forall>r\<in>set rows. \<not> p r \<Longrightarrow> p y \<Longrightarrow> first_row p (rows @ [y]) = Some y"
  by (induction rows) (auto simp: first_row_def)

text \<open>The first speech attempt of a stored claim starts.\<close>

lemma begin_started:
  assumes inv: "ledger_inv x d" and s: "s \<in> set (db_summaries d)" "s_state s = Generating" "s_claim_id s = Some request"
    and load: "load_summary_claim x outcome request (s_task_id s) (s_generation s) (s_previous_generation s) (s_covers s) d = Ok c"
    and none: "summary_tts_attempt x c d = Ok None"
  obtains rows where "begin_summary_tts_attempt x c d = (Ok Started, d\<lparr>db_tts_attempts := rows\<rparr>)"
proof -
  note old = ledger_invD [OF inv]
  let ?t = "s_task_id s" and ?g = "s_generation s"
  have g: "0 < ?g" "?g \<le> i64_max"
    using summaries_okD(2) [OF old(2) s(1)] old(3) [OF s(1)] by (auto simp: summary_checks_def row_inv_def)
  have c: "sc_request_id c = request" "sc_task_id c = ?t" "sc_generation c = as_u64 ?g"
    using load by (auto simp: load_summary_claim_def and_then_Ok_iff split: if_splits)
  have gen: "to_i64 (sc_generation c) = Ok ?g" using g c(3) by (simp add: to_i64_as_u64)
  have act: "is_active_claim s" using s(2) by (simp add: is_active_claim_def)
  have req: "s_request_id s = Some request" using old(3) [OF s(1)] s(3) act by (auto simp: row_inv_def)
  have valid: "validate_summary_claim x c = Ok ()" using none by (auto simp: summary_tts_attempt_def and_then_Ok_iff)
  have own: "list_ex (is_own_claim c ?g) (db_summaries d)"
    using s(1,3) act req c by (auto simp: list_ex_iff is_own_claim_def)
  have "list_ex (\<lambda>s. s_task_id s = t_task_id t \<and> s_generation s = t_generation t \<and>
      s_request_id s = Some (sc_request_id c) \<and> is_active_claim s) (db_summaries d)"
    if "has_tts_key (sc_task_id c) ?g t" for t
    using that s(1) act req c by (auto simp: list_ex_iff has_tts_key_def)
  then have fresh: "\<forall>t\<in>set (db_tts_attempts d). \<not> has_tts_key (sc_task_id c) ?g t"
    using none valid gen by (auto simp: summary_tts_attempt_def first_row_None and_then_Ok_iff)
  let ?row = "\<lparr> t_task_id = sc_task_id c, t_generation = ?g, t_state = TtsStarted \<rparr>"
  let ?rows = "db_tts_attempts d @ [?row]"
  have "tts_ok (db_summaries d) ?rows"
    using old(5) fresh g(1) s(1) c(2) by (auto simp: tts_inv_def tts_ok_def tts_key_def has_tts_key_def summary_key_def)
  then have w: "write_tts ?rows d = Ok (d\<lparr>db_tts_attempts := ?rows\<rparr>)" by (simp add: write_Ok)
  have f: "first_row (has_tts_key (sc_task_id c) ?g) ?rows = Some ?row"
    using fresh by (rule first_row_last) (simp add: has_tts_key_def)
  have "\<not> list_ex (has_tts_key (sc_task_id c) ?g) (db_tts_attempts d)" using fresh by (auto simp: list_ex_iff)
  then have "begin_summary_tts_attempt x c d = (Ok Started, d\<lparr>db_tts_attempts := ?rows\<rparr>)"
    using valid gen own w f by (simp add: begin_summary_tts_attempt_def checked_def in_txn_def attempt_def Let_def)
  then show thesis by (rule that)
qed

text \<open>The bundle that a publication prepares passes the checks after the authenticated read, and
  loads again later.\<close>

lemma prepared:
  assumes "prepare_publication x j task generation summary tts = Ok (i, b)"
  obtains a where "encode_tts_audio (ta_pcm tts) = Ok a" "print_manifest j (tts_manifest summary tts a) = Some (cb_manifest_json b)"
    "cb_qwen_wav b = aa_wav a" "cb_device_eiad b = aa_eiad a" "for_task (sha256 x) task generation = Ok i"
    "tr_samples (ta_receipt tts) = length (ta_pcm tts) div 2" "\<exists>e. canonical_json x j summary = Ok e"
  using assms
  by (auto simp: prepare_publication_def and_then_Ok_iff map_err_Ok_iff ok_or_def split: if_splits option.splits)

lemma encoded_audio:
  assumes "encode_tts_audio pcm = Ok a"
  shows "decode_wav (aa_wav a) = Ok pcm" "aa_samples a = length pcm div 2" "0 < aa_samples a" "0 < aa_frames a"
    "inspect_eiad (aa_eiad a) = Ok \<lparr> em_sample_rate = TTS_SAMPLE_RATE, em_samples = aa_samples a, em_frames = aa_frames a \<rparr>"
proof -
  obtain n where n: "validate_pcm pcm = Ok n" using assms by (auto simp: encode_tts_audio_def and_then_Ok_iff)
  obtain wav where w: "encode_wav pcm = Ok wav" "decode_wav wav = Ok pcm" using wav_roundtrip [OF n] by blast
  note e = encode_eiad_bytes [OF n]
  have r: "0 < length (pcm_samples pcm)" "length (pcm_samples pcm) \<le> 7200000" "length pcm = 2 * n"
    using n e(2) by (simp_all add: validate_pcm_Ok)
  note i = inspect_eiad_of [OF r(1,2)]
  have a: "aa_wav a = wav" "aa_eiad a = eiad_of (pcm_samples pcm)" "aa_samples a = n"
      "aa_frames a = div_ceil n EIAD_FRAME_SAMPLES"
    using assms n w(1) e i by (auto simp: encode_tts_audio_def and_then_Ok_iff)
  show "decode_wav (aa_wav a) = Ok pcm" "aa_samples a = length pcm div 2" "0 < aa_samples a"
    "inspect_eiad (aa_eiad a) = Ok \<lparr> em_sample_rate = TTS_SAMPLE_RATE, em_samples = aa_samples a, em_frames = aa_frames a \<rparr>"
    using a w(2) r e(2) i by simp_all
  show "0 < aa_frames a" using a(4) r(1) e(2) by (simp add: div_ceil_def audio_consts)
qed

lemma prepared_checks:
  assumes j: "json_correct j" and p: "prepare_publication x j task generation summary tts = Ok (i, b)"
  obtains g where "checked_publication x j i tts b = Ok g" "pg_cache_reference g = reference i"
proof -
  obtain a where a: "encode_tts_audio (ta_pcm tts) = Ok a" "print_manifest j (tts_manifest summary tts a) = Some (cb_manifest_json b)"
    "cb_qwen_wav b = aa_wav a" "cb_device_eiad b = aa_eiad a" "tr_samples (ta_receipt tts) = length (ta_pcm tts) div 2"
    "\<exists>e. canonical_json x j summary = Ok e"
    using prepared [OF p] by metis
  note e = encoded_audio [OF a(1)]
  have m: "parse_manifest j (cb_manifest_json b) = Some (tts_manifest summary tts a)"
    using j a(2) by (simp add: json_correct_def)
  have "validate_manifest x j (tts_manifest summary tts a) tts = Ok ()"
    using a(5,6) e by (auto simp: validate_manifest_def tts_manifest_def duration_of_def duration_ms_def)
  then have "\<exists>g. checked_publication x j i tts b = Ok g \<and> pg_cache_reference g = reference i"
    using m e a(3,4) by (simp add: checked_publication_def ok_or_def tts_manifest_def)
  then show thesis using that by blast
qed

lemma prepared_loads:
  assumes j: "json_correct j" and p: "prepare_publication x j task generation summary tts = Ok (i, b)"
    and model: "tr_model (ta_receipt tts) = TTS_MODEL" "tr_voice (ta_receipt tts) \<noteq> []"
  obtains g where "loaded_generation x j i b = Ok g" "cg_summary g = summary"
proof -
  obtain a where a: "encode_tts_audio (ta_pcm tts) = Ok a" "print_manifest j (tts_manifest summary tts a) = Some (cb_manifest_json b)"
    "cb_qwen_wav b = aa_wav a" "cb_device_eiad b = aa_eiad a" "\<exists>e. canonical_json x j summary = Ok e"
    using prepared [OF p] by metis
  note e = encoded_audio [OF a(1)]
  have m: "parse_manifest j (cb_manifest_json b) = Some (tts_manifest summary tts a)"
    using j a(2) by (simp add: json_correct_def)
  have "validate_cached_manifest x j (tts_manifest summary tts a) b = Ok ()"
    using a(3-5) e model by (auto simp: validate_cached_manifest_def Let_def tts_manifest_def duration_of_def duration_ms_def)
  then have "\<exists>g. loaded_generation x j i b = Ok g \<and> cg_summary g = summary"
    using m by (simp add: loaded_generation_def ok_or_def tts_manifest_def)
  then show thesis using that by blast
qed

text \<open>The undisturbed commit of a recording that fits in the cache.\<close>

lemma calm_commit:
  assumes lib: "gcm_correct (cs_lib c)" and total: "\<And>k n a m. gcm_encrypt (cs_lib c) k n a m \<noteq> None"
    and j: "json_correct j" and p: "prepare_publication x j task generation summary tts = Ok (i, b)"
    and b: "validate_bundle b = Ok ()" and room: "has_room c b (disk_of r [] draws)"
    and new: "view r i = Inl NotFound" and unused: "name_unused c i r"
  shows "\<exists>s g. publish_tts_generation_with x j c task generation summary tts f (disk_of r [] draws) d =
      (case f g d of (v, d') \<Rightarrow> (case v of Inr y \<Rightarrow> Ok (Inr y) | Inl e \<Rightarrow> Ok (Inl e), s, d')) \<and>
    calm_disk s \<and> peek c (dk_root s) i = Ok b \<and> pg_cache_reference g = reference i"
proof -
  obtain s where s: "publish_or_verify_unlocked c i b (disk_of r [] draws) = (Ok (), s)" "calm_disk s"
    using fresh_publication_succeeds [OF lib total b room new unused] by blast
  have v: "views_in {view r} (disk_of r [] draws)" by (simp add: views_in_def disk_of_def)
  have pk: "peek c (dk_root s) i = Ok b"
    using publish_or_verify_publication [OF lib v s(1)] by (auto simp: peek_view)
  then have rd: "read_unlocked c i s = (Ok b, s)" using calm_read_peek [of s c i] s(2) by (simp add: calm_disk_def)
  obtain g where g: "checked_publication x j i tts b = Ok g" "pg_cache_reference g = reference i"
    using prepared_checks [OF j p] by blast
  have "publish_tts_generation_with x j c task generation summary tts f (disk_of r [] draws) d =
      (case f g d of (v, d') \<Rightarrow> (case v of Inr y \<Rightarrow> Ok (Inr y) | Inl e \<Rightarrow> Ok (Inl e), s, d'))"
    using p s(1) rd g(1)
    by (simp add: publish_tts_generation_with_def publish_or_verify_with_def io_bind_def then_callback_def committed_def
        map_err_def split: prod.splits sum.splits)
  then show ?thesis using s(2) pk g(2) by blast
qed

text \<open>The previous document that a claim hands to the model.\<close>

definition previous_document :: "summary_orchestrator \<Rightarrow> summary_claim \<Rightarrow> disk \<Rightarrow> tts_cache_error + summary_document option" where
  "previous_document o' claim s =
     (case sc_previous_unread claim of
        None \<Rightarrow> Ok None
      | Some previous \<Rightarrow> and_then (fst (load_tts_summary (so_externals o') (so_json o') (so_cache o') (sc_task_id claim)
            (u_generation previous) s)) (\<lambda>document. Ok (Some document)))"

text \<open>A claim whose cache entry is missing and that has no speech attempt goes on to write.\<close>

lemma calm_execute:
  assumes s: "calm_disk s" and i: "for_task (sha256 (so_externals o')) (sc_task_id claim) (sc_generation claim) = Ok i"
    and new: "peek (so_cache o') (dk_root s) i = Err MissingObject"
    and none: "summary_tts_attempt (so_externals o') claim d = Ok None"
    and prev: "previous_document o' claim s = Ok document"
  shows "execute_claim o' claim s d = write_and_speak o' claim document s d"
proof -
  have "recover_authenticated_cache o' claim s d = (Ok None, s, d)"
    using new by (simp add: recover_authenticated_cache_def calm_load [OF s i] committed_def)
  then show ?thesis
  proof (cases "sc_previous_unread claim")
    case (Some previous)
    obtain r s' where l: "load_tts_summary (so_externals o') (so_json o') (so_cache o') (sc_task_id claim) (u_generation previous) s = (r, s')"
      by fastforce
    then show ?thesis
      using \<open>recover_authenticated_cache _ _ _ _ = _\<close> Some none prev calm_load_disk [OF s l]
      by (auto simp: execute_claim_def previous_document_def and_then_Ok_iff)
  qed (use none prev in \<open>simp add: execute_claim_def previous_document_def\<close>)
qed

lemma for_task_Ok: "for_task h task g = Ok i \<Longrightarrow> ci_generation i = g \<and> g \<noteq> 0"
  by (auto simp: for_task_def split: if_splits)

lemma load_task: "load_summary_claim x out request task g p covers d = Ok c \<Longrightarrow> sc_task_id c = task"
  by (auto simp: load_summary_claim_def and_then_Ok_iff split: if_splits)

lemma publish_cache_object: "publish_summary x c cache d = (Ok u, e) \<Longrightarrow> ledger_inv x d \<Longrightarrow> u_cache_object u = cache"
  by (erule publish_cases [rotated]) auto

lemma undisturbed_run:
  assumes lib: "gcm_correct (cs_lib (so_cache o'))" "\<And>k n a m. gcm_encrypt (cs_lib (so_cache o')) k n a m \<noteq> None"
    and json: "json_correct (so_json o')" "json_ids_roundtrip (so_externals o')"
    and inv: "ledger_inv (so_externals o') d" "length (db_completions d1) + MAX_SUMMARY_COMPLETIONS_PER_CLAIM \<le> u32_max"
    and claim: "claim_summary (so_externals o') task request d = (Ok (Some (Claimed claim)), d1)"
      "summary_tts_attempt (so_externals o') claim d1 = Ok None"
    and model: "previous_document o' claim (disk_of r [] draws) = Ok document" "so_generate o' claim document = Ok summary"
      "validate_expected_covers (so_externals o') (expected_covers claim) summary = Ok ()"
    and speech: "so_synthesize o' (sd_spoken_text summary) SUMMARY_TTS_VOICE = Ok tts"
      "tr_voice (ta_receipt tts) = SUMMARY_TTS_VOICE" "tr_model (ta_receipt tts) = TTS_MODEL"
    and entry: "prepare_publication (so_externals o') (so_json o') task (sc_generation claim) summary tts = Ok (i, b)"
      "validate_bundle b = Ok ()"
    and cache: "has_room (so_cache o') b (disk_of r [] draws)" "view r i = Inl NotFound" "name_unused (so_cache o') i r"
  shows "\<exists>unread audio s e out. run_summary o' task request (disk_of r [] draws) d = (Ok (RunPublished unread audio False), s, e) \<and>
    current_unread_summary (so_externals o') task e = Ok (Some unread) \<and>
    from_reference (u_cache_object unread) = Ok i \<and> peek (so_cache o') (dk_root s) i = Ok b \<and>
    transcode_eiad_for_device (cb_device_eiad b) = Ok out \<and>
    load_tts_summary (so_externals o') (so_json o') (so_cache o') task (sc_generation claim) s = (Ok summary, s)"
proof -
  let ?x = "so_externals o'" and ?c = "so_cache o'" and ?s = "disk_of r [] draws"
  have calm: "calm_disk ?s" "dk_root ?s = r" by (simp_all add: calm_disk_def disk_of_def)
  obtain a where a: "encode_tts_audio (ta_pcm tts) = Ok a" "cb_device_eiad b = aa_eiad a"
    and i: "for_task (sha256 ?x) task (sc_generation claim) = Ok i" "ci_generation i = sc_generation claim" "ci_generation i \<noteq> 0"
    using prepared [OF entry(1)] by (metis (no_types, lifting) for_task_Ok)
  have inv1: "ledger_inv ?x d1" using claim_summary_ledger_inv [OF inv(1) json(2), of task request] claim(1) by simp
  obtain row where row: "row \<in> set (db_summaries d1)" "s_task_id row = task" "s_state row = Generating" "s_claim_id row = Some request"
    "load_summary_claim ?x (sc_outcome claim) request task (s_generation row) (s_previous_generation row) (s_covers row) d1 = Ok claim"
    "sc_generation claim = as_u64 (s_generation row)"
    using claim_summary_loaded [OF inv(1) json(2) claim(1)] by blast
  have task: "sc_task_id claim = task" using row(5) by (rule load_task)
  obtain rows where begun: "begin_summary_tts_attempt ?x claim d1 = (Ok Started, d1\<lparr>db_tts_attempts := rows\<rparr>)"
    using begin_started [OF inv1 row(1,3,4) _ claim(2)] row(2,5) by metis
  define d2 where "d2 = d1\<lparr>db_tts_attempts := rows\<rparr>"
  have inv2: "ledger_inv ?x d2" using begin_tts_inv [OF inv1, of claim] begun by (simp add: d2_def)
  have same: "db_summaries d2 = db_summaries d1" "db_completions d2 = db_completions d1" by (simp_all add: d2_def)
  have "query_current_unread task d2 = query_current_unread task d1" by (simp add: query_current_unread_def same cong: option.case_cong)
  then have load2: "load_summary_claim ?x (sc_outcome claim) request task (s_generation row) (s_previous_generation row) (s_covers row) d2 = Ok claim"
    using row(5) load_summary_cong [OF same(2)] by metis
  have len2: "length (db_completions d2) + MAX_SUMMARY_COMPLETIONS_PER_CLAIM \<le> u32_max" using inv(2) same by simp
  have "reference (row_cache_id ?x task (s_generation row)) = reference i"
    using i row(6) by (auto simp: for_task_def row_cache_id_def split: if_splits)
  then obtain u e where pub: "publish_summary ?x claim (reference i) d2 = (Ok u, e)"
    using publish_loaded [OF inv2 _ row(3,4) _ len2] row(1,2) load2 same(1) by metis
  note out = publish_outcome [OF inv2 json(2) pub len2]
  have obj: "u_cache_object u = reference i" by (rule publish_cache_object [OF pub inv2])
  obtain s g where commit: "publish_tts_generation_with ?x (so_json o') ?c task (sc_generation claim) summary tts (publication_commit o' claim) ?s d2 =
      (case publication_commit o' claim g d2 of (v, d') \<Rightarrow> (case v of Inr y \<Rightarrow> Ok (Inr y) | Inl e \<Rightarrow> Ok (Inl e), s, d'))"
    "calm_disk s" "peek ?c (dk_root s) i = Ok b" "pg_cache_reference g = reference i"
    using calm_commit [where f = "publication_commit o' claim" and d = d2, OF lib json(1) entry cache] by (elim exE conjE) (rule that)
  have "peek ?c r i = Err MissingObject" using cache(2) by (simp add: peek_view)
  then have "execute_claim o' claim ?s d1 = write_and_speak o' claim document ?s d1"
    using calm_execute [OF calm(1) _ _ claim(2) model(1)] i(1) task calm(2) by simp
  also have "\<dots> = commit_recording o' claim summary tts ?s d2"
    using model(2,3) speech begun by (simp add: write_and_speak_def speak_def d2_def)
  also have "\<dots> = (Ok (RunPublished u g False), s, e)"
    using commit pub task by (simp add: commit_recording_def publication_commit_def)
  finally have run: "run_summary o' task request ?s d = (Ok (RunPublished u g False), s, e)"
    using claim(1) by (simp add: run_summary_def)
  obtain m where "inspect_eiad (cb_device_eiad b) = Ok m" using encoded_audio(5) [OF a(1)] a(2) by simp
  then obtain t where t: "transcode_eiad_for_device (cb_device_eiad b) = Ok t" using inspected_transcodes by blast
  have "tr_voice (ta_receipt tts) \<noteq> []" using speech(2) by (simp add: SUMMARY_TTS_VOICE_def)
  from prepared_loads [OF json(1) entry(1) speech(3) this]
  obtain cg where "loaded_generation ?x (so_json o') i b = Ok cg" "cg_summary cg = summary" by blast
  then have "load_tts_summary ?x (so_json o') ?c task (sc_generation claim) s = (Ok summary, s)"
    using calm_load_summary [OF commit(2) i(1) commit(3)] by metis
  moreover have "current_unread_summary ?x task e = Ok (Some u)" using out task by simp
  moreover have "from_reference (u_cache_object u) = Ok i" using obj i(3) from_reference_reference by simp
  ultimately show ?thesis using run commit(3) t by blast
qed

text \<open>C7: An undisturbed run publishes. When a run claims new completions, the cache has room and
  no entry for the generation, and the model and the speech service cooperate, then the run
  returns the published summary, the database then presents exactly it as the current unread
  summary of the task, its reference reads back the recording, the recording can be
  transcoded for the keyboard, and the summary document loads back from the cache.\<close>

theorem run_publishes:
  assumes lib: "gcm_correct (cs_lib (so_cache o'))" "\<And>k n a m. gcm_encrypt (cs_lib (so_cache o')) k n a m \<noteq> None"
    and json: "json_correct (so_json o')" "json_ids_roundtrip (so_externals o')"
    and inv: "ledger_inv (so_externals o') d" "length (db_completions d1) + MAX_SUMMARY_COMPLETIONS_PER_CLAIM \<le> u32_max"
    and claim: "claim_summary (so_externals o') task request d = (Ok (Some (Claimed claim)), d1)"
      "summary_tts_attempt (so_externals o') claim d1 = Ok None"
    and model: "previous_document o' claim (disk_of r [] draws) = Ok document" "so_generate o' claim document = Ok summary"
      "validate_expected_covers (so_externals o') (expected_covers claim) summary = Ok ()"
    and speech: "so_synthesize o' (sd_spoken_text summary) SUMMARY_TTS_VOICE = Ok tts"
      "tr_voice (ta_receipt tts) = SUMMARY_TTS_VOICE" "tr_model (ta_receipt tts) = TTS_MODEL"
    and entry: "prepare_publication (so_externals o') (so_json o') task (sc_generation claim) summary tts = Ok (i, b)"
      "validate_bundle b = Ok ()"
    and cache: "has_room (so_cache o') b (disk_of r [] draws)" "view r i = Inl NotFound" "name_unused (so_cache o') i r"
  shows "\<exists>unread audio s e out. run_summary o' task request (disk_of r [] draws) d = (Ok (RunPublished unread audio False), s, e) \<and>
    current_unread_summary (so_externals o') task e = Ok (Some unread) \<and>
    from_reference (u_cache_object unread) = Ok i \<and> peek (so_cache o') (dk_root s) i = Ok b \<and>
    transcode_eiad_for_device (cb_device_eiad b) = Ok out \<and>
    load_tts_summary (so_externals o') (so_json o') (so_cache o') task (sc_generation claim) s = (Ok summary, s)"
  by (rule undisturbed_run [OF assms])

section \<open>Witnesses\<close>

text \<open>A run over the demonstration database of Store_Witnesses and the sample cache: one
  completion is claimed, the recording is a single sample.\<close>

definition demo_document :: summary_document where
  "demo_document = \<lparr> sd_schema = 1, sd_facts = [], sd_pending = [], sd_decisions = [], sd_spoken_text = ''x'',
     sd_source_evidence = [], sd_covers_new_completions = [''c''] \<rparr>"

definition demo_tts :: tts_audio where
  "demo_tts = \<lparr> ta_pcm = [0, 0], ta_receipt = \<lparr> tr_model = TTS_MODEL, tr_voice = SUMMARY_TTS_VOICE, tr_sample_rate = 48000,
     tr_samples = 1, tr_characters = None, tr_transport = [], tr_attempts = 1 \<rparr> \<rparr>"

definition demo_manifest :: tts_cache_manifest where
  "demo_manifest = \<lparr> tm_schema = 1, tm_requested_model = TTS_MODEL, tm_served_model = TTS_MODEL, tm_voice = SUMMARY_TTS_VOICE,
     tm_response_format = ''pcm'', tm_sample_rate = 48000, tm_channels = 1, tm_pcm_bits_per_sample = 16, tm_samples = 1,
     tm_duration_ms = 0, tm_eiad_frames = 1, tm_billed_characters = None, tm_summary = demo_document \<rparr>"

definition demo_json :: json_lib where
  "demo_json = \<lparr> print_summary = (\<lambda>d. if d = demo_document then Some [1] else None),
     parse_summary = (\<lambda>b. if b = [1] then Some demo_document else None),
     print_manifest = (\<lambda>m. if m = demo_manifest then Some [2] else None),
     parse_manifest = (\<lambda>b. if b = [2] then Some demo_manifest else None) \<rparr>"

definition demo_orchestrator :: summary_orchestrator where
  "demo_orchestrator = \<lparr> so_externals = demo_externals, so_json = demo_json, so_cache = sample_store,
     so_generate = (\<lambda>_ _. Ok demo_document), so_synthesize = (\<lambda>_ _. Ok demo_tts) \<rparr>"

lemma demo_json_correct: "json_correct demo_json"
  by (simp add: json_correct_def demo_json_def)

definition demo_artifacts :: audio_artifacts where
  "demo_artifacts = (case encode_tts_audio [0, 0] of Inr a \<Rightarrow> a)"

definition demo_bundle :: cache_bundle where
  "demo_bundle = \<lparr> cb_manifest_json = [2], cb_qwen_wav = aa_wav demo_artifacts, cb_device_eiad = aa_eiad demo_artifacts \<rparr>"

lemma demo_audio:
  "encode_tts_audio [0, 0] = Ok demo_artifacts" "aa_samples demo_artifacts = 1" "aa_frames demo_artifacts = 1"
  "duration_ms demo_artifacts = 0" "length (aa_wav demo_artifacts) < 100" "length (aa_eiad demo_artifacts) < 100"
  by code_simp+

lemma demo_canonical: "canonical_json demo_externals demo_json demo_document = Ok [1]"
proof -
  have "validate_summary demo_externals demo_document = Ok ()" by code_simp
  then show ?thesis by (simp add: canonical_json_def demo_json_def ok_or_def MAX_SUMMARY_DOCUMENT_BYTES_def)
qed

lemma demo_prepared:
  "prepare_publication demo_externals demo_json ''t'' 1 demo_document demo_tts = Ok (demo_cache_id, demo_bundle)"
proof -
  have i: "for_task (sha256 demo_externals) ''t'' 1 = Ok demo_cache_id" by code_simp
  have "tts_manifest demo_document demo_tts demo_artifacts = demo_manifest"
    by (simp add: tts_manifest_def demo_manifest_def demo_tts_def demo_audio TTS_CACHE_MANIFEST_SCHEMA_def TTS_SAMPLE_RATE_def)
  then have m: "print_manifest demo_json (tts_manifest demo_document demo_tts demo_artifacts) = Some [2]"
    by (simp add: demo_json_def)
  have r: "tr_sample_rate (ta_receipt demo_tts) = TTS_SAMPLE_RATE" "tr_samples (ta_receipt demo_tts) = 1" "ta_pcm demo_tts = [0, 0]"
    by (simp_all add: demo_tts_def TTS_SAMPLE_RATE_def)
  show ?thesis
    by (simp add: prepare_publication_def demo_canonical r demo_audio m i ok_or_def demo_bundle_def)
qed

lemma demo_fits: "validate_bundle demo_bundle = Ok ()" "has_room sample_store demo_bundle (disk_of [] [] 0)"
proof -
  show "validate_bundle demo_bundle = Ok ()"
    using demo_audio(5,6) by (simp add: validate_bundle_def too_large_def demo_bundle_def checked_add_def cache_consts)
  show "has_room sample_store demo_bundle (disk_of [] [] 0)"
    unfolding has_room_def scan_empty using demo_audio(5,6)
    by (simp add: sample_store_def demo_bundle_def default_limits_def encoded_bundle_bytes_def checked_add_def cache_consts ALL_KINDS_def)
qed

lemma demo_orchestrates: "orchestrates demo_orchestrator demo_externals demo_json sample_store"
  by (simp add: orchestrates_def demo_orchestrator_def)

lemma demo_run_facts:
  "claim_summary demo_externals ''t'' ''r'' demo_observed = (Ok (Some (Claimed demo_claim)), demo_claimed)"
  "summary_tts_attempt demo_externals demo_claim demo_claimed = Ok None"
  "validate_expected_covers demo_externals (expected_covers demo_claim) demo_document = Ok ()"
  "previous_document demo_orchestrator demo_claim (disk_of [] [] 0) = Ok None"
proof -
  show "claim_summary demo_externals ''t'' ''r'' demo_observed = (Ok (Some (Claimed demo_claim)), demo_claimed)"
    by (simp add: prod_eq_iff demo_claim_eq demo_claimed_def)
  show "summary_tts_attempt demo_externals demo_claim demo_claimed = Ok None"
    "validate_expected_covers demo_externals (expected_covers demo_claim) demo_document = Ok ()" by code_simp+
  show "previous_document demo_orchestrator demo_claim (disk_of [] [] 0) = Ok None"
    by (simp add: previous_document_def demo_claim_def)
qed

lemma demo_run_fields:
  "so_externals demo_orchestrator = demo_externals" "so_json demo_orchestrator = demo_json" "so_cache demo_orchestrator = sample_store"
  "so_generate demo_orchestrator c p = Ok demo_document" "so_synthesize demo_orchestrator t v = Ok demo_tts"
  "tr_voice (ta_receipt demo_tts) = SUMMARY_TTS_VOICE" "tr_model (ta_receipt demo_tts) = TTS_MODEL" "sc_generation demo_claim = 1"
  by (simp_all add: demo_orchestrator_def demo_tts_def demo_claim_def)

lemmas demo_orchestrator_simps =
  demo_run_fields sample_correct sample_total demo_json_correct demo_roundtrip demo_ledger(1) demo_lengths demo_run_facts
  demo_prepared demo_fits

lemma demo_run_hypotheses:
  "gcm_correct (cs_lib (so_cache demo_orchestrator))"
  "gcm_encrypt (cs_lib (so_cache demo_orchestrator)) k n a m \<noteq> None"
  "json_correct (so_json demo_orchestrator)" "json_ids_roundtrip (so_externals demo_orchestrator)"
  "ledger_inv (so_externals demo_orchestrator) demo_observed"
  "length (db_completions demo_claimed) + MAX_SUMMARY_COMPLETIONS_PER_CLAIM \<le> u32_max"
  "claim_summary (so_externals demo_orchestrator) ''t'' ''r'' demo_observed = (Ok (Some (Claimed demo_claim)), demo_claimed)"
  "summary_tts_attempt (so_externals demo_orchestrator) demo_claim demo_claimed = Ok None"
  "previous_document demo_orchestrator demo_claim (disk_of [] [] 0) = Ok None"
  "so_generate demo_orchestrator demo_claim None = Ok demo_document"
  "validate_expected_covers (so_externals demo_orchestrator) (expected_covers demo_claim) demo_document = Ok ()"
  "so_synthesize demo_orchestrator (sd_spoken_text demo_document) SUMMARY_TTS_VOICE = Ok demo_tts"
  "tr_voice (ta_receipt demo_tts) = SUMMARY_TTS_VOICE" "tr_model (ta_receipt demo_tts) = TTS_MODEL"
  "prepare_publication (so_externals demo_orchestrator) (so_json demo_orchestrator) ''t'' (sc_generation demo_claim) demo_document demo_tts =
     Ok (demo_cache_id, demo_bundle)"
  "validate_bundle demo_bundle = Ok ()" "has_room (so_cache demo_orchestrator) demo_bundle (disk_of [] [] 0)"
  "view [] demo_cache_id = Inl NotFound" "name_unused (so_cache demo_orchestrator) demo_cache_id []"
  by (simp_all add: demo_orchestrator_simps view_def sub_dir_def name_unused_def
      MAX_SUMMARY_COMPLETIONS_PER_CLAIM_def u32_max_def)

theorem run_publishes_witness:
  "\<exists>unread audio s e. run_summary demo_orchestrator ''t'' ''r'' (disk_of [] [] 0) demo_observed =
      (Ok (RunPublished unread audio False), s, e) \<and>
    current_unread_summary demo_externals ''t'' e = Ok (Some unread)"
  using run_publishes [OF demo_run_hypotheses] by (auto simp: demo_run_fields)

lemma current_unread_retained:
  assumes "current_unread_summary x task d = Ok (Some u)"
  shows "u_cache_object u \<in> retained_summary_cache_references d"
proof -
  obtain s where "first_row (\<lambda>s. s_task_id s = task \<and> is_current_unread s) (db_summaries d) = Some s" "s_cache_object s = Some (u_cache_object u)"
    using assms
    by (auto simp: current_unread_summary_def query_current_unread_def Let_def and_then_Ok_iff split: option.splits if_splits)
  then have "s \<in> set (db_summaries d)" "retains s (u_cache_object u)"
    by (auto dest!: first_row_Some simp: retains_def is_current_unread_def)
  then show ?thesis by (auto simp: retained_rows)
qed

text \<open>The state after that run is reachable and retains its recording.\<close>

lemma demo_composed: "summary_reach demo_externals demo_json sample_store [] demo_observed"
proof -
  have "other_store_step demo_externals empty_db demo_observed"
    unfolding demo_observed_def by (rule other_store_step.intros)
  then show ?thesis by (rule summary_store [OF summary_start])
qed

theorem retained_recordings_play_witness:
  "\<exists>r e ref i b out. summary_reach demo_externals demo_json sample_store r e \<and>
    ref \<in> retained_summary_cache_references e \<and> from_reference ref = Ok i \<and> peek sample_store r i = Ok b \<and>
    transcode_eiad_for_device (cb_device_eiad b) = Ok out \<and> length out \<le> 3690020"
proof -
  obtain unread audio s e where run: "run_summary demo_orchestrator ''t'' ''r'' (disk_of [] [] 0) demo_observed =
      (Ok (RunPublished unread audio False), s, e)"
    and unread: "current_unread_summary demo_externals ''t'' e = Ok (Some unread)"
    using undisturbed_run [OF demo_run_hypotheses] by (auto simp: demo_run_fields)
  have reach: "summary_reach demo_externals demo_json sample_store (dk_root s) e"
    using run_on_track(1) [OF demo_orchestrates demo_composed, of "''t''" "''r''" "[]" 0] run by (simp add: on_track_def)
  have ref: "u_cache_object unread \<in> retained_summary_cache_references e"
    using unread by (rule current_unread_retained)
  obtain i b out where "from_reference (u_cache_object unread) = Ok i" "peek sample_store (dk_root s) i = Ok b"
    "transcode_eiad_for_device (cb_device_eiad b) = Ok out" "length out \<le> 3690020"
    using retained_recordings_play [OF sample_correct demo_roundtrip reach] ref by blast
  with reach ref show ?thesis by (intro exI conjI)
qed

end
