(* ===== verification/Rollout_Text.thy ===== *)
theory Rollout_Text
  imports Store_Completions "HOL-Library.Sublist"
begin

text \<open>
  Texts of a rollout file (rollout_observer.rs): UTF-8 strings as the strings of their bytes,
  slices that panic off a character boundary, shortening, and the redaction of credentials,
  links and local paths. The loops over byte positions are modelled as they are; the lemmas
  relate them to functions on characters.
\<close>

section \<open>Errors\<close>

text \<open>\<open>ObserverPanic\<close> is a panic of the thread, not a value of the program.\<close>

datatype observer_error =
    ObserverCatalog | ObserverStore store_error | ObserverIo | ObserverUnsafePath | InvalidRollout
  | RolloutTooLarge | TurnPackTooLarge | GenerationOverflow | ObserverPanic

section \<open>UTF-8\<close>

text \<open>A \<open>str\<close> is the string of its bytes; \<open>chars\<close> splits it into the encodings of its characters.\<close>

definition byte :: "char \<Rightarrow> nat" where
  "byte c = of_char c"

definition continuation :: "char \<Rightarrow> bool" where
  "continuation c \<longleftrightarrow> 0x80 \<le> byte c \<and> byte c < 0xC0"

definition char_width :: "char \<Rightarrow> nat" where
  "char_width c = (if byte c < 0x80 then 1 else if byte c < 0xE0 then 2 else if byte c < 0xF0 then 3 else 4)"

function chars :: "string \<Rightarrow> string list" where
  "chars [] = []"
| "chars (b # bs) = (b # take (char_width b - 1) bs) # chars (drop (char_width b - 1) bs)"
  by pat_completeness auto
termination by (relation "measure length") auto

fun scalar_ok :: "string \<Rightarrow> bool" where
  "scalar_ok [a] \<longleftrightarrow> byte a < 0x80"
| "scalar_ok [a, b] \<longleftrightarrow> 0xC2 \<le> byte a \<and> byte a \<le> 0xDF \<and> continuation b"
| "scalar_ok [a, b, c] \<longleftrightarrow>
     (if byte a = 0xE0 then 0xA0 \<le> byte b \<and> byte b \<le> 0xBF
      else if byte a = 0xED then 0x80 \<le> byte b \<and> byte b \<le> 0x9F
      else 0xE1 \<le> byte a \<and> byte a \<le> 0xEF \<and> continuation b) \<and> continuation c"
| "scalar_ok [a, b, c, d] \<longleftrightarrow>
     (if byte a = 0xF0 then 0x90 \<le> byte b \<and> byte b \<le> 0xBF
      else if byte a = 0xF4 then 0x80 \<le> byte b \<and> byte b \<le> 0x8F
      else 0xF1 \<le> byte a \<and> byte a \<le> 0xF3 \<and> continuation b) \<and> continuation c \<and> continuation d"
| "scalar_ok _ \<longleftrightarrow> False"

definition utf8_valid :: "string \<Rightarrow> bool" where
  "utf8_valid s \<longleftrightarrow> list_all scalar_ok (chars s)"

text \<open>\<open>str::is_char_boundary\<close> and the slice \<open>&s[a..b]\<close>, which panics off a boundary.\<close>

definition is_char_boundary :: "string \<Rightarrow> nat \<Rightarrow> bool" where
  "is_char_boundary s i \<longleftrightarrow> i = 0 \<or> i = length s \<or> i < length s \<and> \<not> continuation (s ! i)"

definition str_slice :: "string \<Rightarrow> nat \<Rightarrow> nat \<Rightarrow> observer_error + string" where
  "str_slice s a b =
     (if a \<le> b \<and> is_char_boundary s a \<and> is_char_boundary s b then Ok (take (b - a) (drop a s)) else Err ObserverPanic)"

abbreviation str_from :: "string \<Rightarrow> nat \<Rightarrow> observer_error + string" where
  "str_from s a \<equiv> str_slice s a (length s)"

abbreviation str_to :: "string \<Rightarrow> nat \<Rightarrow> observer_error + string" where
  "str_to s b \<equiv> str_slice s 0 b"

section \<open>Searching\<close>

fun find_in :: "(string \<Rightarrow> bool) \<Rightarrow> string list \<Rightarrow> nat \<Rightarrow> nat option" where
  "find_in p [] i = None"
| "find_in p (c # cs) i = (if p c then Some i else find_in p cs (i + length c))"

text \<open>\<open>s.find(p)\<close> and \<open>s.rfind(p)\<close> for a predicate on characters.\<close>

definition str_find :: "(string \<Rightarrow> bool) \<Rightarrow> string \<Rightarrow> nat option" where
  "str_find p s = find_in p (chars s) 0"

fun rfind_in :: "(string \<Rightarrow> bool) \<Rightarrow> string list \<Rightarrow> nat \<Rightarrow> nat option \<Rightarrow> nat option" where
  "rfind_in p [] i best = best"
| "rfind_in p (c # cs) i best = rfind_in p cs (i + length c) (if p c then Some i else best)"

definition str_rfind :: "(string \<Rightarrow> bool) \<Rightarrow> string \<Rightarrow> nat option" where
  "str_rfind p s = rfind_in p (chars s) 0 None"

text \<open>\<open>s.chars().next_back()\<close>, tested with a predicate.\<close>

definition next_back :: "(string \<Rightarrow> bool) \<Rightarrow> string \<Rightarrow> bool" where
  "next_back p s \<longleftrightarrow> s \<noteq> [] \<and> p (last (chars s))"

fun find_sub :: "string \<Rightarrow> string \<Rightarrow> nat option" where
  "find_sub sub [] = (if sub = [] then Some 0 else None)"
| "find_sub sub (c # cs) = (if prefix sub (c # cs) then Some 0 else map_option Suc (find_sub sub cs))"

definition contains_sub :: "string \<Rightarrow> string \<Rightarrow> bool" where
  "contains_sub s sub \<longleftrightarrow> find_sub sub s \<noteq> None"

text \<open>\<open>s.match_indices(key)\<close> for a key that is not empty: matches that do not overlap.\<close>

function match_indices :: "string \<Rightarrow> nat \<Rightarrow> string \<Rightarrow> nat list" where
  "match_indices key i [] = []"
| "match_indices key i (c # cs) =
     (if prefix key (c # cs) then i # match_indices key (i + length key) (drop (length key - 1) cs)
      else match_indices key (Suc i) cs)"
  by pat_completeness auto
termination by (relation "measure (\<lambda>(_, _, s). length s)") auto

section \<open>Characters\<close>

definition ascii_char :: "(nat \<Rightarrow> bool) \<Rightarrow> string \<Rightarrow> bool" where
  "ascii_char p c \<longleftrightarrow> (case c of [b] \<Rightarrow> byte b < 0x80 \<and> p (byte b) | _ \<Rightarrow> False)"

definition is_alphabetic :: "nat \<Rightarrow> bool" where
  "is_alphabetic b \<longleftrightarrow> 65 \<le> b \<and> b \<le> 90 \<or> 97 \<le> b \<and> b \<le> 122"

definition is_digit :: "nat \<Rightarrow> bool" where
  "is_digit b \<longleftrightarrow> 48 \<le> b \<and> b \<le> 57"

definition is_alphanumeric :: "nat \<Rightarrow> bool" where
  "is_alphanumeric b \<longleftrightarrow> is_alphabetic b \<or> is_digit b"

definition is_hexdigit :: "nat \<Rightarrow> bool" where
  "is_hexdigit b \<longleftrightarrow> is_digit b \<or> 65 \<le> b \<and> b \<le> 70 \<or> 97 \<le> b \<and> b \<le> 102"

definition char_in :: "string \<Rightarrow> string \<Rightarrow> bool" where
  "char_in set_of c \<longleftrightarrow> (case c of [b] \<Rightarrow> List.member set_of b | _ \<Rightarrow> False)"

definition is_whitespace :: "string \<Rightarrow> bool" where
  "is_whitespace c \<longleftrightarrow> blank (code_units c)"

definition is_ascii_whitespace :: "char \<Rightarrow> bool" where
  "is_ascii_whitespace c \<longleftrightarrow> byte c \<in> {9, 10, 12, 13, 32}"

definition to_ascii_lowercase :: "string \<Rightarrow> string" where
  "to_ascii_lowercase s = map (\<lambda>c. if 65 \<le> byte c \<and> byte c \<le> 90 then char_of (byte c + 32) else c) s"

definition str_trim :: "string \<Rightarrow> string" where
  "str_trim s = concat (rev (dropWhile is_whitespace (rev (dropWhile is_whitespace (chars s)))))"

text \<open>\<open>str::lines\<close>: the pieces up to each line feed, a carriage return before it stripped, too.\<close>

fun split_inclusive :: "string \<Rightarrow> string \<Rightarrow> string list" where
  "split_inclusive acc [] = (if acc = [] then [] else [acc])"
| "split_inclusive acc (c # cs) =
     (if byte c = 10 then (acc @ [c]) # split_inclusive [] cs else split_inclusive (acc @ [c]) cs)"

definition strip_last :: "nat \<Rightarrow> string \<Rightarrow> string option" where
  "strip_last b s = (if s \<noteq> [] \<and> byte (last s) = b then Some (butlast s) else None)"

definition line_content :: "string \<Rightarrow> string" where
  "line_content l = (case strip_last 10 l of None \<Rightarrow> l
     | Some l' \<Rightarrow> (case strip_last 13 l' of None \<Rightarrow> l' | Some l'' \<Rightarrow> l''))"

definition str_lines :: "string \<Rightarrow> string list" where
  "str_lines s = map line_content (split_inclusive [] s)"

section \<open>Shortening\<close>

definition MARKER :: string where "MARKER = char_of (10::nat) # ''[truncated]'' @ [char_of (10::nat)]"

fun utf8_floor_from :: "string \<Rightarrow> nat \<Rightarrow> nat" where
  "utf8_floor_from s 0 = 0"
| "utf8_floor_from s (Suc i) = (if is_char_boundary s (Suc i) then Suc i else utf8_floor_from s i)"

definition utf8_floor :: "string \<Rightarrow> nat \<Rightarrow> nat" where
  "utf8_floor s i = utf8_floor_from s (min i (length s))"

function utf8_ceil_from :: "string \<Rightarrow> nat \<Rightarrow> nat" where
  "utf8_ceil_from s i = (if i < length s \<and> \<not> is_char_boundary s i then utf8_ceil_from s (i + 1) else i)"
  by pat_completeness auto
termination by (relation "measure (\<lambda>(s, i). length s - i)") auto

declare utf8_ceil_from.simps [simp del]

definition utf8_ceil :: "string \<Rightarrow> nat \<Rightarrow> nat" where
  "utf8_ceil s i = utf8_ceil_from s (min i (length s))"

definition compact_text :: "string \<Rightarrow> nat \<Rightarrow> observer_error + string" where
  "compact_text s max_bytes =
     (if length s \<le> max_bytes then Ok s
      else if max_bytes \<le> length MARKER then str_to MARKER max_bytes
      else let available = max_bytes - length MARKER;
               head_budget = available div 3;
               tail_budget = available - head_budget;
               head_end = utf8_floor s head_budget;
               tail_start = utf8_ceil s (length s - tail_budget)
           in and_then (str_to s head_end) (\<lambda>hd'. and_then (str_from s tail_start) (\<lambda>tl'.
                Ok (hd' @ MARKER @ tl'))))"

section \<open>Redaction\<close>

definition SENSITIVE_KEYS :: "string list" where
  "SENSITIVE_KEYS =
     [''api_key'', ''api-key'', ''apikey'', ''authorization'', ''access_token'', ''access-token'', ''refresh_token'',
      ''refresh-token'', ''token'', ''secret'', ''password'', ''cookie'', ''set-cookie'', ''client_secret'',
      ''client-secret'', ''aws_secret_access_key'', ''aws-secret-access-key'', ''credential'', ''credentials'', ''private_key'']"

definition assigned_after :: "string \<Rightarrow> string \<Rightarrow> nat \<Rightarrow> bool" where
  "assigned_after line key start \<longleftrightarrow>
     (if next_back (ascii_char is_alphanumeric) (take start line) then False
      else let behind = drop (start + length key) line;
               behind = (case behind of c # cs \<Rightarrow> if byte c \<in> {34, 39} then cs else behind | [] \<Rightarrow> behind);
               behind = dropWhile is_ascii_whitespace behind
           in (case behind of c # _ \<Rightarrow> byte c \<in> {58, 61} | [] \<Rightarrow> False))"

definition contains_sensitive_assignment :: "string \<Rightarrow> bool" where
  "contains_sensitive_assignment line \<longleftrightarrow>
     list_ex (\<lambda>key. list_ex (assigned_after line key) (match_indices key 0 line)) SENSITIVE_KEYS"

text \<open>The URL schemes at their first occurrence; the earliest one counts.\<close>

fun earliest :: "(nat \<times> string) list \<Rightarrow> (nat \<times> string) option" where
  "earliest [] = None"
| "earliest (x # xs) = (case earliest xs of None \<Rightarrow> Some x | Some y \<Rightarrow> if fst x \<le> fst y then Some x else Some y)"

definition URL_SCHEMES :: "string list" where
  "URL_SCHEMES = [''https://'', ''http://'', ''wss://'', ''ws://'']"

definition find_scheme :: "string \<Rightarrow> (nat \<times> string) option" where
  "find_scheme rest = earliest (List.map_filter (\<lambda>s. map_option (\<lambda>i. (i, s)) (find_sub s rest)) URL_SCHEMES)"

definition ends_authority :: "string \<Rightarrow> bool" where
  "ends_authority c \<longleftrightarrow> is_whitespace c \<or> char_in (''/?#<>'' @ [char_of (34::nat), char_of (96::nat)]) c"

definition find_end :: "(string \<Rightarrow> bool) \<Rightarrow> string \<Rightarrow> nat \<Rightarrow> nat" where
  "find_end p rest start = (case str_find p rest of None \<Rightarrow> start + length rest | Some relative \<Rightarrow> start + relative)"

definition redact_authority :: "string \<Rightarrow> observer_error + string" where
  "redact_authority authority =
     (case str_rfind (char_in ''@'') authority of
        None \<Rightarrow> Ok authority
      | Some at \<Rightarrow> and_then (str_from authority (at + 1)) (\<lambda>host. Ok (''[redacted-credential]@'' @ host)))"

lemma str_slice_Ok:
  "str_slice s a b = Ok r \<longleftrightarrow> a \<le> b \<and> is_char_boundary s a \<and> is_char_boundary s b \<and> r = take (b - a) (drop a s)"
  by (auto simp: str_slice_def)

lemma find_end_ge: "start \<le> find_end p rest start"
  by (simp add: find_end_def split: option.split)

lemma earliest_set: "earliest xs = Some x \<Longrightarrow> x \<in> set xs"
  by (induction xs arbitrary: x) (auto split: option.splits if_splits)

lemma find_scheme_length: "find_scheme rest = Some (i, s) \<Longrightarrow> 0 < length s"
  by (auto simp: find_scheme_def List.map_filter_def URL_SCHEMES_def split: if_splits dest!: earliest_set)

function redact_url_from :: "string \<Rightarrow> string \<Rightarrow> nat \<Rightarrow> observer_error + string" where
  "redact_url_from line lower cursor =
     (if cursor < length line then
        and_then (str_from lower cursor) (\<lambda>rest.
          case find_scheme rest of
            None \<Rightarrow> str_from line cursor
          | Some (relative, scheme) \<Rightarrow>
              let start = cursor + relative; authority_start = start + length scheme in
              and_then (str_slice line cursor authority_start) (\<lambda>front.
              and_then (str_from line authority_start) (\<lambda>tail.
              let authority_end = find_end ends_authority tail authority_start in
              and_then (str_slice line authority_start authority_end) (\<lambda>authority.
              and_then (redact_authority authority) (\<lambda>redacted.
              and_then (redact_url_from line lower authority_end) (\<lambda>later.
                Ok (front @ redacted @ later)))))))
      else Ok [])"
  by pat_completeness auto
termination
proof (relation "measure (\<lambda>(line, lower, cursor). length line - cursor)", goal_cases)
  case (2 line lower cursor rest p relative scheme start authority_start front tail authority_end authority redacted)
  have "find_scheme rest = Some (relative, scheme)" using 2 by simp
  from find_scheme_length [OF this] have "0 < length scheme" .
  moreover have "authority_start = cursor + relative + length scheme" "authority_start \<le> authority_end"
    using 2 find_end_ge by simp_all
  ultimately have "cursor < authority_end" by linarith
  then show ?case using 2(1) by simp
qed simp

declare redact_url_from.simps [simp del]

definition redact_url_userinfo :: "string \<Rightarrow> observer_error + string" where
  "redact_url_userinfo line = redact_url_from line (to_ascii_lowercase line) 0"

definition is_token_character :: "nat \<Rightarrow> bool" where
  "is_token_character b \<longleftrightarrow> is_alphanumeric b \<or> b \<in> {45, 95, 46, 47, 43, 61}"

definition trim_matches :: "string \<Rightarrow> string \<Rightarrow> string" where
  "trim_matches set_of s = (let p = (\<lambda>c. c \<in> set set_of) in rev (dropWhile p (rev (dropWhile p s))))"

text \<open>\<open>token.rsplit_once('=')\<close>, the part behind.\<close>

definition after_last_equals :: "string \<Rightarrow> string" where
  "after_last_equals s = rev (takeWhile (\<lambda>c. byte c \<noteq> 61) (rev s))"

fun split_dots :: "string \<Rightarrow> string \<Rightarrow> string list" where
  "split_dots acc [] = [acc]"
| "split_dots acc (c # cs) = (if byte c = 46 then acc # split_dots [] cs else split_dots (acc @ [c]) cs)"

definition SECRET_PREFIXES :: "string list" where
  "SECRET_PREFIXES = [''sk-'', ''ghp_'', ''github_pat_'', ''xoxb-'', ''xoxp-'', ''AKIA'', ''ASIA'', ''AIza'']"

definition looks_like_secret_token :: "string \<Rightarrow> bool" where
  "looks_like_secret_token token \<longleftrightarrow>
     (let token = trim_matches (map char_of [96, 34, 39, 44, 59, 41, 93, 125 :: nat]) token;
          token = after_last_equals token;
          known_prefix = list_ex (\<lambda>p. prefix p token \<and> length p + 8 \<le> length token) SECRET_PREFIXES;
          segments = split_dots [] token;
          jwt = (prefix ''eyJ'' token \<and> length segments = 3 \<and> list_all (\<lambda>s. 8 \<le> length s) segments);
          git_sha = (length token = 40 \<and> list_all (\<lambda>c. is_hexdigit (byte c)) token);
          high_entropy = (\<not> git_sha \<and> 32 \<le> length token \<and> list_ex (\<lambda>c. is_alphabetic (byte c)) token \<and>
            list_ex (\<lambda>c. is_digit (byte c)) token \<and>
            list_all (\<lambda>c. is_alphanumeric (byte c) \<or> byte c \<in> {45, 95, 43, 61}) token)
      in known_prefix \<or> jwt \<or> high_entropy)"

definition token_char :: "string \<Rightarrow> bool" where
  "token_char c \<longleftrightarrow> ascii_char is_token_character c"

lemma find_in_Some: "find_in p cs i = Some k \<Longrightarrow> i \<le> k"
  by (induction cs arbitrary: i) (fastforce split: if_splits)+

lemma find_in_next:
  "\<forall>c\<in>set cs. c \<noteq> [] \<Longrightarrow> cs \<noteq> [] \<Longrightarrow> \<not> p (hd cs) \<Longrightarrow> find_in p cs i = Some k \<Longrightarrow> i < k"
proof (induction cs)
  case (Cons c cs)
  then have "find_in p cs (i + length c) = Some k" "0 < length c" by simp_all
  then show ?case using find_in_Some [of p cs "i + length c" k] by linarith
qed simp

lemma chars_nonempty: "c \<in> set (chars s) \<Longrightarrow> c \<noteq> []"
  by (induction s rule: chars.induct) auto

lemma concat_chars [simp]: "concat (chars s) = s"
  by (induction s rule: chars.induct) simp_all

lemma find_in_hit: "find_in p cs i = Some k \<Longrightarrow> \<exists>us c vs. cs = us @ c # vs \<and> p c \<and> k = i + length (concat us) \<and> (\<forall>u\<in>set us. \<not> p u)"
proof (induction cs arbitrary: i)
  case (Cons c cs)
  show ?case
  proof (cases "p c")
    case True
    with Cons.prems show ?thesis by (intro exI [of _ "[]"] exI [of _ c] exI [of _ cs]) auto
  next
    case False
    with Cons.prems have "find_in p cs (i + length c) = Some k" by simp
    then obtain us d vs where "cs = us @ d # vs" "p d" "k = i + length c + length (concat us)" "\<forall>u\<in>set us. \<not> p u"
      using Cons.IH by meson
    with False show ?thesis by (intro exI [of _ "c # us"] exI [of _ d] exI [of _ vs]) auto
  qed
qed simp

lemma chars_suffix: "chars s = us @ vs \<Longrightarrow> chars (concat vs) = vs"
proof (induction s arbitrary: us rule: chars.induct)
  case (2 b bs)
  show ?case
  proof (cases us)
    case Nil
    then have "concat vs = b # bs" using 2(2) concat_chars [of "b # bs"] by (simp del: concat_chars chars.simps)
    then show ?thesis using 2(2) Nil by simp
  next
    case (Cons u us')
    then have "chars (drop (char_width b - 1) bs) = us' @ vs" using 2(2) by simp
    then show ?thesis by (rule 2(1))
  qed
qed simp

text \<open>The token that starts at a token character is not empty.\<close>

lemma token_end:
  assumes "str_find token_char rest = Some r" "tail = drop r rest"
  shows "start < find_end (\<lambda>c. \<not> token_char c) tail start"
proof -
  obtain us c vs where u: "chars rest = us @ c # vs" "token_char c" "r = length (concat us)"
    using find_in_hit assms(1) unfolding str_find_def by fastforce
  have "rest = concat us @ concat (c # vs)" using arg_cong [OF u(1), of concat] by simp
  then have t: "chars tail = c # vs" using chars_suffix [OF u(1)] assms(2) u(3) by simp
  then have "c \<noteq> []" using chars_nonempty [of c tail] by simp
  have "tail \<noteq> []" using t by auto
  show ?thesis
  proof (cases "str_find (\<lambda>c. \<not> token_char c) tail")
    case None
    then show ?thesis using \<open>tail \<noteq> []\<close> by (simp add: find_end_def)
  next
    case (Some k)
    have "\<forall>d\<in>set (c # vs). d \<noteq> []" using chars_nonempty [of _ tail] t by simp
    then have "0 < k" using Some u(2) t find_in_next [of "c # vs" "\<lambda>c. \<not> token_char c" 0 k] unfolding str_find_def by simp
    then show ?thesis using Some by (simp add: find_end_def)
  qed
qed

function redact_tokens_from :: "string \<Rightarrow> nat \<Rightarrow> observer_error + string" where
  "redact_tokens_from line cursor =
     (if cursor < length line then
        and_then (str_from line cursor) (\<lambda>rest.
          case str_find token_char rest of
            None \<Rightarrow> Ok rest
          | Some start_relative \<Rightarrow>
              let start = cursor + start_relative in
              and_then (str_slice line cursor start) (\<lambda>front.
              and_then (str_from line start) (\<lambda>tail.
              let end' = find_end (\<lambda>c. \<not> token_char c) tail start in
              and_then (str_slice line start end') (\<lambda>token.
              and_then (redact_tokens_from line end') (\<lambda>later.
                Ok (front @ (if looks_like_secret_token token then ''[redacted-token]'' else token) @ later))))))
      else Ok [])"
  by pat_completeness auto
termination
proof (relation "measure (\<lambda>(line, cursor). length line - cursor)", goal_cases)
  case (2 line cursor rest start_relative start front tail end')
  have "rest = take (length line - cursor) (drop cursor line)" "tail = take (length line - start) (drop start line)"
    using 2 by (simp_all only: str_slice_Ok)
  then have "rest = drop cursor line" "tail = drop start line" by simp_all
  then have "tail = drop start_relative rest" using 2 by (simp add: add.commute)
  then have "start < end'" using 2 token_end by simp
  moreover have "cursor \<le> start" using 2 by simp
  ultimately show ?case using 2(1) by simp
qed simp

declare redact_tokens_from.simps [simp del]

definition redact_embedded_tokens :: "string \<Rightarrow> observer_error + string" where
  "redact_embedded_tokens line = redact_tokens_from line 0"

definition path_boundary_char :: "string \<Rightarrow> bool" where
  "path_boundary_char c \<longleftrightarrow> is_whitespace c \<or> char_in (''([{<=:'' @ map char_of [34, 39, 96 :: nat]) c"

text \<open>\<open>line[..index].rfind(|c| !c.is_ascii_alphanumeric()).map_or(0, |position| position + 1)\<close>.\<close>

definition scheme_start_of :: "string \<Rightarrow> nat" where
  "scheme_start_of front =
     (case str_rfind (\<lambda>c. \<not> ascii_char is_alphanumeric c) front of None \<Rightarrow> 0 | Some position \<Rightarrow> position + 1)"

text \<open>The branch for a slash behind a colon: a verdict, or \<open>None\<close> to go on.\<close>

definition slash_after_colon :: "string \<Rightarrow> nat \<Rightarrow> observer_error + nat option option" where
  "slash_after_colon line index =
     (let scheme_end = index - 1 in
      and_then (str_to line scheme_end) (\<lambda>front.
      let scheme_start = scheme_start_of front in
      and_then (str_slice line scheme_start scheme_end) (\<lambda>scheme.
      let lower = to_ascii_lowercase scheme in
      if lower = ''file'' then Ok (Some (Some scheme_start))
      else if lower \<in> {''http'', ''https'', ''ws'', ''wss''} then Ok (Some None)
      else Ok None)))"

definition drive_letter_before :: "string \<Rightarrow> string \<Rightarrow> nat \<Rightarrow> observer_error + bool" where
  "drive_letter_before line behind index =
     (if prefix '':'' behind \<and> 1 < length behind \<and> byte (behind ! 1) \<in> {47, 92} \<and> 0 < index \<and>
         is_alphabetic (byte (line ! (index - 1)))
      then if index = 1 then Ok True
           else and_then (str_to line (index - 1)) (\<lambda>front. Ok (next_back path_boundary_char front))
      else Ok False)"

definition path_at_boundary :: "string \<Rightarrow> string \<Rightarrow> nat \<Rightarrow> nat option" where
  "path_at_boundary front behind index =
     (if \<not> (index = 0 \<or> next_back path_boundary_char front) then None
      else if prefix ''file://'' behind \<or> prefix ''~/'' behind \<or> prefix ''/'' behind then Some index
      else if 3 \<le> length behind \<and> is_alphabetic (byte (behind ! 0)) \<and> byte (behind ! 1) = 58 \<and> byte (behind ! 2) \<in> {47, 92}
      then Some index
      else None)"

definition local_path_start :: "string \<Rightarrow> nat \<Rightarrow> observer_error + nat option" where
  "local_path_start line index =
     and_then (str_from line index) (\<lambda>behind.
     and_then (str_to line index) (\<lambda>front.
       if prefix ''://'' behind then
         let scheme_start = scheme_start_of front in
         and_then (str_slice line scheme_start index) (\<lambda>scheme.
           if to_ascii_lowercase scheme = ''file'' then Ok (Some scheme_start) else Ok None)
       else
         and_then (if prefix ''/'' behind \<and> (front \<noteq> [] \<and> byte (last front) = 58) then slash_after_colon line index else Ok None) (\<lambda>verdict.
           case verdict of
             Some v \<Rightarrow> Ok v
           | None \<Rightarrow> and_then (drive_letter_before line behind index) (\<lambda>drive.
               if drive then Ok (Some (index - 1)) else Ok (path_at_boundary front behind index)))))"

definition ends_path :: "string \<Rightarrow> bool" where
  "ends_path c \<longleftrightarrow> is_whitespace c \<or> char_in (map char_of [34, 39, 96, 41, 93, 125, 62, 44, 59 :: nat]) c"

function redact_paths_from :: "string \<Rightarrow> nat \<Rightarrow> observer_error + string" where
  "redact_paths_from line cursor =
     (if cursor < length line then
        and_then (str_from line cursor) (\<lambda>rest.
          case str_find (char_in ''/~:'') rest of
            None \<Rightarrow> Ok rest
          | Some relative \<Rightarrow>
              let candidate = cursor + relative in
              and_then (local_path_start line candidate) (\<lambda>found.
                case found of
                  None \<Rightarrow>
                    and_then (str_from line candidate) (\<lambda>tail.
                    and_then (ok_or ObserverPanic (case chars tail of [] \<Rightarrow> None | c # _ \<Rightarrow> Some (length c))) (\<lambda>width.
                    let nxt = candidate + width in
                    and_then (str_slice line cursor nxt) (\<lambda>front.
                    and_then (redact_paths_from line nxt) (\<lambda>later. Ok (front @ later)))))
                | Some start \<Rightarrow>
                    and_then (str_slice line cursor start) (\<lambda>front.
                    and_then (str_from line start) (\<lambda>tail.
                    let end' = find_end ends_path tail start in
                    and_then (redact_paths_from line (max end' (start + 1))) (\<lambda>later.
                      Ok (front @ ''[redacted-path]'' @ later))))))
      else Ok [])"
  by pat_completeness auto
termination
proof (relation "measure (\<lambda>(line, cursor). length line - cursor)", goal_cases)
  case (2 line cursor rest relative candidate found tail width nxt front)
  obtain c cs where "chars tail = c # cs" "width = length c" using 2 by (auto simp: ok_or_def split: option.splits list.splits)
  then have "0 < width" using chars_nonempty [of c tail] by simp
  then show ?case using 2 by simp
qed (auto simp: str_slice_Ok)

declare redact_paths_from.simps [simp del]

definition redact_embedded_paths :: "string \<Rightarrow> observer_error + string" where
  "redact_embedded_paths line = redact_paths_from line 0"

section \<open>Redacting a text\<close>

definition REDACTED_LINE :: string where "REDACTED_LINE = ''[redacted-sensitive-line]''"

definition redact_line :: "string \<Rightarrow> observer_error + string" where
  "redact_line line =
     and_then (redact_url_userinfo line) (\<lambda>userinfo.
     and_then (redact_embedded_paths userinfo) (\<lambda>paths.
       redact_embedded_tokens paths))"

fun redact_lines :: "bool \<Rightarrow> string list \<Rightarrow> observer_error + string list" where
  "redact_lines private_key [] = Ok []"
| "redact_lines private_key (line # ls) =
     (let lower = to_ascii_lowercase line;
          starts_private_key = (contains_sub lower ''-----begin '' \<and> contains_sub lower ''private key'');
          ends_private_key = (contains_sub lower ''-----end '' \<and> contains_sub lower ''private key'')
      in if private_key \<or> starts_private_key
         then and_then (redact_lines (\<not> ends_private_key) ls) (\<lambda>out. Ok (REDACTED_LINE # out))
         else if contains_sub lower ''bearer '' \<or> contains_sensitive_assignment lower
         then and_then (redact_lines private_key ls) (\<lambda>out. Ok (REDACTED_LINE # out))
         else and_then (redact_line line) (\<lambda>tokens.
              and_then (redact_lines private_key ls) (\<lambda>out. Ok (tokens # out))))"

fun join_lines :: "string list \<Rightarrow> string" where
  "join_lines [] = []"
| "join_lines [l] = l"
| "join_lines (l # ls) = l @ char_of (10::nat) # join_lines ls"

definition redact_sensitive_text :: "string \<Rightarrow> observer_error + string" where
  "redact_sensitive_text s =
     (let sanitized = filter (\<lambda>c. byte c \<noteq> 0) s in
      and_then (redact_lines False (str_lines sanitized)) (\<lambda>ls. Ok (str_trim (join_lines ls))))"

section \<open>Characters and boundaries\<close>

lemma scalar_width: "scalar_ok (a # as) \<Longrightarrow> char_width a = Suc (length as)"
  by (cases "a # as" rule: scalar_ok.cases) (auto simp: char_width_def split: if_splits)

lemma scalar_first: "scalar_ok (a # as) \<Longrightarrow> \<not> continuation a"
  by (cases "a # as" rule: scalar_ok.cases) (auto simp: continuation_def split: if_splits)

lemma scalar_rest: "scalar_ok (a # as) \<Longrightarrow> b \<in> set as \<Longrightarrow> continuation b"
  by (cases "a # as" rule: scalar_ok.cases) (auto simp: continuation_def split: if_splits)

lemma scalar_nonempty: "scalar_ok c \<Longrightarrow> c \<noteq> []"
  by auto

lemma chars_concat: "list_all scalar_ok cs \<Longrightarrow> chars (concat cs @ t) = cs @ chars t"
proof (induction cs)
  case (Cons c cs)
  then obtain a as where c: "c = a # as" by (cases c) auto
  then have "char_width a - 1 = length as" using scalar_width [of a as] Cons.prems by simp
  then show ?case using Cons c by simp
qed simp

lemma chars_of_concat: "list_all scalar_ok cs \<Longrightarrow> chars (concat cs) = cs"
  using chars_concat [of cs "[]"] by simp

lemma utf8_concat: "list_all scalar_ok cs \<Longrightarrow> utf8_valid (concat cs)"
  by (simp add: utf8_valid_def chars_of_concat)

lemma chars_append: "utf8_valid s \<Longrightarrow> chars (s @ t) = chars s @ chars t"
  using chars_concat [of "chars s" t] by (simp add: utf8_valid_def)

lemma utf8_append: "utf8_valid s \<Longrightarrow> utf8_valid t \<Longrightarrow> utf8_valid (s @ t)"
  by (simp add: utf8_valid_def chars_append)

lemma boundary_between:
  assumes "list_all scalar_ok us" "list_all scalar_ok vs"
  shows "is_char_boundary (concat us @ concat vs) (length (concat us))"
proof (cases vs)
  case (Cons v vs')
  then obtain a as where "v = a # as" using assms(2) by (cases v) auto
  then show ?thesis using Cons assms(2) scalar_first [of a as] by (simp add: is_char_boundary_def nth_append)
qed (simp add: is_char_boundary_def)

lemma boundary_splits:
  assumes "utf8_valid s" "is_char_boundary s i"
  obtains us vs where "chars s = us @ vs" "i = length (concat us)"
proof -
  have "\<exists>us vs. cs = us @ vs \<and> i = length (concat us)"
    if "list_all scalar_ok cs" "is_char_boundary (concat cs) i" for cs i
    using that
  proof (induction cs arbitrary: i)
    case (Cons c cs)
    show ?case
    proof (cases "i = 0")
      case False
      have len: "\<not> i < length c"
      proof
        assume "i < length c"
        obtain a as where c: "c = a # as" using Cons.prems(1) by (cases c) auto
        with \<open>i < length c\<close> False have "concat (c # cs) ! i \<in> set as"
          by (auto simp: nth_append nth_Cons' less_Suc_eq_0_disj)
        then have "continuation (concat (c # cs) ! i)" using scalar_rest Cons.prems(1) c by auto
        then show False using Cons.prems(2) \<open>i < length c\<close> False by (auto simp: is_char_boundary_def)
      qed
      have "is_char_boundary (concat cs) (i - length c)"
        using Cons.prems(2) len False by (auto simp: is_char_boundary_def nth_append)
      from Cons.IH [OF _ this] have "\<exists>us vs. cs = us @ vs \<and> i - length c = length (concat us)" using Cons.prems(1) by simp
      then obtain us vs where "cs = us @ vs" "i - length c = length (concat us)" by blast
      then show ?thesis using len by (intro exI [of _ "c # us"] exI [of _ vs]) simp
    qed (intro exI [of _ "[]"] exI [of _ "c # cs"], simp)
  qed (simp add: is_char_boundary_def)
  from this [of "chars s" i] show thesis using assms that by (auto simp: utf8_valid_def)
qed

lemma slice_chars:
  assumes "list_all scalar_ok us" "list_all scalar_ok vs" "list_all scalar_ok ws"
  shows "str_slice (concat us @ concat vs @ concat ws) (length (concat us)) (length (concat us) + length (concat vs)) = Ok (concat vs)"
  using boundary_between [of us "vs @ ws"] boundary_between [of "us @ vs" ws] assms by (simp add: str_slice_def)

lemma from_chars:
  assumes "list_all scalar_ok us" "list_all scalar_ok vs"
  shows "str_from (concat us @ concat vs) (length (concat us)) = Ok (concat vs)"
  using slice_chars [OF assms, of "[]"] by simp

section \<open>Shortening\<close>

lemma utf8_floor_boundary: "is_char_boundary s (utf8_floor_from s i) \<and> utf8_floor_from s i \<le> i"
  by (induction i) (auto simp: is_char_boundary_def)

lemma utf8_ceil_boundary:
  "i \<le> length s \<Longrightarrow> is_char_boundary s (utf8_ceil_from s i) \<and> i \<le> utf8_ceil_from s i \<and> utf8_ceil_from s i \<le> length s"
proof (induction s i rule: utf8_ceil_from.induct)
  case (1 s i)
  show ?case
  proof (cases "i < length s \<and> \<not> is_char_boundary s i")
    case True
    then show ?thesis using 1 by (subst (1 2 3) utf8_ceil_from.simps) simp
  next
    case False
    then show ?thesis using 1(2) by (subst (1 2 3) utf8_ceil_from.simps) (auto simp: is_char_boundary_def)
  qed
qed

lemma utf8_pieces:
  assumes "utf8_valid s" "is_char_boundary s i"
  shows "utf8_valid (take i s)" "utf8_valid (drop i s)"
proof -
  obtain us vs where u: "chars s = us @ vs" "i = length (concat us)" using boundary_splits [OF assms] .
  then have "list_all scalar_ok us" "list_all scalar_ok vs" using assms(1) by (simp_all add: utf8_valid_def)
  moreover have "s = concat us @ concat vs" using arg_cong [OF u(1), of concat] by simp
  ultimately show "utf8_valid (take i s)" "utf8_valid (drop i s)" using u(2) by (simp_all add: utf8_concat)
qed

lemma marker_bytes: "length MARKER = 13" "\<forall>i\<le>13. is_char_boundary MARKER i" "\<forall>c\<in>set MARKER. byte c < 0x80"
proof -
  show "length MARKER = 13" by code_simp
  show *: "\<forall>c\<in>set MARKER. byte c < 0x80" by code_simp
  show "\<forall>i\<le>13. is_char_boundary MARKER i"
  proof (intro allI impI)
    fix i :: nat
    assume "i \<le> 13"
    show "is_char_boundary MARKER i"
    proof (cases "i = 13")
      case False
      then have "byte (MARKER ! i) < 0x80" using * \<open>length MARKER = 13\<close> \<open>i \<le> 13\<close> nth_mem [of i MARKER] by auto
      then show ?thesis using \<open>length MARKER = 13\<close> \<open>i \<le> 13\<close> False by (simp add: is_char_boundary_def continuation_def)
    qed (simp add: is_char_boundary_def \<open>length MARKER = 13\<close>)
  qed
qed

lemma ascii_valid: "\<forall>c\<in>set s. byte c < 0x80 \<Longrightarrow> chars s = map (\<lambda>c. [c]) s \<and> utf8_valid s"
proof (induction s)
  case (Cons a s)
  then have w: "char_width a = 1" by (simp add: char_width_def)
  have e: "chars (a # s) = [a] # chars s" unfolding chars.simps w by simp
  have ih: "chars s = map (\<lambda>c. [c]) s \<and> utf8_valid s" using Cons by auto
  have "list_all scalar_ok ([a] # chars s)"
    using conjunct2 [OF ih] Cons.prems unfolding utf8_valid_def by (simp only: list.pred_inject list_all_iff) auto
  then show ?case unfolding utf8_valid_def e using conjunct1 [OF ih] by simp
qed (simp add: utf8_valid_def)

lemma compact_bounded:
  assumes "utf8_valid s"
  shows "\<exists>r. compact_text s n = Ok r \<and> length r \<le> n \<and> utf8_valid r \<and> (length s \<le> n \<longrightarrow> r = s)"
proof (cases "length s \<le> n")
  case False
  show ?thesis
  proof (cases "n \<le> length MARKER")
    case True
    then have "\<forall>c\<in>set (take n MARKER). byte c < 0x80" using marker_bytes(3) by (meson in_set_takeD)
    then show ?thesis
      using False True marker_bytes ascii_valid [of "take n MARKER"]
      by (simp add: compact_text_def str_slice_def is_char_boundary_def)
  next
    case big: False
    define available where "available = n - length MARKER"
    define h where "h = utf8_floor s (available div 3)"
    define t where "t = utf8_ceil s (length s - (available - available div 3))"
    have h: "is_char_boundary s h" "h \<le> available div 3" "h \<le> length s"
      using utf8_floor_boundary [of s "min (available div 3) (length s)"] by (simp_all add: h_def utf8_floor_def)
    have t: "is_char_boundary s t" "length s - (available - available div 3) \<le> t" "t \<le> length s"
      using utf8_ceil_boundary [of "min (length s - (available - available div 3)) (length s)" s] by (simp_all add: t_def utf8_ceil_def)
    have r: "compact_text s n = Ok (take h s @ MARKER @ drop t s)"
    proof -
      have "str_to s h = Ok (take h s)" "str_from s t = Ok (drop t s)"
        using h t by (simp_all add: str_slice_def is_char_boundary_def)
      then show ?thesis
        unfolding compact_text_def Let_def available_def [symmetric] h_def [symmetric] t_def [symmetric]
        by (simp only: False big if_False and_then_simps)
    qed
    have "length (take h s @ MARKER @ drop t s) \<le> n" using h t big by (simp add: available_def)
    moreover have "utf8_valid (take h s @ MARKER @ drop t s)"
      using utf8_pieces [OF assms] h t ascii_valid marker_bytes(3) by (intro utf8_append) simp_all
    ultimately show ?thesis using r False by simp
  qed
qed (use assms in \<open>simp add: compact_text_def\<close>)

text \<open>Shortening a text never cuts a character: on every valid text it returns a valid text of at
  most the given number of bytes, the text itself when it fits, and never panics.\<close>

lemma compact_text_bounded:
  assumes "utf8_valid s"
  shows "\<exists>r. compact_text s n = Ok r \<and> length r \<le> n \<and> utf8_valid r \<and> (length s \<le> n \<longrightarrow> r = s)"
  by (rule compact_bounded [OF assms])

section \<open>Tokens\<close>

text \<open>The loop over byte positions, as a function on characters.\<close>

function redact_runs :: "string list \<Rightarrow> string" where
  "redact_runs [] = []"
| "redact_runs (c # cs) =
     (if token_char c
      then (let token = c @ concat (takeWhile token_char cs) in
            (if looks_like_secret_token token then ''[redacted-token]'' else token) @ redact_runs (dropWhile token_char cs))
      else c @ redact_runs cs)"
  by pat_completeness auto
termination by (relation "measure length") (auto simp: less_Suc_eq_le length_dropWhile_le)

text \<open>The maximal runs of token characters in a text.\<close>

fun token_runs :: "string \<Rightarrow> string list \<Rightarrow> string list" where
  "token_runs acc [] = (if acc = [] then [] else [acc])"
| "token_runs acc (c # cs) =
     (if token_char c then token_runs (acc @ c) cs
      else (if acc = [] then [] else [acc]) @ token_runs [] cs)"

definition tokens_of :: "string \<Rightarrow> string list" where
  "tokens_of s = token_runs [] (chars s)"

lemma find_in_take:
  "find_in p cs i = (if \<exists>c\<in>set cs. p c then Some (i + length (concat (takeWhile (\<lambda>c. \<not> p c) cs))) else None)"
  by (induction cs arbitrary: i) auto

lemma redact_runs_split:
  "redact_runs cs = concat (takeWhile (\<lambda>c. \<not> token_char c) cs) @ redact_runs (dropWhile (\<lambda>c. \<not> token_char c) cs)"
  by (induction cs) auto

lemma find_end_take:
  assumes "list_all scalar_ok vs"
  shows "find_end p (concat vs) start = start + length (concat (takeWhile (\<lambda>c. \<not> p c) vs))"
proof (cases "\<exists>c\<in>set vs. p c")
  case False
  then have tw: "takeWhile (\<lambda>c. \<not> p c) vs = vs" by (simp add: takeWhile_eq_all_conv)
  have "str_find p (concat vs) = None" using False by (simp add: str_find_def chars_of_concat [OF assms] find_in_take)
  then show ?thesis unfolding tw by (simp add: find_end_def)
qed (simp add: find_end_def str_find_def chars_of_concat [OF assms] find_in_take)

lemma redact_tokens_runs:
  "list_all scalar_ok us \<Longrightarrow> list_all scalar_ok vs \<Longrightarrow>
   redact_tokens_from (concat us @ concat vs) (length (concat us)) = Ok (redact_runs vs)"
proof (induction "length vs" arbitrary: us vs rule: less_induct)
  case less
  let ?line = "concat us @ concat vs" and ?i = "length (concat us)"
  show ?case
  proof (cases vs)
    case Nil
    then show ?thesis by (simp add: redact_tokens_from.simps)
  next
    case (Cons c cs)
    then have lt: "?i < length ?line" using less.prems(2) by (cases c) auto
    have rest: "str_from ?line ?i = Ok (concat vs)" by (rule from_chars [OF less.prems])
    define n where "n = takeWhile (\<lambda>c. \<not> token_char c) vs"
    define t where "t = dropWhile (\<lambda>c. \<not> token_char c) vs"
    have vs: "vs = n @ t" by (simp add: n_def t_def)
    have ok: "list_all scalar_ok n" "list_all scalar_ok t" using less.prems(2) unfolding vs by simp_all
    show ?thesis
    proof (cases t)
      case Nil
      then have "\<forall>c\<in>set vs. \<not> token_char c" by (simp add: t_def dropWhile_eq_Nil_conv)
      then have none: "str_find token_char (concat vs) = None"
        by (simp add: str_find_def chars_of_concat [OF less.prems(2)] find_in_take)
      have "redact_runs vs = concat vs"
      proof -
        have "redact_runs vs = concat n @ redact_runs t" unfolding n_def t_def by (rule redact_runs_split)
        moreover have "n = vs" using vs Nil by simp
        ultimately show ?thesis using Nil by (metis append_Nil2 redact_runs.simps(1))
      qed
      with none have "str_find token_char (concat vs) = None" "redact_runs vs = concat vs" by simp_all
      then show ?thesis using lt rest by (subst redact_tokens_from.simps) simp
    next
      case (Cons d ds)
      then have dw: "dropWhile (\<lambda>c. \<not> token_char c) vs = d # ds" by (simp only: t_def)
      have d: "token_char d" using hd_dropWhile [of "\<lambda>c. \<not> token_char c" vs] unfolding dw by simp
      have "d \<in> set vs" by (rule set_dropWhileD [of d "\<lambda>c. \<not> token_char c"]) (simp add: dw)
      with d have "\<exists>c\<in>set vs. token_char c" by blast
      then have found: "str_find token_char (concat vs) = Some (length (concat n))"
        unfolding str_find_def chars_of_concat [OF less.prems(2)] find_in_take n_def by simp
      define token where "token = d # takeWhile token_char ds"
      define w where "w = dropWhile token_char ds"
      have t: "t = token @ w" using Cons by (simp add: token_def w_def)
      have okt: "list_all scalar_ok token" "list_all scalar_ok w" using ok(2) unfolding t by simp_all
      have tw: "takeWhile (\<lambda>c. \<not> \<not> token_char c) t = token" using Cons d by (simp add: token_def)
      let ?start = "?i + length (concat n)"
      have line: "?line = concat us @ concat n @ concat t" "?line = concat (us @ n) @ concat token @ concat w"
        "?line = concat (us @ n @ token) @ concat w" by (simp_all add: vs t)
      have s1: "str_slice ?line ?i ?start = Ok (concat n)" unfolding line(1) by (rule slice_chars [OF less.prems(1) ok])
      have s2: "str_from ?line ?start = Ok (concat t)"
        using from_chars [of "us @ n" t] less.prems(1) ok by (simp add: vs)
      have e: "find_end (\<lambda>c. \<not> token_char c) (concat t) ?start = ?start + length (concat token)"
        unfolding find_end_take [OF ok(2)] tw ..
      have s3: "str_slice ?line ?start (?start + length (concat token)) = Ok (concat token)"
        using slice_chars [of "us @ n" token w] less.prems(1) ok(1) okt by (simp add: vs t)
      have "length w < length vs" using vs t by (simp add: token_def)
      then have rec: "redact_tokens_from ?line (?start + length (concat token)) = Ok (redact_runs w)"
        using less.hyps [of w "us @ n @ token"] less.prems(1) ok(1) okt by (simp add: vs t add.assoc)
      have runs: "redact_runs vs = concat n @ (if looks_like_secret_token (concat token) then ''[redacted-token]'' else concat token) @ redact_runs w"
      proof -
        have "redact_runs vs = concat n @ redact_runs t" unfolding n_def t_def by (rule redact_runs_split)
        also have "redact_runs t = (if looks_like_secret_token (concat token) then ''[redacted-token]'' else concat token) @ redact_runs w"
          unfolding Cons using d by (simp add: token_def w_def Let_def)
        finally show ?thesis .
      qed
      show ?thesis
        using lt rest found s1 s2 e s3 rec unfolding runs by (subst redact_tokens_from.simps) (simp add: Let_def)
    qed
  qed
qed

lemma redact_embedded_runs: "utf8_valid s \<Longrightarrow> redact_embedded_tokens s = Ok (redact_runs (chars s))"
  using redact_tokens_runs [of "[]" "chars s"] by (simp add: redact_embedded_tokens_def utf8_valid_def)

section \<open>What is left after redaction\<close>

definition no_secret :: "string list \<Rightarrow> bool" where
  "no_secret cs \<longleftrightarrow> (\<forall>t\<in>set (token_runs [] cs). \<not> looks_like_secret_token t)"

definition starts_plain :: "string list \<Rightarrow> bool" where
  "starts_plain cs \<longleftrightarrow> cs = [] \<or> \<not> token_char (hd cs)"

lemma token_runs_plain:
  assumes "list_all token_char tk" "starts_plain cs" "acc @ concat tk \<noteq> []"
  shows "token_runs acc (tk @ cs) = (acc @ concat tk) # token_runs [] cs"
  using assms
proof (induction tk arbitrary: acc)
  case Nil
  then show ?case by (cases cs) (auto simp: starts_plain_def)
next
  case (Cons c tk)
  then show ?case using scalar_nonempty by (cases "c = []") (auto simp: token_char_def ascii_char_def)
qed

lemma token_runs_skip: "\<not> token_char c \<Longrightarrow> token_runs acc (cs @ [c]) = token_runs acc cs"
  by (induction cs arbitrary: acc) auto

lemma token_runs_gap: "\<not> token_char c \<Longrightarrow> token_runs acc (cs @ c # ds) = token_runs acc cs @ token_runs [] ds"
  by (induction cs arbitrary: acc) auto

definition single_chars :: "string \<Rightarrow> string list" where
  "single_chars s = map (\<lambda>c. [c]) s"

lemma single_chars [simp]: "concat (single_chars s) = s"
  by (induction s) (simp_all add: single_chars_def)

lemma redacted_token_run:
  assumes "starts_plain cs"
  shows "token_runs [] (single_chars ''[redacted-token]'' @ cs) = ''redacted-token'' # token_runs [] cs"
proof -
  have e: "single_chars ''[redacted-token]'' = ''['' # single_chars ''redacted-token'' @ ['']'']" by (simp add: single_chars_def)
  have t: "list_all token_char (single_chars ''redacted-token'')" "\<not> token_char ''[''" "\<not> token_char '']''" by code_simp+
  have "token_runs [] (single_chars ''[redacted-token]'' @ cs) = token_runs [] (single_chars ''redacted-token'' @ ('']'' # cs))"
    unfolding e using t by simp
  also have "\<dots> = ''redacted-token'' # token_runs [] cs"
    using token_runs_plain [OF t(1), of "'']'' # cs" "[]"] t(3) by (simp add: starts_plain_def)
  finally show ?thesis .
qed

lemma harmless: "\<not> looks_like_secret_token ''redacted-token''" "list_all scalar_ok (single_chars ''[redacted-token]'')"
  "\<not> token_char ''[''"
  by code_simp+

lemma redact_runs_chars:
  "list_all scalar_ok cs \<Longrightarrow>
   \<exists>ds. redact_runs cs = concat ds \<and> list_all scalar_ok ds \<and> no_secret ds \<and> (starts_plain cs \<longrightarrow> starts_plain ds)"
proof (induction cs rule: redact_runs.induct)
  case 1
  show ?case by (intro exI [of _ "[]"]) (simp add: no_secret_def starts_plain_def)
next
  case (2 c cs)
  show ?case
  proof (cases "token_char c")
    case False
    then obtain ds where "redact_runs cs = concat ds" "list_all scalar_ok ds" "no_secret ds" using 2 by auto
    then show ?thesis using False 2(3) by (intro exI [of _ "c # ds"]) (auto simp: no_secret_def starts_plain_def)
  next
    case True
    define tk where "tk = c # takeWhile token_char cs"
    define w where "w = dropWhile token_char cs"
    have "list_all scalar_ok w" "list_all scalar_ok tk"
      using 2(3) by (auto simp: w_def tk_def list_all_iff dest: set_dropWhileD set_takeWhileD)
    moreover have "starts_plain w" unfolding starts_plain_def w_def using hd_dropWhile [of token_char cs] by blast
    ultimately obtain ds where ds: "redact_runs w = concat ds" "list_all scalar_ok ds" "no_secret ds" "starts_plain ds"
      using 2(1) [OF True refl] unfolding w_def by blast
    have tok: "list_all token_char tk" using True by (auto simp: tk_def list_all_iff dest: set_takeWhileD)
    have ne: "concat tk \<noteq> []" using 2(3) by (cases c) (auto simp: tk_def)
    have r: "redact_runs (c # cs) = (if looks_like_secret_token (concat tk) then ''[redacted-token]'' else concat tk) @ concat ds"
      using True ds(1) by (simp add: tk_def w_def Let_def)
    have runs: "token_runs [] (tk @ ds) = concat tk # token_runs [] ds"
      using token_runs_plain [OF tok ds(4), of "[]"] ne by simp
    show ?thesis
    proof (cases "looks_like_secret_token (concat tk)")
      case True
      then show ?thesis
        using r ds harmless redacted_token_run [OF ds(4)] \<open>token_char c\<close>
        by (intro exI [of _ "single_chars ''[redacted-token]'' @ ds"]) (auto simp: no_secret_def starts_plain_def)
    next
      case False
      then show ?thesis
        using r ds runs \<open>list_all scalar_ok tk\<close> \<open>token_char c\<close>
        by (intro exI [of _ "tk @ ds"]) (auto simp: no_secret_def starts_plain_def)
    qed
  qed
qed

lemma tokens_redacted:
  assumes "utf8_valid s"
  obtains out where "redact_embedded_tokens s = Ok out" "utf8_valid out" "no_secret (chars out)"
proof -
  obtain ds where "redact_runs (chars s) = concat ds" "list_all scalar_ok ds" "no_secret ds"
    using redact_runs_chars [of "chars s"] assms unfolding utf8_valid_def by blast
  then show thesis using that redact_embedded_runs [OF assms] by (simp add: utf8_valid_def chars_of_concat)
qed

section \<open>Validity of what the other passes return\<close>

lemma utf8_slice:
  assumes "utf8_valid s" "str_slice s a b = Ok r"
  shows "utf8_valid r"
proof -
  have r: "a \<le> b" "is_char_boundary s a" "is_char_boundary s b" "r = take (b - a) (drop a s)" using assms(2) by (simp_all add: str_slice_Ok)
  have "utf8_valid (take b s)" by (rule utf8_pieces(1) [OF assms(1) r(3)])
  moreover have "is_char_boundary (take b s) a"
    using r by (auto simp: is_char_boundary_def)
  ultimately have "utf8_valid (drop a (take b s))" by (rule utf8_pieces(2))
  then show ?thesis using r(4) by (simp add: drop_take)
qed

lemma utf8_ascii: "list_all (\<lambda>c. byte c < 0x80) s \<Longrightarrow> utf8_valid s"
  using ascii_valid [of s] by (simp add: list_all_iff)

lemma utf8_marks: "utf8_valid ''[redacted-path]''" "utf8_valid ''[redacted-credential]@''" "utf8_valid REDACTED_LINE" "utf8_valid []"
  by (rule utf8_ascii, code_simp)+

lemma redact_authority_valid:
  assumes "utf8_valid a" "redact_authority a = Ok r"
  shows "utf8_valid r"
proof (cases "str_rfind (char_in ''@'') a")
  case (Some at)
  then obtain host where "str_from a (at + 1) = Ok host" "r = ''[redacted-credential]@'' @ host"
    using assms(2) unfolding redact_authority_def Some option.case and_then_Ok_iff sum.inject by blast
  then show ?thesis using utf8_append [OF utf8_marks(2) utf8_slice [OF assms(1)]] by (simp only:)
qed (use assms in \<open>simp add: redact_authority_def\<close>)

lemma redact_url_valid: "utf8_valid line \<Longrightarrow> redact_url_from line lower cursor = Ok out \<Longrightarrow> utf8_valid out"
proof (induction line lower cursor arbitrary: out rule: redact_url_from.induct)
  case (1 line lower cursor)
  show ?case
  proof (cases "cursor < length line")
    case True
    obtain rest where rest: "str_from lower cursor = Ok rest"
      using 1(3) True by (subst (asm) redact_url_from.simps) (auto simp: and_then_Ok_iff)
    show ?thesis
    proof (cases "find_scheme rest")
      case None
      then have "str_from line cursor = Ok out" using 1(3) True rest by (subst (asm) redact_url_from.simps) simp
      then show ?thesis by (rule utf8_slice [OF 1(2)])
    next
      case (Some p)
      obtain relative scheme where p: "p = (relative, scheme)" by fastforce
      let ?a = "cursor + relative + length scheme"
      obtain front tail authority redacted later where *:
        "str_slice line cursor ?a = Ok front" "str_from line ?a = Ok tail"
        "str_slice line ?a (find_end ends_authority tail ?a) = Ok authority"
        "redact_authority authority = Ok redacted"
        "redact_url_from line lower (find_end ends_authority tail ?a) = Ok later" "out = front @ redacted @ later"
        using 1(3) True rest Some p
        by (subst (asm) redact_url_from.simps) (auto simp: and_then_Ok_iff Let_def)
      have "utf8_valid later"
        using 1(1) [OF True rest Some p [symmetric] refl refl *(1,2) refl *(3,4) 1(2) *(5)] .
      moreover have "utf8_valid redacted"
        by (rule redact_authority_valid [OF utf8_slice [OF 1(2) *(3)] *(4)])
      ultimately show ?thesis using *(6) utf8_slice [OF 1(2) *(1)] by (simp add: utf8_append)
    qed
  qed (use 1(3) utf8_marks in \<open>subst (asm) redact_url_from.simps, simp\<close>)
qed

lemma redact_paths_valid: "utf8_valid line \<Longrightarrow> redact_paths_from line cursor = Ok out \<Longrightarrow> utf8_valid out"
proof (induction line cursor arbitrary: out rule: redact_paths_from.induct)
  case (1 line cursor)
  show ?case
  proof (cases "cursor < length line")
    case True
    obtain rest where rest: "str_from line cursor = Ok rest"
      using 1(4) True by (subst (asm) redact_paths_from.simps) (auto simp: and_then_Ok_iff)
    show ?thesis
    proof (cases "str_find (char_in ''/~:'') rest")
      case None
      then have "rest = out" using 1(4) True rest by (subst (asm) redact_paths_from.simps) simp
      then show ?thesis using utf8_slice [OF 1(3) rest] by simp
    next
      case (Some relative)
      obtain found where found: "local_path_start line (cursor + relative) = Ok found"
        using 1(4) True rest Some by (subst (asm) redact_paths_from.simps) (auto simp: and_then_Ok_iff Let_def)
      show ?thesis
      proof (cases found)
        case None
        obtain tail width front later where *: "str_from line (cursor + relative) = Ok tail"
            "ok_or ObserverPanic (case chars tail of [] \<Rightarrow> None | c # _ \<Rightarrow> Some (length c)) = Ok width"
            "str_slice line cursor (cursor + relative + width) = Ok front"
            "redact_paths_from line (cursor + relative + width) = Ok later" "out = front @ later"
          using 1(4) True rest Some found None
          by (subst (asm) redact_paths_from.simps) (auto simp: and_then_Ok_iff Let_def)
        have "utf8_valid later" using 1(1) [OF True rest Some refl found None *(1,2) refl *(3) 1(3) *(4)] .
        then show ?thesis using utf8_slice [OF 1(3) *(3)] *(5) by (simp add: utf8_append)
      next
        case (Some start)
        obtain front tail later where *: "str_slice line cursor start = Ok front" "str_from line start = Ok tail"
            "redact_paths_from line (max (find_end ends_path tail start) (start + 1)) = Ok later"
            "out = front @ ''[redacted-path]'' @ later"
          using 1(4) True rest \<open>str_find _ rest = _\<close> found Some
          by (subst (asm) redact_paths_from.simps) (auto simp: and_then_Ok_iff Let_def)
        have "utf8_valid later" using 1(2) [OF True rest \<open>str_find _ rest = _\<close> refl found Some *(1,2) refl 1(3) *(3)] .
        then show ?thesis
          unfolding *(4) by (intro utf8_append utf8_marks(1) utf8_slice [OF 1(3) *(1)])
      qed
    qed
  qed (use 1(4) utf8_marks in \<open>subst (asm) redact_paths_from.simps, simp\<close>)
qed

lemma redact_line_safe:
  assumes "utf8_valid line" "redact_line line = Ok out"
  shows "utf8_valid out \<and> no_secret (chars out)"
proof -
  obtain u p where *: "redact_url_userinfo line = Ok u" "redact_embedded_paths u = Ok p" "redact_embedded_tokens p = Ok out"
    using assms(2) by (auto simp: redact_line_def and_then_Ok_iff)
  have "utf8_valid u" using *(1) redact_url_valid [OF assms(1)] by (simp add: redact_url_userinfo_def)
  then have "utf8_valid p" using *(2) redact_paths_valid by (simp add: redact_embedded_paths_def)
  then show ?thesis using tokens_redacted [of p] *(3) by (metis sum.inject(2))
qed

section \<open>Lines\<close>

lemma utf8_cut:
  assumes "utf8_valid (a @ c # b)" "byte c < 0x80"
  shows "utf8_valid a" "utf8_valid b"
proof -
  have "is_char_boundary (a @ c # b) (length a)" using assms(2) by (simp add: is_char_boundary_def continuation_def)
  from utf8_pieces [OF assms(1) this] have "utf8_valid a" "utf8_valid (c # b)" by simp_all
  moreover have "char_width c = 1" using assms(2) by (simp add: char_width_def)
  ultimately show "utf8_valid a" "utf8_valid b" unfolding utf8_valid_def chars.simps by simp_all
qed

lemma split_inclusive_valid:
  "utf8_valid (acc @ s) \<Longrightarrow> p \<in> set (split_inclusive acc s) \<Longrightarrow> utf8_valid p"
proof (induction acc s rule: split_inclusive.induct)
  case (2 acc c cs)
  show ?case
  proof (cases "byte c = 10")
    case True
    then have "utf8_valid acc" "utf8_valid cs" using utf8_cut [OF 2(3)] by simp_all
    moreover have "utf8_valid [c]" using True by (intro utf8_ascii) simp
    ultimately show ?thesis using 2 True by (auto intro: utf8_append)
  qed (use 2 in auto)
qed (auto split: if_splits)

lemma strip_last_valid:
  assumes "utf8_valid s" "b < 0x80" "strip_last b s = Some r"
  shows "utf8_valid r"
proof -
  have "s = r @ [last s]" "byte (last s) = b" using assms(3) by (auto simp: strip_last_def split: if_splits)
  then show ?thesis using utf8_cut(1) [of r "last s" "[]"] assms(1,2) by simp
qed

lemma line_content_valid:
  assumes "utf8_valid l"
  shows "utf8_valid (line_content l)"
proof (cases "strip_last 10 l")
  case (Some l')
  then have "utf8_valid l'" using strip_last_valid [OF assms, of 10] by simp
  then show ?thesis using Some strip_last_valid [of l' 13] by (simp add: line_content_def split: option.split)
qed (use assms in \<open>simp add: line_content_def\<close>)

lemma str_lines_valid: "utf8_valid s \<Longrightarrow> l \<in> set (str_lines s) \<Longrightarrow> utf8_valid l"
  using split_inclusive_valid [of "[]" s] by (auto simp: str_lines_def intro: line_content_valid)

lemma sanitized_valid: "utf8_valid s \<Longrightarrow> utf8_valid (filter (\<lambda>c. byte c \<noteq> 0) s)"
proof -
  have keep: "filter (\<lambda>c. byte c \<noteq> 0) c = c \<or> filter (\<lambda>c. byte c \<noteq> 0) c = []" if c: "scalar_ok c" for c
  proof (cases c)
    case (Cons a as)
    have high: "byte b \<noteq> 0" if "b \<in> set as" for b using scalar_rest [of a as b] c that Cons by (simp add: continuation_def)
    show ?thesis
    proof (cases as)
      case (Cons b bs)
      have "byte a \<noteq> 0" using scalar_width [of a as] c \<open>c = a # as\<close> Cons by (auto simp: char_width_def split: if_splits)
      then show ?thesis using high \<open>c = a # as\<close> by (simp add: filter_id_conv)
    qed (auto simp: Cons)
  qed simp
  have "\<exists>ds. filter (\<lambda>c. byte c \<noteq> 0) (concat cs) = concat ds \<and> list_all scalar_ok ds" if "list_all scalar_ok cs" for cs
    using that
  proof (induction cs)
    case (Cons c cs)
    then obtain ds where ds: "filter (\<lambda>c. byte c \<noteq> 0) (concat cs) = concat ds" "list_all scalar_ok ds" by auto
    show ?case using keep [of c] Cons.prems ds by (metis concat.simps(2) filter_append list.pred_inject(2) self_append_conv2 concat.simps(2))
  qed (intro exI [of _ "[]"], simp)
  then show "utf8_valid s \<Longrightarrow> ?thesis" using utf8_concat [of _] concat_chars [of s] unfolding utf8_valid_def by metis
qed

lemma harmless_line: "utf8_valid REDACTED_LINE \<and> no_secret (chars REDACTED_LINE)"
proof -
  have "list_all (\<lambda>t. \<not> looks_like_secret_token t) (token_runs [] (chars REDACTED_LINE))" by code_simp
  then show ?thesis using utf8_marks by (simp add: no_secret_def list_all_iff)
qed

lemma redact_lines_safe:
  "\<forall>l\<in>set ls. utf8_valid l \<Longrightarrow> redact_lines k ls = Ok out \<Longrightarrow> \<forall>l\<in>set out. utf8_valid l \<and> no_secret (chars l)"
proof (induction k ls arbitrary: out rule: redact_lines.induct)
  case (2 k line ls)
  obtain l rest k' where o': "out = l # rest" "redact_lines k' ls = Ok rest" "l = REDACTED_LINE \<or> redact_line line = Ok l"
    and ih: "\<forall>l\<in>set rest. utf8_valid l \<and> no_secret (chars l)"
    using 2 by (auto simp: Let_def and_then_Ok_iff split: if_splits)
  then show ?case using harmless_line redact_line_safe [of line l] 2(4) by auto
qed simp

lemma join_safe:
  "\<forall>l\<in>set ls. utf8_valid l \<and> no_secret (chars l) \<Longrightarrow> utf8_valid (join_lines ls) \<and> no_secret (chars (join_lines ls))"
proof (induction ls rule: join_lines.induct)
  case (3 l l' ls)
  let ?rest = "join_lines (l' # ls)" and ?n = "char_of (10::nat) :: char"
  have n: "\<not> token_char [?n]" "char_width ?n = 1" "utf8_valid [?n]" by code_simp+
  have "utf8_valid l" "no_secret (chars l)" "utf8_valid ?rest" "no_secret (chars ?rest)" using 3 by simp_all
  moreover have "chars (l @ ?n # ?rest) = chars l @ [?n] # chars ?rest"
    using n(2) chars_append [OF \<open>utf8_valid l\<close>, of "?n # ?rest"] by (simp only: chars.simps) simp
  moreover have "utf8_valid (l @ [?n] @ ?rest)" using calculation n(3) by (intro utf8_append)
  ultimately show ?case using token_runs_gap [OF n(1), of "[]" "chars l" "chars ?rest"] by (auto simp: no_secret_def)
qed (simp_all add: utf8_marks no_secret_def)

lemma whitespace_plain: "is_whitespace c \<Longrightarrow> \<not> token_char c"
proof
  assume "is_whitespace c" "token_char c"
  then obtain b where "c = [b]" "is_token_character (byte b)" "ascii_space (byte b)"
    by (auto simp: token_char_def ascii_char_def is_whitespace_def code_units_def byte_def split: list.splits)
  then show False by (auto simp: is_token_character_def ascii_space_def is_alphanumeric_def is_alphabetic_def is_digit_def)
qed

lemma no_secret_drop: "no_secret cs \<Longrightarrow> no_secret (dropWhile is_whitespace cs)"
  by (induction cs) (auto simp: no_secret_def whitespace_plain)

lemma no_secret_drop_back: "no_secret cs \<Longrightarrow> no_secret (rev (dropWhile is_whitespace (rev cs)))"
  by (induction cs rule: rev_induct) (auto simp: no_secret_def whitespace_plain token_runs_skip)

lemma redaction_safe:
  assumes "utf8_valid s" "redact_sensitive_text s = Ok out"
  shows "utf8_valid out \<and> (\<forall>t\<in>set (tokens_of out). \<not> looks_like_secret_token t)"
proof -
  let ?s = "filter (\<lambda>c. byte c \<noteq> 0) s"
  obtain ls where ls: "redact_lines False (str_lines ?s) = Ok ls" "out = str_trim (join_lines ls)"
    using assms(2) by (auto simp: redact_sensitive_text_def Let_def and_then_Ok_iff)
  have "\<forall>l\<in>set (str_lines ?s). utf8_valid l" using str_lines_valid [OF sanitized_valid [OF assms(1)]] by blast
  from join_safe [OF redact_lines_safe [OF this ls(1)]]
  have j: "list_all scalar_ok (chars (join_lines ls))" "no_secret (chars (join_lines ls))" by (simp_all add: utf8_valid_def)
  define ds where "ds = rev (dropWhile is_whitespace (rev (dropWhile is_whitespace (chars (join_lines ls)))))"
  have ds: "list_all scalar_ok ds" "no_secret ds"
    using j by (auto simp: ds_def list_all_iff dest!: set_dropWhileD intro!: no_secret_drop no_secret_drop_back)
  moreover have "out = concat ds" by (simp add: ls(2) str_trim_def ds_def)
  ultimately show ?thesis by (simp add: utf8_concat tokens_of_def chars_of_concat no_secret_def)
qed

text \<open>C37: No secret token leaves the redaction: whatever text a rollout line holds, if its redaction
  returns, no maximal run of token characters of the result looks like a credential (a known
  key prefix, a JSON web token, or a long mix of letters and digits).\<close>

theorem redaction_leaves_no_secret:
  assumes "utf8_valid s" "redact_sensitive_text s = Ok out"
  shows "utf8_valid out \<and> (\<forall>t\<in>set (tokens_of out). \<not> looks_like_secret_token t)"
  by (rule redaction_safe [OF assms])

section \<open>A URL behind a wide character\<close>

lemma ascii_singles: "list_all (\<lambda>b. byte b < 0x80) w \<Longrightarrow> list_all scalar_ok (single_chars w)"
  by (simp add: single_chars_def list_all_iff)

lemma rfind_in_append: "rfind_in p (us @ vs) i b = rfind_in p vs (i + length (concat us)) (rfind_in p us i b)"
  by (induction us arbitrary: i b) (simp_all add: add.assoc)

lemma rfind_in_none: "list_all (\<lambda>c. \<not> p c) cs \<Longrightarrow> rfind_in p cs i b = b"
  by (induction cs arbitrary: i) auto

lemma char_in_valid: "list_all scalar_ok cs \<Longrightarrow> c \<in> set cs \<Longrightarrow> char_in S c \<Longrightarrow> \<exists>b\<in>set (concat cs). b \<in> set S"
  by (auto simp: char_in_def split: list.splits intro!: bexI [of _ c])

text \<open>C38: A URL directly behind a character of more than one byte stops the observer: whenever a line
  holds such a character, then only ASCII letters and digits up to the colon of a URL scheme,
  and no slash, tilde or colon in front of it, the redaction of paths slices the line inside
  that character and panics.\<close>

theorem url_behind_wide_character_panics:
  assumes "utf8_valid pre" "scalar_ok c" "1 < length c" "list_all (\<lambda>b. is_alphanumeric (byte b)) word"
    "list_all (\<lambda>b. b \<notin> set ''/~:'') pre"
  shows "redact_embedded_paths (pre @ c @ word @ ''://'' @ rest) = Err ObserverPanic"
proof -
  let ?line = "pre @ c @ word @ ''://'' @ rest" and ?i = "length pre + length c + length word"
  have w: "list_all (\<lambda>b. byte b < 0x80) word"
    using assms(4) by (auto simp: list_all_iff is_alphanumeric_def is_alphabetic_def is_digit_def)
  define us where "us = chars pre @ c # single_chars word"
  have us: "list_all scalar_ok us" "concat us = pre @ c @ word"
    using assms(1,2) ascii_singles [OF w] by (simp_all add: us_def utf8_valid_def)
  have line: "?line = concat us @ ''://'' @ rest" by (simp add: us(2))
  have cs: "chars ?line = us @ '':'' # chars (''//'' @ rest)"
  proof -
    have "char_width (CHR '':'') = 1" by code_simp
    then have "chars (CHR '':'' # ''//'' @ rest) = '':'' # chars (''//'' @ rest)" unfolding chars.simps(2) by simp
    then show ?thesis unfolding line using chars_concat [OF us(1), of "''://'' @ rest"] by simp
  qed
  have none: "\<not> char_in ''/~:'' u" if u: "u \<in> set us" for u
  proof -
    have "\<not> char_in ''/~:'' u" if "u \<in> set (chars pre)"
      using char_in_valid [of "chars pre" u "''/~:''"] assms(1,5) that by (auto simp: utf8_valid_def list_all_iff)
    moreover have "\<not> char_in ''/~:'' c" using assms(3) by (auto simp: char_in_def split: list.splits)
    moreover have "b \<notin> set ''/~:''" if "b \<in> set word" for b
    proof
      assume "b \<in> set ''/~:''"
      then have "\<not> is_alphanumeric (byte b)" by (auto simp: is_alphanumeric_def is_alphabetic_def is_digit_def byte_def)
      then show False using assms(4) that by (auto simp: list_all_iff)
    qed
    ultimately show ?thesis using u by (auto simp: us_def single_chars_def char_in_def)
  qed
  have found: "str_find (char_in ''/~:'') ?line = Some ?i"
  proof -
    have "takeWhile (\<lambda>c. \<not> char_in ''/~:'' c) (chars ?line) = us"
      using none unfolding cs by (simp add: takeWhile_append char_in_def)
    moreover have "\<exists>u\<in>set (chars ?line). char_in ''/~:'' u" unfolding cs by (simp add: char_in_def)
    ultimately show ?thesis unfolding str_find_def find_in_take using us(2) by simp
  qed
  have n: "?line ! ?i = CHR '':''" by (simp add: nth_append)
  have "\<not> continuation (CHR '':'')" by code_simp
  then have b: "is_char_boundary ?line ?i" unfolding is_char_boundary_def n by simp
  have "scheme_start_of (pre @ c @ word) = length pre + 1"
  proof -
    have alnum: "list_all (\<lambda>u. \<not> \<not> ascii_char is_alphanumeric u) (single_chars word)"
      using assms(4) w by (auto simp: single_chars_def list_all_iff ascii_char_def)
    have "\<not> ascii_char is_alphanumeric c" using assms(3) by (auto simp: ascii_char_def split: list.splits)
    then have "rfind_in (\<lambda>u. \<not> ascii_char is_alphanumeric u) us 0 None = Some (length pre)"
      unfolding us_def by (simp add: rfind_in_append rfind_in_none [OF alnum])
    moreover have "chars (pre @ c @ word) = us" using chars_of_concat [OF us(1)] us(2) by simp
    ultimately show ?thesis by (simp add: scheme_start_of_def str_rfind_def)
  qed
  moreover have "str_slice ?line (length pre + 1) ?i = Err ObserverPanic"
  proof -
    obtain a a' as where c: "c = a # a' # as" using assms(3) by (cases c rule: remdups_adj.cases) auto
    have "continuation (?line ! (length pre + 1))" using scalar_rest [of a "a' # as" a'] assms(2) c by (simp add: nth_append)
    then have "\<not> is_char_boundary ?line (length pre + 1)" using c by (simp add: is_char_boundary_def)
    then show ?thesis by (simp add: str_slice_def)
  qed
  moreover have "str_from ?line ?i = Ok (''://'' @ rest)" "str_to ?line ?i = Ok (pre @ c @ word)"
    using b by (simp_all add: str_slice_def is_char_boundary_def)
  ultimately have panic: "local_path_start ?line ?i = Err ObserverPanic" by (simp add: local_path_start_def)
  have "str_from ?line 0 = Ok ?line" by (simp add: str_slice_def is_char_boundary_def)
  then show ?thesis
    unfolding redact_embedded_paths_def using found panic by (subst redact_paths_from.simps) (simp add: Let_def)
qed

text \<open>A sentence that ends with a link, with no blank before the link (the character is U+89C1).\<close>

definition wide_link :: string where
  "wide_link = map char_of [0xE8, 0xA7, 0x81 :: nat] @ ''https://x''"

theorem url_behind_wide_character_panics_witness:
  "redact_embedded_paths wide_link = Err ObserverPanic \<and> redact_sensitive_text wide_link = Err ObserverPanic"
proof -
  let ?c = "map char_of [0xE8, 0xA7, 0x81 :: nat] :: string"
  have "utf8_valid []" "scalar_ok ?c" "1 < length ?c" "list_all (\<lambda>b. is_alphanumeric (byte b)) ''https''"
    "list_all (\<lambda>b. b \<notin> set ''/~:'') []" by code_simp+
  from url_behind_wide_character_panics [OF this, of "''x''"]
  have p: "redact_embedded_paths wide_link = Err ObserverPanic" by (simp add: wide_link_def)
  have "str_lines (filter (\<lambda>c. byte c \<noteq> 0) wide_link) = [wide_link]" "redact_url_userinfo wide_link = Ok wide_link"
    "redact_lines False [wide_link] = and_then (redact_line wide_link) (\<lambda>l. Ok [l])" by code_simp+
  with p show ?thesis by (simp add: redact_sensitive_text_def redact_line_def)
qed

lemma compact_text_bounded_witness:
  "\<exists>r. compact_text wide_link 5 = Ok r \<and> length r \<le> 5"
proof -
  have "utf8_valid wide_link" by code_simp
  from compact_text_bounded [OF this, of 5] show ?thesis by blast
qed

definition leaked_key :: string where
  "leaked_key = ''use sk-12345678 now''"

theorem redaction_leaves_no_secret_witness:
  "redact_sensitive_text leaked_key = Ok ''use [redacted-token] now'' \<and>
   list_all (\<lambda>t. \<not> looks_like_secret_token t) (tokens_of ''use [redacted-token] now'')"
proof -
  have "utf8_valid leaked_key" "redact_sensitive_text leaked_key = Ok ''use [redacted-token] now''" by code_simp+
  with redaction_leaves_no_secret [OF this] show ?thesis by (simp add: list_all_iff)
qed

end
