(* ===== verification/Rollout_Turns.thy ===== *)
theory Rollout_Turns
  imports Rollout_Text
begin

text \<open>
  The records of a rollout file and the turn builder (rollout_observer.rs): what one JSON record
  does to the turn in progress, and the bounded turn pack of a completed turn.
\<close>

section \<open>JSON values\<close>

text \<open>\<open>serde_json::Value\<close>; a number keeps its text, an object its entries with distinct keys.\<close>

datatype json =
    JNull | JBool bool | JNumber string | JString string | JArray "json list" | JObject "(string \<times> json) list"

fun as_str :: "json \<Rightarrow> string option" where
  "as_str (JString s) = Some s"
| "as_str _ = None"

fun as_array :: "json \<Rightarrow> json list option" where
  "as_array (JArray vs) = Some vs"
| "as_array _ = None"

fun as_object :: "json \<Rightarrow> (string \<times> json) list option" where
  "as_object (JObject kvs) = Some kvs"
| "as_object _ = None"

definition get_str :: "(string \<times> json) list \<Rightarrow> string \<Rightarrow> string option" where
  "get_str obj k = Option.bind (map_of obj k) as_str"

definition get_object :: "(string \<times> json) list \<Rightarrow> string \<Rightarrow> (string \<times> json) list option" where
  "get_object obj k = Option.bind (map_of obj k) as_object"

section \<open>The turn builder\<close>

definition MAX_TEXT_BYTES :: nat where "MAX_TEXT_BYTES = 12 * 1024"
definition MAX_TEXT_BYTES_PER_ROLE :: nat where "MAX_TEXT_BYTES_PER_ROLE = 22 * 1024"
definition MAX_RAW_MESSAGES_PER_ROLE :: nat where "MAX_RAW_MESSAGES_PER_ROLE = 32"
definition MAX_MESSAGES_PER_ROLE :: nat where "MAX_MESSAGES_PER_ROLE = 8"
definition MAX_TOOLS :: nat where "MAX_TOOLS = 64"
definition MAX_TOOL_NAME_BYTES :: nat where "MAX_TOOL_NAME_BYTES = 128"
definition MAX_TOOL_STATUS_BYTES :: nat where "MAX_TOOL_STATUS_BYTES = 64"
definition MAX_SERIALIZED_TURN_PACK_BYTES :: nat where "MAX_SERIALIZED_TURN_PACK_BYTES = 64 * 1024"

lemmas turn_consts = MAX_TEXT_BYTES_def MAX_TEXT_BYTES_PER_ROLE_def MAX_RAW_MESSAGES_PER_ROLE_def MAX_MESSAGES_PER_ROLE_def
  MAX_TOOLS_def MAX_TOOL_NAME_BYTES_def MAX_TOOL_STATUS_BYTES_def MAX_SERIALIZED_TURN_PACK_BYTES_def

record tool_fact =
  tf_name :: string
  tf_status :: string

record turn_pack =
  tp_v :: nat
  tp_turn_id :: string
  tp_user :: "string list"
  tp_assistant :: "string list"
  tp_tools :: "tool_fact list"

record turn_builder =
  tb_turn_id :: string
  tb_user :: "string list"
  tb_assistant :: "string list"
  tb_tools :: "tool_fact list"
  tb_tool_calls :: "string \<Rightarrow> nat option"

text \<open>\<open>serde_json::from_slice\<close> and \<open>serde_json::to_string\<close>.\<close>

record rollout_lib =
  rl_parse :: "string \<Rightarrow> json option"
  rl_print :: "turn_pack \<Rightarrow> string option"

definition new_turn :: "string \<Rightarrow> turn_builder" where
  "new_turn turn_id = \<lparr> tb_turn_id = turn_id, tb_user = [], tb_assistant = [], tb_tools = [], tb_tool_calls = (\<lambda>_. None) \<rparr>"

text \<open>A message behind the oldest ones when the list is full.\<close>

definition push_bounded :: "string list \<Rightarrow> string \<Rightarrow> string list" where
  "push_bounded messages m = (if MAX_RAW_MESSAGES_PER_ROLE \<le> length messages then drop 1 messages else messages) @ [m]"

definition push_message :: "string \<Rightarrow> string \<Rightarrow> turn_builder \<Rightarrow> observer_error + turn_builder" where
  "push_message role content b =
     and_then (redact_sensitive_text content) (\<lambda>content.
     if content = [] then Ok b
     else and_then (compact_text content MAX_TEXT_BYTES) (\<lambda>m.
       Ok (if role = ''user'' then b\<lparr>tb_user := push_bounded (tb_user b) m\<rparr>
           else b\<lparr>tb_assistant := push_bounded (tb_assistant b) m\<rparr>)))"

definition response_turn_id :: "(string \<times> json) list \<Rightarrow> string option" where
  "response_turn_id payload =
     (case get_str payload ''turn_id'' of
        Some t \<Rightarrow> Some t
      | None \<Rightarrow>
          (case Option.bind (get_object payload ''internal_chat_message_metadata_passthrough'') (\<lambda>m. get_str m ''turn_id'') of
             Some t \<Rightarrow> Some t
           | None \<Rightarrow> Option.bind (get_object payload ''metadata'') (\<lambda>m. get_str m ''turn_id'')))"

fun push_parts :: "string \<Rightarrow> json list \<Rightarrow> turn_builder \<Rightarrow> observer_error + turn_builder" where
  "push_parts role [] b = Ok b"
| "push_parts role (part # parts) b =
     (case as_object part of
        None \<Rightarrow> Err InvalidRollout
      | Some part \<Rightarrow>
          and_then (if get_str part ''type'' \<in> {Some ''input_text'', Some ''output_text''}
                    then (case get_str part ''text'' of Some content \<Rightarrow> push_message role content b | None \<Rightarrow> Ok b)
                    else Ok b)
            (\<lambda>b. push_parts role parts b))"

text \<open>The oldest tool goes; the indices of the remaining calls move down.\<close>

definition drop_oldest_tool :: "turn_builder \<Rightarrow> turn_builder" where
  "drop_oldest_tool b =
     b\<lparr>tb_tools := drop 1 (tb_tools b),
       tb_tool_calls := (\<lambda>k. case tb_tool_calls b k of Some (Suc i) \<Rightarrow> Some i | _ \<Rightarrow> None)\<rparr>"

definition valid_call_id :: "string \<Rightarrow> bool" where
  "valid_call_id i \<longleftrightarrow> i \<noteq> [] \<and> length i \<le> MAX_TOOL_NAME_BYTES \<and> \<not> list_ex is_ascii_control i"

definition observe_tool_call :: "(string \<times> json) list \<Rightarrow> turn_builder \<Rightarrow> observer_error + turn_builder" where
  "observe_tool_call object b =
     and_then (ok_or InvalidRollout (get_str object ''name'')) (\<lambda>name.
     let status = (case get_str object ''status'' of Some s \<Rightarrow> s | None \<Rightarrow> ''requested'') in
     if name = [] then Ok b
     else
       let b = (if MAX_TOOLS \<le> length (tb_tools b) then drop_oldest_tool b else b); index = length (tb_tools b) in
       and_then (redact_sensitive_text name) (\<lambda>name.
       and_then (redact_sensitive_text status) (\<lambda>status.
       and_then (compact_text name MAX_TOOL_NAME_BYTES) (\<lambda>name.
       and_then (compact_text status MAX_TOOL_STATUS_BYTES) (\<lambda>status.
         Ok (b\<lparr>tb_tools := tb_tools b @ [\<lparr> tf_name = name, tf_status = status \<rparr>],
               tb_tool_calls := (case get_str object ''call_id'' of
                  Some i \<Rightarrow> if valid_call_id i then (tb_tool_calls b)(i \<mapsto> index) else tb_tool_calls b
                | None \<Rightarrow> tb_tool_calls b)\<rparr>))))))"

definition observe_tool_output :: "(string \<times> json) list \<Rightarrow> turn_builder \<Rightarrow> observer_error + turn_builder" where
  "observe_tool_output object b =
     (case Option.bind (get_str object ''call_id'') (tb_tool_calls b) of
        None \<Rightarrow> Ok b
      | Some index \<Rightarrow>
          if index < length (tb_tools b)
          then Ok (b\<lparr>tb_tools := (tb_tools b)[index := (tb_tools b ! index)\<lparr>tf_status := ''completed''\<rparr>]\<rparr>)
          else Err ObserverPanic)"

definition observe_response_item :: "json \<Rightarrow> turn_builder \<Rightarrow> observer_error + turn_builder" where
  "observe_response_item payload b =
     (case as_object payload of
        None \<Rightarrow> Err InvalidRollout
      | Some object \<Rightarrow>
          if response_turn_id object \<notin> {None, Some (tb_turn_id b)} then Ok b
          else (case get_str object ''type'' of
             None \<Rightarrow> Ok b
           | Some t \<Rightarrow>
               if t = ''message'' then
                 (case get_str object ''role'' of
                    None \<Rightarrow> Err InvalidRollout
                  | Some role \<Rightarrow>
                      if role \<noteq> ''user'' \<and> role \<noteq> ''assistant'' then Ok b
                      else (case Option.bind (map_of object ''content'') as_array of
                          None \<Rightarrow> Err InvalidRollout
                        | Some content \<Rightarrow> push_parts role content b))
               else if t \<in> {''function_call'', ''custom_tool_call''} then observe_tool_call object b
               else if t \<in> {''function_call_output'', ''custom_tool_call_output''} then observe_tool_output object b
               else Ok b))"

fun compact_loop :: "nat \<Rightarrow> string list \<Rightarrow> observer_error + string list" where
  "compact_loop remaining [] = Ok []"
| "compact_loop remaining (m # ms) =
     (if remaining = 0 then Ok []
      else and_then (compact_text m (min remaining MAX_TEXT_BYTES)) (\<lambda>m.
           and_then (compact_loop (remaining - length m) ms) (\<lambda>rest. Ok (m # rest))))"

definition compact_messages :: "string list \<Rightarrow> observer_error + string list" where
  "compact_messages messages =
     and_then (compact_loop MAX_TEXT_BYTES_PER_ROLE (take MAX_MESSAGES_PER_ROLE (rev messages))) (\<lambda>c. Ok (rev c))"

definition finish_turn :: "externals \<Rightarrow> turn_builder \<Rightarrow> observer_error + turn_pack" where
  "finish_turn x b =
     (if \<not> uuid_ok x (tb_turn_id b) then Err InvalidRollout
      else and_then (compact_messages (tb_user b)) (\<lambda>user.
           and_then (compact_messages (tb_assistant b)) (\<lambda>assistant.
             Ok \<lparr> tp_v = 1, tp_turn_id = tb_turn_id b, tp_user = user, tp_assistant = assistant, tp_tools = tb_tools b \<rparr>)))"

definition required_turn_id :: "externals \<Rightarrow> (string \<times> json) list \<Rightarrow> observer_error + string" where
  "required_turn_id x payload =
     and_then (ok_or InvalidRollout (get_str payload ''turn_id'')) (\<lambda>t.
       if uuid_ok x t then Ok t else Err InvalidRollout)"

section \<open>One record of a rollout\<close>

definition complete_turn ::
  "externals \<Rightarrow> rollout_lib \<Rightarrow> (string \<times> json) list \<Rightarrow> turn_builder option \<Rightarrow>
   observer_error + (string \<times> string) option \<times> turn_builder option" where
  "complete_turn x lib payload active =
     and_then (required_turn_id x payload) (\<lambda>turn_id.
     and_then (ok_or InvalidRollout active) (\<lambda>b.
     if tb_turn_id b \<noteq> turn_id then Err InvalidRollout
     else (case get_str payload ''last_agent_message'' of
         None \<Rightarrow> Ok (None, None)
       | Some final \<Rightarrow>
           if final = [] then Ok (None, None)
           else and_then (push_message ''assistant'' final (b\<lparr>tb_assistant := []\<rparr>)) (\<lambda>b.
                and_then (finish_turn x b) (\<lambda>pack.
                and_then (ok_or InvalidRollout (rl_print lib pack)) (\<lambda>serialized.
                  if MAX_SERIALIZED_TURN_PACK_BYTES < length serialized then Err TurnPackTooLarge
                  else Ok (Some (turn_id, serialized), None)))))))"

definition apply_rollout_value ::
  "externals \<Rightarrow> rollout_lib \<Rightarrow> json \<Rightarrow> turn_builder option \<Rightarrow>
   observer_error + (string \<times> string) option \<times> turn_builder option" where
  "apply_rollout_value x lib v active =
     and_then (ok_or InvalidRollout (as_object v)) (\<lambda>object.
     case get_str object ''type'' of
       None \<Rightarrow> Ok (None, active)
     | Some t \<Rightarrow>
         if t = ''event_msg'' then
           and_then (ok_or InvalidRollout (get_object object ''payload'')) (\<lambda>payload.
             if get_str payload ''type'' = Some ''task_started''
             then and_then (required_turn_id x payload) (\<lambda>turn_id. Ok (None, Some (new_turn turn_id)))
             else if get_str payload ''type'' = Some ''task_complete'' then complete_turn x lib payload active
             else Ok (None, active))
         else if t = ''response_item'' then
           (case active of
              None \<Rightarrow> Ok (None, None)
            | Some b \<Rightarrow> and_then (ok_or InvalidRollout (map_of object ''payload'')) (\<lambda>payload.
                and_then (observe_response_item payload b) (\<lambda>b. Ok (None, Some b))))
         else Ok (None, active))"

section \<open>What a turn builder holds\<close>

fun json_texts :: "json \<Rightarrow> string list" where
  "json_texts (JString s) = [s]"
| "json_texts (JArray vs) = concat (map json_texts vs)"
| "json_texts (JObject kvs) = concat (map (\<lambda>kv. json_texts (snd kv)) kvs)"
| "json_texts _ = []"

definition json_valid :: "json \<Rightarrow> bool" where
  "json_valid v \<longleftrightarrow> list_all utf8_valid (json_texts v)"

definition texts_of :: "(string \<times> json) list \<Rightarrow> string set" where
  "texts_of obj = (\<Union>kv\<in>set obj. set (json_texts (snd kv)))"

definition messages_ok :: "nat \<Rightarrow> string list \<Rightarrow> bool" where
  "messages_ok n ms \<longleftrightarrow> length ms \<le> n \<and> list_all (\<lambda>m. utf8_valid m \<and> length m \<le> MAX_TEXT_BYTES) ms"

definition fact_ok :: "tool_fact \<Rightarrow> bool" where
  "fact_ok f \<longleftrightarrow> length (tf_name f) \<le> MAX_TOOL_NAME_BYTES \<and> length (tf_status f) \<le> MAX_TOOL_STATUS_BYTES"

definition turn_ok :: "turn_builder \<Rightarrow> bool" where
  "turn_ok b \<longleftrightarrow>
     messages_ok MAX_RAW_MESSAGES_PER_ROLE (tb_user b) \<and> messages_ok MAX_RAW_MESSAGES_PER_ROLE (tb_assistant b) \<and>
     length (tb_tools b) \<le> MAX_TOOLS \<and> list_all fact_ok (tb_tools b) \<and>
     (\<forall>k i. tb_tool_calls b k = Some i \<longrightarrow> i < length (tb_tools b))"

lemma texts_get:
  "map_of obj k = Some v \<Longrightarrow> set (json_texts v) \<subseteq> texts_of obj"
  "get_str obj k = Some s \<Longrightarrow> s \<in> texts_of obj"
proof -
  show *: "set (json_texts v) \<subseteq> texts_of obj" if "map_of obj k = Some v" for v
    using map_of_SomeD [OF that] by (auto simp: texts_of_def)
  show "get_str obj k = Some s \<Longrightarrow> s \<in> texts_of obj"
    using * by (auto simp: get_str_def bind_eq_Some_conv elim!: as_str.elims)
qed

lemma as_object_texts: "as_object v = Some obj \<Longrightarrow> texts_of obj = set (json_texts v)"
  by (cases v) (auto simp: texts_of_def)

lemma as_array_texts: "as_array v = Some vs \<Longrightarrow> u \<in> set vs \<Longrightarrow> set (json_texts u) \<subseteq> set (json_texts v)"
  by (cases v) auto

definition panics_on :: "string set \<Rightarrow> bool" where
  "panics_on T \<longleftrightarrow> (\<exists>t\<in>T. redact_sensitive_text t = Err ObserverPanic)"

lemma panics_mono: "panics_on S \<Longrightarrow> S \<subseteq> T \<Longrightarrow> panics_on T"
  by (auto simp: panics_on_def)

lemma compact_ok: "utf8_valid s \<Longrightarrow> \<exists>r. compact_text s n = Ok r \<and> utf8_valid r \<and> length r \<le> n"
  using compact_bounded [of s n] by blast

lemma push_bounded_ok:
  "messages_ok MAX_RAW_MESSAGES_PER_ROLE ms \<Longrightarrow> utf8_valid m \<Longrightarrow> length m \<le> MAX_TEXT_BYTES \<Longrightarrow>
   messages_ok MAX_RAW_MESSAGES_PER_ROLE (push_bounded ms m)"
  by (auto simp: messages_ok_def push_bounded_def turn_consts list_all_iff dest: in_set_dropD)

text \<open>What an operation on the builder may do: keep it well-formed and its turn, or fail; a panic comes
  from the redaction of one of the given texts.\<close>

definition keeps_turn :: "string set \<Rightarrow> turn_builder \<Rightarrow> observer_error + turn_builder \<Rightarrow> bool" where
  "keeps_turn T b r \<longleftrightarrow>
     (case r of Inr b' \<Rightarrow> turn_ok b' \<and> tb_turn_id b' = tb_turn_id b | Inl e \<Rightarrow> e = ObserverPanic \<longrightarrow> panics_on T)"

lemma push_message_keeps:
  assumes "turn_ok b" "utf8_valid content"
  shows "keeps_turn {content} b (push_message role content b)"
proof (cases "redact_sensitive_text content")
  case (Inr c)
  have v: "utf8_valid c" using redaction_safe [OF assms(2) Inr] by simp
  obtain m where "compact_text c MAX_TEXT_BYTES = Ok m" "utf8_valid m" "length m \<le> MAX_TEXT_BYTES"
    using compact_ok [OF v] by blast
  then show ?thesis
    using Inr assms(1) push_bounded_ok by (auto simp: push_message_def keeps_turn_def turn_ok_def)
qed (auto simp: push_message_def keeps_turn_def panics_on_def)

lemma keeps_turn_bind:
  assumes "keeps_turn S b r" "S \<subseteq> T" "\<And>b'. r = Ok b' \<Longrightarrow> turn_ok b' \<Longrightarrow> keeps_turn T b' (f b')"
  shows "keeps_turn T b (and_then r f)"
proof (cases r)
  case (Inl e)
  then show ?thesis using assms(1,2) panics_mono by (auto simp: keeps_turn_def)
next
  case (Inr b')
  then have "turn_ok b'" "tb_turn_id b' = tb_turn_id b" using assms(1) by (simp_all add: keeps_turn_def)
  then show ?thesis using assms(3) [OF Inr] Inr by (auto simp: keeps_turn_def split: sum.splits)
qed

lemma keeps_turn_mono: "keeps_turn S b r \<Longrightarrow> S \<subseteq> T \<Longrightarrow> keeps_turn T b r"
  using panics_mono by (auto simp: keeps_turn_def split: sum.splits)

lemma keeps_turn_same: "turn_ok b \<Longrightarrow> keeps_turn T b (Ok b)"
  by (simp add: keeps_turn_def)

lemma push_parts_keeps:
  "turn_ok b \<Longrightarrow> list_all json_valid parts \<Longrightarrow> keeps_turn (\<Union>p\<in>set parts. set (json_texts p)) b (push_parts role parts b)"
proof (induction role parts b rule: push_parts.induct)
  case (2 role part parts b)
  let ?T = "\<Union>p\<in>set (part # parts). set (json_texts p)"
  show ?case
  proof (cases "as_object part")
    case (Some obj)
    let ?r = "if get_str obj ''type'' \<in> {Some ''input_text'', Some ''output_text''}
      then (case get_str obj ''text'' of Some content \<Rightarrow> push_message role content b | None \<Rightarrow> Ok b) else Ok b"
    have "keeps_turn (set (json_texts part)) b ?r"
    proof (cases "get_str obj ''text''")
      case None
      then show ?thesis using 2(2) by (simp add: keeps_turn_same)
    next
      case (Some content)
      then have c: "content \<in> set (json_texts part)" using texts_get(2) [OF Some] as_object_texts [OF \<open>as_object part = _\<close>] by simp
      then have "utf8_valid content" using 2(3) by (auto simp: json_valid_def list_all_iff)
      then have "keeps_turn (set (json_texts part)) b (push_message role content b)"
        using keeps_turn_mono [OF push_message_keeps [OF 2(2)]] c by simp
      then show ?thesis using Some 2(2) by (simp add: keeps_turn_same)
    qed
    then have "keeps_turn ?T b (and_then ?r (push_parts role parts))"
    proof (rule keeps_turn_bind)
      show "set (json_texts part) \<subseteq> ?T" by auto
      fix b' assume r: "?r = Ok b'" and ok: "turn_ok b'"
      then have "keeps_turn (\<Union>p\<in>set parts. set (json_texts p)) b' (push_parts role parts b')"
        using 2(1) [OF Some r ok] 2(3) by simp
      then show "keeps_turn ?T b' (push_parts role parts b')" by (rule keeps_turn_mono) auto
    qed
    then show ?thesis using Some by simp
  qed (simp add: keeps_turn_def)
qed (simp add: keeps_turn_same)

lemma drop_oldest_ok: "turn_ok b \<Longrightarrow> turn_ok (drop_oldest_tool b)"
  by (fastforce simp: turn_ok_def drop_oldest_tool_def list_all_iff dest: in_set_dropD split: option.splits nat.splits)

lemma observe_tool_call_keeps:
  assumes "turn_ok b" "\<forall>t\<in>texts_of obj. utf8_valid t"
  shows "keeps_turn (texts_of obj) b (observe_tool_call obj b)"
proof (cases "get_str obj ''name''")
  case (Some name)
  define status where "status = (case get_str obj ''status'' of Some s \<Rightarrow> s | None \<Rightarrow> ''requested'')"
  have name: "name \<in> texts_of obj" using texts_get(2) [OF Some] .
  have requested: "redact_sensitive_text ''requested'' = Ok ''requested''" "utf8_valid ''requested''" by code_simp+
  have status: "status \<in> texts_of obj \<or> status = ''requested''"
    using texts_get(2) [of obj "''status''"] by (auto simp: status_def split: option.splits)
  show ?thesis
  proof (cases "name = []")
    case False
    define b1 where "b1 = (if MAX_TOOLS \<le> length (tb_tools b) then drop_oldest_tool b else b)"
    have b1: "turn_ok b1" "length (tb_tools b1) < MAX_TOOLS" "tb_turn_id b1 = tb_turn_id b"
      using assms(1) drop_oldest_ok [OF assms(1)] by (auto simp: b1_def turn_ok_def drop_oldest_tool_def turn_consts)
    show ?thesis
    proof (cases "redact_sensitive_text name")
      case (Inl e)
      then show ?thesis using Some False name by (auto simp: observe_tool_call_def keeps_turn_def Let_def panics_on_def)
    next
      case (Inr name')
      note n = Inr
      show ?thesis
      proof (cases "redact_sensitive_text status")
        case (Inl e)
        then show ?thesis using Some False n status requested
          by (auto simp: observe_tool_call_def keeps_turn_def Let_def panics_on_def status_def [symmetric])
      next
        case (Inr status')
        have "utf8_valid name'" "utf8_valid status'"
          using redaction_safe [OF _ n] redaction_safe [OF _ Inr] assms(2) name status requested(2) by auto
        then obtain m s where "compact_text name' MAX_TOOL_NAME_BYTES = Ok m" "length m \<le> MAX_TOOL_NAME_BYTES"
            "compact_text status' MAX_TOOL_STATUS_BYTES = Ok s" "length s \<le> MAX_TOOL_STATUS_BYTES"
          using compact_ok by meson
        then show ?thesis using Some False n Inr b1
          by (auto simp: observe_tool_call_def keeps_turn_def Let_def status_def [symmetric] b1_def [symmetric] turn_ok_def
              fact_ok_def less_Suc_eq split: option.splits if_splits)
      qed
    qed
  qed (use assms(1) Some in \<open>simp add: observe_tool_call_def keeps_turn_same\<close>)
qed (simp add: observe_tool_call_def keeps_turn_def)

lemma observe_tool_output_keeps: "turn_ok b \<Longrightarrow> keeps_turn T b (observe_tool_output obj b)"
  by (auto simp: observe_tool_output_def keeps_turn_def turn_ok_def fact_ok_def list_all_length nth_list_update
      MAX_TOOL_STATUS_BYTES_def bind_eq_Some_conv split: option.splits)

lemma observe_response_keeps:
  assumes "turn_ok b" "json_valid payload"
  shows "keeps_turn (set (json_texts payload)) b (observe_response_item payload b)"
proof (cases "as_object payload")
  case (Some obj)
  note T = as_object_texts [OF Some]
  have valid: "\<forall>t\<in>texts_of obj. utf8_valid t" using assms(2) T by (simp add: json_valid_def list_all_iff)
  have parts: "keeps_turn (set (json_texts payload)) b (push_parts role content b)"
    if "Option.bind (map_of obj ''content'') as_array = Some content" for role content
  proof -
    obtain v where v: "map_of obj ''content'' = Some v" "as_array v = Some content" using \<open>Option.bind _ _ = _\<close> by (auto simp: bind_eq_Some_conv)
    have sub: "(\<Union>p\<in>set content. set (json_texts p)) \<subseteq> set (json_texts payload)"
      using as_array_texts [OF v(2)] texts_get(1) [OF v(1)] T by blast
    then have "list_all json_valid content" using assms(2) by (auto simp: json_valid_def list_all_iff)
    then show ?thesis using keeps_turn_mono [OF push_parts_keeps [OF assms(1)] sub] by blast
  qed
  have tool: "keeps_turn (set (json_texts payload)) b (observe_tool_call obj b)"
    using observe_tool_call_keeps [OF assms(1) valid] T by simp
  show ?thesis
    using Some parts tool observe_tool_output_keeps [OF assms(1)] keeps_turn_same [OF assms(1)]
    by (auto simp: observe_response_item_def keeps_turn_def split: option.splits)
qed (simp add: observe_response_item_def keeps_turn_def)

lemma compact_loop_ok:
  "list_all utf8_valid ms \<Longrightarrow>
   \<exists>r. compact_loop n ms = Ok r \<and> length r \<le> length ms \<and> sum_list (map length r) \<le> n"
proof (induction n ms rule: compact_loop.induct)
  case (2 n m ms)
  show ?case
  proof (cases "n = 0")
    case False
    obtain m' where m': "compact_text m (min n MAX_TEXT_BYTES) = Ok m'" "length m' \<le> min n MAX_TEXT_BYTES"
      using compact_ok [of m "min n MAX_TEXT_BYTES"] 2(2) by auto
    obtain r where "compact_loop (n - length m') ms = Ok r" "length r \<le> length ms" "sum_list (map length r) \<le> n - length m'"
      using 2(1) [OF False m'(1)] 2(2) by auto
    then show ?thesis using False m' by auto
  qed simp
qed simp

lemma compact_messages_ok:
  assumes "messages_ok n ms"
  shows "\<exists>r. compact_messages ms = Ok r \<and> length r \<le> min n MAX_MESSAGES_PER_ROLE \<and> sum_list (map length r) \<le> MAX_TEXT_BYTES_PER_ROLE"
proof -
  have "list_all utf8_valid (take MAX_MESSAGES_PER_ROLE (rev ms))"
    using assms by (auto simp: messages_ok_def list_all_iff dest: in_set_takeD)
  from compact_loop_ok [OF this, of MAX_TEXT_BYTES_PER_ROLE] obtain r where
    "compact_loop MAX_TEXT_BYTES_PER_ROLE (take MAX_MESSAGES_PER_ROLE (rev ms)) = Ok r"
    "length r \<le> length (take MAX_MESSAGES_PER_ROLE (rev ms))" "sum_list (map length r) \<le> MAX_TEXT_BYTES_PER_ROLE" by blast
  then show ?thesis using assms by (auto simp: compact_messages_def messages_ok_def rev_map [symmetric] sum_list_rev)
qed

definition pack_ok :: "turn_pack \<Rightarrow> bool" where
  "pack_ok p \<longleftrightarrow>
     length (tp_user p) \<le> MAX_MESSAGES_PER_ROLE \<and> sum_list (map length (tp_user p)) \<le> MAX_TEXT_BYTES_PER_ROLE \<and>
     length (tp_assistant p) \<le> 1 \<and> sum_list (map length (tp_assistant p)) \<le> MAX_TEXT_BYTES_PER_ROLE \<and>
     length (tp_tools p) \<le> MAX_TOOLS \<and> list_all fact_ok (tp_tools p)"

lemma finish_turn_ok:
  assumes "turn_ok b" "length (tb_assistant b) \<le> 1" "finish_turn x b = Ok p"
  shows "pack_ok p \<and> tp_turn_id p = tb_turn_id b"
proof -
  have "messages_ok 1 (tb_assistant b)" using assms(1,2) by (simp add: turn_ok_def messages_ok_def)
  then show ?thesis
    using assms compact_messages_ok [of "MAX_RAW_MESSAGES_PER_ROLE" "tb_user b"] compact_messages_ok [of 1 "tb_assistant b"]
    by (auto simp: finish_turn_def and_then_Ok_iff turn_ok_def pack_ok_def split: if_splits)
qed

lemma finish_turn_no_panic: "turn_ok b \<Longrightarrow> finish_turn x b \<noteq> Err ObserverPanic"
  using compact_messages_ok [of "MAX_RAW_MESSAGES_PER_ROLE" "tb_user b"]
    compact_messages_ok [of "MAX_RAW_MESSAGES_PER_ROLE" "tb_assistant b"]
  by (auto simp: finish_turn_def turn_ok_def)

definition active_ok :: "turn_builder option \<Rightarrow> bool" where
  "active_ok active \<longleftrightarrow> (case active of None \<Rightarrow> True | Some b \<Rightarrow> turn_ok b)"

lemma push_one: "push_message ''assistant'' c b = Ok b' \<Longrightarrow> tb_assistant b = [] \<Longrightarrow> length (tb_assistant b') \<le> 1"
  by (auto simp: push_message_def and_then_Ok_iff push_bounded_def turn_consts split: if_splits)

lemma new_turn_ok: "turn_ok (new_turn t)"
  by (simp add: turn_ok_def new_turn_def messages_ok_def)

text \<open>The outcome of one record: well-formed state, and a completion only for the turn that is active.\<close>

definition record_outcome :: "rollout_lib \<Rightarrow> string set \<Rightarrow> turn_builder option \<Rightarrow>
    observer_error + (string \<times> string) option \<times> turn_builder option \<Rightarrow> bool" where
  "record_outcome lib T active r \<longleftrightarrow>
     (case r of
        Inl e \<Rightarrow> e = ObserverPanic \<longrightarrow> panics_on T
      | Inr (completion, active') \<Rightarrow> active_ok active' \<and>
          (\<forall>i s. completion = Some (i, s) \<longrightarrow> active' = None \<and> map_option tb_turn_id active = Some i \<and>
             length s \<le> MAX_SERIALIZED_TURN_PACK_BYTES \<and>
             (\<exists>p. rl_print lib p = Some s \<and> tp_turn_id p = i \<and> pack_ok p)))"

lemma complete_turn_outcome:
  assumes "active_ok active" "\<forall>t\<in>texts_of payload. utf8_valid t"
  shows "record_outcome lib (texts_of payload) active (complete_turn x lib payload active)"
proof (cases "required_turn_id x payload")
  case (Inl e)
  then have "e \<noteq> ObserverPanic"
    by (cases "get_str payload ''turn_id''") (auto simp: required_turn_id_def split: if_splits)
  then show ?thesis using Inl by (simp add: complete_turn_def record_outcome_def)
next
  case (Inr turn_id)
  note t = Inr
  show ?thesis
  proof (cases active)
    case None
    then show ?thesis using t by (simp add: complete_turn_def record_outcome_def)
  next
    case (Some b)
    show ?thesis
    proof (cases "tb_turn_id b = turn_id \<and> (\<exists>c. get_str payload ''last_agent_message'' = Some c \<and> c \<noteq> [])")
      case False
      then show ?thesis using t Some
        by (auto simp: complete_turn_def record_outcome_def active_ok_def split: option.splits)
    next
      case True
      then obtain c where c: "get_str payload ''last_agent_message'' = Some c" "c \<noteq> []" by blast
      let ?b = "b\<lparr>tb_assistant := []\<rparr>"
      have b: "turn_ok ?b" using assms(1) Some by (simp add: active_ok_def turn_ok_def messages_ok_def)
      have "c \<in> texts_of payload" using texts_get(2) [OF c(1)] .
      then have push: "keeps_turn (texts_of payload) ?b (push_message ''assistant'' c ?b)"
        using push_message_keeps [OF b] assms(2) keeps_turn_mono [of "{c}"] by simp
      show ?thesis
      proof (cases "push_message ''assistant'' c ?b")
        case (Inl e)
        then show ?thesis using t Some True c push by (auto simp: complete_turn_def record_outcome_def keeps_turn_def)
      next
        case (Inr b')
        then have b': "turn_ok b'" "tb_turn_id b' = turn_id" "length (tb_assistant b') \<le> 1"
          using push True push_one [OF Inr] by (simp_all add: keeps_turn_def)
        show ?thesis
        proof (cases "finish_turn x b'")
          case (Inl e)
          then show ?thesis using finish_turn_no_panic [OF b'(1), of x] t Some True c \<open>push_message _ _ _ = _\<close>
            by (auto simp: complete_turn_def record_outcome_def)
        next
          case (Inr p)
          then show ?thesis
            using finish_turn_ok [OF b'(1,3) Inr] b'(2) t Some True c \<open>push_message _ _ _ = _\<close>
            by (auto simp: complete_turn_def record_outcome_def active_ok_def ok_or_def split: option.splits)
        qed
      qed
    qed
  qed
qed

lemma record_outcome_mono: "record_outcome lib S a r \<Longrightarrow> S \<subseteq> T \<Longrightarrow> record_outcome lib T a r"
  using panics_mono by (auto simp: record_outcome_def split: sum.splits)

lemma apply_outcome:
  assumes "active_ok active" "json_valid v"
  shows "record_outcome lib (set (json_texts v)) active (apply_rollout_value x lib v active)"
proof (cases "as_object v")
  case (Some obj)
  note T = as_object_texts [OF Some]
  have same: "record_outcome lib S active (Ok (None, active))" for S using assms(1) by (simp add: record_outcome_def)
  have event: "record_outcome lib (set (json_texts v)) active (complete_turn x lib payload active)"
    if p: "get_object obj ''payload'' = Some payload" for payload
  proof -
    obtain u where u: "map_of obj ''payload'' = Some u" "as_object u = Some payload" using p by (auto simp: get_object_def bind_eq_Some_conv)
    have sub: "texts_of payload \<subseteq> set (json_texts v)" using texts_get(1) [OF u(1)] as_object_texts [OF u(2)] T by simp
    then have "\<forall>t\<in>texts_of payload. utf8_valid t" using assms(2) by (auto simp: json_valid_def list_all_iff)
    then show ?thesis using record_outcome_mono [OF complete_turn_outcome [OF assms(1)] sub] by blast
  qed
  have start: "record_outcome lib S active (and_then (required_turn_id x payload) (\<lambda>t. Ok (None, Some (new_turn t))))" for S payload
    by (cases "get_str payload ''turn_id''")
      (auto simp: required_turn_id_def record_outcome_def active_ok_def new_turn_ok split: if_splits)
  have item: "record_outcome lib (set (json_texts v)) active (and_then (observe_response_item u b) (\<lambda>b. Ok (None, Some b)))"
    if u: "map_of obj ''payload'' = Some u" and b: "active = Some b" for u b
  proof -
    have sub: "set (json_texts u) \<subseteq> set (json_texts v)" using texts_get(1) [OF u] T by simp
    then have "json_valid u" using assms(2) by (auto simp: json_valid_def list_all_iff)
    moreover have "turn_ok b" using assms(1) b by (simp add: active_ok_def)
    ultimately have "keeps_turn (set (json_texts u)) b (observe_response_item u b)" using observe_response_keeps by blast
    then show ?thesis using panics_mono [OF _ sub]
      by (auto simp: keeps_turn_def record_outcome_def active_ok_def split: sum.splits)
  qed
  show ?thesis
    using Some event start item same assms(1)
    by (auto simp: apply_rollout_value_def record_outcome_def [of _ _ _ "Err InvalidRollout"] active_ok_def ok_or_def split: option.splits)
qed (simp add: apply_rollout_value_def record_outcome_def)

text \<open>C39: One record at a time: on every valid record, a well-formed turn in progress stays well-formed
  (at most 32 messages per role of at most 12 KiB, at most 64 tools, every call pointing at its
  tool); a completion is reported only for the turn that is in progress, with at most 64 KiB and
  a pack of at most 8 messages and 22 KiB per role, and ends that turn; and the record panics the
  observer only through the redaction of one of its texts.\<close>

theorem rollout_record_handled:
  assumes "active_ok active" "json_valid v"
  shows "record_outcome lib (set (json_texts v)) active (apply_rollout_value x lib v active)"
  by (rule apply_outcome [OF assms])

definition sample_completion :: json where
  "sample_completion = JObject [(''type'', JString ''event_msg''), (''payload'', JObject [(''type'', JString ''task_complete''),
     (''turn_id'', JString ''t''), (''last_agent_message'', JString ''done'')])]"

definition sample_rollout_lib :: rollout_lib where
  "sample_rollout_lib = \<lparr> rl_parse = (\<lambda>s. if s = ''x'' then Some sample_completion else None), rl_print = (\<lambda>p. Some (concat (tp_assistant p))) \<rparr>"

definition sample_uuids :: externals where
  "sample_uuids = \<lparr> uuid_ok = (\<lambda>s. s \<noteq> []), json_ids = concat, parse_ids = (\<lambda>_. None), json_is_object = (\<lambda>_. True), sha256 = (\<lambda>_. 0) \<rparr>"

theorem rollout_record_handled_witness:
  "apply_rollout_value sample_uuids sample_rollout_lib sample_completion (Some (new_turn ''t'')) = Ok (Some (''t'', ''done''), None) \<and>
   (\<exists>p. rl_print sample_rollout_lib p = Some ''done'' \<and> tp_turn_id p = ''t'' \<and> pack_ok p)"
proof -
  let ?r = "apply_rollout_value sample_uuids sample_rollout_lib sample_completion (Some (new_turn ''t''))"
  have "case ?r of Inr (Some (i, s), None) \<Rightarrow> i = ''t'' \<and> s = ''done'' | _ \<Rightarrow> False" "json_valid sample_completion" by code_simp+
  then have e: "?r = Ok (Some (''t'', ''done''), None)" "json_valid sample_completion"
    by (auto split: sum.splits prod.splits option.splits)
  have "active_ok (Some (new_turn ''t''))" using new_turn_ok by (simp add: active_ok_def)
  from rollout_record_handled [OF this e(2), of sample_rollout_lib sample_uuids] show ?thesis
    unfolding e(1) record_outcome_def by simp
qed

end
