(* ===== verification/Rollout_Stream.thy ===== *)
theory Rollout_Stream
  imports Rollout_Turns
begin

text \<open>
  The streaming JSON parser for long lines of a rollout file (rollout_observer.rs): it reads byte
  by byte and keeps only the fields that the turn builder needs, in bounded memory.
\<close>

section \<open>The streamed record\<close>

definition MAX_STREAM_JSON_DEPTH :: nat where "MAX_STREAM_JSON_DEPTH = 64"
definition MAX_STREAM_CONTENT_PARTS :: nat where "MAX_STREAM_CONTENT_PARTS = 32"
definition MAX_STREAM_SMALL_FIELD_BYTES :: nat where "MAX_STREAM_SMALL_FIELD_BYTES = 256"

record streamed_part =
  spt_kind :: "string option"
  spt_text :: "string option"

record streamed_record =
  sr_payload_object :: bool
  sr_top_type :: "string option"
  sr_payload_type :: "string option"
  sr_role :: "string option"
  sr_turn_id :: "string option"
  sr_internal_turn_id :: "string option"
  sr_metadata_turn_id :: "string option"
  sr_name :: "string option"
  sr_status :: "string option"
  sr_call_id :: "string option"
  sr_last_agent_message :: "string option"
  sr_parts :: "streamed_part list"

definition empty_part :: streamed_part where
  "empty_part = \<lparr> spt_kind = None, spt_text = None \<rparr>"

definition empty_record :: streamed_record where
  "empty_record = \<lparr> sr_payload_object = False, sr_top_type = None, sr_payload_type = None, sr_role = None, sr_turn_id = None,
     sr_internal_turn_id = None, sr_metadata_turn_id = None, sr_name = None, sr_status = None, sr_call_id = None,
     sr_last_agent_message = None, sr_parts = [] \<rparr>"

definition clear_payload :: "streamed_record \<Rightarrow> streamed_record" where
  "clear_payload r = r\<lparr>sr_payload_object := False, sr_payload_type := None, sr_role := None, sr_turn_id := None,
     sr_internal_turn_id := None, sr_metadata_turn_id := None, sr_name := None, sr_status := None, sr_call_id := None,
     sr_last_agent_message := None, sr_parts := []\<rparr>"

definition optional_field :: "string \<Rightarrow> string option \<Rightarrow> (string \<times> json) list" where
  "optional_field k v = (case v of None \<Rightarrow> [] | Some s \<Rightarrow> [(k, JString s)])"

definition turn_object :: "string \<Rightarrow> string option \<Rightarrow> (string \<times> json) list" where
  "turn_object k v = (case v of None \<Rightarrow> [] | Some s \<Rightarrow> [(k, JObject [(''turn_id'', JString s)])])"

definition part_value :: "streamed_part \<Rightarrow> json" where
  "part_value p = JObject (optional_field ''type'' (spt_kind p) @ optional_field ''text'' (spt_text p))"

definition payload_entries :: "streamed_record \<Rightarrow> (string \<times> json) list" where
  "payload_entries r =
     optional_field ''type'' (sr_payload_type r) @ optional_field ''role'' (sr_role r) @
     optional_field ''turn_id'' (sr_turn_id r) @ optional_field ''name'' (sr_name r) @
     optional_field ''status'' (sr_status r) @ optional_field ''call_id'' (sr_call_id r) @
     optional_field ''last_agent_message'' (sr_last_agent_message r) @
     turn_object ''metadata'' (sr_metadata_turn_id r) @
     turn_object ''internal_chat_message_metadata_passthrough'' (sr_internal_turn_id r) @
     (if sr_parts r = [] then [] else [(''content'', JArray (map part_value (sr_parts r)))])"

definition into_value :: "streamed_record \<Rightarrow> json" where
  "into_value r =
     JObject (optional_field ''type'' (sr_top_type r) @
       (if sr_payload_object r then [(''payload'', JObject (payload_entries r))] else []))"

section \<open>Strings\<close>

datatype field_target =
    TopType | PayloadType | RoleField | TurnId | InternalTurnId | MetadataTurnId | NameField | StatusField | CallId
  | LastAgentMessage | PartType nat | PartText nat | IgnoreField

datatype string_escape = EscapeNone | Escaped | EscapeUnicode nat nat "nat option" | LowBackslash nat | LowU nat

text \<open>The tail is a queue of whole characters.\<close>

datatype bounded_capture = CaptureNone | CaptureSmall string bool | CaptureText string "string list" nat nat

definition capture_small :: bounded_capture where "capture_small = CaptureSmall [] False"
definition capture_text :: bounded_capture where "capture_text = CaptureText [] [] 0 0"

definition HEAD_LIMIT :: nat where "HEAD_LIMIT = (MAX_TEXT_BYTES - length MARKER) div 3"
definition TAIL_LIMIT :: nat where "TAIL_LIMIT = MAX_TEXT_BYTES - length MARKER - HEAD_LIMIT"

fun trim_tail :: "string list \<Rightarrow> nat \<Rightarrow> observer_error + string list \<times> nat" where
  "trim_tail [] n = (if n \<le> TAIL_LIMIT then Ok ([], n) else Err ObserverPanic)"
| "trim_tail (c # cs) n = (if n \<le> TAIL_LIMIT then Ok (c # cs, n) else trim_tail cs (n - length c))"

fun capture_push :: "string \<Rightarrow> bounded_capture \<Rightarrow> observer_error + bounded_capture" where
  "capture_push bs CaptureNone = Ok CaptureNone"
| "capture_push bs (CaptureSmall captured overflowed) =
     (let remaining = MAX_STREAM_SMALL_FIELD_BYTES - length captured in
      Ok (CaptureSmall (captured @ take (min (length bs) remaining) bs) (overflowed \<or> remaining < length bs)))"
| "capture_push bs (CaptureText head' tail' tail_bytes seen) =
     (let seen = seen + length bs in
      if length head' + length bs \<le> HEAD_LIMIT then Ok (CaptureText (head' @ bs) tail' tail_bytes seen)
      else and_then (trim_tail (tail' @ [bs]) (tail_bytes + length bs)) (\<lambda>(tail', tail_bytes).
           Ok (CaptureText head' tail' tail_bytes seen)))"

definition from_utf8 :: "string \<Rightarrow> observer_error + string" where
  "from_utf8 s = (if utf8_valid s then Ok s else Err InvalidRollout)"

fun capture_finish :: "bounded_capture \<Rightarrow> observer_error + string" where
  "capture_finish CaptureNone = Ok []"
| "capture_finish (CaptureSmall s overflowed) = (if overflowed then Err InvalidRollout else from_utf8 s)"
| "capture_finish (CaptureText head' tail' tail_bytes seen) =
     (let tail' = concat tail'; retained = length head' + length tail' in
      and_then (from_utf8 head') (\<lambda>v.
      and_then (from_utf8 tail') (\<lambda>t.
        Ok ((if retained < seen then v @ MARKER else v) @ t))))"

record json_string =
  js_key :: bool
  js_target :: field_target
  js_capture :: bounded_capture
  js_escape :: string_escape
  js_raw :: string

definition new_string :: "bool \<Rightarrow> field_target \<Rightarrow> json_string" where
  "new_string key target =
     \<lparr> js_key = key, js_target = target,
       js_capture = (if key then capture_small
          else (case target of PartText _ \<Rightarrow> capture_text | LastAgentMessage \<Rightarrow> capture_text
                | IgnoreField \<Rightarrow> CaptureNone | _ \<Rightarrow> capture_small)),
       js_escape = EscapeNone, js_raw = [] \<rparr>"

definition hex_value :: "char \<Rightarrow> observer_error + nat" where
  "hex_value c =
     (let b = byte c in
      if is_digit b then Ok (b - 48)
      else if 97 \<le> b \<and> b \<le> 102 then Ok (b - 97 + 10)
      else if 65 \<le> b \<and> b \<le> 70 then Ok (b - 65 + 10)
      else Err InvalidRollout)"

definition bytes_of :: "nat list \<Rightarrow> string" where
  "bytes_of ns = map char_of ns"

definition encode_utf8 :: "nat \<Rightarrow> string" where
  "encode_utf8 n =
     bytes_of (if n < 0x80 then [n]
       else if n < 0x800 then [0xC0 + n div 64, 0x80 + n mod 64]
       else if n < 0x10000 then [0xE0 + n div 4096, 0x80 + n div 64 mod 64, 0x80 + n mod 64]
       else [0xF0 + n div 262144, 0x80 + n div 4096 mod 64, 0x80 + n div 64 mod 64, 0x80 + n mod 64])"

text \<open>\<open>char::from_u32\<close> refuses surrogates and numbers above U+10FFFF.\<close>

definition push_scalar :: "nat \<Rightarrow> bounded_capture \<Rightarrow> observer_error + bounded_capture" where
  "push_scalar scalar c =
     (if 0x10FFFF < scalar \<or> 0xD800 \<le> scalar \<and> scalar \<le> 0xDFFF then Err InvalidRollout
      else capture_push (encode_utf8 scalar) c)"

definition with_capture :: "json_string \<Rightarrow> observer_error + bounded_capture \<Rightarrow> observer_error + json_string" where
  "with_capture s r = and_then r (\<lambda>c. Ok (s\<lparr>js_capture := c\<rparr>))"

definition feed_raw_utf8 :: "char \<Rightarrow> json_string \<Rightarrow> observer_error + json_string" where
  "feed_raw_utf8 b s =
     (if js_raw s = [] then
        if byte b < 0x80 then with_capture s (capture_push [b] (js_capture s))
        else if \<not> (0xC2 \<le> byte b \<and> byte b \<le> 0xF4) then Err InvalidRollout
        else Ok (s\<lparr>js_raw := [b]\<rparr>)
      else if \<not> continuation b then Err InvalidRollout
      else
        let raw = js_raw s @ [b]; first = byte (hd raw) in
        and_then (if 0xC2 \<le> first \<and> first \<le> 0xDF then Ok (2 :: nat)
                  else if 0xE0 \<le> first \<and> first \<le> 0xEF then Ok 3
                  else if 0xF0 \<le> first \<and> first \<le> 0xF4 then Ok 4 else Err InvalidRollout) (\<lambda>expected.
          if length raw = expected
          then and_then (from_utf8 raw) (\<lambda>raw. with_capture (s\<lparr>js_raw := []\<rparr>) (capture_push raw (js_capture s)))
          else if expected < length raw then Err InvalidRollout
          else Ok (s\<lparr>js_raw := raw\<rparr>)))"

definition simple_escape :: "char \<Rightarrow> string option" where
  "simple_escape c =
     (if byte c \<in> {34, 92, 47} then Some [c]
      else if byte c = 98 then Some (bytes_of [8])
      else if byte c = 102 then Some (bytes_of [12])
      else if byte c = 110 then Some (bytes_of [10])
      else if byte c = 114 then Some (bytes_of [13])
      else if byte c = 116 then Some (bytes_of [9])
      else None)"

text \<open>The four digits of \<open>\\u\<close>, and the second half of a surrogate pair; the shifted high half and
  the low half share no bit, so \<open>|\<close> is an addition.\<close>

definition feed_unicode :: "char \<Rightarrow> nat \<Rightarrow> nat \<Rightarrow> nat option \<Rightarrow> json_string \<Rightarrow> observer_error + json_string" where
  "feed_unicode c v digits high s =
     and_then (hex_value c) (\<lambda>digit.
     let v = v * 16 + digit; digits = digits + 1 in
     if 65535 < v then Err InvalidRollout
     else if digits < 4 then Ok (s\<lparr>js_escape := EscapeUnicode v digits high\<rparr>)
     else (case high of
         Some h \<Rightarrow>
           if \<not> (0xDC00 \<le> v \<and> v \<le> 0xDFFF) then Err InvalidRollout
           else with_capture s (push_scalar (0x10000 + ((h - 0xD800) * 1024 + (v - 0xDC00))) (js_capture s))
       | None \<Rightarrow>
           if 0xD800 \<le> v \<and> v \<le> 0xDBFF then Ok (s\<lparr>js_escape := LowBackslash v\<rparr>)
           else if 0xDC00 \<le> v \<and> v \<le> 0xDFFF then Err InvalidRollout
           else with_capture s (push_scalar v (js_capture s))))"

text \<open>One byte of a string; the flag tells that the closing quote was read.\<close>

definition string_feed :: "char \<Rightarrow> json_string \<Rightarrow> observer_error + bool \<times> json_string" where
  "string_feed c s0 =
     (let s = s0\<lparr>js_escape := EscapeNone\<rparr>; go = (\<lambda>r. and_then r (\<lambda>s. Ok (False, s))) in
      case js_escape s0 of
        EscapeNone \<Rightarrow>
          if byte c = 34 \<and> js_raw s = [] then Ok (True, s)
          else if byte c = 92 \<and> js_raw s = [] then Ok (False, s\<lparr>js_escape := Escaped\<rparr>)
          else if byte c < 0x20 then Err InvalidRollout
          else go (feed_raw_utf8 c s)
      | Escaped \<Rightarrow>
          (case simple_escape c of
             Some bs \<Rightarrow> go (with_capture s (capture_push bs (js_capture s)))
           | None \<Rightarrow> if byte c = 117 then Ok (False, s\<lparr>js_escape := EscapeUnicode 0 0 None\<rparr>) else Err InvalidRollout)
      | EscapeUnicode v digits high \<Rightarrow> go (feed_unicode c v digits high s)
      | LowBackslash high \<Rightarrow> if byte c \<noteq> 92 then Err InvalidRollout else Ok (False, s\<lparr>js_escape := LowU high\<rparr>)
      | LowU high \<Rightarrow>
          if byte c \<noteq> 117 then Err InvalidRollout else Ok (False, s\<lparr>js_escape := EscapeUnicode 0 0 (Some high)\<rparr>))"

section \<open>The parser\<close>

datatype json_context =
    CtxRoot | CtxPayload | CtxContentArray | CtxContentPart nat | CtxMetadata | CtxInternalMetadata | CtxOther

datatype object_state = FirstKeyOrEnd | KeyNext | Colon | ValueNext | CommaOrEnd

datatype array_state = FirstValueOrEnd | ArrayValueNext | ArrayCommaOrEnd

datatype json_frame = ObjectFrame json_context object_state "string option" | ArrayFrame json_context array_state

datatype json_lex = LexString json_string | LexAtom string

text \<open>The stack is the list of its frames, the innermost first.\<close>

record stream_parser =
  sp_stack :: "json_frame list"
  sp_lex :: "json_lex option"
  sp_record :: streamed_record
  sp_complete :: bool

definition new_parser :: stream_parser where
  "new_parser = \<lparr> sp_stack = [], sp_lex = None, sp_record = empty_record, sp_complete = False \<rparr>"

definition is_json_whitespace :: "char \<Rightarrow> bool" where
  "is_json_whitespace c \<longleftrightarrow> byte c \<in> {32, 9, 10, 13}"

definition INTERNAL_KEY :: string where
  "INTERNAL_KEY = ''internal_chat_message_metadata_passthrough''"

definition set_part :: "nat \<Rightarrow> (streamed_part \<Rightarrow> streamed_part) \<Rightarrow> streamed_record \<Rightarrow> streamed_record" where
  "set_part i f r = (if i < length (sr_parts r) then r\<lparr>sr_parts := (sr_parts r)[i := f (sr_parts r ! i)]\<rparr> else r)"

fun prepare_field :: "json_context \<Rightarrow> string \<Rightarrow> streamed_record \<Rightarrow> streamed_record" where
  "prepare_field CtxRoot k r =
     (if k = ''type'' then r\<lparr>sr_top_type := None\<rparr> else if k = ''payload'' then clear_payload r else r)"
| "prepare_field CtxPayload k r =
     (if k = ''type'' then r\<lparr>sr_payload_type := None\<rparr>
      else if k = ''role'' then r\<lparr>sr_role := None\<rparr>
      else if k = ''turn_id'' then r\<lparr>sr_turn_id := None\<rparr>
      else if k = ''name'' then r\<lparr>sr_name := None\<rparr>
      else if k = ''status'' then r\<lparr>sr_status := None\<rparr>
      else if k = ''call_id'' then r\<lparr>sr_call_id := None\<rparr>
      else if k = ''last_agent_message'' then r\<lparr>sr_last_agent_message := None\<rparr>
      else if k = ''content'' then r\<lparr>sr_parts := []\<rparr>
      else if k = ''metadata'' then r\<lparr>sr_metadata_turn_id := None\<rparr>
      else if k = INTERNAL_KEY then r\<lparr>sr_internal_turn_id := None\<rparr>
      else r)"
| "prepare_field CtxMetadata k r = (if k = ''turn_id'' then r\<lparr>sr_metadata_turn_id := None\<rparr> else r)"
| "prepare_field CtxInternalMetadata k r = (if k = ''turn_id'' then r\<lparr>sr_internal_turn_id := None\<rparr> else r)"
| "prepare_field (CtxContentPart i) k r =
     (if k = ''type'' then set_part i (\<lambda>p. p\<lparr>spt_kind := None\<rparr>) r
      else if k = ''text'' then set_part i (\<lambda>p. p\<lparr>spt_text := None\<rparr>) r else r)"
| "prepare_field _ k r = r"

definition prepare_field_value :: "json_frame list \<Rightarrow> streamed_record \<Rightarrow> streamed_record" where
  "prepare_field_value stack r =
     (case stack of ObjectFrame context _ (Some k) # _ \<Rightarrow> prepare_field context k r | _ \<Rightarrow> r)"

fun target_of :: "json_context \<Rightarrow> string \<Rightarrow> field_target" where
  "target_of CtxRoot k = (if k = ''type'' then TopType else IgnoreField)"
| "target_of CtxPayload k =
     (if k = ''type'' then PayloadType
      else if k = ''role'' then RoleField
      else if k = ''turn_id'' then TurnId
      else if k = ''name'' then NameField
      else if k = ''status'' then StatusField
      else if k = ''call_id'' then CallId
      else if k = ''last_agent_message'' then LastAgentMessage
      else IgnoreField)"
| "target_of CtxMetadata k = (if k = ''turn_id'' then MetadataTurnId else IgnoreField)"
| "target_of CtxInternalMetadata k = (if k = ''turn_id'' then InternalTurnId else IgnoreField)"
| "target_of (CtxContentPart i) k =
     (if k = ''type'' then PartType i else if k = ''text'' then PartText i else IgnoreField)"
| "target_of _ k = IgnoreField"

definition field_target_of :: "json_frame list \<Rightarrow> field_target" where
  "field_target_of stack = (case stack of ObjectFrame context _ (Some k) # _ \<Rightarrow> target_of context k | _ \<Rightarrow> IgnoreField)"

text \<open>The context of an object or array that starts with the given byte.\<close>

definition child_context :: "json_frame list \<Rightarrow> char \<Rightarrow> streamed_record \<Rightarrow> observer_error + json_context \<times> streamed_record" where
  "child_context stack c r =
     (case (case stack of ObjectFrame context _ key # _ \<Rightarrow> Some (context, key) | ArrayFrame context _ # _ \<Rightarrow> Some (context, None)
           | [] \<Rightarrow> None) of
        None \<Rightarrow> Err InvalidRollout
      | Some (context, key) \<Rightarrow> Ok (
          if context = CtxRoot \<and> key = Some ''payload'' \<and> byte c = 123 then (CtxPayload, r\<lparr>sr_payload_object := True\<rparr>)
          else if context = CtxPayload \<and> key = Some ''content'' \<and> byte c = 91 then (CtxContentArray, r)
          else if context = CtxPayload \<and> key = Some ''metadata'' \<and> byte c = 123 then (CtxMetadata, r)
          else if context = CtxPayload \<and> key = Some INTERNAL_KEY \<and> byte c = 123 then (CtxInternalMetadata, r)
          else if context = CtxContentArray \<and> byte c = 123 \<and> length (sr_parts r) < MAX_STREAM_CONTENT_PARTS
          then (CtxContentPart (length (sr_parts r)), r\<lparr>sr_parts := sr_parts r @ [empty_part]\<rparr>)
          else (CtxOther, r)))"

fun finish_scalar :: "json_frame list \<Rightarrow> observer_error + json_frame list" where
  "finish_scalar (ObjectFrame context ValueNext key # st) = Ok (ObjectFrame context CommaOrEnd None # st)"
| "finish_scalar (ArrayFrame context FirstValueOrEnd # st) = Ok (ArrayFrame context ArrayCommaOrEnd # st)"
| "finish_scalar (ArrayFrame context ArrayValueNext # st) = Ok (ArrayFrame context ArrayCommaOrEnd # st)"
| "finish_scalar _ = Err InvalidRollout"

fun record_field :: "field_target \<Rightarrow> string \<Rightarrow> streamed_record \<Rightarrow> streamed_record" where
  "record_field TopType v r = r\<lparr>sr_top_type := Some v\<rparr>"
| "record_field PayloadType v r = r\<lparr>sr_payload_type := Some v\<rparr>"
| "record_field RoleField v r = r\<lparr>sr_role := Some v\<rparr>"
| "record_field TurnId v r = r\<lparr>sr_turn_id := Some v\<rparr>"
| "record_field InternalTurnId v r = r\<lparr>sr_internal_turn_id := Some v\<rparr>"
| "record_field MetadataTurnId v r = r\<lparr>sr_metadata_turn_id := Some v\<rparr>"
| "record_field NameField v r = r\<lparr>sr_name := Some v\<rparr>"
| "record_field StatusField v r = r\<lparr>sr_status := Some v\<rparr>"
| "record_field CallId v r = r\<lparr>sr_call_id := Some v\<rparr>"
| "record_field LastAgentMessage v r = r\<lparr>sr_last_agent_message := Some v\<rparr>"
| "record_field (PartType i) v r = set_part i (\<lambda>p. p\<lparr>spt_kind := Some v\<rparr>) r"
| "record_field (PartText i) v r = set_part i (\<lambda>p. p\<lparr>spt_text := Some v\<rparr>) r"
| "record_field IgnoreField v r = r"

definition finish_string :: "json_string \<Rightarrow> stream_parser \<Rightarrow> observer_error + stream_parser" where
  "finish_string s p =
     and_then (capture_finish (js_capture s)) (\<lambda>v.
       if js_key s then
         (case sp_stack p of
            ObjectFrame context state _ # st \<Rightarrow>
              if state = FirstKeyOrEnd \<or> state = KeyNext
              then Ok (p\<lparr>sp_stack := ObjectFrame context Colon (Some v) # st\<rparr>)
              else Err InvalidRollout
          | _ \<Rightarrow> Err InvalidRollout)
       else and_then (finish_scalar (sp_stack p)) (\<lambda>st.
            Ok (p\<lparr>sp_stack := st, sp_record := record_field (js_target s) v (sp_record p)\<rparr>)))"

definition may_close :: "json_frame list \<Rightarrow> bool" where
  "may_close stack \<longleftrightarrow>
     (case stack of
        ObjectFrame _ state _ # _ \<Rightarrow> state = FirstKeyOrEnd \<or> state = CommaOrEnd
      | ArrayFrame _ state # _ \<Rightarrow> state = FirstValueOrEnd \<or> state = ArrayCommaOrEnd
      | [] \<Rightarrow> False)"

definition close_container :: "stream_parser \<Rightarrow> observer_error + stream_parser" where
  "close_container p =
     (if \<not> may_close (sp_stack p) then Err InvalidRollout
      else let st = tl (sp_stack p) in
           Ok (p\<lparr>sp_stack := st, sp_complete := (if st = [] then True else sp_complete p)\<rparr>))"

definition set_object_state :: "object_state \<Rightarrow> stream_parser \<Rightarrow> observer_error + stream_parser" where
  "set_object_state nxt p =
     (case sp_stack p of ObjectFrame context _ key # st \<Rightarrow> Ok (p\<lparr>sp_stack := ObjectFrame context nxt key # st\<rparr>)
      | _ \<Rightarrow> Err InvalidRollout)"

definition set_array_state :: "array_state \<Rightarrow> stream_parser \<Rightarrow> observer_error + stream_parser" where
  "set_array_state nxt p =
     (case sp_stack p of ArrayFrame context _ # st \<Rightarrow> Ok (p\<lparr>sp_stack := ArrayFrame context nxt # st\<rparr>)
      | _ \<Rightarrow> Err InvalidRollout)"

definition starts_atom :: "char \<Rightarrow> bool" where
  "starts_atom c \<longleftrightarrow> byte c \<in> {45, 116, 102, 110} \<or> is_digit (byte c)"

definition start_value :: "char \<Rightarrow> stream_parser \<Rightarrow> observer_error + stream_parser" where
  "start_value c p0 =
     (if is_json_whitespace c then Ok p0
      else
        let p = p0\<lparr>sp_record := prepare_field_value (sp_stack p0) (sp_record p0)\<rparr>; target = field_target_of (sp_stack p) in
        if byte c = 34 then Ok (p\<lparr>sp_lex := Some (LexString (new_string False target))\<rparr>)
        else if byte c = 123 \<or> byte c = 91 then
          and_then (child_context (sp_stack p) c (sp_record p)) (\<lambda>(context, r).
          and_then (finish_scalar (sp_stack p)) (\<lambda>st.
            if MAX_STREAM_JSON_DEPTH \<le> length st then Err InvalidRollout
            else Ok (p\<lparr>sp_record := r,
              sp_stack := (if byte c = 123 then ObjectFrame context FirstKeyOrEnd None
                           else ArrayFrame context FirstValueOrEnd) # st\<rparr>)))
        else if starts_atom c then Ok (p\<lparr>sp_lex := Some (LexAtom [c])\<rparr>)
        else Err InvalidRollout)"

definition start_key :: "stream_parser \<Rightarrow> stream_parser" where
  "start_key p = p\<lparr>sp_lex := Some (LexString (new_string True IgnoreField))\<rparr>"

fun feed_object :: "object_state \<Rightarrow> char \<Rightarrow> stream_parser \<Rightarrow> observer_error + stream_parser" where
  "feed_object FirstKeyOrEnd c p =
     (if is_json_whitespace c then Ok p
      else if byte c = 125 then close_container p
      else if byte c = 34 then Ok (start_key p)
      else Err InvalidRollout)"
| "feed_object KeyNext c p =
     (if is_json_whitespace c then Ok p
      else if byte c = 34 then Ok (start_key p)
      else Err InvalidRollout)"
| "feed_object Colon c p =
     (if is_json_whitespace c then Ok p
      else if byte c = 58 then set_object_state ValueNext p
      else Err InvalidRollout)"
| "feed_object ValueNext c p = start_value c p"
| "feed_object CommaOrEnd c p =
     (if is_json_whitespace c then Ok p
      else if byte c = 44 then set_object_state KeyNext p
      else if byte c = 125 then close_container p
      else Err InvalidRollout)"

fun feed_array :: "array_state \<Rightarrow> char \<Rightarrow> stream_parser \<Rightarrow> observer_error + stream_parser" where
  "feed_array FirstValueOrEnd c p =
     (if is_json_whitespace c then Ok p
      else if byte c = 93 then close_container p
      else start_value c p)"
| "feed_array ArrayValueNext c p = (if is_json_whitespace c then Ok p else start_value c p)"
| "feed_array ArrayCommaOrEnd c p =
     (if is_json_whitespace c then Ok p
      else if byte c = 44 then set_array_state ArrayValueNext p
      else if byte c = 93 then close_container p
      else Err InvalidRollout)"

text \<open>A byte outside strings and atoms.\<close>

definition feed_structure :: "char \<Rightarrow> stream_parser \<Rightarrow> observer_error + stream_parser" where
  "feed_structure c p =
     (if sp_complete p then (if is_json_whitespace c then Ok p else Err InvalidRollout)
      else (case sp_stack p of
          [] \<Rightarrow>
            if is_json_whitespace c then Ok p
            else if byte c \<noteq> 123 then Err InvalidRollout
            else Ok (p\<lparr>sp_stack := [ObjectFrame CtxRoot FirstKeyOrEnd None]\<rparr>)
        | ObjectFrame _ state _ # _ \<Rightarrow> feed_object state c p
        | ArrayFrame _ state # _ \<Rightarrow> feed_array state c p))"

definition ends_atom :: "char \<Rightarrow> bool" where
  "ends_atom c \<longleftrightarrow> is_json_whitespace c \<or> byte c \<in> {44, 93, 125}"

definition feed_byte :: "rollout_lib \<Rightarrow> char \<Rightarrow> stream_parser \<Rightarrow> observer_error + stream_parser" where
  "feed_byte lib c p =
     (case sp_lex p of
        Some (LexString s) \<Rightarrow>
          and_then (string_feed c s) (\<lambda>(closed, s).
            if closed then finish_string s (p\<lparr>sp_lex := None\<rparr>) else Ok (p\<lparr>sp_lex := Some (LexString s)\<rparr>))
      | Some (LexAtom atom) \<Rightarrow>
          if ends_atom c then
            and_then (ok_or InvalidRollout (rl_parse lib atom)) (\<lambda>_.
            and_then (finish_scalar (sp_stack p)) (\<lambda>st.
              feed_structure c (p\<lparr>sp_lex := None, sp_stack := st\<rparr>)))
          else if 64 \<le> length atom then Err InvalidRollout
          else Ok (p\<lparr>sp_lex := Some (LexAtom (atom @ [c]))\<rparr>)
      | None \<Rightarrow> feed_structure c p)"

fun feed :: "rollout_lib \<Rightarrow> string \<Rightarrow> stream_parser \<Rightarrow> observer_error + stream_parser" where
  "feed lib [] p = Ok p"
| "feed lib (c # cs) p = and_then (feed_byte lib c p) (feed lib cs)"

definition finish_parser :: "stream_parser \<Rightarrow> observer_error + json" where
  "finish_parser p =
     (if \<not> sp_complete p \<or> sp_lex p \<noteq> None \<or> sp_stack p \<noteq> [] then Err InvalidRollout else Ok (into_value (sp_record p)))"

section \<open>What a capture holds\<close>

lemma byte_char_of [simp]: "byte (char_of (n::nat)) = n mod 256"
  by (simp add: byte_def)

lemma head_tail_limits: "HEAD_LIMIT = 4091" "TAIL_LIMIT = 8184" "MAX_TEXT_BYTES = 12288"
  by (simp_all add: HEAD_LIMIT_def TAIL_LIMIT_def MAX_TEXT_BYTES_def marker_bytes(1))

fun capture_ok :: "bounded_capture \<Rightarrow> bool" where
  "capture_ok CaptureNone = True"
| "capture_ok (CaptureSmall s overflowed) \<longleftrightarrow> length s \<le> MAX_STREAM_SMALL_FIELD_BYTES \<and> (\<not> overflowed \<longrightarrow> utf8_valid s)"
| "capture_ok (CaptureText h t n seen) \<longleftrightarrow>
     utf8_valid h \<and> length h \<le> HEAD_LIMIT \<and> list_all utf8_valid t \<and> n = length (concat t) \<and> n \<le> TAIL_LIMIT"

definition text_ok :: "string \<Rightarrow> bool" where
  "text_ok s \<longleftrightarrow> utf8_valid s \<and> length s \<le> MAX_TEXT_BYTES"

lemma trim_tail_ok:
  "n = length (concat t) \<Longrightarrow> list_all utf8_valid t \<Longrightarrow>
   \<exists>t' n'. trim_tail t n = Ok (t', n') \<and> list_all utf8_valid t' \<and> n' = length (concat t') \<and> n' \<le> TAIL_LIMIT"
  by (induction t arbitrary: n) auto

text \<open>A result that satisfies a predicate, or the error of a malformed rollout.\<close>

definition holds :: "('a \<Rightarrow> bool) \<Rightarrow> observer_error + 'a \<Rightarrow> bool" where
  "holds P r \<longleftrightarrow> (case r of Inr v \<Rightarrow> P v | Inl e \<Rightarrow> e = InvalidRollout)"

lemma holds_simps [simp]: "holds P (Ok v) = P v" "holds P (Err e) \<longleftrightarrow> e = InvalidRollout"
  by (simp_all add: holds_def)

lemma holds_bind: "holds P r \<Longrightarrow> (\<And>v. P v \<Longrightarrow> r = Ok v \<Longrightarrow> holds Q (f v)) \<Longrightarrow> holds Q (and_then r f)"
  by (cases r) auto

lemma capture_push_ok:
  assumes "capture_ok c" "utf8_valid bs"
  shows "holds capture_ok (capture_push bs c)"
proof (cases c)
  case (CaptureSmall s ov)
  then show ?thesis using assms by (auto simp: Let_def utf8_append)
next
  case (CaptureText h t n seen)
  show ?thesis
  proof (cases "length h + length bs \<le> HEAD_LIMIT")
    case False
    obtain t' n' where "trim_tail (t @ [bs]) (n + length bs) = Ok (t', n')" "list_all utf8_valid t'" "n' = length (concat t')" "n' \<le> TAIL_LIMIT"
      using trim_tail_ok [of "n + length bs" "t @ [bs]"] assms CaptureText by auto
    then show ?thesis using assms CaptureText False by (simp add: Let_def)
  qed (use assms CaptureText in \<open>simp add: Let_def utf8_append\<close>)
qed simp

lemma concat_valid: "list_all utf8_valid t \<Longrightarrow> utf8_valid (concat t)"
  by (induction t) (auto simp: utf8_append utf8_marks)

lemma capture_finish_ok:
  assumes "capture_ok c"
  shows "holds text_ok (capture_finish c)"
proof (cases c)
  case (CaptureText h t n seen)
  then have v: "utf8_valid h" "utf8_valid (concat t)" "length h \<le> HEAD_LIMIT" "length (concat t) \<le> TAIL_LIMIT"
    using assms concat_valid by simp_all
  have "utf8_valid MARKER" using marker_bytes(3) by (intro utf8_ascii) (simp add: list_all_iff)
  then have "text_ok ((if b then h @ MARKER else h) @ concat t)" for b
    using v by (auto simp: text_ok_def utf8_append head_tail_limits marker_bytes(1))
  then show ?thesis using v CaptureText by (simp add: Let_def from_utf8_def)
qed (use assms in \<open>auto simp: text_ok_def from_utf8_def utf8_marks MAX_STREAM_SMALL_FIELD_BYTES_def MAX_TEXT_BYTES_def\<close>)

section \<open>What a string lexer holds\<close>

definition surrogate_high :: "nat \<Rightarrow> bool" where
  "surrogate_high h \<longleftrightarrow> 0xD800 \<le> h \<and> h \<le> 0xDBFF"

fun escape_ok :: "string_escape \<Rightarrow> bool" where
  "escape_ok (EscapeUnicode v digits high) \<longleftrightarrow> digits < 4 \<and> v < 16 ^ digits \<and> (\<forall>h. high = Some h \<longrightarrow> surrogate_high h)"
| "escape_ok (LowBackslash h) \<longleftrightarrow> surrogate_high h"
| "escape_ok (LowU h) \<longleftrightarrow> surrogate_high h"
| "escape_ok _ \<longleftrightarrow> True"

definition string_ok :: "json_string \<Rightarrow> bool" where
  "string_ok s \<longleftrightarrow> capture_ok (js_capture s) \<and> escape_ok (js_escape s) \<and> length (js_raw s) < 4"

lemma encode_utf8_valid:
  assumes "n \<le> 0x10FFFF" "\<not> (0xD800 \<le> n \<and> n \<le> 0xDFFF)"
  shows "scalar_ok (encode_utf8 n)"
proof -
  define q1 q2 q3 where "q1 = n div 64" and "q2 = n div 4096" and "q3 = n div 262144"
  have q: "q2 = q1 div 64" "q3 = q2 div 64" by (simp_all add: q1_def q2_def q3_def div_mult2_eq [symmetric])
  consider "n < 0x80" | "0x80 \<le> n" "n < 0x800" | "0x800 \<le> n" "n < 0x10000" | "0x10000 \<le> n" by linarith
  then show ?thesis
  proof cases
    case 1
    then show ?thesis by (simp add: encode_utf8_def bytes_of_def)
  next
    case 2
    then have "2 \<le> q1" "q1 < 32" "n mod 64 < 64" by (simp_all add: q1_def)
    then show ?thesis using 2 by (simp add: encode_utf8_def bytes_of_def continuation_def q1_def [symmetric])
  next
    case 3
    have b: "q2 < 16" "n mod 64 < 64" "q1 mod 64 < 64" "q1 = 64 * q2 + q1 mod 64" using 3 q by (simp_all add: q2_def)
    have "32 \<le> q1" using 3 by (simp add: q1_def)
    then have e0: "q2 = 0 \<longrightarrow> 32 \<le> q1 mod 64" using b(4) by linarith
    have "q2 = 13 \<longrightarrow> q1 mod 64 < 32"
    proof
      assume "q2 = 13"
      then have "n < 0xD800 \<or> 0xDFFF < n" "n = 64 * q1 + n mod 64" "q1 = 832 + q1 mod 64"
        using assms(2) b(4) by (auto simp: q1_def)
      then show "q1 mod 64 < 32" using b(2,3) by linarith
    qed
    then show ?thesis using 3 b e0
      by (auto simp: encode_utf8_def bytes_of_def continuation_def q1_def [symmetric] q2_def [symmetric])
  next
    case 4
    have b: "q3 \<le> 4" "n mod 64 < 64" "q1 mod 64 < 64" "q2 mod 64 < 64" "q2 = 64 * q3 + q2 mod 64" using assms(1) q by (simp_all add: q3_def)
    have "16 \<le> q2" "q2 < 272" using 4 assms(1) by (simp_all add: q2_def)
    then have "q3 = 0 \<longrightarrow> 16 \<le> q2 mod 64" "q3 = 4 \<longrightarrow> q2 mod 64 < 16" using b(5) by linarith+
    then show ?thesis using 4 b
      by (auto simp: encode_utf8_def bytes_of_def continuation_def q1_def [symmetric] q2_def [symmetric] q3_def [symmetric])
  qed
qed

lemma scalar_valid: "scalar_ok c \<Longrightarrow> utf8_valid c"
  using utf8_concat [of "[c]"] by simp

lemma push_scalar_ok: "capture_ok c \<Longrightarrow> holds capture_ok (push_scalar n c)"
  unfolding push_scalar_def using capture_push_ok [of c "encode_utf8 n"] scalar_valid [OF encode_utf8_valid [of n]] by auto

lemma with_capture_ok:
  "holds capture_ok r \<Longrightarrow> escape_ok (js_escape s) \<Longrightarrow> length (js_raw s) < 4 \<Longrightarrow> holds string_ok (with_capture s r)"
  by (auto simp: with_capture_def string_ok_def holds_def split: sum.splits)

lemma from_utf8_holds: "holds utf8_valid (from_utf8 s)"
  by (simp add: from_utf8_def)

lemma feed_raw_ok:
  assumes "string_ok s" "js_escape s = EscapeNone"
  shows "holds string_ok (feed_raw_utf8 b s)"
proof (cases "js_raw s = []")
  case True
  have "holds capture_ok (capture_push [b] (js_capture s))" if "byte b < 0x80"
    using capture_push_ok [of "js_capture s" "[b]"] assms(1) that scalar_valid [of "[b]"] by (simp add: string_ok_def)
  then show ?thesis
    using True assms with_capture_ok by (auto simp: feed_raw_utf8_def string_ok_def)
next
  case False
  let ?raw = "js_raw s @ [b]"
  let ?e = "if 0xC2 \<le> byte (hd ?raw) \<and> byte (hd ?raw) \<le> 0xDF then Ok (2 :: nat)
    else if 0xE0 \<le> byte (hd ?raw) \<and> byte (hd ?raw) \<le> 0xEF then Ok 3
    else if 0xF0 \<le> byte (hd ?raw) \<and> byte (hd ?raw) \<le> 0xF4 then Ok 4 else Err InvalidRollout"
  have "holds string_ok (and_then ?e (\<lambda>expected.
          if length ?raw = expected
          then and_then (from_utf8 ?raw) (\<lambda>raw. with_capture (s\<lparr>js_raw := []\<rparr>) (capture_push raw (js_capture s)))
          else if expected < length ?raw then Err InvalidRollout
          else Ok (s\<lparr>js_raw := ?raw\<rparr>)))"
  proof (rule holds_bind [of "\<lambda>n. n \<le> 4"])
    fix expected :: nat
    assume n: "expected \<le> 4"
    have "holds string_ok (and_then (from_utf8 ?raw) (\<lambda>raw. with_capture (s\<lparr>js_raw := []\<rparr>) (capture_push raw (js_capture s))))"
    proof (rule holds_bind [OF from_utf8_holds])
      fix v assume "utf8_valid v"
      then show "holds string_ok (with_capture (s\<lparr>js_raw := []\<rparr>) (capture_push v (js_capture s)))"
        using assms capture_push_ok by (intro with_capture_ok) (simp_all add: string_ok_def)
    qed
    then show "holds string_ok (if length ?raw = expected
          then and_then (from_utf8 ?raw) (\<lambda>raw. with_capture (s\<lparr>js_raw := []\<rparr>) (capture_push raw (js_capture s)))
          else if expected < length ?raw then Err InvalidRollout else Ok (s\<lparr>js_raw := ?raw\<rparr>))"
      using assms n by (auto simp: string_ok_def)
  qed simp
  then show ?thesis using False by (simp add: feed_raw_utf8_def Let_def)
qed

lemma hex_value_holds: "holds (\<lambda>d. d < 16) (hex_value c)"
  by (auto simp: hex_value_def Let_def is_digit_def)

lemma feed_unicode_ok:
  assumes "capture_ok (js_capture s)" "length (js_raw s) < 4" "js_escape s = EscapeNone" "escape_ok (EscapeUnicode v digits high)"
  shows "holds string_ok (feed_unicode c v digits high s)"
  unfolding feed_unicode_def
proof (rule holds_bind [OF hex_value_holds])
  fix d :: nat
  assume d: "d < 16"
  have "v * 16 + d < 16 ^ (digits + 1)"
  proof -
    have "v + 1 \<le> 16 ^ digits" using assms(4) by simp
    then have "(v + 1) * 16 \<le> 16 ^ digits * 16" by (rule mult_le_mono1)
    then show ?thesis using d by simp
  qed
  then show "holds string_ok (let v = v * 16 + d; digits = digits + 1 in
     if 65535 < v then Err InvalidRollout
     else if digits < 4 then Ok (s\<lparr>js_escape := EscapeUnicode v digits high\<rparr>)
     else (case high of
         Some h \<Rightarrow>
           if \<not> (0xDC00 \<le> v \<and> v \<le> 0xDFFF) then Err InvalidRollout
           else with_capture s (push_scalar (0x10000 + ((h - 0xD800) * 1024 + (v - 0xDC00))) (js_capture s))
       | None \<Rightarrow>
           if 0xD800 \<le> v \<and> v \<le> 0xDBFF then Ok (s\<lparr>js_escape := LowBackslash v\<rparr>)
           else if 0xDC00 \<le> v \<and> v \<le> 0xDFFF then Err InvalidRollout
           else with_capture s (push_scalar v (js_capture s))))"
    using assms with_capture_ok push_scalar_ok
    by (auto simp: Let_def string_ok_def surrogate_high_def split: option.splits)
qed

lemma simple_escape_valid: "simple_escape c = Some bs \<Longrightarrow> utf8_valid bs"
  by (auto simp: simple_escape_def bytes_of_def split: if_splits intro!: utf8_ascii)

lemma string_feed_ok:
  assumes "string_ok s"
  shows "holds (\<lambda>(closed, s). string_ok s) (string_feed c s)"
proof -
  let ?s = "s\<lparr>js_escape := EscapeNone\<rparr>"
  have s: "string_ok ?s" using assms by (simp add: string_ok_def)
  have go: "holds (\<lambda>(closed, s). string_ok s) (and_then r (\<lambda>s. Ok (False, s)))" if "holds string_ok r" for r
    by (rule holds_bind [OF that]) simp
  have esc: "holds string_ok (with_capture ?s (capture_push bs (js_capture ?s)))" if "simple_escape c = Some bs" for bs
    using assms simple_escape_valid [OF that] capture_push_ok by (intro with_capture_ok) (simp_all add: string_ok_def)
  have uni: "holds string_ok (feed_unicode c v digits high ?s)" if "js_escape s = EscapeUnicode v digits high" for v digits high
    using assms that by (intro feed_unicode_ok) (simp_all add: string_ok_def)
  show ?thesis
    using go [OF feed_raw_ok [OF s, of c]] go [OF esc] go [OF uni] s assms
    by (auto simp: string_feed_def Let_def string_ok_def split: string_escape.splits option.splits)
qed

section \<open>What a parser holds\<close>

fun frame_context :: "json_frame \<Rightarrow> json_context" where
  "frame_context (ObjectFrame c _ _) = c"
| "frame_context (ArrayFrame c _) = c"

text \<open>Which context may be nested in which; a content part points into the list of parts.\<close>

definition nested_in :: "nat \<Rightarrow> json_context \<Rightarrow> json_context \<Rightarrow> bool" where
  "nested_in n outer inner \<longleftrightarrow>
     (case inner of
        CtxRoot \<Rightarrow> False
      | CtxPayload \<Rightarrow> outer = CtxRoot
      | CtxContentArray \<Rightarrow> outer = CtxPayload
      | CtxMetadata \<Rightarrow> outer = CtxPayload
      | CtxInternalMetadata \<Rightarrow> outer = CtxPayload
      | CtxContentPart i \<Rightarrow> outer = CtxContentArray \<and> i < n
      | CtxOther \<Rightarrow> True)"

fun nesting_ok :: "nat \<Rightarrow> json_context list \<Rightarrow> bool" where
  "nesting_ok n [] \<longleftrightarrow> True"
| "nesting_ok n [c] \<longleftrightarrow> c = CtxRoot"
| "nesting_ok n (c # d # cs) \<longleftrightarrow> nested_in n d c \<and> nesting_ok n (d # cs)"

definition stack_ok :: "nat \<Rightarrow> json_frame list \<Rightarrow> bool" where
  "stack_ok n st \<longleftrightarrow> length st \<le> MAX_STREAM_JSON_DEPTH \<and> nesting_ok n (map frame_context st)"

definition opt_ok :: "string option \<Rightarrow> bool" where
  "opt_ok v \<longleftrightarrow> (\<forall>s. v = Some s \<longrightarrow> text_ok s)"

definition part_ok :: "streamed_part \<Rightarrow> bool" where
  "part_ok p \<longleftrightarrow> opt_ok (spt_kind p) \<and> opt_ok (spt_text p)"

definition record_ok :: "streamed_record \<Rightarrow> bool" where
  "record_ok r \<longleftrightarrow>
     opt_ok (sr_top_type r) \<and> opt_ok (sr_payload_type r) \<and> opt_ok (sr_role r) \<and> opt_ok (sr_turn_id r) \<and>
     opt_ok (sr_internal_turn_id r) \<and> opt_ok (sr_metadata_turn_id r) \<and> opt_ok (sr_name r) \<and> opt_ok (sr_status r) \<and>
     opt_ok (sr_call_id r) \<and> opt_ok (sr_last_agent_message r) \<and>
     length (sr_parts r) \<le> MAX_STREAM_CONTENT_PARTS \<and> list_all part_ok (sr_parts r)"

fun lex_ok :: "json_lex \<Rightarrow> bool" where
  "lex_ok (LexString s) \<longleftrightarrow> string_ok s"
| "lex_ok (LexAtom a) \<longleftrightarrow> a \<noteq> [] \<and> length a \<le> 64"

definition parser_ok :: "stream_parser \<Rightarrow> bool" where
  "parser_ok p \<longleftrightarrow>
     stack_ok (length (sr_parts (sp_record p))) (sp_stack p) \<and> record_ok (sp_record p) \<and>
     (\<forall>l. sp_lex p = Some l \<longrightarrow> lex_ok l) \<and> (sp_complete p \<longrightarrow> sp_stack p = [] \<and> sp_lex p = None)"

lemma nested_mono: "nested_in n d c \<Longrightarrow> n \<le> m \<Longrightarrow> nested_in m d c"
  by (auto simp: nested_in_def split: json_context.splits)

lemma nesting_mono: "nesting_ok n cs \<Longrightarrow> n \<le> m \<Longrightarrow> nesting_ok m cs"
  by (induction n cs rule: nesting_ok.induct) (auto intro: nested_mono)

text \<open>Above the root or the payload there is no content part yet.\<close>

lemma nesting_outer:
  "nesting_ok n (CtxRoot # cs) \<Longrightarrow> nesting_ok m (CtxRoot # cs)"
  "nesting_ok n (CtxPayload # cs) \<Longrightarrow> nesting_ok m (CtxPayload # cs)"
proof -
  show *: "nesting_ok n (CtxRoot # cs) \<Longrightarrow> nesting_ok m (CtxRoot # cs)" for cs
    by (cases cs) (auto simp: nested_in_def)
  show "nesting_ok n (CtxPayload # cs) \<Longrightarrow> nesting_ok m (CtxPayload # cs)"
    using * by (cases cs) (auto simp: nested_in_def)
qed

lemma opt_ok_simps [simp]: "opt_ok None" "opt_ok (Some s) = text_ok s"
  by (simp_all add: opt_ok_def)

lemma set_part_ok:
  assumes "record_ok r" "\<And>p. part_ok p \<Longrightarrow> part_ok (f p)"
  shows "record_ok (set_part i f r)" "length (sr_parts (set_part i f r)) = length (sr_parts r)"
  using assms by (auto simp: set_part_def record_ok_def list_all_length nth_list_update)

lemma prepare_field_ok:
  assumes "record_ok r" "nesting_ok (length (sr_parts r)) (c # cs)"
  shows "record_ok (prepare_field c k r) \<and> nesting_ok (length (sr_parts (prepare_field c k r))) (c # cs)"
proof -
  have part: "record_ok (set_part i (\<lambda>p. p\<lparr>spt_kind := None\<rparr>) r)" "record_ok (set_part i (\<lambda>p. p\<lparr>spt_text := None\<rparr>) r)"
    "length (sr_parts (set_part i (\<lambda>p. p\<lparr>spt_kind := None\<rparr>) r)) = length (sr_parts r)"
    "length (sr_parts (set_part i (\<lambda>p. p\<lparr>spt_text := None\<rparr>) r)) = length (sr_parts r)" for i
    using set_part_ok [OF assms(1)] by (simp_all add: part_ok_def)
  show ?thesis
  proof (cases c)
    case CtxRoot
    then show ?thesis using assms nesting_outer(1) [of _ cs] by (auto simp: record_ok_def clear_payload_def)
  next
    case CtxPayload
    then show ?thesis using assms nesting_outer(2) [of _ cs] by (auto simp: record_ok_def)
  qed (use assms part in \<open>auto simp: record_ok_def\<close>)
qed

lemma record_field_ok:
  assumes "record_ok r" "text_ok v"
  shows "record_ok (record_field t v r) \<and> length (sr_parts (record_field t v r)) = length (sr_parts r)"
proof -
  have "record_ok (set_part i (\<lambda>p. p\<lparr>spt_kind := Some v\<rparr>) r)" "record_ok (set_part i (\<lambda>p. p\<lparr>spt_text := Some v\<rparr>) r)"
    "length (sr_parts (set_part i (\<lambda>p. p\<lparr>spt_kind := Some v\<rparr>) r)) = length (sr_parts r)"
    "length (sr_parts (set_part i (\<lambda>p. p\<lparr>spt_text := Some v\<rparr>) r)) = length (sr_parts r)" for i
    using set_part_ok [OF assms(1)] assms(2) by (simp_all add: part_ok_def)
  then show ?thesis using assms by (cases t) (auto simp: record_ok_def)
qed

lemma finish_scalar_shape:
  "finish_scalar st = Ok st' \<Longrightarrow> map frame_context st' = map frame_context st \<and> length st' = length st \<and> st \<noteq> []"
  by (erule finish_scalar.elims) (auto simp: sum.distinct)

lemma finish_scalar_holds: "holds (\<lambda>st'. map frame_context st' = map frame_context st \<and> length st' = length st \<and> st \<noteq> []) (finish_scalar st)"
proof (cases "finish_scalar st")
  case (Inl e)
  then have "e = InvalidRollout" by (cases st rule: finish_scalar.cases) auto
  then show ?thesis using Inl by simp
qed (use finish_scalar_shape in auto)

lemma stack_ok_shape: "map frame_context st' = map frame_context st \<Longrightarrow> stack_ok n st' \<longleftrightarrow> stack_ok n st"
  using map_eq_imp_length_eq [of frame_context st' frame_context st] by (simp add: stack_ok_def)

lemma new_string_ok: "string_ok (new_string key target)"
  by (auto simp: string_ok_def new_string_def capture_small_def capture_text_def utf8_marks split: field_target.split)

lemma set_object_state_ok: "parser_ok p \<Longrightarrow> holds parser_ok (set_object_state nxt p)"
  by (auto simp: set_object_state_def parser_ok_def stack_ok_def split: list.splits json_frame.splits)

lemma set_array_state_ok: "parser_ok p \<Longrightarrow> holds parser_ok (set_array_state nxt p)"
  by (auto simp: set_array_state_def parser_ok_def stack_ok_def split: list.splits json_frame.splits)

lemma nesting_tl: "nesting_ok n cs \<Longrightarrow> nesting_ok n (tl cs)"
  by (induction n cs rule: nesting_ok.induct) auto

lemma close_container_ok:
  assumes "parser_ok p" "sp_lex p = None"
  shows "holds parser_ok (close_container p)"
proof (cases "may_close (sp_stack p)")
  case True
  have ok: "length (sp_stack p) \<le> MAX_STREAM_JSON_DEPTH"
    "nesting_ok (length (sr_parts (sp_record p))) (map frame_context (sp_stack p))"
    using assms(1) by (simp_all add: parser_ok_def stack_ok_def)
  have "stack_ok (length (sr_parts (sp_record p))) (tl (sp_stack p))"
    using ok(1) nesting_tl [OF ok(2)] by (cases "sp_stack p") (simp_all add: stack_ok_def)
  moreover have "record_ok (sp_record p)" "\<forall>l. sp_lex p = Some l \<longrightarrow> lex_ok l" "\<not> sp_complete p"
    using assms True by (auto simp: parser_ok_def may_close_def)
  ultimately have "parser_ok (p\<lparr>sp_stack := tl (sp_stack p), sp_complete := (if tl (sp_stack p) = [] then True else sp_complete p)\<rparr>)"
    using assms(2) by (simp add: parser_ok_def)
  then show ?thesis unfolding close_container_def Let_def by (simp only: True not_True_eq_False if_False holds_simps)
qed (simp add: close_container_def)

lemma start_key_ok: "parser_ok p \<Longrightarrow> \<not> sp_complete p \<Longrightarrow> parser_ok (start_key p)"
  by (auto simp: parser_ok_def start_key_def new_string_ok)

lemma prepare_value_ok:
  assumes "record_ok r" "nesting_ok (length (sr_parts r)) (map frame_context st)"
  shows "record_ok (prepare_field_value st r) \<and> nesting_ok (length (sr_parts (prepare_field_value st r))) (map frame_context st)"
  using prepare_field_ok [OF assms(1)] assms
  by (auto simp: prepare_field_value_def split: list.splits json_frame.splits option.splits)

lemma child_context_ok:
  assumes "record_ok r" "nesting_ok (length (sr_parts r)) (map frame_context st)"
  shows "holds (\<lambda>(c, r'). record_ok r' \<and> nesting_ok (length (sr_parts r')) (c # map frame_context st)) (child_context st b r)"
proof (cases st)
  case Nil
  then show ?thesis by (simp add: child_context_def)
next
  case (Cons f fs)
  have grow: "nesting_ok (Suc (length (sr_parts r))) (frame_context f # map frame_context fs)"
    using nesting_mono [OF assms(2), of "Suc (length (sr_parts r))"] Cons by simp
  have "record_ok (r\<lparr>sr_payload_object := True\<rparr>)" using assms(1) by (simp add: record_ok_def)
  moreover have "record_ok (r\<lparr>sr_parts := sr_parts r @ [empty_part]\<rparr>)" if "length (sr_parts r) < MAX_STREAM_CONTENT_PARTS"
    using assms(1) that by (simp add: record_ok_def empty_part_def part_ok_def)
  ultimately show ?thesis
    using assms Cons grow by (cases f) (auto simp: child_context_def nested_in_def)
qed

lemma start_value_ok:
  assumes p: "parser_ok p" "\<not> sp_complete p" "sp_lex p = None"
  shows "holds parser_ok (start_value c p)"
proof -
  define q where "q = p\<lparr>sp_record := prepare_field_value (sp_stack p) (sp_record p)\<rparr>"
  have q: "record_ok (sp_record q)" "nesting_ok (length (sr_parts (sp_record q))) (map frame_context (sp_stack q))"
      "length (sp_stack q) \<le> MAX_STREAM_JSON_DEPTH" "\<not> sp_complete q" "sp_lex q = None"
    using p prepare_value_ok [of "sp_record p" "sp_stack p"] by (simp_all add: q_def parser_ok_def stack_ok_def)
  have lexed: "parser_ok (q\<lparr>sp_lex := Some l\<rparr>)" if "lex_ok l" for l
    using q that by (simp add: parser_ok_def stack_ok_def)
  have child: "holds parser_ok (and_then (child_context (sp_stack q) c (sp_record q)) (\<lambda>(ctx, r).
      and_then (finish_scalar (sp_stack q)) (\<lambda>st.
        if MAX_STREAM_JSON_DEPTH \<le> length st then Err InvalidRollout
        else Ok (q\<lparr>sp_record := r,
          sp_stack := (if byte c = 123 then ObjectFrame ctx FirstKeyOrEnd None
                       else ArrayFrame ctx FirstValueOrEnd) # st\<rparr>))))"
  proof (rule holds_bind [OF child_context_ok [OF q(1,2)]], clarify)
    fix ctx r
    assume r: "record_ok r" "nesting_ok (length (sr_parts r)) (ctx # map frame_context (sp_stack q))"
    show "holds parser_ok (and_then (finish_scalar (sp_stack q)) (\<lambda>st.
        if MAX_STREAM_JSON_DEPTH \<le> length st then Err InvalidRollout
        else Ok (q\<lparr>sp_record := r,
          sp_stack := (if byte c = 123 then ObjectFrame ctx FirstKeyOrEnd None
                       else ArrayFrame ctx FirstValueOrEnd) # st\<rparr>)))"
      by (rule holds_bind [OF finish_scalar_holds]) (use q r in \<open>auto simp: parser_ok_def stack_ok_def\<close>)
  qed
  show ?thesis
    using child lexed p(1) new_string_ok
    by (auto simp: start_value_def Let_def q_def [symmetric])
qed

lemma feed_structure_ok:
  assumes "parser_ok p" "sp_lex p = None"
  shows "holds parser_ok (feed_structure c p)"
proof (cases "sp_complete p")
  case False
  show ?thesis
  proof (cases "sp_stack p")
    case Nil
    then show ?thesis using assms False by (simp add: feed_structure_def parser_ok_def stack_ok_def MAX_STREAM_JSON_DEPTH_def)
  next
    case (Cons f fs)
    note rules = close_container_ok [OF assms] start_key_ok [OF assms(1) False] set_object_state_ok [OF assms(1)]
      set_array_state_ok [OF assms(1)] start_value_ok [OF assms(1) False assms(2)]
    show ?thesis
    proof (cases f)
      case (ObjectFrame ctx state key)
      then show ?thesis using Cons False rules assms(1) by (cases state) (simp_all add: feed_structure_def)
    next
      case (ArrayFrame ctx state)
      then show ?thesis using Cons False rules assms(1) by (cases state) (simp_all add: feed_structure_def)
    qed
  qed
qed (use assms in \<open>simp add: feed_structure_def\<close>)

lemma finish_string_ok:
  assumes p: "parser_ok p" "sp_lex p = None" and s: "string_ok s"
  shows "holds parser_ok (finish_string s p)"
  unfolding finish_string_def
proof (rule holds_bind [OF capture_finish_ok])
  show "capture_ok (js_capture s)" using s by (simp add: string_ok_def)
  fix v assume v: "text_ok v"
  have incomplete: "\<not> sp_complete p" if "sp_stack p \<noteq> []" using p that by (auto simp: parser_ok_def)
  have "holds parser_ok (and_then (finish_scalar (sp_stack p)) (\<lambda>st.
            Ok (p\<lparr>sp_stack := st, sp_record := record_field (js_target s) v (sp_record p)\<rparr>)))"
  proof (rule holds_bind [OF finish_scalar_holds])
    fix st assume st: "map frame_context st = map frame_context (sp_stack p) \<and> length st = length (sp_stack p) \<and> sp_stack p \<noteq> []"
    then show "holds parser_ok (Ok (p\<lparr>sp_stack := st, sp_record := record_field (js_target s) v (sp_record p)\<rparr>))"
      using p v incomplete record_field_ok [of "sp_record p" v "js_target s"] stack_ok_shape [of st "sp_stack p"]
      by (simp add: parser_ok_def)
  qed
  moreover have "holds parser_ok (Ok (p\<lparr>sp_stack := ObjectFrame ctx Colon (Some v) # st\<rparr>))"
    if "sp_stack p = ObjectFrame ctx state key # st" for ctx state key st
    using p that by (simp add: parser_ok_def stack_ok_def)
  ultimately show "holds parser_ok (if js_key s then
         (case sp_stack p of
            ObjectFrame ctx state _ # st \<Rightarrow>
              if state = FirstKeyOrEnd \<or> state = KeyNext
              then Ok (p\<lparr>sp_stack := ObjectFrame ctx Colon (Some v) # st\<rparr>)
              else Err InvalidRollout
          | _ \<Rightarrow> Err InvalidRollout)
       else and_then (finish_scalar (sp_stack p)) (\<lambda>st.
            Ok (p\<lparr>sp_stack := st, sp_record := record_field (js_target s) v (sp_record p)\<rparr>)))"
    by (auto split: list.split json_frame.split)
qed

lemma feed_byte_ok:
  assumes "parser_ok p"
  shows "holds parser_ok (feed_byte lib c p)"
proof (cases "sp_lex p")
  case None
  then show ?thesis using feed_structure_ok [OF assms None] by (simp add: feed_byte_def)
next
  case (Some l)
  have cleared: "parser_ok (p\<lparr>sp_lex := None\<rparr>)" and incomplete: "\<not> sp_complete p" and l: "lex_ok l"
    using assms Some by (auto simp: parser_ok_def)
  show ?thesis
  proof (cases l)
    case (LexString s)
    have "holds parser_ok (and_then (string_feed c s) (\<lambda>(closed, s).
            if closed then finish_string s (p\<lparr>sp_lex := None\<rparr>) else Ok (p\<lparr>sp_lex := Some (LexString s)\<rparr>)))"
      by (rule holds_bind [OF string_feed_ok])
        (use l LexString finish_string_ok [OF cleared] assms incomplete in \<open>auto simp: parser_ok_def\<close>)
    then show ?thesis using Some LexString by (simp add: feed_byte_def)
  next
    case (LexAtom a)
    have "holds parser_ok (and_then (ok_or InvalidRollout (rl_parse lib a)) (\<lambda>_.
            and_then (finish_scalar (sp_stack p)) (\<lambda>st. feed_structure c (p\<lparr>sp_lex := None, sp_stack := st\<rparr>))))"
    proof (rule holds_bind [of "\<lambda>_. True"])
      show "holds parser_ok (and_then (finish_scalar (sp_stack p)) (\<lambda>st. feed_structure c (p\<lparr>sp_lex := None, sp_stack := st\<rparr>)))"
      proof (rule holds_bind [OF finish_scalar_holds])
        fix st assume st: "map frame_context st = map frame_context (sp_stack p) \<and> length st = length (sp_stack p) \<and> sp_stack p \<noteq> []"
        then have "parser_ok (p\<lparr>sp_lex := None, sp_stack := st\<rparr>)"
          using cleared incomplete stack_ok_shape [of st "sp_stack p"] by (simp add: parser_ok_def)
        then show "holds parser_ok (feed_structure c (p\<lparr>sp_lex := None, sp_stack := st\<rparr>))" by (rule feed_structure_ok) simp
      qed
    qed (auto simp: ok_or_def split: option.split)
    then show ?thesis using Some LexAtom l assms incomplete by (auto simp: feed_byte_def parser_ok_def)
  qed
qed

lemma feed_ok: "parser_ok p \<Longrightarrow> holds parser_ok (feed lib cs p)"
proof (induction cs arbitrary: p)
  case (Cons c cs)
  have "holds parser_ok (and_then (feed_byte lib c p) (feed lib cs))"
    by (rule holds_bind [OF feed_byte_ok [OF Cons.prems]]) (rule Cons.IH)
  then show ?case by simp
qed simp

lemma feed_append: "feed lib (as @ bs) p = and_then (feed lib as p) (feed lib bs)"
proof (induction as arbitrary: p)
  case (Cons a as)
  then show ?case by (cases "feed_byte lib a p") auto
qed simp

lemma new_parser_ok: "parser_ok new_parser"
  by (simp add: parser_ok_def new_parser_def stack_ok_def record_ok_def empty_record_def MAX_STREAM_JSON_DEPTH_def)

lemma optional_field_texts: "opt_ok v \<Longrightarrow> s \<in> texts_of (optional_field k v) \<Longrightarrow> text_ok s"
  by (auto simp: texts_of_def optional_field_def opt_ok_def split: option.splits)

lemma turn_object_texts: "opt_ok v \<Longrightarrow> s \<in> texts_of (turn_object k v) \<Longrightarrow> text_ok s"
  by (auto simp: texts_of_def turn_object_def opt_ok_def split: option.splits)

lemma texts_of_append [simp]: "texts_of (a @ b) = texts_of a \<union> texts_of b"
  by (auto simp: texts_of_def)

lemma into_value_texts:
  assumes "record_ok r" "s \<in> set (json_texts (into_value r))"
  shows "text_ok s"
proof -
  have part: "text_ok s" if "p \<in> set (sr_parts r)" "s \<in> set (json_texts (part_value p))" for p
  proof -
    have "part_ok p" using assms(1) that(1) by (auto simp: record_ok_def list_all_iff)
    moreover have "s \<in> texts_of (optional_field ''type'' (spt_kind p) @ optional_field ''text'' (spt_text p))"
      using that(2) by (simp add: part_value_def texts_of_def)
    ultimately show ?thesis using optional_field_texts by (auto simp: part_ok_def)
  qed
  have "text_ok s" if "s \<in> texts_of (payload_entries r)"
    using that assms(1) optional_field_texts turn_object_texts part
    by (auto simp: payload_entries_def record_ok_def texts_of_def [of "[_]"] texts_of_def [of "[]"] split: if_splits)
  moreover have "s \<in> texts_of (optional_field ''type'' (sr_top_type r)) \<or> s \<in> texts_of (payload_entries r)"
    using assms(2) by (auto simp: into_value_def texts_of_def split: if_splits)
  ultimately show ?thesis using assms(1) optional_field_texts by (auto simp: record_ok_def)
qed

text \<open>C40: The streaming parser works in bounded memory: whatever bytes a line holds and however long it
  is, at every point the parser has failed with the error for a malformed rollout, or it holds at
  most 64 nested containers, 32 content parts and per field a valid text of at most 12 KiB; it
  never panics, and the value it finishes with has only such texts.\<close>

theorem streaming_parser_bounded:
  "case feed lib cs new_parser of
     Inl e \<Rightarrow> e = InvalidRollout
   | Inr p \<Rightarrow> parser_ok p \<and> (case finish_parser p of Inl e \<Rightarrow> e = InvalidRollout | Inr v \<Rightarrow> list_all text_ok (json_texts v))"
proof -
  have "holds parser_ok (feed lib cs new_parser)" by (rule feed_ok [OF new_parser_ok])
  then show ?thesis
    using into_value_texts by (auto simp: holds_def finish_parser_def parser_ok_def list_all_iff split: sum.splits if_splits)
qed

end
