(* ===== verification/Spec2Isabelle.thy ===== *)
theory Spec2Isabelle
  imports Playback_Witnesses Scheduler Summary_Runs Rollout_Stream
begin

text \<open>
  A model of the host service of the Codex keyboard, the Rust crate under \<open>src/app/host\<close>. The host binds
  the four slots of a keyboard to tasks of the Codex command line, turns dictated prompts into jobs,
  observes the completions that the tasks write into their rollout files, has them summarised and
  spoken, caches the recordings, and plays them on the keyboard over the LAN.

  \<^bold>\<open>How the parts interact.\<close> Voice packets become captures (\<open>Capture\<close>), captures become prompts, prompts
  become rows of the job table of the state database (\<open>Store_Jobs\<close>), and the scheduler starts and
  acknowledges workers for them (\<open>Scheduler\<close>). Lines of a rollout file become records
  (\<open>Rollout_Stream\<close> for long lines), records become turns (\<open>Rollout_Turns\<close>) of redacted texts
  (\<open>Rollout_Text\<close>), and a completed turn becomes a completion of the database together with the new
  cursor (\<open>Store_Completions\<close>). The orchestrator (\<open>Summary_Orchestrator\<close>) claims completions
  (\<open>Store_Summaries\<close>), obtains a document and a recording (\<open>Tts_Cache\<close>, \<open>Audio\<close>), publishes the recording
  in the encrypted cache (\<open>Cache_Store\<close>) and, from inside that publication, the summary in the database.
  A play request (\<open>Playback_Wire\<close>) takes a lease on the summary (\<open>Store_Leases\<close>), loads and transcodes
  the recording (\<open>Host_Playback\<close>) and hands it to the sender (\<open>Playback_Transfer\<close>); the summary is marked
  as heard when the keyboard has reported the whole recording as played.

  \<^bold>\<open>Theories and source files.\<close>

  \<^item> \<open>Prelude\<close>: bytes, words, results and the question-mark operator (\<open>and_then\<close>), checked
    arithmetic, and lemmas on lists, tables and words. \<open>Text_Checks\<close>: the text predicates of the
    standard library that validators use.
  \<^item> \<open>Playback_Wire\<close> models \<open>lan_playback.rs\<close>: all packets of the playback link in both directions.
    HMAC-SHA256 and AES-GCM are fields of a crypto record; a locale \<open>wire_codec\<close> gives
    \<open>accepts exactly what the encoder signs\<close> for the six control packets.
  \<^item> \<open>Audio\<close> models \<open>audio.rs\<close>: WAV and EIAD containers, the IMA ADPCM codec over words, the transcoding
    for the keyboard.
  \<^item> \<open>Capture\<close> and \<open>Playback_Transfer\<close> model \<open>lan_voice.rs\<close>: the capture assembler, and the sender of one
    playback (windows, acknowledgements, retries, time-outs) as a state machine with reachability.
  \<^item> \<open>Store_Schema\<close>, \<open>Store_Jobs\<close>, \<open>Store_Completions\<close>, \<open>Store_Summaries\<close>, \<open>Store_Leases\<close> model
    \<open>store.rs\<close>: one record per SQLite row, one list per table, one function per public operation;
    a transaction either returns the changed tables or leaves them. \<open>Store_Ledger\<close> holds the
    invariant of the summary ledger, \<open>Store_Machine\<close> the step relation over all operations with the
    locales \<open>store_invariant\<close> and \<open>store_evolution\<close> (interpreted for jobs, bindings, ledger and their
    histories), \<open>Store_Properties\<close> and \<open>Store_Witnesses\<close> the properties and a concrete history.
  \<^item> \<open>Task_Queue\<close> is the abstract first-in-first-out queue per task that the job table refines;
    \<open>Scheduler\<close> models \<open>prompt_queue.rs\<close> and \<open>bindings.rs\<close>.
  \<^item> \<open>Cache_Ids\<close>, \<open>Cache_Objects\<close>, \<open>Cache_Disk\<close>, \<open>Cache_Views\<close>, \<open>Cache_Store\<close> model \<open>cache.rs\<close> and the
    part of \<open>paths.rs\<close> that it calls: identities, encrypted objects, the directory tree, publication
    by rename, scanning, reading and reconciliation.
  \<^item> \<open>Tts_Cache\<close> models \<open>summary.rs\<close> and \<open>tts_cache.rs\<close>; \<open>Summary_Orchestrator\<close> models
    \<open>summary_orchestrator.rs\<close>; \<open>Summary_System\<close> and \<open>Summary_Runs\<close> compose them with the database and
    the cache.
  \<^item> \<open>Host_Playback\<close> models the host thread's part of \<open>health.rs\<close>; \<open>Playback_System\<close> composes it with the
    sender over the two channels, and \<open>Playback_Witnesses\<close> runs the composition.
  \<^item> \<open>Rollout_Text\<close>, \<open>Rollout_Turns\<close>, \<open>Rollout_Stream\<close> model \<open>rollout_observer.rs\<close> from a line to a
    turn pack: shortening and redaction, the turn builder, the streaming parser for long lines.

  \<^bold>\<open>Conventions.\<close> Machine integers are words, or natural numbers where the code checks them; strings are
  the strings of their UTF-8 bytes. Every error of the code is a constructor of an error datatype and
  an \<open>Inl\<close> value, and a panic of the code is a value of its own (\<open>ObserverPanic\<close>, or \<open>None\<close> where an
  operation has no other error), so that the absence of panics is a theorem. Cryptography, JSON printing
  and parsing, the UUID library, the clock and random numbers are parameters; a theorem that needs one
  of their laws (a round trip of printing and parsing, decryption of what was encrypted) states it as a
  hypothesis, and its witness instantiates it with concrete functions.

  \<^bold>\<open>What the lemmas show.\<close> \<open>Store_Properties\<close>: in every reachable database the constraints hold, no
  completion is lost, claims are acknowledged at most once, summaries become heard at most once, and an
  interrupted claim survives a restart. \<open>Task_Queue\<close> and \<open>Scheduler\<close>: the job table is a queue per task,
  the worker threads are exactly the running rows, and a tick terminates with four workers or no runnable
  job. \<open>Capture\<close>: captures consist of authenticated frames or silence, and losses within the limit are
  recovered. \<open>Playback_Transfer\<close> and \<open>Playback_System\<close>: offsets and retries stay in range, a silent keyboard
  is given up as long as sends succeed (and is not while they fail), a summary becomes heard only after every byte was sent, no lease is orphaned, and an
  unread summary can be played. \<open>Cache_Store\<close>: whichever system call fails and wherever a crash stops it, a
  publication shows nothing or the whole bundle, and reconciliation keeps what is referenced.
  \<open>Summary_System\<close>: every reference that the database retains reads back a playable recording.
  \<open>Rollout_Text\<close>: redacted texts hold no credential, and a link behind a character of several bytes
  panics the redaction. \<open>Rollout_Turns\<close> and \<open>Rollout_Stream\<close>: turns and the streaming parser are bounded,
  and reject malformed input with an error.

  \<^bold>\<open>Loops, faults and ghosts.\<close> Every loop is a terminating function with its measure (remaining bytes,
  remaining chunks, free workers, remaining table rows); no fuel is used. The disk carries a plan of
  which system calls fail and after which call the machine stops, so a theorem over all plans covers
  every failure and crash; it also carries the list of all trees it has shown, which only the theorems
  read. The keyboard is the environment: it may send any packet at any time.

  \<^bold>\<open>Not modelled.\<close> The clients of remote services and child processes (\<open>dashscope.rs\<close>, \<open>codex_catalog.rs\<close>,
  \<open>codex_runner.rs\<close>, \<open>spark_runner.rs\<close>) beyond the values they return; the secret store, provisioning,
  the launch agent, path checks, the command line and the service start; the control socket and status
  page of \<open>health.rs\<close> and the polling thread of the summaries; the opening of the cache and of the
  database file; the polling of the rollout files (reading in windows, anchors and digests); the variants
  for Windows; the desktop program and the firmware. SQLite itself never fails (no I/O or busy errors):
  an operation fails only for the reasons its statements and checks give. A crash of the disk leaves one
  of the trees that existed; data that was written but not flushed is not lost in the model. Sockets, threads and mutexes appear as the
  interleavings that the compositions allow.
\<close>

end
